(* ===== verification/Prelude.thy ===== *)
theory Prelude
  imports Main "HOL-Library.Word" "HOL-Library.Monad_Syntax"
begin

unbundle bit_operations_syntax

text \<open>
  Shared vocabulary of the development: the C types of the sources, checked C integers and
  array accesses, C strings and their formatting, circular windows over arrays, and the lemmas
  every component uses about them.

  A C function is modelled in the \<open>option\<close> monad when it can fail to have a meaning:
  \<open>None\<close> stands for a failed \<open>assert\<close>, an access out of bounds, the use of a dangling or null
  pointer, a signed overflow, or a loop that never ends. The error codes a C function returns
  (\<open>-1\<close>, \<open>NULL\<close>) are ordinary values of the model.
\<close>

section \<open>Collections\<close>

named_theorems model_defs \<open>definitions of the model, for unfolding one operation\<close>
named_theorems inv_defs \<open>definitions of the component invariants\<close>
named_theorems res_simps \<open>when an operation of the model returns\<close>

section \<open>C types\<close>

type_synonym u8 = "8 word"
type_synonym u16 = "16 word"
type_synonym u32 = "32 word"
type_synonym u64 = "64 word"
type_synonym addr = nat

definition INT_MAX :: int where "INT_MAX = 2147483647"
definition INT_MIN :: int where "INT_MIN = -2147483648"

text \<open>A C \<open>int\<close> is a HOL \<open>int\<close>; every operation that may leave the range goes through
  \<open>cint\<close>, since signed overflow has no meaning in C.\<close>

definition cint :: "int \<Rightarrow> int option" where
  "cint x = (if INT_MIN \<le> x \<and> x \<le> INT_MAX then Some x else None)"

lemma cint_eq_Some [res_simps]: "cint x = Some y \<longleftrightarrow> INT_MIN \<le> x \<and> x \<le> INT_MAX \<and> y = x"
  by (auto simp: cint_def)

lemma cint_in_range: "0 \<le> x \<Longrightarrow> x \<le> INT_MAX \<Longrightarrow> cint x = Some x"
  by (simp add: cint_def INT_MIN_def)

text \<open>The conversion of an unsigned value to \<open>int\<close> keeps the 32-bit pattern.\<close>

definition to_cint :: "u32 \<Rightarrow> int" where
  "to_cint w = sint w"

section \<open>Arrays\<close>

definition arr_get :: "'a list \<Rightarrow> int \<Rightarrow> 'a option" where
  "arr_get xs i = (if 0 \<le> i \<and> i < int (length xs) then Some (xs ! nat i) else None)"

definition arr_set :: "'a list \<Rightarrow> int \<Rightarrow> 'a \<Rightarrow> 'a list option" where
  "arr_set xs i v = (if 0 \<le> i \<and> i < int (length xs) then Some (xs[nat i := v]) else None)"

lemma arr_get_eq_Some [res_simps]:
  "arr_get xs i = Some v \<longleftrightarrow> 0 \<le> i \<and> i < int (length xs) \<and> v = xs ! nat i"
  by (auto simp: arr_get_def)

lemma arr_set_eq_Some [res_simps]:
  "arr_set xs i v = Some ys \<longleftrightarrow> 0 \<le> i \<and> i < int (length xs) \<and> ys = xs[nat i := v]"
  by (auto simp: arr_set_def)

lemma arr_get_int [simp]: "i < length xs \<Longrightarrow> arr_get xs (int i) = Some (xs ! i)"
  by (simp add: arr_get_def)

lemma arr_get_upd: "arr_get xs i = Some c \<Longrightarrow> arr_get (xs[nat i := v]) i = Some v"
  by (auto simp: arr_get_def split: if_splits)

lemma those_map_Some: "(\<And>x. x \<in> set xs \<Longrightarrow> f x = Some (g x)) \<Longrightarrow> those (map f xs) = Some (map g xs)"
  by (induction xs) auto

section \<open>Circular windows\<close>

text \<open>The \<open>n\<close> entries of an array from index \<open>h\<close> on, wrapping at its end.\<close>

definition ring_view :: "'a list \<Rightarrow> nat \<Rightarrow> nat \<Rightarrow> 'a list" where
  "ring_view xs h n = map (\<lambda>i. xs ! ((h + i) mod length xs)) [0..<n]"

lemma length_ring_view [simp]: "length (ring_view xs h n) = n"
  by (simp add: ring_view_def)

lemma ring_view_0 [simp]: "ring_view xs h 0 = []"
  by (simp add: ring_view_def)

lemma ring_view_Suc:
  assumes "h < length xs"
  shows "ring_view xs h (Suc n) = xs ! h # ring_view xs (Suc h mod length xs) n"
proof -
  have "[0..<Suc n] = 0 # map Suc [0..<n]"
    by (metis map_Suc_upt upt_conv_Cons zero_less_Suc)
  then show ?thesis
    using assms by (simp add: ring_view_def mod_add_left_eq o_def)
qed

lemma mod_shift_inj:
  assumes "i \<le> j" "j < L" "(h + i) mod L = (h + j) mod (L::nat)"
  shows "i = j"
proof -
  have "L dvd (h + j) - (h + i)"
    using assms by (metis add_le_cancel_left mod_eq_dvd_iff_nat)
  then show ?thesis
    using assms by (auto dest: dvd_imp_le)
qed

lemma ring_index_eq_iff:
  assumes "i < L" "j < (L::nat)"
  shows "(h + i) mod L = (h + j) mod L \<longleftrightarrow> i = j"
  using assms mod_shift_inj[of i j L h] mod_shift_inj[of j i L h] by (metis nat_le_linear)

text \<open>Writing just behind a window that is not full extends it by the written entry.\<close>

lemma ring_view_put:
  assumes "n < length xs"
  shows "ring_view (xs[(h + n) mod length xs := v]) h (Suc n) = ring_view xs h n @ [v]"
proof -
  have "(h + n) mod length xs < length xs"
    using assms by (intro mod_less_divisor) auto
  moreover have "xs[(h + n) mod length xs := v] ! ((h + i) mod length xs) = xs ! ((h + i) mod length xs)"
    if "i < n" for i
    using that assms by (simp add: ring_index_eq_iff nth_list_update)
  ultimately show ?thesis
    by (simp add: ring_view_def)
qed

text \<open>A full window, copied to the front of a larger array, is read from index 0.\<close>

lemma ring_view_prefix:
  assumes "ys = ring_view xs h n @ zs" "n \<le> length ys" "0 < length zs"
  shows "ring_view ys 0 n = ring_view xs h n"
  using assms by (auto simp: ring_view_def nth_append intro!: nth_equalityI)

text \<open>The distance between two indices of a circular array, without a division.\<close>

lemma wrap_diff:
  assumes "0 \<le> t" "t < c" "0 \<le> h" "h < (c::int)"
  shows "(t - h) mod c = (if t - h < 0 then t - h + c else t - h)"
proof (cases "t - h < 0")
  case True
  have "(t - h) mod c = (t - h + c) mod c" by simp
  also have "\<dots> = t - h + c"
    using True assms by (intro mod_pos_pos_trivial) auto
  finally show ?thesis using True by simp
next
  case False
  then show ?thesis using assms by simp
qed

text \<open>A ring buffer in an array of \<open>c\<close> entries: the window starts at \<open>h\<close>, and \<open>t\<close> is the index behind it.\<close>

abbreviation ring_count :: "int \<Rightarrow> int \<Rightarrow> int \<Rightarrow> nat" where
  "ring_count h t c \<equiv> nat ((t - h) mod c)"

definition ring_idx :: "int \<Rightarrow> int \<Rightarrow> int \<Rightarrow> bool" where
  "ring_idx h t c \<longleftrightarrow> 0 \<le> h \<and> h < c \<and> 0 \<le> t \<and> t < c"

abbreviation ring_step :: "int \<Rightarrow> int \<Rightarrow> int" where
  "ring_step i c \<equiv> (if i + 1 \<ge> c then 0 else i + 1)"

lemma ring_count_if: "ring_idx h t c \<Longrightarrow> int (ring_count h t c) = (if h \<le> t then t - h else t + c - h)"
  by (auto simp: ring_idx_def wrap_diff)

lemma ring_count_less: "ring_idx h t c \<Longrightarrow> ring_count h t c < nat c"
  by (simp add: ring_idx_def nat_less_iff)

lemma ring_count_zero: "ring_idx h t c \<Longrightarrow> ring_count h t c = 0 \<longleftrightarrow> h = t"
  by (auto simp: ring_idx_def wrap_diff split: if_splits)

lemma ring_tail_eq:
  assumes "ring_idx h t c"
  shows "nat t = (nat h + ring_count h t c) mod nat c"
proof -
  have "int (ring_count h t c) = (t - h) mod c"
    using assms by (simp add: ring_idx_def)
  then have "(h + int (ring_count h t c)) mod c = t mod c"
    by (simp add: mod_add_right_eq)
  moreover have "t mod c = t" using assms by (simp add: ring_idx_def)
  ultimately have "t = (h + int (ring_count h t c)) mod c" by simp
  then have "nat t = nat ((h + int (ring_count h t c)) mod c)" by simp
  also have "\<dots> = (nat h + ring_count h t c) mod nat c"
    using assms by (subst nat_mod_distrib) (auto simp: ring_idx_def nat_add_distrib)
  finally show ?thesis .
qed

text \<open>The head after an entry is taken.\<close>

lemma ring_take:
  assumes "ring_idx h t c" "h \<noteq> t"
  shows "ring_idx (ring_step h c) t c" "nat (ring_step h c) = Suc (nat h) mod nat c"
    "int (ring_count (ring_step h c) t c) = int (ring_count h t c) - 1"
    "length xs = nat c \<Longrightarrow> ring_view xs (nat h) (ring_count h t c) =
       xs ! nat h # ring_view xs (nat (ring_step h c)) (ring_count (ring_step h c) t c)"
proof -
  show ok: "ring_idx (ring_step h c) t c"
    using assms by (auto simp: ring_idx_def)
  show nh: "nat (ring_step h c) = Suc (nat h) mod nat c"
    using assms by (auto simp: ring_idx_def mod_Suc)
  show n: "int (ring_count (ring_step h c) t c) = int (ring_count h t c) - 1"
    unfolding ring_count_if[OF ok] ring_count_if[OF assms(1)] using assms by (auto simp: ring_idx_def)
  assume l: "length xs = nat c"
  have "ring_count h t c = Suc (ring_count (ring_step h c) t c)" using n by linarith
  moreover have "nat h < length xs" using l assms by (auto simp: ring_idx_def)
  ultimately show "ring_view xs (nat h) (ring_count h t c) =
       xs ! nat h # ring_view xs (nat (ring_step h c)) (ring_count (ring_step h c) t c)"
    unfolding nh using l by (simp only: ring_view_Suc)
qed

text \<open>The tail after an entry is written: the window has one entry more, unless it became full, in which
  case head and tail coincide.\<close>

lemma ring_write:
  assumes "ring_idx h t c"
  shows "ring_idx h (ring_step t c) c"
    "h = ring_step t c \<longleftrightarrow> Suc (ring_count h t c) = nat c"
    "h \<noteq> ring_step t c \<Longrightarrow> ring_count h (ring_step t c) c = Suc (ring_count h t c)"
    "length xs = nat c \<Longrightarrow>
       ring_view (xs[nat t := v]) (nat h) (Suc (ring_count h t c)) = ring_view xs (nat h) (ring_count h t c) @ [v]"
proof -
  show ok: "ring_idx h (ring_step t c) c"
    using assms by (auto simp: ring_idx_def)
  have e: "int (Suc (ring_count h t c)) = (if h \<le> t then t - h + 1 else t + c - h + 1)"
    using ring_count_if[OF assms] by simp
  have "h = ring_step t c \<longleftrightarrow> int (Suc (ring_count h t c)) = int (nat c)"
    unfolding e using assms by (auto simp: ring_idx_def)
  then show "h = ring_step t c \<longleftrightarrow> Suc (ring_count h t c) = nat c"
    by (simp only: of_nat_eq_iff)
  show "ring_count h (ring_step t c) c = Suc (ring_count h t c)" if "h \<noteq> ring_step t c"
  proof -
    have "int (ring_count h (ring_step t c) c) = int (Suc (ring_count h t c))"
      unfolding e ring_count_if[OF ok] using assms that by (auto simp: ring_idx_def)
    then show ?thesis by (simp only: of_nat_eq_iff)
  qed
  assume l: "length xs = nat c"
  show "ring_view (xs[nat t := v]) (nat h) (Suc (ring_count h t c)) = ring_view xs (nat h) (ring_count h t c) @ [v]"
    using ring_view_put[of "ring_count h t c" xs "nat h" v] ring_count_less[OF assms] ring_tail_eq[OF assms] l
    by simp
qed

text \<open>A full ring copied in order.\<close>

lemma ring_copy:
  assumes "0 \<le> h" "h < c" "length xs = nat c"
  shows "those (map (\<lambda>i. arr_get xs ((h + int i) mod c)) [0..<nat c]) = Some (ring_view xs (nat h) (nat c))"
  unfolding ring_view_def using assms
  by (intro those_map_Some) (simp add: res_simps nat_mod_distrib nat_add_distrib)

section \<open>Linked lists\<close>

text \<open>The nodes of a linked list through an array: \<open>nxt\<close> reads the pointer to the next node, a pointer
  is an index, \<open>p\<close> the first pointer of the list.\<close>

primrec chain :: "('n \<Rightarrow> nat option) \<Rightarrow> 'n list \<Rightarrow> nat option \<Rightarrow> nat list \<Rightarrow> bool" where
  "chain nxt nodes p [] \<longleftrightarrow> p = None"
| "chain nxt nodes p (k # ks) \<longleftrightarrow> p = Some k \<and> k < length nodes \<and> chain nxt nodes (nxt (nodes ! k)) ks"

lemma chain_upd [simp]: "k \<notin> set ks \<Longrightarrow> chain nxt (nodes[k := nd]) p ks = chain nxt nodes p ks"
  by (induction ks arbitrary: p) auto

lemma chain_bound: "chain nxt nodes p ks \<Longrightarrow> k \<in> set ks \<Longrightarrow> k < length nodes"
  by (induction ks arbitrary: p) auto

lemma chain_cong:
  "length nodes' = length nodes \<Longrightarrow> (\<And>k. k \<in> set ks \<Longrightarrow> nodes' ! k = nodes ! k) \<Longrightarrow>
     chain nxt nodes' p ks = chain nxt nodes p ks"
  by (induction ks arbitrary: p) auto

lemma chain_None [simp]: "chain nxt nodes None ks \<longleftrightarrow> ks = []"
  by (cases ks) auto

lemma chain_Some: "chain nxt nodes (Some k) ks \<Longrightarrow> \<exists>ks'. ks = k # ks' \<and> k < length nodes \<and> chain nxt nodes (nxt (nodes ! k)) ks'"
  by (cases ks) auto

text \<open>Longer arrays keep the lists of a shorter one.\<close>

lemma chain_append: "chain nxt nodes p ks \<Longrightarrow> chain nxt (nodes @ more) p ks"
  by (induction ks arbitrary: p) (auto simp: nth_append)

text \<open>Appending a node: the last node points to it, and it points nowhere.\<close>

lemma chain_snoc:
  assumes "chain nxt nodes p ks" "ks \<noteq> []" "distinct ks" "m \<notin> set ks" "m < length nodes"
    "length nodes' = length nodes" "\<And>k. k \<in> set (butlast ks) \<Longrightarrow> nodes' ! k = nodes ! k"
    "nxt (nodes' ! last ks) = Some m" "nxt (nodes' ! m) = None"
  shows "chain nxt nodes' p (ks @ [m])"
  using assms
proof (induction ks arbitrary: p)
  case (Cons k ks)
  then show ?case by (cases ks) auto
qed simp

section \<open>Lists and words\<close>

lemma find_SomeD: "find P xs = Some x \<Longrightarrow> x \<in> set xs \<and> P x"
  by (induction xs) (auto split: if_splits)

lemma in_set_fill:
  assumes "i < length xs" "xs ! i = None"
  shows "Some c \<in> set (xs[i := Some v]) \<longleftrightarrow> c = v \<or> Some c \<in> set xs"
proof
  assume "Some c \<in> set (xs[i := Some v])"
  then show "c = v \<or> Some c \<in> set xs"
    using set_update_subset_insert[of xs i "Some v"] by auto
next
  assume "c = v \<or> Some c \<in> set xs"
  then show "Some c \<in> set (xs[i := Some v])"
    using assms by (metis in_set_conv_nth length_list_update nth_list_update_neq option.distinct(1)
        set_update_memI)
qed

lemma unat_and_mask: "unat (w AND word_of_int (2 ^ k - 1)) = unat w mod 2 ^ k"
  for w :: "'a::len word"
proof -
  have "(word_of_int (2 ^ k - 1) :: 'a word) = mask k"
    by (simp add: mask_eq_exp_minus_1)
  then show ?thesis
    by (metis take_bit_eq_mask take_bit_eq_mod unsigned_take_bit_eq)
qed

lemma unat_32 [simp]: "unat (w :: u32) < 4294967296"
  using unsigned_less[of w] by simp

lemma unat_drop_div: "unat (drop_bit n w) = unat w div 2 ^ n"
  unfolding unat_drop_bit_eq by (rule drop_bit_eq_div)

lemma unat_wrap: "(w::u32) + 1 = 0 \<Longrightarrow> unat w = 2 ^ 32 - 1"
proof -
  assume "w + 1 = 0"
  then have "w = -1" by (simp add: eq_neg_iff_add_eq_0)
  then show ?thesis by (simp add: unsigned_minus_1_eq_mask mask_eq_exp_minus_1)
qed

lemma unat_Suc_32: "(w::u32) + 1 \<noteq> 0 \<Longrightarrow> unat (w + 1) = Suc (unat w)"
  using unatSuc[of w] by (simp add: add.commute)

text \<open>Bytes put together to a word.\<close>

lemma unat_push_or:
  fixes x :: u32 and b :: u8
  assumes "unat x < 2 ^ 24"
  shows "unat (push_bit 8 x OR ucast b) = unat x * 256 + unat b"
proof -
  have "push_bit 8 x AND ucast b = 0"
    by (rule bit_eqI) (auto simp: bit_simps dest: bit_imp_le_length)
  then have "push_bit 8 x OR ucast b = push_bit 8 x + ucast b"
    by (simp add: disjunctive_add_eq_or)
  moreover have "unat (push_bit 8 x) = unat x * 256"
    using assms by (simp add: push_bit_eq_mult unat_word_ariths)
  moreover have lt: "unat b < 256" using unsigned_less[of b] by simp
  moreover have "unat (ucast b :: u32) = unat b" using lt by (simp add: unsigned_ucast_eq take_bit_nat_eq_self)
  ultimately show ?thesis
    using assms by (simp add: unat_word_ariths)
qed
lemma unat_be4: "unat (push_bit 24 (ucast a) OR push_bit 16 (ucast b) OR push_bit 8 (ucast c) OR ucast (d :: u8) :: u32) =
   ((unat (a :: u8) * 256 + unat (b :: u8)) * 256 + unat (c :: u8)) * 256 + unat d"
proof -
  have lt: "unat a < 256" "unat b < 256" "unat c < 256" using unsigned_less[of a] unsigned_less[of b] unsigned_less[of c] by auto
  have a: "unat (ucast a :: u32) = unat a" using lt by (simp add: unsigned_ucast_eq take_bit_nat_eq_self)
  have e: "push_bit 24 (ucast a) OR push_bit 16 (ucast b) OR push_bit 8 (ucast c) OR ucast d =
     (push_bit 8 (push_bit 8 (push_bit 8 (ucast a) OR ucast b) OR ucast c) OR ucast d :: u32)"
    by (simp add: or.assoc)
  have 1: "unat (push_bit 8 (ucast a) OR ucast b :: u32) = unat a * 256 + unat b"
    using lt a by (subst unat_push_or) auto
  have 2: "unat (push_bit 8 (push_bit 8 (ucast a) OR ucast b) OR ucast c :: u32) = (unat a * 256 + unat b) * 256 + unat c"
    using lt 1 by (subst unat_push_or) auto
  show ?thesis
    unfolding e using lt 2 by (subst unat_push_or) auto
qed

end
