(* ===== verification/Fifo_Spec.thy ===== *)
theory Fifo_Spec
  imports Prelude
begin

text \<open>
  The contract of a bounded first-in first-out queue, as its clients see it: a list abstraction,
  an invariant, and the laws of its two operations. Every sequence of operations then returns what
  the same sequence returns on a plain list. The ring buffers of \<open>skynet_mq.c\<close>,
  \<open>lua-netpack.c\<close> and \<open>service_harbor.c\<close> are proved to satisfy the contract.
\<close>

datatype 'a qop = Put 'a | Take

text \<open>Running a sequence of operations; the results of the \<open>Take\<close>s are collected.\<close>

fun fifo_run :: "('a \<Rightarrow> 'q \<Rightarrow> 'q option) \<Rightarrow> ('q \<Rightarrow> ('a option \<times> 'q) option) \<Rightarrow>
    'a qop list \<Rightarrow> 'q \<Rightarrow> ('a option list \<times> 'q) option" where
  "fifo_run put get [] q = Some ([], q)"
| "fifo_run put get (Put x # ops) q = do { q' \<leftarrow> put x q; fifo_run put get ops q' }"
| "fifo_run put get (Take # ops) q = do {
     (r, q') \<leftarrow> get q;
     (rs, q'') \<leftarrow> fifo_run put get ops q';
     Some (r # rs, q'') }"

fun list_run :: "'a qop list \<Rightarrow> 'a list \<Rightarrow> 'a option list \<times> 'a list" where
  "list_run [] xs = ([], xs)"
| "list_run (Put x # ops) xs = list_run ops (xs @ [x])"
| "list_run (Take # ops) [] = (None # fst (list_run ops []), snd (list_run ops []))"
| "list_run (Take # ops) (x # xs) = (Some x # fst (list_run ops xs), snd (list_run ops xs))"

fun puts :: "'a qop list \<Rightarrow> nat" where
  "puts [] = 0"
| "puts (Put x # ops) = Suc (puts ops)"
| "puts (Take # ops) = puts ops"

locale bounded_fifo =
  fixes abs_list :: "'q \<Rightarrow> 'a list"
    and invar :: "'q \<Rightarrow> bool"
    and bound :: nat
    and put :: "'a \<Rightarrow> 'q \<Rightarrow> 'q option"
    and get :: "'q \<Rightarrow> ('a option \<times> 'q) option"
  assumes put_law: "invar q \<Longrightarrow> length (abs_list q) < bound \<Longrightarrow>
      \<exists>q'. put x q = Some q' \<and> invar q' \<and> abs_list q' = abs_list q @ [x]"
    and get_empty_law: "invar q \<Longrightarrow> abs_list q = [] \<Longrightarrow>
      \<exists>q'. get q = Some (None, q') \<and> invar q' \<and> abs_list q' = []"
    and get_law: "invar q \<Longrightarrow> abs_list q = x # xs \<Longrightarrow>
      \<exists>q'. get q = Some (Some x, q') \<and> invar q' \<and> abs_list q' = xs"
begin

theorem run_refines:
  assumes "invar q" "length (abs_list q) + puts ops \<le> bound"
  shows "\<exists>q'. fifo_run put get ops q = Some (fst (list_run ops (abs_list q)), q') \<and>
           invar q' \<and> abs_list q' = snd (list_run ops (abs_list q))"
  using assms
proof (induction ops arbitrary: q)
  case Nil
  then show ?case by simp
next
  case (Cons op ops)
  show ?case
  proof (cases op)
    case (Put x)
    with Cons.prems obtain q' where "put x q = Some q'" "invar q'" "abs_list q' = abs_list q @ [x]"
      using put_law[of q x] by auto
    with Put Cons.IH[of q'] Cons.prems show ?thesis by simp
  next
    case Take
    show ?thesis
    proof (cases "abs_list q")
      case Nil
      with Cons.prems obtain q' where "get q = Some (None, q')" "invar q'" "abs_list q' = []"
        using get_empty_law[of q] by auto
      with Take Nil Cons.IH[of q'] Cons.prems show ?thesis by fastforce
    next
      case (Cons y ys)
      with Cons.prems obtain q' where "get q = Some (Some y, q')" "invar q'" "abs_list q' = ys"
        using get_law[of q y ys] by auto
      with Take Cons Cons.IH[of q'] Cons.prems show ?thesis by fastforce
    qed
  qed
qed

text \<open>Filling an empty queue and draining it returns the elements in order.\<close>

corollary fill_drain:
  assumes "invar q" "abs_list q = []" "length xs \<le> bound"
  shows "\<exists>q'. fifo_run put get (map Put xs @ replicate (length xs) Take) q = Some (map Some xs, q') \<and>
           invar q' \<and> abs_list q' = []"
proof -
  have put: "list_run (map Put xs @ ops) ys = list_run ops (ys @ xs)" for ops ys
    by (induction xs arbitrary: ys) auto
  have drain: "list_run (replicate (length ys) Take) ys = (map Some ys, [])" for ys
    by (induction ys) auto
  have "puts (map Put xs @ replicate n Take) = length xs" for n
  proof (induction xs)
    case Nil
    show ?case by (induction n) auto
  qed simp
  then show ?thesis
    using run_refines[OF assms(1), of "map Put xs @ replicate (length xs) Take"] assms
    by (simp add: put drain)
qed

end

end
