(* ===== verification/SkynetMQ.thy ===== *)
theory SkynetMQ
  imports Fifo_Spec
begin

text \<open>
  The message queues of \<open>skynet-src/skynet_mq.c\<close>: the per-service ring buffer
  \<open>struct message_queue\<close>, the global list of queues that have work, and the operations on both.
  Queues live in a store indexed by addresses, because the global list is threaded through the
  \<open>next\<close> field of the queues. Every operation holds the spin lock of the object it touches, so
  an operation is one atomic function on the state; the state type is extensible, and the node
  state of the server extends it.
\<close>

section \<open>State\<close>

record skynet_message =
  msg_source :: u32
  msg_session :: int
  msg_data :: "addr option"
  msg_sz :: u64

definition DEFAULT_QUEUE_SIZE :: int where "DEFAULT_QUEUE_SIZE = 64"
definition MQ_IN_GLOBAL :: int where "MQ_IN_GLOBAL = 1"
definition MQ_OVERLOAD :: int where "MQ_OVERLOAD = 1024"

text \<open>A slot of the ring that was never written holds \<open>None\<close> (fresh memory).\<close>

record message_queue =
  mq_handle :: u32
  mq_cap :: int
  mq_head :: int
  mq_tail :: int
  mq_release :: int
  mq_in_global :: int
  mq_overload :: int
  mq_overload_threshold :: int
  mq_queue :: "skynet_message option list"
  mq_next :: "addr option"

text \<open>\<open>gq_head\<close> and \<open>gq_tail\<close> are the fields of \<open>struct global_queue\<close>; \<open>mq_brk\<close> is the next
  address the allocator hands out for a queue.\<close>

record mq_state =
  gq_head :: "addr option"
  gq_tail :: "addr option"
  mq_store :: "addr \<rightharpoonup> message_queue"
  mq_brk :: addr

section \<open>The global queue\<close>

definition mq_write :: "addr \<Rightarrow> message_queue \<Rightarrow> 'x mq_state_scheme \<Rightarrow> 'x mq_state_scheme" where
  "mq_write a mq st = st\<lparr>mq_store := (mq_store st)(a \<mapsto> mq)\<rparr>"

definition skynet_globalmq_push :: "addr \<Rightarrow> 'x mq_state_scheme \<Rightarrow> 'x mq_state_scheme option" where
  "skynet_globalmq_push a st = do {
     mq \<leftarrow> mq_store st a;
     if mq_next mq \<noteq> None then None
     else case gq_tail st of
       Some t \<Rightarrow> do {
         tq \<leftarrow> mq_store st t;
         Some ((mq_write t (tq\<lparr>mq_next := Some a\<rparr>) st)\<lparr>gq_tail := Some a\<rparr>) }
     | None \<Rightarrow> Some (st\<lparr>gq_head := Some a, gq_tail := Some a\<rparr>) }"

definition skynet_globalmq_pop :: "'x mq_state_scheme \<Rightarrow> (addr option \<times> 'x mq_state_scheme) option" where
  "skynet_globalmq_pop st =
     (case gq_head st of
        None \<Rightarrow> Some (None, st)
      | Some a \<Rightarrow> do {
          mq \<leftarrow> mq_store st a;
          if mq_next mq = None \<and> gq_tail st \<noteq> Some a then None
          else Some (Some a,
            (mq_write a (mq\<lparr>mq_next := None\<rparr>) st)
              \<lparr>gq_head := mq_next mq,
               gq_tail := (if mq_next mq = None then None else gq_tail st)\<rparr>) })"

definition skynet_mq_init :: "'x mq_state_scheme \<Rightarrow> 'x mq_state_scheme" where
  "skynet_mq_init st = st\<lparr>gq_head := None, gq_tail := None\<rparr>"

section \<open>One queue\<close>

definition new_message_queue :: "u32 \<Rightarrow> message_queue" where
  "new_message_queue handle =
     \<lparr>mq_handle = handle, mq_cap = DEFAULT_QUEUE_SIZE, mq_head = 0, mq_tail = 0,
      mq_release = 0, mq_in_global = MQ_IN_GLOBAL, mq_overload = 0,
      mq_overload_threshold = MQ_OVERLOAD,
      mq_queue = replicate (nat DEFAULT_QUEUE_SIZE) None, mq_next = None\<rparr>"

definition skynet_mq_create :: "u32 \<Rightarrow> 'x mq_state_scheme \<Rightarrow> addr \<times> 'x mq_state_scheme" where
  "skynet_mq_create handle st =
     (mq_brk st, (mq_write (mq_brk st) (new_message_queue handle) st)\<lparr>mq_brk := Suc (mq_brk st)\<rparr>)"

definition mq_free :: "addr \<Rightarrow> 'x mq_state_scheme \<Rightarrow> 'x mq_state_scheme option" where
  "mq_free a st = do {
     mq \<leftarrow> mq_store st a;
     if mq_next mq \<noteq> None then None
     else Some (st\<lparr>mq_store := (mq_store st)(a := None)\<rparr>) }"

definition skynet_mq_handle :: "message_queue \<Rightarrow> u32" where
  "skynet_mq_handle q = mq_handle q"

definition skynet_mq_length :: "message_queue \<Rightarrow> int" where
  "skynet_mq_length q =
     (let head = mq_head q; tail = mq_tail q; cap = mq_cap q
      in if head \<le> tail then tail - head else tail + cap - head)"

definition skynet_mq_overload :: "message_queue \<Rightarrow> int \<times> message_queue" where
  "skynet_mq_overload q =
     (if mq_overload q \<noteq> 0 then (mq_overload q, q\<lparr>mq_overload := 0\<rparr>) else (0, q))"

text \<open>The loop \<open>while (length > overload_threshold)\<close> of \<open>skynet_mq_pop\<close>; it returns the new
  \<open>overload\<close> and \<open>overload_threshold\<close>.\<close>

partial_function (option) overload_loop :: "int \<Rightarrow> int \<Rightarrow> int \<Rightarrow> (int \<times> int) option" where
  "overload_loop len overload threshold =
     (if len > threshold
      then (case cint (threshold * 2) of None \<Rightarrow> None | Some th \<Rightarrow> overload_loop len len th)
      else Some (overload, threshold))"

declare overload_loop.simps [code]

definition skynet_mq_pop :: "message_queue \<Rightarrow> (skynet_message option \<times> message_queue) option" where
  "skynet_mq_pop q =
     (if mq_head q \<noteq> mq_tail q then do {
        slot \<leftarrow> arr_get (mq_queue q) (mq_head q);
        message \<leftarrow> slot;
        head \<leftarrow> cint (mq_head q + 1);
        let head = (if head \<ge> mq_cap q then 0 else head);
        let len = mq_tail q - head;
        let len = (if len < 0 then len + mq_cap q else len);
        (overload, threshold) \<leftarrow> overload_loop len (mq_overload q) (mq_overload_threshold q);
        Some (Some message,
          q\<lparr>mq_head := head, mq_overload := overload, mq_overload_threshold := threshold\<rparr>) }
      else Some (None, q\<lparr>mq_overload_threshold := MQ_OVERLOAD, mq_in_global := 0\<rparr>))"

definition expand_queue :: "message_queue \<Rightarrow> message_queue option" where
  "expand_queue q = do {
     cap \<leftarrow> cint (mq_cap q * 2);
     copied \<leftarrow> those (map (\<lambda>i. arr_get (mq_queue q) ((mq_head q + int i) mod mq_cap q)) [0..<nat (mq_cap q)]);
     Some (q\<lparr>mq_head := 0, mq_tail := mq_cap q, mq_cap := cap,
             mq_queue := copied @ replicate (nat (mq_cap q)) None\<rparr>) }"

text \<open>The part of \<open>skynet_mq_push\<close> that writes the ring.\<close>

definition mq_put :: "skynet_message \<Rightarrow> message_queue \<Rightarrow> message_queue option" where
  "mq_put message q = do {
     buf \<leftarrow> arr_set (mq_queue q) (mq_tail q) (Some message);
     tail \<leftarrow> cint (mq_tail q + 1);
     let tail = (if tail \<ge> mq_cap q then 0 else tail);
     let q' = q\<lparr>mq_queue := buf, mq_tail := tail\<rparr>;
     if mq_head q' = mq_tail q' then expand_queue q' else Some q' }"

definition skynet_mq_push :: "addr \<Rightarrow> skynet_message \<Rightarrow> 'x mq_state_scheme \<Rightarrow> 'x mq_state_scheme option" where
  "skynet_mq_push a message st = do {
     q \<leftarrow> mq_store st a;
     q' \<leftarrow> mq_put message q;
     if mq_in_global q' = 0
     then skynet_globalmq_push a (mq_write a (q'\<lparr>mq_in_global := MQ_IN_GLOBAL\<rparr>) st)
     else Some (mq_write a q' st) }"

definition skynet_mq_mark_release :: "addr \<Rightarrow> 'x mq_state_scheme \<Rightarrow> 'x mq_state_scheme option" where
  "skynet_mq_mark_release a st = do {
     q \<leftarrow> mq_store st a;
     if mq_release q \<noteq> 0 then None
     else let st' = mq_write a (q\<lparr>mq_release := 1\<rparr>) st
          in if mq_in_global q \<noteq> MQ_IN_GLOBAL then skynet_globalmq_push a st' else Some st' }"

text \<open>The \<open>while\<close> loop of \<open>_drop_queue\<close>; \<open>drop_func\<close> is the callback its callers pass.\<close>

partial_function (option) drop_loop ::
  "(skynet_message \<Rightarrow> 'x mq_state_scheme \<Rightarrow> 'x mq_state_scheme option) \<Rightarrow> addr \<Rightarrow>
   'x mq_state_scheme \<Rightarrow> 'x mq_state_scheme option" where
  "drop_loop drop_func a st =
     (case mq_store st a of None \<Rightarrow> None | Some q \<Rightarrow>
      (case skynet_mq_pop q of None \<Rightarrow> None | Some (m, q') \<Rightarrow>
       (case m of
          None \<Rightarrow> Some (mq_write a q' st)
        | Some message \<Rightarrow>
            (case drop_func message (mq_write a q' st) of None \<Rightarrow> None
             | Some st' \<Rightarrow> drop_loop drop_func a st'))))"

declare drop_loop.simps [code]

definition drop_queue ::
  "(skynet_message \<Rightarrow> 'x mq_state_scheme \<Rightarrow> 'x mq_state_scheme option) \<Rightarrow> addr \<Rightarrow>
   'x mq_state_scheme \<Rightarrow> 'x mq_state_scheme option" where
  "drop_queue drop_func a st = do { st' \<leftarrow> drop_loop drop_func a st; mq_free a st' }"

definition skynet_mq_release ::
  "(skynet_message \<Rightarrow> 'x mq_state_scheme \<Rightarrow> 'x mq_state_scheme option) \<Rightarrow> addr \<Rightarrow>
   'x mq_state_scheme \<Rightarrow> 'x mq_state_scheme option" where
  "skynet_mq_release drop_func a st = do {
     q \<leftarrow> mq_store st a;
     if mq_release q \<noteq> 0 then drop_queue drop_func a st else skynet_globalmq_push a st }"

section \<open>The ring refines a list\<close>

definition mq_count :: "message_queue \<Rightarrow> nat" where
  "mq_count q = nat ((mq_tail q - mq_head q) mod mq_cap q)"

definition mq_list :: "message_queue \<Rightarrow> skynet_message list" where
  "mq_list q = map the (ring_view (mq_queue q) (nat (mq_head q)) (mq_count q))"

definition mq_ok :: "message_queue \<Rightarrow> bool" where
  "mq_ok q \<longleftrightarrow>
     0 < mq_cap q \<and> mq_cap q \<le> 2 ^ 30 \<and> length (mq_queue q) = nat (mq_cap q) \<and>
     0 \<le> mq_head q \<and> mq_head q < mq_cap q \<and> 0 \<le> mq_tail q \<and> mq_tail q < mq_cap q \<and>
     None \<notin> set (ring_view (mq_queue q) (nat (mq_head q)) (mq_count q)) \<and>
     0 < mq_overload_threshold q"

lemma mq_idx: "mq_ok q \<Longrightarrow> ring_idx (mq_head q) (mq_tail q) (mq_cap q)"
  by (simp add: mq_ok_def ring_idx_def)

lemma mq_count_less: "mq_ok q \<Longrightarrow> mq_count q < length (mq_queue q)"
  using ring_count_less[OF mq_idx] by (simp add: mq_ok_def mq_count_def)

lemma mq_count_zero: "mq_ok q \<Longrightarrow> mq_count q = 0 \<longleftrightarrow> mq_head q = mq_tail q"
  unfolding mq_count_def by (intro ring_count_zero mq_idx)

lemma mq_count_if:
  "mq_ok q \<Longrightarrow> int (mq_count q) = (if mq_head q \<le> mq_tail q then mq_tail q - mq_head q
     else mq_tail q + mq_cap q - mq_head q)"
  unfolding mq_count_def by (intro ring_count_if mq_idx)

text \<open>The overload loop ends and the threshold it leaves is at least the length.\<close>

lemma overload_loop_returns:
  assumes "0 < th" "len \<le> 2 ^ 30"
  shows "\<exists>ov' th'. overload_loop len ov th = Some (ov', th') \<and> 0 < th' \<and> len \<le> th' \<and> th \<le> th' \<and>
           ov' = (if len > th then len else ov)"
  using assms(1)
proof (induction "nat (len - th)" arbitrary: ov th rule: less_induct)
  case less
  show ?case
  proof (cases "len > th")
    case True
    then have step: "overload_loop len ov th = overload_loop len len (th * 2)"
      using less.prems assms(2)
      by (subst overload_loop.simps) (simp add: cint_def INT_MIN_def INT_MAX_def)
    have "\<exists>ov' th'. overload_loop len len (th * 2) = Some (ov', th') \<and> 0 < th' \<and> len \<le> th' \<and>
        th * 2 \<le> th' \<and> ov' = (if len > th * 2 then len else len)"
      using less.prems True by (intro less.hyps) auto
    with True less.prems show ?thesis
      unfolding step by force
  next
    case False
    with less.prems show ?thesis by (subst overload_loop.simps) auto
  qed
qed

lemma skynet_mq_length_count: "mq_ok q \<Longrightarrow> skynet_mq_length q = int (mq_count q)"
  by (simp add: skynet_mq_length_def mq_count_if)

lemma mq_pop_empty:
  assumes "mq_head q = mq_tail q"
  shows "skynet_mq_pop q = Some (None, q\<lparr>mq_overload_threshold := MQ_OVERLOAD, mq_in_global := 0\<rparr>)"
  using assms by (simp add: skynet_mq_pop_def)

lemma mq_list_eq_Nil: "mq_ok q \<Longrightarrow> mq_list q = [] \<longleftrightarrow> mq_head q = mq_tail q"
  by (simp add: mq_list_def mq_count_zero flip: length_0_conv)

lemma length_mq_list [simp]: "length (mq_list q) = mq_count q"
  by (simp add: mq_list_def)

lemma mq_pop_cons:
  assumes ok: "mq_ok q" and ne: "mq_head q \<noteq> mq_tail q"
  shows "\<exists>m q'. skynet_mq_pop q = Some (Some m, q') \<and> mq_ok q' \<and> mq_list q = m # mq_list q' \<and>
           mq_in_global q' = mq_in_global q \<and> mq_next q' = mq_next q \<and> mq_release q' = mq_release q \<and>
           mq_handle q' = mq_handle q \<and> mq_count q \<le> Suc (nat (mq_overload_threshold q')) \<and>
           mq_overload q' = (if int (mq_count q) - 1 > mq_overload_threshold q
                             then int (mq_count q) - 1 else mq_overload q)"
proof -
  define h where "h = ring_step (mq_head q) (mq_cap q)"
  define len where "len = (if mq_tail q - h < 0 then mq_tail q - h + mq_cap q else mq_tail q - h)"
  note tk = ring_take[OF mq_idx[OF ok] ne, folded h_def mq_count_def]
  have idx: "0 \<le> h" "h < mq_cap q" "0 \<le> mq_tail q" "mq_tail q < mq_cap q"
    using tk(1) by (auto simp: ring_idx_def)
  define n where "n = ring_count h (mq_tail q) (mq_cap q)"
  have view: "ring_view (mq_queue q) (nat (mq_head q)) (mq_count q) =
      mq_queue q ! nat (mq_head q) # ring_view (mq_queue q) (nat h) n"
    using tk(4)[of "mq_queue q"] ok by (simp add: mq_ok_def n_def)
  then obtain m where m: "mq_queue q ! nat (mq_head q) = Some m"
    using ok by (cases "mq_queue q ! nat (mq_head q)") (auto simp: mq_ok_def)
  have len_n: "len = int n" "int n = int (mq_count q) - 1"
    using tk(3) ring_count_if[OF tk(1)] by (auto simp: len_def n_def)
  have "len \<le> 2 ^ 30"
    using len_n mq_count_less[OF ok] ok by (auto simp: mq_ok_def)
  then obtain ov th where ol: "overload_loop len (mq_overload q) (mq_overload_threshold q) = Some (ov, th)"
    and th: "0 < th" "len \<le> th" and ov: "ov = (if len > mq_overload_threshold q then len else mq_overload q)"
    using overload_loop_returns[of "mq_overload_threshold q" len "mq_overload q"] ok
    by (auto simp: mq_ok_def)
  define q' where "q' = q\<lparr>mq_head := h, mq_overload := ov, mq_overload_threshold := th\<rparr>"
  have c: "cint (mq_head q + 1) = Some (mq_head q + 1)"
    using ok by (auto simp: res_simps mq_ok_def INT_MIN_def INT_MAX_def)
  have g: "arr_get (mq_queue q) (mq_head q) = Some (Some m)"
    using ok m by (auto simp: res_simps mq_ok_def)
  have "skynet_mq_pop q = Some (Some m, q')"
    unfolding skynet_mq_pop_def Let_def c g bind.bind_lunit h_def[symmetric] len_def[symmetric] ol
    using ne by (simp add: q'_def)
  moreover have cnt: "mq_count q' = n"
    by (simp add: mq_count_def q'_def n_def)
  moreover have "mq_list q = m # mq_list q'"
    using view m cnt by (simp add: mq_list_def q'_def)
  moreover have "mq_ok q'"
    using ok idx th view cnt by (simp add: mq_ok_def q'_def)
  ultimately show ?thesis
    using th len_n ov by (auto simp: q'_def)
qed

text \<open>Growing a full ring: its entries are copied in order to the front of an array of twice the size.\<close>

lemma expand_queue_full:
  assumes "mq_cap q < 2 ^ 30" "length (mq_queue q) = nat (mq_cap q)" "0 \<le> mq_head q" "mq_head q < mq_cap q"
  shows "expand_queue q = Some (q\<lparr>mq_head := 0, mq_tail := mq_cap q, mq_cap := 2 * mq_cap q,
     mq_queue := ring_view (mq_queue q) (nat (mq_head q)) (nat (mq_cap q)) @ replicate (nat (mq_cap q)) None\<rparr>)"
  using assms ring_copy[OF assms(3,4,2)]
  by (simp add: expand_queue_def cint_def INT_MIN_def INT_MAX_def mult.commute)

lemma mq_put_ok:
  assumes ok: "mq_ok q" and room: "mq_count q < 2 ^ 29 - 1"
  shows "\<exists>q'. mq_put m q = Some q' \<and> mq_ok q' \<and> mq_list q' = mq_list q @ [m] \<and>
           mq_in_global q' = mq_in_global q \<and> mq_next q' = mq_next q \<and> mq_release q' = mq_release q \<and>
           mq_handle q' = mq_handle q"
proof -
  define t where "t = ring_step (mq_tail q) (mq_cap q)"
  note wr = ring_write[OF mq_idx[OF ok], folded t_def mq_count_def]
  define buf where "buf = (mq_queue q)[nat (mq_tail q) := Some m]"
  define q' where "q' = q\<lparr>mq_queue := buf, mq_tail := t\<rparr>"
  have set: "arr_set (mq_queue q) (mq_tail q) (Some m) = Some buf"
    using ok by (simp add: res_simps mq_ok_def buf_def)
  have c: "cint (mq_tail q + 1) = Some (mq_tail q + 1)"
    using ok by (auto simp: res_simps mq_ok_def INT_MIN_def INT_MAX_def)
  have put: "mq_put m q = (if mq_head q = t then expand_queue q' else Some q')"
    unfolding mq_put_def Let_def set c bind.bind_lunit t_def[symmetric] q'_def[symmetric] by (simp add: q'_def)
  have len: "length buf = nat (mq_cap q)"
    using ok by (auto simp: mq_ok_def buf_def)
  have view: "ring_view buf (nat (mq_head q)) (Suc (mq_count q)) =
      ring_view (mq_queue q) (nat (mq_head q)) (mq_count q) @ [Some m]"
    using wr(4)[of "mq_queue q" "Some m"] ok by (simp add: mq_ok_def buf_def)
  show ?thesis
  proof (cases "mq_head q = t")
    case False
    have cnt: "mq_count q' = Suc (mq_count q)"
      using wr(3)[OF False] by (simp add: mq_count_def q'_def)
    have "mq_ok q'"
      using ok wr(1) view cnt by (auto simp: mq_ok_def ring_idx_def q'_def buf_def)
    moreover have "mq_list q' = mq_list q @ [m]"
      using view cnt by (simp add: mq_list_def q'_def)
    ultimately show ?thesis
      using put False by (auto simp: q'_def)
  next
    case True
    with wr(2) have full: "Suc (mq_count q) = nat (mq_cap q)" "int (mq_count q) + 1 = mq_cap q"
      by auto
    define q2 where "q2 = q'\<lparr>mq_head := 0, mq_tail := mq_cap q, mq_cap := 2 * mq_cap q,
      mq_queue := ring_view buf (nat (mq_head q)) (nat (mq_cap q)) @ replicate (nat (mq_cap q)) None\<rparr>"
    have "expand_queue q' = Some q2"
      using expand_queue_full[of q'] ok room full len by (auto simp: q'_def q2_def mq_ok_def)
    moreover have cnt: "mq_count q2 = nat (mq_cap q)"
      using ok by (simp add: mq_count_def q2_def mq_ok_def)
    have view2: "ring_view (mq_queue q2) 0 (nat (mq_cap q)) = ring_view buf (nat (mq_head q)) (nat (mq_cap q))"
      using ok by (intro ring_view_prefix) (auto simp: q2_def mq_ok_def)
    have v: "ring_view (mq_queue q2) (nat (mq_head q2)) (mq_count q2) =
        ring_view (mq_queue q) (nat (mq_head q)) (mq_count q) @ [Some m]"
      unfolding cnt using view2 view full(1) by (simp add: q2_def)
    have "mq_ok q2"
      using ok room full(2) v unfolding mq_ok_def
      by (simp add: q2_def q'_def nat_mult_distrib)
    moreover have "mq_list q2 = mq_list q @ [m]"
      by (simp add: mq_list_def v)
    ultimately show ?thesis
      using put True by (auto simp: q2_def q'_def)
  qed
qed

text \<open>The fields that only steer the scheduling do not matter to the ring.\<close>

lemma mq_ok_frame [simp]:
  "mq_ok (q\<lparr>mq_in_global := g\<rparr>) = mq_ok q" "mq_ok (q\<lparr>mq_next := n\<rparr>) = mq_ok q"
  "mq_ok (q\<lparr>mq_release := r\<rparr>) = mq_ok q" "mq_ok (q\<lparr>mq_overload := v\<rparr>) = mq_ok q"
  by (simp_all add: mq_ok_def mq_count_def)

lemma mq_list_frame [simp]:
  "mq_list (q\<lparr>mq_in_global := g\<rparr>) = mq_list q" "mq_list (q\<lparr>mq_next := n\<rparr>) = mq_list q"
  "mq_list (q\<lparr>mq_release := r\<rparr>) = mq_list q" "mq_list (q\<lparr>mq_overload := v\<rparr>) = mq_list q"
  "mq_list (q\<lparr>mq_overload_threshold := th\<rparr>) = mq_list q"
  by (simp_all add: mq_list_def mq_count_def)

lemma mq_ok_threshold [simp]: "mq_ok q \<Longrightarrow> mq_ok (q\<lparr>mq_overload_threshold := MQ_OVERLOAD\<rparr>)"
  by (simp add: mq_ok_def mq_count_def MQ_OVERLOAD_def)

interpretation mq: bounded_fifo mq_list mq_ok "2 ^ 29 - 1" mq_put skynet_mq_pop
proof unfold_locales
  fix q :: message_queue and x xs
  assume ok: "mq_ok q"
  show "\<exists>q'. mq_put x q = Some q' \<and> mq_ok q' \<and> mq_list q' = mq_list q @ [x]"
    if "length (mq_list q) < 2 ^ 29 - 1"
    using mq_put_ok[OF ok, of x] that by auto
  show "\<exists>q'. skynet_mq_pop q = Some (None, q') \<and> mq_ok q' \<and> mq_list q' = []" if "mq_list q = []"
    using that ok mq_pop_empty[of q] by (simp add: mq_list_eq_Nil)
  show "\<exists>q'. skynet_mq_pop q = Some (Some x, q') \<and> mq_ok q' \<and> mq_list q' = xs" if "mq_list q = x # xs"
    using mq_pop_cons[OF ok] mq_list_eq_Nil[OF ok] that by fastforce
qed

lemma mq_ok_new: "mq_ok (new_message_queue h)"
  by (simp add: mq_ok_def new_message_queue_def DEFAULT_QUEUE_SIZE_def MQ_OVERLOAD_def mq_count_def)

lemma mq_list_new: "mq_list (new_message_queue h) = []"
  by (simp add: mq_list_def mq_count_def new_message_queue_def)

section \<open>The global list of queues\<close>

primrec mq_chain :: "(addr \<rightharpoonup> message_queue) \<Rightarrow> addr option \<Rightarrow> addr list \<Rightarrow> bool" where
  "mq_chain store p [] \<longleftrightarrow> p = None"
| "mq_chain store p (a # as) \<longleftrightarrow> p = Some a \<and> (\<exists>q. store a = Some q \<and> mq_chain store (mq_next q) as)"

text \<open>\<open>gq_rep st qs\<close>: the global list of \<open>st\<close> holds exactly the queues \<open>qs\<close>, in this order, and
  a queue outside of it has no successor.\<close>

definition gq_rep :: "'x mq_state_scheme \<Rightarrow> addr list \<Rightarrow> bool" where
  "gq_rep st qs \<longleftrightarrow>
     mq_chain (mq_store st) (gq_head st) qs \<and> distinct qs \<and>
     gq_tail st = (if qs = [] then None else Some (last qs)) \<and>
     (\<forall>a q. mq_store st a = Some q \<longrightarrow> a \<notin> set qs \<longrightarrow> mq_next q = None)"

text \<open>What the list operations leave alone: everything but the \<open>next\<close> fields.\<close>

definition mq_core :: "message_queue option \<Rightarrow> message_queue option" where
  "mq_core = map_option (\<lambda>q. q\<lparr>mq_next := None\<rparr>)"

definition gq_frame :: "'x mq_state_scheme \<Rightarrow> 'x mq_state_scheme \<Rightarrow> bool" where
  "gq_frame st st' \<longleftrightarrow>
     (\<forall>b. mq_core (mq_store st' b) = mq_core (mq_store st b)) \<and>
     mq_brk st' = mq_brk st \<and> mq_state.more st' = mq_state.more st"

lemma mq_chain_upd [simp]:
  "a \<notin> set as \<Longrightarrow> mq_chain (store(a := v)) p as = mq_chain store p as"
  by (induction as arbitrary: p) auto

lemma mq_chain_in_store: "mq_chain store p as \<Longrightarrow> a \<in> set as \<Longrightarrow> \<exists>q. store a = Some q"
  by (induction as arbitrary: p) auto

lemma mq_chain_snoc:
  assumes "mq_chain store p (as @ [t])" "t \<notin> set as" "store t = Some tq"
    "store a = Some q" "mq_next q = None" "a \<notin> set as" "a \<noteq> t"
  shows "mq_chain (store(t \<mapsto> tq\<lparr>mq_next := Some a\<rparr>)) p (as @ [t, a])"
  using assms by (induction as arbitrary: p) auto

lemma mq_core_upd:
  "mq_core (((mq_store st)(t := v)) b) = (if b = t then mq_core v else mq_core (mq_store st b))"
  by simp

lemma globalmq_push_rep:
  assumes rep: "gq_rep st qs" and a: "mq_store st a = Some q" "a \<notin> set qs"
  shows "\<exists>st'. skynet_globalmq_push a st = Some st' \<and> gq_rep st' (qs @ [a]) \<and> gq_frame st st'"
proof -
  have nx: "mq_next q = None"
    using rep a by (auto simp: gq_rep_def)
  show ?thesis
  proof (cases qs rule: rev_cases)
    case Nil
    with rep a nx show ?thesis
      by (auto simp: skynet_globalmq_push_def gq_rep_def gq_frame_def)
  next
    case (snoc ts t)
    with rep have tail: "gq_tail st = Some t" and d: "distinct (ts @ [t])"
      and chain: "mq_chain (mq_store st) (gq_head st) (ts @ [t])"
      by (auto simp: gq_rep_def)
    then obtain tq where tq: "mq_store st t = Some tq"
      using mq_chain_in_store by fastforce
    let ?st = "(mq_write t (tq\<lparr>mq_next := Some a\<rparr>) st)\<lparr>gq_tail := Some a\<rparr>"
    have "skynet_globalmq_push a st = Some ?st"
      by (simp add: skynet_globalmq_push_def a nx tail tq)
    moreover have "gq_rep ?st (qs @ [a])"
      using rep a chain d tq nx mq_chain_snoc[OF chain _ tq a(1) nx] unfolding snoc
      by (auto simp: gq_rep_def mq_write_def)
    moreover have "gq_frame st ?st"
      using tq by (simp add: gq_frame_def mq_write_def mq_core_def)
    ultimately show ?thesis by blast
  qed
qed

lemma globalmq_pop_Nil: "gq_rep st [] \<Longrightarrow> skynet_globalmq_pop st = Some (None, st)"
  by (simp add: gq_rep_def skynet_globalmq_pop_def)

lemma globalmq_pop_Cons:
  assumes rep: "gq_rep st (a # qs)"
  shows "\<exists>st'. skynet_globalmq_pop st = Some (Some a, st') \<and> gq_rep st' qs \<and> gq_frame st st'"
proof -
  obtain q where hd: "gq_head st = Some a" and q: "mq_store st a = Some q"
    and chain: "mq_chain (mq_store st) (mq_next q) qs" and d: "a \<notin> set qs" "distinct qs"
    and tl: "gq_tail st = Some (last (a # qs))"
    using rep by (auto simp: gq_rep_def)
  let ?st = "(mq_write a (q\<lparr>mq_next := None\<rparr>) st)\<lparr>gq_head := mq_next q,
               gq_tail := (if mq_next q = None then None else gq_tail st)\<rparr>"
  have e: "mq_next q = None \<longleftrightarrow> qs = []"
    using chain by (cases qs) auto
  have "skynet_globalmq_pop st = Some (Some a, ?st)"
    using hd q tl e by (simp add: skynet_globalmq_pop_def)
  moreover have "gq_rep ?st qs"
    using rep chain d tl e by (auto simp: gq_rep_def mq_write_def)
  moreover have "gq_frame st ?st"
    using q by (simp add: gq_frame_def mq_write_def mq_core_def)
  ultimately show ?thesis by blast
qed

text \<open>Writing a queue back with its \<open>next\<close> field unchanged leaves the list alone.\<close>

lemma mq_chain_write:
  "store a = Some q \<Longrightarrow> mq_next q' = mq_next q \<Longrightarrow> mq_chain (store(a \<mapsto> q')) p as = mq_chain store p as"
  by (induction as arbitrary: p) auto

lemma gq_rep_write:
  "gq_rep st qs \<Longrightarrow> mq_store st a = Some q \<Longrightarrow> mq_next q' = mq_next q \<Longrightarrow> gq_rep (mq_write a q' st) qs"
  by (auto simp: gq_rep_def mq_write_def mq_chain_write)

lemma gq_frameD:
  "gq_frame st st' \<Longrightarrow> mq_store st a = Some q \<Longrightarrow>
   \<exists>q'. mq_store st' a = Some q' \<and> q'\<lparr>mq_next := None\<rparr> = q\<lparr>mq_next := None\<rparr>"
  unfolding gq_frame_def mq_core_def by (metis map_option_eq_Some option.simps(9))

text \<open>Two queues that differ in the \<open>next\<close> field only.\<close>

lemma mq_sched_eq:
  assumes "q\<lparr>mq_next := None\<rparr> = q'\<lparr>mq_next := None\<rparr>"
  shows "mq_ok q = mq_ok q'" "mq_list q = mq_list q'" "mq_in_global q = mq_in_global q'"
    "mq_release q = mq_release q'" "mq_handle q = mq_handle q'"
  using arg_cong[OF assms, of mq_ok] arg_cong[OF assms, of mq_list] arg_cong[OF assms, of mq_in_global]
    arg_cong[OF assms, of mq_release] arg_cong[OF assms, of mq_handle] by simp_all

lemma gq_frame_trans: "gq_frame s1 s2 \<Longrightarrow> gq_frame s2 s3 \<Longrightarrow> gq_frame s1 s3"
  by (simp add: gq_frame_def)

lemma gq_frame_dom: "gq_frame st st' \<Longrightarrow> dom (mq_store st') = dom (mq_store st)"
  unfolding gq_frame_def mq_core_def dom_def by (metis (no_types, lifting) option.map_disc_iff)

text \<open>A queue is pushed only while it is not in the list.\<close>

fun gq_legal :: "addr set \<Rightarrow> addr qop list \<Rightarrow> addr list \<Rightarrow> bool" where
  "gq_legal D [] qs \<longleftrightarrow> True"
| "gq_legal D (Put a # ops) qs \<longleftrightarrow> a \<in> D \<and> a \<notin> set qs \<and> gq_legal D ops (qs @ [a])"
| "gq_legal D (Take # ops) qs \<longleftrightarrow> gq_legal D ops (tl qs)"

section \<open>Dropping a queue\<close>

text \<open>A drop callback may send messages, so it may change other queues, but it neither reads nor
  writes the queue that is being dropped.\<close>

definition leaves_queue :: "addr \<Rightarrow> (skynet_message \<Rightarrow> 'x mq_state_scheme \<Rightarrow> 'x mq_state_scheme) \<Rightarrow> bool" where
  "leaves_queue a g \<longleftrightarrow>
     (\<forall>m st v. g m (st\<lparr>mq_store := (mq_store st)(a := v)\<rparr>) = (g m st)\<lparr>mq_store := (mq_store (g m st))(a := v)\<rparr>)"

lemma leaves_queue_fold:
  "leaves_queue a g \<Longrightarrow> fold g ms (st\<lparr>mq_store := (mq_store st)(a := v)\<rparr>) =
     (fold g ms st)\<lparr>mq_store := (mq_store (fold g ms st))(a := v)\<rparr>"
  by (induction ms arbitrary: st) (auto simp: leaves_queue_def)

lemma drop_loop_all:
  assumes "leaves_queue a g" "mq_store st a = Some q" "mq_ok q" "mq_next q = None"
  shows "\<exists>q'. drop_loop (\<lambda>m st. Some (g m st)) a st = Some (mq_write a q' (fold g (mq_list q) st)) \<and>
    mq_next q' = None"
  using assms(2-4)
proof (induction "mq_list q" arbitrary: q st)
  case Nil
  then have "mq_head q = mq_tail q"
    using mq_list_eq_Nil by metis
  with Nil show ?case
    by (subst drop_loop.simps) (auto simp: mq_pop_empty simp flip: Nil(1))
next
  case (Cons m ms)
  then have "mq_head q \<noteq> mq_tail q"
    using mq_list_eq_Nil[of q] by force
  then obtain q1 where q1: "skynet_mq_pop q = Some (Some m, q1)" "mq_ok q1" "ms = mq_list q1" "mq_next q1 = None"
    using mq_pop_cons[OF Cons.prems(2)] Cons.hyps(2) Cons.prems(3) by (metis list.inject)
  define st1 where "st1 = g m (mq_write a q1 st)"
  have st1: "st1 = mq_write a q1 (g m st)"
    using assms(1) by (simp add: st1_def mq_write_def leaves_queue_def)
  have step: "drop_loop (\<lambda>m st. Some (g m st)) a st = drop_loop (\<lambda>m st. Some (g m st)) a st1"
    by (subst drop_loop.simps) (simp add: Cons.prems(1) q1(1) st1_def)
  obtain q' where "drop_loop (\<lambda>m st. Some (g m st)) a st1 = Some (mq_write a q' (fold g (mq_list q1) st1))"
    "mq_next q' = None"
    using Cons.hyps(1)[OF q1(3) _ q1(2,4), of st1] by (auto simp: st1 mq_write_def)
  moreover have "mq_write a q' (fold g ms st1) = mq_write a q' (fold g ms (g m st))"
    unfolding st1 mq_write_def leaves_queue_fold[OF assms(1)] by simp
  ultimately show ?case
    unfolding step by (auto simp: q1(3) simp flip: Cons.hyps(2))
qed

text \<open>A push to a queue of a well-formed store.\<close>

lemma mq_push_rep:
  assumes "gq_rep st qs" "mq_store st a = Some q" "mq_ok q" "mq_count q < 2 ^ 29 - 1"
    "mq_in_global q = 0 \<longrightarrow> a \<notin> set qs"
  shows "\<exists>st' q'. skynet_mq_push a m st = Some st' \<and> mq_store st' a = Some q' \<and> mq_ok q' \<and>
    mq_list q' = mq_list q @ [m] \<and> mq_in_global q' = (if mq_in_global q = 0 then MQ_IN_GLOBAL else mq_in_global q) \<and>
    mq_release q' = mq_release q \<and> mq_handle q' = mq_handle q \<and>
    gq_rep st' (if mq_in_global q = 0 then qs @ [a] else qs) \<and>
    (\<forall>b. b \<noteq> a \<longrightarrow> mq_core (mq_store st' b) = mq_core (mq_store st b))"

proof -
  obtain q' where q': "mq_put m q = Some q'" "mq_ok q'" "mq_list q' = mq_list q @ [m]"
    "mq_in_global q' = mq_in_global q" "mq_next q' = mq_next q"
    "mq_release q' = mq_release q" "mq_handle q' = mq_handle q"
    using mq_put_ok[OF assms(3,4), of m] by blast
  show ?thesis
  proof (cases "mq_in_global q = 0")
    case True
    let ?q = "q'\<lparr>mq_in_global := MQ_IN_GLOBAL\<rparr>"
    let ?st = "mq_write a ?q st"
    obtain st' where st': "skynet_globalmq_push a ?st = Some st'" "gq_rep st' (qs @ [a])" "gq_frame ?st st'"
      using globalmq_push_rep[OF gq_rep_write[OF assms(1,2), of ?q], of a ?q] assms(5) True q'(5)
      by (auto simp: mq_write_def)
    moreover obtain q2 where "mq_store st' a = Some q2" "q2\<lparr>mq_next := None\<rparr> = ?q\<lparr>mq_next := None\<rparr>"
      using gq_frameD[OF st'(3), of a ?q] by (auto simp: mq_write_def)
    moreover have "mq_core (mq_store st' b) = mq_core (mq_store st b)" if "b \<noteq> a" for b
      using st'(3) that by (simp add: gq_frame_def mq_write_def)
    ultimately show ?thesis
      using assms(2) q' True mq_sched_eq[of q2 ?q] by (auto simp: skynet_mq_push_def MQ_IN_GLOBAL_def)
  next
    case False
    with assms(1,2) q' gq_rep_write[OF assms(1,2), of q'] show ?thesis
      by (auto simp: skynet_mq_push_def mq_write_def)
  qed
qed

section \<open>Properties\<close>

text \<open>C2. The ring buffer of a service is a FIFO queue: whatever sequence of pushes and pops is run on
  a fresh queue (with fewer than \<open>2 ^ 29\<close> pushes, below the size where the capacity would overflow),
  no operation fails, the pops return what they return on a list, and \<open>skynet_mq_length\<close> is the number
  of messages left. Growth of the ring and the overload bookkeeping are included.\<close>

theorem mq_fifo:
  assumes "puts ops < 2 ^ 29"
  shows "\<exists>q'. fifo_run mq_put skynet_mq_pop ops (new_message_queue h) = Some (fst (list_run ops []), q') \<and>
    mq_ok q' \<and> mq_list q' = snd (list_run ops []) \<and>
    skynet_mq_length q' = int (length (snd (list_run ops [])))"
proof -
  obtain q' where "fifo_run mq_put skynet_mq_pop ops (new_message_queue h) = Some (fst (list_run ops []), q')"
    "mq_ok q'" "mq_list q' = snd (list_run ops [])"
    using mq.run_refines[OF mq_ok_new, of h ops] assms by (auto simp: mq_list_new)
  then show ?thesis
    by (metis length_mq_list skynet_mq_length_count)
qed

theorem mq_fifo_witness:
  "\<exists>q'. fifo_run mq_put skynet_mq_pop
     [Put \<lparr>msg_source = 1, msg_session = 7, msg_data = None, msg_sz = 0\<rparr>,
      Put \<lparr>msg_source = 2, msg_session = 8, msg_data = None, msg_sz = 0\<rparr>, Take, Take, Take] (new_message_queue 3) =
     Some ([Some \<lparr>msg_source = 1, msg_session = 7, msg_data = None, msg_sz = 0\<rparr>,
            Some \<lparr>msg_source = 2, msg_session = 8, msg_data = None, msg_sz = 0\<rparr>, None], q')"
  using mq_fifo[of "[Put \<lparr>msg_source = 1, msg_session = 7, msg_data = None, msg_sz = 0\<rparr>,
      Put \<lparr>msg_source = 2, msg_session = 8, msg_data = None, msg_sz = 0\<rparr>, Take, Take, Take]" 3]
  by auto

text \<open>\<open>skynet_mq_push\<close> appends the message to its queue and, exactly when the queue was not in the
  global list, appends the queue there; other queues are as before, so a queue with messages is never
  left without being scheduled and never scheduled twice.\<close>

theorem mq_push_schedules:
  assumes "gq_rep st qs" "mq_store st a = Some q" "mq_ok q" "mq_count q < 2 ^ 29 - 1"
    "mq_in_global q = 0 \<longrightarrow> a \<notin> set qs"
  shows "\<exists>st' q'. skynet_mq_push a m st = Some st' \<and> mq_store st' a = Some q' \<and> mq_ok q' \<and>
    mq_list q' = mq_list q @ [m] \<and> mq_in_global q' \<noteq> 0 \<and>
    gq_rep st' (if mq_in_global q = 0 then qs @ [a] else qs) \<and>
    (\<forall>b. b \<noteq> a \<longrightarrow> mq_core (mq_store st' b) = mq_core (mq_store st b))"
  using mq_push_rep[OF assms, of m] by (auto simp: MQ_IN_GLOBAL_def)

definition sample_msg :: "u32 \<Rightarrow> skynet_message" where
  "sample_msg n = \<lparr>msg_source = n, msg_session = 7, msg_data = None, msg_sz = 0\<rparr>"

definition idle_state :: mq_state where
  "idle_state = \<lparr>gq_head = None, gq_tail = None,
     mq_store = [0 \<mapsto> (new_message_queue 1)\<lparr>mq_in_global := 0\<rparr>, 5 \<mapsto> new_message_queue 2],
     mq_brk = 6\<rparr>"

lemma idle_state_rep: "gq_rep idle_state []"
  by (simp add: gq_rep_def idle_state_def new_message_queue_def)

theorem mq_push_schedules_witness:
  "\<exists>st' q'. skynet_mq_push 0 (sample_msg 9) idle_state = Some st' \<and> mq_store st' 0 = Some q' \<and>
    mq_list q' = [sample_msg 9] \<and> gq_rep st' [0]"
proof -
  let ?q = "(new_message_queue 1)\<lparr>mq_in_global := 0\<rparr>"
  have q: "mq_store idle_state 0 = Some ?q" "mq_ok ?q" "mq_list ?q = []"
    by (simp_all add: idle_state_def mq_ok_new mq_list_new)
  have "mq_count ?q < 2 ^ 29 - 1"
    by (simp add: mq_count_def new_message_queue_def)
  then show ?thesis
    using mq_push_schedules[OF idle_state_rep q(1,2), of "sample_msg 9"] q(3) by fastforce
qed

text \<open>The global list is a FIFO list of queues: any sequence of pushes of queues that are not in
  the list and of pops behaves as on a list of addresses, the asserts of the code hold, and the
  contents of the queues are not touched.\<close>

theorem globalmq_fifo:
  assumes "gq_rep st qs" "gq_legal (dom (mq_store st)) ops qs"
  shows "\<exists>st'. fifo_run skynet_globalmq_push skynet_globalmq_pop ops st = Some (fst (list_run ops qs), st') \<and>
    gq_rep st' (snd (list_run ops qs)) \<and> gq_frame st st'"
  using assms
proof (induction ops qs arbitrary: st rule: list_run.induct)
  case (1 xs)
  then show ?case by (simp add: gq_frame_def)
next
  case (2 a ops qs)
  then obtain q where "mq_store st a = Some q" "a \<notin> set qs" by auto
  with 2 obtain st1 where st1: "skynet_globalmq_push a st = Some st1" "gq_rep st1 (qs @ [a])" "gq_frame st st1"
    using globalmq_push_rep[of st qs a q] by blast
  with 2 gq_frame_dom[OF st1(3)] show ?case
    using gq_frame_trans[OF st1(3)] by fastforce
next
  case (3 ops)
  then show ?case
    using globalmq_pop_Nil[of st] by fastforce
next
  case (4 ops a qs)
  obtain st1 where st1: "skynet_globalmq_pop st = Some (Some a, st1)" "gq_rep st1 qs" "gq_frame st st1"
    using globalmq_pop_Cons[OF "4.prems"(1)] by blast
  with 4 gq_frame_dom[OF st1(3)] show ?case
    using gq_frame_trans[OF st1(3)] by fastforce
qed

theorem globalmq_fifo_witness:
  "\<exists>st'. fifo_run skynet_globalmq_push skynet_globalmq_pop [Put 5, Put 0, Take, Put 5, Take, Take, Take] idle_state =
     Some ([Some 5, Some 0, Some 5, None], st') \<and> gq_rep st' []"
  using globalmq_fifo[OF idle_state_rep, of "[Put 5, Put 0, Take, Put 5, Take, Take, Take]"]
  by (auto simp: idle_state_def)

text \<open>Releasing a marked queue hands every message left in it to the drop callback, in order, and
  then frees the queue. The loop of \<open>_drop_queue\<close> ends and its asserts hold.\<close>

theorem mq_release_drops_all:
  assumes "mq_store st a = Some q" "mq_ok q" "mq_next q = None" "mq_release q \<noteq> 0" "leaves_queue a g"
  shows "skynet_mq_release (\<lambda>m st. Some (g m st)) a st =
    Some ((fold g (mq_list q) st)\<lparr>mq_store := (mq_store (fold g (mq_list q) st))(a := None)\<rparr>)"
proof -
  obtain q' where "drop_loop (\<lambda>m st. Some (g m st)) a st = Some (mq_write a q' (fold g (mq_list q) st))"
    "mq_next q' = None"
    using drop_loop_all[OF assms(5,1,2,3)] by blast
  then show ?thesis
    using assms by (simp add: skynet_mq_release_def drop_queue_def mq_free_def mq_write_def)
qed

definition dying_state :: "skynet_message list mq_state_scheme" where
  "dying_state = \<lparr>gq_head = None, gq_tail = None,
     mq_store = [0 \<mapsto> (new_message_queue 1)\<lparr>mq_release := 1, mq_tail := 2,
       mq_queue := [Some (sample_msg 4), Some (sample_msg 5)] @ replicate 62 None\<rparr>],
     mq_brk = 1, \<dots> = []\<rparr>"

theorem mq_release_drops_all_witness:
  "\<exists>st'. skynet_mq_release (\<lambda>m st. Some (st\<lparr>mq_state.more := mq_state.more st @ [m]\<rparr>)) 0 dying_state = Some st' \<and>
     mq_state.more st' = [sample_msg 4, sample_msg 5] \<and> mq_store st' 0 = None"
  using mq_release_drops_all[of dying_state 0 "(new_message_queue 1)\<lparr>mq_release := 1, mq_tail := 2,
       mq_queue := [Some (sample_msg 4), Some (sample_msg 5)] @ replicate 62 None\<rparr>"
     "\<lambda>m st. st\<lparr>mq_state.more := mq_state.more st @ [m]\<rparr>"]
  by (simp add: dying_state_def leaves_queue_def mq_ok_def mq_list_def mq_count_def new_message_queue_def
      DEFAULT_QUEUE_SIZE_def MQ_OVERLOAD_def ring_view_def upt_conv_Cons)

text \<open>Overload detection: the pop that returns a message leaves a threshold that is at least the
  number of messages still queued, and reports this number in \<open>overload\<close> exactly when it passed the
  previous threshold; \<open>skynet_mq_overload\<close> returns the report once and clears it.\<close>

theorem mq_pop_overload:
  assumes "mq_ok q" "mq_list q \<noteq> []"
  shows "\<exists>m q'. skynet_mq_pop q = Some (Some m, q') \<and> mq_list q = m # mq_list q' \<and>
    skynet_mq_length q' = int (length (mq_list q')) \<and> skynet_mq_length q' \<le> mq_overload_threshold q' \<and>
    (let v = (if skynet_mq_length q' > mq_overload_threshold q then skynet_mq_length q' else mq_overload q)
     in fst (skynet_mq_overload q') = v \<and> fst (skynet_mq_overload (snd (skynet_mq_overload q'))) = 0)"
proof -
  obtain m q' where q': "skynet_mq_pop q = Some (Some m, q')" "mq_ok q'" "mq_list q = m # mq_list q'"
    "mq_count q \<le> Suc (nat (mq_overload_threshold q'))"
    "mq_overload q' = (if int (mq_count q) - 1 > mq_overload_threshold q then int (mq_count q) - 1 else mq_overload q)"
    using mq_pop_cons[OF assms(1)] mq_list_eq_Nil[OF assms(1)] assms(2) by blast
  have "mq_count q = Suc (mq_count q')"
    using arg_cong[OF q'(3), of length] by simp
  moreover have "0 < mq_overload_threshold q'"
    using q'(2) by (simp add: mq_ok_def)
  ultimately show ?thesis
    using q' by (auto simp: skynet_mq_length_count skynet_mq_overload_def Let_def)
qed

definition busy_queue :: message_queue where
  "busy_queue = (new_message_queue 1)\<lparr>mq_tail := 3, mq_overload_threshold := 1,
     mq_queue := map (\<lambda>i. Some (sample_msg i)) [4, 5, 6] @ replicate 61 None\<rparr>"

theorem mq_pop_overload_witness:
  "\<exists>m q'. skynet_mq_pop busy_queue = Some (Some m, q') \<and> m = sample_msg 4 \<and>
     fst (skynet_mq_overload q') = 2"
proof -
  have ok: "mq_ok busy_queue" and l: "mq_list busy_queue = map sample_msg [4, 5, 6]"
    by (simp_all add: busy_queue_def mq_ok_def mq_list_def mq_count_def new_message_queue_def
      DEFAULT_QUEUE_SIZE_def MQ_OVERLOAD_def ring_view_def upt_conv_Cons)
  have "mq_overload_threshold busy_queue = 1"
    by (simp add: busy_queue_def)
  then obtain m q' where p: "skynet_mq_pop busy_queue = Some (Some m, q')" "map sample_msg [4, 5, 6] = m # mq_list q'"
    "skynet_mq_length q' = int (length (mq_list q'))"
    "skynet_mq_length q' > 1 \<longrightarrow> fst (skynet_mq_overload q') = skynet_mq_length q'"
    using mq_pop_overload[OF ok] l by (auto simp: Let_def)
  from p(2) have "m = sample_msg 4" "length (mq_list q') = 2"
    by (auto simp del: length_mq_list dest: sym)
  with p show ?thesis by simp
qed

end
