(* ===== verification/Directory_Spec.thy ===== *)
theory Directory_Spec
  imports Prelude
begin

text \<open>
  The two contracts the server relies on to address services: a registry that hands out the keys
  of the objects put into it, and a directory of names for these keys. What a client may conclude
  about sequences of operations is proved here once; the tables of \<open>skynet_handle.c\<close> are proved
  to satisfy the contracts.
\<close>

section \<open>Registry\<close>

text \<open>The table reads the key of an object from the object (\<open>key_of\<close>), and the owner of the object
  stores the key there after the registration.\<close>

locale registry =
  fixes look :: "('c \<Rightarrow> 'k) \<Rightarrow> 's \<Rightarrow> 'k \<rightharpoonup> 'c"
    and invar :: "('c \<Rightarrow> 'k) \<Rightarrow> 's \<Rightarrow> bool"
    and register :: "('c \<Rightarrow> 'k) \<Rightarrow> 'c \<Rightarrow> 's \<Rightarrow> ('k \<times> 's) option"
    and retire :: "('c \<Rightarrow> 'k) \<Rightarrow> 'k \<Rightarrow> 's \<Rightarrow> ('c option \<times> 's) option"
    and capacity :: nat
  assumes register_law: "invar key_of s \<Longrightarrow> c \<notin> ran (look key_of s) \<Longrightarrow>
      card (dom (look key_of s)) < capacity \<Longrightarrow>
      \<exists>k s'. register key_of c s = Some (k, s') \<and> look key_of s k = None \<and>
        invar (key_of(c := k)) s' \<and> look (key_of(c := k)) s' = (look key_of s)(k \<mapsto> c)"
    and retire_law: "invar key_of s \<Longrightarrow>
      \<exists>s'. retire key_of k s = Some (look key_of s k, s') \<and> invar key_of s' \<and>
        look key_of s' = (look key_of s)(k := None)"
    and finite_law: "invar key_of s \<Longrightarrow> finite (dom (look key_of s))"
    and key_law: "invar key_of s \<Longrightarrow> look key_of s k = Some c \<Longrightarrow> key_of c = k"
begin

lemma look_unique: "invar key_of s \<Longrightarrow> look key_of s j = Some c \<Longrightarrow> look key_of s k = Some c \<Longrightarrow> j = k"
  by (metis key_law)

text \<open>Registering and retiring at once leaves the registry as it was, as seen by look-ups.\<close>

theorem register_retire:
  assumes "invar key_of s" "c \<notin> ran (look key_of s)" "card (dom (look key_of s)) < capacity"
  shows "\<exists>k s' s''. register key_of c s = Some (k, s') \<and>
    retire (key_of(c := k)) k s' = Some (Some c, s'') \<and> look (key_of(c := k)) s'' = look key_of s"
proof -
  obtain k s' where r: "register key_of c s = Some (k, s')" "look key_of s k = None"
    "invar (key_of(c := k)) s'" "look (key_of(c := k)) s' = (look key_of s)(k \<mapsto> c)"
    using register_law[OF assms] by blast
  then obtain s'' where "retire (key_of(c := k)) k s' = Some (Some c, s'')"
    "look (key_of(c := k)) s'' = (look key_of s)(k := None)"
    using retire_law[OF r(3), of k] by auto
  with r show ?thesis
    by (metis fun_upd_triv)
qed

text \<open>Registering a list of objects one after the other.\<close>

fun register_all :: "('c \<Rightarrow> 'k) \<Rightarrow> 'c list \<Rightarrow> 's \<Rightarrow> ('k list \<times> ('c \<Rightarrow> 'k) \<times> 's) option" where
  "register_all key_of [] s = Some ([], key_of, s)"
| "register_all key_of (c # cs) s = do {
     (k, s') \<leftarrow> register key_of c s;
     (ks, key_of', s'') \<leftarrow> register_all (key_of(c := k)) cs s';
     Some (k # ks, key_of', s'') }"

theorem register_all_distinct:
  assumes "invar key_of s" "distinct cs" "set cs \<inter> ran (look key_of s) = {}"
    "card (dom (look key_of s)) + length cs \<le> capacity"
  shows "\<exists>ks key_of' s'. register_all key_of cs s = Some (ks, key_of', s') \<and> distinct ks \<and>
    set ks \<inter> dom (look key_of s) = {} \<and> length ks = length cs \<and>
    look key_of' s' = (look key_of s)(ks [\<mapsto>] cs)"
  using assms
proof (induction cs arbitrary: key_of s)
  case Nil
  then show ?case by simp
next
  case (Cons c cs)
  then obtain k s' where reg: "register key_of c s = Some (k, s')" "look key_of s k = None"
    "invar (key_of(c := k)) s'" "look (key_of(c := k)) s' = (look key_of s)(k \<mapsto> c)"
    using register_law[of key_of s c] by auto
  define key1 where "key1 = key_of(c := k)"
  note r = reg[folded key1_def]
  have "card (dom (look key1 s')) = Suc (card (dom (look key_of s)))"
    using finite_law[OF Cons.prems(1)] r(2) by (simp add: r(4) domIff)
  moreover have "ran (look key1 s') = insert c (ran (look key_of s))"
    using r(2) by (simp add: r(4) ran_map_upd)
  ultimately obtain ks key_of' s'' where
    IH: "register_all key1 cs s' = Some (ks, key_of', s'')" "distinct ks"
      "set ks \<inter> dom (look key1 s') = {}" "length ks = length cs"
      "look key_of' s'' = (look key1 s')(ks [\<mapsto>] cs)"
    using Cons.IH[OF r(3)] Cons.prems by auto
  then show ?case
    using r by (auto simp: key1_def[symmetric])
qed

end

section \<open>Names\<close>

locale naming =
  fixes find_name :: "'s \<Rightarrow> 'n \<rightharpoonup> 'k"
    and invar :: "'s \<Rightarrow> bool"
    and room :: "'s \<Rightarrow> bool"
    and bind_name :: "'k \<Rightarrow> 'n \<Rightarrow> 's \<Rightarrow> ('n option \<times> 's) option"
  assumes bind_new: "invar s \<Longrightarrow> room s \<Longrightarrow> find_name s n = None \<Longrightarrow>
      \<exists>s'. bind_name k n s = Some (Some n, s') \<and> invar s' \<and> find_name s' = (find_name s)(n \<mapsto> k)"
    and bind_old: "invar s \<Longrightarrow> room s \<Longrightarrow> find_name s n = Some j \<Longrightarrow>
      \<exists>s'. bind_name k n s = Some (None, s') \<and> invar s' \<and> find_name s' = find_name s"
begin

text \<open>A name once bound keeps its key whatever is bound later.\<close>

theorem bind_keeps:
  assumes "invar s" "room s" "find_name s m = Some j"
  shows "\<exists>r s'. bind_name k n s = Some (r, s') \<and> invar s' \<and> find_name s' m = Some j"
proof (cases "find_name s n")
  case None
  then have "m \<noteq> n" using assms by auto
  with bind_new[OF assms(1,2) None] assms(3) show ?thesis by (metis fun_upd_apply)
next
  case (Some i)
  with bind_old[OF assms(1,2) Some] assms(3) show ?thesis by metis
qed

end

section \<open>Slots\<close>

text \<open>A table of a fixed number of slots that gives every key put into it a slot of its own. \<open>fits\<close> says
  which keys the table can take.\<close>

locale slot_table =
  fixes slot_of :: "'s \<Rightarrow> 'k \<rightharpoonup> nat"
    and invar :: "'s \<Rightarrow> bool"
    and capacity :: "'s \<Rightarrow> nat"
    and fits :: "'s \<Rightarrow> 'k \<Rightarrow> bool"
    and lookup :: "'s \<Rightarrow> 'k \<Rightarrow> int option"
    and insert :: "'s \<Rightarrow> 'k \<Rightarrow> (int \<times> 's) option"
    and remove :: "'s \<Rightarrow> 'k \<Rightarrow> (int \<times> 's) option"
    and full :: "'s \<Rightarrow> bool"
  assumes lookup_law: "invar s \<Longrightarrow> fits s k \<Longrightarrow>
      lookup s k = Some (case slot_of s k of None \<Rightarrow> -1 | Some x \<Rightarrow> int x)"
    and insert_law: "invar s \<Longrightarrow> fits s k \<Longrightarrow> slot_of s k = None \<Longrightarrow> \<not> full s \<Longrightarrow>
      \<exists>x s'. insert s k = Some (int x, s') \<and> x < capacity s \<and> x \<notin> ran (slot_of s) \<and> invar s' \<and>
        capacity s' = capacity s \<and> fits s' = fits s \<and> slot_of s' = (slot_of s)(k \<mapsto> x)"
    and remove_law: "invar s \<Longrightarrow> fits s k \<Longrightarrow>
      \<exists>s'. remove s k = Some (case slot_of s k of None \<Rightarrow> -1 | Some x \<Rightarrow> int x, s') \<and> invar s' \<and>
        capacity s' = capacity s \<and> fits s' = fits s \<and> slot_of s' = (slot_of s)(k := None)"
    and full_law: "invar s \<Longrightarrow> full s \<longleftrightarrow> card (dom (slot_of s)) = capacity s"
    and finite_law: "invar s \<Longrightarrow> finite (dom (slot_of s))"
    and slot_unique: "invar s \<Longrightarrow> slot_of s j = Some x \<Longrightarrow> slot_of s k = Some x \<Longrightarrow> j = k"
begin

theorem insert_lookup:
  assumes "invar s" "fits s k" "slot_of s k = None" "\<not> full s"
  shows "\<exists>x s'. insert s k = Some (int x, s') \<and> x < capacity s \<and> invar s' \<and> lookup s' k = Some (int x) \<and>
    (\<forall>j. j \<noteq> k \<longrightarrow> fits s j \<longrightarrow> lookup s' j = lookup s j \<and> lookup s j \<noteq> Some (int x))"
proof -
  obtain x s' where r: "insert s k = Some (int x, s')" "x < capacity s" "x \<notin> ran (slot_of s)" "invar s'"
    "fits s' = fits s" "slot_of s' = (slot_of s)(k \<mapsto> x)"
    using insert_law[OF assms] by blast
  moreover have "lookup s' k = Some (int x)"
    using lookup_law[OF r(4), of k] r(5,6) assms(2) by simp
  moreover have "lookup s' j = lookup s j \<and> lookup s j \<noteq> Some (int x)" if "j \<noteq> k" "fits s j" for j
    using lookup_law[OF r(4), of j] lookup_law[OF assms(1), of j] r(3,5,6) that
    by (auto simp: ran_def split: option.splits)
  ultimately show ?thesis by blast
qed

theorem insert_remove:
  assumes "invar s" "fits s k" "slot_of s k = None" "\<not> full s"
  shows "\<exists>x s' s''. insert s k = Some (int x, s') \<and> remove s' k = Some (int x, s'') \<and> invar s'' \<and>
    slot_of s'' = slot_of s"
proof -
  obtain x s' where r: "insert s k = Some (int x, s')" "invar s'" "fits s' = fits s" "slot_of s' = (slot_of s)(k \<mapsto> x)"
    using insert_law[OF assms] by blast
  then obtain s'' where "remove s' k = Some (int x, s'')" "invar s''" "slot_of s'' = (slot_of s')(k := None)"
    using remove_law[OF r(2), of k] assms(2) by auto
  with r assms(3) show ?thesis by (auto simp: fun_upd_idem)
qed

text \<open>Putting a list of keys into the table, one after the other.\<close>

fun insert_all :: "'k list \<Rightarrow> 's \<Rightarrow> (int list \<times> 's) option" where
  "insert_all [] s = Some ([], s)"
| "insert_all (k # ks) s = do {
     (x, s') \<leftarrow> insert s k;
     (xs, s'') \<leftarrow> insert_all ks s';
     Some (x # xs, s'') }"

theorem insert_all_distinct:
  assumes "invar s" "distinct ks" "set ks \<inter> dom (slot_of s) = {}" "\<And>k. k \<in> set ks \<Longrightarrow> fits s k"
    "card (dom (slot_of s)) + length ks \<le> capacity s"
  shows "\<exists>xs s'. insert_all ks s = Some (map int xs, s') \<and> invar s' \<and> distinct xs \<and>
    set xs \<inter> ran (slot_of s) = {} \<and> set xs \<subseteq> {..<capacity s} \<and> slot_of s' = (slot_of s)(ks [\<mapsto>] xs) \<and> length xs = length ks"
  using assms
proof (induction ks arbitrary: s)
  case Nil
  then show ?case by (intro exI[of _ "[]"]) simp
next
  case (Cons k ks)
  then obtain x s' where r: "insert s k = Some (int x, s')" "x < capacity s" "x \<notin> ran (slot_of s)" "invar s'"
    "capacity s' = capacity s" "fits s' = fits s" "slot_of s' = (slot_of s)(k \<mapsto> x)"
    using insert_law[of s k] full_law[of s] by auto
  have k: "slot_of s k = None" using Cons.prems(3) by auto
  have "card (dom (slot_of s')) = Suc (card (dom (slot_of s)))"
    using finite_law[OF Cons.prems(1)] k by (simp add: r(7) domIff)
  moreover have "set ks \<inter> dom (slot_of s') = {}"
    using Cons.prems(2,3) by (auto simp: r(7))
  ultimately obtain xs s'' where IH: "insert_all ks s' = Some (map int xs, s'')" "invar s''" "distinct xs"
    "set xs \<inter> ran (slot_of s') = {}" "set xs \<subseteq> {..<capacity s'}" "slot_of s'' = (slot_of s')(ks [\<mapsto>] xs)" "length xs = length ks"
    using Cons.IH[OF r(4)] Cons.prems(2,4,5) r(5,6) by auto
  moreover have "ran (slot_of s') = Set.insert x (ran (slot_of s))"
    using k by (simp add: r(7) ran_map_upd)
  ultimately show ?case
    using r by (intro exI[of _ "x # xs"] exI[of _ s'']) auto
qed

end

end
