(* ===== verification/Handle.thy ===== *)
theory Handle
  imports Directory_Spec "HOL-Library.List_Lexorder" "HOL-Library.Char_ord"
begin

text \<open>
  The handle table and the name table of \<open>skynet-src/skynet_handle.c\<close>: handles are 24-bit
  numbers below the 8-bit harbor id, a slot array of power-of-two size is indexed by the low bits
  of a handle, and local names are kept in a sorted array searched by bisection.
  A context is its address; what the table reads of a context (\<open>skynet_context_handle\<close>) is the
  argument \<open>hof\<close>. Each function holds the table's read-write lock, so it is one atomic operation.
\<close>

section \<open>State\<close>

definition HANDLE_MASK :: u32 where "HANDLE_MASK = 0xffffff"
definition HANDLE_REMOTE_SHIFT :: nat where "HANDLE_REMOTE_SHIFT = 24"
definition DEFAULT_SLOT_SIZE :: int where "DEFAULT_SLOT_SIZE = 4"
definition MAX_SLOT_SIZE :: int where "MAX_SLOT_SIZE = 0x40000000"

record handle_name =
  hn_name :: string
  hn_handle :: u32

record handle_storage =
  hs_harbor :: u32
  hs_handle_index :: u32
  hs_slot_size :: int
  hs_slot :: "addr option list"
  hs_name_cap :: int
  hs_name_count :: int
  hs_name :: "handle_name option list"

definition skynet_handle_init :: "int \<Rightarrow> handle_storage" where
  "skynet_handle_init harbor =
     \<lparr>hs_harbor = push_bit HANDLE_REMOTE_SHIFT (word_of_int harbor AND 0xff),
      hs_handle_index = 1,
      hs_slot_size = DEFAULT_SLOT_SIZE,
      hs_slot = replicate (nat DEFAULT_SLOT_SIZE) None,
      hs_name_cap = 2, hs_name_count = 0, hs_name = replicate 2 None\<rparr>"

section \<open>Registering a context\<close>

definition slot_hash :: "u32 \<Rightarrow> int \<Rightarrow> int" where
  "slot_hash handle slot_size = uint (handle AND word_of_int (slot_size - 1))"

text \<open>The inner loop over at most \<open>slot_size\<close> candidate handles: \<open>Some None\<close> when every slot it
  looks at is taken.\<close>

fun register_scan :: "addr option list \<Rightarrow> int \<Rightarrow> nat \<Rightarrow> u32 \<Rightarrow> (u32 \<times> int) option option" where
  "register_scan slot slot_size 0 handle = Some None"
| "register_scan slot slot_size (Suc n) handle =
     (let handle = (if handle > HANDLE_MASK then 1 else handle);
          hash = slot_hash handle slot_size
      in case arr_get slot hash of
           None \<Rightarrow> None
         | Some None \<Rightarrow> Some (Some (handle, hash))
         | Some (Some _) \<Rightarrow> register_scan slot slot_size n (handle + 1))"

text \<open>Moving the contexts to a table of twice the size.\<close>

fun rehash :: "(addr \<Rightarrow> u32) \<Rightarrow> int \<Rightarrow> addr option list \<Rightarrow> addr option list \<Rightarrow> addr option list option" where
  "rehash hof slot_size [] new_slot = Some new_slot"
| "rehash hof slot_size (None # slots) new_slot = rehash hof slot_size slots new_slot"
| "rehash hof slot_size (Some c # slots) new_slot =
     (let hash = slot_hash (hof c) slot_size
      in case arr_get new_slot hash of
           Some None \<Rightarrow> rehash hof slot_size slots (new_slot[nat hash := Some c])
         | _ \<Rightarrow> None)"

partial_function (option) skynet_handle_register ::
  "(addr \<Rightarrow> u32) \<Rightarrow> addr \<Rightarrow> handle_storage \<Rightarrow> (u32 \<times> handle_storage) option" where
  "skynet_handle_register hof ctx s =
     (case register_scan (hs_slot s) (hs_slot_size s) (nat (hs_slot_size s)) (hs_handle_index s) of
        None \<Rightarrow> None
      | Some (Some (handle, hash)) \<Rightarrow>
          Some (handle OR hs_harbor s,
            s\<lparr>hs_slot := (hs_slot s)[nat hash := Some ctx], hs_handle_index := handle + 1\<rparr>)
      | Some None \<Rightarrow>
          (if hs_slot_size s * 2 - 1 \<le> uint HANDLE_MASK
           then (case rehash hof (hs_slot_size s * 2) (hs_slot s) (replicate (nat (hs_slot_size s * 2)) None) of
                   None \<Rightarrow> None
                 | Some new_slot \<Rightarrow>
                     skynet_handle_register hof ctx
                       (s\<lparr>hs_slot := new_slot, hs_slot_size := hs_slot_size s * 2\<rparr>))
           else None))"

declare skynet_handle_register.simps [code]

text \<open>The look-up part of \<open>skynet_handle_grab\<close>; the caller takes the reference.\<close>

definition handle_lookup :: "(addr \<Rightarrow> u32) \<Rightarrow> u32 \<Rightarrow> handle_storage \<Rightarrow> addr option option" where
  "handle_lookup hof handle s = do {
     ctx \<leftarrow> arr_get (hs_slot s) (slot_hash handle (hs_slot_size s));
     Some (case ctx of Some c \<Rightarrow> if hof c = handle then Some c else None | None \<Rightarrow> None) }"

section \<open>Names\<close>

text \<open>\<open>strcmp\<close>, up to the sign of its result. A C string is the list of its characters without
  the terminating zero.\<close>

fun strcmp :: "string \<Rightarrow> string \<Rightarrow> int" where
  "strcmp [] [] = 0"
| "strcmp [] (y # ys) = -1"
| "strcmp (x # xs) [] = 1"
| "strcmp (x # xs) (y # ys) =
     (if x = y then strcmp xs ys else if (of_char x :: nat) < of_char y then -1 else 1)"

datatype search_result = Found u32 | Missing int

text \<open>The bisection that \<open>skynet_handle_findname\<close> and \<open>_insert_name\<close> both contain; \<open>Missing\<close>
  carries the final value of \<open>begin\<close>.\<close>

function name_search :: "handle_name option list \<Rightarrow> string \<Rightarrow> int \<Rightarrow> int \<Rightarrow> search_result option" where
  "name_search names name b e =
     (if b \<le> e then do {
        entry \<leftarrow> arr_get names ((b + e) div 2);
        n \<leftarrow> entry;
        let c = strcmp (hn_name n) name;
        if c = 0 then Some (Found (hn_handle n))
        else if c < 0 then name_search names name ((b + e) div 2 + 1) e
        else name_search names name b ((b + e) div 2 - 1) }
      else Some (Missing b))"
  by pat_completeness auto
termination
  by (relation "measure (\<lambda>(names, name, b, e). nat (e - b + 1))") auto

declare name_search.simps [simp del]

definition skynet_handle_findname :: "handle_storage \<Rightarrow> string \<Rightarrow> u32 option" where
  "skynet_handle_findname s name = do {
     r \<leftarrow> name_search (hs_name s) name 0 (hs_name_count s - 1);
     Some (case r of Found h \<Rightarrow> h | Missing _ \<Rightarrow> 0) }"

text \<open>The loop \<open>for (i=s->name_count;i>before;i--) s->name[i] = s->name[i-1]\<close>.\<close>

fun shift_names :: "nat \<Rightarrow> nat \<Rightarrow> handle_name option list \<Rightarrow> handle_name option list" where
  "shift_names before i names =
     (if i > before then shift_names before (i - 1) (names[i := names ! (i - 1)]) else names)"

declare shift_names.simps [simp del]

definition insert_name_before ::
  "handle_storage \<Rightarrow> string \<Rightarrow> u32 \<Rightarrow> int \<Rightarrow> handle_storage option" where
  "insert_name_before s name handle before = do {
     s \<leftarrow> (if hs_name_count s \<ge> hs_name_cap s then do {
             cap \<leftarrow> cint (hs_name_cap s * 2);
             if cap > MAX_SLOT_SIZE then None
             else Some (s\<lparr>hs_name_cap := cap,
               hs_name := take (nat before) (hs_name s) @ None #
                          drop (nat before) (take (nat (hs_name_count s)) (hs_name s)) @
                          replicate (nat cap - nat (hs_name_count s) - 1) None\<rparr>) }
           else Some (s\<lparr>hs_name := shift_names (nat before) (nat (hs_name_count s)) (hs_name s)\<rparr>));
     names \<leftarrow> arr_set (hs_name s) before (Some \<lparr>hn_name = name, hn_handle = handle\<rparr>);
     Some (s\<lparr>hs_name := names, hs_name_count := hs_name_count s + 1\<rparr>) }"

definition insert_name ::
  "handle_storage \<Rightarrow> string \<Rightarrow> u32 \<Rightarrow> (string option \<times> handle_storage) option" where
  "insert_name s name handle = do {
     r \<leftarrow> name_search (hs_name s) name 0 (hs_name_count s - 1);
     case r of
       Found _ \<Rightarrow> Some (None, s)
     | Missing b \<Rightarrow> do { s' \<leftarrow> insert_name_before s name handle b; Some (Some name, s') } }"

definition skynet_handle_namehandle ::
  "u32 \<Rightarrow> string \<Rightarrow> handle_storage \<Rightarrow> (string option \<times> handle_storage) option" where
  "skynet_handle_namehandle handle name s = insert_name s name handle"

section \<open>Retiring a handle\<close>

text \<open>The loop that compacts the name array in place, from index \<open>i\<close> with \<open>j\<close> names kept.\<close>

function retire_names ::
  "u32 \<Rightarrow> int \<Rightarrow> int \<Rightarrow> int \<Rightarrow> handle_name option list \<Rightarrow> (int \<times> handle_name option list) option" where
  "retire_names handle i j n names =
     (if i < n then do {
        entry \<leftarrow> arr_get names i;
        nm \<leftarrow> entry;
        if hn_handle nm = handle then retire_names handle (i + 1) j n names
        else do {
          names' \<leftarrow> (if i \<noteq> j then arr_set names j (Some nm) else Some names);
          retire_names handle (i + 1) (j + 1) n names' } }
      else Some (j, names))"
  by pat_completeness auto
termination
  by (relation "measure (\<lambda>(handle, i, j, n, names). nat (n - i))") auto

declare retire_names.simps [simp del]

text \<open>The locked part of \<open>skynet_handle_retire\<close>: the context to release, if the handle was there.\<close>

definition handle_retire_locked ::
  "(addr \<Rightarrow> u32) \<Rightarrow> u32 \<Rightarrow> handle_storage \<Rightarrow> (addr option \<times> handle_storage) option" where
  "handle_retire_locked hof handle s = do {
     let hash = slot_hash handle (hs_slot_size s);
     ctx \<leftarrow> arr_get (hs_slot s) hash;
     case ctx of
       Some c \<Rightarrow>
         if hof c = handle then do {
           (j, names) \<leftarrow> retire_names handle 0 0 (hs_name_count s) (hs_name s);
           Some (Some c, s\<lparr>hs_slot := (hs_slot s)[nat hash := None],
                           hs_name := names, hs_name_count := j\<rparr>) }
         else Some (None, s)
     | None \<Rightarrow> Some (None, s) }"

section \<open>The name table\<close>

lemma strcmp_eq_0 [simp]: "strcmp xs ys = 0 \<longleftrightarrow> xs = ys"
  by (induction xs ys rule: strcmp.induct) auto

lemma strcmp_less_0 [simp]: "strcmp xs ys < 0 \<longleftrightarrow> xs < ys"
  by (induction xs ys rule: strcmp.induct) (auto simp: less_char_def)

definition hs_names :: "handle_storage \<Rightarrow> handle_name list" where
  "hs_names s = map the (take (nat (hs_name_count s)) (hs_name s))"

definition names_ok :: "handle_storage \<Rightarrow> bool" where
  "names_ok s \<longleftrightarrow>
     0 \<le> hs_name_count s \<and> hs_name_count s \<le> hs_name_cap s \<and> 0 < hs_name_cap s \<and>
     hs_name_cap s \<le> MAX_SLOT_SIZE \<and>
     length (hs_name s) = nat (hs_name_cap s) \<and>
     take (nat (hs_name_count s)) (hs_name s) = map Some (hs_names s) \<and>
     sorted_wrt (<) (map hn_name (hs_names s))"

text \<open>The names as a finite map: what the table promises.\<close>

definition name_map :: "handle_storage \<Rightarrow> string \<rightharpoonup> u32" where
  "name_map s = map_of (map (\<lambda>n. (hn_name n, hn_handle n)) (hs_names s))"

lemma length_hs_names: "names_ok s \<Longrightarrow> length (hs_names s) = nat (hs_name_count s)"
  unfolding hs_names_def names_ok_def by (auto simp: min_def)

lemma hs_name_nth:
  assumes "names_ok s" "i < nat (hs_name_count s)"
  shows "hs_name s ! i = Some (hs_names s ! i)"
proof -
  have "hs_name s ! i = take (nat (hs_name_count s)) (hs_name s) ! i"
    using assms by simp
  also have "\<dots> = map Some (hs_names s) ! i"
    using assms by (simp add: names_ok_def)
  finally show ?thesis
    using assms by (simp add: length_hs_names)
qed

lemma sorted_names_nth:
  "sorted_wrt (<) (map hn_name ns) \<Longrightarrow> i < j \<Longrightarrow> j < length ns \<Longrightarrow> hn_name (ns ! i) < hn_name (ns ! j)"
  by (auto simp: sorted_wrt_iff_nth_less)

fun search_post :: "handle_name list \<Rightarrow> string \<Rightarrow> search_result \<Rightarrow> bool" where
  "search_post ns name (Found h) \<longleftrightarrow> (\<exists>n \<in> set ns. hn_name n = name \<and> hn_handle n = h)"
| "search_post ns name (Missing p) \<longleftrightarrow>
     0 \<le> p \<and> p \<le> int (length ns) \<and>
     (\<forall>i < nat p. hn_name (ns ! i) < name) \<and> (\<forall>i < length ns. nat p \<le> i \<longrightarrow> name < hn_name (ns ! i))"

text \<open>Bisection on a sorted prefix: it finds the name or the place where it belongs.\<close>

lemma name_search_correct:
  assumes arr: "length ns \<le> length names" "\<And>i. i < length ns \<Longrightarrow> names ! i = Some (ns ! i)"
    and sorted: "sorted_wrt (<) (map hn_name ns)"
    and "0 \<le> b" "b \<le> e + 1" "e < int (length ns)"
    and "\<forall>i < nat b. hn_name (ns ! i) < name"
    and "\<forall>i < length ns. e < int i \<longrightarrow> name < hn_name (ns ! i)"
  shows "\<exists>r. name_search names name b e = Some r \<and> search_post ns name r"
  using assms(4-8)
proof (induction "nat (e - b + 1)" arbitrary: b e rule: less_induct)
  case less
  show ?case
  proof (cases "b \<le> e")
    case False
    then have "name_search names name b e = Some (Missing b)"
      by (subst name_search.simps) simp
    moreover have "search_post ns name (Missing b)"
      using False less.prems by auto
    ultimately show ?thesis by blast
  next
    case True
    define mid where "mid = (b + e) div 2"
    define n where "n = ns ! nat mid"
    have mid: "b \<le> mid" "mid \<le> e" "0 \<le> mid" "nat mid < length ns"
      using True less.prems by (auto simp: mid_def)
    then have get: "arr_get names mid = Some (Some n)"
      using arr by (simp add: n_def res_simps)
    have step: "name_search names name b e =
        (if hn_name n = name then Some (Found (hn_handle n))
         else if hn_name n < name then name_search names name (mid + 1) e
         else name_search names name b (mid - 1))"
      using True get by (subst name_search.simps) (simp add: Let_def flip: mid_def)
    consider "hn_name n = name" | "hn_name n < name" | "name < hn_name n"
      by (rule linorder_cases)
    then show ?thesis
    proof cases
      case 1
      moreover have "n \<in> set ns"
        using mid by (simp add: n_def)
      ultimately show ?thesis
        using step by auto
    next
      case 2
      have "hn_name (ns ! i) < name" if "i < nat (mid + 1)" for i
        using that sorted_names_nth[OF sorted, of i "nat mid"] mid 2
        by (cases "i < nat mid") (auto simp: n_def intro: less_trans dest: le_antisym simp: not_less nat_add_distrib)
      then have "\<exists>r. name_search names name (mid + 1) e = Some r \<and> search_post ns name r"
        using mid less.prems True by (intro less.hyps) auto
      with 2 step show ?thesis by auto
    next
      case 3
      have "name < hn_name (ns ! i)" if "i < length ns" "mid - 1 < int i" for i
        using that sorted_names_nth[OF sorted, of "nat mid" i] mid 3
        by (cases "i = nat mid") (auto simp: n_def intro: less_trans)
      then have "\<exists>r. name_search names name b (mid - 1) = Some r \<and> search_post ns name r"
        using mid less.prems True by (intro less.hyps) auto
      with 3 step show ?thesis by auto
    qed
  qed
qed

lemma name_search_ok:
  assumes "names_ok s"
  shows "\<exists>r. name_search (hs_name s) name 0 (hs_name_count s - 1) = Some r \<and> search_post (hs_names s) name r"
  using assms hs_name_nth[OF assms] length_hs_names[OF assms]
  by (intro name_search_correct) (auto simp: names_ok_def)

lemma distinct_names: "names_ok s \<Longrightarrow> distinct (map hn_name (hs_names s))"
  by (simp add: names_ok_def strict_sorted_iff)

lemma name_map_Some:
  assumes "names_ok s"
  shows "name_map s name = Some h \<longleftrightarrow> (\<exists>n \<in> set (hs_names s). hn_name n = name \<and> hn_handle n = h)"
  using distinct_names[OF assms] unfolding name_map_def
  by (subst map_of_eq_Some_iff) (auto simp: o_def)

lemma name_map_None: "name_map s name = None \<longleftrightarrow> name \<notin> hn_name ` set (hs_names s)"
  by (auto simp: name_map_def map_of_eq_None_iff image_image)

lemma search_missing:
  "search_post ns name (Missing p) \<Longrightarrow> name \<notin> hn_name ` set ns"
  by (auto simp: in_set_conv_nth) (metis less_imp_neq linorder_not_le order.strict_iff_not)

lemma findname_ok:
  assumes "names_ok s"
  shows "skynet_handle_findname s name = Some (case name_map s name of Some h \<Rightarrow> h | None \<Rightarrow> 0)"
proof -
  obtain r where r: "name_search (hs_name s) name 0 (hs_name_count s - 1) = Some r"
    "search_post (hs_names s) name r"
    using name_search_ok[OF assms] by blast
  show ?thesis
  proof (cases r)
    case (Found h)
    with r have "name_map s name = Some h"
      by (simp add: name_map_Some[OF assms])
    with r Found show ?thesis by (simp add: skynet_handle_findname_def)
  next
    case (Missing p)
    with r have "name_map s name = None"
      using search_missing[of "hs_names s" name p] by (simp add: name_map_None)
    with r Missing show ?thesis by (simp add: skynet_handle_findname_def)
  qed
qed


lemma shift_names_eq:
  assumes "before \<le> n" "n < length names"
  shows "shift_names before n names =
    take before names @ names ! before # drop before (take n names) @ drop (Suc n) names"
  using assms
proof (induction n arbitrary: names)
  case 0
  then show ?case
    by (subst shift_names.simps) (simp add: Cons_nth_drop_Suc)
next
  case (Suc n)
  show ?case
  proof (cases "before = Suc n")
    case True
    with Suc.prems show ?thesis
      by (subst shift_names.simps) (simp add: id_take_nth_drop)
  next
    case False
    with Suc have "shift_names before (Suc n) names =
        take before names @ names ! before # drop before (take n names) @
        drop (Suc n) (names[Suc n := names ! n])"
      by (subst shift_names.simps) simp
    also have "drop (Suc n) (names[Suc n := names ! n]) = names ! n # drop (Suc (Suc n)) names"
      using Suc.prems by (simp add: Cons_nth_drop_Suc[symmetric])
    also have "drop before (take n names) @ names ! n # drop (Suc (Suc n)) names =
        drop before (take (Suc n) names) @ drop (Suc (Suc n)) names"
      using Suc.prems False by (simp add: take_Suc_conv_app_nth)
    finally show ?thesis .
  qed
qed

text \<open>Both ways of making room leave the old names around a gap at \<open>before\<close>.\<close>

lemma names_ok_gap:
  assumes ok: "names_ok s" and pos: "search_post (hs_names s) (hn_name entry) (Missing p)"
    and arr: "hs_name s' = take (nat p) (hs_name s) @ Some entry #
      drop (nat p) (take (nat (hs_name_count s)) (hs_name s)) @ rest"
    and cnt: "hs_name_count s' = hs_name_count s + 1" "hs_name_count s' \<le> hs_name_cap s'"
    and cap: "length (hs_name s') = nat (hs_name_cap s')" "hs_name_cap s' \<le> MAX_SLOT_SIZE"
  shows "names_ok s' \<and> hs_names s' = take (nat p) (hs_names s) @ entry # drop (nat p) (hs_names s)"
proof -
  let ?ns = "take (nat p) (hs_names s) @ entry # drop (nat p) (hs_names s)"
  have len: "length (hs_names s) = nat (hs_name_count s)"
    by (rule length_hs_names[OF ok])
  have p: "nat p \<le> nat (hs_name_count s)" "0 \<le> hs_name_count s"
    using pos ok len by (auto simp: names_ok_def)
  have pre: "take (nat (hs_name_count s)) (hs_name s) = map Some (hs_names s)"
    using ok by (simp add: names_ok_def)
  have "take (nat p) (hs_name s) = map Some (take (nat p) (hs_names s))"
    using pre p by (metis min.absorb1 take_map take_take)
  then have "hs_name s' = map Some ?ns @ rest"
    using arr pre by (simp add: drop_map)
  moreover have "nat (hs_name_count s') = length ?ns"
    using cnt len p by (simp add: nat_add_distrib)
  ultimately have tk: "take (nat (hs_name_count s')) (hs_name s') = map Some ?ns"
    by simp
  then have ns: "hs_names s' = ?ns"
    by (simp add: hs_names_def o_def)
  have "sorted_wrt (<) (map hn_name ?ns)"
  proof -
    have "sorted_wrt (<) (map hn_name (take (nat p) (hs_names s) @ drop (nat p) (hs_names s)))"
      using ok by (simp add: names_ok_def)
    moreover have "hn_name x < hn_name entry" if "x \<in> set (take (nat p) (hs_names s))" for x
      using that pos len p by (auto simp: in_set_conv_nth)
    moreover have "hn_name entry < hn_name x" if "x \<in> set (drop (nat p) (hs_names s))" for x
      using that pos len p by (auto simp: in_set_conv_nth)
    ultimately show ?thesis
      unfolding map_append sorted_wrt_append by (auto simp del: append_take_drop_id)
  qed
  with ns tk cnt cap p show ?thesis
    by (simp add: names_ok_def)
qed

lemma insert_name_before_ok:
  assumes ok: "names_ok s" and room: "hs_name_count s < 2 ^ 29"
    and pos: "search_post (hs_names s) name (Missing p)"
  shows "\<exists>s'. insert_name_before s name handle p = Some s' \<and> names_ok s' \<and>
    hs_names s' = take (nat p) (hs_names s) @ \<lparr>hn_name = name, hn_handle = handle\<rparr> # drop (nat p) (hs_names s) \<and>
    hs_slot s' = hs_slot s \<and> hs_slot_size s' = hs_slot_size s \<and> hs_harbor s' = hs_harbor s \<and>
    hs_handle_index s' = hs_handle_index s"
proof -
  let ?entry = "\<lparr>hn_name = name, hn_handle = handle\<rparr>"
  have p: "0 \<le> p" "nat p \<le> nat (hs_name_count s)" "0 \<le> hs_name_count s"
    and len: "length (hs_name s) = nat (hs_name_cap s)" "hs_name_count s \<le> hs_name_cap s"
    using pos ok length_hs_names[OF ok] by (auto simp: names_ok_def)
  show ?thesis
  proof (cases "hs_name_count s \<ge> hs_name_cap s")
    case True
    then have cap: "hs_name_cap s = hs_name_count s" "0 < hs_name_cap s"
      using ok by (auto simp: names_ok_def)
    define rest where "rest = replicate (nat (hs_name_cap s * 2) - nat (hs_name_count s) - 1) (None :: handle_name option)"
    define s' where "s' = s\<lparr>hs_name_cap := hs_name_cap s * 2,
      hs_name := take (nat p) (hs_name s) @ Some ?entry #
        drop (nat p) (take (nat (hs_name_count s)) (hs_name s)) @ rest,
      hs_name_count := hs_name_count s + 1\<rparr>"
    have c: "cint (hs_name_cap s * 2) = Some (hs_name_cap s * 2)"
      using cap room by (auto simp: res_simps INT_MIN_def INT_MAX_def)
    have "insert_name_before s name handle p = Some s'"
      using True c cap room p len
      by (auto simp: insert_name_before_def s'_def rest_def MAX_SLOT_SIZE_def arr_set_def nat_less_iff
            list_update_append split: nat.splits)
    moreover have "names_ok s' \<and> hs_names s' = take (nat p) (hs_names s) @ ?entry # drop (nat p) (hs_names s)"
      using cap len room p pos
      by (intro names_ok_gap[OF ok, where rest = rest]) (auto simp: s'_def rest_def MAX_SLOT_SIZE_def)
    ultimately show ?thesis by (auto simp: s'_def)
  next
    case False
    define rest where "rest = drop (Suc (nat (hs_name_count s))) (hs_name s)"
    define s' where "s' = s\<lparr>
      hs_name := take (nat p) (hs_name s) @ Some ?entry #
        drop (nat p) (take (nat (hs_name_count s)) (hs_name s)) @ rest,
      hs_name_count := hs_name_count s + 1\<rparr>"
    have sh: "shift_names (nat p) (nat (hs_name_count s)) (hs_name s) =
        take (nat p) (hs_name s) @ hs_name s ! nat p #
        drop (nat p) (take (nat (hs_name_count s)) (hs_name s)) @ rest"
      unfolding rest_def using p False len by (intro shift_names_eq) auto
    have "insert_name_before s name handle p = Some s'"
      using False p len
      by (auto simp: insert_name_before_def s'_def sh arr_set_def nat_less_iff list_update_append
            split: nat.splits)
    moreover have "names_ok s' \<and> hs_names s' = take (nat p) (hs_names s) @ ?entry # drop (nat p) (hs_names s)"
      using False len p pos ok length_hs_names[OF ok]
      by (intro names_ok_gap[OF ok, where rest = rest]) (auto simp: s'_def rest_def names_ok_def min_def)
    ultimately show ?thesis by (auto simp: s'_def)
  qed
qed

lemma retire_names_ok:
  assumes "i \<le> n" "j \<le> i" "n = length ns" "n \<le> length names"
    "\<And>k. i \<le> k \<Longrightarrow> k < n \<Longrightarrow> names ! k = Some (ns ! k)"
  shows "\<exists>names'. retire_names h (int i) (int j) (int n) names =
      Some (int (j + length (filter (\<lambda>x. hn_handle x \<noteq> h) (drop i ns))), names') \<and>
    length names' = length names \<and>
    take (j + length (filter (\<lambda>x. hn_handle x \<noteq> h) (drop i ns))) names' =
      take j names @ map Some (filter (\<lambda>x. hn_handle x \<noteq> h) (drop i ns))"
  using assms
proof (induction "n - i" arbitrary: i j names)
  case 0
  then show ?case by (subst retire_names.simps) simp
next
  case (Suc d)
  then have i: "i < n" and get: "arr_get names (int i) = Some (Some (ns ! i))"
    by (auto simp: res_simps)
  have dr: "drop i ns = ns ! i # drop (Suc i) ns"
    using i Suc.prems by (simp add: Cons_nth_drop_Suc)
  show ?case
  proof (cases "hn_handle (ns ! i) = h")
    case True
    have "retire_names h (int i) (int j) (int n) names = retire_names h (int (Suc i)) (int j) (int n) names"
      using i get True by (subst retire_names.simps) (simp add: ac_simps)
    with Suc.hyps(1)[of "Suc i" j names] Suc.hyps(2) Suc.prems i True dr show ?thesis
      by simp
  next
    case False
    define names1 where "names1 = names[j := Some (ns ! i)]"
    have set: "(if int i \<noteq> int j then arr_set names (int j) (Some (ns ! i)) else Some names) = Some names1"
    proof -
      have "names[i := Some (ns ! i)] = names"
        using get by (metis arr_get_eq_Some list_update_id nat_int)
      then show ?thesis
        using i Suc.prems by (auto simp: names1_def res_simps)
    qed
    have "retire_names h (int i) (int j) (int n) names =
        retire_names h (int (Suc i)) (int (Suc j)) (int n) names1"
      using i get False set by (subst retire_names.simps) (simp add: ac_simps)
    moreover have "take (Suc j) names1 = take j names @ [Some (ns ! i)]"
      using Suc.prems i by (simp add: names1_def take_Suc_conv_app_nth)
    moreover have "names1 ! k = Some (ns ! k)" if "Suc i \<le> k" "k < n" for k
      using that Suc.prems by (simp add: names1_def)
    ultimately show ?thesis
      using Suc.hyps(1)[of "Suc i" "Suc j" names1] Suc.hyps(2) Suc.prems i False dr
      by (simp add: names1_def)
  qed
qed


lemma insert_name_ok:
  assumes ok: "names_ok s" and room: "hs_name_count s < 2 ^ 29"
  shows "\<exists>r s'. insert_name s name handle = Some (r, s') \<and> names_ok s' \<and>
    r = (if name_map s name = None then Some name else None) \<and>
    name_map s' = (if name_map s name = None then (name_map s)(name \<mapsto> handle) else name_map s) \<and>
    hs_slot s' = hs_slot s \<and> hs_slot_size s' = hs_slot_size s \<and> hs_harbor s' = hs_harbor s \<and>
    hs_handle_index s' = hs_handle_index s"
proof -
  obtain r where r: "name_search (hs_name s) name 0 (hs_name_count s - 1) = Some r"
    "search_post (hs_names s) name r"
    using name_search_ok[OF ok] by blast
  show ?thesis
  proof (cases r)
    case (Found h)
    with r have "name_map s name = Some h"
      by (simp add: name_map_Some[OF ok])
    with r Found ok show ?thesis by (simp add: insert_name_def)
  next
    case (Missing p)
    with r obtain s' where s': "insert_name_before s name handle p = Some s'" "names_ok s'"
      "hs_names s' = take (nat p) (hs_names s) @ \<lparr>hn_name = name, hn_handle = handle\<rparr> # drop (nat p) (hs_names s)"
      "hs_slot s' = hs_slot s" "hs_slot_size s' = hs_slot_size s" "hs_harbor s' = hs_harbor s"
      "hs_handle_index s' = hs_handle_index s"
      using insert_name_before_ok[OF ok room, of name p handle] by auto
    have none: "name_map s name = None"
      using r Missing search_missing[of "hs_names s" name p] by (simp add: name_map_None)
    have set: "set (hs_names s') = insert \<lparr>hn_name = name, hn_handle = handle\<rparr> (set (hs_names s))"
      unfolding s'(3) by (metis append_take_drop_id list.simps(15) set_append Un_insert_right)
    have "name_map s' x = ((name_map s)(name \<mapsto> handle)) x" for x
    proof (cases "name_map s' x")
      case None
      then have "name_map s x = None" "x \<noteq> name"
        using set by (auto simp: name_map_None)
      with None show ?thesis by simp
    next
      case (Some h)
      then obtain n where n: "n \<in> set (hs_names s')" "hn_name n = x" "hn_handle n = h"
        using name_map_Some[OF s'(2)] by auto
      then have "n = \<lparr>hn_name = name, hn_handle = handle\<rparr> \<or> n \<in> set (hs_names s)"
        using set by auto
      then show ?thesis
        using n Some none name_map_Some[OF ok, of x h]
        by (auto simp: name_map_None)
    qed
    then have "name_map s' = (name_map s)(name \<mapsto> handle)"
      by (rule ext)
    with r Missing s' none show ?thesis by (simp add: insert_name_def)
  qed
qed

lemma retire_names_whole:
  assumes ok: "names_ok s"
  shows "\<exists>j names. retire_names h 0 0 (hs_name_count s) (hs_name s) = Some (j, names) \<and>
    names_ok (s\<lparr>hs_name := names, hs_name_count := j\<rparr>) \<and>
    hs_names (s\<lparr>hs_name := names, hs_name_count := j\<rparr>) = filter (\<lambda>x. hn_handle x \<noteq> h) (hs_names s)"
proof -
  let ?f = "filter (\<lambda>x. hn_handle x \<noteq> h) (hs_names s)"
  have len: "length (hs_names s) = nat (hs_name_count s)" "0 \<le> hs_name_count s"
    "hs_name_count s \<le> hs_name_cap s" "length (hs_name s) = nat (hs_name_cap s)"
    using ok length_hs_names[OF ok] by (auto simp: names_ok_def)
  have "\<exists>names'. retire_names h (int 0) (int 0) (int (nat (hs_name_count s))) (hs_name s) =
      Some (int (0 + length (filter (\<lambda>x. hn_handle x \<noteq> h) (drop 0 (hs_names s)))), names') \<and>
    length names' = length (hs_name s) \<and>
    take (0 + length (filter (\<lambda>x. hn_handle x \<noteq> h) (drop 0 (hs_names s)))) names' =
      take 0 (hs_name s) @ map Some (filter (\<lambda>x. hn_handle x \<noteq> h) (drop 0 (hs_names s)))"
    using len hs_name_nth[OF ok] by (intro retire_names_ok) auto
  then obtain names' where r: "retire_names h 0 0 (hs_name_count s) (hs_name s) = Some (int (length ?f), names')"
    and nl: "length names' = length (hs_name s)" and tk: "take (length ?f) names' = map Some ?f"
    using len by auto
  have hn: "hs_names (s\<lparr>hs_name := names', hs_name_count := int (length ?f)\<rparr>) = ?f"
    using tk by (simp add: hs_names_def o_def)
  moreover have "names_ok (s\<lparr>hs_name := names', hs_name_count := int (length ?f)\<rparr>)"
    using ok hn tk nl len length_filter_le[of "\<lambda>x. hn_handle x \<noteq> h" "hs_names s"]
    by (auto simp: names_ok_def sorted_wrt_filter sorted_wrt_map)
  ultimately show ?thesis
    using r by blast
qed

section \<open>The slot table\<close>

lemma slot_hash_eq: "slot_hash h (2 ^ k) = int (unat h mod 2 ^ k)"
  by (simp add: slot_hash_def flip: unat_and_mask)

lemma HANDLE_MASK_less: "h > HANDLE_MASK \<longleftrightarrow> unat h > 2 ^ 24 - 1"
  by (simp add: HANDLE_MASK_def word_less_nat_alt)

text \<open>The handles the scan looks at, as numbers.\<close>

fun cands :: "nat \<Rightarrow> nat \<Rightarrow> nat list" where
  "cands 0 h = []"
| "cands (Suc n) h = (let h = (if h > 2 ^ 24 - 1 then 1 else h) in h # cands n (h + 1))"

lemma register_scan_cands:
  assumes "length slot = 2 ^ k" "unat h \<le> 2 ^ 24"
  shows "register_scan slot (2 ^ k) n h =
    Some (map_option (\<lambda>x. (of_nat x, int (x mod 2 ^ k)))
      (find (\<lambda>x. slot ! (x mod 2 ^ k) = None) (cands n (unat h))))"
  using assms(2)
proof (induction n arbitrary: h)
  case 0
  then show ?case by simp
next
  case (Suc n)
  define h1 where "h1 = (if h > HANDLE_MASK then 1 else h)"
  have h1: "unat h1 = (if unat h > 2 ^ 24 - 1 then 1 else unat h)"
    by (simp add: h1_def HANDLE_MASK_less)
  then have b: "unat h1 \<le> 2 ^ 24 - 1"
    by simp
  then have plus: "unat (h1 + 1) = unat h1 + 1"
    by (simp add: unat_word_ariths)
  have get: "arr_get slot (slot_hash h1 (2 ^ k)) = Some (slot ! (unat h1 mod 2 ^ k))"
    by (simp add: slot_hash_eq assms(1))
  have "register_scan slot (2 ^ k) n (h1 + 1) =
    Some (map_option (\<lambda>x. (of_nat x, int (x mod 2 ^ k)))
      (find (\<lambda>x. slot ! (x mod 2 ^ k) = None) (cands n (unat h1 + 1))))"
    using Suc.IH[of "h1 + 1"] plus b by simp
  moreover have "cands (Suc n) (unat h) = unat h1 # cands n (unat h1 + 1)"
    using h1 by (simp add: Let_def)
  moreover have "register_scan slot (2 ^ k) (Suc n) h =
      (case slot ! (unat h1 mod 2 ^ k) of
         None \<Rightarrow> Some (Some (h1, int (unat h1 mod 2 ^ k)))
       | Some _ \<Rightarrow> register_scan slot (2 ^ k) n (h1 + 1))"
    using get[unfolded slot_hash_eq]
    by (simp add: Let_def slot_hash_eq flip: h1_def split: option.splits)
  ultimately show ?case
    by (simp split: option.splits)
qed

lemma cands_range: "1 \<le> h \<Longrightarrow> x \<in> set (cands n h) \<Longrightarrow> 1 \<le> x \<and> x \<le> 2 ^ 24 - 1"
  by (induction n arbitrary: h) (auto simp: Let_def split: if_splits)

lemma cands_upt: "h + n \<le> 2 ^ 24 \<Longrightarrow> cands n h = [h..<h + n]"
proof (induction n arbitrary: h)
  case (Suc n)
  then have "cands n (h + 1) = [h + 1..<h + 1 + n]"
    by simp
  with Suc.prems show ?case
    by (simp add: upt_conv_Cons)
qed simp

lemma cands_wrap: "h + a = 2 ^ 24 \<Longrightarrow> cands (a + n) h = [h..<2 ^ 24] @ cands n (2 ^ 24)"
proof (induction a arbitrary: h)
  case (Suc a)
  then have "cands (a + n) (h + 1) = [h + 1..<2 ^ 24] @ cands n (2 ^ 24)"
    by simp
  with Suc.prems show ?case
    by (simp add: upt_conv_Cons)
qed simp

lemma cands_top: "n \<le> 2 ^ 24 - 1 \<Longrightarrow> cands n (2 ^ 24) = [1..<1 + n]"
  by (cases n) (simp_all add: cands_upt upt_conv_Cons Let_def)

lemma cands_mono: "m \<le> n \<Longrightarrow> set (cands m h) \<subseteq> set (cands n h)"
proof (induction m arbitrary: n h)
  case (Suc m)
  then obtain n' where "n = Suc n'" "m \<le> n'"
    by (cases n) auto
  with Suc.IH show ?case by (auto simp: Let_def)
qed simp

lemma residue_in_block: "j < (N::nat) \<Longrightarrow> \<exists>x \<in> {h..<h + N}. x mod N = j"
proof -
  assume j: "j < N"
  let ?d = "(j + N * h - h) mod N"
  have "(h + ?d) mod N = (h + (j + N * h - h)) mod N"
    by (simp add: mod_add_right_eq)
  also have "h + (j + N * h - h) = j + N * h"
    using j by (cases N) auto
  finally have "(h + ?d) mod N = j"
    using j by simp
  moreover have "?d < N" using j by simp
  ultimately show ?thesis by (intro bexI[of _ "h + ?d"]) auto
qed

text \<open>Every slot but slot 0 is looked at: the step from the largest handle to 1 skips handle 0.\<close>

lemma cands_cover:
  assumes "k \<le> 24" "1 \<le> h" "h \<le> 2 ^ 24" "1 \<le> j" "j < 2 ^ k"
  shows "\<exists>x \<in> set (cands (2 ^ k) h). x mod 2 ^ k = j"
proof (cases "h + 2 ^ k \<le> 2 ^ 24")
  case True
  with residue_in_block[of j "2 ^ k" h] assms show ?thesis
    by (simp add: cands_upt)
next
  case False
  define a where "a = 2 ^ 24 - h"
  have N: "(2 :: nat) ^ k dvd 2 ^ 24" "(2 :: nat) ^ k \<le> 2 ^ 24"
    using le_imp_power_dvd[OF assms(1), of "2 :: nat"] power_increasing[OF assms(1), of "2 :: nat"]
    by simp_all
  have a: "h + a = 2 ^ 24" "a < 2 ^ k"
    using False assms by (auto simp: a_def)
  have c: "cands (2 ^ k) h = [h..<2 ^ 24] @ cands (2 ^ k - a) (2 ^ 24)"
    using cands_wrap[of h a "2 ^ k - a"] a by simp
  show ?thesis
  proof (cases "j \<le> 2 ^ k - a")
    case True
    have "j < 2 ^ 24"
      using assms(5) N(2) by linarith
    with True assms(4) have "j \<in> set (cands (min (2 ^ k - a) (2 ^ 24 - 1)) (2 ^ 24))"
      by (subst cands_top) auto
    then have "j \<in> set (cands (2 ^ k - a) (2 ^ 24))"
      by (rule subsetD[OF cands_mono, rotated]) simp
    with c assms show ?thesis by (intro bexI[of _ j]) auto
  next
    case False
    let ?x = "2 ^ 24 - 2 ^ k + j"
    have "?x mod 2 ^ k = j"
      using N assms by (metis (no_types, lifting) mod_less mod_add_self2 dvd_diff_nat dvd_refl mod_add_left_eq mod_0_imp_dvd
        add.left_neutral dvd_imp_mod_0)
    moreover have "h \<le> ?x" "?x < 2 ^ 24"
      using False a N assms by auto
    ultimately show ?thesis
      using c by (intro bexI[of _ ?x]) auto
  qed
qed


definition slot_live :: "handle_storage \<Rightarrow> addr set" where
  "slot_live s = {c. Some c \<in> set (hs_slot s)}"

text \<open>The invariant of the slot table for the handles \<open>hof\<close> of the contexts: a context sits in the
  slot of the low bits of its handle, and its handle is a non-zero 24-bit number below the harbor.\<close>

definition slots_ok :: "(addr \<Rightarrow> u32) \<Rightarrow> handle_storage \<Rightarrow> bool" where
  "slots_ok hof s \<longleftrightarrow>
     (\<exists>k. 2 \<le> k \<and> k \<le> 24 \<and> hs_slot_size s = 2 ^ k \<and> length (hs_slot s) = 2 ^ k \<and>
        (\<forall>i < 2 ^ k. \<forall>c. hs_slot s ! i = Some c \<longrightarrow> unat (hof c) mod 2 ^ k = i)) \<and>
     (\<forall>c \<in> slot_live s. hof c AND HANDLE_MASK \<noteq> 0 \<and> hof c AND NOT HANDLE_MASK = hs_harbor s) \<and>
     hs_harbor s AND HANDLE_MASK = 0 \<and>
     1 \<le> unat (hs_handle_index s) \<and> unat (hs_handle_index s) \<le> 2 ^ 24"

definition handle_map :: "(addr \<Rightarrow> u32) \<Rightarrow> handle_storage \<Rightarrow> u32 \<rightharpoonup> addr" where
  "handle_map hof s h =
     (case arr_get (hs_slot s) (slot_hash h (hs_slot_size s)) of
        Some (Some c) \<Rightarrow> if hof c = h then Some c else None
      | _ \<Rightarrow> None)"

lemma handle_lookup_map: "slots_ok hof s \<Longrightarrow> handle_lookup hof h s = Some (handle_map hof s h)"
  by (auto simp: slots_ok_def handle_lookup_def handle_map_def slot_hash_eq split: option.splits)

lemma handle_map_Some:
  assumes "slots_ok hof s"
  shows "handle_map hof s h = Some c \<longleftrightarrow> c \<in> slot_live s \<and> hof c = h"
proof -
  obtain k where k: "hs_slot_size s = 2 ^ k" "length (hs_slot s) = 2 ^ k"
    and pos: "\<And>i c. i < 2 ^ k \<Longrightarrow> hs_slot s ! i = Some c \<Longrightarrow> unat (hof c) mod 2 ^ k = i"
    using assms by (auto simp: slots_ok_def)
  have "handle_map hof s h = Some c \<longleftrightarrow> hs_slot s ! (unat h mod 2 ^ k) = Some c \<and> hof c = h"
    using k by (auto simp: handle_map_def slot_hash_eq split: option.splits)
  also have "\<dots> \<longleftrightarrow> c \<in> slot_live s \<and> hof c = h"
    using k pos by (auto simp: slot_live_def in_set_conv_nth intro: exI[of _ "unat (hof c) mod 2 ^ k"])
  finally show ?thesis .
qed

lemma handle_map_None:
  "slots_ok hof s \<Longrightarrow> handle_map hof s h = None \<longleftrightarrow> (\<forall>c \<in> slot_live s. hof c \<noteq> h)"
  using handle_map_Some[of hof s h] by (metis option.exhaust option.simps(3))

text \<open>Moving to a larger table: no two contexts collide, and none is lost.\<close>

lemma rehash_ok:
  assumes "length ns = 2 ^ m"
    and "\<And>c. Some c \<in> set xs \<Longrightarrow> ns ! (unat (hof c) mod 2 ^ m) = None"
    and "sorted_wrt (\<lambda>x y. \<forall>c d. x = Some c \<longrightarrow> y = Some d \<longrightarrow> unat (hof c) mod 2 ^ m \<noteq> unat (hof d) mod 2 ^ m) xs"
  shows "\<exists>ns'. rehash hof (2 ^ m) xs ns = Some ns' \<and> length ns' = 2 ^ m \<and>
    (\<forall>j < 2 ^ m. \<forall>c. ns' ! j = Some c \<longleftrightarrow>
       ns ! j = Some c \<or> Some c \<in> set xs \<and> unat (hof c) mod 2 ^ m = j)"
  using assms
proof (induction xs arbitrary: ns)
  case Nil
  then show ?case by simp
next
  case (Cons x xs)
  show ?case
  proof (cases x)
    case None
    with Cons show ?thesis by simp
  next
    case (Some c)
    let ?r = "unat (hof c) mod 2 ^ m"
    let ?ns = "ns[?r := Some c]"
    have free: "ns ! ?r = None"
      using Cons.prems(2) Some by simp
    have step: "rehash hof (2 ^ m) (x # xs) ns = rehash hof (2 ^ m) xs ?ns"
      using Cons.prems(1) Some free by (simp add: slot_hash_eq)
    have "\<exists>ns'. rehash hof (2 ^ m) xs ?ns = Some ns' \<and> length ns' = 2 ^ m \<and>
      (\<forall>j < 2 ^ m. \<forall>d. ns' ! j = Some d \<longleftrightarrow>
         ?ns ! j = Some d \<or> Some d \<in> set xs \<and> unat (hof d) mod 2 ^ m = j)"
      using Cons.prems Some by (intro Cons.IH) (auto simp: nth_list_update)
    then obtain ns' where ns': "rehash hof (2 ^ m) xs ?ns = Some ns'" "length ns' = 2 ^ m"
      "\<And>j d. j < 2 ^ m \<Longrightarrow> ns' ! j = Some d \<longleftrightarrow>
         ?ns ! j = Some d \<or> Some d \<in> set xs \<and> unat (hof d) mod 2 ^ m = j"
      by blast
    have "ns' ! j = Some d \<longleftrightarrow> ns ! j = Some d \<or> Some d \<in> set (x # xs) \<and> unat (hof d) mod 2 ^ m = j"
      if "j < 2 ^ m" for j d
      using ns'(3)[OF that, of d] Some free Cons.prems(1) that by (auto simp: nth_list_update)
    with step ns'(1,2) show ?thesis by simp
  qed
qed


text \<open>Doubling the table keeps the invariant and the handles.\<close>

lemma grow_ok:
  assumes ok: "slots_ok hof s" and grow: "hs_slot_size s * 2 - 1 \<le> uint HANDLE_MASK"
  shows "\<exists>ns. rehash hof (hs_slot_size s * 2) (hs_slot s) (replicate (nat (hs_slot_size s * 2)) None) = Some ns \<and>
    slots_ok hof (s\<lparr>hs_slot := ns, hs_slot_size := hs_slot_size s * 2\<rparr>) \<and>
    slot_live (s\<lparr>hs_slot := ns, hs_slot_size := hs_slot_size s * 2\<rparr>) = slot_live s"
proof -
  obtain k where k: "2 \<le> k" "k \<le> 24" "hs_slot_size s = 2 ^ k" "length (hs_slot s) = 2 ^ k"
    and pos: "\<And>i c. i < 2 ^ k \<Longrightarrow> hs_slot s ! i = Some c \<Longrightarrow> unat (hof c) mod 2 ^ k = i"
    using ok by (auto simp: slots_ok_def)
  have "(2 :: int) ^ k < 2 ^ 24"
    using grow k(3) by (simp add: HANDLE_MASK_def)
  then have k24: "Suc k \<le> 24"
    by (metis Suc_leI numeral_One one_less_numeral_iff power_less_imp_less_exp semiring_norm(76))
  have double: "hs_slot_size s * 2 = 2 ^ Suc k" "nat (2 ^ Suc k) = 2 ^ Suc k"
    using k(3) by (simp_all add: nat_mult_distrib nat_power_eq)
  have res: "unat w mod 2 ^ Suc k mod 2 ^ k = unat w mod 2 ^ k" for w :: u32
    by (simp add: mod_mod_cancel)
  have "\<exists>ns. rehash hof (2 ^ Suc k) (hs_slot s) (replicate (2 ^ Suc k) None) = Some ns \<and> length ns = 2 ^ Suc k \<and>
    (\<forall>j < 2 ^ Suc k. \<forall>c. ns ! j = Some c \<longleftrightarrow>
       replicate (2 ^ Suc k) None ! j = Some c \<or> Some c \<in> set (hs_slot s) \<and> unat (hof c) mod 2 ^ Suc k = j)"
  proof (rule rehash_ok)
    show "sorted_wrt (\<lambda>x y. \<forall>c d. x = Some c \<longrightarrow> y = Some d \<longrightarrow>
        unat (hof c) mod 2 ^ Suc k \<noteq> unat (hof d) mod 2 ^ Suc k) (hs_slot s)"
      unfolding sorted_wrt_iff_nth_less
    proof (intro allI impI)
      fix i j c d
      assume ij: "i < j" "j < length (hs_slot s)" "hs_slot s ! i = Some c" "hs_slot s ! j = Some d"
      then have "unat (hof c) mod 2 ^ k \<noteq> unat (hof d) mod 2 ^ k"
        using pos[of i c] pos[of j d] k by simp
      then show "unat (hof c) mod 2 ^ Suc k \<noteq> unat (hof d) mod 2 ^ Suc k"
        using res by metis
    qed
  qed simp_all
  then obtain ns where ns: "rehash hof (2 ^ Suc k) (hs_slot s) (replicate (2 ^ Suc k) None) = Some ns"
    "length ns = 2 ^ Suc k"
    "\<And>j c. j < 2 ^ Suc k \<Longrightarrow> ns ! j = Some c \<longleftrightarrow> Some c \<in> set (hs_slot s) \<and> unat (hof c) mod 2 ^ Suc k = j"
    by fastforce
  let ?s = "s\<lparr>hs_slot := ns, hs_slot_size := 2 ^ Suc k\<rparr>"
  have live: "slot_live ?s = slot_live s"
  proof -
    have "Some c \<in> set ns \<longleftrightarrow> Some c \<in> set (hs_slot s)" for c
      using ns(2,3) by (metis in_set_conv_nth mod_less_divisor zero_less_numeral zero_less_power)
    then show ?thesis by (simp add: slot_live_def)
  qed
  moreover have "slots_ok hof ?s"
    using ok k k24 ns live unfolding slots_ok_def
    by (intro conjI exI[of _ "Suc k"]) auto
  ultimately show ?thesis
    unfolding double using ns(1) by blast
qed

text \<open>When the scan finds no free slot, nearly every slot is taken.\<close>

lemma scan_full:
  assumes ok: "slots_ok hof s"
    and full: "register_scan (hs_slot s) (hs_slot_size s) (nat (hs_slot_size s)) (hs_handle_index s) = Some None"
  shows "nat (hs_slot_size s) - 1 \<le> card (slot_live s)"
proof -
  obtain k where k: "k \<le> 24" "hs_slot_size s = 2 ^ k" "length (hs_slot s) = 2 ^ k"
    and pos: "\<And>i c. i < 2 ^ k \<Longrightarrow> hs_slot s ! i = Some c \<Longrightarrow> unat (hof c) mod 2 ^ k = i"
    and idx: "1 \<le> unat (hs_handle_index s)" "unat (hs_handle_index s) \<le> 2 ^ 24"
    using ok by (auto simp: slots_ok_def)
  have nat_sz: "nat (2 ^ k) = 2 ^ k"
    by (simp add: nat_power_eq)
  have taken: "hs_slot s ! j \<noteq> None" if jr: "1 \<le> j" "j < 2 ^ k" for j
  proof -
    obtain x where x: "x \<in> set (cands (2 ^ k) (unat (hs_handle_index s)))" "x mod 2 ^ k = j"
      using cands_cover[OF k(1) idx jr] by blast
    have "find (\<lambda>x. hs_slot s ! (x mod 2 ^ k) = None) (cands (2 ^ k) (unat (hs_handle_index s))) = None"
      using full register_scan_cands[OF k(3) idx(2), of "2 ^ k"] by (simp add: k(2) nat_sz)
    with x show ?thesis
      by (auto simp: find_None_iff)
  qed
  define f where "f j = the (hs_slot s ! j)" for j
  have f: "hs_slot s ! j = Some (f j)" if "j \<in> {1..<2 ^ k}" for j
    using taken[of j] that by (auto simp: f_def)
  have "inj_on f {1..<2 ^ k}"
    by (rule inj_onI) (metis atLeastLessThan_iff f pos)
  moreover have "f ` {1..<2 ^ k} \<subseteq> slot_live s"
    using f k(3) by (force simp: slot_live_def in_set_conv_nth)
  moreover have "finite (slot_live s)"
    using finite_vimageI[of "set (hs_slot s)" Some] by (simp add: slot_live_def vimage_def)
  ultimately have "card {1..<(2::nat) ^ k} \<le> card (slot_live s)"
    by (rule card_inj_on_le)
  then show ?thesis
    by (simp add: k(2) nat_sz)
qed


text \<open>A handle is its 24-bit number below the harbor id.\<close>

lemma HANDLE_MASK_mask: "HANDLE_MASK = mask 24"
  by (simp add: HANDLE_MASK_def mask_eq_exp_minus_1)

lemma handle_bits:
  fixes harbor :: u32
  assumes "1 \<le> x" "x \<le> 2 ^ 24 - 1" and harbor: "harbor AND HANDLE_MASK = 0"
  defines "h \<equiv> of_nat x :: u32"
  shows "(h OR harbor) AND HANDLE_MASK \<noteq> 0" "(h OR harbor) AND NOT HANDLE_MASK = harbor"
    "k \<le> 24 \<Longrightarrow> unat (h OR harbor) mod 2 ^ k = x mod 2 ^ k"
proof -
  have ux: "unat h = x"
    unfolding h_def using assms by (simp add: unat_of_nat)
  have tb: "take_bit 24 harbor = 0"
    using harbor by (simp add: HANDLE_MASK_mask flip: take_bit_eq_mask)
  have unat_take: "unat (take_bit n w) = unat w mod 2 ^ n" for n and w :: u32
    unfolding unsigned_take_bit_eq by (rule take_bit_eq_mod)
  have "unat (take_bit 24 h) = unat h mod 2 ^ 24"
    by (rule unat_take)
  then have th: "take_bit 24 h = h"
    using ux assms by (metis mod_less le_imp_less_Suc unsigned_word_eqI Suc_diff_1 zero_less_numeral zero_less_power)
  have "(h OR harbor) AND HANDLE_MASK = take_bit 24 (h OR harbor)"
    by (simp add: HANDLE_MASK_mask flip: take_bit_eq_mask)
  also have "\<dots> = h"
    using tb th by simp
  finally show "(h OR harbor) AND HANDLE_MASK \<noteq> 0"
    using ux assms(1) by auto
  have "bit harbor n \<Longrightarrow> \<not> n < 24" "bit h n \<Longrightarrow> n < 24" for n
    using tb th by (metis bit_0_eq bit_take_bit_iff bot_apply bot_bool_def)+
  then show "(h OR harbor) AND NOT HANDLE_MASK = harbor"
    by (intro bit_eqI) (auto simp: HANDLE_MASK_mask bit_simps)
  show "unat (h OR harbor) mod 2 ^ k = x mod 2 ^ k" if "k \<le> 24"
  proof -
    have "take_bit k harbor = 0"
      using tb that by (metis min.absorb1 take_bit_of_0 take_bit_take_bit)
    then have "take_bit k (h OR harbor) = take_bit k h"
      by simp
    then have "unat (take_bit k (h OR harbor)) = unat (take_bit k h)"
      by simp
    then show ?thesis
      by (simp only: unat_take ux)
  qed
qed

text \<open>Placing a context in a free slot under its new handle.\<close>

lemma place_ok:
  assumes ok: "slots_ok hof s" and fresh: "ctx \<notin> slot_live s"
    and scan: "register_scan (hs_slot s) (hs_slot_size s) (nat (hs_slot_size s)) (hs_handle_index s) = Some (Some (h, hash))"
  defines "H \<equiv> h OR hs_harbor s"
    and "s' \<equiv> s\<lparr>hs_slot := (hs_slot s)[nat hash := Some ctx], hs_handle_index := h + 1\<rparr>"
  shows "slots_ok (hof(ctx := H)) s'" "slot_live s' = insert ctx (slot_live s)"
    "H AND HANDLE_MASK \<noteq> 0" "H AND NOT HANDLE_MASK = hs_harbor s" "\<forall>c \<in> slot_live s. hof c \<noteq> H"
proof -
  obtain k where k: "2 \<le> k" "k \<le> 24" "hs_slot_size s = 2 ^ k" "length (hs_slot s) = 2 ^ k"
    and pos: "\<And>i c. i < 2 ^ k \<Longrightarrow> hs_slot s ! i = Some c \<Longrightarrow> unat (hof c) mod 2 ^ k = i"
    and idx: "1 \<le> unat (hs_handle_index s)" "unat (hs_handle_index s) \<le> 2 ^ 24"
    and harbor: "hs_harbor s AND HANDLE_MASK = 0"
    using ok by (auto simp: slots_ok_def)
  have nat_sz: "nat (2 ^ k) = 2 ^ k"
    by (simp add: nat_power_eq)
  obtain x where fx: "find (\<lambda>x. hs_slot s ! (x mod 2 ^ k) = None) (cands (2 ^ k) (unat (hs_handle_index s))) = Some x"
    and hx: "h = of_nat x" "hash = int (x mod 2 ^ k)"
    using scan register_scan_cands[OF k(4) idx(2), of "2 ^ k"] by (auto simp: k(3) nat_sz)
  then have free: "hs_slot s ! (x mod 2 ^ k) = None" and xr: "1 \<le> x" "x \<le> 2 ^ 24 - 1"
    using cands_range[OF idx(1)] find_SomeD[OF fx] by blast+
  note bits = handle_bits[OF xr harbor, folded hx(1), folded H_def]
  show "H AND HANDLE_MASK \<noteq> 0" "H AND NOT HANDLE_MASK = hs_harbor s"
    using bits by auto
  have lt: "x mod 2 ^ k < 2 ^ k" by simp
  show live: "slot_live s' = insert ctx (slot_live s)"
    using free k(4) lt by (auto simp: slot_live_def s'_def hx(2) in_set_fill)
  show neq: "\<forall>c \<in> slot_live s. hof c \<noteq> H"
  proof
    fix c
    assume "c \<in> slot_live s"
    then obtain i where i: "i < 2 ^ k" "hs_slot s ! i = Some c"
      using k(4) by (auto simp: slot_live_def in_set_conv_nth)
    then show "hof c \<noteq> H"
      using pos[OF i] bits(3)[OF k(2)] free by auto
  qed
  have "unat (h + 1) = x + 1"
    using xr by (simp add: hx(1) unat_word_ariths unat_of_nat)
  moreover have "unat ((hof(ctx := H)) c) mod 2 ^ k = i" if "i < 2 ^ k" "hs_slot s' ! i = Some c" for i c
  proof (cases "i = x mod 2 ^ k")
    case True
    with that show ?thesis
      using bits(3)[OF k(2)] k(4) by (simp add: s'_def hx(2))
  next
    case False
    with that have "hs_slot s ! i = Some c"
      by (simp add: s'_def hx(2))
    moreover from this have "c \<noteq> ctx"
      using fresh that k(4) by (auto simp: slot_live_def in_set_conv_nth)
    ultimately show ?thesis
      using pos that by simp
  qed
  moreover have "\<forall>c \<in> slot_live s'. (hof(ctx := H)) c AND HANDLE_MASK \<noteq> 0 \<and>
      (hof(ctx := H)) c AND NOT HANDLE_MASK = hs_harbor s"
    using live ok bits by (auto simp: slots_ok_def)
  ultimately show "slots_ok (hof(ctx := H)) s'"
    using k harbor xr unfolding slots_ok_def
    by (intro conjI exI[of _ k]) (auto simp: s'_def)
qed


text \<open>Registration: with fewer than \<open>2 ^ 24 - 1\<close> live contexts it returns, growing the table as often
  as needed; the handle it returns is new, and once the context carries it the table maps it to
  the context and every other handle as before.\<close>

lemma register_ok:
  assumes "slots_ok hof s" "ctx \<notin> slot_live s" "card (slot_live s) < 2 ^ 24 - 1"
  shows "\<exists>h s'. skynet_handle_register hof ctx s = Some (h, s') \<and> slots_ok (hof(ctx := h)) s' \<and>
    slot_live s' = insert ctx (slot_live s) \<and> (\<forall>c \<in> slot_live s. hof c \<noteq> h) \<and>
    h AND HANDLE_MASK \<noteq> 0 \<and> h AND NOT HANDLE_MASK = hs_harbor s \<and>
    hs_name s' = hs_name s \<and> hs_name_count s' = hs_name_count s \<and> hs_name_cap s' = hs_name_cap s \<and>
    hs_harbor s' = hs_harbor s"
  using assms
proof (induction "nat (2 ^ 24 - hs_slot_size s)" arbitrary: s rule: less_induct)
  case less
  obtain k where k: "2 \<le> k" "k \<le> 24" "hs_slot_size s = 2 ^ k" "length (hs_slot s) = 2 ^ k"
    and idx: "unat (hs_handle_index s) \<le> 2 ^ 24"
    using less.prems(1) by (auto simp: slots_ok_def)
  obtain r where r: "register_scan (hs_slot s) (hs_slot_size s) (nat (hs_slot_size s)) (hs_handle_index s) = Some r"
    using register_scan_cands[OF k(4) idx] by (simp add: k(3))
  show ?case
  proof (cases r)
    case (Some p)
    obtain h hash where p: "p = (h, hash)" by (cases p)
    have scan: "register_scan (hs_slot s) (hs_slot_size s) (nat (hs_slot_size s)) (hs_handle_index s) = Some (Some (h, hash))"
      using r Some p by simp
    note place = place_ok[OF less.prems(1,2) scan]
    have "skynet_handle_register hof ctx s = Some (h OR hs_harbor s,
        s\<lparr>hs_slot := (hs_slot s)[nat hash := Some ctx], hs_handle_index := h + 1\<rparr>)"
      by (subst skynet_handle_register.simps) (simp add: scan)
    with place show ?thesis by simp
  next
    case None
    have "nat (hs_slot_size s) - 1 < 2 ^ 24 - 1"
      using scan_full[OF less.prems(1)] r None less.prems(3) by simp
    then have lt: "hs_slot_size s < 2 ^ 24"
      by (simp add: k(3))
    moreover have grow: "hs_slot_size s * 2 - 1 \<le> uint HANDLE_MASK"
    proof -
      have "Suc k \<le> 24"
        using lt k(3) by (metis Suc_leI one_less_numeral_iff power_strict_increasing_iff semiring_norm(76))
      then have "(2 :: int) ^ Suc k \<le> 2 ^ 24"
        by (rule power_increasing) simp
      then show ?thesis by (simp add: k(3) HANDLE_MASK_def)
    qed
    ultimately obtain ns where ns: "rehash hof (hs_slot_size s * 2) (hs_slot s)
          (replicate (nat (hs_slot_size s * 2)) None) = Some ns"
      "slots_ok hof (s\<lparr>hs_slot := ns, hs_slot_size := hs_slot_size s * 2\<rparr>)"
      "slot_live (s\<lparr>hs_slot := ns, hs_slot_size := hs_slot_size s * 2\<rparr>) = slot_live s"
      using grow_ok[OF less.prems(1)] by blast
    let ?s = "s\<lparr>hs_slot := ns, hs_slot_size := hs_slot_size s * 2\<rparr>"
    have step: "skynet_handle_register hof ctx s = skynet_handle_register hof ctx ?s"
      by (subst skynet_handle_register.simps) (simp add: r None grow ns(1))
    show ?thesis
      unfolding step using less.hyps[of ?s] less.prems(2,3) ns(2,3) lt k(3) by simp
  qed
qed

section \<open>The two contracts\<close>

lemma dom_handle_map: "slots_ok hof s \<Longrightarrow> dom (handle_map hof s) = hof ` slot_live s"
  using handle_map_Some[of hof s] by (auto simp: dom_def)

lemma ran_handle_map: "slots_ok hof s \<Longrightarrow> ran (handle_map hof s) = slot_live s"
  using handle_map_Some[of hof s] by (auto simp: ran_def)

lemma finite_slot_live: "finite (slot_live s)"
  using finite_vimageI[of "set (hs_slot s)" Some] by (simp add: slot_live_def vimage_def)

lemma inj_on_slot_live:
  assumes "slots_ok hof s"
  shows "inj_on hof (slot_live s)"
proof (rule inj_onI)
  fix c d
  assume "c \<in> slot_live s" "d \<in> slot_live s" "hof c = hof d"
  then show "c = d"
    using handle_map_Some[OF assms, of "hof c" c] handle_map_Some[OF assms, of "hof c" d] by simp
qed

lemma card_dom_handle_map: "slots_ok hof s \<Longrightarrow> card (dom (handle_map hof s)) = card (slot_live s)"
  by (simp add: dom_handle_map card_image inj_on_slot_live)

lemma names_cong:
  "hs_name s' = hs_name s \<Longrightarrow> hs_name_count s' = hs_name_count s \<Longrightarrow> hs_names s' = hs_names s"
  by (simp add: hs_names_def)

lemma names_ok_cong:
  "hs_name s' = hs_name s \<Longrightarrow> hs_name_count s' = hs_name_count s \<Longrightarrow> hs_name_cap s' = hs_name_cap s \<Longrightarrow>
   names_ok s' = names_ok s"
  by (simp add: names_ok_def hs_names_def)

lemma retire_locked_ok:
  assumes ok: "slots_ok hof s" and names: "names_ok s"
  shows "\<exists>s'. handle_retire_locked hof h s = Some (handle_map hof s h, s') \<and>
    slots_ok hof s' \<and> names_ok s' \<and> handle_map hof s' = (handle_map hof s)(h := None) \<and>
    (handle_map hof s h = None \<longrightarrow> s' = s) \<and>
    (handle_map hof s h \<noteq> None \<longrightarrow> hs_names s' = filter (\<lambda>n. hn_handle n \<noteq> h) (hs_names s)) \<and>
    hs_harbor s' = hs_harbor s"
proof -
  obtain k where k: "2 \<le> k" "k \<le> 24" "hs_slot_size s = 2 ^ k" "length (hs_slot s) = 2 ^ k"
    and pos: "\<And>i c. i < 2 ^ k \<Longrightarrow> hs_slot s ! i = Some c \<Longrightarrow> unat (hof c) mod 2 ^ k = i"
    using ok by (auto simp: slots_ok_def)
  let ?i = "unat h mod 2 ^ k"
  have hash: "slot_hash h (hs_slot_size s) = int ?i"
    by (simp add: k(3) slot_hash_eq)
  have get: "arr_get (hs_slot s) (int ?i) = Some (hs_slot s ! ?i)"
    by (simp add: k(4))
  show ?thesis
  proof (cases "handle_map hof s h")
    case None
    then have "handle_retire_locked hof h s = Some (None, s)"
      by (auto simp: handle_retire_locked_def handle_map_def hash get split: option.splits if_splits)
    with None ok names show ?thesis by auto
  next
    case (Some c)
    then have c: "hs_slot s ! ?i = Some c" "hof c = h"
      by (auto simp: handle_map_def hash get split: option.splits if_splits)
    obtain j ns where ns: "retire_names h 0 0 (hs_name_count s) (hs_name s) = Some (j, ns)"
      "names_ok (s\<lparr>hs_name := ns, hs_name_count := j\<rparr>)"
      "hs_names (s\<lparr>hs_name := ns, hs_name_count := j\<rparr>) = filter (\<lambda>x. hn_handle x \<noteq> h) (hs_names s)"
      using retire_names_whole[OF names, of h] by blast
    define s' where "s' = s\<lparr>hs_slot := (hs_slot s)[?i := None], hs_name := ns, hs_name_count := j\<rparr>"
    have r: "handle_retire_locked hof h s = Some (Some c, s')"
      by (simp add: handle_retire_locked_def hash get c ns(1) s'_def)
    have sub: "hs_slot s' ! i = Some d \<longleftrightarrow> hs_slot s ! i = Some d \<and> i \<noteq> ?i" if "i < 2 ^ k" for i d
      using that by (auto simp: s'_def nth_list_update k(4))
    have live: "slot_live s' = slot_live s - {c}"
    proof -
      have "Some d \<in> set (hs_slot s') \<longleftrightarrow> Some d \<in> set (hs_slot s) \<and> d \<noteq> c" for d
      proof -
        have "Some d \<in> set (hs_slot s') \<longleftrightarrow> (\<exists>i < 2 ^ k. hs_slot s ! i = Some d \<and> i \<noteq> ?i)"
          using sub by (auto simp: in_set_conv_nth s'_def k(4))
        also have "\<dots> \<longleftrightarrow> (\<exists>i < 2 ^ k. hs_slot s ! i = Some d \<and> d \<noteq> c)"
          using c pos by (metis mod_less_divisor option.inject zero_less_numeral zero_less_power)
        finally show ?thesis
          by (auto simp: in_set_conv_nth k(4))
      qed
      then show ?thesis by (auto simp: slot_live_def)
    qed
    have ok': "slots_ok hof s'"
      unfolding slots_ok_def
    proof (intro conjI exI[of _ k])
      show "\<forall>i<2 ^ k. \<forall>d. hs_slot s' ! i = Some d \<longrightarrow> unat (hof d) mod 2 ^ k = i"
        using sub pos by blast
    qed (use ok k live in \<open>auto simp: slots_ok_def s'_def\<close>)
    have "handle_map hof s' x = ((handle_map hof s)(h := None)) x" for x
      using handle_map_Some[OF ok, of x] handle_map_Some[OF ok', of x] live c(2)
        inj_on_slot_live[OF ok] Some
      by (cases "handle_map hof s' x"; cases "handle_map hof s x")
         (auto, (metis DiffI singletonD option.distinct(1) option.inject)+)
    then have "handle_map hof s' = (handle_map hof s)(h := None)" by (rule ext)
    moreover have "names_ok s'" "hs_names s' = filter (\<lambda>n. hn_handle n \<noteq> h) (hs_names s)"
      using ns names_ok_cong[of s' "s\<lparr>hs_name := ns, hs_name_count := j\<rparr>"]
        names_cong[of s' "s\<lparr>hs_name := ns, hs_name_count := j\<rparr>"] by (simp_all add: s'_def)
    ultimately show ?thesis
      using r Some ok' by (auto simp: s'_def)
  qed
qed

definition handle_ok :: "(addr \<Rightarrow> u32) \<Rightarrow> handle_storage \<Rightarrow> bool" where
  "handle_ok hof s \<longleftrightarrow> slots_ok hof s \<and> names_ok s"

interpretation handles: registry handle_map handle_ok skynet_handle_register handle_retire_locked "2 ^ 24 - 1"
proof unfold_locales
  fix hof :: "addr \<Rightarrow> u32" and s c k
  assume inv: "handle_ok hof s"
  then have ok: "slots_ok hof s" and names: "names_ok s"
    by (auto simp: handle_ok_def)
  show "finite (dom (handle_map hof s))"
    using ok by (simp add: dom_handle_map finite_slot_live)
  show "hof c = k" if "handle_map hof s k = Some c"
    using that ok by (simp add: handle_map_Some)
  show "\<exists>s'. handle_retire_locked hof k s = Some (handle_map hof s k, s') \<and> handle_ok hof s' \<and>
      handle_map hof s' = (handle_map hof s)(k := None)"
    using retire_locked_ok[OF ok names] by (auto simp: handle_ok_def)
  show "\<exists>h s'. skynet_handle_register hof c s = Some (h, s') \<and> handle_map hof s h = None \<and>
      handle_ok (hof(c := h)) s' \<and> handle_map (hof(c := h)) s' = (handle_map hof s)(h \<mapsto> c)"
    if "c \<notin> ran (handle_map hof s)" "card (dom (handle_map hof s)) < 2 ^ 24 - 1"
  proof -
    have c: "c \<notin> slot_live s" "card (slot_live s) < 2 ^ 24 - 1"
      using that ok by (simp_all add: ran_handle_map card_dom_handle_map)
    obtain h s' where r: "skynet_handle_register hof c s = Some (h, s')" "slots_ok (hof(c := h)) s'"
      "slot_live s' = insert c (slot_live s)" "\<forall>d \<in> slot_live s. hof d \<noteq> h"
      "hs_name s' = hs_name s" "hs_name_count s' = hs_name_count s" "hs_name_cap s' = hs_name_cap s"
      using register_ok[OF ok c] by blast
    have "handle_map (hof(c := h)) s' x = ((handle_map hof s)(h \<mapsto> c)) x" for x
      using handle_map_Some[OF r(2), of x] handle_map_Some[OF ok, of x] r(3,4) c(1)
      by (cases "handle_map (hof(c := h)) s' x"; cases "handle_map hof s x")
         (auto split: if_splits, (metis option.distinct(1))+)
    moreover have "handle_map hof s h = None"
      using r(4) by (simp add: handle_map_None[OF ok])
    ultimately show ?thesis
      using r names names_ok_cong[of s' s] by (auto simp: handle_ok_def)
  qed
qed

interpretation names: naming name_map names_ok "\<lambda>s. hs_name_count s < 2 ^ 29" skynet_handle_namehandle
proof unfold_locales
  fix s n k j
  assume "names_ok s" "hs_name_count s < 2 ^ 29"
  note ins = insert_name_ok[OF this, of n k]
  show "\<exists>s'. skynet_handle_namehandle k n s = Some (Some n, s') \<and> names_ok s' \<and> name_map s' = (name_map s)(n \<mapsto> k)"
    if "name_map s n = None"
    using ins that by (auto simp: skynet_handle_namehandle_def)
  show "\<exists>s'. skynet_handle_namehandle k n s = Some (None, s') \<and> names_ok s' \<and> name_map s' = name_map s"
    if "name_map s n = Some j"
    using ins that by (auto simp: skynet_handle_namehandle_def)
qed

lemma handle_init_ok: "handle_ok hof (skynet_handle_init harbor)"
proof -
  have "push_bit 24 (w AND 0xff) AND mask 24 = (0 :: u32)" for w
    by (intro bit_eqI) (auto simp: bit_simps)
  then have "slots_ok hof (skynet_handle_init harbor)"
    unfolding slots_ok_def skynet_handle_init_def
    by (intro conjI exI[of _ 2])
       (auto simp: slot_live_def HANDLE_MASK_mask HANDLE_REMOTE_SHIFT_def DEFAULT_SLOT_SIZE_def)
  moreover have "names_ok (skynet_handle_init harbor)"
    by (simp add: names_ok_def hs_names_def skynet_handle_init_def MAX_SLOT_SIZE_def)
  ultimately show ?thesis
    by (simp add: handle_ok_def)
qed

lemma name_map_filter:
  assumes "names_ok s" "names_ok s'" "hs_names s' = filter (\<lambda>n. hn_handle n \<noteq> h) (hs_names s)"
  shows "name_map s' n = (if name_map s n = Some h then None else name_map s n)"
proof -
  have iff: "name_map s' n = Some x \<longleftrightarrow> name_map s n = Some x \<and> x \<noteq> h" for x
    using assms by (auto simp: name_map_Some)
  show ?thesis
    by (cases "name_map s' n"; cases "name_map s n") (use iff in force)+
qed

section \<open>Properties\<close>

text \<open>C15. Registration gives a context a handle no live context has, whose low 24 bits are not zero and
  whose high bits are the harbor of the node; once the context carries it, \<open>skynet_handle_grab\<close> finds
  the context under the new handle and every other context as before. Registration returns as long as
  fewer than \<open>2 ^ 24 - 1\<close> contexts are live, however often the table has to grow.\<close>

theorem register_fresh:
  assumes "handle_ok hof s" "ctx \<notin> ran (handle_map hof s)" "card (dom (handle_map hof s)) < 2 ^ 24 - 1"
  shows "\<exists>h s'. skynet_handle_register hof ctx s = Some (h, s') \<and> handle_lookup hof h s = Some None \<and>
    h AND HANDLE_MASK \<noteq> 0 \<and> h AND NOT HANDLE_MASK = hs_harbor s \<and> handle_ok (hof(ctx := h)) s' \<and>
    (\<forall>x. handle_lookup (hof(ctx := h)) x s' = (if x = h then Some (Some ctx) else handle_lookup hof x s))"
proof -
  have ok: "slots_ok hof s"
    using assms(1) by (simp add: handle_ok_def)
  obtain h s' where r: "skynet_handle_register hof ctx s = Some (h, s')" "handle_map hof s h = None"
    "handle_ok (hof(ctx := h)) s'" "handle_map (hof(ctx := h)) s' = (handle_map hof s)(h \<mapsto> ctx)"
    using handles.register_law[OF assms] by blast
  moreover have "h AND HANDLE_MASK \<noteq> 0" "h AND NOT HANDLE_MASK = hs_harbor s"
    using register_ok[OF ok, of ctx] assms r(1) by (auto simp: ran_handle_map card_dom_handle_map ok)
  moreover have "slots_ok (hof(ctx := h)) s'"
    using r(3) by (simp add: handle_ok_def)
  ultimately show ?thesis
    by (auto simp: handle_lookup_map ok simp del: fun_upd_apply) simp_all
qed

theorem register_fresh_witness:
  "\<exists>h s'. skynet_handle_register (\<lambda>_. 0) 5 (skynet_handle_init 1) = Some (h, s') \<and>
     handle_lookup ((\<lambda>_. 0)(5 := h)) h s' = Some (Some 5)"
proof -
  have "handle_map (\<lambda>_. 0) (skynet_handle_init 1) = Map.empty"
    using dom_handle_map[of "\<lambda>_. 0" "skynet_handle_init 1"] handle_init_ok[of "\<lambda>_. 0" 1]
    by (simp add: handle_ok_def slot_live_def skynet_handle_init_def)
  then show ?thesis
    using register_fresh[OF handle_init_ok, of 5 "\<lambda>_. 0" 1] by auto
qed

text \<open>Registering any list of distinct contexts one after the other on a fresh table, up to its
  capacity of \<open>2 ^ 24 - 1\<close>, gives them distinct handles, under which the table finds them.\<close>

theorem register_all_contexts:
  assumes "distinct cs" "length cs < 2 ^ 24"
  shows "\<exists>ks hof' s'. handles.register_all hof cs (skynet_handle_init harbor) = Some (ks, hof', s') \<and>
    distinct ks \<and> length ks = length cs \<and> handle_map hof' s' = [ks [\<mapsto>] cs]"
proof -
  have "slot_live (skynet_handle_init harbor) = {}"
    by (auto simp: slot_live_def skynet_handle_init_def)
  then have "handle_map hof (skynet_handle_init harbor) = Map.empty"
    using dom_handle_map handle_init_ok[of hof harbor] by (fastforce simp: handle_ok_def)
  then show ?thesis
    using handles.register_all_distinct[OF handle_init_ok assms(1), of hof harbor] assms(2) by force
qed

theorem register_all_contexts_witness:
  "\<exists>ks hof' s'. handles.register_all (\<lambda>_. 0) [10, 11, 12, 13, 14, 15] (skynet_handle_init 1) = Some (ks, hof', s') \<and>
    distinct ks \<and> length ks = 6"
  using register_all_contexts[of "[10, 11, 12, 13, 14, 15]" "\<lambda>_. 0" 1] by auto

text \<open>Retiring a handle returns the context it belonged to (if any), makes the handle unknown,
  removes exactly the names of that handle, and changes no other look-up; retiring an unknown handle
  changes nothing.\<close>

theorem retire_handle:
  assumes "handle_ok hof s"
  shows "\<exists>s'. handle_retire_locked hof h s = Some (handle_map hof s h, s') \<and> handle_ok hof s' \<and>
    (\<forall>x. handle_lookup hof x s' = (if x = h then Some None else handle_lookup hof x s)) \<and>
    (handle_map hof s h = None \<longrightarrow> s' = s) \<and>
    (handle_map hof s h \<noteq> None \<longrightarrow>
       (\<forall>n. name_map s' n = (if name_map s n = Some h then None else name_map s n)))"
proof -
  have ok: "slots_ok hof s" "names_ok s"
    using assms by (simp_all add: handle_ok_def)
  obtain s' where s': "handle_retire_locked hof h s = Some (handle_map hof s h, s')" "slots_ok hof s'" "names_ok s'"
    "handle_map hof s' = (handle_map hof s)(h := None)" "handle_map hof s h = None \<longrightarrow> s' = s"
    "handle_map hof s h \<noteq> None \<longrightarrow> hs_names s' = filter (\<lambda>n. hn_handle n \<noteq> h) (hs_names s)"
    using retire_locked_ok[OF ok, of h] by (elim exE conjE) (rule that)
  have "name_map s' n = (if name_map s n = Some h then None else name_map s n)" if "handle_map hof s h \<noteq> None" for n
    using that s'(6) by (intro name_map_filter[OF ok(2) s'(3)]) (rule mp)
  moreover have "handle_lookup hof x s' = (if x = h then Some None else handle_lookup hof x s)" for x
    by (simp add: handle_lookup_map ok(1) s'(2,4))
  ultimately show ?thesis
    using s'(1,2,3,5) unfolding handle_ok_def by (intro exI[of _ s'] conjI allI impI) auto
qed

lemma all_less_four: "(\<forall>i < 4. P i) \<longleftrightarrow> P 0 \<and> P 1 \<and> P 2 \<and> P (3 :: nat)"
  by (auto simp: less_Suc_eq eval_nat_numeral)

theorem retire_handle_witness:
  "\<exists>s'. handle_retire_locked ((\<lambda>_. 0)(5 := 1)) 1
       ((skynet_handle_init 0)\<lparr>hs_slot := [None, Some 5, None, None], hs_name_count := 1,
          hs_name := [Some \<lparr>hn_name = ''db'', hn_handle = 1\<rparr>, None]\<rparr>) = Some (Some 5, s') \<and>
     handle_lookup ((\<lambda>_. 0)(5 := 1)) 1 s' = Some None \<and> name_map s' ''db'' = None"
proof -
  let ?s = "(skynet_handle_init 0)\<lparr>hs_slot := [None, Some 5, None, None], hs_name_count := 1,
          hs_name := [Some \<lparr>hn_name = ''db'', hn_handle = 1\<rparr>, None]\<rparr>"
  let ?hof = "(\<lambda>_. 0)(5 := 1)"
  have "\<forall>i<2 ^ 2. \<forall>c. hs_slot ?s ! i = Some c \<longrightarrow> unat (?hof c) mod 2 ^ 2 = i"
    by (simp add: all_less_four)
  then have "slots_ok ?hof ?s"
    unfolding slots_ok_def slot_live_def
    by (intro conjI exI[of _ 2])
       (simp_all add: skynet_handle_init_def HANDLE_MASK_def HANDLE_REMOTE_SHIFT_def DEFAULT_SLOT_SIZE_def)
  moreover have "names_ok ?s"
    by (simp add: names_ok_def hs_names_def skynet_handle_init_def MAX_SLOT_SIZE_def)
  moreover have "handle_map ?hof ?s 1 = Some 5"
    by (simp add: handle_map_def) code_simp
  moreover have "name_map ?s ''db'' = Some 1"
    by (simp add: name_map_def hs_names_def)
  ultimately show ?thesis
    using retire_handle[of ?hof ?s 1] by (auto simp: handle_ok_def)
qed

text \<open>C32. Names: \<open>skynet_handle_findname\<close> returns the handle bound to a name and 0 for a name that is
  not bound, and binding a name makes exactly this name known, unless it already was, in which case it
  keeps its handle and the binding reports failure.\<close>

theorem namehandle_findname:
  assumes "handle_ok hof s" "hs_name_count s < 2 ^ 29"
  shows "\<exists>r s'. skynet_handle_namehandle h name s = Some (r, s') \<and> handle_ok hof s' \<and>
    r = (if name_map s name = None then Some name else None) \<and>
    (\<forall>n. skynet_handle_findname s' n =
       (if n = name \<and> name_map s name = None then Some h else skynet_handle_findname s n))"
proof -
  have ok: "names_ok s" "slots_ok hof s"
    using assms(1) by (simp_all add: handle_ok_def)
  obtain r s' where r: "skynet_handle_namehandle h name s = Some (r, s')" "names_ok s'"
    "r = (if name_map s name = None then Some name else None)"
    "name_map s' = (if name_map s name = None then (name_map s)(name \<mapsto> h) else name_map s)"
    "hs_slot s' = hs_slot s" "hs_slot_size s' = hs_slot_size s" "hs_harbor s' = hs_harbor s"
    "hs_handle_index s' = hs_handle_index s"
    using insert_name_ok[OF ok(1) assms(2), of name h] by (auto simp: skynet_handle_namehandle_def)
  moreover from this ok(2) have "slots_ok hof s'"
    by (simp add: slots_ok_def slot_live_def)
  ultimately show ?thesis
    by (auto simp: handle_ok_def findname_ok ok(1))
qed

theorem namehandle_findname_witness:
  "\<exists>r s'. skynet_handle_namehandle 3 ''db'' (skynet_handle_init 0) = Some (r, s') \<and> r = Some ''db'' \<and>
     skynet_handle_findname s' ''db'' = Some 3"
proof -
  have "hs_name_count (skynet_handle_init 0) < 2 ^ 29" "name_map (skynet_handle_init 0) n = None" for n
    by (simp_all add: skynet_handle_init_def name_map_def hs_names_def)
  then show ?thesis
    using namehandle_findname[OF handle_init_ok, of 0 3 "''db''" "\<lambda>_. 0"] by auto
qed


end
