(* ===== verification/Alarm_Spec.thy ===== *)
theory Alarm_Spec
  imports Prelude
begin

text \<open>
  The contract of the timer: a clock that advances by ticks of a 32-bit counter and, for every
  instant, the list of the timers due then. Adding a timer appends it to the list of its instant;
  a tick returns the list of the new instant and empties it. From these two laws it follows that a
  timer fires at the tick it was set for and at no other. The timing wheel of \<open>skynet_timer.c\<close> is
  proved to satisfy the contract.
\<close>

record timer_event =
  te_handle :: u32
  te_session :: int

record timer_node =
  tn_expire :: u32
  tn_event :: timer_event

text \<open>Running \<open>n\<close> ticks; the lists of fired timers are collected.\<close>

fun run_ticks :: "('s \<Rightarrow> (timer_node list \<times> 's) option) \<Rightarrow> nat \<Rightarrow> 's \<Rightarrow> (timer_node list list \<times> 's) option" where
  "run_ticks tick 0 s = Some ([], s)"
| "run_ticks tick (Suc n) s = do {
     (out, s') \<leftarrow> tick s;
     (outs, s'') \<leftarrow> run_ticks tick n s';
     Some (out # outs, s'') }"

locale alarm =
  fixes clock :: "'s \<Rightarrow> u32"
    and due :: "'s \<Rightarrow> u32 \<Rightarrow> timer_node list"
    and invar :: "'s \<Rightarrow> bool"
    and add :: "'s \<Rightarrow> timer_event \<Rightarrow> int \<Rightarrow> 's"
    and tick :: "'s \<Rightarrow> (timer_node list \<times> 's) option"
  assumes tick_law: "invar s \<Longrightarrow>
      \<exists>s'. tick s = Some (due s (clock s + 1), s') \<and> invar s' \<and> clock s' = clock s + 1 \<and>
        due s' = (due s)(clock s + 1 := [])"
    and add_law: "invar s \<Longrightarrow> 0 < d \<Longrightarrow> d \<le> INT_MAX \<Longrightarrow>
      invar (add s ev d) \<and> clock (add s ev d) = clock s \<and>
      due (add s ev d) = (due s)(word_of_int d + clock s :=
        due s (word_of_int d + clock s) @ [\<lparr>tn_expire = word_of_int d + clock s, tn_event = ev\<rparr>])"
begin

text \<open>Tick number \<open>k\<close> returns the timers due then, in the order they were added, as long as the
  counter has not gone round.\<close>

theorem run_ticks_due:
  assumes "invar s" "n < 2 ^ 32"
  shows "\<exists>outs s'. run_ticks tick n s = Some (outs, s') \<and> invar s' \<and> clock s' = clock s + of_nat n \<and>
    length outs = n \<and> (\<forall>k < n. outs ! k = due s (clock s + of_nat (Suc k)))"
  using assms
proof (induction n arbitrary: s)
  case 0
  then show ?case by simp
next
  case (Suc n)
  obtain s1 where s1: "tick s = Some (due s (clock s + 1), s1)" "invar s1" "clock s1 = clock s + 1"
    "due s1 = (due s)(clock s + 1 := [])"
    using tick_law[OF Suc.prems(1)] by blast
  obtain outs s' where r: "run_ticks tick n s1 = Some (outs, s')" "invar s'" "clock s' = clock s1 + of_nat n"
    "length outs = n" "\<And>k. k < n \<Longrightarrow> outs ! k = due s1 (clock s1 + of_nat (Suc k))"
    using Suc.IH[OF s1(2)] Suc.prems(2) by auto
  have "(due s (clock s + 1) # outs) ! k = due s (clock s + of_nat (Suc k))" if "k < Suc n" for k
  proof (cases k)
    case 0
    then show ?thesis by simp
  next
    case (Suc j)
    have "unat (of_nat (Suc j) :: u32) = Suc j"
      using Suc that Suc.prems(2) by (simp only: unat_of_nat) (simp add: mod_less)
    then have "of_nat (Suc j) \<noteq> (0 :: u32)"
      by (metis nat.distinct(1) unsigned_0)
    then show ?thesis
      using Suc that r(5)[of j] by (simp add: s1(3,4) add.assoc)
  qed
  with s1 r show ?case
    by (auto simp: algebra_simps)
qed

text \<open>A timer set \<open>d\<close> ticks ahead fires at tick \<open>d\<close>, after the timers set earlier for the same
  instant, and changes nothing of what the ticks before it return.\<close>

theorem add_fires:
  assumes "invar s" "0 < d" "d \<le> INT_MAX"
  defines "t \<equiv> word_of_int d + clock s"
  shows "\<exists>outs s'. run_ticks tick (nat d) (add s ev d) = Some (outs, s') \<and> invar s' \<and> clock s' = t \<and>
    outs ! (nat d - 1) = due s t @ [\<lparr>tn_expire = t, tn_event = ev\<rparr>] \<and>
    (\<forall>k < nat d - 1. outs ! k = due s (clock s + of_nat (Suc k)))"
proof -
  have a: "invar (add s ev d)" "clock (add s ev d) = clock s"
    "due (add s ev d) = (due s)(t := due s t @ [\<lparr>tn_expire = t, tn_event = ev\<rparr>])"
    using add_law[OF assms(1-3)] by (auto simp: t_def)
  have n: "nat d < 2 ^ 32"
    using assms(3) by (simp add: INT_MAX_def)
  have t: "t = clock s + of_nat (nat d)"
    using assms(2) by (simp add: t_def add.commute)
  obtain outs s' where r: "run_ticks tick (nat d) (add s ev d) = Some (outs, s')" "invar s'"
    "clock s' = clock s + of_nat (nat d)"
    "\<And>k. k < nat d \<Longrightarrow> outs ! k = due (add s ev d) (clock s + of_nat (Suc k))"
    using run_ticks_due[OF a(1) n] a(2) by auto
  have last: "outs ! (nat d - 1) = due s t @ [\<lparr>tn_expire = t, tn_event = ev\<rparr>]"
    using r(4)[of "nat d - 1"] assms(2) by (simp add: a(3) t)
  have "outs ! k = due s (clock s + of_nat (Suc k))" if "k < nat d - 1" for k
  proof -
    have "Suc k < nat d" using that by simp
    then have "unat (of_nat (Suc k) :: u32) \<noteq> unat (of_nat (nat d) :: u32)"
      using n by (simp only: unat_of_nat) (simp add: mod_less)
    then have "clock s + of_nat (Suc k) \<noteq> t"
      by (auto simp: t)
    then show ?thesis
      using r(4)[of k] that by (simp add: a(3))
  qed
  with r last t show ?thesis by metis
qed

end

end
