(* ===== verification/Timer.thy ===== *)
theory Timer
  imports Alarm_Spec
begin

text \<open>
  The hierarchical timing wheel of \<open>skynet-src/skynet_timer.c\<close>: 256 near lists, four levels of 64
  lists, and the tick that moves the nodes of a level down as the time reaches them. A
  \<open>struct link_list\<close> (a singly linked list with a tail pointer) is the list of its nodes; clock
  readings are arguments. The lock of the timer is free only while expired nodes are being
  dispatched, so what other threads may do in between is an argument of \<open>timer_execute\<close>: the
  timers added in each of these windows.
\<close>

section \<open>State\<close>

definition TIME_NEAR_SHIFT :: nat where "TIME_NEAR_SHIFT = 8"
definition TIME_NEAR :: u32 where "TIME_NEAR = 256"
definition TIME_LEVEL_SHIFT :: nat where "TIME_LEVEL_SHIFT = 6"
definition TIME_LEVEL :: u32 where "TIME_LEVEL = 64"
definition TIME_NEAR_MASK :: u32 where "TIME_NEAR_MASK = TIME_NEAR - 1"
definition TIME_LEVEL_MASK :: u32 where "TIME_LEVEL_MASK = TIME_LEVEL - 1"

type_synonym link_list = "timer_node list"

record timer =
  tm_near :: "link_list list"
  tm_t :: "link_list list list"
  tm_time :: u32
  tm_starttime :: u32
  tm_current :: u64
  tm_current_point :: u64

section \<open>Operations\<close>

text \<open>\<open>link_clear\<close> returns the chain of a list and empties it; \<open>link\<close> appends at the tail.\<close>

definition link_clear :: "link_list \<Rightarrow> timer_node list \<times> link_list" where
  "link_clear l = (l, [])"

definition link :: "link_list \<Rightarrow> timer_node \<Rightarrow> link_list" where
  "link l node = l @ [node]"

text \<open>The level loop of \<open>add_node\<close>.\<close>

function add_level :: "u32 \<Rightarrow> u32 \<Rightarrow> u32 \<Rightarrow> nat \<Rightarrow> nat" where
  "add_level time current_time m i =
     (if i < 3 then
        if time OR (m - 1) = current_time OR (m - 1) then i
        else add_level time current_time (push_bit TIME_LEVEL_SHIFT m) (Suc i)
      else i)"
  by pat_completeness auto
termination
  by (relation "measure (\<lambda>(time, current_time, m, i). 3 - i)") auto

declare add_level.simps [simp del]

definition add_node :: "timer \<Rightarrow> timer_node \<Rightarrow> timer" where
  "add_node T node =
     (let time = tn_expire node; current_time = tm_time T in
      if time OR TIME_NEAR_MASK = current_time OR TIME_NEAR_MASK then
        let k = unat (time AND TIME_NEAR_MASK)
        in T\<lparr>tm_near := (tm_near T)[k := link (tm_near T ! k) node]\<rparr>
      else
        let i = add_level time current_time (push_bit TIME_LEVEL_SHIFT TIME_NEAR) 0;
            k = unat (drop_bit (TIME_NEAR_SHIFT + i * TIME_LEVEL_SHIFT) time AND TIME_LEVEL_MASK)
        in T\<lparr>tm_t := (tm_t T)[i := (tm_t T ! i)[k := link (tm_t T ! i ! k) node]]\<rparr>)"

definition timer_add :: "timer \<Rightarrow> timer_event \<Rightarrow> int \<Rightarrow> timer" where
  "timer_add T event time =
     add_node T \<lparr>tn_expire = word_of_int time + tm_time T, tn_event = event\<rparr>"

definition move_list :: "timer \<Rightarrow> nat \<Rightarrow> nat \<Rightarrow> timer" where
  "move_list T level idx =
     (let (current, l) = link_clear (tm_t T ! level ! idx)
      in foldl add_node (T\<lparr>tm_t := (tm_t T)[level := (tm_t T ! level)[idx := l]]\<rparr>) current)"

text \<open>The \<open>while\<close> loop of \<open>timer_shift\<close>. The mask is a signed \<open>int\<close> in C, so a shift past level 3
  has no meaning.\<close>

function shift_loop :: "timer \<Rightarrow> u32 \<Rightarrow> u32 \<Rightarrow> u32 \<Rightarrow> nat \<Rightarrow> timer option" where
  "shift_loop T ct time m i =
     (if ct AND (m - 1) = 0 then
        let idx = unat (time AND TIME_LEVEL_MASK) in
        if idx \<noteq> 0 then Some (move_list T i idx)
        else if i \<ge> 3 then None
        else shift_loop T ct (drop_bit TIME_LEVEL_SHIFT time) (push_bit TIME_LEVEL_SHIFT m) (Suc i)
      else Some T)"
  by pat_completeness auto
termination
  by (relation "measure (\<lambda>(T, ct, time, m, i). 4 - i)") auto

declare shift_loop.simps [simp del]

definition timer_shift :: "timer \<Rightarrow> timer option" where
  "timer_shift T =
     (let ct = tm_time T + 1; T = T\<lparr>tm_time := ct\<rparr>
      in if ct = 0 then Some (move_list T 3 0)
         else shift_loop T ct (drop_bit TIME_NEAR_SHIFT ct) TIME_NEAR 0)"

text \<open>What other threads add while the lock is free.\<close>

type_synonym window = "(timer_event \<times> int) list"

definition add_window :: "timer \<Rightarrow> window \<Rightarrow> timer" where
  "add_window T w = foldl (\<lambda>T (event, time). timer_add T event time) T w"

text \<open>\<open>timer_execute\<close> returns the nodes handed to \<open>dispatch_list\<close>, in order.\<close>

fun timer_execute :: "window list \<Rightarrow> timer \<Rightarrow> timer_node list \<times> timer" where
  "timer_execute ws T =
     (let idx = unat (tm_time T AND TIME_NEAR_MASK) in
      if tm_near T ! idx = [] then ([], T)
      else
        let (current, l) = link_clear (tm_near T ! idx);
            T = T\<lparr>tm_near := (tm_near T)[idx := l]\<rparr>
        in case ws of
             [] \<Rightarrow> (current, T)
           | w # ws' \<Rightarrow>
               let (more, T') = timer_execute ws' (add_window T w)
               in (current @ more, T'))"

declare timer_execute.simps [simp del]

definition timer_update :: "window list \<Rightarrow> window list \<Rightarrow> timer \<Rightarrow> (timer_node list \<times> timer) option" where
  "timer_update ws1 ws2 T = do {
     let (first, T) = timer_execute ws1 T;
     T \<leftarrow> timer_shift T;
     let (second, T) = timer_execute ws2 T;
     Some (first @ second, T) }"

definition timer_create_timer :: timer where
  "timer_create_timer =
     \<lparr>tm_near = replicate 256 [], tm_t = replicate 4 (replicate 64 []),
      tm_time = 0, tm_starttime = 0, tm_current = 0, tm_current_point = 0\<rparr>"

definition skynet_timer_init :: "u32 \<Rightarrow> u32 \<Rightarrow> u64 \<Rightarrow> timer" where
  "skynet_timer_init sec cs now =
     timer_create_timer\<lparr>tm_starttime := sec, tm_current := ucast cs, tm_current_point := now\<rparr>"

text \<open>\<open>systime\<close> and \<open>gettime\<close> from the seconds and nanoseconds of the clock they read;
  \<open>skynet_thread_time\<close> from those of the thread clock.\<close>

definition systime :: "int \<Rightarrow> int \<Rightarrow> u32 \<times> u32" where
  "systime tv_sec tv_nsec = (word_of_int tv_sec, word_of_int (tv_nsec div 10000000))"

definition gettime :: "int \<Rightarrow> int \<Rightarrow> u64" where
  "gettime tv_sec tv_nsec = word_of_int tv_sec * 100 + word_of_int (tv_nsec div 10000000)"

definition skynet_thread_time :: "int \<Rightarrow> int \<Rightarrow> u64" where
  "skynet_thread_time tv_sec tv_nsec = word_of_int tv_sec * 1000000 + word_of_int (tv_nsec div 1000)"

definition skynet_starttime :: "timer \<Rightarrow> u32" where
  "skynet_starttime T = tm_starttime T"

definition skynet_now :: "timer \<Rightarrow> u64" where
  "skynet_now T = tm_current T"

section \<open>Where a node belongs\<close>

text \<open>\<open>same_block c e l\<close>: the times \<open>c\<close> and \<open>e\<close> agree above the lowest \<open>8 + 6 * l\<close> bits. A node
  that expires at \<open>e\<close> belongs, at time \<open>c\<close>, to the smallest such level; level 0 stands for the near
  lists and level \<open>Suc i\<close> for \<open>t[i]\<close>.\<close>

definition same_block :: "nat \<Rightarrow> nat \<Rightarrow> nat \<Rightarrow> bool" where
  "same_block c e l \<longleftrightarrow> e div 2 ^ (8 + 6 * l) = c div 2 ^ (8 + 6 * l)"

definition level_of :: "nat \<Rightarrow> nat \<Rightarrow> nat" where
  "level_of c e = (LEAST l. same_block c e l)"

definition idx_of :: "nat \<Rightarrow> nat \<Rightarrow> nat" where
  "idx_of l e = (case l of 0 \<Rightarrow> e mod 256 | Suc i \<Rightarrow> e div 2 ^ (8 + 6 * i) mod 64)"

definition loc :: "nat \<Rightarrow> nat \<Rightarrow> nat \<times> nat" where
  "loc c e = (level_of c e, idx_of (level_of c e) e)"

lemma same_block_mono: "same_block c e l \<Longrightarrow> l \<le> m \<Longrightarrow> same_block c e m"
proof -
  assume s: "same_block c e l" and "l \<le> m"
  then have p: "(2::nat) ^ (8 + 6 * m) = 2 ^ (8 + 6 * l) * 2 ^ (6 * (m - l))"
    by (simp flip: power_add)
  show ?thesis
    using s unfolding same_block_def p by (simp add: div_mult2_eq)
qed

lemma same_block_4: "c < 2 ^ 32 \<Longrightarrow> e < 2 ^ 32 \<Longrightarrow> same_block c e 4"
  by (simp add: same_block_def)

lemma level_of_cases:
  assumes "c < 2 ^ 32" "e < 2 ^ 32"
  shows "level_of c e = (if same_block c e 0 then 0 else if same_block c e 1 then 1
    else if same_block c e 2 then 2 else if same_block c e 3 then 3 else 4)"
proof -
  have below: "same_block c e y \<Longrightarrow> \<not> same_block c e l \<Longrightarrow> Suc l \<le> y" for y l
    using same_block_mono[of c e y l] by (metis not_less_eq_eq)
  have least: "level_of c e = l" if "same_block c e l" "\<And>m. m < l \<Longrightarrow> \<not> same_block c e m" for l
    unfolding level_of_def using that by (intro Least_equality) (auto simp: not_less[symmetric])
  have lt: "m < 1 \<Longrightarrow> m = 0" "m < 2 \<Longrightarrow> m = 0 \<or> m = 1" "m < 3 \<Longrightarrow> m = 0 \<or> m = 1 \<or> m = 2"
    "m < 4 \<Longrightarrow> m = 0 \<or> m = 1 \<or> m = 2 \<or> m = 3" for m :: nat
    by auto
  show ?thesis
    using same_block_4[OF assms] lt
    by (auto intro!: least)
qed

lemma level_of_le: "c < 2 ^ 32 \<Longrightarrow> e < 2 ^ 32 \<Longrightarrow> level_of c e \<le> 4"
  by (simp add: level_of_cases)

text \<open>The comparisons the code makes are comparisons of blocks.\<close>

lemma or_mask_eq_iff:
  fixes a b :: u32
  shows "a OR (2 ^ n - 1) = b OR (2 ^ n - 1) \<longleftrightarrow> unat a div 2 ^ n = unat b div 2 ^ n"
proof -
  have "a OR mask n = b OR mask n \<longleftrightarrow> drop_bit n a = drop_bit n b"
  proof
    have "drop_bit n (w OR mask n) = drop_bit n w" for w :: u32
      by (intro bit_eqI) (auto simp: bit_simps)
    then show "drop_bit n a = drop_bit n b" if "a OR mask n = b OR mask n"
      using that by metis
    have "w OR mask n = push_bit n (drop_bit n w) OR mask n" for w :: u32
      by (intro bit_eqI) (auto simp: bit_simps)
    then show "a OR mask n = b OR mask n" if "drop_bit n a = drop_bit n b"
      using that by metis
  qed
  also have "\<dots> \<longleftrightarrow> unat (drop_bit n a) = unat (drop_bit n b)"
    by (simp add: word_unat_eq_iff)
  finally show ?thesis
    by (simp add: mask_eq_exp_minus_1 unat_drop_div)
qed


lemma add_level_eq:
  fixes time cur :: u32
  assumes "\<not> same_block (unat cur) (unat time) 0"
  shows "level_of (unat cur) (unat time) = Suc (add_level time cur (push_bit TIME_LEVEL_SHIFT TIME_NEAR) 0)"
proof -
  have m: "time OR (2 ^ 14 - 1) = cur OR (2 ^ 14 - 1) \<longleftrightarrow> same_block (unat cur) (unat time) 1"
    "time OR (2 ^ 20 - 1) = cur OR (2 ^ 20 - 1) \<longleftrightarrow> same_block (unat cur) (unat time) 2"
    "time OR (2 ^ 26 - 1) = cur OR (2 ^ 26 - 1) \<longleftrightarrow> same_block (unat cur) (unat time) 3"
    unfolding or_mask_eq_iff same_block_def by simp_all
  have "add_level time cur (2 ^ 14) 0 =
     (if same_block (unat cur) (unat time) 1 then 0 else if same_block (unat cur) (unat time) 2 then 1
      else if same_block (unat cur) (unat time) 3 then 2 else 3)"
    using m by (simp add: add_level.simps TIME_LEVEL_SHIFT_def push_bit_eq_mult numeral_eq_Suc)
  then show ?thesis
    using assms by (simp add: level_of_cases TIME_LEVEL_SHIFT_def TIME_NEAR_def push_bit_eq_mult)
qed

section \<open>The wheel as a table of lists\<close>

definition wheel_list :: "timer \<Rightarrow> nat \<times> nat \<Rightarrow> timer_node list" where
  "wheel_list T p = (case p of (0, j) \<Rightarrow> tm_near T ! j | (Suc i, j) \<Rightarrow> tm_t T ! i ! j)"

definition wheel_set :: "timer \<Rightarrow> nat \<times> nat \<Rightarrow> timer_node list \<Rightarrow> timer" where
  "wheel_set T p l = (case p of
     (0, j) \<Rightarrow> T\<lparr>tm_near := (tm_near T)[j := l]\<rparr>
   | (Suc i, j) \<Rightarrow> T\<lparr>tm_t := (tm_t T)[i := (tm_t T ! i)[j := l]]\<rparr>)"

fun valid_loc :: "nat \<times> nat \<Rightarrow> bool" where
  "valid_loc (0, j) \<longleftrightarrow> j < 256"
| "valid_loc (Suc i, j) \<longleftrightarrow> i < 4 \<and> j < 64"

definition wheel_dims :: "timer \<Rightarrow> bool" where
  "wheel_dims T \<longleftrightarrow> length (tm_near T) = 256 \<and> length (tm_t T) = 4 \<and> (\<forall>i < 4. length (tm_t T ! i) = 64)"

lemma wheel_list_set:
  "wheel_dims T \<Longrightarrow> valid_loc p \<Longrightarrow> valid_loc r \<Longrightarrow>
   wheel_list (wheel_set T p l) r = (if r = p then l else wheel_list T r)"
  by (cases p rule: valid_loc.cases; cases r rule: valid_loc.cases)
     (auto simp: wheel_list_def wheel_set_def wheel_dims_def nth_list_update)

lemma wheel_dims_set [simp]: "wheel_dims T \<Longrightarrow> wheel_dims (wheel_set T p l)"
  by (cases p rule: valid_loc.cases)
     (auto simp: wheel_set_def wheel_dims_def, metis length_list_update nth_list_update nth_list_update_neq)

lemma tm_time_set [simp]: "tm_time (wheel_set T p l) = tm_time T"
  by (cases p rule: valid_loc.cases) (auto simp: wheel_set_def)

lemma valid_loc_loc: "c < 2 ^ 32 \<Longrightarrow> e < 2 ^ 32 \<Longrightarrow> valid_loc (loc c e)"
  using level_of_le[of c e] by (auto simp: loc_def idx_of_def split: nat.splits)

abbreviation now :: "timer \<Rightarrow> nat" where "now T \<equiv> unat (tm_time T)"

abbreviation expiry :: "timer_node \<Rightarrow> nat" where "expiry n \<equiv> unat (tn_expire n)"

text \<open>\<open>add_node\<close> appends the node where it belongs.\<close>

lemma add_node_eq:
  "add_node T n = wheel_set T (loc (now T) (expiry n)) (wheel_list T (loc (now T) (expiry n)) @ [n])"
proof -
  have near: "tn_expire n OR TIME_NEAR_MASK = tm_time T OR TIME_NEAR_MASK \<longleftrightarrow> same_block (now T) (expiry n) 0"
    using or_mask_eq_iff[of "tn_expire n" 8 "tm_time T"]
    by (simp add: TIME_NEAR_MASK_def TIME_NEAR_def same_block_def)
  have k: "unat (tn_expire n AND TIME_NEAR_MASK) = expiry n mod 256"
    using unat_and_mask[of "tn_expire n" 8] by (simp add: TIME_NEAR_MASK_def TIME_NEAR_def)
  have j: "unat (drop_bit d (tn_expire n) AND TIME_LEVEL_MASK) = expiry n div 2 ^ d mod 64" for d
    using unat_and_mask[of "drop_bit d (tn_expire n)" 6]
    by (simp add: TIME_LEVEL_MASK_def TIME_LEVEL_def unat_drop_div)
  show ?thesis
  proof (cases "same_block (now T) (expiry n) 0")
    case True
    then show ?thesis
      by (simp add: add_node_def Let_def near k loc_def level_of_cases idx_of_def wheel_set_def
          wheel_list_def link_def)
  next
    case False
    then show ?thesis
      by (simp add: add_node_def Let_def near j loc_def add_level_eq idx_of_def wheel_set_def
          wheel_list_def link_def TIME_NEAR_SHIFT_def TIME_LEVEL_SHIFT_def mult.commute)
  qed
qed


lemma add_node_list:
  assumes "wheel_dims T" "valid_loc p"
  shows "wheel_list (add_node T n) p =
    wheel_list T p @ (if loc (now T) (expiry n) = p then [n] else [])"
  using assms by (simp add: add_node_eq wheel_list_set valid_loc_loc)

lemma add_node_dims [simp]: "wheel_dims T \<Longrightarrow> wheel_dims (add_node T n)"
  by (simp add: add_node_eq)

lemma add_node_time [simp]: "tm_time (add_node T n) = tm_time T"
  by (simp add: add_node_eq)

lemma foldl_add_node:
  assumes "wheel_dims T" "valid_loc p"
  shows "wheel_list (foldl add_node T ns) p =
      wheel_list T p @ filter (\<lambda>n. loc (now T) (expiry n) = p) ns"
    "wheel_dims (foldl add_node T ns)" "tm_time (foldl add_node T ns) = tm_time T"
  using assms by (induction ns arbitrary: T) (auto simp: add_node_list)

text \<open>Every node sits where it belongs at the current time.\<close>

definition wheel_ok :: "timer \<Rightarrow> bool" where
  "wheel_ok T \<longleftrightarrow> wheel_dims T \<and>
     (\<forall>p n. valid_loc p \<longrightarrow> n \<in> set (wheel_list T p) \<longrightarrow> loc (now T) (expiry n) = p)"

text \<open>The nodes that expire at \<open>e\<close>, in the order in which they were added.\<close>

definition pend :: "timer \<Rightarrow> u32 \<Rightarrow> timer_node list" where
  "pend T e = filter (\<lambda>n. tn_expire n = e) (wheel_list T (loc (now T) (unat e)))"

lemma wheel_ok_loc:
  "wheel_ok T \<Longrightarrow> valid_loc p \<Longrightarrow> n \<in> set (wheel_list T p) \<Longrightarrow> loc (now T) (expiry n) = p"
  unfolding wheel_ok_def by blast

lemma wheel_okD:
  assumes "wheel_ok T" "valid_loc p"
  shows "filter (\<lambda>n. tn_expire n = e) (wheel_list T p) = (if p = loc (now T) (unat e) then pend T e else [])"
  using assms wheel_ok_loc[OF assms] by (auto simp: pend_def filter_empty_conv)

lemma pend_nonempty: "pend T e \<noteq> [] \<longleftrightarrow> (\<exists>n \<in> set (wheel_list T (loc (now T) (unat e))). tn_expire n = e)"
  by (auto simp: pend_def filter_empty_conv)

lemma add_node_ok: "wheel_ok T \<Longrightarrow> wheel_ok (add_node T n)"
  by (auto simp: wheel_ok_def add_node_list split: if_splits)

lemma add_node_pend:
  "wheel_ok T \<Longrightarrow> pend (add_node T n) e = pend T e @ (if tn_expire n = e then [n] else [])"
  by (auto simp: pend_def wheel_ok_def add_node_list valid_loc_loc)

text \<open>Changing the time and re-adding the nodes of one list keeps every node pending, provided no
  other pending node belongs elsewhere at the new time.\<close>

lemma retime_ok:
  assumes ok: "wheel_ok T" and p: "valid_loc p"
    and stay: "\<And>e. pend T e \<noteq> [] \<Longrightarrow> loc (now T) (unat e) \<noteq> p \<Longrightarrow> loc (unat t) (unat e) = loc (now T) (unat e)"
  defines "T' \<equiv> foldl add_node (wheel_set (T\<lparr>tm_time := t\<rparr>) p []) (wheel_list T p)"
  shows "wheel_ok T'" "pend T' e = pend T e" "tm_time T' = t"
proof -
  let ?T = "wheel_set (T\<lparr>tm_time := t\<rparr>) p []"
  have d: "wheel_dims (T\<lparr>tm_time := t\<rparr>)"
    using ok by (simp add: wheel_ok_def wheel_dims_def)
  note dims = d wheel_dims_set[OF d, of p "[]"]
  have lst: "wheel_list (T\<lparr>tm_time := t\<rparr>) r = wheel_list T r" for r
    by (simp add: wheel_list_def split: prod.split nat.split)
  have list': "wheel_list T' r = (if r = p then [] else wheel_list T r) @
      filter (\<lambda>n. loc (unat t) (expiry n) = r) (wheel_list T p)" if "valid_loc r" for r
    using that p dims unfolding T'_def
    by (subst foldl_add_node(1)) (auto simp: wheel_list_set lst)
  have dims': "wheel_dims T'"
    using foldl_add_node(2)[OF dims(2) p] by (simp add: T'_def)
  show time: "tm_time T' = t"
    using foldl_add_node(3)[OF dims(2) p] by (simp add: T'_def)
  show "wheel_ok T'"
    unfolding wheel_ok_def time
  proof (intro conjI dims' allI impI)
    fix r n
    assume r: "valid_loc r" and n: "n \<in> set (wheel_list T' r)"
    show "loc (unat t) (expiry n) = r"
    proof (cases "n \<in> set (wheel_list T r) \<and> r \<noteq> p")
      case True
      then have "loc (now T) (expiry n) = r"
        using wheel_ok_loc[OF ok r] by blast
      with True stay[of "tn_expire n"] show ?thesis
        by (auto simp: pend_nonempty)
    next
      case False
      with n list'[OF r] show ?thesis by (auto split: if_splits)
    qed
  qed
  let ?l = "loc (unat t) (unat e)"
  have v: "valid_loc ?l" by (simp add: valid_loc_loc)
  have "pend T' e = (if ?l = p then [] else filter (\<lambda>n. tn_expire n = e) (wheel_list T ?l)) @
      filter (\<lambda>n. tn_expire n = e) (wheel_list T p)"
    unfolding pend_def time list'[OF v]
    by (auto intro!: filter_cong)
  then show "pend T' e = pend T e"
    using wheel_okD[OF ok v] wheel_okD[OF ok p] stay[of e]
    by (cases "pend T e = []") (auto split: if_splits)
qed


section \<open>One tick\<close>

text \<open>\<open>future c e\<close>: the time \<open>e\<close> lies less than \<open>2 ^ 31\<close> ticks ahead of \<open>c\<close>, on the 32-bit clock.\<close>

definition future :: "nat \<Rightarrow> nat \<Rightarrow> bool" where
  "future c e \<longleftrightarrow> c < e \<and> e - c < 2 ^ 31 \<or> e < c \<and> e + 2 ^ 32 - c < 2 ^ 31"

lemma dvd_block: "l \<le> m \<Longrightarrow> (2::nat) ^ (8 + 6 * l) dvd 2 ^ (8 + 6 * m)"
  by (simp add: le_imp_power_dvd)

lemma same_block_Suc_unchanged:
  assumes "Suc c mod 2 ^ (8 + 6 * l) \<noteq> 0"
  shows "same_block (Suc c) e l = same_block c e l"
  using assms by (simp add: same_block_def div_Suc)

text \<open>At the last tick of a block, no pending node is in that block any more.\<close>

lemma block_end_empty:
  assumes "Suc c mod 2 ^ (8 + 6 * l) = 0" "l \<le> 3" "future c e" "e < 2 ^ 32" "c < 2 ^ 32"
  shows "\<not> same_block c e l"
proof
  assume same: "same_block c e l"
  let ?N = "(2::nat) ^ (8 + 6 * l)"
  have "(8::nat) + 6 * l \<le> 26"
    using assms(2) by simp
  then have N: "?N \<le> 2 ^ 26"
    by (rule power_increasing) simp
  have "Suc c = ?N * (Suc c div ?N)"
    using assms(1) mult_div_mod_eq[of ?N "Suc c"] by linarith
  then have Sc: "Suc c = ?N * (c div ?N) + ?N"
    using assms(1) by (simp add: div_Suc)
  have e: "e = ?N * (c div ?N) + e mod ?N" "e mod ?N < ?N"
    using same by (auto simp: same_block_def) (metis mult_div_mod_eq)
  have "e \<le> c"
    using e Sc by linarith
  moreover have "c - e < ?N"
    using e Sc by linarith
  ultimately show False
    using assms(3-5) N by (auto simp: future_def)
qed

text \<open>The level whose list a tick moves: the lowest one whose index is not zero.\<close>

lemma loc_Suc_stay:
  assumes "Suc c mod 2 ^ (8 + 6 * i) = 0" "Suc c div 2 ^ (8 + 6 * i) mod 64 \<noteq> 0" "i \<le> 3"
    and "future c e" "e < 2 ^ 32" "c < 2 ^ 32"
    and "loc c e \<noteq> (Suc i, Suc c div 2 ^ (8 + 6 * i) mod 64)"
  shows "loc (Suc c) e = loc c e"
proof -
  have up: "same_block (Suc c) e m = same_block c e m" if "i < m" for m
  proof (rule same_block_Suc_unchanged)
    show "Suc c mod 2 ^ (8 + 6 * m) \<noteq> 0"
    proof
      assume "Suc c mod 2 ^ (8 + 6 * m) = 0"
      then have "(2::nat) ^ (8 + 6 * Suc i) dvd Suc c"
        using dvd_block[of "Suc i" m] that by (meson Suc_leI dvd_trans mod_0_imp_dvd)
      then have "(2::nat) ^ (8 + 6 * i) * 64 dvd Suc c"
        by (simp add: power_add)
      then have "64 dvd Suc c div 2 ^ (8 + 6 * i)"
        by (metis dvd_div_iff_mult dvd_mult_left mult.commute power_not_zero zero_neq_numeral)
      with assms(2) show False by (simp add: dvd_eq_mod_eq_0)
    qed
  qed
  have low: "\<not> same_block c e m" if "m \<le> i" for m
  proof (rule block_end_empty)
    show "Suc c mod 2 ^ (8 + 6 * m) = 0"
      using assms(1) dvd_block[OF that] by (meson dvd_imp_mod_0 dvd_trans mod_0_imp_dvd)
  qed (use assms that in auto)
  have low': "\<not> same_block (Suc c) e m" if "m \<le> i" for m
  proof
    assume "same_block (Suc c) e m"
    then have s: "same_block (Suc c) e i"
      using same_block_mono that by blast
    then have "same_block c e (Suc i)"
      using same_block_mono[of "Suc c" e i "Suc i"] up[of "Suc i"] by simp
    then have "level_of c e = Suc i"
      unfolding level_of_def using low by (intro Least_equality) (auto simp: not_less_eq_eq[symmetric])
    then have "loc c e = (Suc i, Suc c div 2 ^ (8 + 6 * i) mod 64)"
      using s by (simp add: loc_def idx_of_def same_block_def)
    with assms(7) show False by simp
  qed
  have "same_block (Suc c) e = same_block c e"
    using up low low' by (intro ext) (metis not_less)
  then show ?thesis
    by (simp add: loc_def level_of_def)
qed

lemma loc_Suc_same: "Suc c mod 256 \<noteq> 0 \<Longrightarrow> loc (Suc c) e = loc c e"
proof -
  assume "Suc c mod 256 \<noteq> 0"
  then have "Suc c mod 2 ^ (8 + 6 * l) \<noteq> 0" for l
    using dvd_block[of 0 l] by (auto simp: mod_eq_0_iff_dvd)
  then have "same_block (Suc c) e = same_block c e"
    by (intro ext same_block_Suc_unchanged)
  then show ?thesis
    by (simp add: loc_def level_of_def)
qed

text \<open>When the 32-bit clock wraps to 0, every pending node is on the last level.\<close>

lemma loc_wrap_stay:
  assumes "future (2 ^ 32 - 1) e" "e < 2 ^ 32" "loc (2 ^ 32 - 1) e \<noteq> (4, 0)"
  shows "loc 0 e = loc (2 ^ 32 - 1) e"
proof -
  have e: "e < 2 ^ 31"
    using assms by (auto simp: future_def)
  have b: "\<not> same_block (2 ^ 32 - 1) e l" if "l \<le> 3" for l
  proof (rule block_end_empty)
    have "(2::nat) ^ (8 + 6 * l) dvd 2 ^ 32"
      using that by (intro le_imp_power_dvd) simp
    then show "Suc (2 ^ 32 - 1) mod 2 ^ (8 + 6 * l) = 0"
      by (simp add: mod_eq_0_iff_dvd)
  qed (use assms that in auto)
  then have lev: "level_of (2 ^ 32 - 1) e = 4"
    using assms by (simp add: level_of_cases)
  then have ne: "e div 2 ^ 26 mod 64 \<noteq> 0"
    using assms(3) by (simp add: loc_def idx_of_def)
  have "\<not> same_block 0 e 3"
    using ne by (auto simp: same_block_def)
  then have "\<not> same_block 0 e l" if "l \<le> 3" for l
    using that same_block_mono by blast
  then have "level_of 0 e = 4"
    using assms by (simp add: level_of_cases)
  then show ?thesis
    using lev by (simp add: loc_def)
qed


text \<open>Pending timers lie ahead of the clock; \<open>due\<close> allows those that expire right now.\<close>

definition wheel_inv :: "timer \<Rightarrow> bool" where
  "wheel_inv T \<longleftrightarrow> wheel_ok T \<and> (\<forall>e. pend T e \<noteq> [] \<longrightarrow> future (now T) (unat e))"

lemma future_unat:
  "future (unat c) (unat e) \<longleftrightarrow> 0 < unat (e - c) \<and> unat (e - c) < 2 ^ 31" for c e :: u32
proof -
  have "unat (e - c) = (if unat c \<le> unat e then unat e - unat c else unat e + 2 ^ 32 - unat c)"
    by (simp add: unat_sub_if_size word_size)
  then show ?thesis
    by (auto simp: future_def) (use unat_32[of c] in linarith)
qed

lemma move_list_eq:
  "level < 4 \<Longrightarrow> move_list T level idx = foldl add_node (wheel_set T (Suc level, idx) []) (wheel_list T (Suc level, idx))"
  by (simp add: move_list_def link_clear_def wheel_set_def wheel_list_def)

text \<open>The loop of \<open>timer_shift\<close> stops at the level \<open>loc_Suc_stay\<close> speaks of.\<close>

lemma and_mask_eq_0: "w AND (2 ^ n - 1) = 0 \<longleftrightarrow> unat w mod 2 ^ n = 0" for w :: u32
proof -
  have "(2 ^ n - 1 :: u32) = word_of_int (2 ^ n - 1)"
    by simp
  then have "unat (w AND (2 ^ n - 1)) = unat w mod 2 ^ n"
    by (metis unat_and_mask)
  then show ?thesis
    by (metis unat_0 unat_eq_zero)
qed

lemma level_idx: "unat (drop_bit n w AND TIME_LEVEL_MASK) = unat w div 2 ^ n mod 64" for w :: u32
  using unat_and_mask[of "drop_bit n w" 6]
  by (simp add: TIME_LEVEL_MASK_def TIME_LEVEL_def unat_drop_div)

lemma shift_loop_step:
  assumes "unat ct mod 2 ^ (8 + 6 * i) = 0"
  shows "shift_loop T ct (drop_bit (8 + 6 * i) ct) (2 ^ (8 + 6 * i)) i =
    (if unat ct div 2 ^ (8 + 6 * i) mod 64 \<noteq> 0 then Some (move_list T i (unat ct div 2 ^ (8 + 6 * i) mod 64))
     else if i \<ge> 3 then None
     else shift_loop T ct (drop_bit (8 + 6 * Suc i) ct) (2 ^ (8 + 6 * Suc i)) (Suc i))"
proof -
  have m: "(push_bit 6 (2 ^ (8 + 6 * i)) :: u32) = 2 ^ (8 + 6 * Suc i)"
    by (simp add: push_bit_eq_mult power_add)
  show ?thesis
    using assms m unfolding and_mask_eq_0[symmetric]
    by (subst shift_loop.simps) (simp add: Let_def level_idx TIME_LEVEL_SHIFT_def)
qed

lemma shift_loop_moves:
  assumes "i \<le> 3" "ct \<noteq> 0" "unat ct mod 2 ^ (8 + 6 * i) = 0"
  shows "\<exists>j \<ge> i. j \<le> 3 \<and> unat ct mod 2 ^ (8 + 6 * j) = 0 \<and> unat ct div 2 ^ (8 + 6 * j) mod 64 \<noteq> 0 \<and>
      shift_loop T ct (drop_bit (8 + 6 * i) ct) (2 ^ (8 + 6 * i)) i =
        Some (move_list T j (unat ct div 2 ^ (8 + 6 * j) mod 64))"
  using assms(1,3)
proof (induction "3 - i" arbitrary: i)
  case 0
  then have i: "i = 3" by simp
  have nz: "unat ct \<noteq> 0"
    using assms(2) by (simp add: unat_eq_zero)
  have "unat ct div 2 ^ 26 < 64"
    using unat_32[of ct] by (simp add: div_less_iff_less_mult)
  moreover have "unat ct div 2 ^ 26 \<noteq> 0"
    using nz 0 i by (auto simp: mod_less)
  ultimately have idx: "unat ct div 2 ^ 26 mod 64 \<noteq> 0" by simp
  show ?case
    using 0 idx i shift_loop_step[OF 0(3)] by (intro exI[of _ 3]) simp
next
  case (Suc d)
  show ?case
  proof (cases "unat ct div 2 ^ (8 + 6 * i) mod 64 = 0")
    case False
    with Suc.prems shift_loop_step[OF Suc.prems(2)] show ?thesis
      by (intro exI[of _ i]) simp
  next
    case True
    have "(2::nat) ^ (8 + 6 * Suc i) = 2 ^ (8 + 6 * i) * 64"
      by (simp add: power_add)
    then have m: "unat ct mod 2 ^ (8 + 6 * Suc i) = 0"
      using True Suc.prems(2) by (simp add: mod_mult2_eq)
    have d: "d = 3 - Suc i" "Suc i \<le> 3"
      using Suc.hyps(2) by auto
    obtain j where j: "j \<ge> Suc i" "j \<le> 3" "unat ct mod 2 ^ (8 + 6 * j) = 0"
      "unat ct div 2 ^ (8 + 6 * j) mod 64 \<noteq> 0"
      "shift_loop T ct (drop_bit (8 + 6 * Suc i) ct) (2 ^ (8 + 6 * Suc i)) (Suc i) =
        Some (move_list T j (unat ct div 2 ^ (8 + 6 * j) mod 64))"
      using Suc.hyps(1)[OF d m] by (elim exE conjE) (rule that)
    have "shift_loop T ct (drop_bit (8 + 6 * i) ct) (2 ^ (8 + 6 * i)) i =
        shift_loop T ct (drop_bit (8 + 6 * Suc i) ct) (2 ^ (8 + 6 * Suc i)) (Suc i)"
      using True d(2) unfolding shift_loop_step[OF Suc.prems(2)] by simp
    then show ?thesis
      using j Suc_leD by metis
  qed
qed

lemma wheel_list_time [simp]: "wheel_list (T\<lparr>tm_time := t\<rparr>) p = wheel_list T p"
  by (simp add: wheel_list_def split: prod.split nat.split)

text \<open>A tick moves the clock by one and keeps every pending timer.\<close>

lemma timer_shift_ok:
  assumes inv: "wheel_inv T"
  shows "\<exists>T'. timer_shift T = Some T' \<and> wheel_ok T' \<and> tm_time T' = tm_time T + 1 \<and> (\<forall>e. pend T' e = pend T e)"
proof -
  let ?ct = "tm_time T + 1"
  have ok: "wheel_ok T" and fut: "\<And>e. pend T e \<noteq> [] \<Longrightarrow> future (now T) (unat e)"
    using inv by (auto simp: wheel_inv_def)
  have move: "\<exists>T'. timer_shift T = Some T' \<and> wheel_ok T' \<and> tm_time T' = ?ct \<and> (\<forall>e. pend T' e = pend T e)"
    if "timer_shift T = Some (move_list (T\<lparr>tm_time := ?ct\<rparr>) l j)" "l < 4" "j < 64"
      "\<And>e. pend T e \<noteq> [] \<Longrightarrow> loc (now T) (unat e) \<noteq> (Suc l, j) \<Longrightarrow> loc (unat ?ct) (unat e) = loc (now T) (unat e)"
    for l j
    using that retime_ok[OF ok, of "(Suc l, j)" ?ct] by (simp add: move_list_eq)
  show ?thesis
  proof (cases "?ct = 0")
    case True
    then have c: "now T = 2 ^ 32 - 1"
      by (rule unat_wrap)
    show ?thesis
    proof (rule move[of 3 0])
      show "timer_shift T = Some (move_list (T\<lparr>tm_time := ?ct\<rparr>) 3 0)"
        using True by (simp add: timer_shift_def)
      show "loc (unat ?ct) (unat e) = loc (now T) (unat e)"
        if "pend T e \<noteq> []" "loc (now T) (unat e) \<noteq> (Suc 3, 0)" for e
        using loc_wrap_stay[of "unat e"] fut[OF that(1)] that(2) c True by simp
    qed simp_all
  next
    case False
    note ct = unat_Suc_32[OF False]
    have sh: "timer_shift T = shift_loop (T\<lparr>tm_time := ?ct\<rparr>) ?ct (drop_bit (8 + 6 * 0) ?ct) (2 ^ (8 + 6 * 0)) 0"
      using False by (simp add: timer_shift_def Let_def TIME_NEAR_SHIFT_def TIME_NEAR_def)
    show ?thesis
    proof (cases "unat ?ct mod 2 ^ (8 + 6 * 0) = 0")
      case True
      obtain j where j: "j \<le> 3" "unat ?ct mod 2 ^ (8 + 6 * j) = 0" "unat ?ct div 2 ^ (8 + 6 * j) mod 64 \<noteq> 0"
        "timer_shift T = Some (move_list (T\<lparr>tm_time := ?ct\<rparr>) j (unat ?ct div 2 ^ (8 + 6 * j) mod 64))"
        using shift_loop_moves[OF le0[of 3] False True, of "T\<lparr>tm_time := ?ct\<rparr>"]
        unfolding sh[symmetric] by (elim exE conjE) (rule that)
      show ?thesis
      proof (rule move[OF j(4)])
        show "loc (unat ?ct) (unat e) = loc (now T) (unat e)"
          if "pend T e \<noteq> []" "loc (now T) (unat e) \<noteq> (Suc j, unat ?ct div 2 ^ (8 + 6 * j) mod 64)" for e
          using loc_Suc_stay[of "now T" j "unat e"] j fut[OF that(1)] that(2) unfolding ct by simp
      qed (use j in simp_all)
    next
      case nz: False
      then have "timer_shift T = Some (T\<lparr>tm_time := ?ct\<rparr>)"
        unfolding sh and_mask_eq_0[symmetric] by (subst shift_loop.simps) simp
      moreover have same: "loc (unat ?ct) e = loc (now T) e" for e
        using nz loc_Suc_same[of "now T" e] ct by simp
      moreover have "wheel_ok (T\<lparr>tm_time := ?ct\<rparr>)"
        using ok by (simp add: wheel_ok_def wheel_dims_def same)
      ultimately show ?thesis
        by (simp add: pend_def)
    qed
  qed
qed


section \<open>Expired timers\<close>

lemma loc_now: "loc c c = (0, c mod 256)"
proof -
  have "level_of c c = 0"
    unfolding level_of_def by (intro Least_equality) (auto simp: same_block_def)
  then show ?thesis by (simp add: loc_def idx_of_def)
qed

lemma loc_near_eq: "loc c e = (0, c mod 256) \<Longrightarrow> e < 2 ^ 32 \<Longrightarrow> c < 2 ^ 32 \<Longrightarrow> e = c"
proof -
  assume l: "loc c e = (0, c mod 256)" and b: "e < 2 ^ 32" "c < 2 ^ 32"
  then have "same_block c e 0"
    by (auto simp: loc_def level_of_cases split: if_splits)
  then have "e div 256 = c div 256" "e mod 256 = c mod 256"
    using l by (auto simp: same_block_def loc_def idx_of_def split: nat.splits)
  then show "e = c"
    by (metis mult_div_mod_eq)
qed

text \<open>The list \<open>timer_execute\<close> looks at holds exactly the timers that expire now.\<close>

lemma near_now:
  assumes "wheel_ok T"
  shows "tm_near T ! unat (tm_time T AND TIME_NEAR_MASK) = pend T (tm_time T)"
proof -
  have k: "unat (tm_time T AND TIME_NEAR_MASK) = now T mod 256"
    using unat_and_mask[of "tm_time T" 8] by (simp add: TIME_NEAR_MASK_def TIME_NEAR_def)
  have "\<forall>n \<in> set (wheel_list T (0, now T mod 256)). tn_expire n = tm_time T"
  proof
    fix n
    assume "n \<in> set (wheel_list T (0, now T mod 256))"
    then have "loc (now T) (expiry n) = (0, now T mod 256)"
      using wheel_ok_loc[OF assms, of "(0, now T mod 256)" n] by simp
    then show "tn_expire n = tm_time T"
      using loc_near_eq[of "now T" "expiry n"] by (simp add: word_unat_eq_iff)
  qed
  then show ?thesis
    unfolding k by (simp add: pend_def loc_now wheel_list_def)
qed

definition take_now :: "timer \<Rightarrow> timer" where
  "take_now T = wheel_set T (0, now T mod 256) []"

lemma take_now_ok:
  assumes "wheel_ok T"
  shows "wheel_ok (take_now T)" "pend (take_now T) e = (if e = tm_time T then [] else pend T e)"
    "tm_time (take_now T) = tm_time T"
proof -
  have d: "wheel_dims T" using assms by (simp add: wheel_ok_def)
  have lst: "wheel_list (take_now T) r = (if r = (0, now T mod 256) then [] else wheel_list T r)"
    if "valid_loc r" for r
    using that d by (simp add: take_now_def wheel_list_set)
  show t: "tm_time (take_now T) = tm_time T"
    by (simp add: take_now_def)
  show "wheel_ok (take_now T)"
    unfolding wheel_ok_def
  proof (intro conjI allI impI)
    show "wheel_dims (take_now T)" using d by (simp add: take_now_def)
    show "loc (now (take_now T)) (expiry n) = p" if "valid_loc p" "n \<in> set (wheel_list (take_now T) p)" for p n
      using that wheel_ok_loc[OF assms] by (auto simp: t lst split: if_splits)
  qed
  show "pend (take_now T) e = (if e = tm_time T then [] else pend T e)"
    using loc_near_eq[of "now T" "unat e"]
    by (auto simp: pend_def t lst valid_loc_loc loc_now word_unat_eq_iff)
qed

lemma timer_execute_unfold:
  assumes "wheel_ok T"
  shows "timer_execute ws T =
    (if pend T (tm_time T) = [] then ([], T)
     else case ws of
       [] \<Rightarrow> (pend T (tm_time T), take_now T)
     | w # ws' \<Rightarrow> (let (more, T') = timer_execute ws' (add_window (take_now T) w)
                  in (pend T (tm_time T) @ more, T')))"
proof -
  have k: "unat (tm_time T AND TIME_NEAR_MASK) = now T mod 256"
    using unat_and_mask[of "tm_time T" 8] by (simp add: TIME_NEAR_MASK_def TIME_NEAR_def)
  show ?thesis
    using near_now[OF assms] unfolding k
    by (subst timer_execute.simps) (simp add: Let_def k link_clear_def take_now_def wheel_set_def split: list.split)
qed

section \<open>Refinement\<close>

text \<open>A window is admissible when every delay is positive, which \<open>skynet_timeout\<close> ensures: it sends
  the response at once for the others.\<close>

definition window_ok :: "window \<Rightarrow> bool" where
  "window_ok w \<longleftrightarrow> (\<forall>(ev, d) \<in> set w. 0 < d \<and> d \<le> INT_MAX)"

definition added :: "u32 \<Rightarrow> window \<Rightarrow> u32 \<Rightarrow> timer_node list" where
  "added t w e = filter (\<lambda>n. tn_expire n = e)
     (map (\<lambda>(ev, d). \<lparr>tn_expire = word_of_int d + t, tn_event = ev\<rparr>) w)"

lemma future_delay:
  fixes t :: u32
  assumes "0 < d" "d \<le> INT_MAX"
  shows "future (unat t) (unat (word_of_int d + t))"
proof -
  have "unat (word_of_int d :: u32) = nat d"
    using assms by (simp add: unsigned_of_int take_bit_int_eq_self INT_MAX_def flip: nat_uint_eq)
  then show ?thesis
    using assms by (simp add: future_unat INT_MAX_def)
qed

lemma timer_add_ok:
  assumes "wheel_inv T" "0 < d" "d \<le> INT_MAX"
  shows "wheel_inv (timer_add T ev d)" "tm_time (timer_add T ev d) = tm_time T"
    "pend (timer_add T ev d) e = pend T e @
       (if word_of_int d + tm_time T = e then [\<lparr>tn_expire = e, tn_event = ev\<rparr>] else [])"
  using assms future_delay[OF assms(2,3), of "tm_time T"]
  by (auto simp: wheel_inv_def timer_add_def add_node_ok add_node_pend split: if_splits)

lemma add_window_ok:
  assumes "wheel_inv T" "window_ok w"
  shows "wheel_inv (add_window T w)" "tm_time (add_window T w) = tm_time T"
    "pend (add_window T w) e = pend T e @ added (tm_time T) w e"
proof -
  have "wheel_inv (add_window T w) \<and> tm_time (add_window T w) = tm_time T \<and>
    pend (add_window T w) e = pend T e @ added (tm_time T) w e"
    using assms
  proof (induction w arbitrary: T)
    case Nil
    then show ?case by (simp add: add_window_def added_def)
  next
    case (Cons x w)
    obtain ev d where x: "x = (ev, d)" by (cases x)
    with Cons.prems have d: "0 < d" "d \<le> INT_MAX" "window_ok w"
      by (auto simp: window_ok_def)
    have "add_window T (x # w) = add_window (timer_add T ev d) w"
      by (simp add: add_window_def x)
    with Cons.IH[of "timer_add T ev d"] timer_add_ok[OF Cons.prems(1) d(1,2)] d(3) show ?case
      by (auto simp: added_def x)
  qed
  then show "wheel_inv (add_window T w)" "tm_time (add_window T w) = tm_time T"
    "pend (add_window T w) e = pend T e @ added (tm_time T) w e"
    by auto
qed


lemma pend_now_empty: "wheel_inv T \<Longrightarrow> pend T (tm_time T) = []"
  by (auto simp: wheel_inv_def future_def)

text \<open>With admissible windows the loop of \<open>timer_execute\<close> runs at most once.\<close>

lemma timer_execute_inv:
  "wheel_inv T \<Longrightarrow> timer_execute ws T = ([], T)"
  using timer_execute_unfold[of T ws] pend_now_empty[of T] by (simp add: wheel_inv_def)

text \<open>The timers other threads add while the due ones are dispatched.\<close>

definition window_used :: "timer_node list \<Rightarrow> window list \<Rightarrow> window" where
  "window_used out ws = (if out = [] then [] else case ws of [] \<Rightarrow> [] | w # _ \<Rightarrow> w)"

lemma timer_execute_due:
  assumes ok: "wheel_ok T" and fut: "\<And>e. pend T e \<noteq> [] \<Longrightarrow> e \<noteq> tm_time T \<Longrightarrow> future (now T) (unat e)"
    and ws: "\<forall>w \<in> set ws. window_ok w"
  shows "\<exists>T'. timer_execute ws T = (pend T (tm_time T), T') \<and> wheel_inv T' \<and> tm_time T' = tm_time T \<and>
    (\<forall>e. pend T' e = (if e = tm_time T then [] else pend T e) @
       added (tm_time T) (window_used (pend T (tm_time T)) ws) e)"
proof -
  have inv: "wheel_inv (take_now T)"
    using take_now_ok[OF ok] fut by (auto simp: wheel_inv_def split: if_splits)
  show ?thesis
  proof (cases "pend T (tm_time T) = []")
    case True
    then have "wheel_inv T"
      using ok fut by (auto simp: wheel_inv_def)
    with True timer_execute_unfold[OF ok] show ?thesis
      by (auto simp: window_used_def added_def)
  next
    case False
    show ?thesis
    proof (cases ws)
      case Nil
      with False inv timer_execute_unfold[OF ok, of ws] take_now_ok[OF ok] show ?thesis
        by (auto simp: window_used_def added_def)
    next
      case (Cons w ws')
      with ws have w: "window_ok w" by simp
      note a = add_window_ok[OF inv w]
      from False Cons timer_execute_unfold[OF ok, of ws] timer_execute_inv[OF a(1)] a take_now_ok[OF ok]
      show ?thesis by (auto simp: window_used_def)
    qed
  qed
qed

text \<open>One tick of the wheel against its specification: exactly the timers that expire at the new
  time are dispatched, in the order they were added, and all others stay pending.\<close>

lemma timer_update_ok:
  assumes inv: "wheel_inv T" and ws: "\<forall>w \<in> set ws2. window_ok w"
  defines "t \<equiv> tm_time T + 1"
  shows "\<exists>T'. timer_update ws1 ws2 T = Some (pend T t, T') \<and> wheel_inv T' \<and> tm_time T' = t \<and>
    (\<forall>e. pend T' e = (if e = t then [] else pend T e) @ added t (window_used (pend T t) ws2) e)"
proof -
  obtain T1 where T1: "timer_shift T = Some T1" "wheel_ok T1" "tm_time T1 = t" "\<And>e. pend T1 e = pend T e"
    using timer_shift_ok[OF inv] by (auto simp: t_def)
  have fut: "future (now T1) (unat e)" if "pend T1 e \<noteq> []" "e \<noteq> tm_time T1" for e
  proof -
    have "future (now T) (unat e)"
      using that(1) inv by (simp add: T1(4) wheel_inv_def)
    then have d: "0 < unat (e - tm_time T)" "unat (e - tm_time T) < 2 ^ 31"
      by (simp_all add: future_unat)
    have "e - tm_time T = (e - t) + 1"
      by (simp add: t_def)
    moreover have "(e - t) + 1 \<noteq> 0"
      using d calculation by auto
    ultimately have "unat (e - tm_time T) = Suc (unat (e - t))"
      using unat_Suc_32[of "e - t"] by metis
    moreover have "unat (e - t) \<noteq> 0"
      using that(2) T1(3) by (auto simp: unat_eq_zero)
    ultimately show ?thesis
      using d(2) by (simp add: future_unat T1(3))
  qed
  obtain T' where "timer_execute ws2 T1 = (pend T1 (tm_time T1), T')" "wheel_inv T'" "tm_time T' = tm_time T1"
    "\<And>e. pend T' e = (if e = tm_time T1 then [] else pend T1 e) @
       added (tm_time T1) (window_used (pend T1 (tm_time T1)) ws2) e"
    using timer_execute_due[OF T1(2) fut ws] by blast
  then show ?thesis
    using T1 timer_execute_inv[OF inv, of ws1] by (auto simp: timer_update_def)
qed

interpretation wheel: alarm tm_time pend wheel_inv timer_add "timer_update [] []"
proof unfold_locales
  fix T ev d
  assume inv: "wheel_inv T"
  show "\<exists>T'. timer_update [] [] T = Some (pend T (tm_time T + 1), T') \<and> wheel_inv T' \<and>
      tm_time T' = tm_time T + 1 \<and> pend T' = (pend T)(tm_time T + 1 := [])"
    using timer_update_ok[OF inv, of "[]" "[]"]
    by (auto simp: window_used_def added_def fun_eq_iff)
  show "wheel_inv (timer_add T ev d) \<and> tm_time (timer_add T ev d) = tm_time T \<and>
      pend (timer_add T ev d) = (pend T)(word_of_int d + tm_time T :=
        pend T (word_of_int d + tm_time T) @ [\<lparr>tn_expire = word_of_int d + tm_time T, tn_event = ev\<rparr>])"
    if "0 < d" "d \<le> INT_MAX"
    using timer_add_ok[OF inv that] by (auto simp: fun_eq_iff)
qed

section \<open>Properties\<close>

lemma timer_init_ok: "wheel_inv (skynet_timer_init sec cs now0)" "pend (skynet_timer_init sec cs now0) e = []"
proof -
  let ?T = "skynet_timer_init sec cs now0"
  have e: "wheel_list ?T p = []" if "valid_loc p" for p
    using that by (cases p rule: valid_loc.cases)
      (simp_all add: wheel_list_def skynet_timer_init_def timer_create_timer_def)
  have "wheel_ok ?T"
    unfolding wheel_ok_def
    by (intro conjI allI impI) (simp_all add: e, simp add: wheel_dims_def skynet_timer_init_def timer_create_timer_def)
  moreover show p: "pend ?T e = []" for e
    by (simp add: pend_def e valid_loc_loc)
  ultimately show "wheel_inv ?T"
    by (simp add: wheel_inv_def)
qed

text \<open>C3. A timer set \<open>d\<close> ticks ahead (\<open>0 < d \<le> INT_MAX\<close>) fires at the tick \<open>d\<close> and at no tick before:
  after every tick the wheel has dispatched exactly the timers due then, in the order they were added,
  and the new timer comes last among those of its instant. The statement covers the wrap-around of
  the 32-bit tick counter and every cascade between the levels.\<close>

theorem timer_fires_on_time:
  assumes "wheel_inv T" "0 < d" "d \<le> INT_MAX"
  shows "\<exists>outs T'. run_ticks (timer_update [] []) (nat d) (timer_add T ev d) = Some (outs, T') \<and>
    wheel_inv T' \<and> tm_time T' = word_of_int d + tm_time T \<and>
    outs ! (nat d - 1) = pend T (word_of_int d + tm_time T) @
      [\<lparr>tn_expire = word_of_int d + tm_time T, tn_event = ev\<rparr>] \<and>
    (\<forall>k < nat d - 1. outs ! k = pend T (tm_time T + of_nat (Suc k)))"
  using wheel.add_fires[OF assms] by blast

theorem timer_fires_on_time_witness:
  "\<exists>outs T'. run_ticks (timer_update [] []) 20000
       (timer_add (skynet_timer_init 0 0 0) \<lparr>te_handle = 1, te_session = 4\<rparr> 20000) = Some (outs, T') \<and>
     outs ! 19999 = [\<lparr>tn_expire = 20000, tn_event = \<lparr>te_handle = 1, te_session = 4\<rparr>\<rparr>] \<and>
     (\<forall>k < 19999. outs ! k = [])"
proof -
  have "tm_time (skynet_timer_init 0 0 0) = 0"
    by (simp add: skynet_timer_init_def timer_create_timer_def)
  then show ?thesis
    using timer_fires_on_time[of "skynet_timer_init 0 0 0" 20000 "\<lparr>te_handle = 1, te_session = 4\<rparr>"]
      timer_init_ok by (auto simp: INT_MAX_def)
qed

text \<open>One call of \<open>timer_update\<close> while other threads add timers in the windows where the lock is
  free: it returns, dispatches exactly the timers that expire at the new time in the order they were
  added, keeps all others, and adds the concurrent ones to the instants they are set for; the
  invariant of the wheel is kept.\<close>

theorem timer_update_refines:
  assumes "wheel_inv T" "\<forall>w \<in> set ws2. window_ok w"
  shows "\<exists>T'. timer_update ws1 ws2 T = Some (pend T (tm_time T + 1), T') \<and> wheel_inv T' \<and>
    tm_time T' = tm_time T + 1 \<and>
    (\<forall>e. pend T' e = (if e = tm_time T + 1 then [] else pend T e) @
       added (tm_time T + 1) (window_used (pend T (tm_time T + 1)) ws2) e)"
  by (rule timer_update_ok[OF assms])

theorem timer_update_refines_witness:
  "\<exists>T'. timer_update [] [[(\<lparr>te_handle = 2, te_session = 9\<rparr>, 5)]]
       (timer_add (skynet_timer_init 0 0 0) \<lparr>te_handle = 1, te_session = 4\<rparr> 1) =
     Some ([\<lparr>tn_expire = 1, tn_event = \<lparr>te_handle = 1, te_session = 4\<rparr>\<rparr>], T') \<and>
     pend T' 6 = [\<lparr>tn_expire = 6, tn_event = \<lparr>te_handle = 2, te_session = 9\<rparr>\<rparr>]"
proof -
  let ?T = "timer_add (skynet_timer_init 0 0 0) \<lparr>te_handle = 1, te_session = 4\<rparr> 1"
  have t: "tm_time (skynet_timer_init 0 0 0) = 0"
    by (simp add: skynet_timer_init_def timer_create_timer_def)
  note a = timer_add_ok[of "skynet_timer_init 0 0 0" 1 "\<lparr>te_handle = 1, te_session = 4\<rparr>", unfolded t timer_init_ok]
  have "wheel_inv ?T" "tm_time ?T = 0" "pend ?T 1 = [\<lparr>tn_expire = 1, tn_event = \<lparr>te_handle = 1, te_session = 4\<rparr>\<rparr>]"
    "pend ?T 6 = []"
    using a timer_init_ok by (simp_all add: INT_MAX_def)
  then show ?thesis
    using timer_update_refines[of ?T "[[(\<lparr>te_handle = 2, te_session = 9\<rparr>, 5)]]" "[]"]
    by (auto simp: window_ok_def INT_MAX_def window_used_def added_def)
qed

end
