(* ===== verification/Clib.thy ===== *)
theory Clib
  imports Prelude
begin

text \<open>
  The parts of the C library the sources use on strings: number formatting (\<open>%d\<close>, \<open>%u\<close>, \<open>%x\<close>, \<open>%08x\<close>),
  number parsing (\<open>strtol\<close>, \<open>strtoul\<close>), \<open>strsep\<close>, \<open>strchr\<close>, the \<open>%s\<close> and \<open>%d\<close> conversions of \<open>sscanf\<close>, and the
  byte content of a string. A C string is the list of its characters without the terminating zero.
\<close>

section \<open>Formatting\<close>

definition digit_char :: "nat \<Rightarrow> char" where
  "digit_char d = (if d < 10 then char_of (48 + d) else char_of (87 + d))"

fun fmt_base :: "nat \<Rightarrow> nat \<Rightarrow> string" where
  "fmt_base b n = (if n < b \<or> b < 2 then [digit_char n] else fmt_base b (n div b) @ [digit_char (n mod b)])"

declare fmt_base.simps [simp del]

definition fmt_d :: "int \<Rightarrow> string" where
  "fmt_d i = (if i < 0 then CHR ''-'' # fmt_base 10 (nat (- i)) else fmt_base 10 (nat i))"

definition fmt_u :: "nat \<Rightarrow> string" where
  "fmt_u n = fmt_base 10 n"

definition fmt_x :: "nat \<Rightarrow> string" where
  "fmt_x n = fmt_base 16 n"

text \<open>Zero padding to a width, as in \<open>%08x\<close>.\<close>

definition fmt_0x :: "nat \<Rightarrow> nat \<Rightarrow> string" where
  "fmt_0x k n = replicate (k - length (fmt_x n)) (CHR ''0'') @ fmt_x n"

text \<open>\<open>%lf\<close> of the double \<open>us / 1000000.0\<close>; exact for fewer than \<open>2 ^ 32\<close> seconds, where the rounding of
  the division stays below half a unit of the sixth decimal.\<close>

definition fmt_micro :: "nat \<Rightarrow> string" where
  "fmt_micro us = fmt_u (us div 1000000) @ ''.'' @
     (let f = fmt_u (us mod 1000000) in replicate (6 - length f) (CHR ''0'') @ f)"

section \<open>Parsing\<close>

definition c_isspace :: "char \<Rightarrow> bool" where
  "c_isspace c \<longleftrightarrow> (let n = of_char c :: nat in n = 32 \<or> (9 \<le> n \<and> n \<le> 13))"

definition digit_of :: "char \<Rightarrow> nat option" where
  "digit_of c =
     (let n = of_char c :: nat
      in if 48 \<le> n \<and> n \<le> 57 then Some (n - 48)
         else if 97 \<le> n \<and> n \<le> 122 then Some (n - 87)
         else if 65 \<le> n \<and> n \<le> 90 then Some (n - 55)
         else None)"

fun read_num :: "nat \<Rightarrow> nat \<Rightarrow> string \<Rightarrow> nat" where
  "read_num b acc [] = acc"
| "read_num b acc (c # cs) =
     (case digit_of c of Some d \<Rightarrow> if d < b then read_num b (acc * b + d) cs else acc | None \<Rightarrow> acc)"

definition starts_hex :: "string \<Rightarrow> bool" where
  "starts_hex s \<longleftrightarrow>
     (case s of
        z # x # d # _ \<Rightarrow> z = CHR ''0'' \<and> (x = CHR ''x'' \<or> x = CHR ''X'') \<and>
          (case digit_of d of Some v \<Rightarrow> v < 16 | None \<Rightarrow> False)
      | _ \<Rightarrow> False)"

text \<open>The sign and the magnitude that \<open>strtol\<close> and \<open>strtoul\<close> read in base \<open>b\<close> (0: by the prefix).\<close>

definition strto :: "nat \<Rightarrow> string \<Rightarrow> bool \<times> nat" where
  "strto b s =
     (let s = dropWhile c_isspace s;
          neg = (case s of c # _ \<Rightarrow> c = CHR ''-'' | [] \<Rightarrow> False);
          s = (case s of c # t \<Rightarrow> if c = CHR ''-'' \<or> c = CHR ''+'' then t else s | [] \<Rightarrow> s);
          hex = (b = 0 \<or> b = 16) \<and> starts_hex s;
          s' = (if hex then drop 2 s else s);
          b' = (if hex then 16 else if b = 0 then (case s of c # _ \<Rightarrow> if c = CHR ''0'' then 8 else 10 | [] \<Rightarrow> 10) else b)
      in (neg, read_num b' 0 s'))"

definition strtoul :: "nat \<Rightarrow> string \<Rightarrow> u64" where
  "strtoul b s =
     (let (neg, v) = strto b s
      in if v \<ge> 2 ^ 64 then - 1 else if neg then - of_nat v else of_nat v)"

definition strtol :: "nat \<Rightarrow> string \<Rightarrow> int" where
  "strtol b s =
     (let (neg, v) = strto b s; i = (if neg then - int v else int v)
      in if i < - (2 ^ 63) then - (2 ^ 63) else if i > 2 ^ 63 - 1 then 2 ^ 63 - 1 else i)"

text \<open>Assignments that narrow: to \<open>uint32_t\<close> and to \<open>int\<close>.\<close>

definition to_u32 :: "u64 \<Rightarrow> u32" where
  "to_u32 w = ucast w"

definition wrap_int :: "int \<Rightarrow> int" where
  "wrap_int i = to_cint (word_of_int i)"

definition strsep :: "char list \<Rightarrow> string \<Rightarrow> string \<times> string option" where
  "strsep delim s =
     (takeWhile (\<lambda>c. c \<notin> set delim) s,
      (case dropWhile (\<lambda>c. c \<notin> set delim) s of [] \<Rightarrow> None | _ # rest \<Rightarrow> Some rest))"

definition strchr :: "string \<Rightarrow> char \<Rightarrow> string option" where
  "strchr s c = (case dropWhile (\<lambda>d. d \<noteq> c) s of [] \<Rightarrow> None | t \<Rightarrow> Some t)"

text \<open>One \<open>%s\<close> of \<open>sscanf\<close>: the token, if there is one, and the input left.\<close>

definition scan_s :: "string \<Rightarrow> string option \<times> string" where
  "scan_s s =
     (let s = dropWhile c_isspace s; t = takeWhile (\<lambda>c. \<not> c_isspace c) s
      in (if t = [] then None else Some t, dropWhile (\<lambda>c. \<not> c_isspace c) s))"

definition scan_2s :: "string \<Rightarrow> string option \<times> string option" where
  "scan_2s s =
     (case scan_s s of
        (None, _) \<Rightarrow> (None, None)
      | (Some t, rest) \<Rightarrow> (Some t, fst (scan_s rest)))"

text \<open>One \<open>%d\<close> of \<open>sscanf\<close>: the number, if there is one, and the input left.\<close>

definition scan_d :: "string \<Rightarrow> (int \<times> string) option" where
  "scan_d s =
     (let s = dropWhile c_isspace s;
          t = (case s of c # t \<Rightarrow> if c = CHR ''-'' \<or> c = CHR ''+'' then t else s | [] \<Rightarrow> s);
          dig = (\<lambda>c. case digit_of c of Some d \<Rightarrow> d < 10 | None \<Rightarrow> False)
      in if takeWhile dig t = [] then None else Some (wrap_int (strtol 10 s), dropWhile dig t))"

text \<open>The bytes of a string with its terminating zero.\<close>

definition cstr :: "string \<Rightarrow> u8 list" where
  "cstr s = map of_char s @ [0]"

section \<open>Reading back what was written\<close>

lemma digit_of_digit_char: "d < 36 \<Longrightarrow> digit_of (digit_char d) = Some d"
  by (auto simp: digit_of_def digit_char_def Let_def)

lemma digit_of_mod: "2 \<le> b \<Longrightarrow> b \<le> 36 \<Longrightarrow> digit_of (digit_char (n mod b)) = Some (n mod b)"
  by (intro digit_of_digit_char order.strict_trans2[OF mod_less_divisor]) simp_all

lemma read_num_append:
  assumes "\<And>c. c \<in> set s \<Longrightarrow> \<exists>d < b. digit_of c = Some d"
  shows "read_num b acc (s @ t) = read_num b (read_num b acc s) t"
  using assms
proof (induction s arbitrary: acc)
  case (Cons c s)
  then obtain d where "d < b" "digit_of c = Some d" by auto
  with Cons show ?case by simp
qed simp

lemma fmt_base_digits:
  assumes "2 \<le> b" "b \<le> 36"
  shows "\<forall>c \<in> set (fmt_base b n). \<exists>d < b. digit_of c = Some d"
proof (induction n rule: less_induct)
  case (less n)
  show ?case
  proof (cases "n < b")
    case True
    then show ?thesis
      using assms by (subst fmt_base.simps) (auto simp: digit_of_digit_char)
  next
    case False
    then have "\<forall>c \<in> set (fmt_base b (n div b)). \<exists>d < b. digit_of c = Some d"
      using less.IH[of "n div b"] assms by simp
    then show ?thesis
      using False assms by (subst fmt_base.simps) (auto simp: digit_of_mod)
  qed
qed

lemma read_num_fmt:
  assumes "2 \<le> b" "b \<le> 36"
  shows "read_num b 0 (fmt_base b n) = n"
proof (induction n rule: less_induct)
  case (less n)
  show ?case
  proof (cases "n < b")
    case True
    then show ?thesis
      using assms by (subst fmt_base.simps) (auto simp: digit_of_digit_char)
  next
    case False
    have "read_num b 0 (fmt_base b n) = read_num b (read_num b 0 (fmt_base b (n div b))) [digit_char (n mod b)]"
      using False assms fmt_base_digits[OF assms] by (subst fmt_base.simps) (simp add: read_num_append)
    also have "\<dots> = n div b * b + n mod b"
    proof -
      have "digit_of (digit_char (n mod b)) = Some (n mod b)" "n mod b < b" "n div b < n"
        using assms False by (simp_all add: digit_of_mod)
      then show ?thesis
        using less.IH by simp
    qed
    finally show ?thesis by simp
  qed
qed

lemma fmt_base_not_Nil [simp]: "fmt_base b n \<noteq> []"
  by (subst fmt_base.simps) simp

text \<open>A string of hexadecimal digits is read as it stands: it has no white space, sign or prefix.\<close>

definition hex_string :: "string \<Rightarrow> bool" where
  "hex_string s \<longleftrightarrow> (\<forall>c \<in> set s. \<exists>d < 16. digit_of c = Some d)"

lemma digit_of_not_space: "digit_of c = Some d \<Longrightarrow> \<not> c_isspace c \<and> c \<noteq> CHR ''-'' \<and> c \<noteq> CHR ''+''"
  by (auto simp: digit_of_def c_isspace_def Let_def split: if_splits)

lemma digit_of_x: "digit_of (CHR ''x'') = Some 33" "digit_of (CHR ''X'') = Some 33"
  by (simp_all add: digit_of_def)

lemma hex_string_no_prefix: "hex_string s \<Longrightarrow> \<not> starts_hex s"
  by (auto simp: hex_string_def starts_hex_def digit_of_x split: list.splits)

lemma strto_hex: "hex_string s \<Longrightarrow> strto 16 s = (False, read_num 16 0 s)"
proof (cases s)
  case (Cons c t)
  assume h: "hex_string s"
  with Cons obtain d where "digit_of c = Some d" by (auto simp: hex_string_def)
  with Cons hex_string_no_prefix[OF h] show ?thesis
    by (auto simp: strto_def Let_def dest: digit_of_not_space)
qed (simp add: strto_def starts_hex_def)

lemma hex_string_fmt_x: "hex_string (fmt_x n)"
  unfolding hex_string_def fmt_x_def by (rule fmt_base_digits) simp_all

lemma strtoul_hex:
  "hex_string s \<Longrightarrow> read_num 16 0 s < 2 ^ 32 \<Longrightarrow> to_u32 (strtoul 16 s) = of_nat (read_num 16 0 s)"
  by (simp add: strtoul_def strto_hex to_u32_def unsigned_of_nat take_bit_nat_eq_self of_nat_take_bit)

lemma strtoul_fmt_x: "to_u32 (strtoul 16 (fmt_x (unat h))) = h" for h :: u32
proof -
  have r: "read_num 16 0 (fmt_x (unat h)) = unat h"
    by (simp add: fmt_x_def read_num_fmt)
  have "unat h < 2 ^ 32" by simp
  then show ?thesis
    using strtoul_hex[OF hex_string_fmt_x[of "unat h"]] unfolding r by simp
qed

lemma wrap_int_range: "INT_MIN \<le> wrap_int i \<and> wrap_int i \<le> INT_MAX"
  using sint_greater_eq[of "word_of_int i :: u32"] sint_less[of "word_of_int i :: u32"]
  by (simp add: wrap_int_def to_cint_def INT_MIN_def INT_MAX_def)

lemma wrap_int_id: "INT_MIN \<le> i \<Longrightarrow> i \<le> INT_MAX \<Longrightarrow> wrap_int i = i"
  by (simp add: wrap_int_def to_cint_def INT_MIN_def INT_MAX_def signed_of_int signed_take_bit_int_eq_self)

lemma fmt_d_digits: "0 \<le> i \<Longrightarrow> c \<in> set (fmt_d i) \<Longrightarrow> \<exists>d < 10. digit_of c = Some d"
  using fmt_base_digits[of 10 "nat i"] by (simp add: fmt_d_def)

lemma strtol_fmt_d:
  assumes "0 \<le> i" "i < 2 ^ 63"
  shows "strtol 10 (fmt_d i) = i"
proof -
  obtain c t where f: "fmt_d i = c # t" using assms(1) by (cases "fmt_d i") (auto simp: fmt_d_def)
  then obtain d where "digit_of c = Some d" using fmt_d_digits[OF assms(1), of c] by auto
  note c = digit_of_not_space[OF this]
  have "strto 10 (fmt_d i) = (False, read_num 10 0 (fmt_d i))"
    using c by (simp add: strto_def f)
  also have "read_num 10 0 (fmt_d i) = nat i" using assms(1) read_num_fmt[of 10 "nat i"] by (simp add: fmt_d_def)
  finally show ?thesis using assms by (simp add: strtol_def) linarith
qed

lemma digit_not_special: "digit_of c = Some d \<Longrightarrow> c \<noteq> CHR '' '' \<and> c \<noteq> CHR 0x00"
  by (auto simp: digit_of_def Let_def split: if_splits)

lemma takeWhile_all: "(\<And>c. c \<in> set s \<Longrightarrow> P c) \<Longrightarrow> \<not> P d \<Longrightarrow> takeWhile P (s @ d # t) = s"
  by (induction s) auto

end
