(* ===== verification/Node.thy ===== *)
theory Node
  imports SkynetMQ Handle Timer Clib
begin

text \<open>
  The state of a node and the life cycle of its services: \<open>struct skynet_context\<close> with its reference
  count, \<open>struct skynet_node\<close>, the loaded modules (\<open>skynet_module.c\<close>), the environment
  (\<open>skynet_env.c\<close>), the log service (\<open>skynet_error.c\<close>), the message heap, and from
  \<open>skynet_server.c\<close> and \<open>skynet_handle.c\<close> the operations that grab, release, push to and retire a
  context. The code of the services (create, init, release, signal and message callbacks) and the
  operating system (dynamic linker, file system, clocks) are the argument \<open>x\<close>. An operation is
  modelled as it runs when no other thread interferes; interleavings are the subject of \<open>Scheduler\<close>.
\<close>

section \<open>State\<close>

definition PTYPE_TEXT :: int where "PTYPE_TEXT = 0"
definition PTYPE_RESPONSE :: int where "PTYPE_RESPONSE = 1"
definition PTYPE_CLIENT :: int where "PTYPE_CLIENT = 3"
definition PTYPE_SYSTEM :: int where "PTYPE_SYSTEM = 4"
definition PTYPE_HARBOR :: int where "PTYPE_HARBOR = 5"
definition PTYPE_SOCKET :: int where "PTYPE_SOCKET = 6"
definition PTYPE_ERROR :: int where "PTYPE_ERROR = 7"
definition PTYPE_TAG_DONTCOPY :: int where "PTYPE_TAG_DONTCOPY = 0x10000"
definition PTYPE_TAG_ALLOCSESSION :: int where "PTYPE_TAG_ALLOCSESSION = 0x20000"
definition MESSAGE_TYPE_MASK :: u64 where "MESSAGE_TYPE_MASK = drop_bit 8 (- 1)"
definition MESSAGE_TYPE_SHIFT :: nat where "MESSAGE_TYPE_SHIFT = 56"
definition GLOBALNAME_LENGTH :: nat where "GLOBALNAME_LENGTH = 16"

record remote_name =
  rn_name :: string
  rn_handle :: u32

record remote_message =
  rm_destination :: remote_name
  rm_message :: "addr option"
  rm_sz :: u64
  rm_type :: int

record skynet_socket_message =
  sm_type :: int
  sm_id :: int
  sm_ud :: int
  sm_buffer :: "addr option"

text \<open>A block of message memory: plain bytes, a \<open>struct remote_message\<close>, or a
  \<open>struct skynet_socket_message\<close> with the bytes behind it.\<close>

datatype blk = Bytes "u8 list" | Remote remote_message | Sock skynet_socket_message "u8 list"

record socket_sendbuffer =
  sb_id :: int
  sb_type :: int
  sb_buffer :: "addr option"
  sb_sz :: u64

text \<open>The calls of \<open>socket_server.h\<close>; the first argument of most is the handle of the service the socket
  belongs to (\<open>opaque\<close>). A buffer of type \<open>SOCKET_BUFFER_RAWPOINTER\<close> is memory of the caller, which the socket server
  copies during the call: \<open>Ss_send_raw\<close> has the socket id and the bytes.\<close>

datatype socket_request =
    Ss_listen u32 string int int
  | Ss_connect u32 string int
  | Ss_bind u32 int
  | Ss_close u32 int
  | Ss_shutdown u32 int
  | Ss_start u32 int
  | Ss_pause u32 int
  | Ss_nodelay int
  | Ss_send socket_sendbuffer
  | Ss_send_raw int "u8 list"
  | Ss_send_lowpriority socket_sendbuffer
  | Ss_udp u32 "string option" int
  | Ss_udp_connect int "string option" int
  | Ss_udp_send "string option" socket_sendbuffer
  | Ss_updatetime u64
  | Ss_exit

record skynet_context =
  cx_instance :: addr
  cx_mod :: nat
  cx_cb_ud :: addr
  cx_cb :: "nat option"
  cx_queue :: addr
  cx_logfile :: "nat option"
  cx_logsvccpufile :: "nat option"
  cx_cpu_cost :: u64
  cx_cpu_start :: u64
  cx_result :: string
  cx_handle :: u32
  cx_session_id :: int
  cx_ref :: int
  cx_message_count :: int
  cx_init :: bool
  cx_endless :: bool
  cx_profile :: bool

text \<open>The entry points of a module are function pointers; \<open>md_create\<close>, \<open>md_release\<close> and \<open>md_signal\<close> may be
  absent.\<close>

record skynet_module =
  md_name :: string
  md_module :: nat
  md_create :: "nat option"
  md_init :: "nat option"
  md_release :: "nat option"
  md_signal :: "nat option"

text \<open>\<open>w_total\<close> to \<open>w_profile\<close> are the fields of \<open>G_NODE\<close>, \<open>w_current\<close> the value of its thread key,
  \<open>w_remote\<close> and \<open>w_harbor\<close> the variables of \<open>skynet_harbor.c\<close>, \<open>w_logger\<close> the static variable of
  \<open>skynet_error\<close>; \<open>w_reads\<close> counts the readings of the thread clock, and \<open>w_requests\<close> collects the calls
  made to the socket server, in order.\<close>

record world = mq_state +
  w_heap :: "addr \<rightharpoonup> blk"
  w_heap_brk :: addr
  w_ctxs :: "addr \<rightharpoonup> skynet_context"
  w_ctx_brk :: addr
  w_handles :: handle_storage
  w_timer :: timer
  w_remote :: "addr option"
  w_harbor :: u32
  w_env :: "string \<rightharpoonup> string"
  w_modules :: "skynet_module list"
  w_module_path :: string
  w_files :: "nat \<rightharpoonup> string"
  w_file_brk :: nat
  w_total :: int
  w_init :: bool
  w_monitor_exit :: u32
  w_profile :: bool
  w_logger :: u32
  w_current :: u32
  w_reads :: nat
  w_requests :: "socket_request list"

text \<open>What the node calls but does not contain; \<open>x_raw\<close> is the object representation of a struct, and
  \<open>x_socket\<close> the result of a call to the socket server after the calls before it.\<close>

record ext =
  x_dlopen :: "string \<Rightarrow> nat option"
  x_dlsym :: "nat \<Rightarrow> string \<Rightarrow> nat option"
  x_create :: "nat \<Rightarrow> world \<Rightarrow> (addr option \<times> world) option"
  x_init :: "nat \<Rightarrow> addr \<Rightarrow> addr \<Rightarrow> string option \<Rightarrow> world \<Rightarrow> (int \<times> world) option"
  x_release :: "nat \<Rightarrow> addr \<Rightarrow> world \<Rightarrow> world option"
  x_signal :: "nat \<Rightarrow> addr \<Rightarrow> int \<Rightarrow> world \<Rightarrow> world option"
  x_cb :: "nat \<Rightarrow> addr \<Rightarrow> addr \<Rightarrow> int \<Rightarrow> int \<Rightarrow> u32 \<Rightarrow> addr option \<Rightarrow> u64 \<Rightarrow> world \<Rightarrow> (int \<times> world) option"
  x_fopen :: "string \<Rightarrow> bool"
  x_ctime :: "u64 \<Rightarrow> string"
  x_raw :: "blk \<Rightarrow> u8 list"
  x_thread_clock :: "nat \<Rightarrow> int \<times> int"
  x_socket :: "socket_request list \<Rightarrow> socket_request \<Rightarrow> int"

section \<open>Memory and files\<close>

definition skynet_malloc :: "blk \<Rightarrow> world \<Rightarrow> addr \<times> world" where
  "skynet_malloc b w =
     (w_heap_brk w, w\<lparr>w_heap := (w_heap w)(w_heap_brk w \<mapsto> b), w_heap_brk := Suc (w_heap_brk w)\<rparr>)"

definition skynet_free :: "addr option \<Rightarrow> world \<Rightarrow> world option" where
  "skynet_free p w =
     (case p of
        None \<Rightarrow> Some w
      | Some a \<Rightarrow> if w_heap w a = None then None else Some (w\<lparr>w_heap := (w_heap w)(a := None)\<rparr>))"

definition fopen :: "ext \<Rightarrow> string \<Rightarrow> world \<Rightarrow> nat option \<times> world" where
  "fopen x path w =
     (if x_fopen x path
      then (Some (w_file_brk w), w\<lparr>w_files := (w_files w)(w_file_brk w \<mapsto> []), w_file_brk := Suc (w_file_brk w)\<rparr>)
      else (None, w))"

definition fclose :: "nat \<Rightarrow> world \<Rightarrow> world option" where
  "fclose f w = (if w_files w f = None then None else Some (w\<lparr>w_files := (w_files w)(f := None)\<rparr>))"

definition fprintf :: "nat \<Rightarrow> string \<Rightarrow> world \<Rightarrow> world option" where
  "fprintf f text w = do { old \<leftarrow> w_files w f; Some (w\<lparr>w_files := (w_files w)(f \<mapsto> old @ text)\<rparr>) }"

definition thread_time :: "ext \<Rightarrow> world \<Rightarrow> u64 \<times> world" where
  "thread_time x w =
     (let (sec, nsec) = x_thread_clock x (w_reads w)
      in (skynet_thread_time sec nsec, w\<lparr>w_reads := Suc (w_reads w)\<rparr>))"

section \<open>Environment\<close>

definition skynet_getenv :: "string \<Rightarrow> world \<Rightarrow> string option" where
  "skynet_getenv key w = w_env w key"

definition skynet_setenv :: "string \<Rightarrow> string \<Rightarrow> world \<Rightarrow> world option" where
  "skynet_setenv key value w =
     (if w_env w key \<noteq> None then None else Some (w\<lparr>w_env := (w_env w)(key \<mapsto> value)\<rparr>))"

section \<open>Modules\<close>

definition MAX_MODULE_TYPE :: nat where "MAX_MODULE_TYPE = 32"

text \<open>The search of \<open>_try_open\<close> over the templates of the path; a template without \<open>?\<close> ends the process.\<close>

function try_open :: "ext \<Rightarrow> string \<Rightarrow> string \<Rightarrow> nat option option" where
  "try_open x name path =
     (let path = dropWhile (\<lambda>c. c = CHR '';'') path in
      if path = [] then Some None
      else
        let l = takeWhile (\<lambda>c. c \<noteq> CHR '';'') path;
            pre = takeWhile (\<lambda>c. c \<noteq> CHR ''?'') l
        in if pre = l then None
           else case x_dlopen x (pre @ name @ drop (Suc (length pre)) l) of
                  Some dl \<Rightarrow> Some (Some dl)
                | None \<Rightarrow> try_open x name (drop (length l) path))"
  by pat_completeness auto
termination
proof (relation "measure (\<lambda>(x, name, path). length path)", goal_cases)
  case (2 x name path path' l pre)
  have "length path' \<le> length path"
    using 2 by (simp add: length_dropWhile_le)
  moreover have "0 < length path'" using 2 by simp
  moreover have "0 < length l"
    using 2(3,4,5) by (metis length_greater_0_conv takeWhile.simps(1))
  ultimately show ?case by (simp add: diff_less order.strict_trans2[OF diff_less])
qed simp

declare try_open.simps [simp del]

definition query_module :: "string \<Rightarrow> world \<Rightarrow> nat option" where
  "query_module name w = find (\<lambda>i. md_name (w_modules w ! i) = name) [0..<length (w_modules w)]"

text \<open>\<open>get_api\<close> looks up the part of the name behind the last dot, with the suffix.\<close>

definition get_api :: "ext \<Rightarrow> string \<Rightarrow> nat \<Rightarrow> string \<Rightarrow> nat option" where
  "get_api x name dl api_name =
     x_dlsym x dl (rev (takeWhile (\<lambda>c. c \<noteq> CHR ''.'') (rev (name @ api_name))))"

definition open_sym :: "ext \<Rightarrow> string \<Rightarrow> nat \<Rightarrow> skynet_module" where
  "open_sym x name dl =
     \<lparr>md_name = name, md_module = dl,
      md_create = get_api x name dl ''_create'',
      md_init = get_api x name dl ''_init'',
      md_release = get_api x name dl ''_release'',
      md_signal = get_api x name dl ''_signal''\<rparr>"

definition skynet_module_query :: "ext \<Rightarrow> string \<Rightarrow> world \<Rightarrow> (nat option \<times> world) option" where
  "skynet_module_query x name w =
     (case query_module name w of
        Some i \<Rightarrow> Some (Some i, w)
      | None \<Rightarrow>
          if length (w_modules w) < MAX_MODULE_TYPE then do {
            r \<leftarrow> try_open x name (w_module_path w);
            case r of
              None \<Rightarrow> Some (None, w)
            | Some dl \<Rightarrow>
                let m = open_sym x name dl in
                if md_init m = None then Some (None, w)
                else Some (Some (length (w_modules w)), w\<lparr>w_modules := w_modules w @ [m]\<rparr>) }
          else Some (None, w))"

text \<open>A module without a \<open>create\<close> function gets the instance \<open>~0\<close>.\<close>

definition NO_INSTANCE :: addr where "NO_INSTANCE = 2 ^ 64 - 1"

definition skynet_module_instance_create :: "ext \<Rightarrow> nat \<Rightarrow> world \<Rightarrow> (addr option \<times> world) option" where
  "skynet_module_instance_create x i w = do {
     m \<leftarrow> arr_get (w_modules w) (int i);
     case md_create m of Some f \<Rightarrow> x_create x f w | None \<Rightarrow> Some (Some NO_INSTANCE, w) }"

definition skynet_module_instance_init ::
  "ext \<Rightarrow> nat \<Rightarrow> addr \<Rightarrow> addr \<Rightarrow> string option \<Rightarrow> world \<Rightarrow> (int \<times> world) option" where
  "skynet_module_instance_init x i inst ctx parm w = do {
     m \<leftarrow> arr_get (w_modules w) (int i);
     f \<leftarrow> md_init m;
     x_init x f inst ctx parm w }"

definition skynet_module_instance_release :: "ext \<Rightarrow> nat \<Rightarrow> addr \<Rightarrow> world \<Rightarrow> world option" where
  "skynet_module_instance_release x i inst w = do {
     m \<leftarrow> arr_get (w_modules w) (int i);
     case md_release m of Some f \<Rightarrow> x_release x f inst w | None \<Rightarrow> Some w }"

definition skynet_module_instance_signal :: "ext \<Rightarrow> nat \<Rightarrow> addr \<Rightarrow> int \<Rightarrow> world \<Rightarrow> world option" where
  "skynet_module_instance_signal x i inst sig w = do {
     m \<leftarrow> arr_get (w_modules w) (int i);
     case md_signal m of Some f \<Rightarrow> x_signal x f inst sig w | None \<Rightarrow> Some w }"

section \<open>Contexts\<close>

definition ctx_write :: "addr \<Rightarrow> skynet_context \<Rightarrow> world \<Rightarrow> world" where
  "ctx_write c cx w = w\<lparr>w_ctxs := (w_ctxs w)(c \<mapsto> cx)\<rparr>"

definition skynet_context_handle :: "addr \<Rightarrow> world \<Rightarrow> u32 option" where
  "skynet_context_handle c w = map_option cx_handle (w_ctxs w c)"

text \<open>The handle the table reads of a context in a slot.\<close>

definition handle_of :: "world \<Rightarrow> addr \<Rightarrow> u32" where
  "handle_of w c = (case w_ctxs w c of Some cx \<Rightarrow> cx_handle cx | None \<Rightarrow> 0)"

definition context_inc :: "world \<Rightarrow> world" where
  "context_inc w = w\<lparr>w_total := w_total w + 1\<rparr>"

definition context_dec :: "world \<Rightarrow> world" where
  "context_dec w = w\<lparr>w_total := w_total w - 1\<rparr>"

definition skynet_context_grab :: "addr \<Rightarrow> world \<Rightarrow> world option" where
  "skynet_context_grab c w = do {
     cx \<leftarrow> w_ctxs w c;
     Some (ctx_write c (cx\<lparr>cx_ref := cx_ref cx + 1\<rparr>) w) }"

definition skynet_context_reserve :: "addr \<Rightarrow> world \<Rightarrow> world option" where
  "skynet_context_reserve c w = do { w \<leftarrow> skynet_context_grab c w; Some (context_dec w) }"

definition close_log :: "nat option \<Rightarrow> world \<Rightarrow> world option" where
  "close_log f w = (case f of Some f \<Rightarrow> fclose f w | None \<Rightarrow> Some w)"

definition delete_context :: "ext \<Rightarrow> addr \<Rightarrow> world \<Rightarrow> world option" where
  "delete_context x c w = do {
     cx \<leftarrow> w_ctxs w c;
     w \<leftarrow> close_log (cx_logfile cx) w;
     w \<leftarrow> close_log (cx_logsvccpufile cx) w;
     w \<leftarrow> skynet_module_instance_release x (cx_mod cx) (cx_instance cx) w;
     cx \<leftarrow> w_ctxs w c;
     w \<leftarrow> skynet_mq_mark_release (cx_queue cx) w;
     Some (context_dec (w\<lparr>w_ctxs := (w_ctxs w)(c := None)\<rparr>)) }"

definition skynet_context_release :: "ext \<Rightarrow> addr \<Rightarrow> world \<Rightarrow> (addr option \<times> world) option" where
  "skynet_context_release x c w = do {
     cx \<leftarrow> w_ctxs w c;
     let w = ctx_write c (cx\<lparr>cx_ref := cx_ref cx - 1\<rparr>) w;
     if cx_ref cx = 1 then do { w \<leftarrow> delete_context x c w; Some (None, w) }
     else Some (Some c, w) }"

definition skynet_handle_grab :: "u32 \<Rightarrow> world \<Rightarrow> (addr option \<times> world) option" where
  "skynet_handle_grab handle w = do {
     r \<leftarrow> handle_lookup (handle_of w) handle (w_handles w);
     case r of
       None \<Rightarrow> Some (None, w)
     | Some c \<Rightarrow> do { w \<leftarrow> skynet_context_grab c w; Some (Some c, w) } }"

definition skynet_context_push :: "ext \<Rightarrow> u32 \<Rightarrow> skynet_message \<Rightarrow> world \<Rightarrow> (int \<times> world) option" where
  "skynet_context_push x handle message w = do {
     (r, w) \<leftarrow> skynet_handle_grab handle w;
     case r of
       None \<Rightarrow> Some (-1, w)
     | Some c \<Rightarrow> do {
         cx \<leftarrow> w_ctxs w c;
         w \<leftarrow> skynet_mq_push (cx_queue cx) message w;
         (_, w) \<leftarrow> skynet_context_release x c w;
         Some (0, w) } }"

definition skynet_context_endless :: "ext \<Rightarrow> u32 \<Rightarrow> world \<Rightarrow> world option" where
  "skynet_context_endless x handle w = do {
     (r, w) \<leftarrow> skynet_handle_grab handle w;
     case r of
       None \<Rightarrow> Some w
     | Some c \<Rightarrow> do {
         cx \<leftarrow> w_ctxs w c;
         (_, w) \<leftarrow> skynet_context_release x c (ctx_write c (cx\<lparr>cx_endless := True\<rparr>) w);
         Some w } }"

definition skynet_context_newsession :: "addr \<Rightarrow> world \<Rightarrow> (int \<times> world) option" where
  "skynet_context_newsession c w = do {
     cx \<leftarrow> w_ctxs w c;
     let session = wrap_int (cx_session_id cx + 1);
     if session \<le> 0 then Some (1, ctx_write c (cx\<lparr>cx_session_id := 1\<rparr>) w)
     else Some (session, ctx_write c (cx\<lparr>cx_session_id := session\<rparr>) w) }"

definition skynet_handle_retire :: "ext \<Rightarrow> u32 \<Rightarrow> world \<Rightarrow> (int \<times> world) option" where
  "skynet_handle_retire x handle w = do {
     (r, s) \<leftarrow> handle_retire_locked (handle_of w) handle (w_handles w);
     let w = w\<lparr>w_handles := s\<rparr>;
     case r of
       None \<Rightarrow> Some (0, w)
     | Some c \<Rightarrow> do { (_, w) \<leftarrow> skynet_context_release x c w; Some (1, w) } }"

text \<open>One sweep of \<open>skynet_handle_retireall\<close> from slot \<open>i\<close> on; \<open>n\<close> counts the contexts met. The size of
  the table is read again in every round.\<close>

partial_function (option) retire_sweep :: "ext \<Rightarrow> int \<Rightarrow> int \<Rightarrow> world \<Rightarrow> (int \<times> world) option" where
  "retire_sweep x i n w =
     (if i < hs_slot_size (w_handles w)
      then (case arr_get (hs_slot (w_handles w)) i of
              None \<Rightarrow> None
            | Some None \<Rightarrow> retire_sweep x (i + 1) n w
            | Some (Some c) \<Rightarrow>
                (if handle_of w c = 0 then retire_sweep x (i + 1) (n + 1) w
                 else case skynet_handle_retire x (handle_of w c) w of
                        None \<Rightarrow> None
                      | Some (_, w') \<Rightarrow> retire_sweep x (i + 1) (n + 1) w'))
      else Some (n, w))"

declare retire_sweep.simps [code]

partial_function (option) skynet_handle_retireall :: "ext \<Rightarrow> world \<Rightarrow> world option" where
  "skynet_handle_retireall x w =
     (case retire_sweep x 0 0 w of
        None \<Rightarrow> None
      | Some (n, w') \<Rightarrow> if n = 0 then Some w' else skynet_handle_retireall x w')"

declare skynet_handle_retireall.simps [code]

section \<open>The log service\<close>

text \<open>\<open>skynet_error\<close> with the formatted text; the block holds the text and its terminating zero.\<close>

definition msg_sz_of :: "nat \<Rightarrow> int \<Rightarrow> u64" where
  "msg_sz_of n type = of_nat n OR push_bit MESSAGE_TYPE_SHIFT (word_of_int type)"

definition skynet_error :: "ext \<Rightarrow> addr option \<Rightarrow> string \<Rightarrow> world \<Rightarrow> world option" where
  "skynet_error x ctx text w = do {
     w \<leftarrow> (if w_logger w = 0 then do {
              h \<leftarrow> skynet_handle_findname (w_handles w) ''logger'';
              Some (w\<lparr>w_logger := h\<rparr>) }
            else Some w);
     if w_logger w = 0 then Some w
     else do {
       let (data, w) = skynet_malloc (Bytes (cstr text)) w;
       source \<leftarrow> (case ctx of None \<Rightarrow> Some 0 | Some c \<Rightarrow> skynet_context_handle c w);
       (_, w) \<leftarrow> skynet_context_push x (w_logger w)
         \<lparr>msg_source = source, msg_session = 0, msg_data = Some data, msg_sz = msg_sz_of (length text) PTYPE_TEXT\<rparr> w;
       Some w } }"

end
