(* ===== verification/Server.thy ===== *)
theory Server
  imports Node
begin

text \<open>
  Sending and dispatching: \<open>skynet_harbor.c\<close>, \<open>skynet_monitor.c\<close>, \<open>skynet_log.c\<close>,
  \<open>skynet_log_svccpu.c\<close>, the timer's link to the services, and the rest of \<open>skynet_server.c\<close>:
  \<open>skynet_send\<close>, the dispatch of messages to the callbacks of services, the launch of a service, and
  the text commands of \<open>skynet_command\<close>.
\<close>

section \<open>Harbor\<close>

definition invalid_type :: "int \<Rightarrow> bool" where
  "invalid_type type \<longleftrightarrow> type \<noteq> PTYPE_SYSTEM \<and> type \<noteq> PTYPE_HARBOR"

definition skynet_context_send ::
  "addr \<Rightarrow> addr option \<Rightarrow> u64 \<Rightarrow> u32 \<Rightarrow> int \<Rightarrow> int \<Rightarrow> world \<Rightarrow> world option" where
  "skynet_context_send c msg sz source type session w = do {
     cx \<leftarrow> w_ctxs w c;
     skynet_mq_push (cx_queue cx)
       \<lparr>msg_source = source, msg_session = session, msg_data = msg,
        msg_sz = sz OR push_bit MESSAGE_TYPE_SHIFT (word_of_int type)\<rparr> w }"

definition SIZEOF_REMOTE_MESSAGE :: u64 where "SIZEOF_REMOTE_MESSAGE = 48"

definition skynet_harbor_send :: "addr \<Rightarrow> u32 \<Rightarrow> int \<Rightarrow> world \<Rightarrow> world option" where
  "skynet_harbor_send rmsg source session w =
     (case (w_heap w rmsg, w_remote w) of
        (Some (Remote r), Some c) \<Rightarrow>
          if invalid_type (rm_type r)
          then skynet_context_send c (Some rmsg) SIZEOF_REMOTE_MESSAGE source PTYPE_SYSTEM session w
          else None
      | _ \<Rightarrow> None)"

definition skynet_harbor_message_isremote :: "u32 \<Rightarrow> world \<Rightarrow> bool option" where
  "skynet_harbor_message_isremote handle w =
     (if w_harbor w = - 1 then None
      else let h = handle AND NOT HANDLE_MASK in Some (h \<noteq> w_harbor w \<and> h \<noteq> 0))"

definition skynet_harbor_init :: "int \<Rightarrow> world \<Rightarrow> world" where
  "skynet_harbor_init harbor w = w\<lparr>w_harbor := push_bit HANDLE_REMOTE_SHIFT (word_of_int harbor)\<rparr>"

definition skynet_harbor_start :: "addr \<Rightarrow> world \<Rightarrow> world option" where
  "skynet_harbor_start c w = do { w \<leftarrow> skynet_context_reserve c w; Some (w\<lparr>w_remote := Some c\<rparr>) }"

definition skynet_harbor_exit :: "ext \<Rightarrow> world \<Rightarrow> world option" where
  "skynet_harbor_exit x w =
     (let w' = w\<lparr>w_remote := None\<rparr> in
      case w_remote w of
        None \<Rightarrow> Some w'
      | Some c \<Rightarrow> do { (_, w'') \<leftarrow> skynet_context_release x c w'; Some w'' })"

definition skynet_isremote :: "u32 \<Rightarrow> world \<Rightarrow> (bool \<times> int) option" where
  "skynet_isremote handle w = do {
     r \<leftarrow> skynet_harbor_message_isremote handle w;
     Some (r, uint (drop_bit HANDLE_REMOTE_SHIFT handle)) }"

section \<open>Sending\<close>

text \<open>The \<open>void *\<close> a caller passes: nothing, memory of its own with the given content, or a message
  block.\<close>

datatype cdata = NoData | Buf "u8 list" | Blk addr

definition copy_data :: "ext \<Rightarrow> cdata \<Rightarrow> nat \<Rightarrow> world \<Rightarrow> u8 list option" where
  "copy_data x d n w = do {
     bs \<leftarrow> (case d of
              NoData \<Rightarrow> None
            | Buf bs \<Rightarrow> Some bs
            | Blk a \<Rightarrow> (case w_heap w a of None \<Rightarrow> None | Some (Bytes bs) \<Rightarrow> Some bs | Some b \<Rightarrow> Some (x_raw x b)));
     if n \<le> length bs then Some (take n bs) else None }"

definition own_block :: "cdata \<Rightarrow> addr option option" where
  "own_block d = (case d of NoData \<Rightarrow> Some None | Blk a \<Rightarrow> Some (Some a) | Buf _ \<Rightarrow> None)"

definition filter_args ::
  "ext \<Rightarrow> addr option \<Rightarrow> int \<Rightarrow> int \<Rightarrow> cdata \<Rightarrow> u64 \<Rightarrow> world \<Rightarrow> (int \<times> addr option \<times> u64 \<times> world) option" where
  "filter_args x context type session data sz w = do {
     let needcopy = (type AND PTYPE_TAG_DONTCOPY = 0);
     let allocsession = (type AND PTYPE_TAG_ALLOCSESSION \<noteq> 0);
     let type = type AND 0xff;
     (session, w) \<leftarrow> (if allocsession
        then if session \<noteq> 0 then None else do { c \<leftarrow> context; skynet_context_newsession c w }
        else Some (session, w));
     (data, w) \<leftarrow> (if needcopy \<and> data \<noteq> NoData
        then do {
          bs \<leftarrow> copy_data x data (unat sz) w;
          let (a, w) = skynet_malloc (Bytes (bs @ [0])) w;
          Some (Some a, w) }
        else do { p \<leftarrow> own_block data; Some (p, w) });
     Some (session, data, sz OR push_bit MESSAGE_TYPE_SHIFT (word_of_int type), w) }"

definition too_large :: "u64 \<Rightarrow> bool" where
  "too_large sz \<longleftrightarrow> sz AND MESSAGE_TYPE_MASK \<noteq> sz"

definition free_dontcopy :: "int \<Rightarrow> cdata \<Rightarrow> world \<Rightarrow> world option" where
  "free_dontcopy type data w =
     (if type AND PTYPE_TAG_DONTCOPY \<noteq> 0 then do { p \<leftarrow> own_block data; skynet_free p w } else Some w)"

definition context_handle_of :: "addr option \<Rightarrow> world \<Rightarrow> u32 option" where
  "context_handle_of context w = do { c \<leftarrow> context; skynet_context_handle c w }"

definition skynet_send ::
  "ext \<Rightarrow> addr option \<Rightarrow> u32 \<Rightarrow> u32 \<Rightarrow> int \<Rightarrow> int \<Rightarrow> cdata \<Rightarrow> u64 \<Rightarrow> world \<Rightarrow> (int \<times> world) option" where
  "skynet_send x context source destination type session data sz w =
     (if too_large sz then do {
        w \<leftarrow> skynet_error x context (''The message to '' @ fmt_x (unat destination) @ '' is too large'') w;
        w \<leftarrow> free_dontcopy type data w;
        Some (-2, w) }
      else do {
        (session, data, sz, w) \<leftarrow> filter_args x context type session data sz w;
        source \<leftarrow> (if source = 0 then context_handle_of context w else Some source);
        if destination = 0 then
          if data \<noteq> None then do {
            w \<leftarrow> skynet_error x context ''Destination address can't be 0'' w;
            w \<leftarrow> skynet_free data w;
            Some (-1, w) }
          else Some (session, w)
        else do {
          remote \<leftarrow> skynet_harbor_message_isremote destination w;
          if remote then do {
            let (rmsg, w) = skynet_malloc (Remote
              \<lparr>rm_destination = \<lparr>rn_name = [], rn_handle = destination\<rparr>, rm_message = data,
               rm_sz = sz AND MESSAGE_TYPE_MASK, rm_type = uint (drop_bit MESSAGE_TYPE_SHIFT sz)\<rparr>) w;
            w \<leftarrow> skynet_harbor_send rmsg source session w;
            Some (session, w) }
          else do {
            (r, w) \<leftarrow> skynet_context_push x destination
              \<lparr>msg_source = source, msg_session = session, msg_data = data, msg_sz = sz\<rparr> w;
            if r \<noteq> 0 then do { w \<leftarrow> skynet_free data w; Some (-1, w) }
            else Some (session, w) } } })"

text \<open>The name of a remote destination that has a handle is left unset by the code (empty here).
  \<open>copy_name\<close> fills the 16 bytes of a global name, truncating or padding with zeros.\<close>

definition copy_name :: "string \<Rightarrow> string" where
  "copy_name a = take GLOBALNAME_LENGTH a @ replicate (GLOBALNAME_LENGTH - length a) (CHR 0x00)"

definition skynet_sendname ::
  "ext \<Rightarrow> addr option \<Rightarrow> u32 \<Rightarrow> string \<Rightarrow> int \<Rightarrow> int \<Rightarrow> cdata \<Rightarrow> u64 \<Rightarrow> world \<Rightarrow> (int \<times> world) option" where
  "skynet_sendname x context source address type session data sz w = do {
     source \<leftarrow> (if source = 0 then context_handle_of context w else Some source);
     if take 1 address = '':'' then
       skynet_send x context source (to_u32 (strtoul 16 (tl address))) type session data sz w
     else if take 1 address = ''.'' then do {
       des \<leftarrow> skynet_handle_findname (w_handles w) (tl address);
       if des = 0 then do { w \<leftarrow> free_dontcopy type data w; Some (-1, w) }
       else skynet_send x context source des type session data sz w }
     else if too_large sz then do {
       w \<leftarrow> skynet_error x context (''The message to '' @ address @ '' is too large'') w;
       w \<leftarrow> free_dontcopy type data w;
       Some (-2, w) }
     else do {
       (session, data, sz, w) \<leftarrow> filter_args x context type session data sz w;
       let (rmsg, w) = skynet_malloc (Remote
         \<lparr>rm_destination = \<lparr>rn_name = copy_name address, rn_handle = 0\<rparr>, rm_message = data,
          rm_sz = sz AND MESSAGE_TYPE_MASK, rm_type = uint (drop_bit MESSAGE_TYPE_SHIFT sz)\<rparr>) w;
       w \<leftarrow> skynet_harbor_send rmsg source session w;
       Some (session, w) } }"

text \<open>The callback \<open>_drop_queue\<close> is given; \<open>h\<close> is the handle in the \<open>struct drop_t\<close>.\<close>

definition drop_message :: "ext \<Rightarrow> u32 \<Rightarrow> skynet_message \<Rightarrow> world \<Rightarrow> world option" where
  "drop_message x h msg w = do {
     w \<leftarrow> skynet_free (msg_data msg) w;
     if h = 0 then None
     else do {
       (_, w) \<leftarrow> skynet_send x None h (msg_source msg) PTYPE_ERROR (msg_session msg) NoData 0 w;
       Some w } }"

section \<open>Launching a service\<close>

definition hex_digit :: "nat \<Rightarrow> char" where
  "hex_digit d = (if d < 10 then char_of (48 + d) else char_of (55 + d))"

definition id_to_hex :: "u32 \<Rightarrow> string" where
  "id_to_hex h = CHR '':'' # map (\<lambda>i. hex_digit (unat (drop_bit ((7 - i) * 4) h AND 0xf))) [0..<8]"

definition new_context :: "nat \<Rightarrow> addr \<Rightarrow> bool \<Rightarrow> skynet_context" where
  "new_context md inst profile =
     \<lparr>cx_instance = inst, cx_mod = md, cx_cb_ud = 0, cx_cb = None, cx_queue = 0, cx_logfile = None,
      cx_logsvccpufile = None, cx_cpu_cost = 0, cx_cpu_start = 0, cx_result = [], cx_handle = 0,
      cx_session_id = 0, cx_ref = 2, cx_message_count = 0, cx_init = False, cx_endless = False,
      cx_profile = profile\<rparr>"

definition launch_ok :: "ext \<Rightarrow> string \<Rightarrow> string option \<Rightarrow> addr \<Rightarrow> addr \<Rightarrow> world \<Rightarrow> (addr option \<times> world) option" where
  "launch_ok x name param c queue w = do {
     (ret, w) \<leftarrow> skynet_context_release x c w;
     w \<leftarrow> (case ret of
              None \<Rightarrow> Some w
            | Some c \<Rightarrow> do { cx \<leftarrow> w_ctxs w c; Some (ctx_write c (cx\<lparr>cx_init := True\<rparr>) w) });
     w \<leftarrow> skynet_globalmq_push queue w;
     w \<leftarrow> (case ret of
              None \<Rightarrow> Some w
            | Some c \<Rightarrow> skynet_error x (Some c)
                (''LAUNCH '' @ name @ '' '' @ (case param of Some p \<Rightarrow> p | None \<Rightarrow> [])) w);
     Some (ret, w) }"

definition launch_failed :: "ext \<Rightarrow> string \<Rightarrow> addr \<Rightarrow> addr \<Rightarrow> world \<Rightarrow> world option" where
  "launch_failed x name c queue w = do {
     w \<leftarrow> skynet_error x (Some c) (''FAILED launch '' @ name) w;
     handle \<leftarrow> skynet_context_handle c w;
     (_, w) \<leftarrow> skynet_context_release x c w;
     (_, w) \<leftarrow> skynet_handle_retire x handle w;
     skynet_mq_release (drop_message x handle) queue w }"

definition skynet_context_new :: "ext \<Rightarrow> string \<Rightarrow> string option \<Rightarrow> world \<Rightarrow> (addr option \<times> world) option" where
  "skynet_context_new x name param w = do {
     (md, w) \<leftarrow> skynet_module_query x name w;
     case md of None \<Rightarrow> Some (None, w) | Some md \<Rightarrow> do {
       (inst, w) \<leftarrow> skynet_module_instance_create x md w;
       case inst of None \<Rightarrow> Some (None, w) | Some inst \<Rightarrow> do {
         let c = w_ctx_brk w;
         let w = (ctx_write c (new_context md inst (w_profile w)) w)\<lparr>w_ctx_brk := Suc c\<rparr>;
         (handle, hs) \<leftarrow> skynet_handle_register (handle_of w) c (w_handles w);
         let w = w\<lparr>w_handles := hs\<rparr>;
         cx \<leftarrow> w_ctxs w c;
         let (queue, w) = skynet_mq_create handle w;
         let w = context_inc (ctx_write c (cx\<lparr>cx_handle := handle, cx_queue := queue\<rparr>) w);
         (r, w) \<leftarrow> skynet_module_instance_init x md inst c param w;
         if r = 0 then launch_ok x name param c queue w
         else do { w \<leftarrow> launch_failed x name c queue w; Some (None, w) } } } }"

definition skynet_callback :: "addr \<Rightarrow> addr \<Rightarrow> nat option \<Rightarrow> world \<Rightarrow> world option" where
  "skynet_callback c ud cb w = do {
     cx \<leftarrow> w_ctxs w c;
     Some (ctx_write c (cx\<lparr>cx_cb := cb, cx_cb_ud := ud\<rparr>) w) }"

section \<open>Message logs\<close>

definition skynet_log_open :: "ext \<Rightarrow> addr \<Rightarrow> u32 \<Rightarrow> world \<Rightarrow> (nat option \<times> world) option" where
  "skynet_log_open x ctx handle w =
     (case skynet_getenv ''logpath'' w of
        None \<Rightarrow> Some (None, w)
      | Some logpath \<Rightarrow> do {
          let tmp = logpath @ ''/'' @ fmt_0x 8 (unat handle) @ ''.log'';
          let (f, w) = fopen x tmp w;
          case f of
            Some f \<Rightarrow> do {
              let currenttime = skynet_now (w_timer w);
              let ti = ucast (skynet_starttime (w_timer w)) + currenttime div 100;
              w \<leftarrow> skynet_error x (Some ctx) (''Open log file '' @ tmp) w;
              w \<leftarrow> fprintf f (''open time: '' @ fmt_u (unat (to_u32 currenttime)) @ '' '' @ x_ctime x ti) w;
              Some (Some f, w) }
          | None \<Rightarrow> do {
              w \<leftarrow> skynet_error x (Some ctx) (''Open log file '' @ tmp @ '' fail'') w;
              Some (None, w) } })"

definition skynet_log_close :: "ext \<Rightarrow> addr \<Rightarrow> nat \<Rightarrow> u32 \<Rightarrow> world \<Rightarrow> world option" where
  "skynet_log_close x ctx f handle w = do {
     w \<leftarrow> skynet_error x (Some ctx) (''Close log file :'' @ fmt_0x 8 (unat handle)) w;
     w \<leftarrow> fprintf f (''close time: '' @ fmt_u (unat (to_u32 (skynet_now (w_timer w)))) @ [CHR 0x0A]) w;
     fclose f w }"

definition blob_text :: "u8 list \<Rightarrow> string" where
  "blob_text bs = concat (map (\<lambda>b. fmt_0x 2 (unat b)) bs)"

text \<open>The \<open>sz\<close> bytes at a message pointer.\<close>

definition read_data :: "ext \<Rightarrow> addr option \<Rightarrow> nat \<Rightarrow> world \<Rightarrow> u8 list option" where
  "read_data x p n w =
     (if n = 0 then Some [] else
      case p of None \<Rightarrow> None | Some a \<Rightarrow> copy_data x (Blk a) n w)"

text \<open>The text behind a socket message is printed up to its first zero; without one within the message
  \<open>%*s\<close> reads past its end.\<close>

definition socket_text :: "ext \<Rightarrow> addr option \<Rightarrow> string \<Rightarrow> world \<Rightarrow> string option" where
  "socket_text x p gap w =
     (case p of
        None \<Rightarrow> None
      | Some a \<Rightarrow>
          (case w_heap w a of
             Some (Sock m tail) \<Rightarrow> do {
               body \<leftarrow> (case sm_buffer m of
                   None \<Rightarrow> if 0 \<in> set tail
                          then Some (''['' @ map (\<lambda>b. char_of (unat b)) (takeWhile (\<lambda>b. b \<noteq> 0) tail) @ '']'')
                          else None
                 | Some b \<Rightarrow> if sm_ud m < 0 then None
                            else map_option blob_text (read_data x (Some b) (nat (sm_ud m)) w));
               Some (''[socket] '' @ fmt_d (sm_type m) @ '' '' @ fmt_d (sm_id m) @ '' '' @ fmt_d (sm_ud m) @ gap @ body) }
           | _ \<Rightarrow> None))"

definition skynet_log_output ::
  "ext \<Rightarrow> nat \<Rightarrow> u32 \<Rightarrow> int \<Rightarrow> int \<Rightarrow> addr option \<Rightarrow> nat \<Rightarrow> world \<Rightarrow> world option" where
  "skynet_log_output x f source type session buffer sz w =
     (if type = PTYPE_SOCKET then do {
        t \<leftarrow> socket_text x buffer '' '' w;
        fprintf f (t @ [CHR 0x0A]) w }
      else do {
        bs \<leftarrow> read_data x buffer sz w;
        fprintf f ('':'' @ fmt_0x 8 (unat source) @ '' '' @ fmt_d type @ '' '' @ fmt_d session @ '' '' @
          fmt_u (unat (to_u32 (skynet_now (w_timer w)))) @ '' '' @ blob_text bs @ [CHR 0x0A]) w })"

text \<open>\<open>log_svccpu_path\<close> gives the directory; the name of the file is built in a buffer of
  \<open>strlen(logpath) + 100\<close> bytes, whatever the length of \<open>param\<close>.\<close>

definition skynet_log_svccpu_open :: "ext \<Rightarrow> addr \<Rightarrow> u32 \<Rightarrow> string \<Rightarrow> world \<Rightarrow> (nat option \<times> world) option" where
  "skynet_log_svccpu_open x ctx handle param w =
     (case skynet_getenv ''log_svccpu_path'' w of
        None \<Rightarrow> Some (None, w)
      | Some logpath \<Rightarrow>
          let tmp = logpath @ ''/'' @ param @ ''_'' @ fmt_0x 8 (unat handle) @ ''.log'' in
          if length tmp + 1 > length logpath + 100 then None
          else do {
            let (f, w) = fopen x tmp w;
            w \<leftarrow> skynet_error x (Some ctx)
              (''Open log file '' @ tmp @ (case f of Some _ \<Rightarrow> [] | None \<Rightarrow> '' fail'')) w;
            Some (f, w) })"

definition skynet_log_svccpu_close :: "ext \<Rightarrow> addr \<Rightarrow> nat \<Rightarrow> u32 \<Rightarrow> world \<Rightarrow> world option" where
  "skynet_log_svccpu_close x ctx f handle w = do {
     w \<leftarrow> skynet_error x (Some ctx) (''Close log file :'' @ fmt_0x 8 (unat handle)) w;
     fclose f w }"

definition svccpu_line :: "u32 \<Rightarrow> int \<Rightarrow> int \<Rightarrow> u64 \<Rightarrow> world \<Rightarrow> string" where
  "svccpu_line source type session cost_time w =
     (let ti = to_u32 (ucast (skynet_starttime (w_timer w)) + skynet_now (w_timer w) div 100)
      in fmt_d (to_cint ti) @ '' '' @ fmt_d (sint cost_time) @ '' :'' @ fmt_0x 8 (unat source) @ '' '' @
         fmt_d type @ '' '' @ fmt_d session @ [CHR 0x0A])"

definition skynet_log_svccpu_output :: "nat \<Rightarrow> u32 \<Rightarrow> int \<Rightarrow> int \<Rightarrow> u64 \<Rightarrow> world \<Rightarrow> world option" where
  "skynet_log_svccpu_output f source type session cost_time w =
     fprintf f (svccpu_line source type session cost_time w) w"

definition skynet_log_svccpu_output_data ::
  "ext \<Rightarrow> nat \<Rightarrow> u32 \<Rightarrow> int \<Rightarrow> int \<Rightarrow> u64 \<Rightarrow> addr option \<Rightarrow> nat \<Rightarrow> world \<Rightarrow> world option" where
  "skynet_log_svccpu_output_data x f source type session cost_time buffer sz w = do {
     body \<leftarrow> (if type = PTYPE_SOCKET then socket_text x buffer [] w
              else map_option blob_text (read_data x buffer sz w));
     fprintf f (svccpu_line source type session cost_time w @ body @ [CHR 0x0A]) w }"

section \<open>Dispatching\<close>

record skynet_monitor =
  mo_version :: int
  mo_check_version :: int
  mo_source :: u32
  mo_destination :: u32

definition skynet_monitor_new :: skynet_monitor where
  "skynet_monitor_new = \<lparr>mo_version = 0, mo_check_version = 0, mo_source = 0, mo_destination = 0\<rparr>"

definition skynet_monitor_trigger :: "u32 \<Rightarrow> u32 \<Rightarrow> skynet_monitor \<Rightarrow> skynet_monitor" where
  "skynet_monitor_trigger source destination sm =
     sm\<lparr>mo_source := source, mo_destination := destination, mo_version := wrap_int (mo_version sm + 1)\<rparr>"

definition skynet_monitor_check :: "ext \<Rightarrow> skynet_monitor \<Rightarrow> world \<Rightarrow> (skynet_monitor \<times> world) option" where
  "skynet_monitor_check x sm w =
     (if mo_version sm = mo_check_version sm then
        if mo_destination sm \<noteq> 0 then do {
          w \<leftarrow> skynet_context_endless x (mo_destination sm) w;
          w \<leftarrow> skynet_error x None (''A message from [ :'' @ fmt_0x 8 (unat (mo_source sm)) @ '' ] to [ :'' @
            fmt_0x 8 (unat (mo_destination sm)) @ '' ] maybe in an endless loop (version = '' @
            fmt_d (mo_version sm) @ '')'') w;
          Some (sm, w) }
        else Some (sm, w)
      else Some (sm\<lparr>mo_check_version := mo_version sm\<rparr>, w))"

definition call_cb :: "ext \<Rightarrow> addr \<Rightarrow> skynet_message \<Rightarrow> world \<Rightarrow> (int \<times> world) option" where
  "call_cb x c msg w = do {
     cx \<leftarrow> w_ctxs w c;
     cb \<leftarrow> cx_cb cx;
     x_cb x cb c (cx_cb_ud cx) (uint (drop_bit MESSAGE_TYPE_SHIFT (msg_sz msg))) (msg_session msg)
       (msg_source msg) (msg_data msg) (msg_sz msg AND MESSAGE_TYPE_MASK) w }"

text \<open>The profiled call of \<open>dispatch_message\<close> and its log line.\<close>

definition profiled_cb :: "ext \<Rightarrow> addr \<Rightarrow> skynet_message \<Rightarrow> world \<Rightarrow> (int \<times> world) option" where
  "profiled_cb x c msg w = do {
     let type = uint (drop_bit MESSAGE_TYPE_SHIFT (msg_sz msg));
     let sz = unat (msg_sz msg AND MESSAGE_TYPE_MASK);
     let (t0, w) = thread_time x w;
     cx \<leftarrow> w_ctxs w c;
     (reserve, w) \<leftarrow> call_cb x c msg (ctx_write c (cx\<lparr>cx_cpu_start := t0\<rparr>) w);
     let (t1, w) = thread_time x w;
     cx \<leftarrow> w_ctxs w c;
     let cost = t1 - cx_cpu_start cx;
     let w = ctx_write c (cx\<lparr>cx_cpu_cost := cx_cpu_cost cx + cost\<rparr>) w;
     w \<leftarrow> (case cx_logsvccpufile cx of
              None \<Rightarrow> Some w
            | Some f \<Rightarrow>
                if reserve = 0 \<and> cost \<ge> 1000
                then skynet_log_svccpu_output_data x f (msg_source msg) type (msg_session msg) cost (msg_data msg) sz w
                else skynet_log_svccpu_output f (msg_source msg) type (msg_session msg) cost w);
     Some (reserve, w) }"

definition dispatch_message :: "ext \<Rightarrow> addr \<Rightarrow> skynet_message \<Rightarrow> world \<Rightarrow> world option" where
  "dispatch_message x c msg w = do {
     cx \<leftarrow> w_ctxs w c;
     if \<not> cx_init cx then None
     else do {
       let w = w\<lparr>w_current := cx_handle cx\<rparr>;
       w \<leftarrow> (case cx_logfile cx of
                None \<Rightarrow> Some w
              | Some f \<Rightarrow> skynet_log_output x f (msg_source msg) (uint (drop_bit MESSAGE_TYPE_SHIFT (msg_sz msg)))
                  (msg_session msg) (msg_data msg) (unat (msg_sz msg AND MESSAGE_TYPE_MASK)) w);
       let w = ctx_write c (cx\<lparr>cx_message_count := wrap_int (cx_message_count cx + 1)\<rparr>) w;
       (reserve, w) \<leftarrow> (if cx_profile cx then profiled_cb x c msg w else call_cb x c msg w);
       if reserve = 0 then skynet_free (msg_data msg) w else Some w } }"

partial_function (option) skynet_context_dispatchall :: "ext \<Rightarrow> addr \<Rightarrow> addr \<Rightarrow> world \<Rightarrow> world option" where
  "skynet_context_dispatchall x c queue w =
     (case mq_store w queue of None \<Rightarrow> None | Some q \<Rightarrow>
      (case skynet_mq_pop q of None \<Rightarrow> None | Some (m, q') \<Rightarrow>
       (case m of
          None \<Rightarrow> Some (mq_write queue q' w)
        | Some msg \<Rightarrow>
            (case dispatch_message x c msg (mq_write queue q' w) of None \<Rightarrow> None
             | Some w' \<Rightarrow> skynet_context_dispatchall x c queue w'))))"

declare skynet_context_dispatchall.simps [code]

text \<open>The body of the loop of \<open>skynet_context_message_dispatch\<close> for one message.\<close>

definition dispatch_one ::
  "ext \<Rightarrow> addr \<Rightarrow> addr \<Rightarrow> u32 \<Rightarrow> skynet_message \<Rightarrow> skynet_monitor \<Rightarrow> world \<Rightarrow> (skynet_monitor \<times> world) option" where
  "dispatch_one x c queue handle msg sm w = do {
     q \<leftarrow> mq_store w queue;
     let (overload, q') = skynet_mq_overload q;
     let w = mq_write queue q' w;
     w \<leftarrow> (if overload \<noteq> 0
            then skynet_error x (Some c) (''May overload, message queue length = '' @ fmt_d overload) w
            else Some w);
     let sm = skynet_monitor_trigger (msg_source msg) handle sm;
     cx \<leftarrow> w_ctxs w c;
     w \<leftarrow> (if cx_cb cx = None then skynet_free (msg_data msg) w else dispatch_message x c msg w);
     Some (skynet_monitor_trigger 0 0 sm, w) }"

text \<open>The loop with counter \<open>i\<close> and bound \<open>n\<close>; it reports whether the queue ran empty.\<close>

function dispatch_loop ::
  "ext \<Rightarrow> addr \<Rightarrow> addr \<Rightarrow> u32 \<Rightarrow> int \<Rightarrow> int \<Rightarrow> int \<Rightarrow> skynet_monitor \<Rightarrow> world \<Rightarrow>
   (bool \<times> skynet_monitor \<times> world) option" where
  "dispatch_loop x c queue handle weight i n sm w =
     (if 0 \<le> i \<and> i < n then do {
        q \<leftarrow> mq_store w queue;
        (m, q') \<leftarrow> skynet_mq_pop q;
        let w = mq_write queue q' w;
        case m of
          None \<Rightarrow> Some (True, sm, w)
        | Some msg \<Rightarrow> do {
            let n = (if i = 0 \<and> weight \<ge> 0 then drop_bit (nat weight) (skynet_mq_length q') else n);
            (sm, w) \<leftarrow> dispatch_one x c queue handle msg sm w;
            dispatch_loop x c queue handle weight (i + 1) n sm w } }
      else Some (False, sm, w))"
  by pat_completeness auto
termination
  by (relation "inv_image (less_than <*lex*> less_than)
        (\<lambda>(x, c, queue, handle, weight, i, n, sm, w). (if i = 0 then 1 else 0, nat (n - i)))") auto

declare dispatch_loop.simps [simp del]

definition release_ctx :: "ext \<Rightarrow> addr \<Rightarrow> world \<Rightarrow> world option" where
  "release_ctx x c w = do { (_, w) \<leftarrow> skynet_context_release x c w; Some w }"

definition skynet_context_message_dispatch ::
  "ext \<Rightarrow> skynet_monitor \<Rightarrow> addr option \<Rightarrow> int \<Rightarrow> world \<Rightarrow> (addr option \<times> skynet_monitor \<times> world) option" where
  "skynet_context_message_dispatch x sm q weight w = do {
     (q, w) \<leftarrow> (case q of Some a \<Rightarrow> Some (Some a, w) | None \<Rightarrow> skynet_globalmq_pop w);
     case q of None \<Rightarrow> Some (None, sm, w) | Some queue \<Rightarrow> do {
       mq \<leftarrow> mq_store w queue;
       let handle = skynet_mq_handle mq;
       (r, w) \<leftarrow> skynet_handle_grab handle w;
       case r of
         None \<Rightarrow> do {
           w \<leftarrow> skynet_mq_release (drop_message x handle) queue w;
           (nq, w) \<leftarrow> skynet_globalmq_pop w;
           Some (nq, sm, w) }
       | Some c \<Rightarrow> do {
           (empty, sm, w) \<leftarrow> dispatch_loop x c queue handle weight 0 1 sm w;
           if empty then do {
             w \<leftarrow> release_ctx x c w;
             (nq, w) \<leftarrow> skynet_globalmq_pop w;
             Some (nq, sm, w) }
           else do {
             cx \<leftarrow> w_ctxs w c;
             if queue \<noteq> cx_queue cx then None
             else do {
               (nq, w) \<leftarrow> skynet_globalmq_pop w;
               case nq of
                 None \<Rightarrow> do { w \<leftarrow> release_ctx x c w; Some (Some queue, sm, w) }
               | Some nq \<Rightarrow> do {
                   w \<leftarrow> skynet_globalmq_push queue w;
                   w \<leftarrow> release_ctx x c w;
                   Some (Some nq, sm, w) } } } } } }"

section \<open>Timers\<close>

definition response_message :: "int \<Rightarrow> skynet_message" where
  "response_message session =
     \<lparr>msg_source = 0, msg_session = session, msg_data = None, msg_sz = msg_sz_of 0 PTYPE_RESPONSE\<rparr>"

fun dispatch_list :: "ext \<Rightarrow> timer_node list \<Rightarrow> world \<Rightarrow> world option" where
  "dispatch_list x [] w = Some w"
| "dispatch_list x (n # ns) w = do {
     (_, w) \<leftarrow> skynet_context_push x (te_handle (tn_event n)) (response_message (te_session (tn_event n))) w;
     dispatch_list x ns w }"

definition skynet_timeout :: "ext \<Rightarrow> u32 \<Rightarrow> int \<Rightarrow> int \<Rightarrow> world \<Rightarrow> (int \<times> world) option" where
  "skynet_timeout x handle time session w =
     (if time \<le> 0 then do {
        (r, w) \<leftarrow> skynet_context_push x handle (response_message session) w;
        if r \<noteq> 0 then Some (-1, w) else Some (session, w) }
      else Some (session, w\<lparr>w_timer := timer_add (w_timer w) \<lparr>te_handle = handle, te_session = session\<rparr> time\<rparr>))"

text \<open>One \<open>timer_update\<close> of the node: the due timers are dispatched before and after the shift.\<close>

definition node_tick :: "ext \<Rightarrow> world \<Rightarrow> world option" where
  "node_tick x w = do {
     let (first, T) = timer_execute [] (w_timer w);
     w \<leftarrow> dispatch_list x first (w\<lparr>w_timer := T\<rparr>);
     T \<leftarrow> timer_shift (w_timer w);
     let (second, T) = timer_execute [] T;
     dispatch_list x second (w\<lparr>w_timer := T\<rparr>) }"

fun node_ticks :: "ext \<Rightarrow> nat \<Rightarrow> world \<Rightarrow> world option" where
  "node_ticks x 0 w = Some w"
| "node_ticks x (Suc n) w = do { w \<leftarrow> node_tick x w; node_ticks x n w }"

text \<open>\<open>skynet_updatetime\<close> with the reading \<open>cp\<close> of \<open>gettime\<close>.\<close>

definition skynet_updatetime :: "ext \<Rightarrow> u64 \<Rightarrow> world \<Rightarrow> world option" where
  "skynet_updatetime x cp w =
     (let point = tm_current_point (w_timer w) in
      if cp < point then do {
        w \<leftarrow> skynet_error x None (''time diff error: change from '' @ fmt_d (sint cp) @ '' to '' @ fmt_d (sint point)) w;
        Some (w\<lparr>w_timer := (w_timer w)\<lparr>tm_current_point := cp\<rparr>\<rparr>) }
      else if cp \<noteq> point then
        let diff = to_u32 (cp - point)
        in node_ticks x (unat diff)
             (w\<lparr>w_timer := (w_timer w)\<lparr>tm_current_point := cp, tm_current := tm_current (w_timer w) + ucast diff\<rparr>\<rparr>)
      else Some w)"

section \<open>What the queue operations leave alone\<close>

text \<open>The queue operations neither read nor write the part of the node that extends the queues.\<close>

lemma globalmq_push_more:
  "skynet_globalmq_push a (st\<lparr>mq_state.more := r\<rparr>) =
     map_option (\<lambda>s. s\<lparr>mq_state.more := r\<rparr>) (skynet_globalmq_push a st)"
  by (simp add: skynet_globalmq_push_def mq_write_def split: option.split bind_split)

lemma mq_push_more:
  "skynet_mq_push a m (st\<lparr>mq_state.more := r\<rparr>) = map_option (\<lambda>s. s\<lparr>mq_state.more := r\<rparr>) (skynet_mq_push a m st)"
  by (simp add: skynet_mq_push_def skynet_globalmq_push_def mq_write_def split: option.split bind_split)

lemma mq_push_keeps_more: "skynet_mq_push a m st = Some st' \<Longrightarrow> mq_state.more st' = mq_state.more st"
  by (auto simp: skynet_mq_push_def skynet_globalmq_push_def mq_write_def split: option.splits bind_splits if_splits)

lemma world_more_eqD:
  assumes "mq_state.more w' = mq_state.more (w :: world)"
  shows "w_ctxs w' = w_ctxs w" "w_handles w' = w_handles w" "w_heap w' = w_heap w" "w_timer w' = w_timer w"
    "w_harbor w' = w_harbor w" "w_remote w' = w_remote w" "w_logger w' = w_logger w" "w_files w' = w_files w"
    "handle_of w' = handle_of w" "w_total w' = w_total w" "w_requests w' = w_requests w" "w_heap_brk w' = w_heap_brk w"
  using assms by (cases w; cases w'; simp add: handle_of_def fun_eq_iff)+

lemma ctx_write_more:
  "ctx_write c cx w = w\<lparr>mq_state.more := mq_state.more (ctx_write c cx w)\<rparr>"
  by (cases w) (simp add: ctx_write_def)

lemma mq_push_ctx_write:
  "skynet_mq_push a m (ctx_write c cx w) = map_option (ctx_write c cx) (skynet_mq_push a m w)"
proof (cases "skynet_mq_push a m w")
  case None
  then show ?thesis
    by (subst ctx_write_more) (simp add: mq_push_more)
next
  case (Some w')
  then have "mq_state.more w' = mq_state.more w"
    by (rule mq_push_keeps_more)
  then have "w'\<lparr>mq_state.more := mq_state.more (ctx_write c cx w)\<rparr> = ctx_write c cx w'"
    by (cases w; cases w') (simp add: ctx_write_def)
  with Some show ?thesis
    by (subst ctx_write_more) (simp add: mq_push_more)
qed

text \<open>A push to a known handle is a push to the queue of its context: the reference the push takes is
  given back, and the context cannot disappear in between.\<close>

lemma context_push_eq:
  assumes look: "handle_lookup (handle_of w) h (w_handles w) = Some (Some c)"
    and c: "w_ctxs w c = Some cx" "cx_ref cx \<noteq> 0"
  shows "skynet_context_push x h m w = map_option (\<lambda>w'. (0, w')) (skynet_mq_push (cx_queue cx) m w)"
proof -
  let ?cx = "cx\<lparr>cx_ref := cx_ref cx + 1\<rparr>"
  have "skynet_handle_grab h w = Some (Some c, ctx_write c ?cx w)"
    by (simp add: skynet_handle_grab_def look skynet_context_grab_def c)
  then have "skynet_context_push x h m w =
      do { w' \<leftarrow> skynet_mq_push (cx_queue cx) m (ctx_write c ?cx w);
           (_, w') \<leftarrow> skynet_context_release x c w'; Some (0, w') }"
    by (simp add: skynet_context_push_def ctx_write_def)
  also have "\<dots> = map_option (\<lambda>w'. (0, w')) (skynet_mq_push (cx_queue cx) m w)"
  proof (cases "skynet_mq_push (cx_queue cx) m w")
    case (Some w')
    then have "w_ctxs w' = w_ctxs w"
      using mq_push_keeps_more world_more_eqD(1) by blast
    then have "ctx_write c cx w' = w'"
      using c by (simp add: ctx_write_def fun_upd_idem)
    then have "skynet_context_release x c (ctx_write c ?cx w') = Some (Some c, w')"
      using c(2) by (simp add: skynet_context_release_def ctx_write_def)
    with Some show ?thesis by (simp add: mq_push_ctx_write)
  qed (simp add: mq_push_ctx_write)
  finally show ?thesis .
qed

lemma context_push_unknown:
  "handle_lookup (handle_of w) h (w_handles w) = Some None \<Longrightarrow> skynet_context_push x h m w = Some (-1, w)"
  by (simp add: skynet_context_push_def skynet_handle_grab_def)

section \<open>The node as a set of mailboxes\<close>

text \<open>The invariant of a node between operations, with \<open>qs\<close> the global list: the tables are well
  formed, every context in the table is alive and holds the table's reference, every context has a
  queue of its own, and a queue that is in the list is marked so.\<close>

definition node_ok :: "world \<Rightarrow> addr list \<Rightarrow> bool" where
  "node_ok w qs \<longleftrightarrow>
     handle_ok (handle_of w) (w_handles w) \<and>
     (\<forall>c \<in> slot_live (w_handles w). \<exists>cx. w_ctxs w c = Some cx \<and> 1 \<le> cx_ref cx) \<and>
     (\<forall>c cx. w_ctxs w c = Some cx \<longrightarrow> (\<exists>q. mq_store w (cx_queue cx) = Some q \<and> mq_release q = 0)) \<and>
     (\<forall>c cx d dx. w_ctxs w c = Some cx \<longrightarrow> w_ctxs w d = Some dx \<longrightarrow> cx_queue cx = cx_queue dx \<longrightarrow> c = d) \<and>
     (\<forall>a q. mq_store w a = Some q \<longrightarrow> mq_ok q \<and> (mq_in_global q \<noteq> MQ_IN_GLOBAL \<longrightarrow> a \<notin> set qs)) \<and>
     gq_rep w qs"

text \<open>The messages waiting for a handle.\<close>

definition mailbox :: "world \<Rightarrow> u32 \<rightharpoonup> skynet_message list" where
  "mailbox w h =
     (case handle_map (handle_of w) (w_handles w) h of
        None \<Rightarrow> None
      | Some c \<Rightarrow> (case w_ctxs w c of
            None \<Rightarrow> None
          | Some cx \<Rightarrow> map_option mq_list (mq_store w (cx_queue cx))))"

lemma node_ok_slots: "node_ok w qs \<Longrightarrow> slots_ok (handle_of w) (w_handles w)"
  by (simp add: node_ok_def handle_ok_def)

lemma mailbox_Some:
  assumes "node_ok w qs" "mailbox w h = Some ms"
  obtains c cx q where "handle_map (handle_of w) (w_handles w) h = Some c" "w_ctxs w c = Some cx" "1 \<le> cx_ref cx"
    "mq_store w (cx_queue cx) = Some q" "mq_list q = ms" "mq_ok q"
proof -
  obtain c cx q where c: "handle_map (handle_of w) (w_handles w) h = Some c" "w_ctxs w c = Some cx"
    "mq_store w (cx_queue cx) = Some q" "mq_list q = ms"
    using assms(2) by (auto simp: mailbox_def split: option.splits)
  moreover have "c \<in> slot_live (w_handles w)"
    using handle_map_Some[OF node_ok_slots[OF assms(1)]] c(1) by blast
  ultimately show ?thesis
    using that[OF c(1,2) _ c(3,4)] assms(1) unfolding node_ok_def by fastforce
qed

lemma mailbox_None:
  assumes "node_ok w qs" "mailbox w h = None"
  shows "handle_map (handle_of w) (w_handles w) h = None"
proof (rule ccontr)
  assume "handle_map (handle_of w) (w_handles w) h \<noteq> None"
  then obtain c where c: "handle_map (handle_of w) (w_handles w) h = Some c" by auto
  then have "c \<in> slot_live (w_handles w)"
    using handle_map_Some[OF node_ok_slots[OF assms(1)]] by blast
  with assms c show False
    unfolding node_ok_def mailbox_def by (fastforce split: option.splits)
qed

text \<open>A push to a queue of the node, seen at the mailboxes.\<close>

lemma mq_push_node:
  assumes ok: "node_ok w qs" and c: "w_ctxs w c = Some cx" "mq_store w (cx_queue cx) = Some q"
    and room: "length (mq_list q) < 2 ^ 29 - 1"
    and map: "handle_map (handle_of w) (w_handles w) h = Some c"
  shows "\<exists>w' qs'. skynet_mq_push (cx_queue cx) m w = Some w' \<and> node_ok w' qs' \<and>
    mq_state.more w' = mq_state.more w \<and> mailbox w' = (mailbox w)(h \<mapsto> mq_list q @ [m])"
proof -
  have q: "mq_ok q" "mq_in_global q = 0 \<longrightarrow> cx_queue cx \<notin> set qs" "mq_in_global q \<noteq> MQ_IN_GLOBAL \<longrightarrow> cx_queue cx \<notin> set qs"
    and rep: "gq_rep w qs"
    using ok c(2) by (auto simp: node_ok_def MQ_IN_GLOBAL_def)
  obtain w' q' where w': "skynet_mq_push (cx_queue cx) m w = Some w'" "mq_store w' (cx_queue cx) = Some q'" "mq_ok q'"
    "mq_list q' = mq_list q @ [m]" "mq_in_global q' = (if mq_in_global q = 0 then MQ_IN_GLOBAL else mq_in_global q)"
    "mq_release q' = mq_release q"
    "gq_rep w' (if mq_in_global q = 0 then qs @ [cx_queue cx] else qs)"
    "\<And>b. b \<noteq> cx_queue cx \<Longrightarrow> mq_core (mq_store w' b) = mq_core (mq_store w b)"
    using mq_push_rep[OF rep c(2) q(1) _ q(2), of m] room by (auto simp: MQ_IN_GLOBAL_def)
  note more = mq_push_keeps_more[OF w'(1)]
  note eqs = world_more_eqD[OF more]
  have other: "\<exists>q1. mq_store w b = Some q1 \<and> mq_list q2 = mq_list q1 \<and> mq_ok q2 = mq_ok q1 \<and>
      mq_release q2 = mq_release q1 \<and> mq_in_global q2 = mq_in_global q1"
    if "b \<noteq> cx_queue cx" "mq_store w' b = Some q2" for b q2
  proof -
    have "mq_core (mq_store w b) = Some (q2\<lparr>mq_next := None\<rparr>)"
      using w'(8)[OF that(1)] that(2) by (simp add: mq_core_def)
    then obtain q1 where "mq_store w b = Some q1" "q1\<lparr>mq_next := None\<rparr> = q2\<lparr>mq_next := None\<rparr>"
      by (auto simp: mq_core_def)
    then show ?thesis using mq_sched_eq[of q1 q2] by auto
  qed
  have fwd: "\<exists>q2. mq_store w' b = Some q2 \<and> mq_list q2 = mq_list q1 \<and> mq_release q2 = mq_release q1"
    if b: "b \<noteq> cx_queue cx" "mq_store w b = Some q1" for b q1
  proof -
    obtain q2 where "mq_store w' b = Some q2"
      using w'(8)[OF b(1)] b(2) by (auto simp: mq_core_def)
    with other[OF b(1)] b(2) show ?thesis by fastforce
  qed
  have "node_ok w' (if mq_in_global q = 0 then qs @ [cx_queue cx] else qs)"
    unfolding node_ok_def eqs
  proof (intro conjI allI impI)
    show "\<exists>q. mq_store w' (cx_queue dx) = Some q \<and> mq_release q = 0" if d: "w_ctxs w d = Some dx" for d dx
    proof -
      obtain q1 where "mq_store w (cx_queue dx) = Some q1" "mq_release q1 = 0"
        using ok d unfolding node_ok_def by blast
      then show ?thesis
        using w'(2,6) c(2) fwd[of "cx_queue dx" q1] by (cases "cx_queue dx = cx_queue cx") auto
    qed
    have placed: "mq_ok q2 \<and> (mq_in_global q2 \<noteq> MQ_IN_GLOBAL \<longrightarrow> a \<notin> set (if mq_in_global q = 0 then qs @ [cx_queue cx] else qs))"
      if st: "mq_store w' a = Some q2" for a q2
    proof (cases "a = cx_queue cx")
      case True
      with st w'(2,3,5) q(3) show ?thesis by (auto split: if_splits)
    next
      case False
      then obtain q1 where "mq_store w a = Some q1" "mq_ok q2 = mq_ok q1" "mq_in_global q2 = mq_in_global q1"
        using other[OF _ st] by auto
      moreover from this have "mq_ok q1 \<and> (mq_in_global q1 \<noteq> MQ_IN_GLOBAL \<longrightarrow> a \<notin> set qs)"
        using ok by (simp add: node_ok_def)
      ultimately show ?thesis using False by simp
    qed
    show "mq_ok q2" if "mq_store w' a = Some q2" for a q2
      using placed[OF that] by simp
    show "a \<notin> set (if mq_in_global q = 0 then qs @ [cx_queue cx] else qs)"
      if "mq_store w' a = Some q2" "mq_in_global q2 \<noteq> MQ_IN_GLOBAL" for a q2
      using placed[OF that(1)] that(2) by simp
  qed (use ok w'(7) in \<open>auto simp: node_ok_def\<close>)
  moreover have "mailbox w' k = ((mailbox w)(h \<mapsto> mq_list q @ [m])) k" for k
  proof (cases "k = h")
    case True
    then show ?thesis
      using map c w'(2,4) by (simp add: mailbox_def eqs)
  next
    case False
    show ?thesis
    proof (cases "mailbox w k")
      case None
      then have "handle_map (handle_of w) (w_handles w) k = None"
        by (rule mailbox_None[OF ok])
      with None False show ?thesis by (simp add: mailbox_def eqs)
    next
      case (Some ms)
      then obtain d dx q1 where d: "handle_map (handle_of w) (w_handles w) k = Some d" "w_ctxs w d = Some dx"
        "mq_store w (cx_queue dx) = Some q1" "mq_list q1 = ms"
        using mailbox_Some[OF ok] by metis
      then have "d \<noteq> c"
        using False map handle_map_Some[OF node_ok_slots[OF ok]] by metis
      then have "cx_queue dx \<noteq> cx_queue cx"
        using ok d(2) c(1) unfolding node_ok_def by metis
      then show ?thesis
        using fwd[OF _ d(3)] d Some False by (auto simp: mailbox_def eqs)
    qed
  qed
  ultimately show ?thesis
    using w'(1) more by blast
qed


text \<open>\<open>skynet_context_push\<close> against the mailboxes.\<close>

lemma context_push_mailbox:
  assumes ok: "node_ok w qs"
  shows "case mailbox w h of
      None \<Rightarrow> skynet_context_push x h m w = Some (-1, w)
    | Some ms \<Rightarrow> length ms < 2 ^ 29 - 1 \<longrightarrow>
        (\<exists>w' qs'. skynet_context_push x h m w = Some (0, w') \<and> node_ok w' qs' \<and>
           mq_state.more w' = mq_state.more w \<and> mailbox w' = (mailbox w)(h \<mapsto> ms @ [m]))"
proof (cases "mailbox w h")
  case None
  then show ?thesis
    using mailbox_None[OF ok] handle_lookup_map[OF node_ok_slots[OF ok], of h]
    by (simp add: context_push_unknown)
next
  case (Some ms)
  then obtain c cx q where c: "handle_map (handle_of w) (w_handles w) h = Some c" "w_ctxs w c = Some cx"
    "1 \<le> cx_ref cx" "mq_store w (cx_queue cx) = Some q" "mq_list q = ms"
    using mailbox_Some[OF ok] by metis
  have "handle_lookup (handle_of w) h (w_handles w) = Some (Some c)"
    using handle_lookup_map[OF node_ok_slots[OF ok], of h] c(1) by simp
  then have push: "skynet_context_push x h m w = map_option (\<lambda>w'. (0, w')) (skynet_mq_push (cx_queue cx) m w)"
    using context_push_eq[of w h c cx x m] c(2,3) by simp
  have "length ms < 2 ^ 29 - 1 \<Longrightarrow> \<exists>w' qs'. skynet_mq_push (cx_queue cx) m w = Some w' \<and> node_ok w' qs' \<and>
      mq_state.more w' = mq_state.more w \<and> mailbox w' = (mailbox w)(h \<mapsto> ms @ [m])"
    using mq_push_node[OF ok c(2,4) _ c(1), of m] c(5) by simp
  with Some push show ?thesis by fastforce
qed

section \<open>Sending\<close>

text \<open>The type of a message travels in the high byte of its size, so a size is too large when this
  byte is not free.\<close>

lemma too_large_iff: "too_large sz \<longleftrightarrow> take_bit 56 sz \<noteq> sz"
proof -
  have "MESSAGE_TYPE_MASK = mask 56"
    by (simp add: MESSAGE_TYPE_MASK_def mask_eq_exp_minus_1 drop_bit_eq_div)
  then show ?thesis by (simp add: too_large_def take_bit_eq_mask)
qed

lemma plain_type:
  assumes "0 \<le> t" "t < 256"
  shows "t AND PTYPE_TAG_DONTCOPY = 0" "t AND PTYPE_TAG_ALLOCSESSION = 0" "t AND 0xff = t"
    "(t OR PTYPE_TAG_DONTCOPY) AND PTYPE_TAG_DONTCOPY \<noteq> 0" "(t OR PTYPE_TAG_DONTCOPY) AND PTYPE_TAG_ALLOCSESSION = 0"
    "(t OR PTYPE_TAG_DONTCOPY) AND 0xff = t"
proof -
  have t8: "take_bit 8 t = t"
    using assms by (simp add: take_bit_int_eq_self)
  then have t: "bit t n \<Longrightarrow> n < 8" for n
    by (metis bit_take_bit_iff)
  then have nt: "\<not> bit t 16" "\<not> bit t 17" by fastforce+
  have d: "PTYPE_TAG_DONTCOPY = push_bit 16 1" "PTYPE_TAG_ALLOCSESSION = push_bit 17 1" "(0xff :: int) = mask 8"
    by (simp_all add: PTYPE_TAG_DONTCOPY_def PTYPE_TAG_ALLOCSESSION_def mask_eq_exp_minus_1)
  have b: "bit (65536 :: int) n \<longleftrightarrow> n = 16" "bit (131072 :: int) n \<longleftrightarrow> n = 17" for n
    using bit_exp_iff[of 16 n, where 'a = int] bit_exp_iff[of 17 n, where 'a = int] by simp_all
  show "t AND PTYPE_TAG_DONTCOPY = 0" "t AND PTYPE_TAG_ALLOCSESSION = 0" "t AND 0xff = t"
    "(t OR PTYPE_TAG_DONTCOPY) AND PTYPE_TAG_ALLOCSESSION = 0" "(t OR PTYPE_TAG_DONTCOPY) AND 0xff = t"
    unfolding d by (auto intro!: bit_eqI simp: bit_simps b nt dest: t)
  have "bit ((t OR PTYPE_TAG_DONTCOPY) AND PTYPE_TAG_DONTCOPY) 16"
    unfolding d by (simp add: bit_simps b)
  then show "(t OR PTYPE_TAG_DONTCOPY) AND PTYPE_TAG_DONTCOPY \<noteq> 0" by auto
qed

lemma type_in_size:
  fixes sz :: u64
  assumes "\<not> too_large sz" "0 \<le> t" "t < 256"
  shows "drop_bit MESSAGE_TYPE_SHIFT (sz OR push_bit MESSAGE_TYPE_SHIFT (word_of_int t)) = word_of_int t"
    "(sz OR push_bit MESSAGE_TYPE_SHIFT (word_of_int t)) AND MESSAGE_TYPE_MASK = sz"
proof -
  have sz: "bit sz n \<Longrightarrow> n < 56" for n
    using assms(1) by (metis bit_take_bit_iff too_large_iff)
  have "take_bit 8 t = t"
    using assms by (simp add: take_bit_int_eq_self)
  then have t: "bit t n \<Longrightarrow> n < 8" for n
    by (metis bit_take_bit_iff)
  show "drop_bit MESSAGE_TYPE_SHIFT (sz OR push_bit MESSAGE_TYPE_SHIFT (word_of_int t)) = word_of_int t"
    by (rule bit_eqI) (auto simp: bit_simps MESSAGE_TYPE_SHIFT_def dest: sz t)
  have m: "MESSAGE_TYPE_MASK = mask 56"
    by (simp add: MESSAGE_TYPE_MASK_def mask_eq_exp_minus_1 drop_bit_eq_div)
  show "(sz OR push_bit MESSAGE_TYPE_SHIFT (word_of_int t)) AND MESSAGE_TYPE_MASK = sz"
    by (intro bit_eqI) (auto simp: m bit_simps MESSAGE_TYPE_SHIFT_def dest: sz t)
qed

text \<open>Changing the heap only leaves the node as it was.\<close>

lemma handle_of_heap [simp]:
  "handle_of (w\<lparr>w_heap := hp\<rparr>) = handle_of w" "handle_of (w\<lparr>w_heap_brk := b\<rparr>) = handle_of w"
  by (simp_all add: handle_of_def fun_eq_iff)

lemma node_ok_heap [simp]:
  "node_ok (w\<lparr>w_heap := hp\<rparr>) qs = node_ok w qs" "node_ok (w\<lparr>w_heap_brk := b\<rparr>) qs = node_ok w qs"
  by (simp_all add: node_ok_def gq_rep_def)

lemma mailbox_heap [simp]:
  "mailbox (w\<lparr>w_heap := hp\<rparr>) = mailbox w" "mailbox (w\<lparr>w_heap_brk := b\<rparr>) = mailbox w"
  by (auto simp: mailbox_def fun_eq_iff split: option.split)

definition heap_ok :: "world \<Rightarrow> bool" where
  "heap_ok w \<longleftrightarrow> (\<forall>a \<ge> w_heap_brk w. w_heap w a = None)"

abbreviation local_dest :: "u32 \<Rightarrow> world \<Rightarrow> bool" where
  "local_dest h w \<equiv> h \<noteq> 0 \<and> skynet_harbor_message_isremote h w = Some False"

definition message_of :: "u32 \<Rightarrow> int \<Rightarrow> int \<Rightarrow> addr option \<Rightarrow> u64 \<Rightarrow> skynet_message" where
  "message_of source session type data sz =
     \<lparr>msg_source = source, msg_session = session, msg_data = data,
      msg_sz = sz OR push_bit MESSAGE_TYPE_SHIFT (word_of_int type)\<rparr>"

text \<open>A send to a local handle, once the arguments are filtered.\<close>

lemma send_local:
  assumes "\<not> too_large sz" "source \<noteq> 0" "local_dest h w"
    "filter_args x ctx type session data sz w = Some (session', data', sz', w1)" "w_harbor w1 = w_harbor w"
  shows "skynet_send x ctx source h type session data sz w = do {
     (r, w2) \<leftarrow> skynet_context_push x h
       \<lparr>msg_source = source, msg_session = session', msg_data = data', msg_sz = sz'\<rparr> w1;
     if r \<noteq> 0 then do { w3 \<leftarrow> skynet_free data' w2; Some (-1, w3) } else Some (session', w2) }"
proof -
  have "skynet_harbor_message_isremote h w1 = Some False"
    using assms(3,5) by (auto simp: skynet_harbor_message_isremote_def split: if_splits)
  with assms show ?thesis by (simp add: skynet_send_def)
qed

lemma filter_copy:
  assumes "0 \<le> type" "type < 256" "unat sz \<le> length bs"
  shows "filter_args x ctx type session (Buf bs) sz w =
    Some (session, Some (w_heap_brk w), sz OR push_bit MESSAGE_TYPE_SHIFT (word_of_int type),
      w\<lparr>w_heap := (w_heap w)(w_heap_brk w \<mapsto> Bytes (take (unat sz) bs @ [0])), w_heap_brk := Suc (w_heap_brk w)\<rparr>)"
  using assms by (simp add: filter_args_def plain_type copy_data_def skynet_malloc_def)

lemma filter_owned:
  assumes "0 \<le> type" "type < 256" "data = NoData \<or> data = Blk a"
  shows "filter_args x ctx (type OR PTYPE_TAG_DONTCOPY) session data sz w =
    Some (session, (case data of Blk a \<Rightarrow> Some a | _ \<Rightarrow> None),
      sz OR push_bit MESSAGE_TYPE_SHIFT (word_of_int type), w)"
  using assms by (auto simp: filter_args_def plain_type own_block_def)

text \<open>Sending a block without copying to a service that is there: nothing but its mailbox changes.\<close>

lemma send_block:
  assumes "node_ok w qs" "\<not> too_large sz" "source \<noteq> 0" "local_dest h w" "0 \<le> type" "type < 256"
    "mailbox w h = Some ms" "length ms < 2 ^ 29 - 1"
  shows "\<exists>w' qs'. skynet_send x ctx source h (type OR PTYPE_TAG_DONTCOPY) session (Blk a) sz w = Some (session, w') \<and>
    node_ok w' qs' \<and> mq_state.more w' = mq_state.more w \<and>
    mailbox w' = (mailbox w)(h \<mapsto> ms @ [message_of source session type (Some a) sz])"
proof -
  note send = send_local[OF assms(2-4) filter_owned[OF assms(5,6), of "Blk a" a], simplified, folded message_of_def]
  obtain w' qs' where "skynet_context_push x h (message_of source session type (Some a) sz) w = Some (0, w')"
    "node_ok w' qs'" "mq_state.more w' = mq_state.more w"
    "mailbox w' = (mailbox w)(h \<mapsto> ms @ [message_of source session type (Some a) sz])"
    using context_push_mailbox[OF assms(1), where h = h and x = x and m = "message_of source session type (Some a) sz"] assms(7,8) by auto
  then show ?thesis by (auto simp: send)
qed

lemma isremote_cong:
  "w_harbor w' = w_harbor w \<Longrightarrow> skynet_harbor_message_isremote h w' = skynet_harbor_message_isremote h w"
  by (simp add: skynet_harbor_message_isremote_def)

section \<open>Properties\<close>

text \<open>C24. Sending a copy: the bytes are copied into a fresh block with a terminating zero, and the message
  (source, session, type in the high byte, block) is appended to the mailbox of the destination; an
  unknown destination gives -1, and the copy is freed again, so that the heap is as before. Other
  mailboxes do not change.\<close>

theorem send_copies:
  assumes "node_ok w qs" "heap_ok w" "\<not> too_large sz" "source \<noteq> 0" "local_dest h w"
    "0 \<le> type" "type < 256" "unat sz \<le> length bs"
  shows "case mailbox w h of
      None \<Rightarrow> (\<exists>w'. skynet_send x ctx source h type session (Buf bs) sz w = Some (-1, w') \<and>
        w_heap w' = w_heap w \<and> mailbox w' = mailbox w \<and> node_ok w' qs)
    | Some ms \<Rightarrow> length ms < 2 ^ 29 - 1 \<longrightarrow>
        (\<exists>w' qs'. skynet_send x ctx source h type session (Buf bs) sz w = Some (session, w') \<and> node_ok w' qs' \<and>
           w_heap w' = (w_heap w)(w_heap_brk w \<mapsto> Bytes (take (unat sz) bs @ [0])) \<and>
           mailbox w' = (mailbox w)(h \<mapsto> ms @ [message_of source session type (Some (w_heap_brk w)) sz]))"
proof -
  define w1 where "w1 = w\<lparr>w_heap := (w_heap w)(w_heap_brk w \<mapsto> Bytes (take (unat sz) bs @ [0])),
    w_heap_brk := Suc (w_heap_brk w)\<rparr>"
  note send = send_local[OF assms(3-5) filter_copy[OF assms(6-8)], folded w1_def message_of_def]
  have h: "w_harbor w1 = w_harbor w" "node_ok w1 qs" "mailbox w1 = mailbox w"
    "(w_heap w)(w_heap_brk w := None) = w_heap w"
    using assms(1,2) by (simp_all add: w1_def heap_ok_def fun_upd_idem)
  note push = context_push_mailbox[OF h(2), where h = h and x = x]
  show ?thesis
  proof (cases "mailbox w h")
    case None
    then show ?thesis
      using push h assms(1) send[OF h(1)] by (auto simp: skynet_free_def w1_def)
  next
    case (Some ms)
    show ?thesis
    proof (simp only: Some option.case, intro impI)
      assume "length ms < 2 ^ 29 - 1"
      then obtain w' qs' where w': "skynet_context_push x h (message_of source session type (Some (w_heap_brk w)) sz) w1 = Some (0, w')"
        "node_ok w' qs'" "mq_state.more w' = mq_state.more w1"
        "mailbox w' = (mailbox w)(h \<mapsto> ms @ [message_of source session type (Some (w_heap_brk w)) sz])"
        using push[of "message_of source session type (Some (w_heap_brk w)) sz"] Some h(3) by auto
      moreover have "w_heap w' = (w_heap w)(w_heap_brk w \<mapsto> Bytes (take (unat sz) bs @ [0]))"
        using world_more_eqD(3)[OF w'(3)] by (simp add: w1_def)
      ultimately show "\<exists>w' qs'. skynet_send x ctx source h type session (Buf bs) sz w = Some (session, w') \<and> node_ok w' qs' \<and>
           w_heap w' = (w_heap w)(w_heap_brk w \<mapsto> Bytes (take (unat sz) bs @ [0])) \<and>
           mailbox w' = (mailbox w)(h \<mapsto> ms @ [message_of source session type (Some (w_heap_brk w)) sz])"
        using send[OF h(1)] by auto
    qed
  qed
qed

text \<open>A small node for the examples: one service with handle 1 and an empty queue.\<close>

definition demo_ctx :: skynet_context where
  "demo_ctx = (new_context 0 0 False)\<lparr>cx_handle := 1, cx_queue := 0, cx_ref := 1, cx_init := True\<rparr>"

definition demo_node :: world where
  "demo_node = \<lparr>gq_head = None, gq_tail = None,
     mq_store = [0 \<mapsto> (new_message_queue 1)\<lparr>mq_in_global := 0\<rparr>], mq_brk = 1,
     w_heap = Map.empty, w_heap_brk = 0, w_ctxs = [0 \<mapsto> demo_ctx], w_ctx_brk = 1,
     w_handles = (skynet_handle_init 0)\<lparr>hs_slot := [None, Some 0, None, None], hs_handle_index := 2\<rparr>,
     w_timer = skynet_timer_init 0 0 0, w_remote = None, w_harbor = 0, w_env = Map.empty,
     w_modules = [\<lparr>md_name = ''demo'', md_module = 0, md_create = None, md_init = Some 0, md_release = None,
       md_signal = None\<rparr>], w_module_path = [], w_files = Map.empty, w_file_brk = 0, w_total = 1, w_init = True,
     w_monitor_exit = 0, w_profile = False, w_logger = 0, w_current = 0, w_reads = 0,
     w_requests = []\<rparr>"

text \<open>Services and an operating system that do nothing.\<close>

definition demo_ext :: ext where
  "demo_ext = \<lparr>x_dlopen = (\<lambda>_. None), x_dlsym = (\<lambda>_ _. None), x_create = (\<lambda>_ w. Some (None, w)),
     x_init = (\<lambda>_ _ _ _ w. Some (0, w)), x_release = (\<lambda>_ _ w. Some w), x_signal = (\<lambda>_ _ _ w. Some w),
     x_cb = (\<lambda>_ _ _ _ _ _ _ _ w. Some (0, w)), x_fopen = (\<lambda>_. True), x_ctime = (\<lambda>_. []),
     x_raw = (\<lambda>_. []), x_thread_clock = (\<lambda>_. (0, 0)),
     x_socket = (\<lambda>_ _. 0)\<rparr>"

lemma demo_slots: "slots_ok (handle_of demo_node) (w_handles demo_node)"
proof -
  have "\<forall>i<2 ^ 2. \<forall>c. hs_slot (w_handles demo_node) ! i = Some c \<longrightarrow> unat (handle_of demo_node c) mod 2 ^ 2 = i"
    by (simp add: all_less_four demo_node_def handle_of_def demo_ctx_def)
  then show ?thesis
    unfolding slots_ok_def slot_live_def
    by (intro conjI exI[of _ 2])
       (simp_all add: demo_node_def handle_of_def demo_ctx_def skynet_handle_init_def HANDLE_MASK_def
          HANDLE_REMOTE_SHIFT_def DEFAULT_SLOT_SIZE_def)
qed

lemma demo_fields:
  "mq_store demo_node = [0 \<mapsto> (new_message_queue 1)\<lparr>mq_in_global := 0\<rparr>]" "w_ctxs demo_node = [0 \<mapsto> demo_ctx]"
  "gq_head demo_node = None" "gq_tail demo_node = None" "slot_live (w_handles demo_node) = {0}"
  by (auto simp: demo_node_def slot_live_def)

lemma demo_node_ok: "node_ok demo_node []"
proof -
  have "names_ok (w_handles demo_node)"
    by (simp add: demo_node_def names_ok_def hs_names_def skynet_handle_init_def MAX_SLOT_SIZE_def)
  moreover have "gq_rep demo_node []"
    by (simp add: gq_rep_def demo_fields new_message_queue_def)
  moreover have "mq_release (new_message_queue 1) = 0"
    by (simp add: new_message_queue_def)
  ultimately show ?thesis
    using demo_slots mq_ok_new[of 1]
    by (auto simp: node_ok_def handle_ok_def demo_fields demo_ctx_def split: if_splits)
qed

lemma demo_handle_map: "handle_map (handle_of demo_node) (w_handles demo_node) h = (if h = 1 then Some 0 else None)"
  using handle_map_Some[OF demo_slots, of h 0] handle_map_None[OF demo_slots, of h]
  by (auto simp: slot_live_def demo_node_def handle_of_def demo_ctx_def)

lemma demo_mailbox: "mailbox demo_node h = (if h = 1 then Some [] else None)"
  by (simp add: mailbox_def demo_handle_map) (simp add: demo_node_def demo_ctx_def mq_list_new)

lemma demo_misc: "heap_ok demo_node" "w_heap demo_node = Map.empty" "w_heap_brk demo_node = 0"
  "local_dest 1 demo_node"
  by (simp_all add: heap_ok_def demo_node_def skynet_harbor_message_isremote_def HANDLE_MASK_def)


theorem send_copies_witness:
  "\<exists>w'. skynet_send demo_ext None 9 1 PTYPE_TEXT 5 (Buf [104, 105, 33]) 2 demo_node = Some (5, w') \<and>
     w_heap w' 0 = Some (Bytes [104, 105, 0]) \<and>
     mailbox w' 1 = Some [message_of 9 5 PTYPE_TEXT (Some 0) 2]"
proof -
  have "\<not> too_large 2" by (simp add: too_large_iff take_bit_eq_mod)
  then show ?thesis
    using send_copies[OF demo_node_ok demo_misc(1), of 2 9 1 PTYPE_TEXT "[104, 105, 33]" demo_ext None 5] demo_misc(4)
    by (auto simp: demo_mailbox demo_misc(2,3) PTYPE_TEXT_def)
qed

text \<open>Sending a block without copying (\<open>PTYPE_TAG_DONTCOPY\<close>) passes the block on: it is the data of the
  message that arrives, and it is freed exactly once when the destination is unknown.\<close>

theorem send_passes_block:
  assumes "node_ok w qs" "\<not> too_large sz" "source \<noteq> 0" "local_dest h w"
    "0 \<le> type" "type < 256" "w_heap w a \<noteq> None"
  shows "case mailbox w h of
      None \<Rightarrow> (\<exists>w'. skynet_send x ctx source h (type OR PTYPE_TAG_DONTCOPY) session (Blk a) sz w = Some (-1, w') \<and>
        w_heap w' = (w_heap w)(a := None) \<and> mailbox w' = mailbox w)
    | Some ms \<Rightarrow> length ms < 2 ^ 29 - 1 \<longrightarrow>
        (\<exists>w' qs'. skynet_send x ctx source h (type OR PTYPE_TAG_DONTCOPY) session (Blk a) sz w = Some (session, w') \<and>
           node_ok w' qs' \<and> w_heap w' = w_heap w \<and>
           mailbox w' = (mailbox w)(h \<mapsto> ms @ [message_of source session type (Some a) sz]))"
proof (cases "mailbox w h")
  case None
  note send = send_local[OF assms(2-4) filter_owned[OF assms(5,6), of "Blk a" a], simplified, folded message_of_def]
  show ?thesis
    using None context_push_mailbox[OF assms(1), where h = h and x = x] assms(7) by (auto simp: send skynet_free_def)
next
  case (Some ms)
  have "\<exists>w' qs'. skynet_send x ctx source h (type OR PTYPE_TAG_DONTCOPY) session (Blk a) sz w = Some (session, w') \<and>
      node_ok w' qs' \<and> w_heap w' = w_heap w \<and>
      mailbox w' = (mailbox w)(h \<mapsto> ms @ [message_of source session type (Some a) sz])" if "length ms < 2 ^ 29 - 1"
    using send_block[OF assms(1-6) Some that, of x ctx session a] world_more_eqD(3) by blast
  with Some show ?thesis by simp
qed

theorem send_passes_block_witness:
  "\<exists>w'. skynet_send demo_ext None 9 2 (PTYPE_TEXT OR PTYPE_TAG_DONTCOPY) 5 (Blk 7) 2
       (demo_node\<lparr>w_heap := [7 \<mapsto> Bytes [1, 2]]\<rparr>) = Some (-1, w') \<and> w_heap w' 7 = None"
proof -
  let ?w = "demo_node\<lparr>w_heap := [7 \<mapsto> Bytes [1, 2]]\<rparr>"
  have "\<not> too_large 2" "local_dest 2 ?w"
    by (simp_all add: too_large_iff take_bit_eq_mod demo_node_def skynet_harbor_message_isremote_def HANDLE_MASK_def)
  then show ?thesis
    using send_passes_block[of ?w "[]" 2 9 2 PTYPE_TEXT 7 demo_ext None 5] demo_node_ok
    by (auto simp: demo_mailbox PTYPE_TEXT_def)
qed

text \<open>The receiver gets back the type and the size the sender passed: \<open>dispatch_message\<close> takes the type
  from the high byte of \<open>sz\<close> and the size from the rest.\<close>

theorem message_type_roundtrip:
  assumes "\<not> too_large sz" "0 \<le> type" "type < 256"
  shows "uint (drop_bit MESSAGE_TYPE_SHIFT (msg_sz (message_of source session type data sz))) = type \<and>
    msg_sz (message_of source session type data sz) AND MESSAGE_TYPE_MASK = sz"
  using type_in_size[OF assms] assms(2,3)
  by (simp_all add: message_of_def unsigned_of_int take_bit_int_eq_self)

theorem message_type_roundtrip_witness:
  "uint (drop_bit MESSAGE_TYPE_SHIFT (msg_sz (message_of 1 2 7 None 3))) = 7 \<and>
   msg_sz (message_of 1 2 7 None 3) AND MESSAGE_TYPE_MASK = 3"
  using message_type_roundtrip[of 3 7 1 2 None] by (simp add: too_large_iff take_bit_eq_mod)

text \<open>Sessions are positive: each is the successor of the last one, and after the largest \<open>int\<close> (or a
  session id that is not positive) the count starts again at 1.\<close>

theorem newsession_positive:
  assumes "w_ctxs w c = Some cx" "INT_MIN \<le> cx_session_id cx" "cx_session_id cx \<le> INT_MAX"
  shows "\<exists>s w'. skynet_context_newsession c w = Some (s, w') \<and> 0 < s \<and> s \<le> INT_MAX \<and>
    s = (if 0 \<le> cx_session_id cx \<and> cx_session_id cx < INT_MAX then cx_session_id cx + 1 else 1) \<and>
    w' = ctx_write c (cx\<lparr>cx_session_id := s\<rparr>) w"
proof (cases "cx_session_id cx = INT_MAX")
  case True
  have "wrap_int (INT_MAX + 1) = INT_MIN"
    by (simp add: wrap_int_def to_cint_def INT_MAX_def INT_MIN_def)
  then show ?thesis
    using assms(1) True by (simp add: skynet_context_newsession_def INT_MIN_def INT_MAX_def)
next
  case False
  then have "wrap_int (cx_session_id cx + 1) = cx_session_id cx + 1"
    using assms by (intro wrap_int_id) auto
  then show ?thesis
    using assms False by (auto simp: skynet_context_newsession_def INT_MAX_def Let_def)
qed

theorem newsession_positive_witness:
  "\<exists>s w'. skynet_context_newsession 0 (demo_node\<lparr>w_ctxs := [0 \<mapsto> demo_ctx\<lparr>cx_session_id := INT_MAX\<rparr>]\<rparr>) = Some (s, w') \<and> s = 1"
  using newsession_positive[of "demo_node\<lparr>w_ctxs := [0 \<mapsto> demo_ctx\<lparr>cx_session_id := INT_MAX\<rparr>]\<rparr>" 0
      "demo_ctx\<lparr>cx_session_id := INT_MAX\<rparr>"] by (simp add: INT_MAX_def INT_MIN_def)

text \<open>A handle the node gives out is local to it: with the harbor id set by \<open>skynet_handle_init\<close> and
  \<open>skynet_harbor_init\<close>, no registered handle is taken for a remote one, and \<open>skynet_isremote\<close> reads the
  harbor id back from the handle.\<close>

theorem registered_handle_local:
  assumes "0 \<le> harbor" "harbor < 256" "handle_ok (handle_of w) (w_handles w)"
    "hs_harbor (w_handles w) = hs_harbor (skynet_handle_init harbor)" "handle_map (handle_of w) (w_handles w) h = Some c"
  shows "skynet_isremote h (skynet_harbor_init harbor w) = Some (False, harbor)"
proof -
  have ok: "slots_ok (handle_of w) (w_handles w)" using assms(3) by (simp add: handle_ok_def)
  then have "c \<in> slot_live (w_handles w)" "handle_of w c = h"
    using handle_map_Some assms(5) by blast+
  then have hb: "h AND NOT HANDLE_MASK = hs_harbor (w_handles w)"
    using ok by (auto simp: slots_ok_def)
  have "take_bit 8 harbor = harbor"
    using assms(1,2) by (simp add: take_bit_int_eq_self)
  then have bits: "bit harbor n \<Longrightarrow> n < 8" for n
    by (metis bit_take_bit_iff)
  define H :: u32 where "H = push_bit 24 (word_of_int harbor)"
  have m8: "(0xff :: u32) = mask 8" by (simp add: mask_eq_exp_minus_1)
  have "hs_harbor (w_handles w) = H"
    unfolding assms(4) H_def skynet_handle_init_def HANDLE_REMOTE_SHIFT_def m8
    by (simp, intro bit_eqI) (auto simp: bit_simps)
  then have h: "h AND NOT HANDLE_MASK = H" using hb by simp
  have "drop_bit 24 h = drop_bit 24 (h AND NOT HANDLE_MASK)"
    unfolding HANDLE_MASK_mask by (intro bit_eqI) (auto simp: bit_simps dest: bit_imp_le_length)
  also have "\<dots> = word_of_int harbor"
    unfolding h H_def by (intro bit_eqI) (auto simp: bit_simps dest: bits)
  finally have "uint (drop_bit 24 h) = harbor"
    using assms(1,2) by (simp add: unsigned_of_int take_bit_int_eq_self)
  moreover have "H \<noteq> - 1"
  proof
    assume "H = - 1"
    then have "bit H 0" by simp
    then show False by (simp add: H_def bit_simps)
  qed
  ultimately show ?thesis
    using h by (simp add: skynet_isremote_def skynet_harbor_message_isremote_def skynet_harbor_init_def
        HANDLE_REMOTE_SHIFT_def Let_def flip: H_def)
qed

theorem registered_handle_local_witness:
  "skynet_isremote 1 (skynet_harbor_init 0 demo_node) = Some (False, 0)"
proof -
  have "handle_ok (handle_of demo_node) (w_handles demo_node)" "handle_map (handle_of demo_node) (w_handles demo_node) 1 = Some 0"
    using demo_node_ok demo_handle_map by (simp_all add: node_ok_def)
  moreover have "hs_harbor (w_handles demo_node) = hs_harbor (skynet_handle_init 0)"
    by (simp add: demo_node_def)
  ultimately show ?thesis
    using registered_handle_local[of 0 demo_node 1 0] by simp
qed

section \<open>Timers and mailboxes\<close>

lemma handle_of_timer [simp]: "handle_of (w\<lparr>w_timer := T\<rparr>) = handle_of w"
  by (simp add: handle_of_def fun_eq_iff)

lemma node_ok_timer [simp]: "node_ok (w\<lparr>w_timer := T\<rparr>) qs = node_ok w qs"
  by (simp add: node_ok_def gq_rep_def)

lemma mailbox_timer [simp]: "mailbox (w\<lparr>w_timer := T\<rparr>) = mailbox w"
  by (auto simp: mailbox_def fun_eq_iff split: option.split)

text \<open>The responses of a list of expired timers, as the mailboxes see them.\<close>

fun deliver :: "timer_node list \<Rightarrow> (u32 \<rightharpoonup> skynet_message list) \<Rightarrow> u32 \<rightharpoonup> skynet_message list" where
  "deliver [] mb = mb"
| "deliver (n # ns) mb = deliver ns
     (case mb (te_handle (tn_event n)) of
        None \<Rightarrow> mb
      | Some ms \<Rightarrow> mb(te_handle (tn_event n) \<mapsto> ms @ [response_message (te_session (tn_event n))]))"

lemma deliver_append: "deliver (ns @ ms) mb = deliver ms (deliver ns mb)"
  by (induction ns arbitrary: mb) auto

lemma deliver_length:
  "deliver ns mb h = Some ms \<Longrightarrow> \<exists>ms0. mb h = Some ms0 \<and> length ms \<le> length ms0 + length ns"
proof (induction ns arbitrary: mb)
  case (Cons n ns)
  then show ?case by (fastforce split: option.splits if_splits)
qed auto

definition room_for :: "nat \<Rightarrow> world \<Rightarrow> bool" where
  "room_for n w \<longleftrightarrow> (\<forall>h ms. mailbox w h = Some ms \<longrightarrow> length ms + n < 2 ^ 29)"

lemma dispatch_list_ok:
  assumes "node_ok w qs" "room_for (length ns) w"
  shows "\<exists>w' qs'. dispatch_list x ns w = Some w' \<and> node_ok w' qs' \<and> mq_state.more w' = mq_state.more w \<and>
    mailbox w' = deliver ns (mailbox w)"
  using assms
proof (induction ns arbitrary: w qs)
  case Nil
  then show ?case by auto
next
  case (Cons n ns)
  let ?h = "te_handle (tn_event n)" and ?m = "response_message (te_session (tn_event n))"
  note push = context_push_mailbox[OF Cons.prems(1), where h = ?h and x = x and m = ?m]
  show ?case
  proof (cases "mailbox w ?h")
    case None
    moreover have "room_for (length ns) w"
      using Cons.prems(2) by (fastforce simp: room_for_def)
    ultimately show ?thesis
      using push Cons.IH[OF Cons.prems(1)] by simp
  next
    case (Some ms)
    then obtain w1 qs1 where w1: "skynet_context_push x ?h ?m w = Some (0, w1)" "node_ok w1 qs1"
      "mq_state.more w1 = mq_state.more w" "mailbox w1 = (mailbox w)(?h \<mapsto> ms @ [?m])"
      using push Cons.prems(2) by (fastforce simp: room_for_def)
    have "room_for (length ns) w1"
      using Cons.prems(2) Some unfolding room_for_def w1(4) by (fastforce split: if_splits)
    then obtain w' qs' where "dispatch_list x ns w1 = Some w'" "node_ok w' qs'" "mq_state.more w' = mq_state.more w1"
      "mailbox w' = deliver ns (mailbox w1)"
      using Cons.IH[OF w1(2)] by blast
    with w1 Some show ?thesis by auto
  qed
qed

lemma node_tick_ok:
  assumes "node_ok w qs" "wheel_inv (w_timer w)"
    "room_for (length (pend (w_timer w) (tm_time (w_timer w) + 1))) w"
  shows "\<exists>w' qs' T'. timer_update [] [] (w_timer w) = Some (pend (w_timer w) (tm_time (w_timer w) + 1), T') \<and>
    node_tick x w = Some w' \<and> node_ok w' qs' \<and> w_timer w' = T' \<and> wheel_inv T' \<and>
    mailbox w' = deliver (pend (w_timer w) (tm_time (w_timer w) + 1)) (mailbox w)"
proof -
  let ?ns = "pend (w_timer w) (tm_time (w_timer w) + 1)"
  obtain T' where T': "timer_update [] [] (w_timer w) = Some (?ns, T')" "wheel_inv T'"
    using wheel.tick_law[OF assms(2)] by blast
  then obtain T1 where T1: "timer_shift (w_timer w) = Some T1" "timer_execute [] T1 = (?ns, T')"
    using timer_execute_inv[OF assms(2), of "[]"]
    by (auto simp: timer_update_def split: bind_splits prod.splits)
  have "room_for (length ?ns) (w\<lparr>w_timer := T'\<rparr>)" "node_ok (w\<lparr>w_timer := T'\<rparr>) qs"
    using assms(1,3) by (simp_all add: room_for_def)
  then obtain w' qs' where w': "dispatch_list x ?ns (w\<lparr>w_timer := T'\<rparr>) = Some w'" "node_ok w' qs'"
    "mq_state.more w' = mq_state.more (w\<lparr>w_timer := T'\<rparr>)" "mailbox w' = deliver ?ns (mailbox w)"
    using dispatch_list_ok[of "w\<lparr>w_timer := T'\<rparr>" qs ?ns x] by auto
  moreover have "node_tick x w = dispatch_list x ?ns (w\<lparr>w_timer := T'\<rparr>)"
    using timer_execute_inv[OF assms(2), of "[]"] T1 by (simp add: node_tick_def)
  moreover have "w_timer w' = T'"
    using world_more_eqD(4)[OF w'(3)] by simp
  ultimately show ?thesis
    using T' by auto
qed

lemma node_ticks_ok:
  assumes "node_ok w qs" "wheel_inv (w_timer w)"
    "run_ticks (timer_update [] []) n (w_timer w) = Some (outs, T')" "room_for (length (concat outs)) w"
  shows "\<exists>w' qs'. node_ticks x n w = Some w' \<and> node_ok w' qs' \<and> mailbox w' = deliver (concat outs) (mailbox w)"
  using assms
proof (induction n arbitrary: w qs outs)
  case 0
  then show ?case by auto
next
  case (Suc n)
  let ?ns = "pend (w_timer w) (tm_time (w_timer w) + 1)"
  obtain T1 outs1 where o: "timer_update [] [] (w_timer w) = Some (?ns, T1)"
    "run_ticks (timer_update [] []) n T1 = Some (outs1, T')" "outs = ?ns # outs1"
    using wheel.tick_law[OF Suc.prems(2)] Suc.prems(3) by (auto split: bind_splits)
  have "room_for (length ?ns) w"
    using Suc.prems(4) by (fastforce simp: room_for_def o(3))
  then obtain w1 qs1 where w1: "node_tick x w = Some w1" "node_ok w1 qs1" "w_timer w1 = T1" "wheel_inv T1"
    "mailbox w1 = deliver ?ns (mailbox w)"
    using node_tick_ok[OF Suc.prems(1,2), of x] o(1) by auto
  have "room_for (length (concat outs1)) w1"
    using Suc.prems(4) deliver_length[of ?ns "mailbox w"] unfolding room_for_def w1(5) o(3)
    by (fastforce)
  then obtain w' qs' where "node_ticks x n w1 = Some w'" "node_ok w' qs'" "mailbox w' = deliver (concat outs1) (mailbox w1)"
    using Suc.IH[OF w1(2), of outs1] w1(3,4) o(2) by auto
  then show ?case
    using w1(1,5) by (auto simp: o(3) deliver_append)
qed


text \<open>The ticks up to the instant of the only timer.\<close>

lemma single_timer_outs:
  assumes "wheel_inv T" "\<And>e. pend T e = []" "0 < d" "d \<le> INT_MAX" "n \<le> nat d"
  shows "\<exists>outs T'. run_ticks (timer_update [] []) n (timer_add T ev d) = Some (outs, T') \<and>
    concat outs = (if n = nat d then [\<lparr>tn_expire = word_of_int d + tm_time T, tn_event = ev\<rparr>] else [])"
proof -
  let ?t = "word_of_int d + tm_time T" and ?T = "timer_add T ev d"
  let ?node = "\<lparr>tn_expire = ?t, tn_event = ev\<rparr>"
  have a: "wheel_inv ?T" "tm_time ?T = tm_time T" "pend ?T = (\<lambda>_. [])(?t := [?node])"
    using wheel.add_law[OF assms(1,3,4), of ev] assms(2) by (auto simp: fun_eq_iff)
  have n: "n < 2 ^ 32" "nat d < 2 ^ 32"
    using assms(4,5) by (auto simp: INT_MAX_def)
  obtain outs T' where r: "run_ticks (timer_update [] []) n ?T = Some (outs, T')" "length outs = n"
    "\<And>k. k < n \<Longrightarrow> outs ! k = pend ?T (tm_time T + of_nat (Suc k))"
    using wheel.run_ticks_due[OF a(1) n(1)] a(2) by auto
  have outs: "outs ! k = (if Suc k = nat d then [?node] else [])" if "k < n" for k
  proof -
    have "unat (of_nat (Suc k) :: u32) = Suc k" "unat (of_nat (nat d) :: u32) = nat d"
      using that n by (simp_all only: unat_of_nat) (simp_all add: mod_less)
    then have "(of_nat (Suc k) :: u32) = of_nat (nat d) \<longleftrightarrow> Suc k = nat d"
      by (simp only: word_unat_eq_iff)
    moreover have t: "?t = tm_time T + of_nat (nat d)"
      using assms(3) by (simp add: add.commute)
    ultimately have "tm_time T + of_nat (Suc k) = ?t \<longleftrightarrow> Suc k = nat d"
      by (simp only: t add_left_cancel)
    then show ?thesis
      by (simp only: r(3)[OF that] a(3) fun_upd_apply)
  qed
  have empty: "concat xs = []" if "\<forall>x \<in> set xs. x = []" for xs :: "timer_node list list"
    using that by auto
  have "concat outs = (if n = nat d then [?node] else [])"
  proof (cases "n = nat d")
    case True
    then have "0 < n" using assms(3) by simp
    then obtain m where m: "n = Suc m" using gr0_conv_Suc by blast
    have "outs = take m outs @ [outs ! m]"
      using r(2) m by (metis lessI take_Suc_conv_app_nth take_all_iff order_refl)
    moreover have "concat (take m outs) = []"
      using outs m True r(2) by (intro empty) (auto simp: in_set_conv_nth)
    ultimately show ?thesis
      using outs[of m] m True by (metis append_Nil append_Nil2 concat.simps concat_append lessI)
  next
    case False
    then have "concat outs = []"
      using outs assms(5) r(2) by (intro empty) (auto simp: in_set_conv_nth)
    with False show ?thesis by simp
  qed
  with r(1) show ?thesis by blast
qed

end
