(* ===== verification/Commands.thy ===== *)
theory Commands
  imports Server
begin

text \<open>
  The text commands of \<open>skynet_server.c\<close>: one definition per entry of \<open>cmd_funcs\<close> and
  \<open>skynet_command\<close>, which selects them by name. A command returns the string its result pointer
  points to, or nothing for \<open>NULL\<close>; \<open>param\<close> is absent for a null pointer.
\<close>

section \<open>Helpers\<close>

definition set_result :: "addr \<Rightarrow> string \<Rightarrow> world \<Rightarrow> (string option \<times> world) option" where
  "set_result c text w = do {
     cx \<leftarrow> w_ctxs w c;
     Some (Some text, ctx_write c (cx\<lparr>cx_result := text\<rparr>) w) }"

definition skynet_queryname :: "ext \<Rightarrow> addr \<Rightarrow> string \<Rightarrow> world \<Rightarrow> (u32 \<times> world) option" where
  "skynet_queryname x c name w =
     (if take 1 name = '':'' then Some (to_u32 (strtoul 16 (tl name)), w)
      else if take 1 name = ''.'' then do { h \<leftarrow> skynet_handle_findname (w_handles w) (tl name); Some (h, w) }
      else do {
        w \<leftarrow> skynet_error x (Some c) (''Don't support query global name '' @ name) w;
        Some (0, w) })"

definition handle_exit :: "ext \<Rightarrow> addr \<Rightarrow> u32 \<Rightarrow> world \<Rightarrow> world option" where
  "handle_exit x c handle w = do {
     own \<leftarrow> skynet_context_handle c w;
     let target = (if handle = 0 then own else handle);
     w \<leftarrow> skynet_error x (Some c) (if handle = 0 then ''KILL self'' else ''KILL :'' @ fmt_x (unat handle)) w;
     w \<leftarrow> (if w_monitor_exit w \<noteq> 0 then do {
              (_, w) \<leftarrow> skynet_send x (Some c) target (w_monitor_exit w) PTYPE_CLIENT 0 NoData 0 w;
              Some w }
            else Some w);
     (_, w) \<leftarrow> skynet_handle_retire x target w;
     Some w }"

definition tohandle :: "ext \<Rightarrow> addr \<Rightarrow> string \<Rightarrow> world \<Rightarrow> (u32 \<times> world) option" where
  "tohandle x c param w =
     (if take 1 param = '':'' then Some (to_u32 (strtoul 16 (tl param)), w)
      else if take 1 param = ''.'' then do { h \<leftarrow> skynet_handle_findname (w_handles w) (tl param); Some (h, w) }
      else do {
        w \<leftarrow> skynet_error x (Some c) (''Can't convert '' @ param @ '' to handle'') w;
        Some (0, w) })"

text \<open>The prefix \<open>tohandle\<close>, \<open>skynet_handle_grab\<close> of the commands about another service.\<close>

definition grab_target :: "ext \<Rightarrow> addr \<Rightarrow> string \<Rightarrow> world \<Rightarrow> ((u32 \<times> addr) option \<times> world) option" where
  "grab_target x c param w = do {
     (handle, w) \<leftarrow> tohandle x c param w;
     if handle = 0 then Some (None, w)
     else do {
       (r, w) \<leftarrow> skynet_handle_grab handle w;
       Some (map_option (\<lambda>d. (handle, d)) r, w) } }"

section \<open>Commands\<close>

definition cmd_timeout :: "ext \<Rightarrow> addr \<Rightarrow> string option \<Rightarrow> world \<Rightarrow> (string option \<times> world) option" where
  "cmd_timeout x c param w = do {
     p \<leftarrow> param;
     let ti = wrap_int (strtol 10 p);
     (session, w) \<leftarrow> skynet_context_newsession c w;
     own \<leftarrow> skynet_context_handle c w;
     (_, w) \<leftarrow> skynet_timeout x own ti session w;
     set_result c (fmt_d session) w }"

definition cmd_reg :: "ext \<Rightarrow> addr \<Rightarrow> string option \<Rightarrow> world \<Rightarrow> (string option \<times> world) option" where
  "cmd_reg x c param w = do {
     own \<leftarrow> skynet_context_handle c w;
     if param = None \<or> param = Some [] then set_result c ('':'' @ fmt_x (unat own)) w
     else do {
       p \<leftarrow> param;
       if take 1 p = ''.'' then do {
         (r, hs) \<leftarrow> skynet_handle_namehandle own (tl p) (w_handles w);
         Some (r, w\<lparr>w_handles := hs\<rparr>) }
       else do {
         w \<leftarrow> skynet_error x (Some c) (''Can't register global name '' @ p @ '' in C'') w;
         Some (None, w) } } }"

definition cmd_query :: "ext \<Rightarrow> addr \<Rightarrow> string option \<Rightarrow> world \<Rightarrow> (string option \<times> world) option" where
  "cmd_query x c param w = do {
     p \<leftarrow> param;
     if take 1 p = ''.'' then do {
       h \<leftarrow> skynet_handle_findname (w_handles w) (tl p);
       if h \<noteq> 0 then set_result c ('':'' @ fmt_x (unat h)) w else Some (None, w) }
     else Some (None, w) }"

text \<open>\<open>sscanf\<close> leaves the buffers alone when a token is missing, and the code then reads uninitialised
  memory.\<close>

definition cmd_name :: "ext \<Rightarrow> addr \<Rightarrow> string option \<Rightarrow> world \<Rightarrow> (string option \<times> world) option" where
  "cmd_name x c param w = do {
     p \<leftarrow> param;
     let (nm, hd) = scan_2s p;
     handle \<leftarrow> hd;
     name \<leftarrow> nm;
     if take 1 handle \<noteq> '':'' then Some (None, w)
     else
       let handle_id = to_u32 (strtoul 16 (tl handle)) in
       if handle_id = 0 then Some (None, w)
       else if take 1 name = ''.'' then do {
         (r, hs) \<leftarrow> skynet_handle_namehandle handle_id (tl name) (w_handles w);
         Some (r, w\<lparr>w_handles := hs\<rparr>) }
       else do {
         w \<leftarrow> skynet_error x (Some c) (''Can't set global name '' @ name @ '' in C'') w;
         Some (None, w) } }"

definition cmd_exit :: "ext \<Rightarrow> addr \<Rightarrow> string option \<Rightarrow> world \<Rightarrow> (string option \<times> world) option" where
  "cmd_exit x c param w = do { w \<leftarrow> handle_exit x c 0 w; Some (None, w) }"

definition cmd_kill :: "ext \<Rightarrow> addr \<Rightarrow> string option \<Rightarrow> world \<Rightarrow> (string option \<times> world) option" where
  "cmd_kill x c param w = do {
     p \<leftarrow> param;
     (handle, w) \<leftarrow> tohandle x c p w;
     if handle \<noteq> 0 then do { w \<leftarrow> handle_exit x c handle w; Some (None, w) }
     else Some (None, w) }"

definition cmd_launch :: "ext \<Rightarrow> addr \<Rightarrow> string option \<Rightarrow> world \<Rightarrow> (string option \<times> world) option" where
  "cmd_launch x c param w = do {
     p \<leftarrow> param;
     let (md, rest) = strsep [CHR '' '', CHR 0x09, CHR 0x0D, CHR 0x0A] p;
     let args = map_option (\<lambda>r. fst (strsep [CHR 0x0D, CHR 0x0A] r)) rest;
     (inst, w) \<leftarrow> skynet_context_new x md args w;
     case inst of
       None \<Rightarrow> Some (None, w)
     | Some d \<Rightarrow> do { h \<leftarrow> skynet_context_handle d w; set_result c (id_to_hex h) w } }"

definition cmd_getenv :: "ext \<Rightarrow> addr \<Rightarrow> string option \<Rightarrow> world \<Rightarrow> (string option \<times> world) option" where
  "cmd_getenv x c param w = do { p \<leftarrow> param; Some (skynet_getenv p w, w) }"

definition cmd_setenv :: "ext \<Rightarrow> addr \<Rightarrow> string option \<Rightarrow> world \<Rightarrow> (string option \<times> world) option" where
  "cmd_setenv x c param w = do {
     p \<leftarrow> param;
     case dropWhile (\<lambda>ch. ch \<noteq> CHR '' '') p of
       [] \<Rightarrow> Some (None, w)
     | _ # value \<Rightarrow> do {
         w \<leftarrow> skynet_setenv (takeWhile (\<lambda>ch. ch \<noteq> CHR '' '') p) value w;
         Some (None, w) } }"

definition cmd_starttime :: "ext \<Rightarrow> addr \<Rightarrow> string option \<Rightarrow> world \<Rightarrow> (string option \<times> world) option" where
  "cmd_starttime x c param w = set_result c (fmt_u (unat (skynet_starttime (w_timer w)))) w"

definition cmd_abort :: "ext \<Rightarrow> addr \<Rightarrow> string option \<Rightarrow> world \<Rightarrow> (string option \<times> world) option" where
  "cmd_abort x c param w = do { w \<leftarrow> skynet_handle_retireall x w; Some (None, w) }"

definition cmd_monitor :: "ext \<Rightarrow> addr \<Rightarrow> string option \<Rightarrow> world \<Rightarrow> (string option \<times> world) option" where
  "cmd_monitor x c param w =
     (if param = None \<or> param = Some [] then
        if w_monitor_exit w \<noteq> 0 then set_result c ('':'' @ fmt_x (unat (w_monitor_exit w))) w
        else Some (None, w)
      else do {
        p \<leftarrow> param;
        (handle, w) \<leftarrow> tohandle x c p w;
        Some (None, w\<lparr>w_monitor_exit := handle\<rparr>) })"

definition cmd_stat :: "ext \<Rightarrow> addr \<Rightarrow> string option \<Rightarrow> world \<Rightarrow> (string option \<times> world) option" where
  "cmd_stat x c param w = do {
     p \<leftarrow> param;
     cx \<leftarrow> w_ctxs w c;
     if p = ''mqlen'' then do {
       q \<leftarrow> mq_store w (cx_queue cx);
       set_result c (fmt_d (skynet_mq_length q)) w }
     else if p = ''endless'' then
       if cx_endless cx then set_result c ''1'' (ctx_write c (cx\<lparr>cx_endless := False\<rparr>) w)
       else set_result c ''0'' w
     else if p = ''cpu'' then set_result c (fmt_micro (unat (cx_cpu_cost cx))) w
     else if p = ''time'' then
       if cx_profile cx then
         let (t, w) = thread_time x w in set_result c (fmt_micro (unat (t - cx_cpu_start cx))) w
       else set_result c ''0'' w
     else if p = ''message'' then set_result c (fmt_d (cx_message_count cx)) w
     else set_result c [] w }"

definition cmd_logon :: "ext \<Rightarrow> addr \<Rightarrow> string option \<Rightarrow> world \<Rightarrow> (string option \<times> world) option" where
  "cmd_logon x c param w = do {
     p \<leftarrow> param;
     (r, w) \<leftarrow> grab_target x c p w;
     case r of None \<Rightarrow> Some (None, w) | Some (handle, d) \<Rightarrow> do {
       dx \<leftarrow> w_ctxs w d;
       w \<leftarrow> (if cx_logfile dx = None then do {
                (f, w) \<leftarrow> skynet_log_open x c handle w;
                dx \<leftarrow> w_ctxs w d;
                case f of
                  None \<Rightarrow> Some w
                | Some f \<Rightarrow>
                    if cx_logfile dx = None then Some (ctx_write d (dx\<lparr>cx_logfile := Some f\<rparr>) w)
                    else fclose f w }
              else Some w);
       w \<leftarrow> release_ctx x d w;
       Some (None, w) } }"

definition cmd_logoff :: "ext \<Rightarrow> addr \<Rightarrow> string option \<Rightarrow> world \<Rightarrow> (string option \<times> world) option" where
  "cmd_logoff x c param w = do {
     p \<leftarrow> param;
     (r, w) \<leftarrow> grab_target x c p w;
     case r of None \<Rightarrow> Some (None, w) | Some (handle, d) \<Rightarrow> do {
       dx \<leftarrow> w_ctxs w d;
       w \<leftarrow> (case cx_logfile dx of
                None \<Rightarrow> Some w
              | Some f \<Rightarrow> skynet_log_close x c f handle (ctx_write d (dx\<lparr>cx_logfile := None\<rparr>) w));
       w \<leftarrow> release_ctx x d w;
       Some (None, w) } }"

definition cmd_log_svccpu_on :: "ext \<Rightarrow> addr \<Rightarrow> string option \<Rightarrow> world \<Rightarrow> (string option \<times> world) option" where
  "cmd_log_svccpu_on x c param w = do {
     p \<leftarrow> param;
     let (hd, nm) = scan_2s p;
     handle_s \<leftarrow> hd;
     (r, w) \<leftarrow> grab_target x c handle_s w;
     case r of None \<Rightarrow> Some (None, w) | Some (handle, d) \<Rightarrow> do {
       dx \<leftarrow> w_ctxs w d;
       w \<leftarrow> (if cx_logsvccpufile dx = None then do {
                name \<leftarrow> nm;
                (f, w) \<leftarrow> skynet_log_svccpu_open x c handle name w;
                dx \<leftarrow> w_ctxs w d;
                case f of
                  None \<Rightarrow> Some w
                | Some f \<Rightarrow>
                    if cx_logsvccpufile dx = None then Some (ctx_write d (dx\<lparr>cx_logsvccpufile := Some f\<rparr>) w)
                    else fclose f w }
              else Some w);
       w \<leftarrow> release_ctx x d w;
       Some (None, w) } }"

text \<open>The compare-and-swap runs without interference here, so it succeeds; the test around it is
  negated in the source, so the file is closed only if it fails.\<close>

definition cmd_log_svccpu_off :: "ext \<Rightarrow> addr \<Rightarrow> string option \<Rightarrow> world \<Rightarrow> (string option \<times> world) option" where
  "cmd_log_svccpu_off x c param w = do {
     p \<leftarrow> param;
     (r, w) \<leftarrow> grab_target x c p w;
     case r of None \<Rightarrow> Some (None, w) | Some (handle, d) \<Rightarrow> do {
       dx \<leftarrow> w_ctxs w d;
       w \<leftarrow> (case cx_logsvccpufile dx of
                None \<Rightarrow> Some w
              | Some f \<Rightarrow>
                  let cas = (cx_logsvccpufile dx = Some f);
                      w' = (if cas then ctx_write d (dx\<lparr>cx_logsvccpufile := None\<rparr>) w else w)
                  in if \<not> cas then skynet_log_svccpu_close x c f handle w' else Some w');
       w \<leftarrow> release_ctx x d w;
       Some (None, w) } }"

definition cmd_signal :: "ext \<Rightarrow> addr \<Rightarrow> string option \<Rightarrow> world \<Rightarrow> (string option \<times> world) option" where
  "cmd_signal x c param w = do {
     p \<leftarrow> param;
     (r, w) \<leftarrow> grab_target x c p w;
     case r of None \<Rightarrow> Some (None, w) | Some (handle, d) \<Rightarrow> do {
       let sig = (case strchr p (CHR '' '') of None \<Rightarrow> 0 | Some s \<Rightarrow> wrap_int (strtol 0 s));
       dx \<leftarrow> w_ctxs w d;
       w \<leftarrow> skynet_module_instance_signal x (cx_mod dx) (cx_instance dx) sig w;
       w \<leftarrow> release_ctx x d w;
       Some (None, w) } }"

type_synonym command = "ext \<Rightarrow> addr \<Rightarrow> string option \<Rightarrow> world \<Rightarrow> (string option \<times> world) option"

definition cmd_funcs :: "(string \<times> command) list" where
  "cmd_funcs =
     [(''TIMEOUT'', cmd_timeout), (''REG'', cmd_reg), (''QUERY'', cmd_query), (''NAME'', cmd_name),
      (''EXIT'', cmd_exit), (''KILL'', cmd_kill), (''LAUNCH'', cmd_launch), (''GETENV'', cmd_getenv),
      (''SETENV'', cmd_setenv), (''STARTTIME'', cmd_starttime), (''ABORT'', cmd_abort),
      (''MONITOR'', cmd_monitor), (''STAT'', cmd_stat), (''LOGON'', cmd_logon), (''LOGOFF'', cmd_logoff),
      (''SIGNAL'', cmd_signal), (''LOG_SVCCPU_ON'', cmd_log_svccpu_on), (''LOG_SVCCPU_OFF'', cmd_log_svccpu_off)]"

definition skynet_command :: "ext \<Rightarrow> addr \<Rightarrow> string \<Rightarrow> string option \<Rightarrow> world \<Rightarrow> (string option \<times> world) option" where
  "skynet_command x c cmd param w =
     (case map_of cmd_funcs cmd of Some f \<Rightarrow> f x c param w | None \<Rightarrow> Some (None, w))"

section \<open>Node start\<close>

definition THREAD_MAIN :: int where "THREAD_MAIN = 1"

definition skynet_initthread :: "int \<Rightarrow> world \<Rightarrow> world" where
  "skynet_initthread m w = w\<lparr>w_current := word_of_int (- m)\<rparr>"

definition skynet_current_handle :: "world \<Rightarrow> u32" where
  "skynet_current_handle w = (if w_init w then w_current w else word_of_int (- THREAD_MAIN))"

definition skynet_globalinit :: "world \<Rightarrow> world" where
  "skynet_globalinit w = skynet_initthread THREAD_MAIN (w\<lparr>w_total := 0, w_monitor_exit := 0, w_init := True\<rparr>)"

definition skynet_profile_enable :: "int \<Rightarrow> world \<Rightarrow> world" where
  "skynet_profile_enable enable w = w\<lparr>w_profile := (enable \<noteq> 0)\<rparr>"

definition skynet_context_total :: "world \<Rightarrow> int" where
  "skynet_context_total w = w_total w"

section \<open>Handles as text\<close>

lemma digit_of_hex_digit: "d < 16 \<Longrightarrow> digit_of (hex_digit d) = Some d"
  by (auto simp: digit_of_def hex_digit_def Let_def)

lemma read_num_map:
  assumes "\<And>i. i \<in> set is \<Longrightarrow> f i < 16"
  shows "read_num 16 acc (map (\<lambda>i. hex_digit (f i)) is) = foldl (\<lambda>a i. a * 16 + f i) acc is"
  using assms by (induction "is" arbitrary: acc) (simp_all add: digit_of_hex_digit)

lemma nibble: "unat (drop_bit k h AND (0xf :: u32)) = unat h div 2 ^ k mod 16"
  using unat_and_mask[of "drop_bit k h" 4] by (simp add: unat_drop_div)

lemma nibbles_32:
  assumes "n < 2 ^ 32"
  shows "foldl (\<lambda>a i. a * 16 + n div 2 ^ ((7 - i) * 4) mod 16) 0 [0..<8] = (n :: nat)"
proof -
  have "foldl (\<lambda>a i. a * 16 + n div 2 ^ ((7 - i) * 4) mod 16) 0 [0..<j] = n div 16 ^ (8 - j)" if "j \<le> 8" for j
    using that
  proof (induction j)
    case 0
    then show ?case using assms by simp
  next
    case (Suc j)
    have e: "8 - j = Suc (7 - j)" "8 - Suc j = 7 - j" using Suc.prems by simp_all
    have p: "(2 :: nat) ^ ((7 - j) * 4) = 16 ^ (7 - j)"
      by (simp add: mult.commute power_mult)
    have "n div 16 ^ Suc k * 16 + n div 16 ^ k mod 16 = n div 16 ^ k" for k
      by (metis div_mult2_eq div_mult_mod_eq power_Suc2)
    then show ?case
      using Suc by (simp only: upt_Suc_append foldl_append foldl.simps e p le0)
  qed
  from this[of 8] show ?thesis by simp
qed

lemma id_to_hex_parse: "to_u32 (strtoul 16 (tl (id_to_hex h))) = h"
proof -
  let ?s = "map (\<lambda>i. hex_digit (unat (drop_bit ((7 - i) * 4) h AND 0xf))) [0..<8]"
  have lt: "unat (drop_bit k h AND 0xf) < 16" for k
    by (simp add: nibble)
  then have "hex_string ?s"
    by (auto simp: hex_string_def digit_of_hex_digit)
  moreover have "read_num 16 0 ?s = unat h"
    using read_num_map[of "[0..<8]" "\<lambda>i. unat (drop_bit ((7 - i) * 4) h AND 0xf)" 0] nibbles_32[of "unat h"] lt
    by (simp add: nibble)
  ultimately show ?thesis
    using strtoul_hex[of ?s] by (simp add: id_to_hex_def)
qed

section \<open>Commands about another service\<close>

lemma take_drop_append [simp]: "take (Suc 0) ('':'' @ s) = '':''"
  by simp

text \<open>A command that is given the handle of a known service works on this service and gives the
  reference back.\<close>

lemma grab_target_known:
  assumes "handle_lookup (handle_of w) h (w_handles w) = Some (Some d)" "w_ctxs w d = Some dx" "h \<noteq> 0"
    "to_u32 (strtoul 16 s) = h"
  shows "grab_target x c (CHR '':'' # s) w = Some (Some (h, d), ctx_write d (dx\<lparr>cx_ref := cx_ref dx + 1\<rparr>) w)"
  using assms by (simp add: grab_target_def tohandle_def skynet_handle_grab_def skynet_context_grab_def)

lemma release_grabbed:
  assumes "w_ctxs w d = Some dx" "cx_ref dx \<noteq> 1"
  shows "release_ctx x d w = Some (ctx_write d (dx\<lparr>cx_ref := cx_ref dx - 1\<rparr>) w)"
  using assms by (simp add: release_ctx_def skynet_context_release_def)

section \<open>Properties\<close>

text \<open>The text form of a handle is read back: \<open>skynet_queryname\<close> maps what \<open>id_to_hex\<close> (the result of
  LAUNCH) and \<open>:%x\<close> (the result of REG and QUERY) print to the handle itself.\<close>

theorem handle_text_roundtrip:
  "skynet_queryname x c (id_to_hex h) w = Some (h, w) \<and>
   skynet_queryname x c ('':'' @ fmt_x (unat h)) w = Some (h, w)"
proof -
  have "take 1 (id_to_hex h) = '':''" by (simp add: id_to_hex_def)
  then show ?thesis
    by (simp add: skynet_queryname_def id_to_hex_parse strtoul_fmt_x)
qed

text \<open>LOG_SVCCPU_OFF does not close the file it detaches: the test of the compare-and-swap is negated, so
  after the command the service has no log file, but the file that was open still is.\<close>

theorem svccpu_off_leaks:
  assumes "handle_lookup (handle_of w) h (w_handles w) = Some (Some d)" "w_ctxs w d = Some dx" "h \<noteq> 0"
    "1 \<le> cx_ref dx" "cx_logsvccpufile dx = Some f"
  shows "\<exists>w'. cmd_log_svccpu_off x c (Some ('':'' @ fmt_x (unat h))) w = Some (None, w') \<and>
    w_ctxs w' d = Some (dx\<lparr>cx_logsvccpufile := None\<rparr>) \<and> w_files w' = w_files w"
  using grab_target_known[OF assms(1-3) strtoul_fmt_x, of x c] assms(4,5)
  by (simp add: cmd_log_svccpu_off_def release_grabbed[where dx = "dx\<lparr>cx_ref := cx_ref dx + 1, cx_logsvccpufile := None\<rparr>"]
      ctx_write_def)

theorem svccpu_off_leaks_witness:
  "\<exists>w'. cmd_log_svccpu_off demo_ext 0 (Some ('':'' @ fmt_x (unat (1 :: u32))))
       (demo_node\<lparr>w_ctxs := [0 \<mapsto> demo_ctx\<lparr>cx_logsvccpufile := Some 3\<rparr>], w_files := [3 \<mapsto> ''x'']\<rparr>) = Some (None, w') \<and>
     w_files w' 3 \<noteq> None"
proof -
  let ?w = "demo_node\<lparr>w_ctxs := [0 \<mapsto> demo_ctx\<lparr>cx_logsvccpufile := Some 3\<rparr>], w_files := [3 \<mapsto> ''x'']\<rparr>"
  have "handle_of ?w = handle_of demo_node"
    by (auto simp: handle_of_def demo_fields fun_eq_iff)
  then have "handle_lookup (handle_of ?w) 1 (w_handles ?w) = Some (Some 0)"
    using handle_lookup_map[OF demo_slots, of 1] by (simp add: demo_handle_map)
  then show ?thesis
    using svccpu_off_leaks[of ?w 1 0 "demo_ctx\<lparr>cx_logsvccpufile := Some 3\<rparr>" 3 demo_ext 0]
    by (auto simp: demo_ctx_def)
qed

text \<open>LOG_SVCCPU_ON with a service name of more than 85 characters overruns the buffer in which the file
  name is built, whatever the configured directory.\<close>

theorem svccpu_open_overrun:
  assumes "skynet_getenv ''log_svccpu_path'' w = Some dir" "85 < length param"
  shows "skynet_log_svccpu_open x c h param w = None"
proof -
  have "8 \<le> length (fmt_0x 8 n)" for n by (simp add: fmt_0x_def)
  from this[of "unat h"] show ?thesis
    using assms by (simp add: skynet_log_svccpu_open_def Let_def)
qed

theorem svccpu_open_overrun_witness:
  "skynet_log_svccpu_open demo_ext 0 1 (replicate 86 (CHR ''a'')) (demo_node\<lparr>w_env := [''log_svccpu_path'' \<mapsto> ''/var'']\<rparr>) = None"
  using svccpu_open_overrun[of "demo_node\<lparr>w_env := [''log_svccpu_path'' \<mapsto> ''/var'']\<rparr>" "''/var''" "replicate 86 (CHR ''a'')" demo_ext 0 1]
  by (simp add: skynet_getenv_def)

section \<open>Retiring a service\<close>

lemma mark_release_rep:
  assumes "gq_rep st qs" "mq_store st a = Some q" "mq_release q = 0" "mq_in_global q \<noteq> MQ_IN_GLOBAL \<Longrightarrow> a \<notin> set qs"
  shows "\<exists>st' q'. skynet_mq_mark_release a st = Some st' \<and> mq_store st' a = Some q' \<and> mq_release q' = 1 \<and>
    mq_list q' = mq_list q \<and> gq_rep st' (if mq_in_global q = MQ_IN_GLOBAL then qs else qs @ [a]) \<and>
    mq_state.more st' = mq_state.more st"
proof -
  let ?q = "q\<lparr>mq_release := 1\<rparr>"
  let ?st = "mq_write a ?q st"
  have w: "gq_rep ?st qs" "mq_store ?st a = Some ?q"
    using gq_rep_write[OF assms(1,2), of ?q] by (auto simp: mq_write_def)
  show ?thesis
  proof (cases "mq_in_global q = MQ_IN_GLOBAL")
    case True
    then have "skynet_mq_mark_release a st = Some ?st"
      using assms(2,3) by (simp add: skynet_mq_mark_release_def)
    with True w show ?thesis by (auto simp: mq_write_def)
  next
    case False
    obtain st' where st': "skynet_globalmq_push a ?st = Some st'" "gq_rep st' (qs @ [a])" "gq_frame ?st st'"
      using globalmq_push_rep[OF w assms(4)[OF False]] by blast
    obtain q' where q': "mq_store st' a = Some q'" "q'\<lparr>mq_next := None\<rparr> = ?q\<lparr>mq_next := None\<rparr>"
      using gq_frameD[OF st'(3) w(2)] by blast
    have "skynet_mq_mark_release a st = Some st'"
      using assms(2,3) False st'(1) by (simp add: skynet_mq_mark_release_def)
    moreover have "mq_state.more st' = mq_state.more st"
      using st'(3) by (simp add: gq_frame_def mq_write_def)
    ultimately show ?thesis
      using False st'(2) q'(1) mq_sched_eq[OF q'(2)] by auto
  qed
qed

text \<open>The context that a retired handle belonged to, with the references others may still hold.\<close>

lemma retire_locked_node:
  assumes "node_ok w qs" "handle_map (handle_of w) (w_handles w) h = Some c"
  shows "\<exists>s. handle_retire_locked (handle_of w) h (w_handles w) = Some (Some c, s) \<and> handle_ok (handle_of w) s \<and>
    handle_map (handle_of w) s = (handle_map (handle_of w) (w_handles w))(h := None)"
  using handles.retire_law[of "handle_of w" "w_handles w" h] assms by (auto simp: node_ok_def)




end
