(* ===== verification/Scheduler.thy ===== *)
theory Scheduler
  imports SkynetMQ
begin

text \<open>
  Interleavings of the queue operations. The threads of a node share the queues only through the
  operations of \<open>skynet_mq.c\<close>, each of which holds a lock, so a run of the node is a sequence of
  them: a step relation whose steps are the calls that \<open>skynet_context_new\<close>, \<open>skynet_context_push\<close>,
  \<open>delete_context\<close>, \<open>skynet_context_message_dispatch\<close> and \<open>_drop_queue\<close> make, in any order their
  callers allow. The state adds to the queues what the callers know (who holds which queue, which
  queues still have a context) and the messages put into and taken out of each queue.
\<close>

section \<open>Steps\<close>

record sched = mq_state +
  sd_held :: "addr set"
  sd_alive :: "addr set"
  sd_in :: "addr \<Rightarrow> skynet_message list"
  sd_out :: "addr \<Rightarrow> skynet_message list"

definition sched_init :: "sched \<Rightarrow> bool" where
  "sched_init st \<longleftrightarrow> gq_head st = None \<and> gq_tail st = None \<and> mq_store st = Map.empty \<and>
     sd_held st = {} \<and> sd_alive st = {} \<and> sd_in st = (\<lambda>_. []) \<and> sd_out st = (\<lambda>_. [])"

text \<open>A queue is held by the worker that has popped it from the global list, and by the thread that
  launches its service until it is pushed there. A queue is alive until its context is deleted;
  only then may messages be pushed to it.

  \<^item> \<open>create\<close>: \<open>skynet_mq_create\<close> in \<open>skynet_context_new\<close>;
  \<^item> \<open>give\<close>: \<open>skynet_globalmq_push\<close> of a held queue, after a launch or by a worker that takes the next queue;
  \<^item> \<open>grab\<close>: \<open>skynet_globalmq_pop\<close> by a worker;
  \<^item> \<open>send\<close>: \<open>skynet_mq_push\<close> by \<open>skynet_context_push\<close>, which holds a reference to the context;
  \<^item> \<open>take\<close>, \<open>idle\<close>: \<open>skynet_mq_pop\<close> by the worker that holds the queue, with and without a message;
  \<^item> \<open>delete\<close>: \<open>skynet_mq_mark_release\<close> by \<open>delete_context\<close>;
  \<^item> \<open>requeue\<close>: \<open>skynet_mq_release\<close> of a queue whose context is not deleted yet;
  \<^item> \<open>free\<close>: the last round of \<open>_drop_queue\<close>, which finds the queue empty and frees it; the rounds before
    it are \<open>take\<close> steps.\<close>

inductive sched_step :: "sched \<Rightarrow> sched \<Rightarrow> bool" where
  create: "skynet_mq_create h st = (a, st') \<Longrightarrow>
    sched_step st (st'\<lparr>sd_held := insert a (sd_held st'), sd_alive := insert a (sd_alive st'),
      sd_in := (sd_in st')(a := []), sd_out := (sd_out st')(a := [])\<rparr>)"
| give: "a \<in> sd_held st \<Longrightarrow> skynet_globalmq_push a st = Some st' \<Longrightarrow>
    sched_step st (st'\<lparr>sd_held := sd_held st' - {a}\<rparr>)"
| grab: "skynet_globalmq_pop st = Some (Some a, st') \<Longrightarrow>
    sched_step st (st'\<lparr>sd_held := insert a (sd_held st')\<rparr>)"
| send: "a \<in> sd_alive st \<Longrightarrow> mq_store st a = Some q \<Longrightarrow> mq_count q < 2 ^ 29 - 1 \<Longrightarrow>
    skynet_mq_push a m st = Some st' \<Longrightarrow>
    sched_step st (st'\<lparr>sd_in := (sd_in st')(a := sd_in st' a @ [m])\<rparr>)"
| take: "a \<in> sd_held st \<Longrightarrow> mq_store st a = Some q \<Longrightarrow> skynet_mq_pop q = Some (Some m, q') \<Longrightarrow>
    sched_step st ((mq_write a q' st)\<lparr>sd_out := (sd_out st)(a := sd_out st a @ [m])\<rparr>)"
| idle: "a \<in> sd_held st \<Longrightarrow> mq_store st a = Some q \<Longrightarrow> mq_release q = 0 \<Longrightarrow>
    skynet_mq_pop q = Some (None, q') \<Longrightarrow>
    sched_step st ((mq_write a q' st)\<lparr>sd_held := sd_held st - {a}\<rparr>)"
| delete: "a \<in> sd_alive st \<Longrightarrow> skynet_mq_mark_release a st = Some st' \<Longrightarrow>
    sched_step st (st'\<lparr>sd_alive := sd_alive st' - {a}\<rparr>)"
| requeue: "a \<in> sd_held st \<Longrightarrow> mq_store st a = Some q \<Longrightarrow> mq_release q = 0 \<Longrightarrow>
    skynet_mq_release drop_func a st = Some st' \<Longrightarrow>
    sched_step st (st'\<lparr>sd_held := sd_held st' - {a}\<rparr>)"
| free: "a \<in> sd_held st \<Longrightarrow> mq_store st a = Some q \<Longrightarrow> mq_release q \<noteq> 0 \<Longrightarrow>
    skynet_mq_pop q = Some (None, q') \<Longrightarrow> mq_free a (mq_write a q' st) = Some st' \<Longrightarrow>
    sched_step st (st'\<lparr>sd_held := sd_held st' - {a}\<rparr>)"

inductive reachable :: "sched \<Rightarrow> bool" where
  start: "sched_init st \<Longrightarrow> reachable st"
| step: "reachable st \<Longrightarrow> sched_step st st' \<Longrightarrow> reachable st'"

section \<open>Invariant\<close>

text \<open>With \<open>qs\<close> the global list, a queue is either in the list, or held, or idle; an idle queue is empty
  and has a context. \<open>skynet_mq_mark_release\<close> schedules a queue without setting its flag, so the flag
  tells where a queue is only while it has a context. What was put into a queue and not taken out of it is in its ring, in order.\<close>

definition placed :: "sched \<Rightarrow> addr list \<Rightarrow> addr \<Rightarrow> message_queue \<Rightarrow> bool" where
  "placed st qs a q \<longleftrightarrow>
     mq_ok q \<and> (mq_release q = 0 \<longrightarrow> mq_in_global q = (if a \<in> set qs \<union> sd_held st then MQ_IN_GLOBAL else 0)) \<and>
     (a \<notin> set qs \<union> sd_held st \<longrightarrow> mq_list q = [] \<and> mq_release q = 0) \<and>
     (a \<in> sd_alive st \<longleftrightarrow> mq_release q = 0) \<and> sd_in st a = sd_out st a @ mq_list q"

definition sched_inv :: "sched \<Rightarrow> addr list \<Rightarrow> bool" where
  "sched_inv st qs \<longleftrightarrow>
     gq_rep st qs \<and> set qs \<inter> sd_held st = {} \<and> sd_held st \<union> sd_alive st \<subseteq> dom (mq_store st) \<and>
     (\<forall>a q. mq_store st a = Some q \<longrightarrow> placed st qs a q) \<and>
     (\<forall>a. mq_store st a = None \<longrightarrow> sd_in st a = sd_out st a) \<and>
     (\<forall>a \<ge> mq_brk st. mq_store st a = None)"

lemma sched_invD:
  assumes "sched_inv st qs"
  shows "gq_rep st qs" "set qs \<inter> sd_held st = {}" "a \<in> sd_held st \<or> a \<in> sd_alive st \<Longrightarrow> \<exists>q. mq_store st a = Some q"
    "mq_store st a = Some q \<Longrightarrow> placed st qs a q" "mq_store st a = None \<Longrightarrow> sd_in st a = sd_out st a"
  using assms by (auto simp: sched_inv_def)

lemma placed_ext:
  assumes "placed st qs a q" "q'\<lparr>mq_next := None\<rparr> = q\<lparr>mq_next := None\<rparr>"
    "a \<in> set qs' \<union> sd_held st' \<longleftrightarrow> a \<in> set qs \<union> sd_held st" "a \<in> sd_alive st' \<longleftrightarrow> a \<in> sd_alive st"
    "sd_in st' a = sd_in st a" "sd_out st' a = sd_out st a"
  shows "placed st' qs' a q'"
  using assms(1,3-6) mq_sched_eq[OF assms(2)] unfolding placed_def by simp

text \<open>Moving a queue between the global list and the hands of a thread.\<close>

lemma sched_inv_move:
  assumes inv: "sched_inv st qs" and frame: "gq_frame st st1"
    and st': "st' = st1\<lparr>sd_held := H\<rparr>" and rep: "gq_rep st1 qs'"
    and part: "set qs' \<union> H = set qs \<union> sd_held st" "set qs' \<inter> H = {}" "H \<subseteq> dom (mq_store st)"
  shows "sched_inv st' qs'"
proof -
  have more: "sd_alive st1 = sd_alive st" "sd_in st1 = sd_in st" "sd_out st1 = sd_out st" "mq_brk st1 = mq_brk st"
    using frame by (cases st; cases st1; simp add: gq_frame_def)+
  have dom: "mq_store st1 a = None \<longleftrightarrow> mq_store st a = None" for a
    using gq_frame_dom[OF frame] by (metis domIff)
  have prev: "\<exists>q1. mq_store st a = Some q1 \<and> q\<lparr>mq_next := None\<rparr> = q1\<lparr>mq_next := None\<rparr>" if "mq_store st1 a = Some q" for a q
    using gq_frameD[of st1 st a q] frame that by (auto simp: gq_frame_def)
  have "placed st' qs' a q" if "mq_store st' a = Some q" for a q
  proof -
    obtain q1 where q1: "mq_store st a = Some q1" "q\<lparr>mq_next := None\<rparr> = q1\<lparr>mq_next := None\<rparr>"
      using prev[of a q] \<open>mq_store st' a = Some q\<close> by (auto simp: st')
    show ?thesis
      using placed_ext[OF sched_invD(4)[OF inv q1(1)] q1(2), of qs' st'] part(1) by (auto simp: st' more)
  qed
  moreover have "gq_rep st' qs'"
    using rep by (simp add: st' gq_rep_def)
  moreover have "H \<union> sd_alive st \<subseteq> dom (mq_store st1)"
    using gq_frame_dom[OF frame] part(3) inv by (simp add: sched_inv_def)
  ultimately show ?thesis
    using inv part(2) by (simp add: sched_inv_def st' more dom)
qed


lemma sched_more_eqD:
  assumes "mq_state.more st' = mq_state.more (st :: sched)"
  shows "sd_held st' = sd_held st" "sd_alive st' = sd_alive st" "sd_in st' = sd_in st" "sd_out st' = sd_out st"
  using assms by (cases st; cases st'; simp)+

lemma sched_inv_init: "sched_init st \<Longrightarrow> sched_inv st []"
  by (simp add: sched_init_def sched_inv_def gq_rep_def)

lemma sched_inv_give:
  assumes "sched_inv st qs" "a \<in> sd_held st"
  shows "\<exists>st'. skynet_globalmq_push a st = Some st' \<and> sched_inv (st'\<lparr>sd_held := sd_held st' - {a}\<rparr>) (qs @ [a])"
proof -
  obtain q where q: "mq_store st a = Some q" "a \<notin> set qs"
    using sched_invD[OF assms(1)] assms(2) by blast
  obtain st' where st': "skynet_globalmq_push a st = Some st'" "gq_rep st' (qs @ [a])" "gq_frame st st'"
    using globalmq_push_rep[OF sched_invD(1)[OF assms(1)] q] by blast
  have "sd_held st' = sd_held st"
    using st'(3) by (cases st; cases st'; simp add: gq_frame_def)
  moreover have "sched_inv (st'\<lparr>sd_held := sd_held st - {a}\<rparr>) (qs @ [a])"
    by (rule sched_inv_move[OF assms(1) st'(3) refl st'(2)])
       (use assms q in \<open>auto simp: sched_inv_def\<close>)
  ultimately show ?thesis using st'(1) by auto
qed

lemma sched_inv_grab:
  assumes "sched_inv st (a # qs)"
  shows "\<exists>st'. skynet_globalmq_pop st = Some (Some a, st') \<and> sched_inv (st'\<lparr>sd_held := insert a (sd_held st')\<rparr>) qs"
proof -
  have rep: "gq_rep st (a # qs)" using sched_invD(1)[OF assms] .
  obtain st' where st': "skynet_globalmq_pop st = Some (Some a, st')" "gq_rep st' qs" "gq_frame st st'"
    using globalmq_pop_Cons[OF rep] by blast
  have "sd_held st' = sd_held st"
    using st'(3) by (cases st; cases st'; simp add: gq_frame_def)
  moreover have "a \<notin> set qs" "a \<in> dom (mq_store st)"
    using rep by (auto simp: gq_rep_def)
  then have "sched_inv (st'\<lparr>sd_held := insert a (sd_held st)\<rparr>) qs"
    by (intro sched_inv_move[OF assms st'(3) refl st'(2)])
       (use assms in \<open>auto simp: sched_inv_def\<close>)
  ultimately show ?thesis using st'(1) by auto
qed

text \<open>Replacing one queue, with the list and the holders unchanged or the queue let go.\<close>

lemma sched_inv_write:
  assumes inv: "sched_inv st qs" and q: "mq_store st a = Some q" "mq_next q' = mq_next q"
    and st': "st' = (mq_write a q' st)\<lparr>sd_held := H, sd_alive := A, sd_in := I, sd_out := O'\<rparr>"
    and H: "H = sd_held st \<or> H = sd_held st - {a}" and A: "A - {a} = sd_alive st - {a}"
    and IO: "\<And>b. b \<noteq> a \<Longrightarrow> I b = sd_in st b" "\<And>b. b \<noteq> a \<Longrightarrow> O' b = sd_out st b"
    and p: "placed st' qs a q'"
  shows "sched_inv st' qs"
proof -
  have "placed st' qs b q2" if "mq_store st' b = Some q2" for b q2
  proof (cases "b = a")
    case True
    with that p show ?thesis by (simp add: st' mq_write_def)
  next
    case False
    with that have "mq_store st b = Some q2" by (simp add: st' mq_write_def)
    then show ?thesis
      using placed_ext[OF sched_invD(4)[OF inv], of b q2 q2 qs st'] False H A IO by (auto simp: st')
  qed
  moreover have "gq_rep st' qs"
    using gq_rep_write[OF sched_invD(1)[OF inv] q] by (simp add: st' gq_rep_def)
  moreover have "H \<union> A \<subseteq> dom (mq_store st')"
    using inv q H A by (auto simp: sched_inv_def st' mq_write_def)
  moreover have "a < mq_brk st"
    using inv q(1) unfolding sched_inv_def by (metis leI option.distinct(1))
  ultimately show ?thesis
    using inv H q(1) IO by (auto simp: sched_inv_def st' mq_write_def)
qed


lemma sched_inv_create:
  assumes "sched_inv st qs" "skynet_mq_create h st = (a, st')"
  shows "sched_inv (st'\<lparr>sd_held := insert a (sd_held st'), sd_alive := insert a (sd_alive st'),
      sd_in := (sd_in st')(a := []), sd_out := (sd_out st')(a := [])\<rparr>) qs" (is "sched_inv ?s qs")
proof -
  have a: "a = mq_brk st" "st' = (mq_write a (new_message_queue h) st)\<lparr>mq_brk := Suc a\<rparr>"
    using assms(2) by (auto simp: skynet_mq_create_def)
  have free: "mq_store st a = None" "a \<notin> set qs"
    using assms(1) mq_chain_in_store[of "mq_store st" "gq_head st" qs a]
    by (auto simp: sched_inv_def a(1) gq_rep_def)
  have new: "mq_next (new_message_queue h) = None" "mq_release (new_message_queue h) = 0"
    "mq_in_global (new_message_queue h) = MQ_IN_GLOBAL"
    by (simp_all add: new_message_queue_def)
  have "gq_rep ?s qs"
    using sched_invD(1)[OF assms(1)] free new by (auto simp: gq_rep_def a(2) mq_write_def)
  moreover have "placed ?s qs b q" if b: "mq_store ?s b = Some q" for b q
  proof (cases "b = a")
    case True
    with b have "q = new_message_queue h" by (simp add: a(2) mq_write_def)
    with True show ?thesis
      by (simp add: placed_def a(2) mq_write_def new mq_ok_new mq_list_new)
  next
    case False
    with b have "mq_store st b = Some q" by (simp add: a(2) mq_write_def)
    then show ?thesis
      using placed_ext[OF sched_invD(4)[OF assms(1)], of b q q qs ?s] False by (simp add: a(2) mq_write_def)
  qed
  ultimately show ?thesis
    using assms(1) free by (auto simp: sched_inv_def a mq_write_def)
qed

lemma sched_inv_take:
  assumes "sched_inv st qs" "a \<in> sd_held st" "mq_store st a = Some q" "skynet_mq_pop q = Some (Some m, q')"
  shows "sched_inv ((mq_write a q' st)\<lparr>sd_out := (sd_out st)(a := sd_out st a @ [m])\<rparr>) qs"
proof -
  have pl: "placed st qs a q" using sched_invD(4)[OF assms(1,3)] .
  then have "mq_head q \<noteq> mq_tail q"
    using assms(4) mq_pop_empty[of q] by auto
  then have q': "mq_ok q'" "mq_list q = m # mq_list q'" "mq_in_global q' = mq_in_global q" "mq_next q' = mq_next q"
    "mq_release q' = mq_release q"
    using mq_pop_cons[of q] pl assms(4) by (auto simp: placed_def)
  have "placed ((mq_write a q' st)\<lparr>sd_out := (sd_out st)(a := sd_out st a @ [m])\<rparr>) qs a q'"
    using pl q' assms(2) by (simp add: placed_def mq_write_def)
  then show ?thesis
    by (intro sched_inv_write[OF assms(1,3) q'(4), where H = "sd_held st" and A = "sd_alive st" and I = "sd_in st"
          and O' = "(sd_out st)(a := sd_out st a @ [m])"])
       (auto simp: mq_write_def)
qed

lemma pop_None:
  assumes "mq_ok q" "skynet_mq_pop q = Some (None, q')"
  shows "mq_list q = []" "q' = q\<lparr>mq_overload_threshold := MQ_OVERLOAD, mq_in_global := 0\<rparr>"
proof -
  have e: "mq_head q = mq_tail q"
    using mq_pop_cons[OF assms(1)] assms(2) by fastforce
  then show "mq_list q = []" "q' = q\<lparr>mq_overload_threshold := MQ_OVERLOAD, mq_in_global := 0\<rparr>"
    using assms mq_list_eq_Nil[OF assms(1)] mq_pop_empty[of q] by auto
qed

lemma sched_inv_idle:
  assumes "sched_inv st qs" "a \<in> sd_held st" "mq_store st a = Some q" "mq_release q = 0"
    "skynet_mq_pop q = Some (None, q')"
  shows "sched_inv ((mq_write a q' st)\<lparr>sd_held := sd_held st - {a}\<rparr>) qs"
proof -
  have pl: "placed st qs a q" using sched_invD(4)[OF assms(1,3)] .
  then have q': "mq_list q = []" "q' = q\<lparr>mq_overload_threshold := MQ_OVERLOAD, mq_in_global := 0\<rparr>"
    using pop_None[OF _ assms(5)] by (auto simp: placed_def)
  have "a \<notin> set qs" using sched_invD(2)[OF assms(1)] assms(2) by auto
  then have "placed ((mq_write a q' st)\<lparr>sd_held := sd_held st - {a}\<rparr>) qs a q'"
    using pl q' assms(4) by (simp add: placed_def mq_write_def)
  then show ?thesis
    by (intro sched_inv_write[OF assms(1,3), where H = "sd_held st - {a}" and A = "sd_alive st" and I = "sd_in st" and O' = "sd_out st" and q' = q'])
       (auto simp: mq_write_def q')
qed


lemma mq_core_eq_Some:
  "mq_core y = mq_core (Some q) \<Longrightarrow> \<exists>q'. y = Some q' \<and> q\<lparr>mq_next := None\<rparr> = q'\<lparr>mq_next := None\<rparr>"
  by (cases y) (auto simp: mq_core_def)

lemma mq_push_keeps:
  "skynet_mq_push a m st = Some st' \<Longrightarrow> mq_state.more st' = mq_state.more st \<and> mq_brk st' = mq_brk st"
  by (auto simp: skynet_mq_push_def skynet_globalmq_push_def mq_write_def split: option.splits bind_splits if_splits)

text \<open>Changing one queue and perhaps appending it to the global list.\<close>

lemma sched_inv_upd:
  assumes inv: "sched_inv st qs" and q: "mq_store st a = Some q" and q': "mq_store st' a = Some q'"
    and rep: "gq_rep st' qs'" and others: "\<And>b. b \<noteq> a \<Longrightarrow> mq_core (mq_store st' b) = mq_core (mq_store st b)"
    and same: "mq_brk st' = mq_brk st" "sd_held st' = sd_held st" "set qs' - {a} = set qs - {a}" "set qs' \<inter> sd_held st = {}"
    and alive: "sd_alive st' - {a} = sd_alive st - {a}"
    and io: "\<And>b. b \<noteq> a \<Longrightarrow> sd_in st' b = sd_in st b \<and> sd_out st' b = sd_out st b"
    and p: "placed st' qs' a q'"
  shows "sched_inv st' qs'"
proof -
  have none: "mq_store st' b = None \<longleftrightarrow> mq_store st b = None" for b
    using q q' others[of b] by (cases "b = a"; cases "mq_store st b"; cases "mq_store st' b") (auto simp: mq_core_def)
  have "placed st' qs' b q2" if b: "mq_store st' b = Some q2" for b q2
  proof (cases "b = a")
    case True
    with b q' p show ?thesis by simp
  next
    case False
    then obtain q1 where q1: "mq_store st b = Some q1" "q2\<lparr>mq_next := None\<rparr> = q1\<lparr>mq_next := None\<rparr>"
      using mq_core_eq_Some[of "mq_store st b" q2] others[OF False] b by auto
    show ?thesis
      using placed_ext[OF sched_invD(4)[OF inv q1(1)] q1(2), of qs' st'] False same alive io[OF False] by blast
  qed
  moreover have "sd_held st \<union> sd_alive st' \<subseteq> dom (mq_store st')"
  proof
    fix b
    assume b: "b \<in> sd_held st \<union> sd_alive st'"
    then have "b = a \<or> mq_store st b \<noteq> None"
      using inv alive by (auto simp: sched_inv_def)
    then show "b \<in> dom (mq_store st')"
      using q' none[of b] by auto
  qed
  moreover have "sd_in st' b = sd_out st' b" if "mq_store st' b = None" for b
    using that q' io[of b] none[of b] sched_invD(5)[OF inv, of b] by (cases "b = a") auto
  ultimately show ?thesis
    using inv rep same none by (simp add: sched_inv_def)
qed

lemma sched_inv_send:
  assumes "sched_inv st qs" "a \<in> sd_alive st" "mq_store st a = Some q" "mq_count q < 2 ^ 29 - 1"
  shows "\<exists>st'. skynet_mq_push a m st = Some st' \<and>
    sched_inv (st'\<lparr>sd_in := (sd_in st')(a := sd_in st' a @ [m])\<rparr>) (if mq_in_global q = 0 then qs @ [a] else qs)"
proof -
  have pl: "placed st qs a q" using sched_invD(4)[OF assms(1,3)] .
  then have ok: "mq_ok q" and g: "mq_in_global q = 0 \<longleftrightarrow> a \<notin> set qs \<union> sd_held st"
    using assms(2) by (auto simp: placed_def MQ_IN_GLOBAL_def)
  let ?qs = "if mq_in_global q = 0 then qs @ [a] else qs"
  obtain st' q' where st': "skynet_mq_push a m st = Some st'" "mq_store st' a = Some q'" "mq_ok q'"
    "mq_list q' = mq_list q @ [m]" "mq_in_global q' = (if mq_in_global q = 0 then MQ_IN_GLOBAL else mq_in_global q)"
    "mq_release q' = mq_release q" "gq_rep st' ?qs"
    "\<And>b. b \<noteq> a \<Longrightarrow> mq_core (mq_store st' b) = mq_core (mq_store st b)"
    using mq_push_rep[OF sched_invD(1)[OF assms(1)] assms(3) ok assms(4), of m] g by auto
  have more: "sd_held st' = sd_held st" "sd_alive st' = sd_alive st" "sd_in st' = sd_in st" "sd_out st' = sd_out st"
    "mq_brk st' = mq_brk st"
    using mq_push_keeps[OF st'(1)] by (cases st; cases st'; simp)+
  let ?s = "st'\<lparr>sd_in := (sd_in st')(a := sd_in st' a @ [m])\<rparr>"
  have "placed ?s ?qs a q'"
    using pl st' g assms(2) by (auto simp: placed_def more)
  then have "sched_inv ?s ?qs"
    using st'(2,7,8) sched_invD(2)[OF assms(1)] g
    by (intro sched_inv_upd[OF assms(1,3), where q' = q' and qs' = ?qs]) (auto simp: more gq_rep_def)
  with st'(1) show ?thesis by blast
qed

lemma sched_inv_delete:
  assumes "sched_inv st qs" "a \<in> sd_alive st"
  shows "\<exists>st' ext. skynet_mq_mark_release a st = Some st' \<and> sched_inv (st'\<lparr>sd_alive := sd_alive st' - {a}\<rparr>) (qs @ ext)"
proof -
  obtain q where q: "mq_store st a = Some q"
    using sched_invD(3)[OF assms(1)] assms(2) by blast
  have pl: "placed st qs a q" using sched_invD(4)[OF assms(1) q] .
  then have r: "mq_release q = 0" using assms(2) by (simp add: placed_def)
  let ?q = "q\<lparr>mq_release := 1\<rparr>"
  let ?st = "mq_write a ?q st"
  show ?thesis
  proof (cases "a \<in> set qs \<union> sd_held st")
    case True
    then have "skynet_mq_mark_release a st = Some ?st"
      using pl q r by (simp add: skynet_mq_mark_release_def placed_def Let_def)
    moreover have "placed (?st\<lparr>sd_alive := sd_alive st - {a}\<rparr>) qs a ?q"
      using pl True by (simp add: placed_def mq_write_def)
    then have "sched_inv (?st\<lparr>sd_alive := sd_alive st - {a}\<rparr>) qs"
      by (intro sched_inv_write[OF assms(1) q, where q' = ?q and H = "sd_held st" and A = "sd_alive st - {a}" and
            I = "sd_in st" and O' = "sd_out st"]) (auto simp: mq_write_def)
    ultimately show ?thesis by (auto simp: mq_write_def intro!: exI[of _ "[]"])
  next
    case False
    then have g: "mq_in_global q \<noteq> MQ_IN_GLOBAL" and na: "a \<notin> set qs"
      using pl r by (auto simp: placed_def MQ_IN_GLOBAL_def)
    have "gq_rep ?st qs" "mq_store ?st a = Some ?q"
      using gq_rep_write[OF sched_invD(1)[OF assms(1)] q, of ?q] by (auto simp: mq_write_def)
    then obtain st' where st': "skynet_globalmq_push a ?st = Some st'" "gq_rep st' (qs @ [a])" "gq_frame ?st st'"
      using globalmq_push_rep[of ?st qs a ?q] na by blast
    have mark: "skynet_mq_mark_release a st = Some st'"
      using q r g st'(1) by (simp add: skynet_mq_mark_release_def)
    have more: "sd_held st' = sd_held st" "sd_alive st' = sd_alive st" "sd_in st' = sd_in st" "sd_out st' = sd_out st"
      "mq_brk st' = mq_brk st"
      using st'(3) by (cases st; cases st'; simp add: gq_frame_def mq_write_def)+
    obtain q' where q': "mq_store st' a = Some q'" "q'\<lparr>mq_next := None\<rparr> = ?q\<lparr>mq_next := None\<rparr>"
      using gq_frameD[OF st'(3), of a ?q] by (auto simp: mq_write_def)
    let ?s = "st'\<lparr>sd_alive := sd_alive st' - {a}\<rparr>"
    have "mq_core (mq_store st' b) = mq_core (mq_store st b)" if "b \<noteq> a" for b
      using st'(3) that by (simp add: gq_frame_def mq_write_def)
    moreover have "placed ?s (qs @ [a]) a q'"
      using pl mq_sched_eq[OF q'(2)] by (simp add: placed_def more)
    ultimately have "sched_inv ?s (qs @ [a])"
      using q'(1) st'(2) sched_invD(2)[OF assms(1)] False
      by (intro sched_inv_upd[OF assms(1) q, where q' = q' and qs' = "qs @ [a]"]) (auto simp: more gq_rep_def)
    with mark show ?thesis by blast
  qed
qed


lemma sched_inv_requeue:
  assumes "sched_inv st qs" "a \<in> sd_held st" "mq_store st a = Some q" "mq_release q = 0"
  shows "\<exists>st'. skynet_mq_release drop_func a st = Some st' \<and> sched_inv (st'\<lparr>sd_held := sd_held st' - {a}\<rparr>) (qs @ [a])"
  using sched_inv_give[OF assms(1,2)] assms(3,4) by (simp add: skynet_mq_release_def)

lemma sched_inv_free:
  assumes "sched_inv st qs" "a \<in> sd_held st" "mq_store st a = Some q" "mq_release q \<noteq> 0"
    "skynet_mq_pop q = Some (None, q')" "mq_free a (mq_write a q' st) = Some st'"
  shows "sched_inv (st'\<lparr>sd_held := sd_held st' - {a}\<rparr>) qs"
proof -
  have pl: "placed st qs a q" using sched_invD(4)[OF assms(1,3)] .
  then have q': "mq_list q = []" "a \<notin> sd_alive st"
    using pop_None[OF _ assms(5)] assms(4) by (auto simp: placed_def)
  have na: "a \<notin> set qs" using sched_invD(2)[OF assms(1)] assms(2) by auto
  have st': "st' = st\<lparr>mq_store := (mq_store st)(a := None)\<rparr>"
    using assms(6) by (auto simp: mq_free_def mq_write_def split: if_splits)
  let ?s = "st'\<lparr>sd_held := sd_held st' - {a}\<rparr>"
  have "placed ?s qs b q2" if b: "mq_store ?s b = Some q2" for b q2
  proof -
    have "b \<noteq> a" "mq_store st b = Some q2"
      using b by (auto simp: st' split: if_splits)
    then show ?thesis
      using placed_ext[OF sched_invD(4)[OF assms(1)], of b q2 q2 qs ?s] by (simp add: st')
  qed
  moreover have "gq_rep ?s qs"
    using sched_invD(1)[OF assms(1)] na by (auto simp: gq_rep_def st')
  ultimately show ?thesis
    using assms(1) q' pl by (auto simp: sched_inv_def st' placed_def)
qed

text \<open>A step takes the first queue off the global list, or leaves the list and appends to it.\<close>

definition grab_step :: "addr \<Rightarrow> sched \<Rightarrow> sched \<Rightarrow> bool" where
  "grab_step a st st' \<longleftrightarrow> (\<exists>s. skynet_globalmq_pop st = Some (Some a, s) \<and> st' = s\<lparr>sd_held := insert a (sd_held s)\<rparr>)"

lemma grab_step_inv:
  assumes "grab_step a st st'" "sched_inv st qs"
  obtains rest where "qs = a # rest" "sched_inv st' rest"
proof (cases qs)
  case Nil
  then show ?thesis using globalmq_pop_Nil[of st] sched_invD(1)[OF assms(2)] assms(1) by (simp add: grab_step_def)
next
  case (Cons b rest)
  then show ?thesis using sched_inv_grab[of st b rest] assms that by (auto simp: grab_step_def)
qed

lemma sched_step_list:
  "sched_step st st' \<Longrightarrow> sched_inv st qs \<Longrightarrow> (\<exists>a. grab_step a st st') \<or> (\<exists>ext. sched_inv st' (qs @ ext))"
proof (induction rule: sched_step.induct)
  case (create h st a st')
  then show ?case using sched_inv_create by (metis append_Nil2)
next
  case (give a st st')
  then show ?case using sched_inv_give[of st qs a] by auto
next
  case (grab st a st')
  then show ?case by (auto simp: grab_step_def)
next
  case (send a st q m st')
  then have "sched_inv (st'\<lparr>sd_in := (sd_in st')(a := sd_in st' a @ [m])\<rparr>) (if mq_in_global q = 0 then qs @ [a] else qs)"
    using sched_inv_send[of st qs a q m] by auto
  then show ?case by (cases "mq_in_global q = 0") (auto intro: exI[of _ "[]"])
next
  case (take a st q m q')
  then show ?case using sched_inv_take by (metis append_Nil2)
next
  case (idle a st q q')
  then show ?case using sched_inv_idle by (metis append_Nil2)
next
  case (delete a st st')
  then show ?case using sched_inv_delete[of st qs a] by auto
next
  case (requeue a st q drop_func st')
  then show ?case using sched_inv_requeue[of st qs a q drop_func] by auto
next
  case (free a st q q' st')
  then show ?case using sched_inv_free by (metis append_Nil2)
qed

lemma sched_inv_step: "sched_step st st' \<Longrightarrow> sched_inv st qs \<Longrightarrow> \<exists>qs'. sched_inv st' qs'"
  using sched_step_list grab_step_inv by metis

lemma reachable_inv: "reachable st \<Longrightarrow> \<exists>qs. sched_inv st qs"
  by (induction rule: reachable.induct) (blast dest: sched_inv_init sched_inv_step)+

text \<open>A run for the examples: a queue is created and gets a message, and then goes to the global list.\<close>

definition boot :: sched where
  "boot = \<lparr>gq_head = None, gq_tail = None, mq_store = Map.empty, mq_brk = 0,
     sd_held = {}, sd_alive = {}, sd_in = (\<lambda>_. []), sd_out = (\<lambda>_. [])\<rparr>"

definition boot1 :: sched where
  "boot1 = (snd (skynet_mq_create 1 boot))\<lparr>sd_held := {0}, sd_alive := {0}\<rparr>"

lemma boot1_reachable: "reachable boot1"
proof -
  have "skynet_mq_create 1 boot = (0, snd (skynet_mq_create 1 boot))"
    by (simp add: skynet_mq_create_def boot_def)
  from sched_step.create[OF this] have "sched_step boot boot1"
    by (simp add: boot1_def boot_def skynet_mq_create_def mq_write_def fun_upd_idem)
  moreover have "reachable boot"
    by (rule reachable.start) (simp add: sched_init_def boot_def)
  ultimately show ?thesis by (rule reachable.step[rotated])
qed

lemma boot1_queue: "mq_store boot1 0 = Some (new_message_queue 1)" "sd_held boot1 = {0}" "sd_alive boot1 = {0}"
  "sd_in boot1 = (\<lambda>_. [])" "sd_out boot1 = (\<lambda>_. [])"
  by (simp_all add: boot1_def boot_def skynet_mq_create_def mq_write_def)

lemma boot2_reachable:
  "\<exists>st q. reachable st \<and> sd_in st 0 = [sample_msg 5] \<and> sd_out st 0 = [] \<and> sd_held st = {0} \<and>
     mq_store st 0 = Some q \<and> mq_list q = [sample_msg 5]"
proof -
  obtain qs where inv: "sched_inv boot1 qs" using reachable_inv[OF boot1_reachable] by blast
  have "mq_count (new_message_queue 1) < 2 ^ 29 - 1"
    by (simp add: mq_count_def new_message_queue_def)
  then obtain st qs' where st: "skynet_mq_push 0 (sample_msg 5) boot1 = Some st"
    "sched_inv (st\<lparr>sd_in := (sd_in st)(0 := sd_in st 0 @ [sample_msg 5])\<rparr>) qs'"
    using sched_inv_send[OF inv, of 0 "new_message_queue 1" "sample_msg 5"] boot1_queue by auto
  let ?s = "st\<lparr>sd_in := (sd_in st)(0 := sd_in st 0 @ [sample_msg 5])\<rparr>"
  have more: "sd_held st = {0}" "sd_in st = (\<lambda>_. [])" "sd_out st = (\<lambda>_. [])"
    using sched_more_eqD[of st boot1] mq_push_keeps[OF st(1)] boot1_queue by simp_all
  have "sched_step boot1 ?s"
    using sched_step.send[of 0 boot1 "new_message_queue 1" "sample_msg 5" st] st(1) boot1_queue
    by (simp add: mq_count_def new_message_queue_def)
  then have "reachable ?s" by (rule reachable.step[OF boot1_reachable])
  moreover obtain q where "mq_store ?s 0 = Some q"
    using sched_invD(3)[OF st(2), of 0] more by auto
  moreover from sched_invD(4)[OF st(2) this] have "mq_list q = [sample_msg 5]"
    by (simp add: placed_def more)
  ultimately show ?thesis
    using more by (intro exI[of _ ?s] exI[of _ q]) simp
qed

section \<open>Runs\<close>

text \<open>A run from \<open>st\<close>, with the queues that workers take off the global list in it.\<close>

inductive run :: "sched \<Rightarrow> addr list \<Rightarrow> sched \<Rightarrow> bool" for st where
  run_refl: "run st [] st"
| run_grab: "run st as st1 \<Longrightarrow> grab_step a st1 st2 \<Longrightarrow> run st (as @ [a]) st2"
| run_other: "run st as st1 \<Longrightarrow> sched_step st1 st2 \<Longrightarrow> (\<And>a. \<not> grab_step a st1 st2) \<Longrightarrow> run st as st2"

text \<open>The queues come off in the order of the list at the start, followed by those appended since.\<close>

lemma run_list:
  "run st as st' \<Longrightarrow> sched_inv st qs \<Longrightarrow> \<exists>ext rest. sched_inv st' rest \<and> qs @ ext = as @ rest"
proof (induction rule: run.induct)
  case run_refl
  then have "sched_inv st qs \<and> qs @ [] = [] @ qs" by simp
  then show ?case by blast
next
  case (run_grab as st1 a st2)
  then obtain ext rest where r: "sched_inv st1 rest" "qs @ ext = as @ rest" by blast
  then show ?case using grab_step_inv[OF run_grab(2) r(1)] by (metis append_Cons append_Nil append_assoc)
next
  case (run_other as st1 st2)
  then obtain ext rest where r: "sched_inv st1 rest" "qs @ ext = as @ rest" by blast
  then obtain ext' where "sched_inv st2 (rest @ ext')" using sched_step_list[OF run_other(2) r(1)] run_other(3) by blast
  with r(2) show ?case by (metis append_assoc)
qed

lemma gq_rep_unique:
  assumes "gq_rep st qs" "gq_rep st qs'"
  shows "qs = qs'"
proof -
  have "qs = qs'" if "mq_chain S p qs" "mq_chain S p qs'" for S p qs qs'
    using that
  proof (induction qs arbitrary: p qs')
    case Nil
    then show ?case by (cases qs') auto
  next
    case (Cons a qs)
    then show ?case by (cases qs') auto
  qed
  with assms show ?thesis by (auto simp: gq_rep_def)
qed

text \<open>What a worker does on its own: it takes queues off the list and messages out of the queues it holds.\<close>

inductive work :: "nat \<Rightarrow> sched \<Rightarrow> sched \<Rightarrow> bool" where
  work_refl: "work 0 st st"
| work_grab: "grab_step a st st1 \<Longrightarrow> work n st1 st2 \<Longrightarrow> work (Suc n) st st2"
| work_take: "a \<in> sd_held st \<Longrightarrow> mq_store st a = Some q \<Longrightarrow> skynet_mq_pop q = Some (Some m, q') \<Longrightarrow>
    work n ((mq_write a q' st)\<lparr>sd_out := (sd_out st)(a := sd_out st a @ [m])\<rparr>) st2 \<Longrightarrow> work (Suc n) st st2"

lemma grab_step_keeps:
  assumes "sched_inv st (b # qs)" "mq_store st a = Some q"
  obtains st' q' where "grab_step b st st'" "sched_inv st' qs" "sd_held st' = insert b (sd_held st)" "sd_out st' = sd_out st"
    "mq_store st' a = Some q'" "mq_list q' = mq_list q"
proof -
  obtain s where s: "skynet_globalmq_pop st = Some (Some b, s)" "gq_frame st s"
    using globalmq_pop_Cons[OF sched_invD(1)[OF assms(1)]] by blast
  have m: "sd_held s = sd_held st" "sd_out s = sd_out st"
    using s(2) by (cases st; cases s; simp add: gq_frame_def)+
  obtain q' where q': "mq_store s a = Some q'" "q'\<lparr>mq_next := None\<rparr> = q\<lparr>mq_next := None\<rparr>"
    using gq_frameD[OF s(2) assms(2)] by blast
  have g: "grab_step b st (s\<lparr>sd_held := insert b (sd_held s)\<rparr>)" using s(1) by (auto simp: grab_step_def)
  then have "sched_inv (s\<lparr>sd_held := insert b (sd_held s)\<rparr>) qs" using grab_step_inv[OF g assms(1)] by blast
  then show thesis using that[OF g] q' mq_sched_eq[OF q'(2)] by (simp add: m)
qed

lemma work_held:
  assumes "sched_inv st qs" "a \<in> sd_held st" "mq_store st a = Some q" "mq_list q = m # ms"
  shows "\<exists>st'. work 1 st st' \<and> sd_out st' a = sd_out st a @ [m]"
proof -
  have ok: "mq_ok q" using sched_invD(4)[OF assms(1,3)] by (simp add: placed_def)
  have "mq_head q \<noteq> mq_tail q" using mq_list_eq_Nil[OF ok] assms(4) by auto
  then obtain q' where "skynet_mq_pop q = Some (Some m, q')" using mq_pop_cons[OF ok] assms(4) by auto
  then show ?thesis using work_take[OF assms(2,3) _ work_refl, of m q'] by auto
qed

lemma work_list:
  "sched_inv st qs \<Longrightarrow> a \<in> set qs \<Longrightarrow> mq_store st a = Some q \<Longrightarrow> mq_list q = m # ms \<Longrightarrow>
     \<exists>n st'. work n st st' \<and> n \<le> length qs + 1 \<and> sd_out st' a = sd_out st a @ [m]"
proof (induction qs arbitrary: st q)
  case (Cons b qs)
  obtain st' q' where g: "grab_step b st st'" "sched_inv st' qs" "sd_held st' = insert b (sd_held st)" "sd_out st' = sd_out st"
    "mq_store st' a = Some q'" "mq_list q' = mq_list q"
    using grab_step_keeps[OF Cons.prems(1,3)] by blast
  show ?case
  proof (cases "a = b")
    case True
    then obtain st2 where "work 1 st' st2" "sd_out st2 a = sd_out st' a @ [m]"
      using work_held[OF g(2), of a q' m ms] g Cons.prems(4) by auto
    then show ?thesis using work_grab[OF g(1), of 1 st2] g(4) by (intro exI[of _ 2] exI[of _ st2]) (simp add: numeral_2_eq_2)
  next
    case False
    then obtain n st2 where "work n st' st2" "n \<le> length qs + 1" "sd_out st2 a = sd_out st' a @ [m]"
      using Cons.IH[OF g(2) _ g(5)] g(6) Cons.prems(2,4) by auto
    then show ?thesis using work_grab[OF g(1), of n st2] g(4) by (intro exI[of _ "Suc n"] exI[of _ st2]) simp
  qed
qed simp

section \<open>Properties\<close>

text \<open>C1. No message is lost, duplicated or reordered by any interleaving: in every reachable state, what was
  pushed to a queue is what was taken out of it followed by what its ring holds; after the queue is
  freed, everything pushed to it was taken out (delivered or dropped).\<close>

theorem delivery_in_order:
  assumes "reachable st"
  shows "sd_in st a = sd_out st a @ (case mq_store st a of Some q \<Rightarrow> mq_list q | None \<Rightarrow> [])"
proof -
  obtain qs where "sched_inv st qs" using reachable_inv[OF assms] by blast
  then show ?thesis
    using sched_invD(4,5)[of st qs a] by (auto simp: placed_def split: option.split)
qed

theorem delivery_in_order_witness:
  "\<exists>st. reachable st \<and> sd_in st 0 = [sample_msg 5] \<and>
     sd_in st 0 = sd_out st 0 @ (case mq_store st 0 of Some q \<Rightarrow> mq_list q | None \<Rightarrow> [])"
  using boot2_reachable delivery_in_order by blast

text \<open>C18. No wake-up is lost: in every reachable state a queue that holds a message, or whose context is
  deleted, is in the global list or in the hands of a thread.\<close>

theorem no_lost_wakeup:
  assumes "reachable st" "mq_store st a = Some q" "mq_list q \<noteq> [] \<or> mq_release q \<noteq> 0"
  shows "\<exists>qs. gq_rep st qs \<and> (a \<in> set qs \<or> a \<in> sd_held st)"
proof -
  obtain qs where "sched_inv st qs" using reachable_inv[OF assms(1)] by blast
  then show ?thesis
    using sched_invD(1) sched_invD(4)[of st qs a q] assms(2,3) unfolding placed_def by blast
qed

theorem no_lost_wakeup_witness:
  "\<exists>st q qs. reachable st \<and> mq_store st 0 = Some q \<and> mq_list q \<noteq> [] \<and> gq_rep st qs \<and>
     (0 \<in> set qs \<or> 0 \<in> sd_held st)"
proof -
  obtain st q where st: "reachable st" "mq_store st 0 = Some q" "mq_list q = [sample_msg 5]"
    using boot2_reachable by blast
  then have "mq_list q \<noteq> []" by simp
  with st no_lost_wakeup[OF st(1,2)] show ?thesis by blast
qed

text \<open>C19. A service runs on one thread at a time: a worker that pops a queue from the global list gets one
  that no other thread holds.\<close>

theorem exclusive_dispatch:
  assumes "reachable st" "skynet_globalmq_pop st = Some (Some a, st')"
  shows "a \<notin> sd_held st"
proof -
  obtain qs where inv: "sched_inv st qs" using reachable_inv[OF assms(1)] by blast
  show ?thesis
  proof (cases qs)
    case Nil
    with globalmq_pop_Nil[of st] sched_invD(1)[OF inv] assms(2) show ?thesis by simp
  next
    case (Cons b rest)
    with globalmq_pop_Cons[of st b rest] sched_invD(1,2)[OF inv] assms(2) show ?thesis by auto
  qed
qed

theorem exclusive_dispatch_witness:
  "\<exists>st a st'. reachable st \<and> skynet_globalmq_pop st = Some (Some a, st') \<and> a \<notin> sd_held st"
proof -
  obtain qs where inv: "sched_inv boot1 qs" using reachable_inv[OF boot1_reachable] by blast
  then obtain st where st: "skynet_globalmq_push 0 boot1 = Some st" "sched_inv (st\<lparr>sd_held := sd_held st - {0}\<rparr>) (qs @ [0])"
    using sched_inv_give[OF inv, of 0] boot1_queue by auto
  let ?s = "st\<lparr>sd_held := sd_held st - {0}\<rparr>"
  have r: "reachable ?s"
    using sched_step.give[OF _ st(1)] boot1_queue by (intro reachable.step[OF boot1_reachable]) simp
  obtain a rest where "qs @ [0] = a # rest" by (cases qs) auto
  then obtain st' where p: "skynet_globalmq_pop ?s = Some (Some a, st')"
    using globalmq_pop_Cons[of ?s a rest] sched_invD(1)[OF st(2)] by auto
  from exclusive_dispatch[OF r p] r p show ?thesis by blast
qed



text \<open>C22. Queues are served in turn: a queue at position \<open>k\<close> of the global list is the one that the next worker but
  \<open>k\<close> takes off the list, whatever all threads do in between; no queue is overtaken.\<close>

theorem served_in_turn:
  assumes "reachable st" "gq_rep st qs" "run st as st'" "k < length qs" "k < length as"
  shows "as ! k = qs ! k"
proof -
  obtain qs' where inv: "sched_inv st qs'" using reachable_inv[OF assms(1)] by blast
  then have "qs' = qs" using gq_rep_unique[OF _ assms(2)] sched_invD(1) by blast
  then obtain ext rest where "qs @ ext = as @ rest" using run_list[OF assms(3) inv] by blast
  then have "(qs @ ext) ! k = (as @ rest) ! k" by simp
  then show ?thesis using assms(4,5) by (simp add: nth_append)
qed



theorem served_in_turn_witness:
  "\<exists>st qs st'. reachable st \<and> gq_rep st qs \<and> run st [0] st' \<and> [0] ! 0 = qs ! 0"
proof -
  obtain qs0 where inv: "sched_inv boot1 qs0" using reachable_inv[OF boot1_reachable] by blast
  have "gq_rep boot1 []"
    by (simp add: gq_rep_def boot1_def boot_def skynet_mq_create_def mq_write_def new_message_queue_def)
  then have "qs0 = []" using gq_rep_unique sched_invD(1)[OF inv] by blast
  then obtain st where st: "skynet_globalmq_push 0 boot1 = Some st" "sched_inv (st\<lparr>sd_held := sd_held st - {0}\<rparr>) [0]"
    using sched_inv_give[OF inv, of 0] boot1_queue by auto
  let ?s = "st\<lparr>sd_held := sd_held st - {0}\<rparr>"
  have r: "reachable ?s"
    using sched_step.give[OF _ st(1)] boot1_queue by (intro reachable.step[OF boot1_reachable]) simp
  obtain st' where "grab_step 0 ?s st'" using sched_inv_grab[OF st(2)] by (auto simp: grab_step_def)
  then have "run ?s [0] st'" using run_grab[OF run_refl, of 0 ?s st'] by simp
  then show ?thesis using served_in_turn[OF r sched_invD(1)[OF st(2)], of "[0]" st' 0] r sched_invD(1)[OF st(2)] by fastforce
qed

end
