(* ===== verification/HashId.thy ===== *)
theory HashId
  imports Directory_Spec
begin

text \<open>
  The connection table of \<open>service-src/hashid.h\<close>: an array of nodes, each free (id -1) or used by a
  socket id, and chains of nodes that hang from the buckets of a hash table. A node pointer is the
  index of the node, so \<open>c - hi->id\<close> is the pointer itself.
\<close>

section \<open>Model\<close>

record hashid_node =
  nd_id :: int
  nd_next :: "nat option"

record hashid =
  hi_hashmod :: int
  hi_cap :: int
  hi_count :: int
  hi_id :: "hashid_node list"
  hi_hash :: "nat option list"

text \<open>The loop \<open>while (hashcap < max) hashcap *= 2\<close>.\<close>

function hash_cap :: "int \<Rightarrow> int \<Rightarrow> int option" where
  "hash_cap hashcap mx =
     (if 0 < hashcap \<and> hashcap < mx then do { c \<leftarrow> cint (hashcap * 2); hash_cap c mx } else Some hashcap)"
  by pat_completeness auto
termination
  by (relation "measure (\<lambda>(hashcap, mx). nat (mx - hashcap))") (auto simp: cint_def split: if_splits)

declare hash_cap.simps [simp del]

definition hashid_init :: "int \<Rightarrow> hashid option" where
  "hashid_init mx = do {
     hashcap \<leftarrow> hash_cap 16 mx;
     Some \<lparr>hi_hashmod = hashcap - 1, hi_cap = mx, hi_count = 0,
           hi_id = replicate (nat mx) \<lparr>nd_id = -1, nd_next = None\<rparr>,
           hi_hash = replicate (nat hashcap) None\<rparr> }"

definition hashid_clear :: "hashid \<Rightarrow> hashid" where
  "hashid_clear hi = hi\<lparr>hi_id := [], hi_hash := [], hi_hashmod := 1, hi_cap := 0, hi_count := 0\<rparr>"

definition bucket :: "hashid \<Rightarrow> int \<Rightarrow> int" where
  "bucket hi i = i AND hi_hashmod hi"

text \<open>Walking a chain from the pointer \<open>c\<close>.\<close>

partial_function (option) lookup_walk :: "hashid_node list \<Rightarrow> int \<Rightarrow> nat option \<Rightarrow> int option" where
  "lookup_walk nodes i c =
     (case c of
        None \<Rightarrow> Some (-1)
      | Some k \<Rightarrow>
          (case arr_get nodes (int k) of
             None \<Rightarrow> None
           | Some nd \<Rightarrow> if nd_id nd = i then Some (int k) else lookup_walk nodes i (nd_next nd)))"

declare lookup_walk.simps [code]

definition hashid_lookup :: "hashid \<Rightarrow> int \<Rightarrow> int option" where
  "hashid_lookup hi i = do {
     c \<leftarrow> arr_get (hi_hash hi) (bucket hi i);
     lookup_walk (hi_id hi) i c }"

text \<open>The loop of \<open>hashid_remove\<close> behind the first node: \<open>Some None\<close> when the id is not in the chain,
  otherwise the node unlinked and the nodes after the unlinking.\<close>

partial_function (option) unlink_walk ::
  "hashid_node list \<Rightarrow> int \<Rightarrow> nat \<Rightarrow> (nat \<times> hashid_node list) option option" where
  "unlink_walk nodes i c =
     (case arr_get nodes (int c) of
        None \<Rightarrow> None
      | Some nd \<Rightarrow>
          (case nd_next nd of
             None \<Rightarrow> Some None
           | Some k \<Rightarrow>
               (case arr_get nodes (int k) of
                  None \<Rightarrow> None
                | Some temp \<Rightarrow>
                    if nd_id temp = i
                    then Some (Some (k, nodes[c := nd\<lparr>nd_next := nd_next temp\<rparr>]))
                    else unlink_walk nodes i k)))"

declare unlink_walk.simps [code]

text \<open>The code at \<open>_clear\<close>.\<close>

definition clear_node :: "hashid \<Rightarrow> nat \<Rightarrow> int \<times> hashid" where
  "clear_node hi k =
     (int k, hi\<lparr>hi_id := (hi_id hi)[k := \<lparr>nd_id = -1, nd_next = None\<rparr>], hi_count := hi_count hi - 1\<rparr>)"

definition hashid_remove :: "hashid \<Rightarrow> int \<Rightarrow> (int \<times> hashid) option" where
  "hashid_remove hi i = do {
     c \<leftarrow> arr_get (hi_hash hi) (bucket hi i);
     case c of
       None \<Rightarrow> Some (-1, hi)
     | Some k \<Rightarrow> do {
         nd \<leftarrow> arr_get (hi_id hi) (int k);
         if nd_id nd = i then
           Some (clear_node (hi\<lparr>hi_hash := (hi_hash hi)[nat (bucket hi i) := nd_next nd]\<rparr>) k)
         else do {
           r \<leftarrow> unlink_walk (hi_id hi) i k;
           case r of
             None \<Rightarrow> Some (-1, hi)
           | Some (t, nodes) \<Rightarrow> Some (clear_node (hi\<lparr>hi_id := nodes\<rparr>) t) } } }"

text \<open>The remainder of C, which has the sign of the dividend.\<close>

definition c_rem :: "int \<Rightarrow> int \<Rightarrow> int" where
  "c_rem a b = (if a < 0 then - ((- a) mod b) else a mod b)"

text \<open>The search for a free node from position \<open>id % cap\<close> on; \<open>n\<close> is the number of rounds left.\<close>

fun free_scan :: "hashid_node list \<Rightarrow> int \<Rightarrow> int \<Rightarrow> nat \<Rightarrow> nat \<Rightarrow> nat option option" where
  "free_scan nodes cap i k 0 = Some None"
| "free_scan nodes cap i k (Suc n) = do {
     s \<leftarrow> cint (int k + i);
     nd \<leftarrow> arr_get nodes (c_rem s cap);
     if nd_id nd = -1 then Some (Some (nat (c_rem s cap))) else free_scan nodes cap i (Suc k) n }"

definition hashid_insert :: "hashid \<Rightarrow> int \<Rightarrow> (int \<times> hashid) option" where
  "hashid_insert hi i = do {
     r \<leftarrow> free_scan (hi_id hi) (hi_cap hi) i 0 (nat (hi_cap hi));
     k \<leftarrow> r;
     nd \<leftarrow> arr_get (hi_id hi) (int k);
     if nd_next nd \<noteq> None then None
     else do {
       h \<leftarrow> arr_get (hi_hash hi) (bucket hi i);
       Some (int k, hi\<lparr>hi_count := hi_count hi + 1,
         hi_id := (hi_id hi)[k := \<lparr>nd_id = i, nd_next = h\<rparr>],
         hi_hash := (hi_hash hi)[nat (bucket hi i) := Some k]\<rparr>) } }"

definition hashid_full :: "hashid \<Rightarrow> bool" where
  "hashid_full hi \<longleftrightarrow> hi_count hi = hi_cap hi"

section \<open>Chains\<close>

lemma lookup_walk_chain:
  "chain nd_next nodes p ks \<Longrightarrow> lookup_walk nodes i p =
     Some (case find (\<lambda>k. nd_id (nodes ! k) = i) ks of None \<Rightarrow> -1 | Some k \<Rightarrow> int k)"
  by (induction ks arbitrary: p) (subst lookup_walk.simps; simp)+

text \<open>Unlinking the node of an id from a chain, behind its first node.\<close>

lemma unlink_walk_chain:
  assumes "chain nd_next nodes (Some c) (c # ks)" "distinct (c # ks)"
  shows "case find (\<lambda>k. nd_id (nodes ! k) = i) ks of
      None \<Rightarrow> unlink_walk nodes i c = Some None
    | Some t \<Rightarrow> \<exists>nodes'. unlink_walk nodes i c = Some (Some (t, nodes')) \<and>
        length nodes' = length nodes \<and> (\<forall>k. k \<notin> set (c # ks) \<longrightarrow> nodes' ! k = nodes ! k) \<and>
        (\<forall>k. nd_id (nodes' ! k) = nd_id (nodes ! k)) \<and>
        chain nd_next nodes' (Some c) (c # removeAll t ks)"
  using assms
proof (induction ks arbitrary: c)
  case Nil
  then show ?case by (subst unlink_walk.simps) simp
next
  case (Cons d ks)
  then have c: "c < length nodes" "nd_next (nodes ! c) = Some d" "d < length nodes"
    "chain nd_next nodes (nd_next (nodes ! d)) ks" "c \<noteq> d" "c \<notin> set ks" "d \<notin> set ks" "distinct ks"
    by auto
  show ?case
  proof (cases "nd_id (nodes ! d) = i")
    case True
    let ?nodes = "nodes[c := (nodes ! c)\<lparr>nd_next := nd_next (nodes ! d)\<rparr>]"
    have "unlink_walk nodes i c = Some (Some (d, ?nodes))"
      using c True by (subst unlink_walk.simps) simp
    moreover have "chain nd_next ?nodes (Some c) (c # removeAll d (d # ks))"
      using c by simp
    moreover have "nd_id (?nodes ! k) = nd_id (nodes ! k)" for k
      by (cases "k = c") (use c in auto)
    ultimately show ?thesis using True c by auto
  next
    case False
    have step: "unlink_walk nodes i c = unlink_walk nodes i d"
      using c False by (subst unlink_walk.simps) simp
    have IH: "case find (\<lambda>k. nd_id (nodes ! k) = i) ks of
        None \<Rightarrow> unlink_walk nodes i d = Some None
      | Some t \<Rightarrow> \<exists>nodes'. unlink_walk nodes i d = Some (Some (t, nodes')) \<and>
          length nodes' = length nodes \<and> (\<forall>k. k \<notin> set (d # ks) \<longrightarrow> nodes' ! k = nodes ! k) \<and>
          (\<forall>k. nd_id (nodes' ! k) = nd_id (nodes ! k)) \<and>
          chain nd_next nodes' (Some d) (d # removeAll t ks)"
      using c by (intro Cons.IH) auto
    show ?thesis
    proof (cases "find (\<lambda>k. nd_id (nodes ! k) = i) ks")
      case None
      with IH step False show ?thesis by simp
    next
      case (Some t)
      with IH obtain nodes' where n: "unlink_walk nodes i d = Some (Some (t, nodes'))"
        "length nodes' = length nodes" "\<And>k. k \<notin> set (d # ks) \<Longrightarrow> nodes' ! k = nodes ! k"
        "\<And>k. nd_id (nodes' ! k) = nd_id (nodes ! k)" "chain nd_next nodes' (Some d) (d # removeAll t ks)"
        by auto
      have "t \<noteq> d"
        using find_SomeD[OF Some] False by auto
      then have "chain nd_next nodes' (Some c) (c # removeAll t (d # ks))"
        using n c by auto
      with n step Some False show ?thesis by auto
    qed
  qed
qed

section \<open>Invariant\<close>

definition id_map :: "hashid \<Rightarrow> int \<rightharpoonup> nat" where
  "id_map hi i =
     (if i = -1 then None else find (\<lambda>x. nd_id (hi_id hi ! x) = i) [0..<length (hi_id hi)])"

definition chains_ok :: "hashid \<Rightarrow> nat \<Rightarrow> (nat \<Rightarrow> nat list) \<Rightarrow> bool" where
  "chains_ok hi N ch \<longleftrightarrow>
     (\<forall>b < N. chain nd_next (hi_id hi) (hi_hash hi ! b) (ch b) \<and> distinct (ch b) \<and>
        (\<forall>x \<in> set (ch b). 0 \<le> nd_id (hi_id hi ! x) \<and> nat (nd_id (hi_id hi ! x)) mod N = b)) \<and>
     (\<forall>x < length (hi_id hi).
        nd_id (hi_id hi ! x) = -1 \<and> nd_next (hi_id hi ! x) = None \<or>
        0 \<le> nd_id (hi_id hi ! x) \<and> x \<in> set (ch (nat (nd_id (hi_id hi ! x)) mod N)))"

definition hash_ok :: "hashid \<Rightarrow> bool" where
  "hash_ok hi \<longleftrightarrow>
     (\<exists>p ch. hi_hashmod hi = 2 ^ p - 1 \<and> length (hi_hash hi) = 2 ^ p \<and> chains_ok hi (2 ^ p) ch) \<and>
     hi_cap hi = int (length (hi_id hi)) \<and>
     (\<forall>x y. x < length (hi_id hi) \<longrightarrow> y < length (hi_id hi) \<longrightarrow> nd_id (hi_id hi ! x) = nd_id (hi_id hi ! y) \<longrightarrow>
        nd_id (hi_id hi ! x) \<noteq> -1 \<longrightarrow> x = y) \<and>
     hi_count hi = int (card {x. x < length (hi_id hi) \<and> nd_id (hi_id hi ! x) \<noteq> -1})"

lemma bucket_eq: "0 \<le> i \<Longrightarrow> hi_hashmod hi = 2 ^ p - 1 \<Longrightarrow> bucket hi i = int (nat i mod 2 ^ p)"
proof -
  assume i: "0 \<le> i" and m: "hi_hashmod hi = 2 ^ p - 1"
  have "i AND (2 ^ p - 1) = i mod 2 ^ p"
    by (simp add: take_bit_eq_mod flip: mask_eq_exp_minus_1 take_bit_eq_mask)
  with i m show ?thesis by (simp add: bucket_def zmod_int)
qed

lemma find_unique:
  "a \<in> set xs \<Longrightarrow> (\<And>x. x \<in> set xs \<Longrightarrow> P x \<longleftrightarrow> x = a) \<Longrightarrow> find P xs = Some a"
  by (induction xs) auto

lemma id_map_Some:
  assumes "hash_ok hi" "i \<noteq> -1"
  shows "id_map hi i = Some x \<longleftrightarrow> x < length (hi_id hi) \<and> nd_id (hi_id hi ! x) = i"
proof
  assume "id_map hi i = Some x"
  then show "x < length (hi_id hi) \<and> nd_id (hi_id hi ! x) = i"
    using assms(2) by (auto simp: id_map_def dest!: find_SomeD)
next
  assume x: "x < length (hi_id hi) \<and> nd_id (hi_id hi ! x) = i"
  then have "find (\<lambda>x. nd_id (hi_id hi ! x) = i) [0..<length (hi_id hi)] = Some x"
    using assms by (intro find_unique) (auto simp: hash_ok_def)
  with assms(2) show "id_map hi i = Some x" by (simp add: id_map_def)
qed

lemma id_map_None:
  assumes "i \<noteq> -1"
  shows "id_map hi i = None \<longleftrightarrow> (\<forall>x < length (hi_id hi). nd_id (hi_id hi ! x) \<noteq> i)"
  using assms by (auto simp: id_map_def find_None_iff)

text \<open>The chain of the bucket of an id holds the node of the id, if there is one.\<close>

lemma find_in_chain:
  assumes ok: "hash_ok hi" and ch: "chains_ok hi N ch" and i: "0 \<le> i" and N: "0 < N"
  shows "find (\<lambda>x. nd_id (hi_id hi ! x) = i) (ch (nat i mod N)) = id_map hi i"
proof (cases "id_map hi i")
  case None
  then have "\<And>x. x \<in> set (ch (nat i mod N)) \<Longrightarrow> nd_id (hi_id hi ! x) \<noteq> i"
    using id_map_None[of i hi] i ch N chain_bound unfolding chains_ok_def by (metis less_numeral_extra(1) linorder_not_less mod_less_divisor neg_0_le_iff_le not_one_le_zero)
  with None show ?thesis by (simp add: find_None_iff)
next
  case (Some a)
  then have a: "a < length (hi_id hi)" "nd_id (hi_id hi ! a) = i"
    using id_map_Some[OF ok, of i a] i by auto
  then have "a \<in> set (ch (nat i mod N))"
    using ch i unfolding chains_ok_def by force
  moreover have "nd_id (hi_id hi ! x) = i \<longleftrightarrow> x = a" if "x \<in> set (ch (nat i mod N))" for x
  proof -
    have "x < length (hi_id hi)"
      using that ch N chain_bound unfolding chains_ok_def by (metis mod_less_divisor)
    then show ?thesis
      using id_map_Some[OF ok, of i] Some i by fastforce
  qed
  ultimately show ?thesis
    using Some by (simp add: find_unique)
qed

lemma hashid_lookup_ok:
  assumes "hash_ok hi" "0 \<le> i"
  shows "hashid_lookup hi i = Some (case id_map hi i of None \<Rightarrow> -1 | Some x \<Rightarrow> int x)"
proof -
  obtain p ch where p: "hi_hashmod hi = 2 ^ p - 1" "length (hi_hash hi) = 2 ^ p" "chains_ok hi (2 ^ p) ch"
    using assms(1) by (auto simp: hash_ok_def)
  have b: "bucket hi i = int (nat i mod 2 ^ p)"
    using bucket_eq[OF assms(2) p(1)] .
  have lt: "nat i mod 2 ^ p < 2 ^ p" by simp
  then have "chain nd_next (hi_id hi) (hi_hash hi ! (nat i mod 2 ^ p)) (ch (nat i mod 2 ^ p))"
    using p(3) by (simp add: chains_ok_def)
  then show ?thesis
    using lookup_walk_chain[of "hi_id hi"] find_in_chain[OF assms(1) p(3) assms(2)] p(2) lt
    by (simp add: hashid_lookup_def b)
qed


section \<open>Insertion\<close>

lemma free_scan_find:
  assumes "0 \<le> i" "i + int (k + n) \<le> INT_MAX + 1" "nodes \<noteq> []"
  shows "free_scan nodes (int (length nodes)) i k n =
    Some (find (\<lambda>x. nd_id (nodes ! x) = -1) (map (\<lambda>j. (j + nat i) mod length nodes) [k..<k + n]))"
  using assms(2)
proof (induction n arbitrary: k)
  case (Suc n)
  have r: "c_rem (int k + i) (int (length nodes)) = int ((k + nat i) mod length nodes)"
    using assms(1) by (simp add: c_rem_def zmod_int)
  have c: "cint (int k + i) = Some (int k + i)"
    using assms(1) Suc.prems by (intro cint_in_range) auto
  have lt: "(k + nat i) mod length nodes < length nodes"
    using assms(3) by simp
  have up: "[k..<Suc (k + n)] = k # [Suc k..<Suc (k + n)]"
    by (simp add: upt_conv_Cons)
  show ?case
    using Suc.IH[of "Suc k"] Suc.prems lt by (simp add: c r up del: upt_Suc)
qed simp

lemma scan_covers:
  assumes "y < (L :: nat)"
  shows "\<exists>j < L. (j + i) mod L = y"
proof -
  let ?j = "(y + (L - i mod L)) mod L"
  have "(?j + i) mod L = (y + (L - i mod L) + i mod L) mod L"
    by (simp add: mod_simps)
  also have "y + (L - i mod L) + i mod L = y + L"
  proof -
    have "i mod L \<le> L" using assms by (meson less_imp_le mod_less_divisor le_less_trans zero_le)
    then show ?thesis by simp
  qed
  finally have "(?j + i) mod L = y"
    using assms by simp
  then show ?thesis
    using assms by (intro exI[of _ ?j]) auto
qed

lemma hashid_insert_ok:
  assumes ok: "hash_ok hi" and i: "0 \<le> i" "i + hi_cap hi \<le> INT_MAX + 1" and new: "id_map hi i = None"
    and room: "\<not> hashid_full hi"
  shows "\<exists>k hi'. hashid_insert hi i = Some (int k, hi') \<and> k < length (hi_id hi) \<and> nd_id (hi_id hi ! k) = -1 \<and>
    hash_ok hi' \<and> hi_cap hi' = hi_cap hi \<and> hi_id hi' = (hi_id hi)[k := hi_id hi' ! k] \<and> nd_id (hi_id hi' ! k) = i"
proof -
  obtain p ch where p: "hi_hashmod hi = 2 ^ p - 1" "length (hi_hash hi) = 2 ^ p" "chains_ok hi (2 ^ p) ch"
    using ok by (auto simp: hash_ok_def)
  define L where "L = length (hi_id hi)"
  define b where "b = nat i mod 2 ^ p"
  have b: "bucket hi i = int b" "b < 2 ^ p"
    using bucket_eq[OF i(1) p(1)] by (simp_all add: b_def)
  let ?used = "{x. x < L \<and> nd_id (hi_id hi ! x) \<noteq> -1}"
  have cap: "hi_cap hi = int L" and cnt: "hi_count hi = int (card ?used)"
    using ok by (auto simp: hash_ok_def L_def)
  have "card ?used \<noteq> card {x. x < L}"
    using room cap cnt by (simp add: hashid_full_def)
  then obtain y where y: "y < L" "nd_id (hi_id hi ! y) = -1"
    by (metis (mono_tags, lifting) Collect_cong)
  then have ne: "hi_id hi \<noteq> []" by (auto simp: L_def)
  have scan: "free_scan (hi_id hi) (hi_cap hi) i 0 (nat (hi_cap hi)) =
      Some (find (\<lambda>x. nd_id (hi_id hi ! x) = -1) (map (\<lambda>j. (j + nat i) mod L) [0..<L]))"
    using free_scan_find[OF i(1) _ ne, of 0 L] i(2) cap by (simp add: L_def)
  obtain k where k: "find (\<lambda>x. nd_id (hi_id hi ! x) = -1) (map (\<lambda>j. (j + nat i) mod L) [0..<L]) = Some k"
    using scan_covers[OF y(1), of "nat i"] y by (fastforce simp: find_None_iff not_None_eq[symmetric] simp del: not_None_eq)
  have kL: "k < L" "nd_id (hi_id hi ! k) = -1"
    using find_SomeD[OF k] y(1) mod_less_divisor[of L] by auto
  then have nx: "nd_next (hi_id hi ! k) = None"
    using p(3) by (auto simp: chains_ok_def L_def)
  define hi' where "hi' = hi\<lparr>hi_count := hi_count hi + 1,
         hi_id := (hi_id hi)[k := \<lparr>nd_id = i, nd_next = hi_hash hi ! b\<rparr>],
         hi_hash := (hi_hash hi)[b := Some k]\<rparr>"
  have ins: "hashid_insert hi i = Some (int k, hi')"
    using scan k kL nx b p(2) by (simp add: hashid_insert_def hi'_def L_def)
  have notin: "k \<notin> set (ch c)" if "c < 2 ^ p" for c
    using p(3) that kL by (force simp: chains_ok_def)
  have id': "nd_id (hi_id hi' ! x) = (if x = k then i else nd_id (hi_id hi ! x))" if "x < L" for x
    using that by (simp add: hi'_def L_def nth_list_update)
  have "chains_ok hi' (2 ^ p) (ch(b := k # ch b))"
    unfolding chains_ok_def
  proof (intro conjI allI impI ballI)
    fix c :: nat
    assume c: "c < 2 ^ p"
    then have old: "chain nd_next (hi_id hi) (hi_hash hi ! c) (ch c)" "distinct (ch c)"
      "\<And>x. x \<in> set (ch c) \<Longrightarrow> 0 \<le> nd_id (hi_id hi ! x) \<and> nat (nd_id (hi_id hi ! x)) mod 2 ^ p = c"
      using p(3) by (auto simp: chains_ok_def)
    have xk: "nd_id (hi_id hi' ! x) = nd_id (hi_id hi ! x)" if "x \<in> set (ch c)" for x
      using that notin[OF c] by (cases "x = k") (auto simp: hi'_def)
    show "chain nd_next (hi_id hi') (hi_hash hi' ! c) ((ch(b := k # ch b)) c)"
      using old(1) notin[OF c] kL p(2) c by (auto simp: hi'_def L_def)
    show "distinct ((ch(b := k # ch b)) c)"
      using old(2) notin[OF c] by auto
    fix x
    assume "x \<in> set ((ch(b := k # ch b)) c)"
    then have "x = k \<and> c = b \<or> x \<in> set (ch c)" by (auto split: if_splits)
    then show "0 \<le> nd_id (hi_id hi' ! x)" "nat (nd_id (hi_id hi' ! x)) mod 2 ^ p = c"
      using old(3)[of x] xk[of x] id'[OF kL(1)] i(1) by (auto simp: b_def)
  next
    fix x
    assume "x < length (hi_id hi')"
    then have x: "x < L" by (simp add: hi'_def L_def)
    show "nd_id (hi_id hi' ! x) = -1 \<and> nd_next (hi_id hi' ! x) = None \<or>
        0 \<le> nd_id (hi_id hi' ! x) \<and> x \<in> set ((ch(b := k # ch b)) (nat (nd_id (hi_id hi' ! x)) mod 2 ^ p))"
    proof (cases "x = k")
      case True
      with id'[OF kL(1)] i(1) show ?thesis by (simp add: b_def)
    next
      case False
      then have "hi_id hi' ! x = hi_id hi ! x" by (simp add: hi'_def)
      moreover have "nd_id (hi_id hi ! x) = -1 \<and> nd_next (hi_id hi ! x) = None \<or>
          0 \<le> nd_id (hi_id hi ! x) \<and> x \<in> set (ch (nat (nd_id (hi_id hi ! x)) mod 2 ^ p))"
        using p(3) x by (simp add: chains_ok_def L_def)
      ultimately show ?thesis by auto
    qed
  qed
  moreover have "{x. x < L \<and> nd_id (hi_id hi' ! x) \<noteq> -1} = insert k ?used"
    using kL i(1) id' by (auto split: if_splits)
  then have "hi_count hi' = int (card {x. x < length (hi_id hi') \<and> nd_id (hi_id hi' ! x) \<noteq> -1})"
    using cnt kL by (simp add: hi'_def L_def)
  moreover have "x = y" if "x < L" "y < L" "nd_id (hi_id hi' ! x) = nd_id (hi_id hi' ! y)" "nd_id (hi_id hi' ! x) \<noteq> -1" for x y
    using that ok new i(1) id_map_None[of i hi] by (auto simp: id' hash_ok_def L_def split: if_splits)
  ultimately have "hash_ok hi'"
    using p(1,2) cap unfolding hash_ok_def by (intro conjI) (auto simp: hi'_def L_def)
  then show ?thesis
    using ins kL by (intro exI[of _ k] exI[of _ hi']) (auto simp: hi'_def L_def)
qed

section \<open>Removal\<close>

text \<open>The table is well formed again once the node of an id has been taken out of its chain, whichever
  way the chain was relinked, and has been cleared.\<close>

lemma unlinked_ok:
  assumes ok: "hash_ok hi" and p: "hi_hashmod hi = 2 ^ p - 1" "length (hi_hash hi) = 2 ^ p"
    and ch: "chains_ok hi (2 ^ p) ch" and i: "0 \<le> i" and t: "id_map hi i = Some t"
    and len: "length nodes = length (hi_id hi)"
    and ids: "\<And>k. nd_id (nodes ! k) = nd_id (hi_id hi ! k)"
    and frame: "\<And>k. k \<notin> set (ch (nat i mod 2 ^ p)) \<Longrightarrow> nodes ! k = hi_id hi ! k"
    and new: "chain nd_next nodes h (removeAll t (ch (nat i mod 2 ^ p)))"
  shows "hash_ok (hi\<lparr>hi_hash := (hi_hash hi)[nat i mod 2 ^ p := h],
     hi_id := nodes[t := \<lparr>nd_id = -1, nd_next = None\<rparr>], hi_count := hi_count hi - 1\<rparr>)" (is "hash_ok ?hi")
proof -
  define b where "b = nat i mod 2 ^ p"
  define L where "L = length (hi_id hi)"
  have tL: "t < L" "nd_id (hi_id hi ! t) = i"
    using id_map_Some[OF ok, of i t] t i by (auto simp: L_def)
  have id': "nd_id (hi_id ?hi ! x) = (if x = t then -1 else nd_id (hi_id hi ! x))" if "x < L" for x
    using that ids len by (simp add: L_def nth_list_update)
  have old: "chain nd_next (hi_id hi) (hi_hash hi ! c) (ch c)" "distinct (ch c)"
    "\<And>x. x \<in> set (ch c) \<Longrightarrow> 0 \<le> nd_id (hi_id hi ! x) \<and> nat (nd_id (hi_id hi ! x)) mod 2 ^ p = c"
    "\<And>x. x \<in> set (ch c) \<Longrightarrow> x < L"
    if "c < 2 ^ p" for c
    using ch that chain_bound[of nd_next "hi_id hi" "hi_hash hi ! c" "ch c"] by (simp_all add: chains_ok_def L_def)
  have b: "b < 2 ^ p" by (simp add: b_def)
  have sep: "x \<notin> set (ch b)" if "x \<in> set (ch c)" "c < 2 ^ p" "c \<noteq> b" for x c
    using old(3)[OF that(2,1)] old(3)[OF b, of x] that(3) by auto
  let ?ch = "ch(b := removeAll t (ch b))"
  have "chains_ok ?hi (2 ^ p) ?ch"
    unfolding chains_ok_def
  proof (intro conjI allI impI ballI)
    fix c :: nat
    assume c: "c < 2 ^ p"
    have tc: "t \<notin> set (?ch c)"
      using old(3)[OF c, of t] tL(2) by (cases "c = b") (auto simp: b_def)
    show "chain nd_next (hi_id ?hi) (hi_hash ?hi ! c) (?ch c)"
    proof (cases "c = b")
      case True
      with tc new p(2) b show ?thesis by (simp add: b_def)
    next
      case False
      have "chain nd_next nodes (hi_hash hi ! c) (ch c) = chain nd_next (hi_id hi) (hi_hash hi ! c) (ch c)"
        using frame sep[OF _ c False] len by (intro chain_cong) (auto simp: b_def)
      with False old(1)[OF c] tc show ?thesis by (simp add: b_def)
    qed
    show "distinct (?ch c)"
      using old(2)[OF c] by (auto simp: distinct_removeAll)
    fix x
    assume x: "x \<in> set (?ch c)"
    then have "x \<in> set (ch c)" "x \<noteq> t" using tc by (auto split: if_splits)
    then show "0 \<le> nd_id (hi_id ?hi ! x)" "nat (nd_id (hi_id ?hi ! x)) mod 2 ^ p = c"
      using old(3,4)[OF c, of x] id'[of x] by auto
  next
    fix x
    assume "x < length (hi_id ?hi)"
    then have x: "x < L" using len by (simp add: L_def)
    have free: "nd_id (hi_id hi ! x) = -1 \<and> nd_next (hi_id hi ! x) = None \<or>
          0 \<le> nd_id (hi_id hi ! x) \<and> x \<in> set (ch (nat (nd_id (hi_id hi ! x)) mod 2 ^ p))"
      using ch x by (simp add: chains_ok_def L_def)
    show "nd_id (hi_id ?hi ! x) = -1 \<and> nd_next (hi_id ?hi ! x) = None \<or>
        0 \<le> nd_id (hi_id ?hi ! x) \<and> x \<in> set (?ch (nat (nd_id (hi_id ?hi ! x)) mod 2 ^ p))"
    proof (cases "x = t")
      case True
      with tL len show ?thesis by (simp add: L_def)
    next
      case False
      have "x \<notin> set (ch b)" if "nd_id (hi_id hi ! x) = -1"
        using old(3)[OF b, of x] that by auto
      then show ?thesis
        using free frame[of x] id'[OF x] False by (auto simp: b_def)
    qed
  qed
  moreover have "{x. x < L \<and> nd_id (hi_id ?hi ! x) \<noteq> -1} = {x. x < L \<and> nd_id (hi_id hi ! x) \<noteq> -1} - {t}"
    using ids len tL(1) by (auto simp: L_def nth_list_update split: if_splits)
  then have "hi_count ?hi = int (card {x. x < length (hi_id ?hi) \<and> nd_id (hi_id ?hi ! x) \<noteq> -1})"
    using ok tL i len card_Suc_Diff1[of "{x. x < L \<and> nd_id (hi_id hi ! x) \<noteq> -1}" t]
    by (simp add: hash_ok_def L_def)
  moreover have "x = y" if "x < L" "y < L" "nd_id (hi_id ?hi ! x) = nd_id (hi_id ?hi ! y)" "nd_id (hi_id ?hi ! x) \<noteq> -1" for x y
    using that ok unfolding id'[OF that(1)] id'[OF that(2)] by (auto simp: hash_ok_def L_def split: if_splits)
  ultimately show ?thesis
    using p ok len unfolding hash_ok_def by (intro conjI) (auto simp: L_def)
qed

text \<open>Removing an id: nothing happens when it is not there, otherwise its node is freed.\<close>

lemma hashid_remove_ok:
  assumes ok: "hash_ok hi" and i: "0 \<le> i"
  shows "case id_map hi i of
      None \<Rightarrow> hashid_remove hi i = Some (-1, hi)
    | Some t \<Rightarrow> \<exists>hi'. hashid_remove hi i = Some (int t, hi') \<and> hash_ok hi' \<and> hi_cap hi' = hi_cap hi \<and>
        length (hi_id hi') = length (hi_id hi) \<and>
        (\<forall>x. nd_id (hi_id hi' ! x) = (if x = t then -1 else nd_id (hi_id hi ! x)))"
proof -
  obtain p ch where p: "hi_hashmod hi = 2 ^ p - 1" "length (hi_hash hi) = 2 ^ p" "chains_ok hi (2 ^ p) ch"
    using ok by (auto simp: hash_ok_def)
  define b where "b = nat i mod 2 ^ p"
  have b: "bucket hi i = int b" "b < 2 ^ p"
    using bucket_eq[OF i p(1)] by (simp_all add: b_def)
  have c: "chain nd_next (hi_id hi) (hi_hash hi ! b) (ch b)" "distinct (ch b)"
    using p(3) b(2) by (auto simp: chains_ok_def)
  have f: "find (\<lambda>x. nd_id (hi_id hi ! x) = i) (ch b) = id_map hi i"
    using find_in_chain[OF ok p(3) i] by (simp add: b_def)
  have get: "arr_get (hi_hash hi) (bucket hi i) = Some (hi_hash hi ! b)"
    using b p(2) by simp
  show ?thesis
  proof (cases "ch b")
    case Nil
    with c f get show ?thesis by (auto simp: hashid_remove_def)
  next
    case (Cons k ks)
    with c have k: "hi_hash hi ! b = Some k" "k < length (hi_id hi)" "k \<notin> set ks" "distinct ks"
      "chain nd_next (hi_id hi) (nd_next (hi_id hi ! k)) ks"
      by auto
    show ?thesis
    proof (cases "nd_id (hi_id hi ! k) = i")
      case True
      then have t: "id_map hi i = Some k" using f Cons by simp
      have "hashid_remove hi i = Some (clear_node (hi\<lparr>hi_hash := (hi_hash hi)[b := nd_next (hi_id hi ! k)]\<rparr>) k)"
        using get k True b by (simp add: hashid_remove_def)
      moreover have "hash_ok (hi\<lparr>hi_hash := (hi_hash hi)[nat i mod 2 ^ p := nd_next (hi_id hi ! k)],
          hi_id := (hi_id hi)[k := \<lparr>nd_id = -1, nd_next = None\<rparr>], hi_count := hi_count hi - 1\<rparr>)"
        using k Cons by (intro unlinked_ok[OF ok p i t]) (auto simp flip: b_def)
      ultimately show ?thesis
        using t k by (auto simp: clear_node_def nth_list_update b_def)
    next
      case False
      have w: "case find (\<lambda>x. nd_id (hi_id hi ! x) = i) ks of
          None \<Rightarrow> unlink_walk (hi_id hi) i k = Some None
        | Some t \<Rightarrow> \<exists>nodes'. unlink_walk (hi_id hi) i k = Some (Some (t, nodes')) \<and>
            length nodes' = length (hi_id hi) \<and> (\<forall>x. x \<notin> set (k # ks) \<longrightarrow> nodes' ! x = hi_id hi ! x) \<and>
            (\<forall>x. nd_id (nodes' ! x) = nd_id (hi_id hi ! x)) \<and> chain nd_next nodes' (Some k) (k # removeAll t ks)"
        using c k Cons by (intro unlink_walk_chain) auto
      show ?thesis
      proof (cases "id_map hi i")
        case None
        with w f get k False Cons show ?thesis by (simp add: hashid_remove_def)
      next
        case (Some t)
        with w f Cons False obtain nodes' where n: "unlink_walk (hi_id hi) i k = Some (Some (t, nodes'))"
          "length nodes' = length (hi_id hi)" "\<And>x. x \<notin> set (k # ks) \<Longrightarrow> nodes' ! x = hi_id hi ! x"
          "\<And>x. nd_id (nodes' ! x) = nd_id (hi_id hi ! x)" "chain nd_next nodes' (Some k) (k # removeAll t ks)"
          by auto
        have tk: "t \<noteq> k" "t < length (hi_id hi)"
          using id_map_Some[OF ok, of i t] Some i False by auto
        have "hashid_remove hi i = Some (clear_node (hi\<lparr>hi_id := nodes'\<rparr>) t)"
          using get k False n(1) by (simp add: hashid_remove_def)
        moreover have "hash_ok (hi\<lparr>hi_hash := (hi_hash hi)[nat i mod 2 ^ p := Some k],
            hi_id := nodes'[t := \<lparr>nd_id = -1, nd_next = None\<rparr>], hi_count := hi_count hi - 1\<rparr>)"
          using n tk Cons by (intro unlinked_ok[OF ok p i Some]) (auto simp flip: b_def)
        moreover have "hi\<lparr>hi_hash := (hi_hash hi)[nat i mod 2 ^ p := Some k]\<rparr> = hi"
          using k(1) by (simp add: b_def flip: k(1))
        ultimately show ?thesis
          using Some n tk by (auto simp: clear_node_def nth_list_update b_def)
      qed
    qed
  qed
qed

section \<open>The contract of the table\<close>

text \<open>The slot of every id is read from the ids of the nodes.\<close>

lemma id_map_eqI:
  assumes "hash_ok hi" "\<And>i x. i \<noteq> -1 \<Longrightarrow> m i = Some x \<longleftrightarrow> x < length (hi_id hi) \<and> nd_id (hi_id hi ! x) = i" "m (-1) = None"
  shows "id_map hi = m"
proof
  fix i
  show "id_map hi i = m i"
  proof (cases "i = -1")
    case False
    then have "\<And>x. id_map hi i = Some x \<longleftrightarrow> m i = Some x"
      using id_map_Some[OF assms(1)] assms(2) by simp
    then show ?thesis by (metis option.exhaust)
  qed (simp add: assms(3) id_map_def)
qed

lemma id_map_insert:
  assumes "hash_ok hi" "hash_ok hi'" "0 \<le> i" "k < length (hi_id hi)" "nd_id (hi_id hi ! k) = -1"
    "hi_id hi' = (hi_id hi)[k := hi_id hi' ! k]" "nd_id (hi_id hi' ! k) = i" "id_map hi i = None"
  shows "id_map hi' = (id_map hi)(i \<mapsto> k)"
proof (rule id_map_eqI[OF assms(2)])
  fix j x :: int and y :: nat
  have len: "length (hi_id hi') = length (hi_id hi)"
    using assms(6) by (metis length_list_update)
  have other: "hi_id hi' ! y = hi_id hi ! y" if "y \<noteq> k"
    using assms(6) that by (metis nth_list_update_neq)
  assume "j \<noteq> -1"
  then show "((id_map hi)(i \<mapsto> k)) j = Some y \<longleftrightarrow> y < length (hi_id hi') \<and> nd_id (hi_id hi' ! y) = j"
    using assms(3,4,5,7,8) id_map_Some[OF assms(1), of j y] id_map_None[of i hi] other len
    by (cases "y = k") auto
qed (use assms(3) in \<open>auto simp: id_map_def\<close>)

lemma id_map_remove:
  assumes "hash_ok hi" "hash_ok hi'" "0 \<le> i" "id_map hi i = Some t" "length (hi_id hi') = length (hi_id hi)"
    "\<And>x. nd_id (hi_id hi' ! x) = (if x = t then -1 else nd_id (hi_id hi ! x))"
  shows "id_map hi' = (id_map hi)(i := None)"
proof (rule id_map_eqI[OF assms(2)])
  fix j :: int and y :: nat
  assume j: "j \<noteq> -1"
  then show "((id_map hi)(i := None)) j = Some y \<longleftrightarrow> y < length (hi_id hi') \<and> nd_id (hi_id hi' ! y) = j"
    using assms(3-6) id_map_Some[OF assms(1) j, of y] id_map_Some[OF assms(1), of i t]
      id_map_Some[OF assms(1), of i y] by (cases "y = t") auto
qed (use assms(3) in \<open>auto simp: id_map_def\<close>)

lemma hash_full_card:
  assumes "hash_ok hi"
  shows "hi_count hi = int (card (dom (id_map hi)))" "finite (dom (id_map hi))"
proof -
  let ?A = "{x. x < length (hi_id hi) \<and> nd_id (hi_id hi ! x) \<noteq> -1}"
  have "dom (id_map hi) = (\<lambda>x. nd_id (hi_id hi ! x)) ` ?A"
  proof (rule set_eqI)
    fix i
    show "i \<in> dom (id_map hi) \<longleftrightarrow> i \<in> (\<lambda>x. nd_id (hi_id hi ! x)) ` ?A"
      using id_map_Some[OF assms, of i] by (cases "i = -1") (auto simp: id_map_def)
  qed
  moreover have "inj_on (\<lambda>x. nd_id (hi_id hi ! x)) ?A"
    using assms by (auto simp: inj_on_def hash_ok_def)
  ultimately show "hi_count hi = int (card (dom (id_map hi)))" "finite (dom (id_map hi))"
    using assms by (auto simp: hash_ok_def card_image)
qed

interpretation conns: slot_table id_map hash_ok "\<lambda>hi. length (hi_id hi)"
  "\<lambda>hi i. 0 \<le> i \<and> i + hi_cap hi \<le> INT_MAX + 1" hashid_lookup hashid_insert hashid_remove hashid_full
proof (unfold_locales, goal_cases)
  case (1 s k)
  then show ?case using hashid_lookup_ok by blast
next
  case (2 s k)
  then obtain x s' where r: "hashid_insert s k = Some (int x, s')" "x < length (hi_id s)" "nd_id (hi_id s ! x) = -1"
    "hash_ok s'" "hi_cap s' = hi_cap s" "hi_id s' = (hi_id s)[x := hi_id s' ! x]" "nd_id (hi_id s' ! x) = k"
    using hashid_insert_ok[of s k] by auto
  moreover have "id_map s' = (id_map s)(k \<mapsto> x)"
    using 2 r by (intro id_map_insert) auto
  moreover have "x \<notin> ran (id_map s)"
    using id_map_Some[OF 2(1)] r(3) by (auto simp: ran_def) (metis id_map_def option.distinct(1))
  moreover have "length (hi_id s') = length (hi_id s)"
    using r(6) by (metis length_list_update)
  ultimately show ?case by auto
next
  case (3 s k)
  show ?case
  proof (cases "id_map s k")
    case None
    with hashid_remove_ok[of s k] 3 show ?thesis by (auto simp: fun_upd_idem)
  next
    case (Some t)
    with hashid_remove_ok[of s k] 3 obtain s' where r: "hashid_remove s k = Some (int t, s')" "hash_ok s'"
      "hi_cap s' = hi_cap s" "length (hi_id s') = length (hi_id s)"
      "\<And>x. nd_id (hi_id s' ! x) = (if x = t then -1 else nd_id (hi_id s ! x))"
      by auto
    moreover have "id_map s' = (id_map s)(k := None)"
      using 3 r Some by (intro id_map_remove) auto
    ultimately show ?thesis using Some by auto
  qed
next
  case (4 s)
  then show ?case
    using hash_full_card[of s] by (simp add: hashid_full_def hash_ok_def)
next
  case (5 s)
  then show ?case by (rule hash_full_card)
next
  case (6 s j x k)
  then show ?case
    using id_map_Some[OF 6(1)] by (metis id_map_def option.distinct(1))
qed

section \<open>A new table\<close>

lemma hash_cap_pow:
  assumes "2 ^ p \<le> (2 ^ 30 :: int)" "mx \<le> 2 ^ 30"
  shows "\<exists>q. hash_cap (2 ^ p) mx = Some (2 ^ q) \<and> mx \<le> 2 ^ q"
  using assms
proof (induction "nat (mx - 2 ^ p)" arbitrary: p rule: less_induct)
  case less
  show ?case
  proof (cases "2 ^ p < mx")
    case True
    then have "(2 :: int) ^ p < 2 ^ 30" using less.prems by simp
    then have lt: "p < 30" using power_strict_increasing_iff[of "2::int" p 30] by simp
    then have le: "(2 :: int) ^ Suc p \<le> 2 ^ 30" using power_increasing_iff[of "2::int" "Suc p" 30] by simp
    then have "cint (2 ^ p * 2) = Some (2 ^ Suc p)"
      by (simp add: cint_def INT_MAX_def INT_MIN_def order_trans[OF _ zero_le_power])
    moreover have "nat (mx - 2 ^ Suc p) < nat (mx - 2 ^ p)" using True by simp
    ultimately show ?thesis
      using less.hyps[of "Suc p"] le less.prems(2) True by (subst hash_cap.simps) auto
  next
    case False
    then show ?thesis by (subst hash_cap.simps) auto
  qed
qed

lemma hash_cap_too_big:
  assumes "2 ^ p \<le> (2 ^ 30 :: int)" "2 ^ 30 < mx"
  shows "hash_cap (2 ^ p) mx = None"
  using assms
proof (induction "30 - p" arbitrary: p)
  case 0
  then have "p = 30" using power_increasing_iff[of "2::int" p 30] by simp
  with 0 show ?case by (subst hash_cap.simps) (simp add: cint_def INT_MAX_def)
next
  case (Suc d)
  then have le: "(2 :: int) ^ Suc p \<le> 2 ^ 30" using power_increasing_iff[of "2::int" "Suc p" 30] by simp
  then have "cint (2 ^ p * 2) = Some (2 ^ Suc p)"
    by (simp add: cint_def INT_MAX_def INT_MIN_def order_trans[OF _ zero_le_power])
  then show ?case
    using Suc.hyps(1)[of "Suc p"] Suc.hyps(2) Suc.prems le by (subst hash_cap.simps) auto
qed

lemma empty_hash_ok:
  "hash_ok \<lparr>hi_hashmod = 2 ^ q - 1, hi_cap = int n, hi_count = 0,
     hi_id = replicate n \<lparr>nd_id = -1, nd_next = None\<rparr>, hi_hash = replicate (2 ^ q) None\<rparr>"
proof -
  have "chains_ok \<lparr>hi_hashmod = 2 ^ q - 1, hi_cap = int n, hi_count = 0,
     hi_id = replicate n \<lparr>nd_id = -1, nd_next = None\<rparr>, hi_hash = replicate (2 ^ q) None\<rparr> (2 ^ q) (\<lambda>_. [])"
    by (simp add: chains_ok_def)
  moreover have "{x. x < n \<and> nd_id (replicate n \<lparr>nd_id = -1, nd_next = None\<rparr> ! x) \<noteq> -1} = {}"
    by auto
  ultimately show ?thesis
    unfolding hash_ok_def by (intro conjI exI[of _ q] exI[of _ "\<lambda>_. []"]) auto
qed

text \<open>The table is set up for every maximal number of connections up to \<open>2 ^ 30\<close>: the loop
  that doubles the hash size ends, and the new table is well formed and holds no id. For a larger
  number the doubling leaves the range of \<open>int\<close>.\<close>

theorem hashid_init_ok:
  assumes "0 \<le> mx"
  shows "if mx \<le> 2 ^ 30
    then \<exists>hi. hashid_init mx = Some hi \<and> hash_ok hi \<and> id_map hi = Map.empty \<and> hi_cap hi = mx
    else hashid_init mx = None"
proof (cases "mx \<le> 2 ^ 30")
  case True
  then obtain q where q: "hash_cap (2 ^ 4) mx = Some (2 ^ q)"
    using hash_cap_pow[of 4 mx] by auto
  let ?hi = "\<lparr>hi_hashmod = 2 ^ q - 1, hi_cap = mx, hi_count = 0,
     hi_id = replicate (nat mx) \<lparr>nd_id = -1, nd_next = None\<rparr>, hi_hash = replicate (2 ^ q) None\<rparr>"
  have "hashid_init mx = Some ?hi"
    using q by (simp add: hashid_init_def nat_power_eq)
  moreover have "hash_ok ?hi"
    using empty_hash_ok[of q "nat mx"] assms by simp
  moreover have "id_map ?hi = Map.empty"
    by (rule ext) (auto simp: id_map_def find_None_iff)
  ultimately show ?thesis using True by simp
next
  case False
  then show ?thesis
    using hash_cap_too_big[of 4 mx] by (simp add: hashid_init_def)
qed

theorem hashid_init_ok_witness:
  "\<exists>hi. hashid_init 1000 = Some hi \<and> hash_ok hi \<and> id_map hi = Map.empty \<and> hi_cap hi = 1000"
  using hashid_init_ok[of 1000] by simp

text \<open>Inserting a new socket id into a table that is not full takes a free slot and makes the id
  known under it: the look-up of the id returns the slot, and no other id's look-up changes or
  returns that slot. The search adds the id and the slot number in \<open>int\<close>, so the id must leave room
  for the capacity.\<close>

theorem hashid_insert_lookup:
  assumes "hash_ok hi" "0 \<le> i" "i + hi_cap hi \<le> INT_MAX + 1" "id_map hi i = None" "\<not> hashid_full hi"
  shows "\<exists>x hi'. hashid_insert hi i = Some (int x, hi') \<and> x < length (hi_id hi) \<and> hash_ok hi' \<and>
    hashid_lookup hi' i = Some (int x) \<and>
    (\<forall>j. j \<noteq> i \<longrightarrow> 0 \<le> j \<and> j + hi_cap hi \<le> INT_MAX + 1 \<longrightarrow>
       hashid_lookup hi' j = hashid_lookup hi j \<and> hashid_lookup hi j \<noteq> Some (int x))"
  using conns.insert_lookup[of hi i] assms by blast

definition demo_table :: hashid where
  "demo_table = \<lparr>hi_hashmod = 15, hi_cap = 2, hi_count = 0,
     hi_id = replicate 2 \<lparr>nd_id = -1, nd_next = None\<rparr>, hi_hash = replicate 16 None\<rparr>"

lemma demo_table_ok: "hash_ok demo_table" "\<not> hashid_full demo_table" "id_map demo_table = Map.empty" "hi_cap demo_table = 2"
proof -
  show "hash_ok demo_table"
    using empty_hash_ok[of 4 2] by (simp add: demo_table_def)
  show "id_map demo_table = Map.empty"
    by (rule ext) (simp add: id_map_def find_None_iff demo_table_def nth_Cons' numeral_2_eq_2)
qed (simp_all add: hashid_full_def demo_table_def)

theorem hashid_insert_lookup_witness:
  "\<exists>x hi'. hashid_insert demo_table 7 = Some (int x, hi') \<and> x < 2 \<and> hash_ok hi' \<and> hashid_lookup hi' 7 = Some (int x)"
proof -
  have "length (hi_id demo_table) = 2" by (simp add: demo_table_def)
  then show ?thesis
    using hashid_insert_lookup[of demo_table 7] demo_table_ok by (auto simp: INT_MAX_def)
qed

text \<open>Removing an id just inserted returns the slot the insertion returned and leaves the table
  well formed with the ids and slots it had before.\<close>

theorem hashid_insert_remove:
  assumes "hash_ok hi" "0 \<le> i" "i + hi_cap hi \<le> INT_MAX + 1" "id_map hi i = None" "\<not> hashid_full hi"
  shows "\<exists>x hi' hi''. hashid_insert hi i = Some (int x, hi') \<and> hashid_remove hi' i = Some (int x, hi'') \<and>
    hash_ok hi'' \<and> id_map hi'' = id_map hi"
  using conns.insert_remove[of hi i] assms by blast

theorem hashid_insert_remove_witness:
  "\<exists>x hi' hi''. hashid_insert demo_table 7 = Some (int x, hi') \<and> hashid_remove hi' 7 = Some (int x, hi'') \<and>
    hash_ok hi'' \<and> id_map hi'' = Map.empty"
  using hashid_insert_remove[of demo_table 7] demo_table_ok by (auto simp: INT_MAX_def)

end
