(* ===== verification/Socket.thy ===== *)
theory Socket
  imports Server
begin

text \<open>
  The link between the node and the socket server, \<open>skynet_socket.c\<close> with the inline functions of
  \<open>skynet_socket.h\<close>: the calls a service makes, each with the handle of the service as owner, and the
  events of the socket server, which become \<open>PTYPE_SOCKET\<close> messages of the owner. The socket server is
  a parameter: its calls are recorded in \<open>w_requests\<close>, \<open>x_socket\<close> gives their results, and the event
  of a poll is an argument.
\<close>

section \<open>Calls\<close>

definition SKYNET_SOCKET_TYPE_DATA :: int where "SKYNET_SOCKET_TYPE_DATA = 1"
definition SKYNET_SOCKET_TYPE_CONNECT :: int where "SKYNET_SOCKET_TYPE_CONNECT = 2"
definition SKYNET_SOCKET_TYPE_CLOSE :: int where "SKYNET_SOCKET_TYPE_CLOSE = 3"
definition SKYNET_SOCKET_TYPE_ACCEPT :: int where "SKYNET_SOCKET_TYPE_ACCEPT = 4"
definition SKYNET_SOCKET_TYPE_ERROR :: int where "SKYNET_SOCKET_TYPE_ERROR = 5"
definition SKYNET_SOCKET_TYPE_UDP :: int where "SKYNET_SOCKET_TYPE_UDP = 6"
definition SKYNET_SOCKET_TYPE_WARNING :: int where "SKYNET_SOCKET_TYPE_WARNING = 7"

definition SOCKET_BUFFER_MEMORY :: int where "SOCKET_BUFFER_MEMORY = 0"
definition SOCKET_BUFFER_OBJECT :: int where "SOCKET_BUFFER_OBJECT = 1"

definition socket_call :: "ext \<Rightarrow> socket_request \<Rightarrow> world \<Rightarrow> int \<times> world" where
  "socket_call x r w = (x_socket x (w_requests w) r, w\<lparr>w_requests := w_requests w @ [r]\<rparr>)"

text \<open>A call on behalf of a service; \<open>f\<close> makes the request of the owner's handle.\<close>

definition owner_call :: "ext \<Rightarrow> addr \<Rightarrow> (u32 \<Rightarrow> socket_request) \<Rightarrow> world \<Rightarrow> (int \<times> world) option" where
  "owner_call x ctx f w = do {
     source \<leftarrow> skynet_context_handle ctx w;
     Some (socket_call x (f source) w) }"

definition skynet_socket_exit :: "ext \<Rightarrow> world \<Rightarrow> world" where
  "skynet_socket_exit x w = snd (socket_call x Ss_exit w)"

definition skynet_socket_updatetime :: "ext \<Rightarrow> world \<Rightarrow> world" where
  "skynet_socket_updatetime x w = snd (socket_call x (Ss_updatetime (skynet_now (w_timer w))) w)"

definition skynet_socket_sendbuffer :: "ext \<Rightarrow> socket_sendbuffer \<Rightarrow> world \<Rightarrow> int \<times> world" where
  "skynet_socket_sendbuffer x buffer w = socket_call x (Ss_send buffer) w"

definition skynet_socket_sendbuffer_lowpriority :: "ext \<Rightarrow> socket_sendbuffer \<Rightarrow> world \<Rightarrow> int \<times> world" where
  "skynet_socket_sendbuffer_lowpriority x buffer w = socket_call x (Ss_send_lowpriority buffer) w"

definition skynet_socket_listen :: "ext \<Rightarrow> addr \<Rightarrow> string \<Rightarrow> int \<Rightarrow> int \<Rightarrow> world \<Rightarrow> (int \<times> world) option" where
  "skynet_socket_listen x ctx host port backlog w = owner_call x ctx (\<lambda>source. Ss_listen source host port backlog) w"

definition skynet_socket_connect :: "ext \<Rightarrow> addr \<Rightarrow> string \<Rightarrow> int \<Rightarrow> world \<Rightarrow> (int \<times> world) option" where
  "skynet_socket_connect x ctx host port w = owner_call x ctx (\<lambda>source. Ss_connect source host port) w"

definition skynet_socket_bind :: "ext \<Rightarrow> addr \<Rightarrow> int \<Rightarrow> world \<Rightarrow> (int \<times> world) option" where
  "skynet_socket_bind x ctx fd w = owner_call x ctx (\<lambda>source. Ss_bind source fd) w"

definition skynet_socket_close :: "ext \<Rightarrow> addr \<Rightarrow> int \<Rightarrow> world \<Rightarrow> world option" where
  "skynet_socket_close x ctx i w = map_option snd (owner_call x ctx (\<lambda>source. Ss_close source i) w)"

definition skynet_socket_shutdown :: "ext \<Rightarrow> addr \<Rightarrow> int \<Rightarrow> world \<Rightarrow> world option" where
  "skynet_socket_shutdown x ctx i w = map_option snd (owner_call x ctx (\<lambda>source. Ss_shutdown source i) w)"

definition skynet_socket_start :: "ext \<Rightarrow> addr \<Rightarrow> int \<Rightarrow> world \<Rightarrow> world option" where
  "skynet_socket_start x ctx i w = map_option snd (owner_call x ctx (\<lambda>source. Ss_start source i) w)"

definition skynet_socket_pause :: "ext \<Rightarrow> addr \<Rightarrow> int \<Rightarrow> world \<Rightarrow> world option" where
  "skynet_socket_pause x ctx i w = map_option snd (owner_call x ctx (\<lambda>source. Ss_pause source i) w)"

definition skynet_socket_nodelay :: "ext \<Rightarrow> int \<Rightarrow> world \<Rightarrow> world" where
  "skynet_socket_nodelay x i w = snd (socket_call x (Ss_nodelay i) w)"

definition skynet_socket_udp :: "ext \<Rightarrow> addr \<Rightarrow> string option \<Rightarrow> int \<Rightarrow> world \<Rightarrow> (int \<times> world) option" where
  "skynet_socket_udp x ctx address port w = owner_call x ctx (\<lambda>source. Ss_udp source address port) w"

definition skynet_socket_udp_connect :: "ext \<Rightarrow> int \<Rightarrow> string option \<Rightarrow> int \<Rightarrow> world \<Rightarrow> int \<times> world" where
  "skynet_socket_udp_connect x i address port w = socket_call x (Ss_udp_connect i address port) w"

definition skynet_socket_udp_sendbuffer ::
  "ext \<Rightarrow> string option \<Rightarrow> socket_sendbuffer \<Rightarrow> world \<Rightarrow> int \<times> world" where
  "skynet_socket_udp_sendbuffer x address buffer w = socket_call x (Ss_udp_send address buffer) w"

definition sendbuffer_init :: "int \<Rightarrow> addr option \<Rightarrow> int \<Rightarrow> socket_sendbuffer" where
  "sendbuffer_init i buffer sz =
     \<lparr>sb_id = i, sb_type = (if sz < 0 then SOCKET_BUFFER_OBJECT else SOCKET_BUFFER_MEMORY),
      sb_buffer = buffer, sb_sz = word_of_int sz\<rparr>"

definition skynet_socket_send :: "ext \<Rightarrow> int \<Rightarrow> addr option \<Rightarrow> int \<Rightarrow> world \<Rightarrow> int \<times> world" where
  "skynet_socket_send x i buffer sz w = skynet_socket_sendbuffer x (sendbuffer_init i buffer sz) w"

definition skynet_socket_send_lowpriority :: "ext \<Rightarrow> int \<Rightarrow> addr option \<Rightarrow> int \<Rightarrow> world \<Rightarrow> int \<times> world" where
  "skynet_socket_send_lowpriority x i buffer sz w =
     skynet_socket_sendbuffer_lowpriority x (sendbuffer_init i buffer sz) w"

definition skynet_socket_udp_send ::
  "ext \<Rightarrow> int \<Rightarrow> string option \<Rightarrow> addr option \<Rightarrow> int \<Rightarrow> world \<Rightarrow> int \<times> world" where
  "skynet_socket_udp_send x i address buffer sz w =
     skynet_socket_udp_sendbuffer x address (sendbuffer_init i buffer sz) w"

section \<open>Events\<close>

datatype socket_event = SOCKET_DATA | SOCKET_CLOSE | SOCKET_OPEN | SOCKET_ACCEPT | SOCKET_ERR | SOCKET_EXIT
  | SOCKET_UDP | SOCKET_WARNING | Other_event int

text \<open>\<open>data\<close> is a heap block for the events that carry bytes, a C string for those that carry text.\<close>

record socket_message =
  so_id :: int
  so_opaque :: u64
  so_ud :: int
  so_data :: cdata

definition SIZEOF_SOCKET_MESSAGE :: u64 where "SIZEOF_SOCKET_MESSAGE = 24"

text \<open>The text of an event with padding, cut at 128 bytes; the memory the pointer points to must hold
  its terminating zero.\<close>

definition event_text :: "ext \<Rightarrow> cdata \<Rightarrow> world \<Rightarrow> u8 list option" where
  "event_text x d w = do {
     bs \<leftarrow> (case d of
              NoData \<Rightarrow> Some [0]
            | Buf bs \<Rightarrow> Some bs
            | Blk a \<Rightarrow> (case w_heap w a of None \<Rightarrow> None | Some (Bytes bs) \<Rightarrow> Some bs | Some b \<Rightarrow> Some (x_raw x b)));
     if 0 \<in> set bs then Some (take 128 (takeWhile (\<lambda>b. b \<noteq> 0) bs)) else None }"

definition socket_message_push ::
  "ext \<Rightarrow> u32 \<Rightarrow> skynet_socket_message \<Rightarrow> u8 list \<Rightarrow> world \<Rightarrow> world option" where
  "socket_message_push x handle sm tail w = do {
     let sz = SIZEOF_SOCKET_MESSAGE + of_nat (length tail);
     let (a, w) = skynet_malloc (Sock sm tail) w;
     (r, w) \<leftarrow> skynet_context_push x handle
       \<lparr>msg_source = 0, msg_session = 0, msg_data = Some a,
        msg_sz = sz OR push_bit MESSAGE_TYPE_SHIFT (word_of_int PTYPE_SOCKET)\<rparr> w;
     if r \<noteq> 0 then do {
       w \<leftarrow> skynet_free (sm_buffer sm) w;
       skynet_free (Some a) w }
     else Some w }"

definition forward_message :: "ext \<Rightarrow> int \<Rightarrow> bool \<Rightarrow> socket_message \<Rightarrow> world \<Rightarrow> world option" where
  "forward_message x type padding result w = do {
     (buffer, tail) \<leftarrow> (if padding
        then do { t \<leftarrow> event_text x (so_data result) w; Some (None, t) }
        else do { p \<leftarrow> own_block (so_data result); Some (p, []) });
     socket_message_push x (to_u32 (so_opaque result))
       \<lparr>sm_type = type, sm_id = so_id result, sm_ud = so_ud result, sm_buffer = buffer\<rparr> tail w }"

text \<open>\<open>type\<close>, \<open>result\<close> and \<open>again\<close> (\<open>more\<close>) are what \<open>socket_server_poll\<close> returned.\<close>

definition skynet_socket_poll ::
  "ext \<Rightarrow> socket_event \<Rightarrow> socket_message \<Rightarrow> bool \<Rightarrow> world \<Rightarrow> (int \<times> world) option" where
  "skynet_socket_poll x type result again w =
     (let fwd = (\<lambda>t padding. do {
            w \<leftarrow> forward_message x t padding result w;
            Some (if again then -1 else 1, w) })
      in case type of
           SOCKET_EXIT \<Rightarrow> Some (0, w)
         | SOCKET_DATA \<Rightarrow> fwd SKYNET_SOCKET_TYPE_DATA False
         | SOCKET_CLOSE \<Rightarrow> fwd SKYNET_SOCKET_TYPE_CLOSE False
         | SOCKET_OPEN \<Rightarrow> fwd SKYNET_SOCKET_TYPE_CONNECT True
         | SOCKET_ERR \<Rightarrow> fwd SKYNET_SOCKET_TYPE_ERROR True
         | SOCKET_ACCEPT \<Rightarrow> fwd SKYNET_SOCKET_TYPE_ACCEPT True
         | SOCKET_UDP \<Rightarrow> fwd SKYNET_SOCKET_TYPE_UDP False
         | SOCKET_WARNING \<Rightarrow> fwd SKYNET_SOCKET_TYPE_WARNING False
         | Other_event t \<Rightarrow> do {
             w \<leftarrow> skynet_error x None (''Unknown socket message type '' @ fmt_d t @ ''.'') w;
             Some (-1, w) })"

section \<open>Properties\<close>

text \<open>Frame rules for the calls.\<close>

lemma handle_of_requests [simp]: "handle_of (w\<lparr>w_requests := r\<rparr>) = handle_of w"
  by (simp add: handle_of_def fun_eq_iff)

lemma node_ok_requests [simp]: "node_ok (w\<lparr>w_requests := r\<rparr>) qs = node_ok w qs"
  by (simp add: node_ok_def gq_rep_def)

lemma mailbox_requests [simp]: "mailbox (w\<lparr>w_requests := r\<rparr>) = mailbox w"
  by (auto simp: mailbox_def fun_eq_iff split: option.split)

lemma socket_close_eq:
  "w_ctxs w ctx = Some cx \<Longrightarrow> skynet_socket_close x ctx i w = Some (w\<lparr>w_requests := w_requests w @ [Ss_close (cx_handle cx) i]\<rparr>)"
  by (simp add: skynet_socket_close_def owner_call_def skynet_context_handle_def socket_call_def)

lemma socket_start_eq:
  "w_ctxs w ctx = Some cx \<Longrightarrow> skynet_socket_start x ctx i w = Some (w\<lparr>w_requests := w_requests w @ [Ss_start (cx_handle cx) i]\<rparr>)"
  by (simp add: skynet_socket_start_def owner_call_def skynet_context_handle_def socket_call_def)

text \<open>An event reaches the mailbox of the owner with its block, or, when there is no such service, the
  message and the block of bytes it carries are freed.\<close>

lemma socket_message_push_ok:
  assumes ok: "node_ok w qs" and heap: "heap_ok w" and b: "\<And>b. sm_buffer sm = Some b \<Longrightarrow> w_heap w b \<noteq> None"
  shows "case mailbox w h of
      None \<Rightarrow> (\<exists>w'. socket_message_push x h sm tail w = Some w' \<and> node_ok w' qs \<and> mailbox w' = mailbox w \<and>
        w_heap w' = (case sm_buffer sm of None \<Rightarrow> w_heap w | Some b \<Rightarrow> (w_heap w)(b := None)))
    | Some ms \<Rightarrow> length ms < 2 ^ 29 - 1 \<longrightarrow>
        (\<exists>w' qs'. socket_message_push x h sm tail w = Some w' \<and> node_ok w' qs' \<and>
           w_heap w' = (w_heap w)(w_heap_brk w \<mapsto> Sock sm tail) \<and>
           mailbox w' = (mailbox w)(h \<mapsto> ms @ [message_of 0 0 PTYPE_SOCKET (Some (w_heap_brk w))
             (SIZEOF_SOCKET_MESSAGE + of_nat (length tail))]))"
proof -
  define w1 where "w1 = w\<lparr>w_heap := (w_heap w)(w_heap_brk w \<mapsto> Sock sm tail), w_heap_brk := Suc (w_heap_brk w)\<rparr>"
  let ?m = "message_of 0 0 PTYPE_SOCKET (Some (w_heap_brk w)) (SIZEOF_SOCKET_MESSAGE + of_nat (length tail))"
  have h: "node_ok w1 qs" "mailbox w1 = mailbox w"
    using ok by (simp_all add: w1_def)
  have eq: "socket_message_push x h sm tail w = do {
      (r, w2) \<leftarrow> skynet_context_push x h ?m w1;
      if r \<noteq> 0 then do { w3 \<leftarrow> skynet_free (sm_buffer sm) w2; skynet_free (Some (w_heap_brk w)) w3 } else Some w2 }"
    by (simp add: socket_message_push_def skynet_malloc_def message_of_def Let_def flip: w1_def)
  have fresh: "w_heap w (w_heap_brk w) = None"
    using heap by (simp add: heap_ok_def)
  note push = context_push_mailbox[OF h(1), where h = h and x = x and m = ?m]
  show ?thesis
  proof (cases "mailbox w h")
    case None
    have nb: "sm_buffer sm \<noteq> Some (w_heap_brk w)" using b fresh by auto
    have "(w_heap w)(w_heap_brk w := None) = w_heap w"
      "(w_heap w)(c := None, w_heap_brk w := None) = (w_heap w)(c := None)" for c
      using fresh by (simp_all add: fun_upd_idem)
    then show ?thesis
      using None push h(2) b nb ok
      by (auto simp: eq skynet_free_def w1_def fun_upd_twist[of "w_heap_brk w"] split: option.split)
  next
    case (Some ms)
    show ?thesis
    proof (simp only: Some option.case, intro impI)
      assume "length ms < 2 ^ 29 - 1"
      then obtain w' qs' where w': "skynet_context_push x h ?m w1 = Some (0, w')" "node_ok w' qs'"
        "mq_state.more w' = mq_state.more w1" "mailbox w' = (mailbox w)(h \<mapsto> ms @ [?m])"
        using push Some h(2) by auto
      then show "\<exists>w' qs'. socket_message_push x h sm tail w = Some w' \<and> node_ok w' qs' \<and>
           w_heap w' = (w_heap w)(w_heap_brk w \<mapsto> Sock sm tail) \<and> mailbox w' = (mailbox w)(h \<mapsto> ms @ [?m])"
        using world_more_eqD(3)[OF w'(3)] by (auto simp: eq w1_def)
    qed
  qed
qed

text \<open>Bytes that arrive on a socket are delivered or freed: the event of a poll becomes one
  \<open>PTYPE_SOCKET\<close> message at the end of the owner's mailbox that carries the socket id, the size and the
  block, which the owner now owns; when the owner is gone the block is freed and nothing is left in the
  heap. The poll asks to be called again when there is more.\<close>

theorem socket_data_delivered:
  assumes "node_ok w qs" "heap_ok w" "w_heap w b \<noteq> None"
    "result = \<lparr>so_id = i, so_opaque = ucast owner, so_ud = n, so_data = Blk b\<rparr>"
  shows "case mailbox w owner of
      None \<Rightarrow> (\<exists>w'. skynet_socket_poll x SOCKET_DATA result again w = Some (if again then -1 else 1, w') \<and>
        mailbox w' = mailbox w \<and> w_heap w' = (w_heap w)(b := None))
    | Some ms \<Rightarrow> length ms < 2 ^ 29 - 1 \<longrightarrow>
        (\<exists>w' qs' a. skynet_socket_poll x SOCKET_DATA result again w = Some (if again then -1 else 1, w') \<and>
           node_ok w' qs' \<and> w_heap w a = None \<and>
           w_heap w' = (w_heap w)(a \<mapsto> Sock \<lparr>sm_type = SKYNET_SOCKET_TYPE_DATA, sm_id = i, sm_ud = n, sm_buffer = Some b\<rparr> []) \<and>
           mailbox w' = (mailbox w)(owner \<mapsto> ms @ [message_of 0 0 PTYPE_SOCKET (Some a) SIZEOF_SOCKET_MESSAGE]))"
proof -
  let ?sm = "\<lparr>sm_type = SKYNET_SOCKET_TYPE_DATA, sm_id = i, sm_ud = n, sm_buffer = Some b\<rparr>"
  have u: "to_u32 (ucast owner) = owner"
    by (simp add: to_u32_def ucast_down_ucast_id is_down)
  have poll: "skynet_socket_poll x SOCKET_DATA result again w =
      map_option (\<lambda>w'. (if again then -1 else 1, w')) (socket_message_push x owner ?sm [] w)"
    by (cases "socket_message_push x owner ?sm [] w")
      (simp_all add: skynet_socket_poll_def forward_message_def own_block_def assms(4) u Let_def)
  have fresh: "w_heap w (w_heap_brk w) = None"
    using assms(2) by (simp add: heap_ok_def)
  show ?thesis
    unfolding poll
    using socket_message_push_ok[OF assms(1,2), of ?sm, where h = owner and x = x and tail = "[]"] assms(3) fresh
    by (auto split: option.splits)
qed

theorem socket_data_delivered_witness:
  "\<exists>w' a. skynet_socket_poll demo_ext SOCKET_DATA \<lparr>so_id = 3, so_opaque = 1, so_ud = 2, so_data = Blk 7\<rparr> False
       (demo_node\<lparr>w_heap := [7 \<mapsto> Bytes [1, 2]], w_heap_brk := 8\<rparr>) = Some (1, w') \<and>
     mailbox w' 1 = Some [message_of 0 0 PTYPE_SOCKET (Some a) SIZEOF_SOCKET_MESSAGE]"
proof -
  let ?w = "demo_node\<lparr>w_heap := [7 \<mapsto> Bytes [1, 2]], w_heap_brk := 8\<rparr>"
  have "node_ok ?w []" "heap_ok ?w" "mailbox ?w 1 = Some []"
    using demo_node_ok by (simp_all add: heap_ok_def demo_mailbox)
  then show ?thesis
    using socket_data_delivered[of ?w "[]" 7 "\<lparr>so_id = 3, so_opaque = 1, so_ud = 2, so_data = Blk 7\<rparr>" 3 1 2 demo_ext False]
    by auto
qed

end
