(* ===== verification/Framing.thy ===== *)
theory Framing
  imports Prelude
begin

text \<open>
  The wire format of client connections, as an abstract specification: a stream of bytes is a sequence
  of frames, each a big-endian length of \<open>hs\<close> bytes and that many bytes of payload. \<open>frames\<close> splits the
  bytes received so far into the payloads that are complete and the rest. That the split does not
  depend on how the stream was cut into chunks is shown here once; the gate and \<open>lua-netpack.c\<close> are
  proved to deliver this split.
\<close>

definition be_value :: "u8 list \<Rightarrow> nat" where
  "be_value bs = foldl (\<lambda>n b. n * 256 + unat b) 0 bs"

definition complete :: "nat \<Rightarrow> u8 list \<Rightarrow> bool" where
  "complete hs bs \<longleftrightarrow> hs \<le> length bs \<and> hs + be_value (take hs bs) \<le> length bs"

function frames :: "nat \<Rightarrow> u8 list \<Rightarrow> u8 list list \<times> u8 list" where
  "frames hs bs =
     (if 0 < hs \<and> complete hs bs
      then let n = be_value (take hs bs); (fs, rest) = frames hs (drop (hs + n) bs)
           in (take n (drop hs bs) # fs, rest)
      else ([], bs))"
  by pat_completeness auto
termination
  by (relation "measure (\<lambda>(hs, bs). length bs)") (auto simp: complete_def)

declare frames.simps [simp del]

lemma frames_incomplete: "\<not> (0 < hs \<and> complete hs bs) \<Longrightarrow> frames hs bs = ([], bs)"
  by (subst frames.simps) (simp only: if_False)

lemma frames_complete:
  assumes "0 < hs" "complete hs bs"
  shows "frames hs bs =
    (take (be_value (take hs bs)) (drop hs bs) # fst (frames hs (drop (hs + be_value (take hs bs)) bs)),
     snd (frames hs (drop (hs + be_value (take hs bs)) bs)))"
  using assms by (subst frames.simps) (simp add: Let_def split_beta)

text \<open>The split of a stream goes on where it stopped when more bytes arrive.\<close>

theorem frames_append:
  assumes "0 < hs"
  shows "frames hs (bs @ cs) =
    (fst (frames hs bs) @ fst (frames hs (snd (frames hs bs) @ cs)), snd (frames hs (snd (frames hs bs) @ cs)))"
proof (induction hs bs rule: frames.induct)
  case (1 hs bs)
  show ?case
  proof (cases "0 < hs \<and> complete hs bs")
    case True
    define n where "n = be_value (take hs bs)"
    have c: "complete hs (bs @ cs)" "take hs (bs @ cs) = take hs bs"
      "take n (drop hs (bs @ cs)) = take n (drop hs bs)" "drop (hs + n) (bs @ cs) = drop (hs + n) bs @ cs"
      using True by (auto simp: complete_def n_def)
    have "frames hs (bs @ cs) = (take n (drop hs bs) # fst (frames hs (drop (hs + n) bs @ cs)), snd (frames hs (drop (hs + n) bs @ cs)))"
      using frames_complete[OF conjunct1[OF True] c(1)] unfolding c(2) n_def[symmetric] c(3,4) .
    moreover have "frames hs bs = (take n (drop hs bs) # fst (frames hs (drop (hs + n) bs)), snd (frames hs (drop (hs + n) bs)))"
      using frames_complete[of hs bs] True by (simp flip: n_def)
    ultimately show ?thesis
      using 1[OF True n_def] by simp
  next
    case False
    then have "frames hs bs = ([], bs)" by (rule frames_incomplete)
    then show ?thesis by simp
  qed
qed

lemma frames_stop: "frames hs (snd (frames hs bs)) = ([], snd (frames hs bs))"
proof (induction hs bs rule: frames.induct)
  case (1 hs bs)
  show ?case
  proof (cases "0 < hs \<and> complete hs bs")
    case True
    then show ?thesis using 1[OF True refl] by (simp add: frames_complete[of hs bs])
  next
    case False
    then have "frames hs bs = ([], bs)" by (rule frames_incomplete)
    then show ?thesis by simp
  qed
qed

lemma frames_length: "length (snd (frames hs bs)) \<le> length bs"
proof (induction hs bs rule: frames.induct)
  case (1 hs bs)
  show ?case
  proof (cases "0 < hs \<and> complete hs bs")
    case True
    then show ?thesis using 1[OF True refl] by (simp add: frames_complete[of hs bs])
  next
    case False
    then have "frames hs bs = ([], bs)" by (rule frames_incomplete)
    then show ?thesis by simp
  qed
qed

text \<open>Splitting a stream chunk by chunk gives the payloads of the whole stream, however it was cut.\<close>

fun feed :: "nat \<Rightarrow> u8 list \<Rightarrow> u8 list list \<Rightarrow> u8 list list \<times> u8 list" where
  "feed hs rest [] = ([], rest)"
| "feed hs rest (c # cs) =
     (let (fs, rest') = frames hs (rest @ c); (fs', rest'') = feed hs rest' cs in (fs @ fs', rest''))"

theorem feed_eq_frames:
  assumes "0 < hs" "frames hs rest = ([], rest)"
  shows "feed hs rest cs = frames hs (rest @ concat cs)"
  using assms(2)
proof (induction cs arbitrary: rest)
  case (Cons c cs)
  define fs r where "fs = fst (frames hs (rest @ c))" and "r = snd (frames hs (rest @ c))"
  have e: "frames hs (rest @ c) = (fs, r)" by (simp add: fs_def r_def)
  have stop: "frames hs r = ([], r)"
    using frames_stop[of hs "rest @ c"] by (simp add: r_def)
  show ?case
    using Cons.IH[OF stop] frames_append[OF assms(1), of "rest @ c" "concat cs"] e by (simp add: split_beta)
qed simp

section \<open>Encoding\<close>

definition be_bytes :: "nat \<Rightarrow> nat \<Rightarrow> u8 list" where
  "be_bytes hs n = map (\<lambda>i. of_nat (n div 256 ^ (hs - 1 - i))) [0..<hs]"

definition frame :: "nat \<Rightarrow> u8 list \<Rightarrow> u8 list" where
  "frame hs p = be_bytes hs (length p) @ p"

lemma length_be_bytes [simp]: "length (be_bytes hs n) = hs"
  by (simp add: be_bytes_def)

lemma be_value_append: "be_value (bs @ [b]) = be_value bs * 256 + unat b"
  by (simp add: be_value_def)

lemma be_value_bound: "be_value bs < 256 ^ length bs"
proof (induction bs rule: rev_induct)
  case (snoc b bs)
  have "unat b < 256" using unsigned_less[of b] by simp
  with snoc show ?case by (simp add: be_value_append)
qed (simp add: be_value_def)

lemma be_bytes_Suc: "be_bytes (Suc hs) n = be_bytes hs (n div 256) @ [of_nat n]"
proof -
  have "n div 256 ^ (hs - i) = n div 256 div 256 ^ (hs - 1 - i)" if "i < hs" for i
  proof -
    have "hs - i = Suc (hs - 1 - i)" using that by simp
    then show ?thesis by (simp add: div_mult2_eq)
  qed
  then show ?thesis by (simp add: be_bytes_def)
qed

lemma be_value_be_bytes: "n < 256 ^ hs \<Longrightarrow> be_value (be_bytes hs n) = n"
proof (induction hs arbitrary: n)
  case 0
  then show ?case by (simp add: be_bytes_def be_value_def)
next
  case (Suc hs)
  have "unat (of_nat n :: u8) = n mod 256" by (simp add: unat_of_nat)
  moreover have "n div 256 < 256 ^ hs" using Suc.prems by (simp add: less_mult_imp_div_less mult.commute)
  ultimately show ?case using Suc.IH by (simp add: be_bytes_Suc be_value_append)
qed

lemma be_bytes_be_value: "be_bytes (length bs) (be_value bs) = bs"
proof (induction bs rule: rev_induct)
  case (snoc b bs)
  have "unat b < 256" using unsigned_less[of b] by simp
  then have "(be_value bs * 256 + unat b) div 256 = be_value bs" by simp
  moreover have "(of_nat (be_value bs * 256 + unat b) :: u8) = b"
  proof -
    have "(256 :: u8) = 0" by simp
    then show ?thesis by (simp only: of_nat_add of_nat_mult of_nat_numeral) simp
  qed
  ultimately show ?case using snoc by (simp add: be_value_append be_bytes_Suc)
qed (simp add: be_bytes_def)

text \<open>Framing payloads and splitting the stream gives the payloads back.\<close>

theorem frames_frame:
  assumes "0 < hs" "\<And>p. p \<in> set ps \<Longrightarrow> length p < 256 ^ hs" "\<not> complete hs rest"
  shows "frames hs (concat (map (frame hs) ps) @ rest) = (ps, rest)"
  using assms(2)
proof (induction ps)
  case Nil
  then show ?case using assms(3) by (simp add: frames_incomplete)
next
  case (Cons p ps)
  have v: "be_value (be_bytes hs (length p)) = length p"
    using Cons.prems by (intro be_value_be_bytes) auto
  let ?bs = "frame hs p @ concat (map (frame hs) ps) @ rest"
  have c: "complete hs ?bs" "be_value (take hs ?bs) = length p" "take (length p) (drop hs ?bs) = p"
    "drop (hs + length p) ?bs = concat (map (frame hs) ps) @ rest"
    using v by (simp_all add: frame_def complete_def)
  show ?case
    using frames_complete[OF assms(1) c(1)] Cons unfolding c(2-4) by simp
qed

text \<open>The bytes of a word.\<close>

lemma byte_of_word: "(ucast (drop_bit k w AND 255) :: u8) = of_nat (unat w div 2 ^ k)" for w :: u32
  using unat_and_mask[of "drop_bit k w" 8]
  by (simp add: word_unat_eq_iff unat_of_nat unsigned_ucast_eq take_bit_nat_def unat_drop_div)

lemma length_4: "length xs = 4 \<Longrightarrow> \<exists>a b c d. xs = [a, b, c, d]"
  by (auto simp: numeral_eq_Suc length_Suc_conv)

section \<open>The contract of a byte buffer\<close>

text \<open>What the parser of a stream needs of the buffer it reads from: \<open>put\<close> appends the bytes of a block that
  is \<open>ready\<close>, \<open>get\<close> takes bytes from the front.\<close>

locale byte_buffer =
  fixes holds :: "'s \<Rightarrow> u8 list \<Rightarrow> bool"
    and ready :: "'s \<Rightarrow> 'd \<Rightarrow> u8 list \<Rightarrow> bool"
    and bound :: nat
    and put :: "'d \<Rightarrow> 's \<Rightarrow> 's option"
    and get :: "nat \<Rightarrow> 's \<Rightarrow> (u8 list \<times> 's) option"
  assumes put_law: "holds s bs \<Longrightarrow> ready s d cs \<Longrightarrow> length bs + length cs \<le> bound \<Longrightarrow>
      \<exists>s'. put d s = Some s' \<and> holds s' (bs @ cs)"
    and get_law: "holds s bs \<Longrightarrow> 0 < n \<Longrightarrow> n \<le> length bs \<Longrightarrow>
      \<exists>s'. get n s = Some (take n bs, s') \<and> holds s' (drop n bs)"
begin

text \<open>Reading in pieces.\<close>

fun get_all :: "nat list \<Rightarrow> 's \<Rightarrow> (u8 list list \<times> 's) option" where
  "get_all [] s = Some ([], s)"
| "get_all (n # ns) s = do { (b, s') \<leftarrow> get n s; (bs, s'') \<leftarrow> get_all ns s'; Some (b # bs, s'') }"

theorem get_all_concat:
  assumes "holds s bs" "\<And>n. n \<in> set ns \<Longrightarrow> 0 < n" "sum_list ns \<le> length bs"
  shows "\<exists>ps s'. get_all ns s = Some (ps, s') \<and> concat ps = take (sum_list ns) bs \<and> map length ps = ns \<and>
    holds s' (drop (sum_list ns) bs)"
  using assms
proof (induction ns arbitrary: s bs)
  case (Cons n ns)
  then obtain s1 where s1: "get n s = Some (take n bs, s1)" "holds s1 (drop n bs)"
    using get_law[of s bs n] by auto
  with Cons.IH[OF s1(2)] Cons.prems obtain ps s2 where "get_all ns s1 = Some (ps, s2)"
    "concat ps = take (sum_list ns) (drop n bs)" "map length ps = ns" "holds s2 (drop (sum_list ns) (drop n bs))"
    by fastforce
  with s1(1) Cons.prems(3) show ?case
    by (intro exI[of _ "take n bs # ps"] exI[of _ s2]) (simp add: take_add add.commute)
qed auto

text \<open>What a reader takes is what was put in, in order: the first block behind the bytes already there.\<close>

theorem put_get:
  assumes "holds s bs" "ready s d cs" "length bs + length cs \<le> bound" "0 < length bs + length cs"
  shows "\<exists>s' s''. put d s = Some s' \<and> get (length bs + length cs) s' = Some (bs @ cs, s'') \<and> holds s'' []"
proof -
  obtain s' where s': "put d s = Some s'" "holds s' (bs @ cs)"
    using put_law[OF assms(1-3)] by auto
  then show ?thesis
    using get_law[OF s'(2), of "length bs + length cs"] assms(4) by fastforce
qed

end

end
