(* ===== verification/DataBuffer.thy ===== *)
theory DataBuffer
  imports Server Framing
begin

text \<open>
  The receive buffer of a connection, \<open>service-src/databuffer.h\<close>: a list of blocks as they came from the
  socket, read from an offset into the first. The list nodes (\<open>struct message\<close>) of all connections come
  from one pool, which grows by 1023 nodes and keeps the free ones in a list. A node pointer is an
  index into the nodes of all pools, in the order the pools were allocated.
\<close>

section \<open>Model\<close>

definition MESSAGEPOOL :: nat where "MESSAGEPOOL = 1023"

record message =
  m_buffer :: "addr option"
  m_size :: int
  m_next :: "nat option"

record databuffer =
  db_header :: int
  db_offset :: int
  db_size :: int
  db_head :: "nat option"
  db_tail :: "nat option"

text \<open>\<open>mp_pool\<close> is the number of pools in the list \<open>pool\<close>.\<close>

record messagepool =
  mp_pool :: nat
  mp_msgs :: "message list"
  mp_freelist :: "nat option"

definition databuffer_zero :: databuffer where
  "databuffer_zero = \<lparr>db_header = 0, db_offset = 0, db_size = 0, db_head = None, db_tail = None\<rparr>"

definition messagepool_zero :: messagepool where
  "messagepool_zero = \<lparr>mp_pool = 0, mp_msgs = [], mp_freelist = None\<rparr>"

definition messagepool_free :: "messagepool \<Rightarrow> messagepool" where
  "messagepool_free pool = pool\<lparr>mp_pool := 0, mp_msgs := [], mp_freelist := None\<rparr>"

definition return_message :: "databuffer \<Rightarrow> messagepool \<Rightarrow> world \<Rightarrow> (databuffer \<times> messagepool \<times> world) option" where
  "return_message db mp w = do {
     k \<leftarrow> db_head db;
     m \<leftarrow> arr_get (mp_msgs mp) (int k);
     db \<leftarrow> (case m_next m of
               None \<Rightarrow> if db_tail db = Some k then Some (db\<lparr>db_head := None, db_tail := None\<rparr>) else None
             | Some n \<Rightarrow> Some (db\<lparr>db_head := Some n\<rparr>));
     w \<leftarrow> skynet_free (m_buffer m) w;
     Some (db,
       mp\<lparr>mp_msgs := (mp_msgs mp)[k := \<lparr>m_buffer = None, m_size = 0, m_next = mp_freelist mp\<rparr>], mp_freelist := Some k\<rparr>,
       w) }"

text \<open>\<open>memcpy\<close> of \<open>n\<close> bytes from offset \<open>off\<close> of a block.\<close>

definition copy_from :: "world \<Rightarrow> addr option \<Rightarrow> int \<Rightarrow> int \<Rightarrow> u8 list option" where
  "copy_from w p off n =
     (case p of
        None \<Rightarrow> None
      | Some a \<Rightarrow>
          (case w_heap w a of
             Some (Bytes bs) \<Rightarrow>
               if 0 \<le> off \<and> 0 \<le> n \<and> off + n \<le> int (length bs) then Some (take (nat n) (drop (nat off) bs)) else None
           | _ \<Rightarrow> None))"

text \<open>The loop of \<open>databuffer_read\<close>; the bytes copied to the caller's buffer are the result.\<close>

partial_function (option) read_loop ::
  "databuffer \<Rightarrow> messagepool \<Rightarrow> int \<Rightarrow> world \<Rightarrow> (u8 list \<times> databuffer \<times> messagepool \<times> world) option" where
  "read_loop db mp sz w =
     (case db_head db of
        None \<Rightarrow> None
      | Some k \<Rightarrow>
          (case arr_get (mp_msgs mp) (int k) of
             None \<Rightarrow> None
           | Some current \<Rightarrow>
               let bsz = m_size current - db_offset db in
               if bsz > sz then
                 (case copy_from w (m_buffer current) (db_offset db) sz of
                    None \<Rightarrow> None
                  | Some bs \<Rightarrow> Some (bs, db\<lparr>db_offset := db_offset db + sz\<rparr>, mp, w))
               else if bsz = sz then
                 (case copy_from w (m_buffer current) (db_offset db) sz of
                    None \<Rightarrow> None
                  | Some bs \<Rightarrow>
                      (case return_message (db\<lparr>db_offset := 0\<rparr>) mp w of
                         None \<Rightarrow> None
                       | Some (db, mp, w) \<Rightarrow> Some (bs, db, mp, w)))
               else
                 (case copy_from w (m_buffer current) (db_offset db) bsz of
                    None \<Rightarrow> None
                  | Some bs \<Rightarrow>
                      (case return_message db mp w of
                         None \<Rightarrow> None
                       | Some (db, mp, w) \<Rightarrow> do {
                           (rest, r) \<leftarrow> read_loop (db\<lparr>db_offset := 0\<rparr>) mp (sz - bsz) w;
                           Some (bs @ rest, r) }))))"

declare read_loop.simps [code]

definition databuffer_read ::
  "databuffer \<Rightarrow> messagepool \<Rightarrow> int \<Rightarrow> world \<Rightarrow> (u8 list \<times> databuffer \<times> messagepool \<times> world) option" where
  "databuffer_read db mp sz w =
     (if db_size db \<ge> sz then read_loop (db\<lparr>db_size := db_size db - sz\<rparr>) mp sz w else None)"

text \<open>A node for \<open>databuffer_push\<close>: the first of the free list, or the first of a new pool, whose other
  nodes become the free list. The code leaves \<open>temp[0]\<close> to be filled by the caller.\<close>

definition take_message :: "messagepool \<Rightarrow> (nat \<times> messagepool) option" where
  "take_message mp =
     (case mp_freelist mp of
        Some k \<Rightarrow> do {
          m \<leftarrow> arr_get (mp_msgs mp) (int k);
          Some (k, mp\<lparr>mp_freelist := m_next m\<rparr>) }
      | None \<Rightarrow>
          let b = length (mp_msgs mp);
              temp = map (\<lambda>i. \<lparr>m_buffer = None, m_size = 0,
                 m_next = (if i = MESSAGEPOOL - 1 then None else Some (b + Suc i))\<rparr>) [0..<MESSAGEPOOL]
          in Some (b, mp\<lparr>mp_pool := Suc (mp_pool mp), mp_msgs := mp_msgs mp @ temp, mp_freelist := Some (Suc b)\<rparr>))"

definition databuffer_push ::
  "databuffer \<Rightarrow> messagepool \<Rightarrow> addr option \<Rightarrow> int \<Rightarrow> (databuffer \<times> messagepool) option" where
  "databuffer_push db mp data sz = do {
     (k, mp) \<leftarrow> take_message mp;
     let mp = mp\<lparr>mp_msgs := (mp_msgs mp)[k := \<lparr>m_buffer = data, m_size = sz, m_next = None\<rparr>]\<rparr>;
     size \<leftarrow> cint (db_size db + sz);
     let db = db\<lparr>db_size := size\<rparr>;
     case db_head db of
       None \<Rightarrow> if db_tail db = None then Some (db\<lparr>db_head := Some k, db_tail := Some k\<rparr>, mp) else None
     | Some _ \<Rightarrow> do {
         t \<leftarrow> db_tail db;
         last \<leftarrow> arr_get (mp_msgs mp) (int t);
         Some (db\<lparr>db_tail := Some k\<rparr>, mp\<lparr>mp_msgs := (mp_msgs mp)[t := last\<lparr>m_next := Some k\<rparr>]\<rparr>) } }"

text \<open>The big-endian length in the 2 or 4 header bytes, as an \<open>int\<close>: a first byte above 127 of four makes
  it negative.\<close>

definition header_value :: "u8 list \<Rightarrow> int" where
  "header_value plen =
     (if length plen = 2
      then uint (plen ! 0) * 256 + uint (plen ! 1)
      else to_cint (push_bit 24 (ucast (plen ! 0)) OR push_bit 16 (ucast (plen ! 1)) OR
             push_bit 8 (ucast (plen ! 2)) OR ucast (plen ! 3)))"

definition databuffer_readheader ::
  "databuffer \<Rightarrow> messagepool \<Rightarrow> int \<Rightarrow> world \<Rightarrow> (int \<times> databuffer \<times> messagepool \<times> world) option" where
  "databuffer_readheader db mp header_size w =
     (let check = (\<lambda>(db, mp, w). (if db_size db < db_header db then -1 else db_header db, db, mp, w))
      in if db_header db = 0 then
           if db_size db < header_size then Some (-1, db, mp, w)
           else do {
             (plen, db, mp, w) \<leftarrow> databuffer_read db mp header_size w;
             Some (check (db\<lparr>db_header := header_value plen\<rparr>, mp, w)) }
         else Some (check (db, mp, w)))"

definition databuffer_reset :: "databuffer \<Rightarrow> databuffer" where
  "databuffer_reset db = db\<lparr>db_header := 0\<rparr>"

partial_function (option) clear_loop ::
  "databuffer \<Rightarrow> messagepool \<Rightarrow> world \<Rightarrow> (messagepool \<times> world) option" where
  "clear_loop db mp w =
     (case db_head db of
        None \<Rightarrow> Some (mp, w)
      | Some _ \<Rightarrow>
          (case return_message db mp w of
             None \<Rightarrow> None
           | Some (db, mp, w) \<Rightarrow> clear_loop db mp w))"

declare clear_loop.simps [code]

definition databuffer_clear ::
  "databuffer \<Rightarrow> messagepool \<Rightarrow> world \<Rightarrow> (databuffer \<times> messagepool \<times> world) option" where
  "databuffer_clear db mp w = do { (mp, w) \<leftarrow> clear_loop db mp w; Some (databuffer_zero, mp, w) }"

section \<open>The list of blocks\<close>

text \<open>The bytes of the block of a node, as far as they came from the socket.\<close>

definition node_bytes :: "world \<Rightarrow> message \<Rightarrow> u8 list" where
  "node_bytes w m =
     (case m_buffer m of
        Some a \<Rightarrow> (case w_heap w a of Some (Bytes bs) \<Rightarrow> take (nat (m_size m)) bs | _ \<Rightarrow> [])
      | None \<Rightarrow> [])"

definition node_ready :: "world \<Rightarrow> message \<Rightarrow> bool" where
  "node_ready w m \<longleftrightarrow>
     (\<exists>a bs. m_buffer m = Some a \<and> w_heap w a = Some (Bytes bs) \<and> 0 \<le> m_size m \<and> m_size m \<le> int (length bs))"

text \<open>The buffer holds the nodes \<open>ks\<close>, each with a block of its own, and \<open>fs\<close> are the free nodes.\<close>

definition db_list :: "databuffer \<Rightarrow> messagepool \<Rightarrow> world \<Rightarrow> nat list \<Rightarrow> nat list \<Rightarrow> bool" where
  "db_list db mp w ks fs \<longleftrightarrow>
     chain m_next (mp_msgs mp) (db_head db) ks \<and> db_tail db = (if ks = [] then None else Some (last ks)) \<and>
     chain m_next (mp_msgs mp) (mp_freelist mp) fs \<and> distinct (ks @ fs) \<and>
     distinct (map (\<lambda>k. m_buffer (mp_msgs mp ! k)) ks) \<and> (\<forall>k \<in> set ks. node_ready w (mp_msgs mp ! k))"

definition db_concat :: "messagepool \<Rightarrow> world \<Rightarrow> nat list \<Rightarrow> u8 list" where
  "db_concat mp w ks = concat (map (\<lambda>k. node_bytes w (mp_msgs mp ! k)) ks)"

text \<open>The bytes not yet read, and where reading goes on.\<close>

definition db_bytes :: "databuffer \<Rightarrow> messagepool \<Rightarrow> world \<Rightarrow> nat list \<Rightarrow> u8 list" where
  "db_bytes db mp w ks = drop (nat (db_offset db)) (db_concat mp w ks)"

definition offset_ok :: "databuffer \<Rightarrow> messagepool \<Rightarrow> nat list \<Rightarrow> bool" where
  "offset_ok db mp ks \<longleftrightarrow>
     0 \<le> db_offset db \<and> (case ks of [] \<Rightarrow> db_offset db = 0 | k # _ \<Rightarrow> db_offset db \<le> m_size (mp_msgs mp ! k))"

text \<open>What an operation on the buffer leaves alone: other nodes, other blocks, and the rest of the node.\<close>

definition db_frame :: "messagepool \<Rightarrow> world \<Rightarrow> nat list \<Rightarrow> nat list \<Rightarrow> messagepool \<Rightarrow> world \<Rightarrow> bool" where
  "db_frame mp w ks fs mp' w' \<longleftrightarrow>
     length (mp_msgs mp) \<le> length (mp_msgs mp') \<and>
     (\<forall>j < length (mp_msgs mp). j \<notin> set ks \<union> set fs \<longrightarrow> mp_msgs mp' ! j = mp_msgs mp ! j) \<and>
     w' = w\<lparr>w_heap := w_heap w'\<rparr> \<and>
     (\<forall>a. (\<forall>k \<in> set ks. m_buffer (mp_msgs mp ! k) \<noteq> Some a) \<longrightarrow> w_heap w' a = w_heap w a)"

text \<open>The blocks of the buffer.\<close>

definition bufs :: "messagepool \<Rightarrow> nat list \<Rightarrow> addr set" where
  "bufs mp ks = {a. \<exists>k \<in> set ks. m_buffer (mp_msgs mp ! k) = Some a}"

lemma node_bytes_length: "node_ready w m \<Longrightarrow> int (length (node_bytes w m)) = m_size m"
  by (auto simp: node_ready_def node_bytes_def)

lemma db_concat_Nil [simp]: "db_concat mp w [] = []"
  by (simp add: db_concat_def)

lemma db_concat_Cons [simp]: "db_concat mp w (k # ks) = node_bytes w (mp_msgs mp ! k) @ db_concat mp w ks"
  by (simp add: db_concat_def)

lemma db_concat_append [simp]: "db_concat mp w (ks @ ls) = db_concat mp w ks @ db_concat mp w ls"
  by (simp add: db_concat_def)

lemma node_same:
  "w_heap w' a = w_heap w a \<Longrightarrow> m_buffer m = Some a \<Longrightarrow> node_bytes w' m = node_bytes w m \<and> node_ready w' m = node_ready w m"
  by (simp add: node_bytes_def node_ready_def)

lemma return_message_list:
  assumes l: "db_list db mp w (k # ks) fs"
  shows "\<exists>h t mp' w'. return_message db mp w = Some (db\<lparr>db_head := h, db_tail := t\<rparr>, mp', w') \<and>
    db_list (db\<lparr>db_head := h, db_tail := t\<rparr>) mp' w' ks (k # fs) \<and> db_concat mp' w' ks = db_concat mp w ks \<and>
    length (mp_msgs mp') = length (mp_msgs mp) \<and>
    (\<forall>j. j \<noteq> k \<longrightarrow> mp_msgs mp' ! j = mp_msgs mp ! j) \<and> db_frame mp w [k] fs mp' w'"
proof -
  define m where "m = mp_msgs mp ! k"
  have c: "db_head db = Some k" "k < length (mp_msgs mp)" "chain m_next (mp_msgs mp) (m_next m) ks"
    "chain m_next (mp_msgs mp) (mp_freelist mp) fs" "k \<notin> set ks" "k \<notin> set fs"
    "db_tail db = Some (last (k # ks))"
    using l by (auto simp: db_list_def m_def)
  obtain a where a: "m_buffer m = Some a" "w_heap w a \<noteq> None"
    using l by (auto simp: db_list_def node_ready_def m_def)
  define mp' where "mp' = mp\<lparr>mp_msgs := (mp_msgs mp)[k := \<lparr>m_buffer = None, m_size = 0, m_next = mp_freelist mp\<rparr>],
    mp_freelist := Some k\<rparr>"
  define w' where "w' = w\<lparr>w_heap := (w_heap w)(a := None)\<rparr>"
  define t where "t = (if ks = [] then None else db_tail db)"
  have r: "return_message db mp w = Some (db\<lparr>db_head := m_next m, db_tail := t\<rparr>, mp', w')"
  proof (cases ks)
    case Nil
    with c a show ?thesis
      by (simp add: return_message_def skynet_free_def mp'_def w'_def t_def flip: m_def)
  next
    case (Cons n ns)
    with c a show ?thesis
      by (simp add: return_message_def skynet_free_def mp'_def w'_def t_def flip: m_def)
  qed
  have same: "mp_msgs mp' ! j = mp_msgs mp ! j" if "j \<noteq> k" for j
    using that by (simp add: mp'_def)
  have nb: "node_bytes w' (mp_msgs mp' ! j) = node_bytes w (mp_msgs mp ! j)" "node_ready w' (mp_msgs mp' ! j)"
    if j: "j \<in> set ks" for j
  proof -
    have jk: "j \<noteq> k" using c(5) j by auto
    have "node_ready w (mp_msgs mp ! j)" using l j by (auto simp: db_list_def)
    moreover from this obtain b where b: "m_buffer (mp_msgs mp ! j) = Some b" by (auto simp: node_ready_def)
    moreover have "b \<noteq> a"
      using l j b a(1) by (auto simp: db_list_def m_def image_iff)
    ultimately show "node_bytes w' (mp_msgs mp' ! j) = node_bytes w (mp_msgs mp ! j)" "node_ready w' (mp_msgs mp' ! j)"
      using node_same[of w' b w "mp_msgs mp ! j"] same[OF jk] by (auto simp: w'_def)
  qed
  have "db_concat mp' w' ks = db_concat mp w ks"
    using nb(1) by (simp add: db_concat_def cong: map_cong)
  moreover have "db_list (db\<lparr>db_head := m_next m, db_tail := t\<rparr>) mp' w' ks (k # fs)"
  proof -
    have eq: "map (\<lambda>j. m_buffer (mp_msgs mp' ! j)) ks = map (\<lambda>j. m_buffer (mp_msgs mp ! j)) ks"
      using same c(5) by (intro map_cong refl) metis
    have "distinct (map (\<lambda>j. m_buffer (mp_msgs mp' ! j)) ks)"
      unfolding eq using l by (simp add: db_list_def)
    moreover have "chain m_next (mp_msgs mp') (m_next m) ks" "chain m_next (mp_msgs mp') (mp_freelist mp') (k # fs)"
      using c by (simp_all add: mp'_def)
    ultimately show ?thesis
      using l c(5-7) nb(2) unfolding db_list_def by (auto simp: t_def)
  qed
  moreover have "db_frame mp w [k] fs mp' w'"
    using same a(1) by (auto simp: db_frame_def mp'_def w'_def m_def)
  moreover have "length (mp_msgs mp') = length (mp_msgs mp)" by (simp add: mp'_def)
  ultimately show ?thesis using r same by blast
qed

lemma db_frame_trans:
  assumes f1: "db_frame mp w [k] fs mp1 w1" and f2: "db_frame mp1 w1 ks (k # fs) mp2 w2"
    and len: "length (mp_msgs mp1) = length (mp_msgs mp)"
    and same: "\<forall>j. j \<noteq> k \<longrightarrow> mp_msgs mp1 ! j = mp_msgs mp ! j" and k: "k \<notin> set ks"
  shows "db_frame mp w (k # ks) fs mp2 w2"
  unfolding db_frame_def
proof (intro conjI allI impI)
  have h: "w1 = w\<lparr>w_heap := w_heap w1\<rparr>" "w2 = w1\<lparr>w_heap := w_heap w2\<rparr>"
    using f1 f2 by (auto simp: db_frame_def)
  have "w1\<lparr>w_heap := w_heap w2\<rparr> = w\<lparr>w_heap := w_heap w2\<rparr>" by (subst h(1)) simp
  with h(2) show "w2 = w\<lparr>w_heap := w_heap w2\<rparr>" by simp
  show "length (mp_msgs mp) \<le> length (mp_msgs mp2)"
    using f2 len by (simp add: db_frame_def)
  show "mp_msgs mp2 ! j = mp_msgs mp ! j" if "j < length (mp_msgs mp)" "j \<notin> set (k # ks) \<union> set fs" for j
    using f2 len same that by (simp add: db_frame_def)
  show "w_heap w2 a = w_heap w a" if a: "\<forall>j \<in> set (k # ks). m_buffer (mp_msgs mp ! j) \<noteq> Some a" for a
  proof -
    have "m_buffer (mp_msgs mp1 ! j) \<noteq> Some a" if "j \<in> set ks" for j
    proof -
      have "j \<noteq> k" using that k by auto
      with same a that show ?thesis by simp
    qed
    then show ?thesis
      using f1 f2 a unfolding db_frame_def by simp
  qed
qed

lemma db_frame_refl: "db_frame mp w ks fs mp w"
  by (simp add: db_frame_def)

lemma db_frame_mono: "db_frame mp w ks fs mp' w' \<Longrightarrow> set ks \<subseteq> set ks' \<Longrightarrow> set fs \<subseteq> set fs' \<Longrightarrow> db_frame mp w ks' fs' mp' w'"
  unfolding db_frame_def by blast

text \<open>Copying from the block of a node.\<close>

lemma copy_from_node:
  assumes "node_ready w m" "0 \<le> off" "0 \<le> n" "off + n \<le> m_size m"
  shows "copy_from w (m_buffer m) off n = Some (take (nat n) (drop (nat off) (node_bytes w m)))"
proof -
  obtain a bs where a: "m_buffer m = Some a" "w_heap w a = Some (Bytes bs)" "m_size m \<le> int (length bs)"
    using assms(1) by (auto simp: node_ready_def)
  have "take (nat n) (drop (nat off) (take (nat (m_size m)) bs)) = take (nat n) (drop (nat off) bs)"
    using assms(2-4) by (simp add: drop_take min_def nat_diff_distrib[symmetric])
  with a assms show ?thesis by (simp add: copy_from_def node_bytes_def)
qed

text \<open>Reading \<open>sz\<close> bytes takes them from the front of the buffered bytes.\<close>

lemma read_loop_ok:
  assumes "db_list db mp w ks fs" "offset_ok db mp ks" "0 < sz" "sz \<le> int (length (db_bytes db mp w ks))"
  shows "\<exists>db' mp' w' ks' fs'. read_loop db mp sz w = Some (take (nat sz) (db_bytes db mp w ks), db', mp', w') \<and>
    db_list db' mp' w' ks' fs' \<and> offset_ok db' mp' ks' \<and> db_bytes db' mp' w' ks' = drop (nat sz) (db_bytes db mp w ks) \<and>
    db_header db' = db_header db \<and> db_size db' = db_size db \<and> set (ks' @ fs') = set (ks @ fs) \<and>
    set ks' \<subseteq> set ks \<and> (\<forall>j \<in> set ks'. mp_msgs mp' ! j = mp_msgs mp ! j) \<and>
    length (mp_msgs mp') = length (mp_msgs mp) \<and> db_frame mp w ks fs mp' w'"
  using assms
proof (induction ks arbitrary: db mp w fs sz)
  case Nil
  then show ?case by (simp add: db_bytes_def)
next
  case (Cons k ks)
  define m where "m = mp_msgs mp ! k"
  define off where "off = db_offset db"
  define bsz where "bsz = m_size m - off"
  have k: "db_head db = Some k" "arr_get (mp_msgs mp) (int k) = Some m" "node_ready w m" "k \<notin> set ks"
    using Cons.prems(1) by (auto simp: db_list_def m_def)
  have off: "0 \<le> off" "0 \<le> bsz"
    using Cons.prems(2) by (auto simp: offset_ok_def off_def bsz_def m_def)
  define nb where "nb = node_bytes w m"
  have len: "int (length nb) = m_size m"
    using node_bytes_length[OF k(3)] by (simp add: nb_def)
  have bytes: "db_bytes db mp w (k # ks) = drop (nat off) nb @ db_concat mp w ks"
    using len off by (simp add: db_bytes_def off_def bsz_def nb_def m_def)
  have dlen: "length (drop (nat off) nb) = nat bsz" using len off by (simp add: bsz_def nat_diff_distrib)
  have copy: "copy_from w (m_buffer m) off n = Some (take (nat n) (drop (nat off) nb))" if "0 \<le> n" "n \<le> bsz" for n
    using copy_from_node[OF k(3) off(1) that(1)] that(2) by (simp add: bsz_def nb_def)
  note unf = read_loop.simps[of db mp sz w]
  consider "bsz > sz" | "bsz = sz" | "bsz < sz" by linarith
  then show ?case
  proof cases
    case 1
    let ?db = "db\<lparr>db_offset := off + sz\<rparr>"
    have "read_loop db mp sz w = Some (take (nat sz) (drop (nat off) nb), ?db, mp, w)"
      using 1 k copy[of sz] Cons.prems(3) by (subst unf) (simp add: bsz_def off_def)
    moreover have "db_list ?db mp w (k # ks) fs"
      using Cons.prems(1) by (simp add: db_list_def)
    moreover have "offset_ok ?db mp (k # ks)"
      using 1 off Cons.prems(3) by (simp add: offset_ok_def bsz_def m_def)
    moreover have "db_bytes ?db mp w (k # ks) = drop (nat sz) (db_bytes db mp w (k # ks))"
      using off(1) Cons.prems(3) by (simp add: db_bytes_def off_def nat_add_distrib add.commute del: drop_append)
    ultimately show ?thesis
      using 1 dlen db_frame_refl[of mp w "k # ks" fs]
      by (intro exI[of _ ?db] exI[of _ mp] exI[of _ w] exI[of _ "k # ks"] exI[of _ fs]) (auto simp: bytes)
  next
    case 2
    have "db_list (db\<lparr>db_offset := 0\<rparr>) mp w (k # ks) fs"
      using Cons.prems(1) by (simp add: db_list_def)
    from return_message_list[OF this] obtain h t mp' w' where
      r: "return_message (db\<lparr>db_offset := 0\<rparr>) mp w = Some (db\<lparr>db_offset := 0, db_head := h, db_tail := t\<rparr>, mp', w')"
        "db_list (db\<lparr>db_offset := 0, db_head := h, db_tail := t\<rparr>) mp' w' ks (k # fs)" "db_concat mp' w' ks = db_concat mp w ks"
        "length (mp_msgs mp') = length (mp_msgs mp)" "db_frame mp w [k] fs mp' w'"
        "\<forall>j. j \<noteq> k \<longrightarrow> mp_msgs mp' ! j = mp_msgs mp ! j"
      by auto
    let ?db = "db\<lparr>db_offset := 0, db_head := h, db_tail := t\<rparr>"
    have "read_loop db mp sz w = Some (take (nat sz) (drop (nat off) nb), ?db, mp', w')"
      using 2 k copy[of sz] Cons.prems(3) r(1) by (subst unf) (simp add: bsz_def off_def)
    moreover have "offset_ok ?db mp' ks"
    proof (cases ks)
      case (Cons j js)
      then have "node_ready w' (mp_msgs mp' ! j)" using r(2) by (simp add: db_list_def)
      with Cons show ?thesis by (auto simp: offset_ok_def node_ready_def)
    qed (simp add: offset_ok_def)
    moreover have "db_bytes ?db mp' w' ks = drop (nat sz) (db_bytes db mp w (k # ks))"
      using 2 dlen r(3) unfolding bytes by (simp add: db_bytes_def)
    moreover have "db_frame mp w (k # ks) fs mp' w'"
      by (rule db_frame_mono[OF r(5)]) auto
    moreover have "\<forall>j \<in> set ks. mp_msgs mp' ! j = mp_msgs mp ! j"
      using r(6) k(4) by metis
    ultimately show ?thesis
      using 2 dlen r(2,4) by (intro exI[of _ ?db] exI[of _ mp'] exI[of _ w'] exI[of _ ks] exI[of _ "k # fs"]) (auto simp: bytes)
  next
    case 3
    from return_message_list[OF Cons.prems(1)] obtain h t mp1 w1 where
      r: "return_message db mp w = Some (db\<lparr>db_head := h, db_tail := t\<rparr>, mp1, w1)"
        "db_list (db\<lparr>db_head := h, db_tail := t\<rparr>) mp1 w1 ks (k # fs)" "db_concat mp1 w1 ks = db_concat mp w ks"
        "length (mp_msgs mp1) = length (mp_msgs mp)" "db_frame mp w [k] fs mp1 w1"
        "\<forall>j. j \<noteq> k \<longrightarrow> mp_msgs mp1 ! j = mp_msgs mp ! j"
      by auto
    let ?db = "db\<lparr>db_head := h, db_tail := t, db_offset := 0\<rparr>"
    have l1: "db_list ?db mp1 w1 ks (k # fs)"
      using r(2) by (simp add: db_list_def)
    have b1: "db_bytes ?db mp1 w1 ks = db_concat mp w ks"
      using r(3) by (simp add: db_bytes_def)
    have o1: "offset_ok ?db mp1 ks"
    proof (cases ks)
      case (Cons j js)
      then have "node_ready w1 (mp_msgs mp1 ! j)" using l1 by (simp add: db_list_def)
      with Cons show ?thesis by (auto simp: offset_ok_def node_ready_def)
    qed (simp add: offset_ok_def)
    have "sz - bsz \<le> int (length (db_bytes ?db mp1 w1 ks))"
      using Cons.prems(4) dlen off(2) unfolding bytes b1 by simp
    with Cons.IH[OF l1 o1, of "sz - bsz"] 3 obtain db' mp' w' ks' fs' where
      IH: "read_loop ?db mp1 (sz - bsz) w1 = Some (take (nat (sz - bsz)) (db_bytes ?db mp1 w1 ks), db', mp', w')"
        "db_list db' mp' w' ks' fs'" "offset_ok db' mp' ks'" "db_bytes db' mp' w' ks' = drop (nat (sz - bsz)) (db_bytes ?db mp1 w1 ks)"
        "db_header db' = db_header db" "db_size db' = db_size db" "set (ks' @ fs') = set (ks @ k # fs)" "set ks' \<subseteq> set ks"
        "length (mp_msgs mp') = length (mp_msgs mp1)" "db_frame mp1 w1 ks (k # fs) mp' w'"
        "\<forall>j \<in> set ks'. mp_msgs mp' ! j = mp_msgs mp1 ! j"
      by auto
    have "\<forall>j \<in> set ks'. mp_msgs mp' ! j = mp_msgs mp ! j"
      using IH(8,11) r(6) k(4) by (metis subsetD)
    moreover have n: "nat (sz - bsz) = nat sz - nat bsz" using off(2) by (simp add: nat_diff_distrib')
    moreover have "read_loop db mp sz w = Some (take (nat bsz) (drop (nat off) nb) @ take (nat (sz - bsz)) (db_concat mp w ks), db', mp', w')"
      using 3 k copy[of bsz] off r(1) IH(1) b1 by (subst unf) (simp add: bsz_def off_def Let_def)
    moreover have "take (nat bsz) (drop (nat off) nb) @ take (nat (sz - bsz)) (db_concat mp w ks) = take (nat sz) (db_bytes db mp w (k # ks))"
      using 3 dlen off by (simp add: bytes n)
    moreover have "db_bytes db' mp' w' ks' = drop (nat sz) (db_bytes db mp w (k # ks))"
      using IH(4) 3 dlen off by (simp add: bytes b1 n)
    moreover have "db_frame mp w (k # ks) fs mp' w'"
      by (rule db_frame_trans[OF r(5) IH(10) r(4,6) k(4)])
    moreover have "set (ks' @ fs') = set ((k # ks) @ fs)" "set ks' \<subseteq> set (k # ks)"
      using IH(7,8) by auto
    ultimately show ?thesis
      using IH(2,3,5,6,9) r(4) by (intro exI[of _ db'] exI[of _ mp'] exI[of _ w'] exI[of _ ks'] exI[of _ fs']) simp
  qed
qed

section \<open>The operations on the buffered bytes\<close>

definition db_ok :: "databuffer \<Rightarrow> messagepool \<Rightarrow> world \<Rightarrow> nat list \<Rightarrow> nat list \<Rightarrow> bool" where
  "db_ok db mp w ks fs \<longleftrightarrow>
     db_list db mp w ks fs \<and> offset_ok db mp ks \<and> db_size db = int (length (db_bytes db mp w ks))"

lemma db_bytes_update [simp]:
  "db_bytes (db\<lparr>db_header := h\<rparr>) mp w ks = db_bytes db mp w ks"
  "db_bytes (db\<lparr>db_size := n\<rparr>) mp w ks = db_bytes db mp w ks"
  "offset_ok (db\<lparr>db_header := h\<rparr>) mp ks = offset_ok db mp ks"
  "offset_ok (db\<lparr>db_size := n\<rparr>) mp ks = offset_ok db mp ks"
  "db_list (db\<lparr>db_header := h\<rparr>) mp w ks fs = db_list db mp w ks fs"
  "db_list (db\<lparr>db_size := n\<rparr>) mp w ks fs = db_list db mp w ks fs"
  by (simp_all add: db_bytes_def offset_ok_def db_list_def split: list.split)

lemma db_ok_header [simp]: "db_ok (db\<lparr>db_header := h\<rparr>) mp w ks fs = db_ok db mp w ks fs"
  by (simp add: db_ok_def)

lemma databuffer_read_ok:
  assumes "db_ok db mp w ks fs" "0 < n" "n \<le> int (length (db_bytes db mp w ks))"
  shows "\<exists>db' mp' w' ks' fs'. databuffer_read db mp n w = Some (take (nat n) (db_bytes db mp w ks), db', mp', w') \<and>
    db_ok db' mp' w' ks' fs' \<and> db_bytes db' mp' w' ks' = drop (nat n) (db_bytes db mp w ks) \<and>
    db_header db' = db_header db \<and> set (ks' @ fs') = set (ks @ fs) \<and> bufs mp' ks' \<subseteq> bufs mp ks \<and>
    length (mp_msgs mp') = length (mp_msgs mp) \<and> db_frame mp w ks fs mp' w'"
proof -
  let ?db = "db\<lparr>db_size := db_size db - n\<rparr>"
  have "db_list ?db mp w ks fs" "offset_ok ?db mp ks"
    using assms(1) by (simp_all add: db_ok_def)
  from read_loop_ok[OF this assms(2)] assms(3) obtain db' mp' w' ks' fs' where
    r: "read_loop ?db mp n w = Some (take (nat n) (db_bytes db mp w ks), db', mp', w')" "db_list db' mp' w' ks' fs'"
      "offset_ok db' mp' ks'" "db_bytes db' mp' w' ks' = drop (nat n) (db_bytes db mp w ks)"
      "db_header db' = db_header db" "db_size db' = db_size db - n" "set (ks' @ fs') = set (ks @ fs)"
      "set ks' \<subseteq> set ks" "\<forall>j \<in> set ks'. mp_msgs mp' ! j = mp_msgs mp ! j"
      "length (mp_msgs mp') = length (mp_msgs mp)" "db_frame mp w ks fs mp' w'"
    by auto
  have "bufs mp' ks' \<subseteq> bufs mp ks" using r(8,9) by (auto simp: bufs_def)
  moreover have "db_size db = int (length (db_bytes db mp w ks))"
    using assms(1) by (simp add: db_ok_def)
  moreover from this have "databuffer_read db mp n w = Some (take (nat n) (db_bytes db mp w ks), db', mp', w')" "db_ok db' mp' w' ks' fs'"
    using r assms(2,3) by (simp_all add: databuffer_read_def db_ok_def of_nat_diff)
  ultimately show ?thesis using r by blast
qed

text \<open>Taking a node from the pool.\<close>

lemma pool_chain:
  assumes "\<And>i. j \<le> i \<Longrightarrow> i < e \<Longrightarrow> m_next (msgs ! i) = (if Suc i = e then None else Some (Suc i))" "e \<le> length msgs"
  shows "chain m_next msgs (if j < e then Some j else None) [j..<e]"
  using assms(1)
proof (induction "e - j" arbitrary: j)
  case (Suc d)
  then have j: "j < e" by simp
  have "chain m_next msgs (if Suc j < e then Some (Suc j) else None) [Suc j..<e]"
    using Suc.hyps(1)[of "Suc j"] Suc.hyps(2) Suc.prems by simp
  moreover have "[j..<e] = j # [Suc j..<e]" using j by (rule upt_conv_Cons)
  ultimately show ?case
    using j assms(2) Suc.prems[of j] by (cases "Suc j = e") (auto simp del: upt.simps)
qed simp

lemma take_message_ok:
  assumes l: "db_list db mp w ks fs"
  shows "\<exists>k mp' fs'. take_message mp = Some (k, mp') \<and> db_list db mp' w ks fs' \<and> k < length (mp_msgs mp') \<and>
    k \<notin> set ks \<union> set fs' \<and> db_concat mp' w ks = db_concat mp w ks \<and> length (mp_msgs mp) \<le> length (mp_msgs mp') \<and>
    (\<forall>j < length (mp_msgs mp). mp_msgs mp' ! j = mp_msgs mp ! j) \<and>
    (\<forall>j \<in> insert k (set fs'). j \<in> set fs \<or> length (mp_msgs mp) \<le> j)"
proof (cases "mp_freelist mp")
  case None
  define b where "b = length (mp_msgs mp)"
  define mp' where "mp' = mp\<lparr>mp_pool := Suc (mp_pool mp), mp_msgs := mp_msgs mp @
      map (\<lambda>i. \<lparr>m_buffer = None, m_size = 0, m_next = (if i = MESSAGEPOOL - 1 then None else Some (b + Suc i))\<rparr>)
        [0..<MESSAGEPOOL], mp_freelist := Some (Suc b)\<rparr>"
  have t: "take_message mp = Some (b, mp')"
    using None by (simp add: take_message_def mp'_def b_def Let_def)
  have len: "length (mp_msgs mp') = b + MESSAGEPOOL" by (simp add: mp'_def b_def)
  have same: "mp_msgs mp' ! j = mp_msgs mp ! j" if "j < b" for j
    using that by (simp add: mp'_def b_def nth_append)
  have nx: "m_next (mp_msgs mp' ! i) = (if Suc i = b + MESSAGEPOOL then None else Some (Suc i))"
    if "b \<le> i" "i < b + MESSAGEPOOL" for i
    using that by (auto simp: mp'_def b_def nth_append MESSAGEPOOL_def)
  have "chain m_next (mp_msgs mp') (if Suc b < b + MESSAGEPOOL then Some (Suc b) else None) [Suc b..<b + MESSAGEPOOL]"
    using nx len by (intro pool_chain) auto
  then have free: "chain m_next (mp_msgs mp') (mp_freelist mp') [Suc b..<b + MESSAGEPOOL]"
    by (simp add: mp'_def MESSAGEPOOL_def)
  have kb: "j < b" if "j \<in> set ks" for j
    using l chain_bound[of m_next "mp_msgs mp" "db_head db" ks j] that by (simp add: db_list_def b_def)
  have e: "map (\<lambda>k. m_buffer (mp_msgs mp' ! k)) ks = map (\<lambda>k. m_buffer (mp_msgs mp ! k)) ks"
    using kb same by (intro map_cong) auto
  have "chain m_next (mp_msgs mp') (db_head db) ks"
    using l chain_append[of m_next "mp_msgs mp" "db_head db" ks] by (simp add: db_list_def mp'_def)
  moreover have "distinct (ks @ [Suc b..<b + MESSAGEPOOL])"
    using l kb by (force simp: db_list_def)
  moreover have "\<forall>k \<in> set ks. node_ready w (mp_msgs mp' ! k)"
    using l kb same by (simp add: db_list_def)
  ultimately have "db_list db mp' w ks [Suc b..<b + MESSAGEPOOL]"
    using l free unfolding db_list_def e by simp
  moreover have "db_concat mp' w ks = db_concat mp w ks"
    using kb same by (simp add: db_concat_def cong: map_cong)
  ultimately show ?thesis
    using t same kb len
    by (intro exI[of _ b] exI[of _ mp'] exI[of _ "[Suc b..<b + MESSAGEPOOL]"]) (force simp: b_def MESSAGEPOOL_def)
next
  case (Some k)
  then obtain fs' where fs: "fs = k # fs'" "k < length (mp_msgs mp)" "chain m_next (mp_msgs mp) (m_next (mp_msgs mp ! k)) fs'"
    using l chain_Some[of m_next "mp_msgs mp" k fs] by (auto simp: db_list_def)
  let ?mp = "mp\<lparr>mp_freelist := m_next (mp_msgs mp ! k)\<rparr>"
  have "take_message mp = Some (k, ?mp)"
    using Some fs(2) by (simp add: take_message_def)
  moreover have "db_list db ?mp w ks fs'"
    using l fs by (simp add: db_list_def)
  moreover have "k \<notin> set ks \<union> set fs'"
    using l fs(1) by (auto simp: db_list_def)
  ultimately show ?thesis
    using fs by (intro exI[of _ k] exI[of _ ?mp] exI[of _ fs']) (auto simp: db_concat_def)
qed

text \<open>Linking a node with a block behind the last node of the buffer.\<close>

definition link_node :: "message list \<Rightarrow> nat list \<Rightarrow> nat \<Rightarrow> message \<Rightarrow> message list" where
  "link_node msgs ks k m =
     (if ks = [] then msgs[k := m] else msgs[k := m, last ks := (msgs ! last ks)\<lparr>m_next := Some k\<rparr>])"

lemma link_node_nth:
  assumes "k \<notin> set ks" "k < length msgs" "\<forall>j \<in> set ks. j < length msgs"
  shows "link_node msgs ks k m ! k = m" "length (link_node msgs ks k m) = length msgs"
    "j \<noteq> k \<Longrightarrow> ks = [] \<or> j \<noteq> last ks \<Longrightarrow> link_node msgs ks k m ! j = msgs ! j"
    "j \<noteq> k \<Longrightarrow> m_buffer (link_node msgs ks k m ! j) = m_buffer (msgs ! j) \<and> m_size (link_node msgs ks k m ! j) = m_size (msgs ! j)"
    "ks \<noteq> [] \<Longrightarrow> m_next (link_node msgs ks k m ! last ks) = Some k"
proof -
  have lk: "last ks < length msgs \<and> last ks \<noteq> k" if "ks \<noteq> []"
    using that assms(1,3) last_in_set[OF that] by auto
  show "link_node msgs ks k m ! k = m" "length (link_node msgs ks k m) = length msgs"
    "j \<noteq> k \<Longrightarrow> ks = [] \<or> j \<noteq> last ks \<Longrightarrow> link_node msgs ks k m ! j = msgs ! j"
    "ks \<noteq> [] \<Longrightarrow> m_next (link_node msgs ks k m ! last ks) = Some k"
    using assms(2) lk by (auto simp: link_node_def)
  show "j \<noteq> k \<Longrightarrow> m_buffer (link_node msgs ks k m ! j) = m_buffer (msgs ! j) \<and> m_size (link_node msgs ks k m ! j) = m_size (msgs ! j)"
    using lk by (cases "j = last ks") (auto simp: link_node_def)
qed

lemma link_node_list:
  assumes l: "db_list db mp w ks fs" and k: "k \<notin> set ks \<union> set fs" "k < length (mp_msgs mp)"
    and m: "m_next m = None" "m_buffer m = Some a" "node_ready w m"
    and new: "\<And>j. j \<in> set ks \<Longrightarrow> m_buffer (mp_msgs mp ! j) \<noteq> Some a"
  shows "db_list (db\<lparr>db_head := (if ks = [] then Some k else db_head db), db_tail := Some k\<rparr>)
      (mp\<lparr>mp_msgs := link_node (mp_msgs mp) ks k m\<rparr>) w (ks @ [k]) fs"
    "db_concat (mp\<lparr>mp_msgs := link_node (mp_msgs mp) ks k m\<rparr>) w (ks @ [k]) = db_concat mp w ks @ node_bytes w m"
proof -
  define msgs where "msgs = link_node (mp_msgs mp) ks k m"
  have kb: "j < length (mp_msgs mp)" if "j \<in> set ks" for j
    using l chain_bound[of m_next "mp_msgs mp" "db_head db" ks j] that by (simp add: db_list_def)
  have "k \<notin> set ks" "\<forall>j \<in> set ks. j < length (mp_msgs mp)" using k kb by auto
  note nth = link_node_nth[OF this(1) k(2) this(2), where m = m, folded msgs_def]
  have c: "chain m_next (mp_msgs mp) (db_head db) ks" "chain m_next (mp_msgs mp) (mp_freelist mp) fs" "distinct (ks @ fs)"
    using l by (auto simp: db_list_def)
  have nk: "j \<noteq> k" if "j \<in> set ks \<union> set fs" for j using that k by auto
  have same: "node_bytes w (msgs ! j) = node_bytes w (mp_msgs mp ! j)" "node_ready w (msgs ! j) = node_ready w (mp_msgs mp ! j)" if "j \<in> set ks" for j
    using nth(4)[OF nk[of j]] that by (simp_all add: node_bytes_def node_ready_def split: option.split blk.split)
  have "chain m_next msgs (if ks = [] then Some k else db_head db) (ks @ [k])"
  proof (cases "ks = []")
    case False
    have "msgs ! j = mp_msgs mp ! j" if "j \<in> set (butlast ks)" for j
    proof -
      have "distinct (butlast ks @ [last ks])" using c(3) False by simp
      then have "j \<noteq> last ks" using that by auto
      with that show ?thesis using nth(3)[of j] nk[of j] by (auto dest: in_set_butlastD)
    qed
    with False c k nth(1,2,5) m(1) show ?thesis
      by (auto intro!: chain_snoc[OF c(1)])
  qed (use k nth(1,2) m(1) in simp)
  moreover have "chain m_next msgs (mp_freelist mp) fs"
  proof -
    have "msgs ! j = mp_msgs mp ! j" if "j \<in> set fs" for j
      using that nk[of j] c(3) by (intro nth(3)) (auto simp: disjoint_iff dest: last_in_set)
    then show ?thesis
      using c(2) chain_cong[of msgs "mp_msgs mp" fs m_next] nth(2) by simp
  qed
  moreover have "distinct (map (\<lambda>j. m_buffer (msgs ! j)) (ks @ [k]))"
  proof -
    have e: "map (\<lambda>j. m_buffer (msgs ! j)) ks = map (\<lambda>j. m_buffer (mp_msgs mp ! j)) ks"
      using nth(4) nk by (intro map_cong refl) auto
    show ?thesis
      using l new unfolding map_append e distinct_append by (auto simp: db_list_def nth(1) m(2)) metis
  qed
  moreover have "\<forall>j \<in> set (ks @ [k]). node_ready w (msgs ! j)"
    using l same(2) m(3) nth(1) by (auto simp: db_list_def)
  ultimately show "db_list (db\<lparr>db_head := (if ks = [] then Some k else db_head db), db_tail := Some k\<rparr>)
      (mp\<lparr>mp_msgs := link_node (mp_msgs mp) ks k m\<rparr>) w (ks @ [k]) fs"
    using k c(3) by (simp add: db_list_def flip: msgs_def)
  show "db_concat (mp\<lparr>mp_msgs := link_node (mp_msgs mp) ks k m\<rparr>) w (ks @ [k]) = db_concat mp w ks @ node_bytes w m"
    using same(1) nth(1) by (simp add: db_concat_def flip: msgs_def cong: map_cong)
qed

text \<open>Appending a block of the socket: its bytes come behind the bytes already there.\<close>

lemma databuffer_push_eq:
  assumes "take_message mp = Some (k, mp1)" "db_list db mp1 w ks fs" "k \<notin> set ks" "k < length (mp_msgs mp1)"
    "cint (db_size db + n) = Some sz"
  shows "databuffer_push db mp data n =
    Some (db\<lparr>db_size := sz, db_head := (if ks = [] then Some k else db_head db), db_tail := Some k\<rparr>,
      mp1\<lparr>mp_msgs := link_node (mp_msgs mp1) ks k \<lparr>m_buffer = data, m_size = n, m_next = None\<rparr>\<rparr>)"
proof (cases "ks = []")
  case True
  with assms show ?thesis by (simp add: databuffer_push_def link_node_def db_list_def)
next
  case False
  then have "db_head db \<noteq> None" "db_tail db = Some (last ks)" "last ks < length (mp_msgs mp1)" "last ks \<noteq> k"
    using assms(2,3) chain_bound[of m_next "mp_msgs mp1" "db_head db" ks "last ks"] last_in_set[OF False]
    by (auto simp: db_list_def)
  with False assms show ?thesis by (auto simp: databuffer_push_def link_node_def)
qed

lemma databuffer_push_ok:
  assumes ok: "db_ok db mp w ks fs" and a: "w_heap w a = Some (Bytes bs)" "0 \<le> n" "n \<le> int (length bs)"
    and new: "\<And>k. k \<in> set ks \<Longrightarrow> m_buffer (mp_msgs mp ! k) \<noteq> Some a"
    and room: "db_size db + n \<le> INT_MAX"
  shows "\<exists>db' mp' k fs'. databuffer_push db mp (Some a) n = Some (db', mp') \<and> db_ok db' mp' w (ks @ [k]) fs' \<and>
    db_bytes db' mp' w (ks @ [k]) = db_bytes db mp w ks @ take (nat n) bs \<and> db_header db' = db_header db \<and>
    m_buffer (mp_msgs mp' ! k) = Some a \<and> (\<forall>j \<in> set ks. m_buffer (mp_msgs mp' ! j) = m_buffer (mp_msgs mp ! j)) \<and>
    (\<forall>j \<in> insert k (set fs'). j \<in> set fs \<or> length (mp_msgs mp) \<le> j) \<and>
    db_frame mp w ks fs mp' w"
proof -
  have l: "db_list db mp w ks fs" and off: "offset_ok db mp ks" and sz: "db_size db = int (length (db_bytes db mp w ks))"
    using ok by (auto simp: db_ok_def)
  obtain k mp1 fs' where t: "take_message mp = Some (k, mp1)" "db_list db mp1 w ks fs'" "k < length (mp_msgs mp1)"
    "k \<notin> set ks \<union> set fs'" "db_concat mp1 w ks = db_concat mp w ks" "length (mp_msgs mp) \<le> length (mp_msgs mp1)"
    "\<And>j. j < length (mp_msgs mp) \<Longrightarrow> mp_msgs mp1 ! j = mp_msgs mp ! j"
    "\<forall>j \<in> insert k (set fs'). j \<in> set fs \<or> length (mp_msgs mp) \<le> j"
    using take_message_ok[OF l] by auto
  define m where "m = \<lparr>m_buffer = Some a, m_size = n, m_next = None\<rparr>"
  define mp' where "mp' = mp1\<lparr>mp_msgs := link_node (mp_msgs mp1) ks k m\<rparr>"
  define db1 where "db1 = db\<lparr>db_head := (if ks = [] then Some k else db_head db), db_tail := Some k\<rparr>"
  define db' where "db' = db\<lparr>db_size := db_size db + n, db_head := (if ks = [] then Some k else db_head db), db_tail := Some k\<rparr>"
  have db': "db' = db1\<lparr>db_size := db_size db + n\<rparr>" by (simp add: db'_def db1_def)
  have kb: "j < length (mp_msgs mp)" if "j \<in> set ks" for j
    using l chain_bound[of m_next "mp_msgs mp" "db_head db" ks j] that by (simp add: db_list_def)
  have kks: "k \<notin> set ks" "\<forall>j \<in> set ks. j < length (mp_msgs mp1)"
    using t(4,6) kb by (auto dest: order.strict_trans2)
  note nth = link_node_nth[OF kks(1) t(3) kks(2), where m = m]
  have "cint (db_size db + n) = Some (db_size db + n)"
    using sz a(2) room by (intro cint_in_range) auto
  then have push: "databuffer_push db mp (Some a) n = Some (db', mp')"
    using databuffer_push_eq[OF t(1,2) kks(1) t(3), of n _ "Some a"] by (simp add: db'_def mp'_def m_def)
  have mr: "node_ready w m" "node_bytes w m = take (nat n) bs"
    using a by (simp_all add: node_ready_def node_bytes_def m_def)
  have "m_buffer (mp_msgs mp1 ! j) \<noteq> Some a" if "j \<in> set ks" for j
    using new[OF that] t(7)[OF kb[OF that]] by simp
  then have link: "db_list db1 mp' w (ks @ [k]) fs'" "db_concat mp' w (ks @ [k]) = db_concat mp w ks @ take (nat n) bs"
    using link_node_list[OF t(2,4,3) _ _ mr(1), of a] mr(2) t(5) by (simp_all add: mp'_def m_def db1_def)
  have data: "m_buffer (mp_msgs mp' ! j) = m_buffer (mp_msgs mp ! j) \<and> m_size (mp_msgs mp' ! j) = m_size (mp_msgs mp ! j)"
    if "j \<in> set ks" for j
    using nth(4)[of j] kks(1) t(7)[OF kb[OF that]] that by (auto simp: mp'_def)
  have off': "offset_ok db1 mp' (ks @ [k]) \<and> nat (db_offset db) \<le> length (db_concat mp w ks)"
  proof (cases ks)
    case Nil
    then show ?thesis using off a(2) nth(1) by (simp add: offset_ok_def db1_def mp'_def m_def)
  next
    case (Cons j js)
    then have "node_ready w (mp_msgs mp ! j)" using l by (simp add: db_list_def)
    then have "int (length (node_bytes w (mp_msgs mp ! j))) = m_size (mp_msgs mp ! j)"
      by (rule node_bytes_length)
    with off data[of j] Cons show ?thesis by (simp add: offset_ok_def db1_def nat_le_iff)
  qed
  then have bytes: "db_bytes db1 mp' w (ks @ [k]) = db_bytes db mp w ks @ take (nat n) bs"
    unfolding db_bytes_def link(2) by (simp add: db1_def)
  then have ok': "db_ok db' mp' w (ks @ [k]) fs'"
    using link(1) off' sz a by (simp add: db_ok_def db' min_absorb2 nat_le_iff)
  have frame: "db_frame mp w ks fs mp' w"
  proof -
    have "mp_msgs mp' ! j = mp_msgs mp ! j" if "j < length (mp_msgs mp)" "j \<notin> set ks \<union> set fs" for j
    proof -
      have "j \<noteq> k" using t(8) that by auto
      moreover have "ks = [] \<or> j \<noteq> last ks" using that(2) last_in_set by auto
      ultimately show ?thesis using nth(3) t(7)[OF that(1)] by (simp add: mp'_def)
    qed
    then show ?thesis using t(6) nth(2) by (simp add: db_frame_def mp'_def)
  qed
  show ?thesis
    using push ok' bytes nth(1) data frame t(8)
    by (intro exI[of _ db'] exI[of _ mp'] exI[of _ k] exI[of _ fs']) (simp add: db' mp'_def m_def db1_def)
qed


lemma clear_loop_ok:
  assumes "db_list db mp w ks fs"
  shows "\<exists>mp' w' fs'. clear_loop db mp w = Some (mp', w') \<and>
    chain m_next (mp_msgs mp') (mp_freelist mp') fs' \<and> distinct fs' \<and> set fs' = set (ks @ fs) \<and>
    length (mp_msgs mp') = length (mp_msgs mp) \<and> db_frame mp w ks fs mp' w' \<and>
    (\<forall>k \<in> set ks. \<forall>a. m_buffer (mp_msgs mp ! k) = Some a \<longrightarrow> w_heap w' a = None)"
  using assms
proof (induction ks arbitrary: db mp w fs)
  case Nil
  then show ?case
    by (subst clear_loop.simps) (auto simp: db_list_def db_frame_refl)
next
  case (Cons k ks)
  from return_message_list[OF Cons.prems] obtain h t mp1 w1 where
    r: "return_message db mp w = Some (db\<lparr>db_head := h, db_tail := t\<rparr>, mp1, w1)"
      "db_list (db\<lparr>db_head := h, db_tail := t\<rparr>) mp1 w1 ks (k # fs)" "length (mp_msgs mp1) = length (mp_msgs mp)"
      "\<forall>j. j \<noteq> k \<longrightarrow> mp_msgs mp1 ! j = mp_msgs mp ! j" "db_frame mp w [k] fs mp1 w1"
    by auto
  from Cons.IH[OF r(2)] obtain mp' w' fs' where
    IH: "clear_loop (db\<lparr>db_head := h, db_tail := t\<rparr>) mp1 w1 = Some (mp', w')"
      "chain m_next (mp_msgs mp') (mp_freelist mp') fs'" "distinct fs'" "set fs' = set (ks @ k # fs)"
      "length (mp_msgs mp') = length (mp_msgs mp1)" "db_frame mp1 w1 ks (k # fs) mp' w'"
      "\<forall>j \<in> set ks. \<forall>a. m_buffer (mp_msgs mp1 ! j) = Some a \<longrightarrow> w_heap w' a = None"
    by auto
  have k: "db_head db = Some k" "k < length (mp_msgs mp)" "k \<notin> set ks" using Cons.prems by (auto simp: db_list_def)
  have "w_heap w' a = None" if "m_buffer (mp_msgs mp ! k) = Some a" for a
  proof -
    have "m_buffer (mp_msgs mp1 ! j) \<noteq> Some a" if "j \<in> set ks" for j
    proof -
      have jk: "j \<noteq> k" using that k by auto
      have "m_buffer (mp_msgs mp ! k) \<notin> (\<lambda>k. m_buffer (mp_msgs mp ! k)) ` set ks"
        using Cons.prems by (simp add: db_list_def)
      with that \<open>m_buffer (mp_msgs mp ! k) = Some a\<close> r(4) jk show ?thesis by force
    qed
    moreover have "w_heap w1 a = None"
      using r(1) k that by (auto simp: return_message_def skynet_free_def split: option.splits if_splits bind_splits)
    ultimately show ?thesis using IH(6) by (simp add: db_frame_def)
  qed
  moreover have "w_heap w' a = None" if "j \<in> set ks" "m_buffer (mp_msgs mp ! j) = Some a" for j a
    using IH(7) r(4) that k(3) by metis
  moreover have "db_frame mp w (k # ks) fs mp' w'"
    by (rule db_frame_trans[OF r(5) IH(6) r(3,4) k(3)])
  moreover have "clear_loop db mp w = Some (mp', w')"
    using k(1) r(1) IH(1) by (subst clear_loop.simps) simp
  ultimately show ?case
    using IH(2-5) r(3) by (intro exI[of _ mp'] exI[of _ w'] exI[of _ fs']) auto
qed

text \<open>The buffer does not look at the rest of the node.\<close>

lemma db_ok_world:
  assumes "\<And>a. a \<in> bufs mp ks \<Longrightarrow> w_heap w' a = w_heap w a"
  shows "db_ok db mp w' ks fs = db_ok db mp w ks fs" "db_bytes db mp w' ks = db_bytes db mp w ks"
proof -
  have n: "node_bytes w' (mp_msgs mp ! k) = node_bytes w (mp_msgs mp ! k) \<and> node_ready w' (mp_msgs mp ! k) = node_ready w (mp_msgs mp ! k)"
    if "k \<in> set ks" for k
  proof (cases "m_buffer (mp_msgs mp ! k)")
    case (Some a)
    with that assms[of a] node_same[of w' a w] show ?thesis by (auto simp: bufs_def)
  qed (simp add: node_bytes_def node_ready_def)
  then have "db_concat mp w' ks = db_concat mp w ks" "(\<forall>k \<in> set ks. node_ready w' (mp_msgs mp ! k)) = (\<forall>k \<in> set ks. node_ready w (mp_msgs mp ! k))"
    by (simp_all add: db_concat_def cong: map_cong)
  then show "db_ok db mp w' ks fs = db_ok db mp w ks fs" "db_bytes db mp w' ks = db_bytes db mp w ks"
    unfolding db_ok_def db_list_def db_bytes_def by simp_all
qed

lemma bufs_allocated: "db_ok db mp w ks fs \<Longrightarrow> a \<in> bufs mp ks \<Longrightarrow> w_heap w a \<noteq> None"
  by (fastforce simp: db_ok_def db_list_def node_ready_def bufs_def)

text \<open>Reading only frees blocks: a block outside the buffer stays, and free addresses stay free.\<close>

lemma db_frame_heap:
  assumes "db_frame mp w ks fs mp' w'"
  shows "a \<notin> bufs mp ks \<Longrightarrow> w_heap w' a = w_heap w a" "w' = w\<lparr>w_heap := w_heap w'\<rparr>"
  using assms by (auto simp: db_frame_def bufs_def)

lemma db_frame_heap_ok:
  assumes "db_frame mp w ks fs mp' w'" "db_ok db mp w ks fs" "heap_ok w"
  shows "heap_ok w'" "w_heap_brk w' = w_heap_brk w"
proof -
  have e: "w' = w\<lparr>w_heap := w_heap w'\<rparr>" using db_frame_heap(2)[OF assms(1)] .
  show brk: "w_heap_brk w' = w_heap_brk w" by (subst e) simp
  show "heap_ok w'"
    unfolding heap_ok_def brk
  proof (intro allI impI)
    fix a assume "w_heap_brk w \<le> a"
    then have "w_heap w a = None" using assms(3) by (simp add: heap_ok_def)
    with bufs_allocated[OF assms(2)] db_frame_heap(1)[OF assms(1), of a] show "w_heap w' a = None" by metis
  qed
qed

text \<open>The header is the big-endian value of its bytes, as long as that fits in an \<open>int\<close>.\<close>

lemma header_value_be:
  assumes "length plen = 2 \<or> length plen = 4" "be_value plen < 2 ^ 31"
  shows "header_value plen = int (be_value plen)"
  using assms(1)
proof
  assume "length plen = 2"
  then obtain a b where "plen = [a, b]" by (auto simp: length_Suc_conv numeral_2_eq_2)
  then show ?thesis by (simp add: header_value_def be_value_def)
next
  assume l: "length plen = 4"
  then obtain a b c d where p: "plen = [a, b, c, d]"
    by (auto simp: length_Suc_conv numeral_eq_Suc)
  define u where "u = (push_bit 24 (ucast a) OR push_bit 16 (ucast b) OR push_bit 8 (ucast c) OR ucast d :: u32)"
  have u: "unat u = be_value plen"
    unfolding u_def unat_be4 by (simp add: p be_value_def)
  have "sint u = int (unat u)"
    using assms(2) u by (simp add: sint_uint signed_take_bit_int_eq_self uint_nat)
  with u l show ?thesis by (simp add: header_value_def p u_def to_cint_def or.assoc)
qed

text \<open>The bytes of the stream that are not yet delivered: a header already read counts with its bytes.\<close>

definition pending :: "nat \<Rightarrow> databuffer \<Rightarrow> u8 list \<Rightarrow> u8 list" where
  "pending hs db bs = (if db_header db = 0 then [] else be_bytes hs (nat (db_header db))) @ bs"

definition header_ok :: "nat \<Rightarrow> databuffer \<Rightarrow> bool" where
  "header_ok hs db \<longleftrightarrow> 0 \<le> db_header db \<and> nat (db_header db) < 256 ^ hs \<and> (hs = 2 \<or> hs = 4)"

lemma readheader_short:
  assumes "db_ok db mp w ks fs" "header_ok hs db" "length (pending hs db (db_bytes db mp w ks)) < hs"
  shows "databuffer_readheader db mp (int hs) w = Some (-1, db, mp, w)"
  using assms by (auto simp: databuffer_readheader_def pending_def db_ok_def split: if_splits)

lemma readheader_ok:
  assumes ok: "db_ok db mp w ks fs" and h: "header_ok hs db"
    and L: "L = pending hs db (db_bytes db mp w ks)" "hs \<le> length L"
    and n: "n = be_value (take hs L)" "n < 2 ^ 31"
  shows "\<exists>db' mp' w' ks' fs'. databuffer_readheader db mp (int hs) w =
      Some (if complete hs L then int n else -1, db', mp', w') \<and>
    db_ok db' mp' w' ks' fs' \<and> db_header db' = int n \<and> db_bytes db' mp' w' ks' = drop hs L \<and>
    bufs mp' ks' \<subseteq> bufs mp ks \<and> db_frame mp w ks fs mp' w'"
proof (cases "db_header db = 0")
  case False
  then have L': "L = be_bytes hs (nat (db_header db)) @ db_bytes db mp w ks"
    using L(1) by (simp add: pending_def)
  then have "n = nat (db_header db)"
    using n(1) h by (simp add: header_ok_def be_value_be_bytes)
  then have hd: "db_header db = int n" using h by (simp add: header_ok_def)
  have "complete hs L \<longleftrightarrow> int n \<le> db_size db"
    unfolding complete_def n(1)[symmetric] using L' ok by (simp add: db_ok_def)
  then have "databuffer_readheader db mp (int hs) w = Some (if complete hs L then int n else -1, db, mp, w)"
    using False by (simp add: databuffer_readheader_def hd)
  then show ?thesis
    using ok hd L' db_frame_refl by (intro exI[of _ db] exI[of _ mp] exI[of _ w] exI[of _ ks] exI[of _ fs]) simp
next
  case True
  then have L': "L = db_bytes db mp w ks" using L(1) by (simp add: pending_def)
  have hs: "0 < hs" "hs = 2 \<or> hs = 4" using h by (auto simp: header_ok_def)
  from databuffer_read_ok[OF ok, of "int hs"] hs(1) L(2) obtain db' mp' w' ks' fs' where
    r: "databuffer_read db mp (int hs) w = Some (take hs L, db', mp', w')" "db_ok db' mp' w' ks' fs'"
      "db_bytes db' mp' w' ks' = drop hs L" "bufs mp' ks' \<subseteq> bufs mp ks" "db_frame mp w ks fs mp' w'"
    by (auto simp: L')
  have "length (take hs L) = 2 \<or> length (take hs L) = 4"
    using hs(2) L(2) by auto
  then have v: "header_value (take hs L) = int n"
    using header_value_be[of "take hs L"] n by simp
  have "complete hs L \<longleftrightarrow> int n \<le> db_size db'"
    unfolding complete_def n(1)[symmetric] using r(2,3) L(2) by (auto simp: db_ok_def)
  moreover have "\<not> db_size db < int hs"
    using ok L(2) L' by (simp add: db_ok_def)
  ultimately have "databuffer_readheader db mp (int hs) w =
      Some (if complete hs L then int n else -1, db'\<lparr>db_header := int n\<rparr>, mp', w')"
    using True r(1) v by (simp add: databuffer_readheader_def)
  then show ?thesis
    using r(2-5) by (intro exI[of _ "db'\<lparr>db_header := int n\<rparr>"] exI[of _ mp'] exI[of _ w'] exI[of _ ks'] exI[of _ fs']) simp
qed

section \<open>Interface and properties\<close>

text \<open>The receive buffer satisfies the contract of a byte buffer; a block can be put in once, and is as
  long as the socket said.\<close>

definition db_holds :: "databuffer \<times> messagepool \<times> world \<Rightarrow> u8 list \<Rightarrow> bool" where
  "db_holds s bs \<longleftrightarrow> (case s of (db, mp, w) \<Rightarrow> \<exists>ks fs. db_ok db mp w ks fs \<and> db_bytes db mp w ks = bs)"

definition db_ready :: "databuffer \<times> messagepool \<times> world \<Rightarrow> addr \<times> int \<Rightarrow> u8 list \<Rightarrow> bool" where
  "db_ready s d cs \<longleftrightarrow> (case (s, d) of ((db, mp, w), (a, n)) \<Rightarrow>
     (\<exists>bs. w_heap w a = Some (Bytes bs) \<and> 0 \<le> n \<and> n \<le> int (length bs) \<and> cs = take (nat n) bs) \<and>
     (\<forall>m \<in> set (mp_msgs mp). m_buffer m \<noteq> Some a))"

definition db_put :: "addr \<times> int \<Rightarrow> databuffer \<times> messagepool \<times> world \<Rightarrow> (databuffer \<times> messagepool \<times> world) option" where
  "db_put d s = (case (s, d) of ((db, mp, w), (a, n)) \<Rightarrow>
     do { (db, mp) \<leftarrow> databuffer_push db mp (Some a) n; Some (db, mp, w) })"

definition db_get :: "nat \<Rightarrow> databuffer \<times> messagepool \<times> world \<Rightarrow> (u8 list \<times> databuffer \<times> messagepool \<times> world) option" where
  "db_get n s = (case s of (db, mp, w) \<Rightarrow> databuffer_read db mp (int n) w)"

interpretation rcv: byte_buffer db_holds db_ready "nat INT_MAX" db_put db_get
proof (unfold_locales, goal_cases)
  case (1 s bs d cs)
  obtain db mp w a n where sd: "s = (db, mp, w)" "d = (a, n)" by (cases s; cases d)
  with 1 obtain ks fs where k: "db_ok db mp w ks fs" "db_bytes db mp w ks = bs" by (auto simp: db_holds_def)
  from 1(2) sd obtain xs where x: "w_heap w a = Some (Bytes xs)" "0 \<le> n" "n \<le> int (length xs)" "cs = take (nat n) xs"
    "\<forall>m \<in> set (mp_msgs mp). m_buffer m \<noteq> Some a"
    by (auto simp: db_ready_def)
  have new: "m_buffer (mp_msgs mp ! j) \<noteq> Some a" if "j \<in> set ks" for j
  proof -
    have "chain m_next (mp_msgs mp) (db_head db) ks" using k(1) by (simp add: db_ok_def db_list_def)
    then have "j < length (mp_msgs mp)" using that by (rule chain_bound)
    then show ?thesis using x(5) by auto
  qed
  have "db_size db + n \<le> INT_MAX"
    using k 1(3) x(2-4) by (simp add: db_ok_def min_absorb2 nat_le_iff INT_MAX_def)
  from databuffer_push_ok[OF k(1) x(1-3) new this] k(2) x(4) show ?case
    by (fastforce simp: db_put_def db_holds_def sd)
next
  case (2 s bs n)
  obtain db mp w where sd: "s = (db, mp, w)" by (cases s)
  with 2 obtain ks fs where k: "db_ok db mp w ks fs" "db_bytes db mp w ks = bs" by (auto simp: db_holds_def)
  from databuffer_read_ok[OF k(1), of "int n"] 2(2,3) k(2) show ?case
    by (fastforce simp: db_get_def db_holds_def sd)
qed


lemma empty_holds: "db_holds (databuffer_zero, messagepool_zero, w) []"
  unfolding db_holds_def
  by (auto intro!: exI[of _ "[]"] simp: db_ok_def db_list_def offset_ok_def db_bytes_def databuffer_zero_def messagepool_zero_def)


end
