(* ===== verification/Gate.thy ===== *)
theory Gate
  imports Commands HashId Socket DataBuffer
begin

text \<open>
  The gate service, \<open>service-src/service_gate.c\<close>: it accepts connections, cuts what they send into frames
  (a length of 2 or 4 bytes, big-endian, before each) and forwards the frames to the broker, the agent
  of the connection, or the watchdog. The operations take and return the \<open>struct gate\<close> and the node.
\<close>

section \<open>State\<close>

definition BACKLOG :: int where "BACKLOG = 128"

text \<open>\<open>cn_remote_name\<close> holds the bytes before the terminating zero that the code writes.\<close>

record connection =
  cn_id :: int
  cn_agent :: u32
  cn_client :: u32
  cn_remote_name :: "u8 list"
  cn_buffer :: databuffer

record gate =
  g_ctx :: "addr option"
  g_listen_id :: int
  g_watchdog :: u32
  g_broker :: u32
  g_client_tag :: int
  g_header_size :: int
  g_max_connection :: int
  g_hash :: hashid
  g_conn :: "connection list"
  g_mp :: messagepool

definition connection_zero :: connection where
  "connection_zero = \<lparr>cn_id = 0, cn_agent = 0, cn_client = 0, cn_remote_name = [], cn_buffer = databuffer_zero\<rparr>"

definition gate_create :: gate where
  "gate_create = \<lparr>g_ctx = None, g_listen_id = -1, g_watchdog = 0, g_broker = 0, g_client_tag = 0, g_header_size = 0,
     g_max_connection = 0,
     g_hash = \<lparr>hi_hashmod = 0, hi_cap = 0, hi_count = 0, hi_id = [], hi_hash = []\<rparr>,
     g_conn = [], g_mp = messagepool_zero\<rparr>"

text \<open>A socket call on behalf of the gate.\<close>

definition gate_close :: "ext \<Rightarrow> gate \<Rightarrow> int \<Rightarrow> world \<Rightarrow> world option" where
  "gate_close x g i w = do { ctx \<leftarrow> g_ctx g; skynet_socket_close x ctx i w }"

fun release_conns :: "ext \<Rightarrow> gate \<Rightarrow> connection list \<Rightarrow> world \<Rightarrow> world option" where
  "release_conns x g [] w = Some w"
| "release_conns x g (c # cs) w = do {
     w \<leftarrow> (if cn_id c \<ge> 0 then gate_close x g (cn_id c) w else Some w);
     release_conns x g cs w }"

text \<open>The gate and its arrays are freed; the result is the node. The receive blocks that connections still
  hold are not freed, as in the code.\<close>

definition gate_release :: "ext \<Rightarrow> gate \<Rightarrow> world \<Rightarrow> world option" where
  "gate_release x g w = do {
     w \<leftarrow> (if int (length (g_conn g)) < g_max_connection g then None
            else release_conns x g (take (nat (g_max_connection g)) (g_conn g)) w);
     if g_listen_id g \<ge> 0 then gate_close x g (g_listen_id g) w else Some w }"

section \<open>Commands\<close>

text \<open>A buffer of characters that holds C strings, read from an offset to the next zero.\<close>

definition cstr_at :: "string \<Rightarrow> nat \<Rightarrow> string option" where
  "cstr_at buf off =
     (if CHR 0x00 \<in> set (drop off buf) then Some (takeWhile (\<lambda>c. c \<noteq> CHR 0x00) (drop off buf)) else None)"

text \<open>\<open>_parm\<close>: the parameters behind a command of \<open>n\<close> characters are moved to the front of the buffer of
  \<open>sz + 1\<close> characters and terminated.\<close>

definition parm :: "string \<Rightarrow> nat \<Rightarrow> nat \<Rightarrow> string" where
  "parm msg sz n =
     (let n = n + length (takeWhile (\<lambda>c. c = CHR '' '') (drop n (take sz msg)));
          p = drop n (take sz msg)
      in p @ [CHR 0x00] @ drop (Suc (length p)) msg)"

text \<open>\<open>memcmp\<close> with the first \<open>n\<close> bytes of a string literal, which ends with a zero.\<close>

definition memcmp_lit :: "string \<Rightarrow> string \<Rightarrow> nat \<Rightarrow> bool option" where
  "memcmp_lit s lit n =
     (let l = lit @ [CHR 0x00]
      in if n \<le> length l then Some (take n s = take n l)
         else if take (length l) s = l then None else Some False)"

text \<open>\<open>strsep\<close> at a space: the offset behind the token, if there is one.\<close>

definition strsep_at :: "string \<Rightarrow> nat \<Rightarrow> (string \<times> nat option) option" where
  "strsep_at buf off = do {
     s \<leftarrow> cstr_at buf off;
     let tok = takeWhile (\<lambda>c. c \<noteq> CHR '' '') s;
     if length tok < length s
     then Some (buf[off + length tok := CHR 0x00], Some (off + length tok + 1))
     else Some (buf, None) }"

definition conn_upd :: "int \<Rightarrow> (connection \<Rightarrow> connection) \<Rightarrow> gate \<Rightarrow> gate option" where
  "conn_upd i f g = do { c \<leftarrow> arr_get (g_conn g) i; Some (g\<lparr>g_conn := (g_conn g)[nat i := f c]\<rparr>) }"

definition forward_agent :: "gate \<Rightarrow> int \<Rightarrow> u32 \<Rightarrow> u32 \<Rightarrow> gate option" where
  "forward_agent g fd agentaddr clientaddr = do {
     i \<leftarrow> hashid_lookup (g_hash g) fd;
     if i \<ge> 0 then conn_upd i (\<lambda>c. c\<lparr>cn_agent := agentaddr, cn_client := clientaddr\<rparr>) g else Some g }"

definition cmd_forward :: "gate \<Rightarrow> string \<Rightarrow> gate option" where
  "cmd_forward g buf = do {
     (buf, client) \<leftarrow> strsep_at buf 0;
     case client of
       None \<Rightarrow> Some g
     | Some agent \<Rightarrow> do {
         idstr \<leftarrow> cstr_at buf 0;
         let fd = wrap_int (strtol 10 idstr);
         (buf, client) \<leftarrow> strsep_at buf agent;
         case client of
           None \<Rightarrow> Some g
         | Some client \<Rightarrow> do {
             a \<leftarrow> cstr_at buf (agent + 1);
             c \<leftarrow> cstr_at buf (client + 1);
             forward_agent g fd (to_u32 (strtoul 16 a)) (to_u32 (strtoul 16 c)) } } }"

text \<open>The number in a command, when it is the id of a connection.\<close>

definition cmd_conn :: "gate \<Rightarrow> string \<Rightarrow> int option option" where
  "cmd_conn g buf = do {
     command \<leftarrow> cstr_at buf 0;
     let uid = wrap_int (strtol 10 command);
     i \<leftarrow> hashid_lookup (g_hash g) uid;
     Some (if i \<ge> 0 then Some uid else None) }"

text \<open>\<open>msg\<close> are the \<open>sz\<close> bytes of the message as characters.\<close>

definition ctrl :: "ext \<Rightarrow> gate \<Rightarrow> string \<Rightarrow> world \<Rightarrow> (gate \<times> world) option" where
  "ctrl x g msg w = do {
     ctx \<leftarrow> g_ctx g;
     let sz = length msg;
     let tmp = msg @ [CHR 0x00];
     if sz = 0 then Some (g, w)
     else do {
       let i = length (takeWhile (\<lambda>c. c \<noteq> CHR '' '') msg);
       kick \<leftarrow> memcmp_lit tmp ''kick'' i;
       if kick then do {
         uid \<leftarrow> cmd_conn g (parm tmp sz i);
         case uid of
           None \<Rightarrow> Some (g, w)
         | Some uid \<Rightarrow> do { w \<leftarrow> skynet_socket_close x ctx uid w; Some (g, w) } }
       else do {
       forward \<leftarrow> memcmp_lit tmp ''forward'' i;
       if forward then do { g \<leftarrow> cmd_forward g (parm tmp sz i); Some (g, w) }
       else do {
       broker \<leftarrow> memcmp_lit tmp ''broker'' i;
       if broker then do {
         command \<leftarrow> cstr_at (parm tmp sz i) 0;
         (h, w) \<leftarrow> skynet_queryname x ctx command w;
         Some (g\<lparr>g_broker := h\<rparr>, w) }
       else do {
       start \<leftarrow> memcmp_lit tmp ''start'' i;
       if start then do {
         uid \<leftarrow> cmd_conn g (parm tmp sz i);
         case uid of
           None \<Rightarrow> Some (g, w)
         | Some uid \<Rightarrow> do { w \<leftarrow> skynet_socket_start x ctx uid w; Some (g, w) } }
       else do {
       close \<leftarrow> memcmp_lit tmp ''close'' i;
       if close then
         if g_listen_id g \<ge> 0 then do {
           w \<leftarrow> skynet_socket_close x ctx (g_listen_id g) w;
           Some (g\<lparr>g_listen_id := -1\<rparr>, w) }
         else Some (g, w)
       else do {
         command \<leftarrow> cstr_at tmp 0;
         w \<leftarrow> skynet_error x (Some ctx) (''[gate] Unknown command : '' @ command) w;
         Some (g, w) } } } } } } }"

section \<open>Messages of clients\<close>

text \<open>\<open>data\<close> is the text \<open>vsnprintf\<close> makes, of which 1023 characters fit.\<close>

definition report :: "ext \<Rightarrow> gate \<Rightarrow> string \<Rightarrow> world \<Rightarrow> world option" where
  "report x g data w =
     (if g_watchdog g = 0 then Some w
      else do {
        ctx \<leftarrow> g_ctx g;
        (_, w) \<leftarrow> skynet_send x (Some ctx) 0 (g_watchdog g) PTYPE_TEXT 0
          (Buf (cstr (take 1023 data))) (of_nat (length data)) w;
        Some w })"

text \<open>Reading \<open>len\<close> (\<open>size\<close>) bytes of a connection into a new block, behind the characters \<open>pre\<close>. The code allocates
  32 bytes for \<open>pre\<close>; those it does not write are not part of the message.\<close>

definition take_payload :: "int \<Rightarrow> string \<Rightarrow> int \<Rightarrow> gate \<Rightarrow> world \<Rightarrow> (addr \<times> gate \<times> world) option" where
  "take_payload i pre len g w = do {
     c \<leftarrow> arr_get (g_conn g) i;
     (bs, db, mp, w) \<leftarrow> databuffer_read (cn_buffer c) (g_mp g) len w;
     let (temp, w) = skynet_malloc (Bytes (map of_char pre @ bs)) w;
     Some (temp, g\<lparr>g_conn := (g_conn g)[nat i := c\<lparr>cn_buffer := db\<rparr>], g_mp := mp\<rparr>, w) }"

definition forward :: "ext \<Rightarrow> gate \<Rightarrow> int \<Rightarrow> int \<Rightarrow> world \<Rightarrow> (gate \<times> world) option" where
  "forward x g i len w = do {
     ctx \<leftarrow> g_ctx g;
     c \<leftarrow> arr_get (g_conn g) i;
     let fd = cn_id c;
     if fd \<le> 0 then Some (g, w)
     else if g_broker g \<noteq> 0 then do {
       (temp, g, w) \<leftarrow> take_payload i [] len g w;
       (_, w) \<leftarrow> skynet_send x (Some ctx) 0 (g_broker g) (g_client_tag g OR PTYPE_TAG_DONTCOPY) fd
         (Blk temp) (word_of_int len) w;
       Some (g, w) }
     else if cn_agent c \<noteq> 0 then do {
       (temp, g, w) \<leftarrow> take_payload i [] len g w;
       (_, w) \<leftarrow> skynet_send x (Some ctx) (cn_client c) (cn_agent c) (g_client_tag g OR PTYPE_TAG_DONTCOPY) fd
         (Blk temp) (word_of_int len) w;
       Some (g, w) }
     else if g_watchdog g \<noteq> 0 then do {
       let text = fmt_d fd @ '' data '';
       (temp, g, w) \<leftarrow> take_payload i text len g w;
       (_, w) \<leftarrow> skynet_send x (Some ctx) 0 (g_watchdog g) (PTYPE_TEXT OR PTYPE_TAG_DONTCOPY) fd
         (Blk temp) (word_of_int (len + int (length text))) w;
       Some (g, w) }
     else Some (g, w) }"

text \<open>The loop of \<open>dispatch_message\<close> for the connection in slot \<open>i\<close> with socket id \<open>fd\<close>.\<close>

partial_function (option) message_loop :: "ext \<Rightarrow> gate \<Rightarrow> int \<Rightarrow> int \<Rightarrow> world \<Rightarrow> (gate \<times> world) option" where
  "message_loop x g i fd w =
     (case arr_get (g_conn g) i of
        None \<Rightarrow> None
      | Some c \<Rightarrow>
          (case databuffer_readheader (cn_buffer c) (g_mp g) (g_header_size g) w of
             None \<Rightarrow> None
           | Some (len, db, mp, w) \<Rightarrow>
               let g = g\<lparr>g_conn := (g_conn g)[nat i := c\<lparr>cn_buffer := db\<rparr>], g_mp := mp\<rparr> in
               if len < 0 then Some (g, w)
               else if len > 0 then
                 if len \<ge> 0x1000000 then do {
                   (db, mp, w) \<leftarrow> databuffer_clear db mp w;
                   w \<leftarrow> gate_close x g fd w;
                   w \<leftarrow> skynet_error x (g_ctx g) ''Recv socket message > 16M'' w;
                   Some (g\<lparr>g_conn := (g_conn g)[nat i := c\<lparr>cn_buffer := db\<rparr>], g_mp := mp\<rparr>, w) }
                 else
                   (case forward x g i len w of
                      None \<Rightarrow> None
                    | Some (g, w) \<Rightarrow>
                        (case conn_upd i (\<lambda>c. c\<lparr>cn_buffer := databuffer_reset (cn_buffer c)\<rparr>) g of
                           None \<Rightarrow> None
                         | Some g \<Rightarrow> message_loop x g i fd w))
               else message_loop x g i fd w))"

declare message_loop.simps [code]

definition gate_dispatch_message ::
  "ext \<Rightarrow> gate \<Rightarrow> int \<Rightarrow> int \<Rightarrow> addr option \<Rightarrow> int \<Rightarrow> world \<Rightarrow> (gate \<times> world) option" where
  "gate_dispatch_message x g i fd data sz w = do {
     c \<leftarrow> arr_get (g_conn g) i;
     (db, mp) \<leftarrow> databuffer_push (cn_buffer c) (g_mp g) data sz;
     message_loop x (g\<lparr>g_conn := (g_conn g)[nat i := c\<lparr>cn_buffer := db\<rparr>], g_mp := mp\<rparr>) i fd w }"

section \<open>Socket events\<close>

definition socket_accept :: "ext \<Rightarrow> gate \<Rightarrow> addr \<Rightarrow> skynet_socket_message \<Rightarrow> u8 list \<Rightarrow> world \<Rightarrow> (gate \<times> world) option" where
  "socket_accept x g ctx message tail w =
     (if g_listen_id g \<noteq> sm_id message then None
      else if hashid_full (g_hash g) then do {
        w \<leftarrow> skynet_socket_close x ctx (sm_ud message) w;
        Some (g, w) }
      else do {
        (i, hash) \<leftarrow> hashid_insert (g_hash g) (sm_ud message);
        let name = take 31 tail;
        g \<leftarrow> conn_upd i (\<lambda>c. c\<lparr>cn_id := sm_ud message, cn_remote_name := name\<rparr>) (g\<lparr>g_hash := hash\<rparr>);
        let fd = sm_ud message;
        w \<leftarrow> report x g (fmt_d fd @ '' open '' @ fmt_d fd @ '' '' @
          map (\<lambda>b. char_of (unat b)) (takeWhile (\<lambda>b. b \<noteq> 0) name) @ '':0'') w;
        w \<leftarrow> skynet_error x (Some ctx) (''socket open: '' @ fmt_x (unat (word_of_int fd :: u32))) w;
        Some (g, w) })"

definition socket_closed :: "ext \<Rightarrow> gate \<Rightarrow> skynet_socket_message \<Rightarrow> world \<Rightarrow> (gate \<times> world) option" where
  "socket_closed x g message w = do {
     (i, hash) \<leftarrow> hashid_remove (g_hash g) (sm_id message);
     let g = g\<lparr>g_hash := hash\<rparr>;
     if i \<ge> 0 then do {
       c \<leftarrow> arr_get (g_conn g) i;
       (_, mp, w) \<leftarrow> databuffer_clear (cn_buffer c) (g_mp g) w;
       let g = g\<lparr>g_conn := (g_conn g)[nat i := connection_zero\<lparr>cn_id := -1\<rparr>], g_mp := mp\<rparr>;
       w \<leftarrow> report x g (fmt_d (sm_id message) @ '' close'') w;
       Some (g, w) }
     else Some (g, w) }"

definition dispatch_socket_message ::
  "ext \<Rightarrow> gate \<Rightarrow> skynet_socket_message \<Rightarrow> u8 list \<Rightarrow> world \<Rightarrow> (gate \<times> world) option" where
  "dispatch_socket_message x g message tail w = do {
     ctx \<leftarrow> g_ctx g;
     if sm_type message = SKYNET_SOCKET_TYPE_DATA then do {
       i \<leftarrow> hashid_lookup (g_hash g) (sm_id message);
       if i \<ge> 0 then gate_dispatch_message x g i (sm_id message) (sm_buffer message) (sm_ud message) w
       else do {
         w \<leftarrow> skynet_error x (Some ctx) (''Drop unknown connection '' @ fmt_d (sm_id message) @ '' message'') w;
         w \<leftarrow> skynet_socket_close x ctx (sm_id message) w;
         w \<leftarrow> skynet_free (sm_buffer message) w;
         Some (g, w) } }
     else if sm_type message = SKYNET_SOCKET_TYPE_CONNECT then
       if sm_id message = g_listen_id g then Some (g, w)
       else do {
         i \<leftarrow> hashid_lookup (g_hash g) (sm_id message);
         if i < 0 then do {
           w \<leftarrow> skynet_error x (Some ctx) (''Close unknown connection '' @ fmt_d (sm_id message)) w;
           w \<leftarrow> skynet_socket_close x ctx (sm_id message) w;
           Some (g, w) }
         else Some (g, w) }
     else if sm_type message = SKYNET_SOCKET_TYPE_CLOSE \<or> sm_type message = SKYNET_SOCKET_TYPE_ERROR then
       socket_closed x g message w
     else if sm_type message = SKYNET_SOCKET_TYPE_ACCEPT then socket_accept x g ctx message tail w
     else if sm_type message = SKYNET_SOCKET_TYPE_WARNING then do {
       w \<leftarrow> skynet_error x (Some ctx)
         (''fd ('' @ fmt_d (sm_id message) @ '') send buffer ('' @ fmt_d (sm_ud message) @ '')K'') w;
       Some (g, w) }
     else Some (g, w) }"

text \<open>The little-endian socket id at the end of a client message.\<close>

definition client_uid :: "u8 list \<Rightarrow> u32" where
  "client_uid idbuf =
     ucast (idbuf ! 0) OR push_bit 8 (ucast (idbuf ! 1)) OR push_bit 16 (ucast (idbuf ! 2)) OR
     push_bit 24 (ucast (idbuf ! 3))"

text \<open>\<open>_cb\<close>; the result is 1 when the message block now belongs to the socket server.\<close>

definition gate_cb ::
  "ext \<Rightarrow> gate \<Rightarrow> addr \<Rightarrow> int \<Rightarrow> u32 \<Rightarrow> addr option \<Rightarrow> u64 \<Rightarrow> world \<Rightarrow> (int \<times> gate \<times> world) option" where
  "gate_cb x g ctx type source msg sz w =
     (if type = PTYPE_TEXT then do {
        bs \<leftarrow> read_data x msg (unat sz) w;
        (g, w) \<leftarrow> ctrl x g (map (\<lambda>b. char_of (unat b)) bs) w;
        Some (0, g, w) }
      else if type = PTYPE_CLIENT then
        if sz \<le> 4 then do {
          w \<leftarrow> skynet_error x (Some ctx) (''Invalid client message from '' @ fmt_x (unat source)) w;
          Some (0, g, w) }
        else do {
          bs \<leftarrow> read_data x msg (unat sz) w;
          let uid = to_cint (client_uid (drop (unat sz - 4) bs));
          i \<leftarrow> hashid_lookup (g_hash g) uid;
          if i \<ge> 0 then do {
            let (_, w) = skynet_socket_send x uid msg (to_cint (to_u32 (sz - 4))) w;
            Some (1, g, w) }
          else do {
            w \<leftarrow> skynet_error x (Some ctx)
              (''Invalid client id '' @ fmt_d uid @ '' from '' @ fmt_x (unat source)) w;
            Some (0, g, w) } }
      else if type = PTYPE_SOCKET then do {
        a \<leftarrow> msg;
        (case w_heap w a of
           Some (Sock message tail) \<Rightarrow> do {
             (g, w) \<leftarrow> dispatch_socket_message x g message tail w;
             Some (0, g, w) }
         | _ \<Rightarrow> None) }
      else Some (0, g, w))"

section \<open>Start\<close>

definition strrchr :: "string \<Rightarrow> char \<Rightarrow> nat option" where
  "strrchr s c = (if c \<in> set s then Some (length s - 1 - length (takeWhile (\<lambda>d. d \<noteq> c) (rev s))) else None)"

definition start_listen :: "ext \<Rightarrow> gate \<Rightarrow> string \<Rightarrow> world \<Rightarrow> (int \<times> gate \<times> world) option" where
  "start_listen x g listen_addr w = do {
     ctx \<leftarrow> g_ctx g;
     let (host, port) = (case strrchr listen_addr (CHR '':'') of
        None \<Rightarrow> ([], wrap_int (strtol 10 listen_addr))
      | Some k \<Rightarrow> (take k listen_addr, wrap_int (strtol 10 (drop (Suc k) listen_addr))));
     if port \<le> 0 then do {
       w \<leftarrow> skynet_error x (Some ctx) (''Invalid gate address '' @ listen_addr) w;
       Some (1, g, w) }
     else do {
       (i, w) \<leftarrow> skynet_socket_listen x ctx host port BACKLOG w;
       let g = g\<lparr>g_listen_id := i\<rparr>;
       if i < 0 then Some (1, g, w)
       else do { w \<leftarrow> skynet_socket_start x ctx i w; Some (0, g, w) } } }"

text \<open>\<open>sscanf(parm, "%c %s %s %d %d")\<close>: \<open>None\<close> when fewer than four were read; \<open>max\<close> is 0 when it was not read.\<close>

definition scan_parm :: "string \<Rightarrow> (char \<times> string \<times> string \<times> int \<times> int) option" where
  "scan_parm par =
     (case par of
        [] \<Rightarrow> None
      | header # s \<Rightarrow>
          (case scan_s s of
             (Some watchdog, s) \<Rightarrow>
               (case scan_s s of
                  (Some binding, s) \<Rightarrow> do {
                    (client_tag, s) \<leftarrow> scan_d s;
                    Some (header, watchdog, binding, client_tag, (case scan_d s of Some (mx, _) \<Rightarrow> mx | None \<Rightarrow> 0)) }
                | _ \<Rightarrow> None)
           | _ \<Rightarrow> None))"

text \<open>\<open>ud\<close> and \<open>cb\<close> are the addresses of the gate and of \<open>_cb\<close>.\<close>

definition gate_setup ::
  "ext \<Rightarrow> gate \<Rightarrow> addr \<Rightarrow> addr \<Rightarrow> nat \<Rightarrow> char \<Rightarrow> string \<Rightarrow> int \<Rightarrow> int \<Rightarrow> world \<Rightarrow> (int \<times> gate \<times> world) option" where
  "gate_setup x g ctx ud cb header binding client_tag mx w = do {
     hash \<leftarrow> hashid_init mx;
     let g = g\<lparr>g_ctx := Some ctx, g_hash := hash, g_max_connection := mx,
       g_conn := replicate (nat mx) (connection_zero\<lparr>cn_id := -1\<rparr>),
       g_client_tag := client_tag, g_header_size := (if header = CHR ''S'' then 2 else 4)\<rparr>;
     w \<leftarrow> skynet_callback ctx ud (Some cb) w;
     start_listen x g binding w }"

definition gate_init ::
  "ext \<Rightarrow> gate \<Rightarrow> addr \<Rightarrow> addr \<Rightarrow> nat \<Rightarrow> string option \<Rightarrow> world \<Rightarrow> (int \<times> gate \<times> world) option" where
  "gate_init x g ctx ud cb par w =
     (case par of
        None \<Rightarrow> Some (1, g, w)
      | Some par \<Rightarrow>
          let fail = (\<lambda>text. do { w \<leftarrow> skynet_error x (Some ctx) text w; Some (1, g, w) }) in
          (case scan_parm par of
             None \<Rightarrow> fail (''Invalid gate parm '' @ par)
           | Some (header, watchdog, binding, client_tag, mx) \<Rightarrow>
               if mx \<le> 0 then fail ''Need max connection''
               else if header \<noteq> CHR ''S'' \<and> header \<noteq> CHR ''L'' then fail ''Invalid data header style''
               else
                 let client_tag = (if client_tag = 0 then PTYPE_CLIENT else client_tag) in
                 if take 1 watchdog = ''!'' then
                   gate_setup x (g\<lparr>g_watchdog := 0\<rparr>) ctx ud cb header binding client_tag mx w
                 else do {
                   (h, w) \<leftarrow> skynet_queryname x ctx watchdog w;
                   let g = g\<lparr>g_watchdog := h\<rparr>;
                   if h = 0 then do {
                     w \<leftarrow> skynet_error x (Some ctx) (''Invalid watchdog '' @ watchdog) w;
                     Some (1, g, w) }
                   else gate_setup x g ctx ud cb header binding client_tag mx w }))"

section \<open>Frames of a connection\<close>

text \<open>\<open>L\<close> are the bytes the connection in slot \<open>i\<close> has not delivered yet.\<close>

definition buf_rep :: "gate \<Rightarrow> int \<Rightarrow> connection \<Rightarrow> nat \<Rightarrow> world \<Rightarrow> nat list \<Rightarrow> nat list \<Rightarrow> u8 list \<Rightarrow> bool" where
  "buf_rep g i c hs w ks fs L \<longleftrightarrow>
     arr_get (g_conn g) i = Some c \<and> g_header_size g = int hs \<and>
     db_ok (cn_buffer c) (g_mp g) w ks fs \<and> header_ok hs (cn_buffer c) \<and>
     L = pending hs (cn_buffer c) (db_bytes (cn_buffer c) (g_mp g) w ks)"

text \<open>Such a connection that forwards to its agent.\<close>

definition conn_rep :: "gate \<Rightarrow> int \<Rightarrow> connection \<Rightarrow> nat \<Rightarrow> world \<Rightarrow> nat list \<Rightarrow> nat list \<Rightarrow> u8 list \<Rightarrow> bool" where
  "conn_rep g i c hs w ks fs L \<longleftrightarrow>
     buf_rep g i c hs w ks fs L \<and> g_ctx g \<noteq> None \<and> g_broker g = 0 \<and>
     0 \<le> g_client_tag g \<and> g_client_tag g < 256 \<and> 0 < cn_id c \<and> cn_agent c \<noteq> 0 \<and> cn_client c \<noteq> 0"

text \<open>The part of the node the gate needs for a connection to agent \<open>h\<close> with \<open>ms\<close> in its mailbox.\<close>

definition agent_ok :: "world \<Rightarrow> addr list \<Rightarrow> u32 \<Rightarrow> skynet_message list \<Rightarrow> bool" where
  "agent_ok w qs h ms \<longleftrightarrow> node_ok w qs \<and> heap_ok w \<and> local_dest h w \<and> mailbox w h = Some ms"

lemma agent_ok_heap:
  assumes "agent_ok w qs h ms" "w' = w\<lparr>w_heap := w_heap w'\<rparr>" "heap_ok w'"
  shows "agent_ok w' qs h ms"
proof -
  have "node_ok w' qs = node_ok w qs" "mailbox w' = mailbox w" "w_harbor w' = w_harbor w"
    by (subst assms(2), simp)+
  with isremote_cong[of w' w h] assms(1,3) show ?thesis by (simp add: agent_ok_def)
qed

lemma forward_agent_ok:
  assumes c: "arr_get (g_conn g) i = Some c" "g_ctx g \<noteq> None" "g_broker g = 0" "0 < cn_id c" "cn_agent c \<noteq> 0"
      "cn_client c \<noteq> 0" "0 \<le> g_client_tag g" "g_client_tag g < 256"
    and db: "db_ok (cn_buffer c) (g_mp g) w ks fs" and n: "0 < n" "n \<le> length (db_bytes (cn_buffer c) (g_mp g) w ks)" "n < 2 ^ 24"
    and w: "agent_ok w qs (cn_agent c) ms" "length ms < 2 ^ 29 - 1"
    and m: "m = (\<lambda>a. message_of (cn_client c) (cn_id c) (g_client_tag g) (Some a) (of_nat n))"
  shows "\<exists>db' mp' w' qs' ks' fs' a. forward x g i (int n) w =
      Some (g\<lparr>g_conn := (g_conn g)[nat i := c\<lparr>cn_buffer := db'\<rparr>], g_mp := mp'\<rparr>, w') \<and>
    db_ok db' mp' w' ks' fs' \<and> db_header db' = db_header (cn_buffer c) \<and>
    db_bytes db' mp' w' ks' = drop n (db_bytes (cn_buffer c) (g_mp g) w ks) \<and>
    bufs mp' ks' \<subseteq> bufs (g_mp g) ks \<and> agent_ok w' qs' (cn_agent c) (ms @ [m a]) \<and>
    mailbox w' = (mailbox w)(cn_agent c \<mapsto> ms @ [m a]) \<and>
    a = w_heap_brk w \<and> w_heap_brk w \<le> w_heap_brk w' \<and> w_heap w' a = Some (Bytes (take n (db_bytes (cn_buffer c) (g_mp g) w ks))) \<and>
    (\<forall>b. b \<notin> bufs (g_mp g) ks \<longrightarrow> w_heap w b \<noteq> None \<longrightarrow> w_heap w' b = w_heap w b)"
proof -
  define bytes where "bytes = take n (db_bytes (cn_buffer c) (g_mp g) w ks)"
  obtain db' mp' w1 ks' fs' where r: "databuffer_read (cn_buffer c) (g_mp g) (int n) w = Some (bytes, db', mp', w1)"
    "db_ok db' mp' w1 ks' fs'" "db_bytes db' mp' w1 ks' = drop n (db_bytes (cn_buffer c) (g_mp g) w ks)"
    "db_header db' = db_header (cn_buffer c)" "bufs mp' ks' \<subseteq> bufs (g_mp g) ks" "db_frame (g_mp g) w ks fs mp' w1"
    using databuffer_read_ok[OF db, of "int n"] n by (auto simp: bytes_def)
  note heap1 = db_frame_heap_ok[OF r(6) db] and frame = db_frame_heap[OF r(6)]
  have hw: "heap_ok w" using w(1) by (simp add: agent_ok_def)
  define a where "a = w_heap_brk w"
  define w2 where "w2 = w1\<lparr>w_heap := (w_heap w1)(a \<mapsto> Bytes bytes), w_heap_brk := Suc a\<rparr>"
  have fresh: "w_heap w a = None" "w_heap w1 a = None"
    using hw heap1[OF hw] by (simp_all add: heap_ok_def a_def)
  have "agent_ok w1 qs (cn_agent c) ms"
    using agent_ok_heap[OF w(1) frame(2) heap1(1)[OF hw]] .
  then have ok2: "node_ok w2 qs" "local_dest (cn_agent c) w2" "mailbox w2 (cn_agent c) = Some ms" "heap_ok w2"
    using heap1(2)[OF hw] by (auto simp: agent_ok_def w2_def heap_ok_def skynet_harbor_message_isremote_def a_def)
  have mb: "mailbox w2 = mailbox w"
  proof -
    have "mailbox w1 = mailbox w" by (subst frame(2)) simp
    then show ?thesis by (simp add: w2_def)
  qed
  have ntl: "\<not> too_large (of_nat n)"
    using n(3) by (simp add: too_large_iff take_bit_of_nat take_bit_nat_eq_self)
  obtain ctx where ctx: "g_ctx g = Some ctx" using c(2) by auto
  obtain w' qs' where s: "skynet_send x (Some ctx) (cn_client c) (cn_agent c) (g_client_tag g OR PTYPE_TAG_DONTCOPY)
      (cn_id c) (Blk a) (of_nat n) w2 = Some (cn_id c, w')"
    "node_ok w' qs'" "mq_state.more w' = mq_state.more w2" "mailbox w' = (mailbox w2)(cn_agent c \<mapsto> ms @ [m a])"
    using send_block[OF ok2(1) ntl c(6) ok2(2) c(7,8) ok2(3) w(2)] unfolding m by metis
  note eqs = world_more_eqD[OF s(3)]
  have fwd: "forward x g i (int n) w = Some (g\<lparr>g_conn := (g_conn g)[nat i := c\<lparr>cn_buffer := db'\<rparr>], g_mp := mp'\<rparr>, w')"
    using c r(1) s(1) ctx heap1(2)[OF hw]
    by (simp add: forward_def take_payload_def skynet_malloc_def Let_def w2_def a_def)
  have ab: "a \<notin> bufs (g_mp g) ks" using bufs_allocated[OF db] fresh(1) by blast
  have "w_heap w' b = w_heap w1 b" if "b \<in> bufs mp' ks'" for b
    using that r(5) ab by (auto simp: eqs(3) w2_def)
  note keep = db_ok_world[where w' = w', OF this]
  have "agent_ok w' qs' (cn_agent c) (ms @ [m a])"
    using ok2(2,4) s(2,4) eqs(3,12) isremote_cong[OF eqs(5)] by (simp add: agent_ok_def heap_ok_def)
  moreover have "w_heap w' b = w_heap w b" if "b \<notin> bufs (g_mp g) ks" "w_heap w b \<noteq> None" for b
  proof -
    have "b \<noteq> a" using that fresh(1) by auto
    then show ?thesis using frame(1)[OF that(1)] by (simp add: eqs(3) w2_def)
  qed
  moreover have "w_heap w' a = Some (Bytes bytes)" "w_heap_brk w \<le> w_heap_brk w'"
    by (simp_all add: eqs(3,12) w2_def a_def)
  moreover have "db_ok db' mp' w' ks' fs'" "db_bytes db' mp' w' ks' = drop n (db_bytes (cn_buffer c) (g_mp g) w ks)"
    using keep r(2,3) by simp_all
  ultimately show ?thesis
    using fwd r(4,5) s(4) mb a_def unfolding bytes_def by metis
qed

text \<open>A run of the loop delivers the payloads \<open>ps\<close>, those of length 0 apart, and keeps \<open>rest\<close>: each payload is
  in a block of its own, not used before, the messages are appended to the agent's mailbox in order,
  and no block outside the buffer changes.\<close>

definition client_msgs :: "gate \<Rightarrow> connection \<Rightarrow> addr list \<Rightarrow> u8 list list \<Rightarrow> skynet_message list" where
  "client_msgs g c as ps =
     map2 (\<lambda>a p. message_of (cn_client c) (cn_id c) (g_client_tag g) (Some a) (of_nat (length p))) as (filter (\<lambda>p. p \<noteq> []) ps)"

definition delivers ::
  "gate \<Rightarrow> int \<Rightarrow> connection \<Rightarrow> nat \<Rightarrow> world \<Rightarrow> nat list \<Rightarrow> skynet_message list \<Rightarrow> u8 list list \<Rightarrow> u8 list \<Rightarrow>
     (gate \<times> world) option \<Rightarrow> bool" where
  "delivers g i c hs w ks ms ps rest r \<longleftrightarrow> (\<exists>g' c' w' qs' ks' fs' as. r = Some (g', w') \<and>
    conn_rep g' i c' hs w' ks' fs' rest \<and> cn_id c' = cn_id c \<and> cn_agent c' = cn_agent c \<and> cn_client c' = cn_client c \<and>
    agent_ok w' qs' (cn_agent c) (ms @ client_msgs g c as ps) \<and>
    mailbox w' = (mailbox w)(cn_agent c \<mapsto> ms @ client_msgs g c as ps) \<and>
    list_all2 (\<lambda>a p. w_heap w' a = Some (Bytes p) \<and> w_heap_brk w \<le> a) as (filter (\<lambda>p. p \<noteq> []) ps) \<and>
    (\<forall>b. b \<notin> bufs (g_mp g) ks \<longrightarrow> w_heap w b \<noteq> None \<longrightarrow> w_heap w' b = w_heap w b) \<and>
    bufs (g_mp g') ks' \<subseteq> bufs (g_mp g) ks \<and> w_heap_brk w \<le> w_heap_brk w' \<and> g_client_tag g' = g_client_tag g)"

lemma deliversI:
  assumes "r = Some (g', w')" "conn_rep g' i c' hs w' ks' fs' rest"
    "cn_id c' = cn_id c" "cn_agent c' = cn_agent c" "cn_client c' = cn_client c"
    "agent_ok w' qs' (cn_agent c) (ms @ client_msgs g c as ps)"
    "mailbox w' = (mailbox w)(cn_agent c \<mapsto> ms @ client_msgs g c as ps)"
    "list_all2 (\<lambda>a p. w_heap w' a = Some (Bytes p) \<and> w_heap_brk w \<le> a) as (filter (\<lambda>p. p \<noteq> []) ps)"
    "\<forall>b. b \<notin> bufs (g_mp g) ks \<longrightarrow> w_heap w b \<noteq> None \<longrightarrow> w_heap w' b = w_heap w b"
    "bufs (g_mp g') ks' \<subseteq> bufs (g_mp g) ks" "w_heap_brk w \<le> w_heap_brk w'" "g_client_tag g' = g_client_tag g"
  shows "delivers g i c hs w ks ms ps rest r"
  unfolding delivers_def using assms by blast

lemma delivers_nothing:
  assumes "conn_rep g' i c' hs w' ks' fs' rest" "cn_id c' = cn_id c" "cn_agent c' = cn_agent c" "cn_client c' = cn_client c"
    "agent_ok w' qs (cn_agent c) ms" "mailbox w' = mailbox w" "\<And>b. b \<notin> bufs (g_mp g) ks \<Longrightarrow> w_heap w' b = w_heap w b"
    "bufs (g_mp g') ks' \<subseteq> bufs (g_mp g) ks" "w_heap_brk w \<le> w_heap_brk w'" "g_client_tag g' = g_client_tag g"
  shows "delivers g i c hs w ks ms [] rest (Some (g', w'))"
proof -
  have "mailbox w' = (mailbox w)(cn_agent c \<mapsto> ms @ client_msgs g c [] [])"
    using assms(5,6) by (auto simp: agent_ok_def client_msgs_def fun_upd_idem)
  moreover have "list_all2 (\<lambda>a p. w_heap w' a = Some (Bytes p) \<and> w_heap_brk w \<le> a) [] (filter (\<lambda>p. p \<noteq> []) [])" by simp
  moreover have "agent_ok w' qs (cn_agent c) (ms @ client_msgs g c [] [])" using assms(5) by (simp add: client_msgs_def)
  ultimately show ?thesis unfolding delivers_def using assms by blast
qed

text \<open>A payload of length 0 is skipped; any other is delivered before those that follow.\<close>

lemma delivers_skip:
  assumes "delivers g1 i c1 hs w1 ks1 ms ps rest r" "cn_id c1 = cn_id c" "cn_agent c1 = cn_agent c" "cn_client c1 = cn_client c"
    "g_client_tag g1 = g_client_tag g" "mailbox w1 = mailbox w" "bufs (g_mp g1) ks1 \<subseteq> bufs (g_mp g) ks"
    "\<And>b. b \<notin> bufs (g_mp g) ks \<Longrightarrow> w_heap w1 b = w_heap w b" "w_heap_brk w1 = w_heap_brk w"
  shows "delivers g i c hs w ks ms ([] # ps) rest r"
proof -
  have msgs: "client_msgs g c as ([] # ps) = client_msgs g1 c1 as ps" for as
    using assms(2,4,5) by (simp add: client_msgs_def)
  have keep: "b \<notin> bufs (g_mp g) ks \<Longrightarrow> b \<notin> bufs (g_mp g1) ks1" for b using assms(7) by auto
  from assms(1) obtain g' c' w' qs' ks' fs' as where d: "r = Some (g', w')" "conn_rep g' i c' hs w' ks' fs' rest"
    "cn_id c' = cn_id c1" "cn_agent c' = cn_agent c1" "cn_client c' = cn_client c1"
    "agent_ok w' qs' (cn_agent c1) (ms @ client_msgs g1 c1 as ps)"
    "mailbox w' = (mailbox w1)(cn_agent c1 \<mapsto> ms @ client_msgs g1 c1 as ps)"
    "list_all2 (\<lambda>a p. w_heap w' a = Some (Bytes p) \<and> w_heap_brk w1 \<le> a) as (filter (\<lambda>p. p \<noteq> []) ps)"
    "\<forall>b. b \<notin> bufs (g_mp g1) ks1 \<longrightarrow> w_heap w1 b \<noteq> None \<longrightarrow> w_heap w' b = w_heap w1 b"
    "bufs (g_mp g') ks' \<subseteq> bufs (g_mp g1) ks1" "w_heap_brk w1 \<le> w_heap_brk w'" "g_client_tag g' = g_client_tag g1"
    unfolding delivers_def by blast
  have "\<forall>b. b \<notin> bufs (g_mp g) ks \<longrightarrow> w_heap w b \<noteq> None \<longrightarrow> w_heap w' b = w_heap w b"
    using d(9) keep assms(8) by metis
  then show ?thesis
    using d(3-8,10-12) assms(2-7,9) by (intro deliversI[OF d(1,2)]) (auto simp: msgs)
qed

lemma delivers_one:
  assumes "delivers g1 i c1 hs w1 ks1 (ms @ [message_of (cn_client c) (cn_id c) (g_client_tag g) (Some a) (of_nat (length p))]) ps rest r"
    "p \<noteq> []" "cn_id c1 = cn_id c" "cn_agent c1 = cn_agent c" "cn_client c1 = cn_client c" "g_client_tag g1 = g_client_tag g"
    "mailbox w1 = (mailbox w)(cn_agent c \<mapsto> ms @ [message_of (cn_client c) (cn_id c) (g_client_tag g) (Some a) (of_nat (length p))])"
    "bufs (g_mp g1) ks1 \<subseteq> bufs (g_mp g) ks" "a \<notin> bufs (g_mp g) ks"
    "\<And>b. b \<notin> bufs (g_mp g) ks \<Longrightarrow> w_heap w b \<noteq> None \<Longrightarrow> w_heap w1 b = w_heap w b"
    "w_heap w1 a = Some (Bytes p)" "w_heap_brk w \<le> a" "w_heap_brk w \<le> w_heap_brk w1"
  shows "delivers g i c hs w ks ms (p # ps) rest r"
proof -
  let ?m = "message_of (cn_client c) (cn_id c) (g_client_tag g) (Some a) (of_nat (length p))"
  have msgs: "client_msgs g c (a # as) (p # ps) = ?m # client_msgs g1 c1 as ps" for as
    using assms(2,3,5,6) by (simp add: client_msgs_def)
  from assms(1) obtain g' c' w' qs' ks' fs' as where d: "r = Some (g', w')" "conn_rep g' i c' hs w' ks' fs' rest"
    "cn_id c' = cn_id c1" "cn_agent c' = cn_agent c1" "cn_client c' = cn_client c1"
    "agent_ok w' qs' (cn_agent c1) ((ms @ [?m]) @ client_msgs g1 c1 as ps)"
    "mailbox w' = (mailbox w1)(cn_agent c1 \<mapsto> (ms @ [?m]) @ client_msgs g1 c1 as ps)"
    "list_all2 (\<lambda>a p. w_heap w' a = Some (Bytes p) \<and> w_heap_brk w1 \<le> a) as (filter (\<lambda>p. p \<noteq> []) ps)"
    "\<forall>b. b \<notin> bufs (g_mp g1) ks1 \<longrightarrow> w_heap w1 b \<noteq> None \<longrightarrow> w_heap w' b = w_heap w1 b"
    "bufs (g_mp g') ks' \<subseteq> bufs (g_mp g1) ks1" "w_heap_brk w1 \<le> w_heap_brk w'" "g_client_tag g' = g_client_tag g1"
    unfolding delivers_def by blast
  have "\<forall>b. b \<notin> bufs (g_mp g) ks \<longrightarrow> w_heap w b \<noteq> None \<longrightarrow> w_heap w' b = w_heap w b"
    using d(9) assms(8,10) by (metis subsetD)
  moreover have "w_heap w' a = Some (Bytes p)"
    using d(9) assms(8,9,11) by (metis option.distinct(1) subsetD)
  moreover have "list_all2 (\<lambda>a p. w_heap w' a = Some (Bytes p) \<and> w_heap_brk w \<le> a) as (filter (\<lambda>p. p \<noteq> []) ps)"
    by (rule list_all2_mono[OF d(8)]) (use assms(13) in auto)
  ultimately show ?thesis
    using d(3-7,10-12) assms(2-8,12,13) by (intro deliversI[OF d(1,2), where as = "a # as"]) (auto simp: msgs)
qed

text \<open>One round of the loop: a header, and the frame behind it when it is complete.\<close>

lemma message_loop_round:
  assumes rep: "buf_rep g i c hs w ks fs L" and L: "hs \<le> length L" and n: "n = be_value (take hs L)" "n < 2 ^ 31"
    "complete hs L \<longrightarrow> n < 2 ^ 24"
  shows "\<exists>db1 mp1 w1 ks1 fs1 c1 g1. c1 = c\<lparr>cn_buffer := db1\<rparr> \<and>
    g1 = g\<lparr>g_conn := (g_conn g)[nat i := c1], g_mp := mp1\<rparr> \<and> arr_get (g_conn g1) i = Some c1 \<and>
    message_loop x g i fd w =
      (if \<not> complete hs L then Some (g1, w1)
       else if n = 0 then message_loop x g1 i fd w1
       else do {
         (g2, w2) \<leftarrow> forward x g1 i (int n) w1;
         g3 \<leftarrow> conn_upd i (\<lambda>c. c\<lparr>cn_buffer := databuffer_reset (cn_buffer c)\<rparr>) g2;
         message_loop x g3 i fd w2 }) \<and>
    db_ok db1 mp1 w1 ks1 fs1 \<and> db_header db1 = int n \<and> header_ok hs db1 \<and> db_bytes db1 mp1 w1 ks1 = drop hs L \<and>
    bufs mp1 ks1 \<subseteq> bufs (g_mp g) ks \<and> db_frame (g_mp g) w ks fs mp1 w1"
proof -
  have c: "arr_get (g_conn g) i = Some c" "db_ok (cn_buffer c) (g_mp g) w ks fs" "header_ok hs (cn_buffer c)"
    "g_header_size g = int hs" "L = pending hs (cn_buffer c) (db_bytes (cn_buffer c) (g_mp g) w ks)"
    using rep by (auto simp: buf_rep_def)
  obtain db1 mp1 w1 ks1 fs1 where r: "databuffer_readheader (cn_buffer c) (g_mp g) (int hs) w =
      Some (if complete hs L then int n else -1, db1, mp1, w1)"
    "db_ok db1 mp1 w1 ks1 fs1" "db_header db1 = int n" "db_bytes db1 mp1 w1 ks1 = drop hs L"
    "bufs mp1 ks1 \<subseteq> bufs (g_mp g) ks" "db_frame (g_mp g) w ks fs mp1 w1"
    using readheader_ok[OF c(2,3,5) L n(1,2)] by blast
  define c1 where "c1 = c\<lparr>cn_buffer := db1\<rparr>"
  define g1 where "g1 = g\<lparr>g_conn := (g_conn g)[nat i := c1], g_mp := mp1\<rparr>"
  have "message_loop x g i fd w =
      (if \<not> complete hs L then Some (g1, w1)
       else if n = 0 then message_loop x g1 i fd w1
       else do {
         (g2, w2) \<leftarrow> forward x g1 i (int n) w1;
         g3 \<leftarrow> conn_upd i (\<lambda>c. c\<lparr>cn_buffer := databuffer_reset (cn_buffer c)\<rparr>) g2;
         message_loop x g3 i fd w2 })"
    using c(1,4) r(1) n(3)
    by (subst message_loop.simps) (auto simp: g1_def c1_def Let_def split: option.splits bind_splits)
  moreover have "arr_get (g_conn g1) i = Some c1"
    using c(1) by (auto simp: arr_get_eq_Some g1_def)
  moreover have "header_ok hs db1"
    using r(3) c(3) be_value_bound[of "take hs L"] L n(1) by (simp add: header_ok_def min_absorb2)
  ultimately show ?thesis using r c1_def g1_def by blast
qed

lemma frame_bound:
  assumes "0 < hs" "frames hs L = (ps, rest)" "complete hs L" "\<forall>p \<in> set ps. length p < B"
  shows "be_value (take hs L) < B"
proof -
  let ?n = "be_value (take hs L)"
  have "take ?n (drop hs L) \<in> set ps" using assms(2) frames_complete[OF assms(1,3)] by auto
  then have "length (take ?n (drop hs L)) < B" using assms(4) by blast
  moreover have "?n \<le> length L - hs" using assms(3) by (auto simp: complete_def)
  ultimately show ?thesis by (simp add: min_absorb2)
qed

lemma message_loop_ok:
  assumes "conn_rep g i c hs w ks fs L" "agent_ok w qs (cn_agent c) ms" "frames hs L = (ps, rest)"
    "\<forall>p \<in> set ps. length p < 2 ^ 24" "hs \<le> length rest \<longrightarrow> be_value (take hs rest) < 2 ^ 31"
    "length ms + length ps < 2 ^ 29 - 1"
  shows "delivers g i c hs w ks ms ps rest (message_loop x g i fd w)"
  using assms
proof (induction "length L" arbitrary: g c w ks fs L qs ms ps rule: less_induct)
  case less
  note rep = less.prems(1)[unfolded conn_rep_def buf_rep_def]
  have c: "arr_get (g_conn g) i = Some c" "db_ok (cn_buffer c) (g_mp g) w ks fs" "header_ok hs (cn_buffer c)"
    "g_header_size g = int hs" "L = pending hs (cn_buffer c) (db_bytes (cn_buffer c) (g_mp g) w ks)"
    using rep by auto
  have hs: "0 < hs" using c(3) by (auto simp: header_ok_def)
  have hw: "heap_ok w" using less.prems(2) by (simp add: agent_ok_def)
  have i: "0 \<le> i" "nat i < length (g_conn g)" "c = g_conn g ! nat i" using c(1) by (auto simp: arr_get_eq_Some)
  show ?case
  proof (cases "hs \<le> length L")
    case False
    then have "\<not> complete hs L" by (simp add: complete_def)
    then have "ps = []" "rest = L" using less.prems(3) frames_incomplete[of hs L] by auto
    moreover have "message_loop x g i fd w = Some (g, w)"
      using readheader_short[OF c(2,3)] False c(1,4,5) i by (subst message_loop.simps) simp
    ultimately show ?thesis
      using delivers_nothing[OF less.prems(1) refl refl refl less.prems(2)] by simp
  next
    case True
    define n where "n = be_value (take hs L)"
    have small: "complete hs L \<longrightarrow> n < 2 ^ 24"
      using frame_bound[OF hs less.prems(3) _ less.prems(4)] by (simp add: n_def)
    have n31: "n < 2 ^ 31"
    proof (cases "complete hs L")
      case True
      with small show ?thesis by simp
    next
      case False
      then have "rest = L" using less.prems(3) frames_incomplete[of hs L] by auto
      then show ?thesis using less.prems(5) True by (simp add: n_def)
    qed
    obtain db1 mp1 w1 ks1 fs1 c1 g1 where c1: "c1 = c\<lparr>cn_buffer := db1\<rparr>" "g1 = g\<lparr>g_conn := (g_conn g)[nat i := c1], g_mp := mp1\<rparr>"
      "arr_get (g_conn g1) i = Some c1" and r: "message_loop x g i fd w =
      (if \<not> complete hs L then Some (g1, w1)
       else if n = 0 then message_loop x g1 i fd w1
       else do {
         (g2, w2) \<leftarrow> forward x g1 i (int n) w1;
         g3 \<leftarrow> conn_upd i (\<lambda>c. c\<lparr>cn_buffer := databuffer_reset (cn_buffer c)\<rparr>) g2;
         message_loop x g3 i fd w2 })"
      "db_ok db1 mp1 w1 ks1 fs1" "db_header db1 = int n" "header_ok hs db1" "db_bytes db1 mp1 w1 ks1 = drop hs L"
      "bufs mp1 ks1 \<subseteq> bufs (g_mp g) ks" "db_frame (g_mp g) w ks fs mp1 w1"
      using message_loop_round[OF conjunct1[OF less.prems(1)[unfolded conn_rep_def]] True n_def n31 small, of x fd] by blast
    note heap1 = db_frame_heap_ok[OF r(7) c(2) hw] and frame = db_frame_heap[OF r(7)]
    have a1: "agent_ok w1 qs (cn_agent c) ms" by (rule agent_ok_heap[OF less.prems(2) frame(2) heap1(1)])
    have mb1: "mailbox w1 = mailbox w" by (subst frame(2)) simp
    have fields: "cn_id c1 = cn_id c" "cn_agent c1 = cn_agent c" "cn_client c1 = cn_client c" "g_client_tag g1 = g_client_tag g"
      by (simp_all add: c1)
    have rep1: "conn_rep g1 i c1 hs w1 ks1 fs1 (pending hs db1 (drop hs L))"
      using rep r(2,4,5) c1(3) by (simp add: conn_rep_def buf_rep_def c1(1,2))
    consider "\<not> complete hs L" | "complete hs L" "n = 0" | "complete hs L" "0 < n" by auto
    then show ?thesis
    proof cases
      case 1
      then have e: "ps = []" "rest = L" using less.prems(3) frames_incomplete[of hs L] by auto
      have "0 < n" using 1 True by (auto simp: complete_def n_def)
      moreover have "be_bytes hs n = take hs L"
        using be_bytes_be_value[of "take hs L"] True by (simp add: n_def min_absorb2)
      ultimately have "pending hs db1 (drop hs L) = L" by (simp add: pending_def r(3))
      with rep1 have "conn_rep g1 i c1 hs w1 ks1 fs1 L" by simp
      from delivers_nothing[OF this fields(1-3) a1 mb1 frame(1)] 1 r(1,6) heap1(2) e show ?thesis by (simp add: c1(2))
    next
      case 2
      have f: "frames hs L = ([] # fst (frames hs (drop hs L)), snd (frames hs (drop hs L)))"
        using frames_complete[OF hs 2(1)] 2(2) by (simp flip: n_def)
      have "length (drop hs L) < length L" using hs True by simp
      moreover have "pending hs db1 (drop hs L) = drop hs L" using 2 by (simp add: pending_def r(3))
      ultimately have "delivers g1 i c1 hs w1 ks1 ms (tl ps) rest (message_loop x g1 i fd w1)"
        using rep1 a1 less.prems(3-6) f fields(2) by (intro less.hyps[of "drop hs L"]) auto
      then have "delivers g i c hs w ks ms ([] # tl ps) rest (message_loop x g1 i fd w1)"
        using r(6) heap1(2) by (intro delivers_skip[OF _ fields mb1 _ frame(1)]) (auto simp: c1(2))
      then show ?thesis using 2 r(1) f less.prems(3) by auto
    next
      case 3
      define p where "p = take n (drop hs L)"
      have lp: "length p = n" using 3(1) by (auto simp: p_def complete_def n_def)
      have f: "frames hs L = (p # fst (frames hs (drop (hs + n) L)), snd (frames hs (drop (hs + n) L)))"
        using frames_complete[OF hs 3(1)] by (simp add: p_def flip: n_def)
      have n24: "n < 2 ^ 24" using 3 small by simp
      let ?m = "\<lambda>a. message_of (cn_client c) (cn_id c) (g_client_tag g) (Some a) (of_nat n)"
      have len: "n \<le> length (db_bytes (cn_buffer c1) (g_mp g1) w1 ks1)"
        using 3(1) by (auto simp: c1(1,2) r(5) complete_def simp flip: n_def)
      have P: "g_ctx g1 \<noteq> None" "g_broker g1 = 0" "0 < cn_id c1" "cn_agent c1 \<noteq> 0" "cn_client c1 \<noteq> 0"
        "0 \<le> g_client_tag g1" "g_client_tag g1 < 256" "db_ok (cn_buffer c1) (g_mp g1) w1 ks1 fs1"
        using rep1 unfolding conn_rep_def buf_rep_def by auto
      have Q: "agent_ok w1 qs (cn_agent c1) ms" "length ms < 2 ^ 29 - 1"
        "?m = (\<lambda>a. message_of (cn_client c1) (cn_id c1) (g_client_tag g1) (Some a) (of_nat n))"
        using a1 fields less.prems(3,6) f by auto
      obtain db2 mp2 w2 qs2 ks2 fs2 a where f2: "forward x g1 i (int n) w1 =
          Some (g1\<lparr>g_conn := (g_conn g1)[nat i := c1\<lparr>cn_buffer := db2\<rparr>], g_mp := mp2\<rparr>, w2)"
        "db_ok db2 mp2 w2 ks2 fs2" "db_header db2 = db_header (cn_buffer c1)"
        "db_bytes db2 mp2 w2 ks2 = drop n (db_bytes (cn_buffer c1) (g_mp g1) w1 ks1)"
        "bufs mp2 ks2 \<subseteq> bufs (g_mp g1) ks1" "agent_ok w2 qs2 (cn_agent c1) (ms @ [?m a])"
        "mailbox w2 = (mailbox w1)(cn_agent c1 \<mapsto> ms @ [?m a])" "a = w_heap_brk w1" "w_heap_brk w1 \<le> w_heap_brk w2"
        "w_heap w2 a = Some (Bytes (take n (db_bytes (cn_buffer c1) (g_mp g1) w1 ks1)))"
        "\<forall>b. b \<notin> bufs (g_mp g1) ks1 \<longrightarrow> w_heap w1 b \<noteq> None \<longrightarrow> w_heap w2 b = w_heap w1 b"
        using forward_agent_ok[OF c1(3) P 3(2) len n24 Q, of x] by blast
      define c3 where "c3 = c1\<lparr>cn_buffer := db2\<lparr>db_header := 0\<rparr>\<rparr>"
      define g3 where "g3 = g1\<lparr>g_mp := mp2, g_conn := (g_conn g1)[nat i := c3]\<rparr>"
      have "message_loop x g i fd w = message_loop x g3 i fd w2"
        using 3 r(1) f2(1) c1(3) arr_get_upd[OF c1(3)] by (simp add: conn_upd_def g3_def c3_def databuffer_reset_def)
      moreover have "delivers g3 i c3 hs w2 ks2 (ms @ [?m a]) (tl ps) rest (message_loop x g3 i fd w2)"
      proof (rule less.hyps[of "drop (hs + n) L"])
        show "conn_rep g3 i c3 hs w2 ks2 fs2 (drop (hs + n) L)"
          using rep1 f2(2,4) c1(3) by (auto simp: conn_rep_def buf_rep_def g3_def c3_def arr_get_eq_Some header_ok_def pending_def c1(1,2) r(5) add.commute)
      qed (use hs True f2(6) less.prems(3-6) f in \<open>auto simp: c3_def\<close>)
      moreover have "delivers g i c hs w ks ms (p # tl ps) rest (message_loop x g3 i fd w2)" if
        "delivers g3 i c3 hs w2 ks2 (ms @ [?m a]) (tl ps) rest (message_loop x g3 i fd w2)"
      proof (rule delivers_one)
        show "delivers g3 i c3 hs w2 ks2 (ms @ [message_of (cn_client c) (cn_id c) (g_client_tag g) (Some a) (of_nat (length p))])
          (tl ps) rest (message_loop x g3 i fd w2)" using that by (simp add: lp)
        show "p \<noteq> []" using lp 3(2) by auto
        show "a \<notin> bufs (g_mp g) ks"
          using bufs_allocated[OF c(2), of a] hw heap1(2) f2(8) by (auto simp: heap_ok_def)
        show "w_heap w2 b = w_heap w b" if "b \<notin> bufs (g_mp g) ks" "w_heap w b \<noteq> None" for b
          using frame(1)[OF that(1)] that f2(11) r(6) by (auto simp: c1(2))
      qed (use f2 heap1(2) r(5,6) mb1 fields lp in \<open>auto simp: c3_def g3_def c1(1,2) p_def\<close>)
      ultimately show ?thesis using f less.prems(3) by auto
    qed
  qed
qed

text \<open>A chunk of bytes from the socket.\<close>

lemma dispatch_message_ok:
  assumes rep: "conn_rep g i c hs w ks fs L" and a: "agent_ok w qs (cn_agent c) ms"
    and d: "w_heap w b = Some (Bytes bs)" "0 \<le> n" "n \<le> int (length bs)" "b \<notin> bufs (g_mp g) ks"
    and room: "db_size (cn_buffer c) + n \<le> INT_MAX"
    and f: "frames hs (L @ take (nat n) bs) = (ps, rest)" "\<forall>p \<in> set ps. length p < 2 ^ 24"
      "hs \<le> length rest \<longrightarrow> be_value (take hs rest) < 2 ^ 31" "length ms + length ps < 2 ^ 29 - 1"
  shows "\<exists>g1 c1 ks1. delivers g1 i c1 hs w ks1 ms ps rest (gate_dispatch_message x g i fd (Some b) n w) \<and>
    cn_id c1 = cn_id c \<and> cn_agent c1 = cn_agent c \<and> cn_client c1 = cn_client c \<and> g_client_tag g1 = g_client_tag g \<and>
    bufs (g_mp g1) ks1 = insert b (bufs (g_mp g) ks)"
proof -
  have c: "arr_get (g_conn g) i = Some c" "db_ok (cn_buffer c) (g_mp g) w ks fs"
    "L = pending hs (cn_buffer c) (db_bytes (cn_buffer c) (g_mp g) w ks)"
    using rep by (auto simp: conn_rep_def buf_rep_def)
  have new: "m_buffer (mp_msgs (g_mp g) ! k) \<noteq> Some b" if "k \<in> set ks" for k
    using d(4) that by (auto simp: bufs_def)
  obtain db' mp' k fs' where p: "databuffer_push (cn_buffer c) (g_mp g) (Some b) n = Some (db', mp')"
    "db_ok db' mp' w (ks @ [k]) fs'" "db_bytes db' mp' w (ks @ [k]) = db_bytes (cn_buffer c) (g_mp g) w ks @ take (nat n) bs"
    "db_header db' = db_header (cn_buffer c)" "m_buffer (mp_msgs mp' ! k) = Some b"
    "\<forall>j \<in> set ks. m_buffer (mp_msgs mp' ! j) = m_buffer (mp_msgs (g_mp g) ! j)"
    using databuffer_push_ok[OF c(2) d(1-3) new room] by blast
  define c1 where "c1 = c\<lparr>cn_buffer := db'\<rparr>"
  define g1 where "g1 = g\<lparr>g_conn := (g_conn g)[nat i := c1], g_mp := mp'\<rparr>"
  have "conn_rep g1 i c1 hs w (ks @ [k]) fs' (L @ take (nat n) bs)"
    using rep p(2-4) arr_get_upd[OF c(1), of c1] by (simp add: conn_rep_def buf_rep_def g1_def c1_def pending_def header_ok_def)
  from message_loop_ok[OF this _ f] a
  have "delivers g1 i c1 hs w (ks @ [k]) ms ps rest (message_loop x g1 i fd w)" by (simp add: c1_def)
  moreover have "gate_dispatch_message x g i fd (Some b) n w = message_loop x g1 i fd w"
    using c(1) p(1) by (simp add: gate_dispatch_message_def g1_def c1_def)
  moreover have "bufs (g_mp g1) (ks @ [k]) = insert b (bufs (g_mp g) ks)"
    using p(5,6) by (auto simp: bufs_def g1_def)
  ultimately show ?thesis by (intro exI[of _ g1] exI[of _ c1] exI[of _ "ks @ [k]"]) (simp add: g1_def c1_def)
qed

text \<open>A connection that receives chunk after chunk.\<close>

fun gate_feed :: "ext \<Rightarrow> int \<Rightarrow> int \<Rightarrow> (addr \<times> int) list \<Rightarrow> gate \<times> world \<Rightarrow> (gate \<times> world) option" where
  "gate_feed x i fd [] s = Some s"
| "gate_feed x i fd ((b, n) # ds) (g, w) = do {
     s \<leftarrow> gate_dispatch_message x g i fd (Some b) n w;
     gate_feed x i fd ds s }"

definition chunk_ok :: "world \<Rightarrow> addr \<times> int \<Rightarrow> u8 list \<Rightarrow> bool" where
  "chunk_ok w d cs \<longleftrightarrow> (\<exists>bs. w_heap w (fst d) = Some (Bytes bs) \<and> 0 \<le> snd d \<and> snd d \<le> int (length bs) \<and>
     cs = take (nat (snd d)) bs)"

lemma client_msgs_append:
  "length as = length (filter (\<lambda>p. p \<noteq> []) ps) \<Longrightarrow>
     client_msgs g c (as @ bs) (ps @ qs) = client_msgs g c as ps @ client_msgs g c bs qs"
  by (simp add: client_msgs_def)

text \<open>The header of an unfinished frame is seen again at the end of the stream.\<close>

lemma header_persists:
  assumes "0 < hs" "frames hs (r @ cs) = (ps, rest)" "\<forall>p \<in> set ps. length p < 2 ^ 24"
    "hs \<le> length rest \<longrightarrow> be_value (take hs rest) < 2 ^ 31"
  shows "hs \<le> length r \<longrightarrow> be_value (take hs r) < 2 ^ 31"
proof
  assume r: "hs \<le> length r"
  then have t: "take hs (r @ cs) = take hs r" by simp
  show "be_value (take hs r) < 2 ^ 31"
  proof (cases "complete hs (r @ cs)")
    case True
    then have "be_value (take hs r) < 2 ^ 24" using frame_bound[OF assms(1,2) True assms(3)] unfolding t by simp
    then show ?thesis by simp
  next
    case False
    then have "rest = r @ cs" using assms(2) frames_incomplete[of hs "r @ cs"] by auto
    then show ?thesis using assms(4) r by simp
  qed
qed

lemma gate_feed_ok:
  assumes "conn_rep g i c hs w ks fs L" "agent_ok w qs (cn_agent c) ms" "frames hs L = ([], L)"
    "list_all2 (chunk_ok w) ds cs" "distinct (map fst ds)" "\<forall>d \<in> set ds. fst d \<notin> bufs (g_mp g) ks"
    "int (length (L @ concat cs)) \<le> INT_MAX" "frames hs (L @ concat cs) = (ps, rest)" "\<forall>p \<in> set ps. length p < 2 ^ 24"
    "hs \<le> length rest \<longrightarrow> be_value (take hs rest) < 2 ^ 31" "length ms + length ps < 2 ^ 29 - 1"
  shows "\<exists>g' c' w' qs' ks' fs' as. gate_feed x i fd ds (g, w) = Some (g', w') \<and> conn_rep g' i c' hs w' ks' fs' rest \<and>
    node_ok w' qs' \<and> mailbox w' = (mailbox w)(cn_agent c \<mapsto> ms @ client_msgs g c as ps) \<and>
    list_all2 (\<lambda>a p. w_heap w' a = Some (Bytes p)) as (filter (\<lambda>p. p \<noteq> []) ps) \<and>
    (\<forall>b. b \<notin> bufs (g_mp g) ks \<union> fst ` set ds \<longrightarrow> w_heap w b \<noteq> None \<longrightarrow> w_heap w' b = w_heap w b)"
  using assms
proof (induction ds arbitrary: g c w ks fs L qs ms ps cs)
  case Nil
  then have "ps = []" "rest = L" "mailbox w = (mailbox w)(cn_agent c \<mapsto> ms)" "node_ok w qs"
    by (auto simp: agent_ok_def fun_upd_idem)
  with Nil.prems(1) show ?case
    by (intro exI[of _ g] exI[of _ c] exI[of _ w]) (auto simp: client_msgs_def)
next
  case (Cons d ds)
  obtain b n where d: "d = (b, n)" by (cases d)
  obtain c0 cs' where cs: "cs = c0 # cs'" "chunk_ok w (b, n) c0" "list_all2 (chunk_ok w) ds cs'"
    using Cons.prems(4) d by (auto simp: list_all2_Cons1)
  then obtain bs where b: "w_heap w b = Some (Bytes bs)" "0 \<le> n" "n \<le> int (length bs)" "c0 = take (nat n) bs"
    by (auto simp: chunk_ok_def)
  have hs: "0 < hs" using Cons.prems(1) by (auto simp: conn_rep_def buf_rep_def header_ok_def)
  define ps1 r1 where "ps1 = fst (frames hs (L @ c0))" and "r1 = snd (frames hs (L @ c0))"
  define ps2 where "ps2 = fst (frames hs (r1 @ concat cs'))"
  have f1: "frames hs (L @ take (nat n) bs) = (ps1, r1)" by (simp add: ps1_def r1_def b(4))
  have f2: "ps = ps1 @ ps2" "frames hs (r1 @ concat cs') = (ps2, rest)"
    using frames_append[OF hs, of "L @ c0" "concat cs'"] Cons.prems(8) cs(1)
    by (auto simp: ps1_def r1_def ps2_def)
  have h1: "hs \<le> length r1 \<longrightarrow> be_value (take hs r1) < 2 ^ 31"
    using header_persists[OF hs f2(2)] Cons.prems(9,10) f2(1) by auto
  have "db_size (cn_buffer c) \<le> int (length L)"
    using Cons.prems(1) by (simp add: conn_rep_def buf_rep_def db_ok_def pending_def)
  moreover have "int (length c0) = n" using b(2-4) by (simp add: min_absorb2 nat_le_iff)
  ultimately have "db_size (cn_buffer c) + n \<le> INT_MAX"
    using Cons.prems(7) cs(1) by simp
  then have room: "db_size (cn_buffer c) + n \<le> INT_MAX" .
  have F: "b \<notin> bufs (g_mp g) ks" "\<forall>p \<in> set ps1. length p < 2 ^ 24" "length ms + length ps1 < 2 ^ 29 - 1"
    using Cons.prems(6,9,11) d f2(1) by simp_all
  obtain g1 c1 ks1 where s1: "delivers g1 i c1 hs w ks1 ms ps1 r1 (gate_dispatch_message x g i fd (Some b) n w)"
    "cn_id c1 = cn_id c" "cn_agent c1 = cn_agent c" "cn_client c1 = cn_client c" "g_client_tag g1 = g_client_tag g"
    "bufs (g_mp g1) ks1 = insert b (bufs (g_mp g) ks)"
    using dispatch_message_ok[OF Cons.prems(1,2) b(1-3) F(1) room f1 F(2) h1 F(3)] by blast
  obtain g2 c2 w2 qs2 ks2 fs2 as1 where s2: "gate_dispatch_message x g i fd (Some b) n w = Some (g2, w2)"
    "conn_rep g2 i c2 hs w2 ks2 fs2 r1" "cn_id c2 = cn_id c" "cn_agent c2 = cn_agent c" "cn_client c2 = cn_client c"
    "agent_ok w2 qs2 (cn_agent c) (ms @ client_msgs g1 c1 as1 ps1)"
    "mailbox w2 = (mailbox w)(cn_agent c \<mapsto> ms @ client_msgs g1 c1 as1 ps1)"
    "list_all2 (\<lambda>a p. w_heap w2 a = Some (Bytes p) \<and> w_heap_brk w \<le> a) as1 (filter (\<lambda>p. p \<noteq> []) ps1)"
    "\<forall>b'. b' \<notin> insert b (bufs (g_mp g) ks) \<longrightarrow> w_heap w b' \<noteq> None \<longrightarrow> w_heap w2 b' = w_heap w b'"
    "bufs (g_mp g2) ks2 \<subseteq> insert b (bufs (g_mp g) ks)" "g_client_tag g2 = g_client_tag g"
    using s1(1)[unfolded delivers_def s1(2-6)] by blast
  have msgs: "client_msgs g1 c1 as qs = client_msgs g c as qs" "client_msgs g2 c2 as qs = client_msgs g c as qs" for as qs
    using s1(2,4,5) s2(3,5,11) by (simp_all add: client_msgs_def)
  have alive: "\<forall>e \<in> set ds. w_heap w (fst e) \<noteq> None \<and> fst e \<notin> insert b (bufs (g_mp g) ks)"
  proof
    fix e assume e: "e \<in> set ds"
    then obtain x where "chunk_ok w e x" using cs(3) by (auto simp: list_all2_conv_all_nth in_set_conv_nth)
    then have "w_heap w (fst e) \<noteq> None" by (auto simp: chunk_ok_def)
    moreover have "fst e \<noteq> b" using Cons.prems(5) d e by (metis distinct.simps(2) fst_conv image_eqI list.set_map list.simps(9))
    ultimately show "w_heap w (fst e) \<noteq> None \<and> fst e \<notin> insert b (bufs (g_mp g) ks)"
      using Cons.prems(6) e by auto
  qed
  have chunks: "list_all2 (chunk_ok w2) ds cs'"
    using cs(3) alive s2(9) by (auto simp: list_all2_conv_all_nth chunk_ok_def)
  have P: "agent_ok w2 qs2 (cn_agent c2) (ms @ client_msgs g c as1 ps1)" "frames hs r1 = ([], r1)"
    "distinct (map fst ds)" "\<forall>e \<in> set ds. fst e \<notin> bufs (g_mp g2) ks2" "\<forall>p \<in> set ps2. length p < 2 ^ 24"
  proof -
    show "agent_ok w2 qs2 (cn_agent c2) (ms @ client_msgs g c as1 ps1)" using s2(4,6) msgs(1) by simp
    show "frames hs r1 = ([], r1)" using frames_stop[of hs "L @ c0"] by (simp add: r1_def)
    show "distinct (map fst ds)" "\<forall>p \<in> set ps2. length p < 2 ^ 24" using Cons.prems(5,9) f2(1) by simp_all
    show "\<forall>e \<in> set ds. fst e \<notin> bufs (g_mp g2) ks2" using alive s2(10) by blast
  qed
  have I: "int (length (r1 @ concat cs')) \<le> INT_MAX"
  proof -
    have "length r1 \<le> length (L @ c0)" using frames_length[of hs "L @ c0"] by (simp add: r1_def)
    then show ?thesis using Cons.prems(7) cs(1) by simp
  qed
  have R: "length (ms @ client_msgs g c as1 ps1) + length ps2 < 2 ^ 29 - 1"
  proof -
    have "length (client_msgs g c as1 ps1) \<le> length ps1"
      by (simp add: client_msgs_def min.coboundedI2)
    then show ?thesis using Cons.prems(11) f2(1) by simp
  qed
  obtain g' c' w' qs' ks' fs' as where IH: "gate_feed x i fd ds (g2, w2) = Some (g', w')"
    "conn_rep g' i c' hs w' ks' fs' rest" "node_ok w' qs'"
    "mailbox w' = (mailbox w2)(cn_agent c2 \<mapsto> (ms @ client_msgs g c as1 ps1) @ client_msgs g2 c2 as ps2)"
    "list_all2 (\<lambda>a p. w_heap w' a = Some (Bytes p)) as (filter (\<lambda>p. p \<noteq> []) ps2)"
    "\<forall>b. b \<notin> bufs (g_mp g2) ks2 \<union> fst ` set ds \<longrightarrow> w_heap w2 b \<noteq> None \<longrightarrow> w_heap w' b = w_heap w2 b"
    using Cons.IH[OF s2(2) P(1,2) chunks P(3,4) I f2(2) P(5) Cons.prems(10) R] by blast
  have as1: "w_heap w' a = w_heap w2 a" if "w_heap_brk w \<le> a" "w_heap w2 a \<noteq> None" for a
  proof -
    have "w_heap w a = None" using Cons.prems(2) that(1) by (simp add: agent_ok_def heap_ok_def)
    then have "a \<notin> insert b (bufs (g_mp g) ks)" "a \<notin> fst ` set ds"
      using bufs_allocated[of "cn_buffer c" "g_mp g" w ks fs a] Cons.prems(1) b(1) alive by (auto simp: conn_rep_def buf_rep_def)
    then show ?thesis using IH(6) s2(10) that(2) by blast
  qed
  have "list_all2 (\<lambda>a p. w_heap w' a = Some (Bytes p)) as1 (filter (\<lambda>p. p \<noteq> []) ps1)"
    by (rule list_all2_mono[OF s2(8)]) (use as1 in auto)
  then have "list_all2 (\<lambda>a p. w_heap w' a = Some (Bytes p)) (as1 @ as) (filter (\<lambda>p. p \<noteq> []) ps)"
    using IH(5) by (simp add: f2(1) list_all2_appendI)
  moreover have "mailbox w' = (mailbox w)(cn_agent c \<mapsto> ms @ client_msgs g c (as1 @ as) ps)"
    using IH(4) s2(4,7) list_all2_lengthD[OF s2(8)] by (simp add: f2(1) client_msgs_append msgs)
  moreover have "w_heap w' a = w_heap w a" if "a \<notin> bufs (g_mp g) ks \<union> fst ` set (d # ds)" "w_heap w a \<noteq> None" for a
  proof -
    have "a \<notin> insert b (bufs (g_mp g) ks)" "a \<notin> fst ` set ds" using that(1) d by auto
    then show ?thesis using IH(6) s2(9,10) that(2) by (metis Un_iff subsetD)
  qed
  moreover have "gate_feed x i fd (d # ds) (g, w) = Some (g', w')" using s2(1) IH(1) d by simp
  ultimately show ?case using IH(2,3) by blast
qed

section \<open>Properties\<close>

text \<open>C4. The frames a client sends reach its agent complete, once and in order, however the network cut the
  stream into chunks: after any sequence of received chunks, the messages appended to the mailbox of
  the agent carry, each in a block of its own, exactly the payloads of the frames that are complete in
  the stream (those of length 0 are dropped), and the bytes of an unfinished frame are kept. The
  length headers have 2 or 4 bytes; a payload must be below 16M and the length of the unfinished
  frame must be representable in an \<open>int\<close>.\<close>

theorem gate_frames_delivered:
  assumes "conn_rep g i c hs w ks fs L" "agent_ok w qs (cn_agent c) ms" "frames hs L = ([], L)"
    "list_all2 (chunk_ok w) ds cs" "distinct (map fst ds)" "\<forall>d \<in> set ds. fst d \<notin> bufs (g_mp g) ks"
    "int (length (L @ concat cs)) \<le> INT_MAX" "frames hs (L @ concat cs) = (ps, rest)" "\<forall>p \<in> set ps. length p < 2 ^ 24"
    "hs \<le> length rest \<longrightarrow> be_value (take hs rest) < 2 ^ 31" "length ms + length ps < 2 ^ 29 - 1"
  shows "\<exists>g' c' w' qs' ks' fs' as. gate_feed x i fd ds (g, w) = Some (g', w') \<and> conn_rep g' i c' hs w' ks' fs' rest \<and>
    node_ok w' qs' \<and> mailbox w' = (mailbox w)(cn_agent c \<mapsto> ms @ client_msgs g c as ps) \<and>
    list_all2 (\<lambda>a p. w_heap w' a = Some (Bytes p)) as (filter (\<lambda>p. p \<noteq> []) ps)"
  using gate_feed_ok[OF assms, of x fd] by blast

text \<open>A gate with one connection to the service of the small node.\<close>

definition demo_gate :: gate where
  "demo_gate = gate_create\<lparr>g_ctx := Some 0, g_listen_id := 2, g_client_tag := 3, g_header_size := 2, g_max_connection := 1,
     g_conn := [\<lparr>cn_id = 5, cn_agent = 1, cn_client = 9, cn_remote_name = [], cn_buffer = databuffer_zero\<rparr>]\<rparr>"

lemma demo_gate_rep: "conn_rep demo_gate 0 (g_conn demo_gate ! 0) 2 w [] [] []"
  by (simp add: conn_rep_def buf_rep_def demo_gate_def gate_create_def arr_get_def db_ok_def db_list_def offset_ok_def
      db_bytes_def databuffer_zero_def messagepool_zero_def header_ok_def pending_def)

lemma demo_frames: "frames 2 [0, 2, 104, 105, 0] = ([[104, 105]], [0])"
  by (subst frames_complete) (simp_all add: frames_incomplete complete_def be_value_def)

theorem gate_frames_delivered_witness:
  "\<exists>g' w' a. gate_feed demo_ext 0 5 [(7, 3), (8, 2)]
       (demo_gate, demo_node\<lparr>w_heap := [7 \<mapsto> Bytes [0, 2, 104], 8 \<mapsto> Bytes [105, 0]], w_heap_brk := 9\<rparr>) = Some (g', w') \<and>
     w_heap w' a = Some (Bytes [104, 105]) \<and> mailbox w' 1 = Some [message_of 9 5 3 (Some a) 2]"
proof -
  let ?w = "demo_node\<lparr>w_heap := [7 \<mapsto> Bytes [0, 2, 104], 8 \<mapsto> Bytes [105, 0]], w_heap_brk := 9\<rparr>"
  let ?c = "g_conn demo_gate ! 0"
  have c: "cn_agent ?c = 1" "cn_client ?c = 9" "cn_id ?c = 5" "g_client_tag demo_gate = 3" by (simp_all add: demo_gate_def)
  have "agent_ok ?w [] (cn_agent ?c) []"
    using demo_node_ok demo_misc(4) by (simp add: c agent_ok_def heap_ok_def demo_mailbox skynet_harbor_message_isremote_def split: if_splits)
  then obtain g' w' as where r: "gate_feed demo_ext 0 5 [(7, 3), (8, 2)] (demo_gate, ?w) = Some (g', w')"
    "mailbox w' = (mailbox ?w)(cn_agent ?c \<mapsto> [] @ client_msgs demo_gate ?c as [[104, 105]])"
    "list_all2 (\<lambda>a p. w_heap w' a = Some (Bytes p)) as (filter (\<lambda>p. p \<noteq> []) [[104, 105]])"
    using gate_frames_delivered[OF demo_gate_rep, of ?w "[]" "[]" "[(7, 3), (8, 2)]" "[[0, 2, 104], [105, 0]]" "[[104, 105]]" "[0]" demo_ext 5]
      demo_frames by (auto simp: chunk_ok_def bufs_def INT_MAX_def frames_incomplete complete_def)
  from r(3) obtain a where "as = [a]" "w_heap w' a = Some (Bytes [104, 105])" by (auto simp: list_all2_Cons2)
  with r(1,2) c show ?thesis by (auto simp: client_msgs_def)
qed

text \<open>Closing all connections.\<close>

lemma release_conns_ok:
  assumes "g_ctx g = Some ctx" "w_ctxs w ctx = Some cx"
  shows "release_conns x g cs w = Some (w\<lparr>w_requests := w_requests w @
     map (\<lambda>c. Ss_close (cx_handle cx) (cn_id c)) (filter (\<lambda>c. 0 \<le> cn_id c) cs)\<rparr>)"
  using assms(2)
proof (induction cs arbitrary: w)
  case (Cons c cs)
  then show ?case
    by (cases "0 \<le> cn_id c") (simp_all add: gate_close_def assms(1) socket_close_eq)
qed simp

text \<open>Releasing a gate closes every open connection and the listening socket, in this order, and
  does nothing else to the node; in particular it frees none of the blocks that connections with an
  unfinished frame still hold, which are lost.\<close>

theorem gate_release_leaks:
  assumes "g_ctx g = Some ctx" "w_ctxs w ctx = Some cx" "g_max_connection g = int (length (g_conn g))"
  shows "\<exists>w'. gate_release x g w = Some w' \<and>
    w' = w\<lparr>w_requests := w_requests w @
      map (\<lambda>c. Ss_close (cx_handle cx) (cn_id c)) (filter (\<lambda>c. 0 \<le> cn_id c) (g_conn g)) @
      (if 0 \<le> g_listen_id g then [Ss_close (cx_handle cx) (g_listen_id g)] else [])\<rparr> \<and>
    w_heap w' = w_heap w"
  using assms(2,3) by (simp add: gate_release_def release_conns_ok[OF assms(1,2)] gate_close_def assms(1) socket_close_eq)

theorem gate_release_leaks_witness:
  "\<exists>w'. gate_release demo_ext demo_gate (demo_node\<lparr>w_heap := [7 \<mapsto> Bytes [0]]\<rparr>) = Some w' \<and>
     w_requests w' = [Ss_close 1 5, Ss_close 1 2] \<and> w_heap w' 7 = Some (Bytes [0])"
proof -
  have "w_ctxs (demo_node\<lparr>w_heap := [7 \<mapsto> Bytes [0]]\<rparr>) 0 = Some demo_ctx" by (simp add: demo_fields)
  then show ?thesis
    using gate_release_leaks[of demo_gate 0 "demo_node\<lparr>w_heap := [7 \<mapsto> Bytes [0]]\<rparr>" demo_ctx demo_ext]
    by (simp add: demo_gate_def demo_ctx_def demo_node_def)
qed

text \<open>A frame nobody wants puts the connection out of step: when there is no broker, no agent and no
  watchdog, the payload of a complete frame is not taken from the buffer but its header is forgotten,
  so that the loop goes on reading the payload as the next header.\<close>

theorem gate_forward_desync:
  assumes "buf_rep g i c hs w ks fs L" "complete hs L" "0 < be_value (take hs L)" "be_value (take hs L) < 2 ^ 24"
    "g_ctx g \<noteq> None" "g_broker g = 0" "cn_agent c = 0" "g_watchdog g = 0"
  shows "\<exists>g1 c1 w1 ks1 fs1. message_loop x g i fd w = message_loop x g1 i fd w1 \<and> buf_rep g1 i c1 hs w1 ks1 fs1 (drop hs L)"
proof -
  define n where "n = be_value (take hs L)"
  have n: "n < 2 ^ 31" "complete hs L \<longrightarrow> n < 2 ^ 24" "hs \<le> length L" "0 < n"
    using assms(2-4) by (auto simp: n_def complete_def)
  obtain db1 mp1 w1 ks1 fs1 c1 g1 where c1: "c1 = c\<lparr>cn_buffer := db1\<rparr>" "g1 = g\<lparr>g_conn := (g_conn g)[nat i := c1], g_mp := mp1\<rparr>"
      "arr_get (g_conn g1) i = Some c1" and r: "message_loop x g i fd w =
      (if \<not> complete hs L then Some (g1, w1)
       else if n = 0 then message_loop x g1 i fd w1
       else do {
         (g2, w2) \<leftarrow> forward x g1 i (int n) w1;
         g3 \<leftarrow> conn_upd i (\<lambda>c. c\<lparr>cn_buffer := databuffer_reset (cn_buffer c)\<rparr>) g2;
         message_loop x g3 i fd w2 })"
      "db_ok db1 mp1 w1 ks1 fs1" "header_ok hs db1" "db_bytes db1 mp1 w1 ks1 = drop hs L"
    using message_loop_round[OF assms(1) n(3) n_def n(1,2), of x fd] by blast
  define c3 where "c3 = c1\<lparr>cn_buffer := db1\<lparr>db_header := 0\<rparr>\<rparr>"
  define g3 where "g3 = g1\<lparr>g_conn := (g_conn g1)[nat i := c3]\<rparr>"
  obtain ctx where ctx: "g_ctx g = Some ctx" using assms(5) by auto
  have g1: "g_ctx g1 = Some ctx" "g_broker g1 = 0" "g_watchdog g1 = 0" "cn_agent c1 = 0"
    using assms(6-8) ctx by (simp_all add: c1(1,2))
  have "forward x g1 i (int n) w1 = Some (g1, w1)"
    using c1(3) g1 by (simp add: forward_def Let_def)
  then have "message_loop x g i fd w = message_loop x g3 i fd w1"
    using r(1) assms(2) n(4) c1(1,3) by (simp add: conn_upd_def g3_def c3_def databuffer_reset_def)
  moreover have "buf_rep g3 i c3 hs w1 ks1 fs1 (drop hs L)"
    using assms(1) r(2-4) arr_get_upd[OF c1(3), of c3] by (simp add: buf_rep_def g3_def c3_def c1(2) header_ok_def pending_def)
  ultimately show ?thesis by blast
qed

definition demo_stray :: gate where
  "demo_stray = demo_gate\<lparr>g_conn := [\<lparr>cn_id = 5, cn_agent = 0, cn_client = 0, cn_remote_name = [],
       cn_buffer = \<lparr>db_header = 2, db_offset = 0, db_size = 3, db_head = Some 0, db_tail = Some 0\<rparr>\<rparr>],
     g_mp := \<lparr>mp_pool = 1, mp_msgs = [\<lparr>m_buffer = Some 7, m_size = 3, m_next = None\<rparr>], mp_freelist = None\<rparr>\<rparr>"

theorem gate_forward_desync_witness:
  "\<exists>g1 c1 w1 ks1 fs1. message_loop demo_ext demo_stray 0 5 (demo_node\<lparr>w_heap := [7 \<mapsto> Bytes [0, 9, 9]]\<rparr>) =
      message_loop demo_ext g1 0 5 w1 \<and> buf_rep g1 0 c1 2 w1 ks1 fs1 [0, 9, 9]"
proof -
  let ?w = "demo_node\<lparr>w_heap := [7 \<mapsto> Bytes [0, 9, 9]]\<rparr>" and ?c = "g_conn demo_stray ! 0"
  have "pending 2 (cn_buffer ?c) [0, 9, 9] = [0, 2, 0, 9, 9]"
    by (simp add: demo_stray_def pending_def be_bytes_def upt_rec)
  moreover have "db_bytes (cn_buffer ?c) (g_mp demo_stray) ?w [0] = [0, 9, 9]"
    by (simp add: demo_stray_def db_bytes_def node_bytes_def)
  ultimately have "buf_rep demo_stray 0 ?c 2 ?w [0] [] [0, 2, 0, 9, 9]"
    by (simp add: buf_rep_def demo_stray_def demo_gate_def arr_get_def db_ok_def db_list_def offset_ok_def
        header_ok_def node_ready_def)
  then show ?thesis
    using gate_forward_desync[of demo_stray 0 ?c 2 ?w "[0]" "[]" "[0, 2, 0, 9, 9]" demo_ext 5]
    by (simp add: complete_def be_value_def demo_stray_def demo_gate_def gate_create_def)
qed

lemma header_negative:
  assumes "128 \<le> a"
  shows "header_value [a, b, c, d] < 0"
proof -
  define u where "u = (push_bit 24 (ucast a) OR push_bit 16 (ucast b) OR push_bit 8 (ucast c) OR ucast d :: u32)"
  have "128 \<le> unat a" using assms by (simp add: word_le_nat_alt)
  then have "2 ^ 31 \<le> ((unat a * 256 + unat b) * 256 + unat c) * 256 + unat d" by simp
  then have "2 ^ 31 \<le> unat u" unfolding u_def unat_be4 .
  then have "2 ^ 31 \<le> uint u" by (metis of_nat_le_iff of_nat_numeral of_nat_power uint_nat)
  moreover have "uint u < 2 ^ 32" using uint_lt2p[of u] by simp
  ultimately have "uint u div 2 ^ 31 = 1" by simp
  then have "bit (uint u) 31" by (simp add: bit_iff_odd)
  then have "sint u < 0" by (simp add: sint_uint)
  then show ?thesis by (simp add: header_value_def to_cint_def u_def or.assoc)
qed



text \<open>The command word is compared over its own length only, so that every prefix of a command, even the
  empty one, is taken for the command.\<close>

lemma parm_word:
  assumes "CHR '' '' \<notin> set word" "s \<noteq> []" "CHR '' '' \<notin> set s"
  shows "parm ((word @ '' '' @ s) @ [CHR 0x00]) (length (word @ '' '' @ s)) (length word) =
    s @ [CHR 0x00] @ drop (Suc (length s)) ((word @ '' '' @ s) @ [CHR 0x00])"
proof -
  obtain c t where s: "s = c # t" "c \<noteq> CHR '' ''" using assms(2,3) by (cases s) auto
  have "takeWhile (\<lambda>c. c = CHR '' '') (drop (length word) (take (length (word @ '' '' @ s)) ((word @ '' '' @ s) @ [CHR 0x00]))) = '' ''"
    using s by simp
  then show ?thesis by (simp add: parm_def Let_def)
qed

text \<open>The command to kick a connection closes the socket with the given number, if the gate has a
  connection with it, and changes nothing else; the gate accepts for \<open>kick\<close> any of its prefixes, down
  to no word at all before the space.\<close>

theorem gate_kick:
  assumes "g_ctx g = Some ctx" "w_ctxs w ctx = Some cx" "word = take j ''kick''" "0 \<le> uid" "uid \<le> INT_MAX"
    "hashid_lookup (g_hash g) uid = Some k"
  shows "ctrl x g (word @ '' '' @ fmt_d uid) w =
    Some (g, if 0 \<le> k then w\<lparr>w_requests := w_requests w @ [Ss_close (cx_handle cx) uid]\<rparr> else w)"
proof -
  let ?s = "fmt_d uid" and ?msg = "word @ '' '' @ fmt_d uid"
  have s: "?s \<noteq> []" "CHR '' '' \<notin> set ?s" "CHR 0x00 \<notin> set ?s"
    using fmt_d_digits[OF assms(4)] digit_not_special by (auto simp: fmt_d_def) metis+
  have "set word \<subseteq> set ''kick''" unfolding assms(3) by (rule set_take_subset)
  then have w: "CHR '' '' \<notin> set word" by auto
  have i: "length (takeWhile (\<lambda>c. c \<noteq> CHR '' '') ?msg) = length word"
  proof -
    have "takeWhile (\<lambda>c. c \<noteq> CHR '' '') (word @ CHR '' '' # ?s) = word"
      using w by (intro takeWhile_all) auto
    then show ?thesis by simp
  qed
  have m: "memcmp_lit (?msg @ [CHR 0x00]) ''kick'' (length word) = Some True"
  proof -
    consider "j = 0" | "j = 1" | "j = 2" | "j = 3" | "4 \<le> j" by linarith
    then show ?thesis by cases (simp_all add: memcmp_lit_def assms(3) numeral_eq_Suc)
  qed
  have "cstr_at (parm (?msg @ [CHR 0x00]) (length ?msg) (length word)) 0 = Some ?s"
  proof -
    have "takeWhile (\<lambda>c. c \<noteq> CHR 0x00) (?s @ CHR 0x00 # t) = ?s" for t
      using s(3) by (intro takeWhile_all) auto
    then show ?thesis unfolding parm_word[OF w s(1,2)] by (simp add: cstr_at_def)
  qed
  moreover have "wrap_int (strtol 10 ?s) = uid"
    using assms(4,5) by (simp add: strtol_fmt_d wrap_int_id INT_MAX_def INT_MIN_def)
  ultimately have "cmd_conn g (parm (?msg @ [CHR 0x00]) (length ?msg) (length word)) = Some (if 0 \<le> k then Some uid else None)"
    using assms(6) by (simp add: cmd_conn_def)
  then show ?thesis
    using assms(1,2) i m s(1) by (simp add: ctrl_def Let_def socket_close_eq)
qed

theorem gate_kick_witness:
  "ctrl demo_ext (demo_gate\<lparr>g_hash := \<lparr>hi_hashmod = 0, hi_cap = 1, hi_count = 1, hi_id = [\<lparr>nd_id = 5, nd_next = None\<rparr>],
      hi_hash = [Some 0]\<rparr>\<rparr>) '' 5'' demo_node =
   Some (demo_gate\<lparr>g_hash := \<lparr>hi_hashmod = 0, hi_cap = 1, hi_count = 1, hi_id = [\<lparr>nd_id = 5, nd_next = None\<rparr>],
      hi_hash = [Some 0]\<rparr>\<rparr>, demo_node\<lparr>w_requests := [Ss_close 1 5]\<rparr>)"
proof -
  let ?h = "\<lparr>hi_hashmod = 0, hi_cap = 1, hi_count = 1, hi_id = [\<lparr>nd_id = 5, nd_next = None\<rparr>], hi_hash = [Some 0]\<rparr>"
  have "hashid_lookup ?h 5 = Some 0"
    by (simp add: hashid_lookup_def bucket_def arr_get_def) (subst lookup_walk.simps, simp add: arr_get_def)
  moreover have "w_ctxs demo_node 0 = Some demo_ctx" "cx_handle demo_ctx = 1" "w_requests demo_node = []"
    by (simp_all add: demo_fields demo_ctx_def demo_node_def)
  moreover have "fmt_d 5 = ''5''" by code_simp
  ultimately show ?thesis
    using gate_kick[of "demo_gate\<lparr>g_hash := ?h\<rparr>" 0 demo_node demo_ctx "[]" 0 5 0 demo_ext]
    by (simp add: demo_gate_def INT_MAX_def)
qed

end
