(* ===== verification/Netpack.thy ===== *)
theory Netpack
  imports Fifo_Spec Framing Socket
begin

text \<open>
  The packet splitter of the Lua gate, \<open>lualib-src/lua-netpack.c\<close>: packets of a 16-bit big-endian length
  and their bytes, a ring of complete packets, and a hash table of unfinished ones by socket. A packet
  buffer is modelled by the bytes written to it, with the size it was allocated with; the queue object
  on the Lua stack is an optional value, and the values a function leaves for Lua are its result.
\<close>

section \<open>State\<close>

definition QUEUESIZE :: nat where "QUEUESIZE = 1024"
definition HASHSIZE :: nat where "HASHSIZE = 4096"

record netpack =
  np_id :: int
  np_size :: int
  np_buffer :: "u8 list"

record uncomplete =
  uc_pack :: netpack
  uc_read :: int
  uc_header :: int

text \<open>A chain of the hash table is a list; unused entries of the ring have some value.\<close>

record queue =
  q_cap :: int
  q_head :: int
  q_tail :: int
  q_hash :: "uncomplete list list"
  q_queue :: "netpack list"

definition netpack_zero :: netpack where
  "netpack_zero = \<lparr>np_id = 0, np_size = 0, np_buffer = []\<rparr>"

definition hash_fd :: "int \<Rightarrow> nat option" where
  "hash_fd fd = do {
     s \<leftarrow> cint (fd div 2 ^ 24 + fd div 2 ^ 12);
     s \<leftarrow> cint (s + fd);
     Some (unat (word_of_int s :: u32) mod HASHSIZE) }"

section \<open>Queue\<close>

definition new_queue :: queue where
  "new_queue = \<lparr>q_cap = int QUEUESIZE, q_head = 0, q_tail = 0, q_hash = replicate HASHSIZE [],
     q_queue = replicate QUEUESIZE netpack_zero\<rparr>"

definition get_queue :: "queue option \<Rightarrow> queue" where
  "get_queue q = (case q of None \<Rightarrow> new_queue | Some q \<Rightarrow> q)"

definition netpack_expand_queue :: "queue \<Rightarrow> queue option" where
  "netpack_expand_queue q = do {
     cap \<leftarrow> cint (q_cap q + int QUEUESIZE);
     front \<leftarrow> those (map (\<lambda>i. arr_get (q_queue q) ((q_head q + int i) mod q_cap q)) [0..<nat (q_cap q)]);
     Some (q\<lparr>q_cap := cap, q_head := 0, q_tail := q_cap q, q_queue := front @ replicate QUEUESIZE netpack_zero\<rparr>) }"

text \<open>\<open>clone\<close> copies the buffer; in the model a buffer is its bytes.\<close>

definition push_data :: "int \<Rightarrow> u8 list \<Rightarrow> int \<Rightarrow> queue option \<Rightarrow> queue option" where
  "push_data fd buffer sz q = do {
     let q = get_queue q;
     ring \<leftarrow> arr_set (q_queue q) (q_tail q) \<lparr>np_id = fd, np_size = sz, np_buffer = buffer\<rparr>;
     let tail = q_tail q + 1;
     let tail = (if tail \<ge> q_cap q then tail - q_cap q else tail);
     let q = q\<lparr>q_queue := ring, q_tail := tail\<rparr>;
     if q_head q = q_tail q then netpack_expand_queue q else Some q }"

definition lpop :: "queue option \<Rightarrow> ((int \<times> u8 list \<times> int) option \<times> queue option) option" where
  "lpop q =
     (case q of
        None \<Rightarrow> Some (None, None)
      | Some q \<Rightarrow>
          if q_head q = q_tail q then Some (None, Some q)
          else do {
            np \<leftarrow> arr_get (q_queue q) (q_head q);
            let head = q_head q + 1;
            let head = (if head \<ge> q_cap q then 0 else head);
            Some (Some (np_id np, np_buffer np, np_size np), Some (q\<lparr>q_head := head\<rparr>)) })"

definition lclear :: "queue option \<Rightarrow> queue option" where
  "lclear q = (case q of
      None \<Rightarrow> None
    | Some q \<Rightarrow> Some (q\<lparr>q_hash := replicate HASHSIZE [], q_head := 0, q_tail := 0\<rparr>))"

section \<open>Unfinished packets\<close>

text \<open>Takes the first entry of a socket out of its chain.\<close>

fun unlink_uc :: "int \<Rightarrow> uncomplete list \<Rightarrow> uncomplete option \<times> uncomplete list" where
  "unlink_uc fd [] = (None, [])"
| "unlink_uc fd (uc # ucs) =
     (if np_id (uc_pack uc) = fd then (Some uc, ucs)
      else let (r, rest) = unlink_uc fd ucs in (r, uc # rest))"

definition find_uncomplete :: "queue option \<Rightarrow> int \<Rightarrow> (uncomplete option \<times> queue option) option" where
  "find_uncomplete q fd =
     (case q of
        None \<Rightarrow> Some (None, None)
      | Some q \<Rightarrow> do {
          h \<leftarrow> hash_fd fd;
          chain \<leftarrow> arr_get (q_hash q) (int h);
          let (uc, chain) = unlink_uc fd chain;
          Some (uc, Some (q\<lparr>q_hash := (q_hash q)[h := chain]\<rparr>)) })"

text \<open>Puts an entry at the front of its chain.\<close>

definition link_uc :: "int \<Rightarrow> uncomplete \<Rightarrow> queue \<Rightarrow> queue option" where
  "link_uc fd uc q = do {
     h \<leftarrow> hash_fd fd;
     chain \<leftarrow> arr_get (q_hash q) (int h);
     Some (q\<lparr>q_hash := (q_hash q)[h := uc # chain]\<rparr>) }"

definition save_uncomplete :: "int \<Rightarrow> uncomplete \<Rightarrow> queue option \<Rightarrow> queue option" where
  "save_uncomplete fd uc q = link_uc fd uc (get_queue q)"

definition read_size :: "u8 \<Rightarrow> u8 \<Rightarrow> int" where
  "read_size a b = uint a * 256 + uint b"

definition half_header :: "int \<Rightarrow> u8 \<Rightarrow> uncomplete" where
  "half_header fd b = \<lparr>uc_pack = \<lparr>np_id = fd, np_size = 0, np_buffer = []\<rparr>, uc_read = -1, uc_header = uint b\<rparr>"

definition part_packet :: "int \<Rightarrow> int \<Rightarrow> u8 list \<Rightarrow> uncomplete" where
  "part_packet fd pack_size buffer =
     \<lparr>uc_pack = \<lparr>np_id = fd, np_size = pack_size, np_buffer = buffer\<rparr>, uc_read = int (length buffer), uc_header = 0\<rparr>"

text \<open>The buffer of an entry under way holds the \<open>read\<close> bytes received; \<open>buffer\<close> are the bytes at the
  pointer, \<open>size\<close> many.\<close>

function push_more :: "int \<Rightarrow> u8 list \<Rightarrow> queue option \<Rightarrow> queue option" where
  "push_more fd buffer q =
     (case buffer of
        [] \<Rightarrow> None
      | [b] \<Rightarrow> save_uncomplete fd (half_header fd b) q
      | a # b # rest \<Rightarrow>
          let pack_size = read_size a b in
          if int (length rest) < pack_size then save_uncomplete fd (part_packet fd pack_size rest) q
          else do {
            q' \<leftarrow> push_data fd (take (nat pack_size) rest) pack_size q;
            if drop (nat pack_size) rest \<noteq> [] then push_more fd (drop (nat pack_size) rest) (Some q') else Some q' })"
  by pat_completeness auto
termination
  by (relation "measure (\<lambda>(fd, buffer, q). length buffer)") (auto simp: less_Suc_eq_le)

declare push_more.simps [simp del]

definition close_uncomplete :: "int \<Rightarrow> queue option \<Rightarrow> queue option option" where
  "close_uncomplete fd q = do { (_, q) \<leftarrow> find_uncomplete q fd; Some q }"

section \<open>Filter\<close>

text \<open>What \<open>lfilter\<close> returns to Lua behind the queue.\<close>

datatype filter_result =
    F_nothing
  | F_data int "u8 list" int
  | F_more
  | F_error int "u8 list"
  | F_open int "u8 list"
  | F_close int
  | F_warning int int
  | F_init int "u8 list" int

text \<open>The branch of \<open>filter_data_\<close> for a socket with an unfinished packet: \<open>uc\<close> has its length.\<close>

definition fill_uncomplete ::
  "int \<Rightarrow> uncomplete \<Rightarrow> u8 list \<Rightarrow> queue option \<Rightarrow> (filter_result \<times> queue option) option" where
  "fill_uncomplete fd uc buffer q = do {
     let need = np_size (uc_pack uc) - uc_read uc;
     if int (length buffer) < need then do {
       q \<leftarrow> q;
       let pack = (uc_pack uc)\<lparr>np_buffer := np_buffer (uc_pack uc) @ buffer\<rparr>;
       q \<leftarrow> link_uc fd (uc\<lparr>uc_pack := pack, uc_read := uc_read uc + int (length buffer)\<rparr>) q;
       Some (F_nothing, Some q) }
     else if need < 0 then None
     else do {
       let packet = np_buffer (uc_pack uc) @ take (nat need) buffer;
       let buffer = drop (nat need) buffer;
       if buffer = [] then Some (F_data fd packet (np_size (uc_pack uc)), q)
       else do {
         q \<leftarrow> push_data fd packet (np_size (uc_pack uc)) q;
         q \<leftarrow> push_more fd buffer (Some q);
         Some (F_more, Some q) } } }"

definition filter_data :: "int \<Rightarrow> u8 list \<Rightarrow> queue option \<Rightarrow> (filter_result \<times> queue option) option" where
  "filter_data fd buffer q = do {
     (uc, q) \<leftarrow> find_uncomplete q fd;
     case uc of
       Some uc \<Rightarrow>
         if uc_read uc < 0 then
           if uc_read uc \<noteq> -1 then None
           else (case buffer of
               [] \<Rightarrow> None
             | b # buffer \<Rightarrow>
                 let pack_size = uc_header uc * 256 + uint b in
                 fill_uncomplete fd (uc\<lparr>uc_pack := (uc_pack uc)\<lparr>np_size := pack_size\<rparr>, uc_read := 0\<rparr>) buffer q)
         else fill_uncomplete fd uc buffer q
     | None \<Rightarrow>
         (case buffer of
            [] \<Rightarrow> None
          | [b] \<Rightarrow> do { q \<leftarrow> save_uncomplete fd (half_header fd b) q; Some (F_nothing, Some q) }
          | a # b # rest \<Rightarrow>
              let pack_size = read_size a b in
              if int (length rest) < pack_size then do {
                q \<leftarrow> save_uncomplete fd (part_packet fd pack_size rest) q;
                Some (F_nothing, Some q) }
              else if int (length rest) = pack_size then Some (F_data fd rest pack_size, q)
              else do {
                q \<leftarrow> push_data fd (take (nat pack_size) rest) pack_size q;
                q \<leftarrow> push_more fd (drop (nat pack_size) rest) (Some q);
                Some (F_more, Some q) }) }"

text \<open>\<open>data\<close> are the bytes at \<open>message->buffer\<close>, if it is not null, \<open>tail\<close> those behind the message.\<close>

definition lfilter ::
  "skynet_socket_message \<Rightarrow> u8 list option \<Rightarrow> u8 list \<Rightarrow> queue option \<Rightarrow> (filter_result \<times> queue option) option" where
  "lfilter message data tail q =
     (let text = (case data of None \<Rightarrow> Some tail | Some _ \<Rightarrow> None); t = sm_type message
      in if t = SKYNET_SOCKET_TYPE_DATA then
           (case data of
              None \<Rightarrow> None
            | Some bs \<Rightarrow>
                if 0 \<le> sm_ud message \<and> sm_ud message \<le> int (length bs)
                then filter_data (sm_id message) (take (nat (sm_ud message)) bs) q else None)
         else if t = SKYNET_SOCKET_TYPE_CONNECT then do {
           s \<leftarrow> text; Some (F_init (sm_id message) s (sm_ud message), q) }
         else if t = SKYNET_SOCKET_TYPE_CLOSE then do {
           q \<leftarrow> close_uncomplete (sm_id message) q; Some (F_close (sm_id message), q) }
         else if t = SKYNET_SOCKET_TYPE_ACCEPT then do { s \<leftarrow> text; Some (F_open (sm_ud message) s, q) }
         else if t = SKYNET_SOCKET_TYPE_ERROR then do {
           q \<leftarrow> close_uncomplete (sm_id message) q;
           s \<leftarrow> text;
           Some (F_error (sm_id message) s, q) }
         else if t = SKYNET_SOCKET_TYPE_WARNING then Some (F_warning (sm_id message) (sm_ud message), q)
         else Some (F_nothing, q))"

section \<open>Packing\<close>

definition write_size :: "nat \<Rightarrow> u8 list" where
  "write_size len = [of_nat (len div 256), of_nat len]"

definition lpack :: "u8 list \<Rightarrow> string + u8 list" where
  "lpack ptr =
     (if length ptr \<ge> 0x10000
      then Inl (''Invalid size (too long) of data : '' @ fmt_d (wrap_int (int (length ptr))))
      else Inr (write_size (length ptr) @ ptr))"

text \<open>Turns a packet buffer that was handed to Lua into a string.\<close>

definition ltostring :: "u8 list option \<Rightarrow> int \<Rightarrow> u8 list option" where
  "ltostring ptr sz =
     (case ptr of
        None \<Rightarrow> Some []
      | Some bs \<Rightarrow> if 0 \<le> sz \<and> sz \<le> int (length bs) then Some (take (nat sz) bs) else None)"

section \<open>The ring of packets refines a list\<close>

definition packet :: "netpack \<Rightarrow> int \<times> u8 list \<times> int" where
  "packet np = (np_id np, np_buffer np, np_size np)"

definition packets :: "queue option \<Rightarrow> (int \<times> u8 list \<times> int) list" where
  "packets q = (case q of None \<Rightarrow> [] | Some q \<Rightarrow>
     map packet (ring_view (q_queue q) (nat (q_head q)) (ring_count (q_head q) (q_tail q) (q_cap q))))"

definition np_ring_ok :: "queue \<Rightarrow> bool" where
  "np_ring_ok q \<longleftrightarrow> ring_idx (q_head q) (q_tail q) (q_cap q) \<and> length (q_queue q) = nat (q_cap q)"

text \<open>An unfinished packet: one byte of its length, or its length and fewer bytes than that.\<close>

definition uc_ok :: "uncomplete \<Rightarrow> bool" where
  "uc_ok uc \<longleftrightarrow>
     (if uc_read uc < 0 then uc_read uc = -1 \<and> 0 \<le> uc_header uc \<and> uc_header uc < 256 \<and> np_buffer (uc_pack uc) = []
      else uc_read uc = int (length (np_buffer (uc_pack uc))) \<and> uc_read uc < np_size (uc_pack uc) \<and> np_size (uc_pack uc) < 65536)"

definition chain_ok :: "nat \<Rightarrow> uncomplete list \<Rightarrow> bool" where
  "chain_ok h ucs \<longleftrightarrow> distinct (map (np_id \<circ> uc_pack) ucs) \<and>
     (\<forall>uc \<in> set ucs. hash_fd (np_id (uc_pack uc)) = Some h \<and> uc_ok uc)"

definition queue_ok :: "queue option \<Rightarrow> bool" where
  "queue_ok q = (case q of None \<Rightarrow> True | Some q \<Rightarrow>
     np_ring_ok q \<and> length (q_hash q) = HASHSIZE \<and> (\<forall>h < HASHSIZE. chain_ok h (q_hash q ! h)))"

definition uc_map :: "queue option \<Rightarrow> int \<Rightarrow> uncomplete option" where
  "uc_map q fd = (case q of None \<Rightarrow> None | Some q \<Rightarrow>
     (case hash_fd fd of None \<Rightarrow> None | Some h \<Rightarrow> find (\<lambda>uc. np_id (uc_pack uc) = fd) (q_hash q ! h)))"

text \<open>The bytes of the stream of a socket that are not in a complete packet yet.\<close>

definition uc_bytes :: "uncomplete \<Rightarrow> u8 list" where
  "uc_bytes uc = (if uc_read uc < 0 then [word_of_int (uc_header uc)]
     else be_bytes 2 (nat (np_size (uc_pack uc))) @ np_buffer (uc_pack uc))"

definition pending :: "queue option \<Rightarrow> int \<Rightarrow> u8 list" where
  "pending q fd = (case uc_map q fd of None \<Rightarrow> [] | Some uc \<Rightarrow> uc_bytes uc)"

lemma hash_fd_less: "hash_fd fd = Some h \<Longrightarrow> h < HASHSIZE"
  by (auto simp: hash_fd_def HASHSIZE_def split: Option.bind_splits)

lemma new_queue_ok: "queue_ok (Some new_queue)" "packets (Some new_queue) = []" "uc_map (Some new_queue) = uc_map None"
  by (auto simp: queue_ok_def np_ring_ok_def ring_idx_def new_queue_def QUEUESIZE_def packets_def uc_map_def
      chain_ok_def hash_fd_less split: option.split intro!: ext)

lemma get_queue_ok:
  assumes "queue_ok q"
  shows "queue_ok (Some (get_queue q))" "packets (Some (get_queue q)) = packets q" "uc_map (Some (get_queue q)) = uc_map q"
  using assms new_queue_ok by (auto simp: get_queue_def packets_def split: option.split)

definition np_put :: "int \<times> u8 list \<times> int \<Rightarrow> queue option \<Rightarrow> queue option option" where
  "np_put p q = (case p of (fd, buffer, sz) \<Rightarrow> map_option Some (push_data fd buffer sz q))"

lemma np_expand_ok:
  assumes "q_cap q \<le> INT_MAX - 1024" "np_ring_ok q"
  shows "\<exists>q'. netpack_expand_queue q = Some q' \<and> np_ring_ok q' \<and> q_hash q' = q_hash q \<and>
     packets (Some q') = map packet (ring_view (q_queue q) (nat (q_head q)) (nat (q_cap q)))"
proof -
  have idx: "0 \<le> q_head q" "q_head q < q_cap q" "length (q_queue q) = nat (q_cap q)" "0 < q_cap q"
    using assms(2) by (auto simp: np_ring_ok_def ring_idx_def)
  let ?v = "ring_view (q_queue q) (nat (q_head q)) (nat (q_cap q))"
  let ?q = "q\<lparr>q_cap := q_cap q + 1024, q_head := 0, q_tail := q_cap q, q_queue := ?v @ replicate 1024 netpack_zero\<rparr>"
  have "netpack_expand_queue q = Some ?q"
    using assms(1) idx ring_copy[OF idx(1-3)] by (simp add: netpack_expand_queue_def cint_in_range QUEUESIZE_def)
  moreover have "ring_view (?v @ replicate 1024 netpack_zero) 0 (nat (q_cap q)) = ?v"
    by (intro ring_view_prefix) auto
  moreover have "q_cap q mod (q_cap q + 1024) = q_cap q" using idx by simp
  ultimately show ?thesis
    using idx by (intro exI[of _ ?q]) (simp add: np_ring_ok_def ring_idx_def packets_def nat_add_distrib)
qed

lemma push_data_ok:
  assumes "queue_ok q" "length (packets q) < 2 ^ 31 - 1025"
  shows "\<exists>q'. push_data fd buffer sz q = Some q' \<and> queue_ok (Some q') \<and> packets (Some q') = packets q @ [(fd, buffer, sz)] \<and>
     uc_map (Some q') = uc_map q"
proof -
  define p where "p = get_queue q"
  note g = get_queue_ok[OF assms(1), folded p_def]
  have r: "np_ring_ok p" and idx: "ring_idx (q_head p) (q_tail p) (q_cap p)" and l: "length (q_queue p) = nat (q_cap p)"
    using g(1) by (auto simp: queue_ok_def np_ring_ok_def)
  define np where "np = \<lparr>np_id = fd, np_size = sz, np_buffer = buffer\<rparr>"
  define t where "t = ring_step (q_tail p) (q_cap p)"
  define p' where "p' = p\<lparr>q_queue := (q_queue p)[nat (q_tail p) := np], q_tail := t\<rparr>"
  note wr = ring_write[OF idx, folded t_def]
  have t: "(if q_tail p + 1 \<ge> q_cap p then q_tail p + 1 - q_cap p else q_tail p + 1) = t"
    using idx by (auto simp: t_def ring_idx_def)
  have set: "arr_set (q_queue p) (q_tail p) np = Some ((q_queue p)[nat (q_tail p) := np])"
    using idx l by (simp add: arr_set_def ring_idx_def)
  have push: "push_data fd buffer sz q = (if q_head p = t then netpack_expand_queue p' else Some p')"
    unfolding push_data_def Let_def p_def[symmetric] np_def[symmetric] set bind.bind_lunit t p'_def[symmetric]
    by (simp add: p'_def)
  have view: "map packet (ring_view (q_queue p') (nat (q_head p)) (Suc (ring_count (q_head p) (q_tail p) (q_cap p)))) =
      packets q @ [(fd, buffer, sz)]"
    using wr(4)[OF l, of np] g(2) by (simp add: p'_def packets_def packet_def np_def)
  have r': "np_ring_ok p'"
    using wr(1) l by (simp add: np_ring_ok_def p'_def)
  have frame: "queue_ok (Some x)" "uc_map (Some x) = uc_map q" if "np_ring_ok x" "q_hash x = q_hash p" for x
    using that g(1,3) by (auto simp: queue_ok_def uc_map_def fun_eq_iff split: option.splits)
  show ?thesis
  proof (cases "q_head p = t")
    case False
    then have "packets (Some p') = packets q @ [(fd, buffer, sz)]"
      using view wr(3) by (simp add: packets_def p'_def)
    then show ?thesis
      using push False frame[OF r'] by (simp add: p'_def)
  next
    case True
    have full: "Suc (ring_count (q_head p) (q_tail p) (q_cap p)) = nat (q_cap p)"
      using wr(2) True by simp
    moreover have "length (packets q) = ring_count (q_head p) (q_tail p) (q_cap p)"
      unfolding g(2)[symmetric] by (simp add: packets_def)
    ultimately have "q_cap p' \<le> INT_MAX - 1024"
      using assms(2) by (simp add: INT_MAX_def p'_def)
    from np_expand_ok[OF this r'] view True push full show ?thesis
      using frame by (fastforce simp: p'_def)
  qed
qed

lemma lpop_empty: "queue_ok q \<Longrightarrow> packets q = [] \<Longrightarrow> lpop q = Some (None, q)"
  using ring_count_zero[of "q_head (the q)" "q_tail (the q)" "q_cap (the q)"]
  by (auto simp: lpop_def packets_def queue_ok_def np_ring_ok_def ring_view_def split: option.splits)

lemma lpop_cons:
  assumes "queue_ok q" "packets q = p # ps"
  shows "\<exists>q'. lpop q = Some (Some p, q') \<and> queue_ok q' \<and> packets q' = ps \<and> uc_map q' = uc_map q"
proof (cases q)
  case (Some r)
  have idx: "ring_idx (q_head r) (q_tail r) (q_cap r)" and l: "length (q_queue r) = nat (q_cap r)"
    using assms(1) by (auto simp: queue_ok_def np_ring_ok_def Some)
  have ne: "q_head r \<noteq> q_tail r"
    using assms(2) by (auto simp: packets_def Some)
  define h where "h = ring_step (q_head r) (q_cap r)"
  note tk = ring_take[OF idx ne, folded h_def]
  let ?q = "r\<lparr>q_head := h\<rparr>"
  have "p = packet (q_queue r ! nat (q_head r))" "packets (Some ?q) = ps"
    using assms(2) tk(4)[OF l] by (auto simp: packets_def Some)
  moreover have "arr_get (q_queue r) (q_head r) = Some (q_queue r ! nat (q_head r))"
    using idx l by (simp add: arr_get_def ring_idx_def)
  ultimately have "lpop q = Some (Some p, Some ?q)"
    using ne by (simp add: lpop_def Some h_def packet_def Let_def)
  moreover have "queue_ok (Some ?q)" "uc_map (Some ?q) = uc_map q"
    using assms(1) tk(1) by (auto simp: queue_ok_def np_ring_ok_def uc_map_def Some fun_eq_iff split: option.split)
  ultimately show ?thesis
    using \<open>packets (Some ?q) = ps\<close> by blast
qed (use assms in \<open>simp add: packets_def\<close>)

interpretation np: bounded_fifo packets queue_ok "2 ^ 31 - 1025" np_put lpop
proof unfold_locales
  fix q :: "queue option" and x :: "int \<times> u8 list \<times> int" and xs
  assume ok: "queue_ok q"
  obtain fd b n where x: "x = (fd, b, n)" by (cases x)
  show "\<exists>q'. np_put x q = Some q' \<and> queue_ok q' \<and> packets q' = packets q @ [x]"
    if "length (packets q) < 2 ^ 31 - 1025"
    using push_data_ok[OF ok that, of fd b n] by (auto simp: np_put_def x)
  show "\<exists>q'. lpop q = Some (None, q') \<and> queue_ok q' \<and> packets q' = []" if "packets q = []"
    using lpop_empty[OF ok that] ok that by blast
  show "\<exists>q'. lpop q = Some (Some x, q') \<and> queue_ok q' \<and> packets q' = xs" if "packets q = x # xs"
    using lpop_cons[OF ok that] by blast
qed

section \<open>Unfinished packets as a map\<close>

lemma unlink_uc_set: "set (snd (unlink_uc fd ucs)) \<subseteq> set ucs"
  by (induction ucs) (auto split: prod.split)

lemma unlink_uc_ok:
  assumes "chain_ok h ucs"
  shows "fst (unlink_uc fd ucs) = find (\<lambda>uc. np_id (uc_pack uc) = fd) ucs"
    "chain_ok h (snd (unlink_uc fd ucs))"
    "find (\<lambda>uc. np_id (uc_pack uc) = fd') (snd (unlink_uc fd ucs)) =
       (if fd' = fd then None else find (\<lambda>uc. np_id (uc_pack uc) = fd') ucs)"
  using assms
proof (induction ucs)
  case (Cons uc ucs)
  { case 1 with Cons.IH(1) show ?case by (auto simp: chain_ok_def split: prod.split)
  next case 2
    have "np_id (uc_pack uc) \<notin> np_id ` uc_pack ` set (snd (unlink_uc fd ucs))"
      using 2 unlink_uc_set[of fd ucs] by (fastforce simp: chain_ok_def)
    with 2 Cons.IH(2) show ?case by (simp add: chain_ok_def image_image split_beta)
  next case 3 with Cons.IH(3) show ?case
      by (auto simp: chain_ok_def find_None_iff image_iff split: prod.split) }
qed (auto simp: chain_ok_def)

lemma set_chain_ok:
  assumes "queue_ok (Some q)" "hash_fd fd = Some h" "chain_ok h ucs"
  shows "queue_ok (Some (q\<lparr>q_hash := (q_hash q)[h := ucs]\<rparr>))" "packets (Some (q\<lparr>q_hash := (q_hash q)[h := ucs]\<rparr>)) = packets (Some q)"
    "uc_map (Some (q\<lparr>q_hash := (q_hash q)[h := ucs]\<rparr>)) fd' =
       (if hash_fd fd' = Some h then find (\<lambda>uc. np_id (uc_pack uc) = fd') ucs else uc_map (Some q) fd')"
  using assms hash_fd_less[OF assms(2)] hash_fd_less[of fd']
  by (auto simp: queue_ok_def np_ring_ok_def packets_def uc_map_def nth_list_update split: option.split)

lemma find_uncomplete_ok:
  assumes "queue_ok q" "hash_fd fd = Some h"
  shows "\<exists>q'. find_uncomplete q fd = Some (uc_map q fd, q') \<and> queue_ok q' \<and> packets q' = packets q \<and>
    uc_map q' = (uc_map q)(fd := None) \<and> (q' = None \<longleftrightarrow> q = None)"
proof (cases q)
  case None
  then show ?thesis by (simp add: find_uncomplete_def uc_map_def queue_ok_def fun_eq_iff)
next
  case (Some r)
  let ?c = "q_hash r ! h"
  have c: "chain_ok h ?c" "h < length (q_hash r)"
    using assms hash_fd_less by (auto simp: queue_ok_def Some)
  let ?q = "r\<lparr>q_hash := (q_hash r)[h := snd (unlink_uc fd ?c)]\<rparr>"
  note u = unlink_uc_ok[OF c(1), where fd = fd] and s = set_chain_ok[OF assms(1)[unfolded Some] assms(2) unlink_uc_ok(2)[OF c(1), where fd = fd]]
  have "find_uncomplete q fd = Some (uc_map q fd, Some ?q)"
    using c assms(2) u(1) by (simp add: find_uncomplete_def Some uc_map_def split_beta)
  moreover have "uc_map (Some ?q) = (uc_map q)(fd := None)"
    unfolding fun_eq_iff s(3) using u(3) assms(2) by (auto simp: uc_map_def Some)
  ultimately show ?thesis
    using s(1,2) Some by blast
qed

lemma link_uc_ok:
  assumes "queue_ok (Some q)" "hash_fd fd = Some h" "uc_map (Some q) fd = None" "uc_ok uc" "np_id (uc_pack uc) = fd"
  shows "\<exists>q'. link_uc fd uc q = Some q' \<and> queue_ok (Some q') \<and> packets (Some q') = packets (Some q) \<and>
    uc_map (Some q') = (uc_map (Some q))(fd \<mapsto> uc)"
proof -
  let ?c = "q_hash q ! h"
  have c: "chain_ok h ?c" "h < length (q_hash q)"
    using assms hash_fd_less by (auto simp: queue_ok_def)
  have "find (\<lambda>uc. np_id (uc_pack uc) = fd) ?c = None"
    using assms(2,3) by (simp add: uc_map_def)
  then have c': "chain_ok h (uc # ?c)"
    using c assms by (auto simp: chain_ok_def find_None_iff)
  note s = set_chain_ok[OF assms(1,2) c']
  have "uc_map (Some (q\<lparr>q_hash := (q_hash q)[h := uc # ?c]\<rparr>)) = (uc_map (Some q))(fd \<mapsto> uc)"
    unfolding fun_eq_iff s(3) using assms(2,5) by (auto simp: uc_map_def)
  moreover have "link_uc fd uc q = Some (q\<lparr>q_hash := (q_hash q)[h := uc # ?c]\<rparr>)"
    using c assms(2) by (simp add: link_uc_def)
  ultimately show ?thesis
    using s(1,2) by blast
qed

lemma save_uncomplete_ok:
  assumes "queue_ok q" "hash_fd fd = Some h" "uc_map q fd = None" "uc_ok uc" "np_id (uc_pack uc) = fd"
  shows "\<exists>q'. save_uncomplete fd uc q = Some q' \<and> queue_ok (Some q') \<and> packets (Some q') = packets q \<and>
    uc_map (Some q') = (uc_map q)(fd \<mapsto> uc)"
  using link_uc_ok[OF get_queue_ok(1)[OF assms(1)] assms(2) _ assms(4,5)] get_queue_ok[OF assms(1)] assms(3)
  by (simp add: save_uncomplete_def)

section \<open>Splitting a stream\<close>

lemma be_value_2: "be_value [a, b] = unat a * 256 + unat b"
  by (simp add: be_value_def)

lemma read_size_be: "read_size a b = int (be_value [a, b])"
  by (simp add: read_size_def be_value_2)

lemma be_bytes_2: "be_bytes 2 (be_value [a, b]) = [a, b]"
  using be_bytes_be_value[of "[a, b]"] by (simp add: numeral_2_eq_2)

lemma be_bytes_2_eq: "be_bytes 2 n = [of_nat (n div 256), of_nat n]"
  by (simp add: be_bytes_def numeral_2_eq_2)

lemma be_value_2_less: "be_value [a, b] < 65536"
  using be_value_bound[of "[a, b]"] by simp

text \<open>A stream in which a packet is unfinished.\<close>

lemma frames_one: "frames 2 [b] = ([], [b])"
  by (simp add: frames_incomplete complete_def)

lemma frames_part: "length rest < be_value [a, b] \<Longrightarrow> frames 2 (a # b # rest) = ([], a # b # rest)"
  by (simp add: frames_incomplete complete_def)

lemma frames_packet:
  assumes "be_value [a, b] \<le> length rest"
  shows "frames 2 (a # b # rest) =
    (take (be_value [a, b]) rest # fst (frames 2 (drop (be_value [a, b]) rest)), snd (frames 2 (drop (be_value [a, b]) rest)))"
  using frames_complete[of 2 "a # b # rest"] assms by (simp add: complete_def numeral_2_eq_2)

lemma frames_Nil: "frames 2 [] = ([], [])"
  by (simp add: frames_incomplete complete_def)

lemma half_header_ok [simp]: "uc_ok (half_header fd b)" "np_id (uc_pack (half_header fd b)) = fd" "uc_bytes (half_header fd b) = [b]"
  using uint_lt2p[of b] by (simp_all add: half_header_def uc_ok_def uc_bytes_def)

lemma part_packet_ok:
  assumes "length buffer < be_value [a, b]"
  shows "uc_ok (part_packet fd (int (be_value [a, b])) buffer)" "uc_bytes (part_packet fd (int (be_value [a, b])) buffer) = a # b # buffer"
    "np_id (uc_pack (part_packet fd (int (be_value [a, b])) buffer)) = fd"
  using assms be_value_2_less[of a b] by (simp_all add: part_packet_def uc_ok_def uc_bytes_def be_bytes_2)

text \<open>What Lua pops for the packets of one socket.\<close>

definition tagged :: "int \<Rightarrow> u8 list list \<Rightarrow> (int \<times> u8 list \<times> int) list" where
  "tagged fd ps = map (\<lambda>p. (fd, p, int (length p))) ps"

lemma pending_upd: "uc_map q' = (uc_map q)(fd \<mapsto> uc) \<Longrightarrow> pending q' = (pending q)(fd := uc_bytes uc)"
  by (auto simp: pending_def fun_eq_iff)

lemma pending_del: "uc_map q' = (uc_map q)(fd := None) \<Longrightarrow> pending q' = (pending q)(fd := [])"
  by (auto simp: pending_def fun_eq_iff)

lemma pending_same: "uc_map q' = uc_map q \<Longrightarrow> pending q' = pending q"
  by (simp add: pending_def fun_eq_iff)

lemma pending_None: "uc_map q fd = None \<Longrightarrow> (pending q)(fd := []) = pending q"
  by (auto simp: pending_def fun_eq_iff)

lemma push_more_ok:
  assumes "queue_ok q" "hash_fd fd = Some h" "uc_map q fd = None" "buffer \<noteq> []"
    "length (packets q) + length buffer \<le> 2 ^ 31 - 1025"
  shows "\<exists>q'. push_more fd buffer q = Some q' \<and> queue_ok (Some q') \<and>
    packets (Some q') = packets q @ tagged fd (fst (frames 2 buffer)) \<and>
    pending (Some q') = (pending q)(fd := snd (frames 2 buffer))"
  using assms
proof (induction buffer arbitrary: q rule: length_induct)
  case (1 buffer q)
  show ?case
  proof (cases buffer rule: remdups_adj.cases)
    case 1
    with "1.prems" show ?thesis by simp
  next
    case (2 b)
    then show ?thesis
      using save_uncomplete_ok[OF "1.prems"(1-3) half_header_ok(1,2), of b]
      by (subst push_more.simps) (auto simp: frames_one tagged_def dest!: pending_upd)
  next
    case (3 a b rest)
    let ?n = "be_value [a, b]"
    show ?thesis
    proof (cases "length rest < ?n")
      case True
      then show ?thesis
        using save_uncomplete_ok[OF "1.prems"(1-3) part_packet_ok(1,3)[OF True]] 3 part_packet_ok(2)[OF True]
        by (subst push_more.simps) (auto simp: frames_part tagged_def read_size_be dest!: pending_upd)
    next
      case False
      then have fr: "frames 2 buffer = (take ?n rest # fst (frames 2 (drop ?n rest)), snd (frames 2 (drop ?n rest)))"
        using 3 by (simp add: frames_packet)
      obtain q1 where q1: "push_data fd (take ?n rest) (int ?n) q = Some q1" "queue_ok (Some q1)"
        "packets (Some q1) = packets q @ [(fd, take ?n rest, int ?n)]" "uc_map (Some q1) = uc_map q"
        using push_data_ok[OF "1.prems"(1), of fd "take ?n rest" "int ?n"] "1.prems"(5) 3 by auto
      show ?thesis
      proof (cases "drop ?n rest = []")
        case True
        then show ?thesis
          using 3 False q1(1-3) fr pending_None[OF "1.prems"(3)] pending_same[OF q1(4)]
          by (subst push_more.simps) (simp add: read_size_be frames_Nil tagged_def)
      next
        case more: False
        have "push_more fd buffer q = push_more fd (drop ?n rest) (Some q1)"
          using 3 False q1(1) more by (subst push_more.simps) (simp add: read_size_be)
        moreover have "\<exists>q'. push_more fd (drop ?n rest) (Some q1) = Some q' \<and> queue_ok (Some q') \<and>
            packets (Some q') = packets (Some q1) @ tagged fd (fst (frames 2 (drop ?n rest))) \<and>
            pending (Some q') = (pending (Some q1))(fd := snd (frames 2 (drop ?n rest)))"
          using 3 False more q1 "1.prems" by (intro "1.IH"[rule_format]) auto
        ultimately show ?thesis
          using fr q1(3) pending_same[OF q1(4)] False by (auto simp: tagged_def fun_upd_def)
      qed
    qed
  qed
qed

text \<open>What the filter reports for the packets \<open>ps\<close> that a chunk completed, and what it puts in the ring.\<close>

definition verdict :: "int \<Rightarrow> u8 list list \<Rightarrow> u8 list \<Rightarrow> filter_result" where
  "verdict fd ps rest =
     (if ps = [] then F_nothing
      else if length ps = 1 \<and> rest = [] then F_data fd (hd ps) (int (length (hd ps)))
      else F_more)"

definition queued :: "int \<Rightarrow> u8 list list \<Rightarrow> u8 list \<Rightarrow> (int \<times> u8 list \<times> int) list" where
  "queued fd ps rest = (if verdict fd ps rest = F_more then tagged fd ps else [])"

lemma verdict_simps [simp]:
  "verdict fd [] rest = F_nothing" "queued fd [] rest = []"
  "verdict fd [p] [] = F_data fd p (int (length p))" "queued fd [p] [] = []"
  by (simp_all add: verdict_def queued_def)

lemma frames_not_Nil: "bs \<noteq> [] \<Longrightarrow> frames hs bs \<noteq> ([], [])"
  using frames_incomplete[of hs bs] frames_complete[of hs bs] by fastforce

lemma verdict_more:
  assumes "d \<noteq> []"
  shows "verdict fd (p # fst (frames 2 d)) (snd (frames 2 d)) = F_more"
    "queued fd (p # fst (frames 2 d)) (snd (frames 2 d)) = (fd, p, int (length p)) # tagged fd (fst (frames 2 d))"
  using frames_not_Nil[OF assms, of 2] by (auto simp: verdict_def queued_def tagged_def prod_eq_iff)

text \<open>A chunk behind an unfinished packet or at the start of one: the common part of both branches of the
  filter, which queues the first packet and goes on with the rest.\<close>

lemma push_rest_ok:
  assumes "queue_ok q" "hash_fd fd = Some h" "uc_map q fd = None" "d \<noteq> []" "n = int (length p)"
    "length (packets q) + 1 + length d \<le> 2 ^ 31 - 1025"
  shows "\<exists>q1 q2. push_data fd p n q = Some q1 \<and> push_more fd d (Some q1) = Some q2 \<and> queue_ok (Some q2) \<and>
    pending (Some q2) = (pending q)(fd := snd (frames 2 d)) \<and>
    packets (Some q2) = packets q @ (fd, p, n) # tagged fd (fst (frames 2 d))"
proof -
  obtain q1 where q1: "push_data fd p n q = Some q1" "queue_ok (Some q1)"
    "packets (Some q1) = packets q @ [(fd, p, n)]" "uc_map (Some q1) = uc_map q"
    using push_data_ok[OF assms(1), of fd p n] assms(6) by auto
  then show ?thesis
    using push_more_ok[OF q1(2) assms(2) _ assms(4)] assms(3,6) pending_same[OF q1(4)] by auto
qed

lemma fill_uncomplete_ok:
  assumes q: "queue_ok (Some q)" "hash_fd fd = Some h" "uc_map (Some q) fd = None"
    and uc: "np_id (uc_pack uc) = fd" "uc_read uc = int (length (np_buffer (uc_pack uc)))"
      "uc_read uc \<le> np_size (uc_pack uc)" "np_size (uc_pack uc) < 65536"
    and room: "length (packets (Some q)) + 1 + (length buffer - nat (np_size (uc_pack uc) - uc_read uc)) \<le> 2 ^ 31 - 1025"
  shows "\<exists>q'. fill_uncomplete fd uc buffer (Some q) =
      Some (verdict fd (fst (frames 2 (uc_bytes uc @ buffer))) (snd (frames 2 (uc_bytes uc @ buffer))), Some q') \<and>
    queue_ok (Some q') \<and> pending (Some q') = (pending (Some q))(fd := snd (frames 2 (uc_bytes uc @ buffer))) \<and>
    packets (Some q') = packets (Some q) @ queued fd (fst (frames 2 (uc_bytes uc @ buffer))) (snd (frames 2 (uc_bytes uc @ buffer)))"
proof -
  define n b0 where "n = nat (np_size (uc_pack uc))" and "b0 = np_buffer (uc_pack uc)"
  have n: "np_size (uc_pack uc) = int n" "uc_read uc = int (length b0)" "length b0 \<le> n" "n < 65536"
    using uc by (auto simp: n_def b0_def)
  obtain a b where ab: "be_bytes 2 n = [a, b]"
    using be_bytes_2_eq by blast
  have v: "be_value [a, b] = n"
    using be_value_be_bytes[of n 2] n(4) ab by simp
  have bytes: "uc_bytes uc @ buffer = a # b # (b0 @ buffer)"
    using n(1,2) ab by (simp add: uc_bytes_def b0_def)
  show ?thesis
  proof (cases "length buffer < n - length b0")
    case True
    define uc' where "uc' = uc\<lparr>uc_pack := (uc_pack uc)\<lparr>np_buffer := b0 @ buffer\<rparr>, uc_read := int (length (b0 @ buffer))\<rparr>"
    have uc': "uc_ok uc'" "np_id (uc_pack uc') = fd" "uc_bytes uc' = a # b # (b0 @ buffer)"
      using True n(1,3,4) ab uc(1) by (auto simp: uc'_def uc_ok_def uc_bytes_def)
    have fr: "frames 2 (a # b # (b0 @ buffer)) = ([], a # b # (b0 @ buffer))"
      using True v by (intro frames_part) simp
    have "fill_uncomplete fd uc buffer (Some q) = do { q \<leftarrow> link_uc fd uc' q; Some (F_nothing, Some q) }"
    proof -
      have "int (length buffer) < np_size (uc_pack uc) - uc_read uc" using True n(1,2) by simp
      then show ?thesis using n(2) by (simp add: fill_uncomplete_def uc'_def b0_def Let_def)
    qed
    then show ?thesis
      using link_uc_ok[OF q uc'(1,2)] uc'(3) unfolding bytes fr by (auto dest!: pending_upd)
  next
    case False
    define p d where "p = b0 @ take (n - length b0) buffer" and "d = drop (n - length b0) buffer"
    have need: "nat (np_size (uc_pack uc) - uc_read uc) = n - length b0" using n by (simp add: nat_diff_distrib)
    have p: "length p = n" using False n(3) by (simp add: p_def)
    have "take n (b0 @ buffer) = p" "drop n (b0 @ buffer) = d"
      using n(3) by (simp_all add: p_def d_def)
    then have fr: "frames 2 (a # b # (b0 @ buffer)) = (p # fst (frames 2 d), snd (frames 2 d))"
      using False v n(3) by (subst frames_packet) auto
    have fill: "fill_uncomplete fd uc buffer (Some q) =
        (if d = [] then Some (F_data fd p (int n), Some q)
         else do { q \<leftarrow> push_data fd p (int n) (Some q); q \<leftarrow> push_more fd d (Some q); Some (F_more, Some q) })"
    proof -
      have "\<not> int (length buffer) < np_size (uc_pack uc) - uc_read uc" "\<not> np_size (uc_pack uc) - uc_read uc < 0"
        using False n(1-3) by auto
      then show ?thesis unfolding fill_uncomplete_def Let_def need by (simp add: p_def d_def b0_def n(1))
    qed
    show ?thesis
    proof (cases "d = []")
      case True
      then show ?thesis
        using fill fr q(1) pending_None[OF q(3)] p unfolding bytes by (simp add: frames_Nil)
    next
      case False
      have "length (packets (Some q)) + 1 + length d \<le> 2 ^ 31 - 1025"
        using room unfolding need by (simp add: d_def)
      from push_rest_ok[OF q False _ this, of "int n" p] p show ?thesis
        unfolding bytes fr fst_conv snd_conv verdict_more[OF False] using fill False by auto
    qed
  qed
qed

lemma uc_map_SomeD:
  assumes "queue_ok q" "uc_map q fd = Some uc"
  shows "uc_ok uc" "np_id (uc_pack uc) = fd" "q \<noteq> None"
proof -
  from assms(2) obtain r h where r: "q = Some r" "hash_fd fd = Some h"
    "find (\<lambda>uc. np_id (uc_pack uc) = fd) (q_hash r ! h) = Some uc"
    by (auto simp: uc_map_def split: option.splits)
  then show "uc_ok uc" "np_id (uc_pack uc) = fd" "q \<noteq> None"
    using assms(1) find_SomeD[OF r(3)] hash_fd_less[OF r(2)] by (auto simp: queue_ok_def chain_ok_def)
qed

text \<open>A chunk of a socket without an unfinished packet.\<close>

lemma filter_fresh_ok:
  assumes find: "find_uncomplete q fd = Some (None, q0)" and q0: "queue_ok q0" "hash_fd fd = Some h" "uc_map q0 fd = None"
    and room: "buffer \<noteq> []" "length (packets q0) + length buffer \<le> 2 ^ 31 - 1025"
    and fr: "frames 2 buffer = (ps, rest)"
  shows "\<exists>q'. filter_data fd buffer q = Some (verdict fd ps rest, q') \<and> queue_ok q' \<and>
    pending q' = (pending q0)(fd := rest) \<and> packets q' = packets q0 @ queued fd ps rest"
proof (cases buffer rule: remdups_adj.cases)
  case 1
  with room(1) show ?thesis by simp
next
  case (2 b)
  with fr have "ps = []" "rest = [b]" by (auto simp: frames_one)
  then show ?thesis
    using save_uncomplete_ok[OF q0 half_header_ok(1,2), of b] find 2
    by (auto simp: filter_data_def dest!: pending_upd)
next
  case (3 a b r)
  let ?n = "be_value [a, b]"
  consider "length r < ?n" | "length r = ?n" | "?n < length r" by linarith
  then show ?thesis
  proof cases
    case 1
    with fr 3 have "ps = []" "rest = a # b # r" by (auto simp: frames_part)
    then show ?thesis
      using save_uncomplete_ok[OF q0 part_packet_ok(1,3)[OF 1]] part_packet_ok(2)[OF 1] find 1 3
      by (auto simp: filter_data_def read_size_be dest!: pending_upd)
  next
    case 2
    then have "ps = [r]" "rest = []"
      using fr 3 by (auto simp: frames_packet frames_Nil)
    then show ?thesis
      using find q0(1) 2 3 pending_None[OF q0(3)] by (simp add: filter_data_def read_size_be)
  next
    case more: 3
    let ?d = "drop ?n r"
    have d: "?d \<noteq> []" and l: "int ?n = int (length (take ?n r))"
      and room': "length (packets q0) + 1 + length ?d \<le> 2 ^ 31 - 1025"
      using more room(2) 3 by auto
    have v: "ps = take ?n r # fst (frames 2 ?d)" "rest = snd (frames 2 ?d)"
      using fr 3 more by (auto simp: frames_packet)
    have "filter_data fd buffer q = do {
        q \<leftarrow> push_data fd (take ?n r) (int ?n) q0; q \<leftarrow> push_more fd ?d (Some q); Some (F_more, Some q) }"
      using find 3 more by (simp add: filter_data_def read_size_be)
    then show ?thesis
      using push_rest_ok[OF q0 d l room'] l unfolding v verdict_more[OF d] by auto
  qed
qed

text \<open>A chunk of a socket with an unfinished packet.\<close>

lemma filter_resume_ok:
  assumes find: "find_uncomplete q fd = Some (Some uc, Some q1)"
    and q1: "queue_ok (Some q1)" "hash_fd fd = Some h" "uc_map (Some q1) fd = None"
    and uc: "uc_ok uc" "np_id (uc_pack uc) = fd"
    and room: "buffer \<noteq> []" "length (packets (Some q1)) + length buffer \<le> 2 ^ 31 - 1025"
    and fr: "frames 2 (uc_bytes uc @ buffer) = (ps, rest)"
  shows "\<exists>q'. filter_data fd buffer q = Some (verdict fd ps rest, q') \<and> queue_ok q' \<and>
    pending q' = (pending (Some q1))(fd := rest) \<and> packets q' = packets (Some q1) @ queued fd ps rest"
proof (cases "uc_read uc < 0")
  case False
  then have "filter_data fd buffer q = fill_uncomplete fd uc buffer (Some q1)"
    using find by (simp add: filter_data_def)
  moreover have "uc_read uc = int (length (np_buffer (uc_pack uc)))" "uc_read uc \<le> np_size (uc_pack uc)"
    "np_size (uc_pack uc) < 65536" "0 < nat (np_size (uc_pack uc) - uc_read uc)"
    using uc(1) False by (auto simp: uc_ok_def)
  moreover from this(4) have "length (packets (Some q1)) + 1 + (length buffer - nat (np_size (uc_pack uc) - uc_read uc)) \<le> 2 ^ 31 - 1025"
    using room by (cases buffer) auto
  ultimately show ?thesis
    using fill_uncomplete_ok[OF q1 uc(2), of buffer] fr by fastforce
next
  case True
  obtain b bs where buf: "buffer = b # bs" using room(1) by (cases buffer) auto
  define uc' where "uc' = uc\<lparr>uc_pack := (uc_pack uc)\<lparr>np_size := uc_header uc * 256 + uint b\<rparr>, uc_read := 0\<rparr>"
  have h: "uc_read uc = -1" "0 \<le> uc_header uc" "uc_header uc < 256" "np_buffer (uc_pack uc) = []"
    using uc(1) True by (auto simp: uc_ok_def)
  let ?a = "word_of_int (uc_header uc) :: u8"
  have v: "uc_header uc * 256 + uint b = int (be_value [?a, b])"
    using h(2,3) by (simp add: be_value_2 uint_word_of_int_eq take_bit_int_eq_self)
  have "filter_data fd buffer q = fill_uncomplete fd uc' bs (Some q1)"
    using find h(1) by (simp add: filter_data_def buf uc'_def Let_def)
  moreover have "np_id (uc_pack uc') = fd" "uc_read uc' = int (length (np_buffer (uc_pack uc')))"
    "uc_read uc' \<le> np_size (uc_pack uc')" "np_size (uc_pack uc') < 65536"
    using uc(2) h(4) v be_value_2_less[of ?a b] by (simp_all add: uc'_def)
  moreover have "uc_bytes uc' @ bs = uc_bytes uc @ buffer"
    using h(1,4) v be_bytes_2[of ?a b] by (simp add: uc_bytes_def uc'_def buf)
  moreover have "length (packets (Some q1)) + 1 + (length bs - nat (np_size (uc_pack uc') - uc_read uc')) \<le> 2 ^ 31 - 1025"
    using room(2) buf by simp
  ultimately show ?thesis
    using fill_uncomplete_ok[OF q1, of uc' bs] fr by fastforce
qed

text \<open>The filter keeps, for every socket, the bytes that are not in a complete packet yet; a chunk gives
  the packets that it completes.\<close>

lemma filter_data_ok:
  assumes "queue_ok q" "hash_fd fd = Some h" "buffer \<noteq> []" "length (packets q) + length buffer \<le> 2 ^ 31 - 1025"
    "frames 2 (pending q fd @ buffer) = (ps, rest)"
  shows "\<exists>q'. filter_data fd buffer q = Some (verdict fd ps rest, q') \<and> queue_ok q' \<and>
    pending q' = (pending q)(fd := rest) \<and> packets q' = packets q @ queued fd ps rest"
proof -
  obtain q0 where q0: "find_uncomplete q fd = Some (uc_map q fd, q0)" "queue_ok q0" "packets q0 = packets q"
    "uc_map q0 = (uc_map q)(fd := None)" "q0 = None \<longleftrightarrow> q = None"
    using find_uncomplete_ok[OF assms(1,2)] by blast
  have none: "uc_map q0 fd = None" by (simp add: q0(4))
  have upd: "(pending q)(fd := rest) = (pending q0)(fd := rest)"
    using pending_del[OF q0(4)] by simp
  show ?thesis
  proof (cases "uc_map q fd")
    case None
    then show ?thesis
      using filter_fresh_ok[OF _ q0(2) assms(2) none assms(3)] q0(1) assms(4,5) unfolding upd q0(3)[symmetric]
      by (simp add: pending_def)
  next
    case (Some uc)
    note uc = uc_map_SomeD[OF assms(1) Some]
    obtain q1 where q1: "q0 = Some q1" using uc(3) q0(5) by blast
    show ?thesis
      using filter_resume_ok[OF _ _ assms(2) _ uc(1,2) assms(3)] q0(1,2) none assms(4,5) Some
      unfolding upd q0(3)[symmetric] q1 by (simp add: pending_def)
  qed
qed

section \<open>Streams of many sockets\<close>

text \<open>The loop of the Lua gate: it pops packets until there are none.\<close>

partial_function (option) drain ::
  "queue option \<Rightarrow> ((int \<times> u8 list \<times> int) list \<times> queue option) option" where
  "drain q = (case lpop q of
      None \<Rightarrow> None
    | Some (r, q') \<Rightarrow>
        (case r of
           None \<Rightarrow> Some ([], q')
         | Some p \<Rightarrow> do { (ps, q'') \<leftarrow> drain q'; Some (p # ps, q'') }))"

declare drain.simps [code]

definition data_message :: "int \<Rightarrow> u8 list \<Rightarrow> skynet_socket_message" where
  "data_message fd chunk =
     \<lparr>sm_type = SKYNET_SOCKET_TYPE_DATA, sm_id = fd, sm_ud = int (length chunk), sm_buffer = Some 0\<rparr>"

text \<open>What the gate handles for a sequence of chunks, each with the socket it came from: the packet the
  filter returns, or all packets of the ring when it reports more.\<close>

fun netpack_run :: "(int \<times> u8 list) list \<Rightarrow> queue option \<Rightarrow> ((int \<times> u8 list \<times> int) list \<times> queue option) option" where
  "netpack_run [] q = Some ([], q)"
| "netpack_run ((fd, chunk) # evs) q = do {
     (r, q) \<leftarrow> lfilter (data_message fd chunk) (Some chunk) [] q;
     (out, q) \<leftarrow> (case r of
         F_data fd buffer n \<Rightarrow> Some ([(fd, buffer, n)], q)
       | F_more \<Rightarrow> drain q
       | _ \<Rightarrow> Some ([], q));
     (outs, q) \<leftarrow> netpack_run evs q;
     Some (out @ outs, q) }"

definition chunks_of :: "int \<Rightarrow> (int \<times> u8 list) list \<Rightarrow> u8 list list" where
  "chunks_of fd evs = map snd (filter (\<lambda>e. fst e = fd) evs)"

text \<open>A chunk as the socket layer delivers it.\<close>

definition good_chunk :: "int \<times> u8 list \<Rightarrow> bool" where
  "good_chunk e \<longleftrightarrow> hash_fd (fst e) \<noteq> None \<and> snd e \<noteq> [] \<and> length (snd e) \<le> 2 ^ 31 - 1025"

lemma drain_ok:
  assumes "queue_ok q"
  shows "\<exists>q'. drain q = Some (packets q, q') \<and> queue_ok q' \<and> packets q' = [] \<and> uc_map q' = uc_map q"
  using assms
proof (induction "packets q" arbitrary: q)
  case Nil
  then show ?case using lpop_empty[of q] by (subst drain.simps) auto
next
  case (Cons p ps)
  then obtain q' where q': "lpop q = Some (Some p, q')" "queue_ok q'" "packets q' = ps" "uc_map q' = uc_map q"
    using lpop_cons[OF Cons.prems Cons.hyps(2)[symmetric]] by blast
  then show ?case
    using Cons.hyps(1)[OF q'(3)[symmetric] q'(2)] Cons.hyps(2) by (subst drain.simps) auto
qed

lemma run_step:
  assumes "queue_ok q" "packets q = []" "good_chunk (fd, chunk)" "frames 2 (pending q fd @ chunk) = (ps, rest)"
  shows "\<exists>q'. netpack_run ((fd, chunk) # evs) q =
      do { (outs, q) \<leftarrow> netpack_run evs q'; Some (tagged fd ps @ outs, q) } \<and>
    queue_ok q' \<and> packets q' = [] \<and> pending q' = (pending q)(fd := rest)"
proof -
  obtain q1 where q1: "filter_data fd chunk q = Some (verdict fd ps rest, q1)" "queue_ok q1"
    "pending q1 = (pending q)(fd := rest)" "packets q1 = queued fd ps rest"
    using filter_data_ok[OF assms(1) _ _ _ assms(4)] assms(2,3) by (auto simp: good_chunk_def)
  have f: "lfilter (data_message fd chunk) (Some chunk) [] q = Some (verdict fd ps rest, q1)"
    using q1(1) by (simp add: lfilter_def data_message_def)
  show ?thesis
  proof (cases "verdict fd ps rest = F_more")
    case True
    with q1(4) have "packets q1 = tagged fd ps" by (simp add: queued_def)
    with drain_ok[OF q1(2)] obtain q2 where "drain q1 = Some (tagged fd ps, q2)" "queue_ok q2" "packets q2 = []" "uc_map q2 = uc_map q1"
      by auto
    with True f q1(3) show ?thesis using pending_same[of q2 q1] by (auto simp: split_beta)
  next
    case False
    then consider "ps = []" | p where "ps = [p]" "rest = []"
      by (cases ps) (auto simp: verdict_def split: if_splits)
    then show ?thesis
      using f q1 by cases (auto simp: tagged_def split_beta)
  qed
qed

lemma netpack_run_ok:
  assumes "queue_ok q" "packets q = []" "\<And>e. e \<in> set evs \<Longrightarrow> good_chunk e"
  shows "\<exists>outs q'. netpack_run evs q = Some (outs, q') \<and> queue_ok q' \<and> packets q' = [] \<and>
    (\<forall>fd. filter (\<lambda>p. fst p = fd) outs = tagged fd (fst (feed 2 (pending q fd) (chunks_of fd evs))) \<and>
          pending q' fd = snd (feed 2 (pending q fd) (chunks_of fd evs)))"
  using assms
proof (induction evs arbitrary: q)
  case (Cons e evs)
  obtain fd chunk where e: "e = (fd, chunk)" by fastforce
  obtain ps rest where fr: "frames 2 (pending q fd @ chunk) = (ps, rest)" by fastforce
  obtain q1 where q1: "netpack_run (e # evs) q = do { (outs, q) \<leftarrow> netpack_run evs q1; Some (tagged fd ps @ outs, q) }"
    "queue_ok q1" "packets q1 = []" "pending q1 = (pending q)(fd := rest)"
    using run_step[OF Cons.prems(1,2) _ fr, of evs] Cons.prems(3)[of e] e by auto
  obtain outs q2 where q2: "netpack_run evs q1 = Some (outs, q2)" "queue_ok q2" "packets q2 = []"
    "\<And>fd. filter (\<lambda>p. fst p = fd) outs = tagged fd (fst (feed 2 (pending q1 fd) (chunks_of fd evs)))"
    "\<And>fd. pending q2 fd = snd (feed 2 (pending q1 fd) (chunks_of fd evs))"
    using Cons.IH[OF q1(2,3)] Cons.prems(3) by auto
  have tag: "filter (\<lambda>p. fst p = fd') (tagged fd ps) = (if fd' = fd then tagged fd ps else [])" for fd'
    by (auto simp: tagged_def filter_empty_conv)
  show ?case
    using q1 q2 fr by (auto simp: e tag chunks_of_def split_beta) (auto simp: tagged_def)
qed (simp add: chunks_of_def tagged_def)

lemma empty_queue: "queue_ok None" "packets None = []" "pending None = (\<lambda>fd. [])"
  by (simp_all add: queue_ok_def packets_def pending_def uc_map_def fun_eq_iff)

lemma feed_start: "feed 2 [] cs = frames 2 (concat cs)"
  using feed_eq_frames[of 2 "[]" cs] by (simp add: frames_Nil)

lemma lpack_cases:
  "lpack p = (if length p < 65536 then Inr (frame 2 p)
     else Inl (''Invalid size (too long) of data : '' @ fmt_d (wrap_int (int (length p)))))"
  by (simp add: lpack_def write_size_def frame_def be_bytes_2_eq)

text \<open>C7. The packet splitter delivers, for every socket, exactly the complete packets of the stream received on
  it, in order, however the stream was cut into chunks and however the chunks of the sockets interleave;
  the bytes it keeps for the socket are the rest of the stream.\<close>

theorem netpack_streams:
  assumes "\<And>e. e \<in> set evs \<Longrightarrow> good_chunk e"
  shows "\<exists>outs q. netpack_run evs None = Some (outs, q) \<and>
    (\<forall>fd. filter (\<lambda>p. fst p = fd) outs = tagged fd (fst (frames 2 (concat (chunks_of fd evs)))) \<and>
          pending q fd = snd (frames 2 (concat (chunks_of fd evs))))"
proof -
  have "queue_ok None" "packets None = []" "pending None fd = []" for fd
    by (simp_all add: empty_queue)
  then show ?thesis
    using netpack_run_ok[of None evs] assms by (auto simp: feed_start)
qed

text \<open>Packing messages with \<open>lpack\<close> and splitting them again is the identity: when the stream of every socket
  is the concatenation of packed messages, the messages come out, however the streams are cut and
  interleaved, and no byte is left over.\<close>

theorem netpack_roundtrip:
  assumes "\<And>e. e \<in> set evs \<Longrightarrow> good_chunk e" "\<And>fd m. m \<in> set (msgs fd) \<Longrightarrow> lpack m = Inr (pack m)"
    "\<And>fd. concat (chunks_of fd evs) = concat (map pack (msgs fd))"
  shows "\<exists>outs q. netpack_run evs None = Some (outs, q) \<and>
    (\<forall>fd. filter (\<lambda>p. fst p = fd) outs = tagged fd (msgs fd) \<and> pending q fd = [])"
proof -
  have "frames 2 (concat (map pack (msgs fd))) = (msgs fd, [])" for fd
  proof -
    have "length m < 256 ^ 2" "pack m = frame 2 m" if "m \<in> set (msgs fd)" for m
      using lpack_cases[of m] assms(2)[OF that] by (auto split: if_splits)
    then show ?thesis
      using frames_frame[of 2 "msgs fd" "[]"] by (simp add: complete_def cong: map_cong)
  qed
  moreover have "queue_ok None" "packets None = []" "pending None fd = []" for fd
    by (simp_all add: empty_queue)
  ultimately show ?thesis
    using netpack_run_ok[of None evs] assms(1,3) by (auto simp: feed_start)
qed

text \<open>\<open>lpack\<close> refuses exactly the payloads whose length does not fit in 16 bits, with an error message; any
  other payload comes out behind its length, two bytes in big-endian order.\<close>

theorem lpack_result:
  "case lpack p of
     Inl e \<Rightarrow> 65536 \<le> length p \<and> e = ''Invalid size (too long) of data : '' @ fmt_d (wrap_int (int (length p)))
   | Inr b \<Rightarrow> length p < 65536 \<and> length b = length p + 2 \<and> be_value (take 2 b) = length p \<and> drop 2 b = p"
  using be_value_be_bytes[of "length p" 2] by (simp add: lpack_cases frame_def)

text \<open>When a socket is closed or fails, the bytes of its unfinished packet are dropped, so that a new connection
  with the same id starts with an empty stream; the packets completed before and the streams of the
  other sockets are kept.\<close>

theorem netpack_close:
  assumes "queue_ok q" "hash_fd (sm_id m) \<noteq> None"
    "sm_type m = SKYNET_SOCKET_TYPE_CLOSE \<or> sm_type m = SKYNET_SOCKET_TYPE_ERROR"
  shows "\<exists>q'. lfilter m None tail q =
      Some (if sm_type m = SKYNET_SOCKET_TYPE_CLOSE then F_close (sm_id m) else F_error (sm_id m) tail, q') \<and>
    queue_ok q' \<and> packets q' = packets q \<and> pending q' = (pending q)(sm_id m := [])"
proof -
  obtain h where h: "hash_fd (sm_id m) = Some h" using assms(2) by blast
  obtain q' where q': "find_uncomplete q (sm_id m) = Some (uc_map q (sm_id m), q')" "queue_ok q'" "packets q' = packets q"
    "uc_map q' = (uc_map q)(sm_id m := None)"
    using find_uncomplete_ok[OF assms(1) h] by blast
  then have "close_uncomplete (sm_id m) q = Some q'"
    by (simp add: close_uncomplete_def)
  with q' assms(3) pending_del[OF q'(4)] show ?thesis
    by (auto simp: lfilter_def SKYNET_SOCKET_TYPE_CLOSE_def SKYNET_SOCKET_TYPE_ERROR_def
        SKYNET_SOCKET_TYPE_DATA_def SKYNET_SOCKET_TYPE_CONNECT_def SKYNET_SOCKET_TYPE_ACCEPT_def)
qed

section \<open>Two clients\<close>

text \<open>Socket 7 sends a packet of two bytes in three chunks, with an empty packet behind it; socket 9 sends
  one byte of a header in between.\<close>

definition demo_chunks :: "(int \<times> u8 list) list" where
  "demo_chunks = [(7, [0]), (9, [1]), (7, [2, 65]), (7, [66, 0, 0])]"

lemma demo_good: "e \<in> set demo_chunks \<Longrightarrow> good_chunk e"
  by (auto simp: demo_chunks_def good_chunk_def hash_fd_def cint_def INT_MIN_def INT_MAX_def)

lemma demo_streams: "concat (chunks_of 7 demo_chunks) = [0, 2, 65, 66, 0, 0]" "concat (chunks_of 9 demo_chunks) = [1]"
  by (simp_all add: demo_chunks_def chunks_of_def)

theorem netpack_streams_witness:
  "\<exists>outs q. netpack_run demo_chunks None = Some (outs, q) \<and>
     filter (\<lambda>p. fst p = 7) outs = [(7, [65, 66], 2), (7, [], 0)] \<and> pending q 7 = [] \<and>
     filter (\<lambda>p. fst p = 9) outs = [] \<and> pending q 9 = [1]"
proof -
  have "frames 2 [0, 2, 65, 66, 0, 0] = ([[65, 66], []], [])" "frames 2 [1] = ([], [1])"
    by code_simp+
  then show ?thesis
    using netpack_streams[of demo_chunks] demo_good demo_streams by (fastforce simp: tagged_def)
qed

definition demo_msgs :: "int \<Rightarrow> u8 list list" where
  "demo_msgs fd = (if fd = 7 then [[65, 66], []] else [])"

theorem netpack_roundtrip_witness:
  "\<exists>outs q. netpack_run [(7, [0, 2, 65]), (7, [66, 0]), (7, [0])] None = Some (outs, q) \<and>
     filter (\<lambda>p. fst p = 7) outs = [(7, [65, 66], 2), (7, [], 0)]"
proof -
  let ?evs = "[(7, [0, 2, 65]), (7, [66, 0]), (7, [0])] :: (int \<times> u8 list) list"
  let ?pack = "\<lambda>m. write_size (length m) @ m"
  have a: "good_chunk e" if "e \<in> set ?evs" for e
    using that by (auto simp: good_chunk_def hash_fd_def cint_def INT_MIN_def INT_MAX_def)
  have b: "lpack m = Inr (?pack m)" if "m \<in> set (demo_msgs fd)" for fd m
    using that by (auto simp: lpack_def demo_msgs_def split: if_splits)
  have c: "concat (chunks_of fd ?evs) = concat (map ?pack (demo_msgs fd))" for fd
    by (simp add: chunks_of_def write_size_def demo_msgs_def)
  have "\<exists>outs q. netpack_run ?evs None = Some (outs, q) \<and>
      (\<forall>fd. filter (\<lambda>p. fst p = fd) outs = tagged fd (demo_msgs fd) \<and> pending q fd = [])"
    by (rule netpack_roundtrip[where msgs = demo_msgs and pack = ?pack], erule a, erule b, rule c)
  then obtain outs q where o: "netpack_run ?evs None = Some (outs, q)"
    "\<And>fd. filter (\<lambda>p. fst p = fd) outs = tagged fd (demo_msgs fd)"
    by blast
  show ?thesis
    using o(1) o(2)[of 7] by (simp add: tagged_def demo_msgs_def)
qed

theorem netpack_close_witness:
  "\<exists>q q'. netpack_run demo_chunks None = Some q \<and>
     lfilter \<lparr>sm_type = SKYNET_SOCKET_TYPE_CLOSE, sm_id = 9, sm_ud = 0, sm_buffer = None\<rparr> None [] (snd q) = Some (F_close 9, q') \<and>
     pending (snd q) 9 = [1] \<and> pending q' 9 = []"
proof -
  let ?m = "\<lparr>sm_type = SKYNET_SOCKET_TYPE_CLOSE, sm_id = 9, sm_ud = 0, sm_buffer = None\<rparr>"
  obtain outs q where q: "netpack_run demo_chunks None = Some (outs, q)" "queue_ok q"
    "pending q 9 = snd (frames 2 (concat (chunks_of 9 demo_chunks)))"
    using netpack_run_ok[of None demo_chunks] demo_good by (auto simp: empty_queue feed_start)
  have "hash_fd 9 \<noteq> None" by (simp add: hash_fd_def cint_def INT_MIN_def INT_MAX_def)
  then show ?thesis
    using netpack_close[of q ?m "[]"] q by (auto simp: demo_streams frames_one)
qed

end
