(* ===== verification/Codec.thy ===== *)
theory Codec
  imports Clib
begin

text \<open>
  The text codecs of \<open>lualib-src/lua-crypt.c\<close>: hexadecimal, base64, the exclusive or of strings, the
  eight-byte hash of a key and the random key. Lua strings are lists of bytes. A function that may call
  \<open>luaL_error\<close> returns \<open>Inl\<close> with the message; \<open>None\<close> is the overflow of an index, which the sources keep
  in an \<open>int\<close>.
\<close>

section \<open>Lua strings\<close>

type_synonym 'a lua = "(string + 'a) option"

definition luaL_error :: "string \<Rightarrow> 'a lua" where
  "luaL_error msg = Some (Inl msg)"

definition bytes_of :: "string \<Rightarrow> u8 list" where
  "bytes_of s = map of_char s"

section \<open>Hexadecimal\<close>

definition hex :: "u8 list" where
  "hex = bytes_of ''0123456789abcdef''"

definition ltohex :: "u8 list \<Rightarrow> u8 list option" where
  "ltohex text =
     (if length text > 2 ^ 30 then None
      else Some (concat (map (\<lambda>b. [hex ! unat (drop_bit 4 b), hex ! unat (b AND 0xf)]) text)))"

text \<open>The macro \<open>HEX\<close> stores into a \<open>uint8_t\<close>.\<close>

definition HEX :: "u8 \<Rightarrow> u8" where
  "HEX c = (if 48 \<le> c \<and> c \<le> 57 then c - 48 else c - 97 + 10)"

fun fromhex_loop :: "u8 list \<Rightarrow> string + u8 list" where
  "fromhex_loop (a # b # text) =
     (let hi = HEX a; low = HEX b in
      if hi > 16 \<or> low > 16 then Inl ''Invalid hex text''
      else (case fromhex_loop text of Inl e \<Rightarrow> Inl e | Inr bs \<Rightarrow> Inr ((push_bit 4 hi OR low) # bs)))"
| "fromhex_loop _ = Inr []"

definition lfromhex :: "u8 list \<Rightarrow> u8 list lua" where
  "lfromhex text =
     (if odd (length text) then luaL_error (''Invalid hex text size '' @ fmt_d (wrap_int (int (length text))))
      else if length text \<ge> 2 ^ 31 then None
      else Some (fromhex_loop text))"

section \<open>Base64\<close>

definition encoding :: "u8 list" where
  "encoding = bytes_of ''ABCDEFGHIJKLMNOPQRSTUVWXYZabcdefghijklmnopqrstuvwxyz0123456789+/''"

text \<open>The loop over groups of three bytes, and the \<open>switch\<close> on the number of bytes left.\<close>

fun b64_groups :: "u8 list \<Rightarrow> u8 list" where
  "b64_groups (a # b # c # text) =
     (let v = push_bit 16 (ucast a) OR push_bit 8 (ucast b) OR ucast c :: u32 in
      encoding ! unat (drop_bit 18 v) # encoding ! unat (drop_bit 12 v AND 0x3f) #
      encoding ! unat (drop_bit 6 v AND 0x3f) # encoding ! unat (v AND 0x3f) # b64_groups text)"
| "b64_groups [a] =
     (let v = ucast a :: u32 in
      [encoding ! unat (drop_bit 2 v), encoding ! unat (push_bit 4 (v AND 3)), of_char (CHR ''=''), of_char (CHR ''='')])"
| "b64_groups [a, b] =
     (let v = push_bit 8 (ucast a) OR ucast b :: u32 in
      [encoding ! unat (drop_bit 10 v), encoding ! unat (drop_bit 4 v AND 0x3f),
       encoding ! unat (push_bit 2 (v AND 0xf)), of_char (CHR ''='')])"
| "b64_groups [] = []"

definition lb64encode :: "u8 list \<Rightarrow> u8 list option" where
  "lb64encode text =
     (if int ((length text + 2) div 3 * 4) > INT_MAX then None else Some (b64_groups text))"

definition decoding :: "int list" where
  "decoding = [62,-1,-1,-1,63,52,53,54,55,56,57,58,59,60,61,-1,-1,-1,-2,-1,-1,-1,0,1,2,3,4,5,6,7,8,9,10,11,12,13,14,15,
     16,17,18,19,20,21,22,23,24,25,-1,-1,-1,-1,-1,-1,26,27,28,29,30,31,32,33,34,35,36,37,38,39,40,41,42,43,44,45,46,47,
     48,49,50,51]"

definition b64index :: "u8 \<Rightarrow> int" where
  "b64index c =
     (if c < 43 then -1
      else if unat (c - 43) \<ge> length decoding then -1
      else decoding ! unat (c - 43))"

text \<open>The inner loop: \<open>n\<close> digits are read, unknown characters are skipped, and the end of the text counts
  as an equals sign. The rest of the text comes with the digits.\<close>

fun b64_read :: "nat \<Rightarrow> u8 list \<Rightarrow> int list \<times> u8 list" where
  "b64_read 0 text = ([], text)"
| "b64_read (Suc n) [] = (-2 # fst (b64_read n []), [])"
| "b64_read (Suc n) (t # text) =
     (let c = b64index t in
      if c = -1 then b64_read (Suc n) text
      else let (cs, rest) = b64_read n text in (c # cs, rest))"

lemma b64_read_length: "length (snd (b64_read n ts)) \<le> length ts"
  by (induction n ts rule: b64_read.induct) (auto simp: Let_def split_beta)

text \<open>The \<open>switch\<close> on the number of equals signs.\<close>

definition b64_group :: "int list \<Rightarrow> string + u8 list" where
  "b64_group cs =
     (let padding = length (filter (\<lambda>c. c = -2) cs); d = (\<lambda>i. word_of_int (cs ! i) :: u32) in
      if padding = 0 then
        let v = push_bit 18 (d 0) OR push_bit 12 (d 1) OR push_bit 6 (d 2) OR d 3
        in Inr [ucast (drop_bit 16 v), ucast (drop_bit 8 v AND 0xff), ucast (v AND 0xff)]
      else if padding = 1 then
        if cs ! 3 \<noteq> -2 \<or> cs ! 2 AND 3 \<noteq> 0 then Inl ''Invalid base64 text''
        else let v = push_bit 10 (d 0) OR push_bit 4 (d 1) OR drop_bit 2 (d 2)
             in Inr [ucast (drop_bit 8 v), ucast (v AND 0xff)]
      else if padding = 2 then
        if cs ! 3 \<noteq> -2 \<or> cs ! 2 \<noteq> -2 \<or> cs ! 1 AND 0xf \<noteq> 0 then Inl ''Invalid base64 text''
        else Inr [ucast (push_bit 2 (d 0) OR drop_bit 4 (d 1))]
      else Inl ''Invalid base64 text'')"

function b64_decode :: "u8 list \<Rightarrow> string + u8 list" where
  "b64_decode [] = Inr []"
| "b64_decode (t # text) =
     (case b64_group (fst (b64_read 4 (t # text))) of
        Inl e \<Rightarrow> Inl e
      | Inr bs \<Rightarrow> (case b64_decode (snd (b64_read 4 (t # text))) of Inl e \<Rightarrow> Inl e | Inr cs \<Rightarrow> Inr (bs @ cs)))"
  by pat_completeness auto
termination
proof (relation "measure length")
  show "(snd (b64_read 4 (t # ts)), t # ts) \<in> measure length" for t ts
    using b64_read_length[of 3 ts] b64_read_length[of 4 ts]
    by (simp add: eval_nat_numeral Let_def split_beta)
qed simp

definition lb64decode :: "u8 list \<Rightarrow> u8 list lua" where
  "lb64decode text = (if int (length text) + 3 > INT_MAX then None else Some (b64_decode text))"

section \<open>Exclusive or, keys\<close>

definition lxor_str :: "u8 list \<Rightarrow> u8 list \<Rightarrow> u8 list lua" where
  "lxor_str s1 s2 =
     (if s2 = [] then luaL_error ''Can't xor empty string''
      else if length s1 \<ge> 2 ^ 31 then None
      else Some (Inr (map (\<lambda>i. s1 ! i XOR s2 ! (i mod length s2)) [0..<length s1])))"

text \<open>The two running hashes of \<open>Hash\<close>; \<open>key\<close> are their bytes, the lowest first.\<close>

definition le_bytes4 :: "u32 \<Rightarrow> u8 list" where
  "le_bytes4 w = [ucast (w AND 0xff), ucast (drop_bit 8 w AND 0xff), ucast (drop_bit 16 w AND 0xff), ucast (drop_bit 24 w AND 0xff)]"

definition Hash_step :: "u32 \<times> u32 \<Rightarrow> u8 \<Rightarrow> u32 \<times> u32" where
  "Hash_step = (\<lambda>(djb_hash, js_hash) c.
     (djb_hash + (push_bit 5 djb_hash + ucast c),
      js_hash XOR (push_bit 5 js_hash + ucast c + drop_bit 2 js_hash)))"

definition Hash :: "u8 list \<Rightarrow> u8 list" where
  "Hash str = (let (djb_hash, js_hash) = foldl Hash_step (5381, 1315423911) str in le_bytes4 djb_hash @ le_bytes4 js_hash)"

text \<open>The length is passed as an \<open>int\<close>.\<close>

definition lhashkey :: "u8 list \<Rightarrow> u8 list" where
  "lhashkey key = Hash (take (nat (wrap_int (int (length key)))) key)"

text \<open>\<open>rs\<close> are the eight values of \<open>random\<close>.\<close>

definition lrandomkey :: "u64 list \<Rightarrow> u8 list" where
  "lrandomkey rs =
     (let tmp = map (\<lambda>r. ucast (r AND 0xff)) rs; x = foldl (XOR) 0 tmp
      in if x = 0 then tmp[0 := tmp ! 0 OR 1] else tmp)"

section \<open>Bytes\<close>

lemma unat_shift_or:
  fixes x y :: "'a::len word"
  assumes "unat y < 2 ^ n" "unat x * 2 ^ n < 2 ^ LENGTH('a)"
  shows "unat (push_bit n x OR y) = unat x * 2 ^ n + unat y"
proof -
  have "take_bit n y = y"
    using assms(1) by (metis take_bit_nat_eq_self unsigned_take_bit_eq unsigned_word_eqI)
  then have "push_bit n x AND y = 0"
    by (intro bit_eqI) (metis bit_0_eq bit_and_iff bit_push_bit_iff bit_take_bit_iff bot_apply bot_bool_def not_le)
  then have "push_bit n x OR y = push_bit n x + y"
    by (simp add: disjunctive_add_eq_or)
  moreover have "unat (push_bit n x) = unat x * 2 ^ n"
    using assms(2) by (simp add: unsigned_push_bit_eq take_bit_nat_eq_self push_bit_nat_def)
  moreover have "unat x * 2 ^ n + unat y < 2 ^ LENGTH('a)"
  proof -
    have n: "n < LENGTH('a) \<or> unat x = 0"
    proof (rule ccontr)
      assume "\<not> ?thesis"
      then have "2 ^ LENGTH('a) \<le> (2 ^ n :: nat)" "1 \<le> unat x" by auto
      then show False using assms(2) by (metis mult_le_mono nat_mult_1 not_le)
    qed
    show ?thesis
    proof (cases "unat x = 0")
      case False
      with n have e: "(2 :: nat) ^ LENGTH('a) = 2 ^ (LENGTH('a) - n) * 2 ^ n"
        by (metis le_add_diff_inverse2 less_or_eq_imp_le power_add)
      with assms(2) have "unat x < 2 ^ (LENGTH('a) - n)" by simp
      then have "(unat x + 1) * 2 ^ n \<le> 2 ^ (LENGTH('a) - n) * 2 ^ n" by (intro mult_right_mono) auto
      with assms(1) show ?thesis unfolding e by (simp add: algebra_simps)
    qed simp
  qed
  ultimately show ?thesis
    by (simp add: unat_word_ariths)
qed

section \<open>Hexadecimal texts\<close>

lemma HEX_hex: "n < 16 \<Longrightarrow> HEX (hex ! n) = of_nat n"
proof -
  have "list_all (\<lambda>n. HEX (hex ! n) = of_nat n) [0..<16]" by code_simp
  then show "n < 16 \<Longrightarrow> HEX (hex ! n) = of_nat n" by (simp add: list_all_iff)
qed

lemma unat_u8: "unat (b :: u8) < 256"
  using unsigned_less[of b] by simp

lemma unat_nibbles: "unat (drop_bit 4 b) = unat b div 16" "unat (b AND 0xf) = unat b mod 16" for b :: u8
  using unat_and_mask[of b 4] by (simp_all add: unat_drop_div)

lemma nibbles: "push_bit 4 (drop_bit 4 b) OR (b AND 0xf) = b" for b :: u8
proof (rule unsigned_word_eqI)
  show "unat (push_bit 4 (drop_bit 4 b) OR (b AND 0xf)) = unat b"
    using unat_u8[of b] by (subst unat_shift_or) (simp_all add: unat_nibbles)
qed

lemma unat_nibbles_less: "unat b div 16 < 16" "unat b mod 16 < 16" for b :: u8
  using unat_u8[of b] by auto

lemma fromhex_hex:
  "fromhex_loop (concat (map (\<lambda>b. [hex ! unat (drop_bit 4 b), hex ! unat (b AND 0xf)]) bs)) = Inr bs"
proof (induction bs)
  case (Cons b bs)
  have "\<not> 16 < drop_bit 4 b" "\<not> 16 < b AND 0xf"
    using unat_nibbles_less[of b] by (auto simp: word_less_nat_alt unat_nibbles)
  with Cons show ?case
    using unat_nibbles_less[of b] nibbles[of b] by (simp add: HEX_hex Let_def flip: unat_nibbles)
qed simp

text \<open>Which characters the decoder takes for a digit.\<close>

lemma HEX_le_16: "HEX c \<le> 16 \<longleftrightarrow> 48 \<le> c \<and> c \<le> 57 \<or> 87 \<le> c \<and> c \<le> 103"
proof -
  have e: "c - 97 + 10 = c - 87" by (simp add: algebra_simps)
  show ?thesis
    unfolding HEX_def e using unat_u8[of c] by (auto simp: word_le_nat_alt unat_sub_if')
qed

text \<open>The hexadecimal text of a string has two digits for every byte and is decoded to the string; but
  the decoder takes for digits, besides the digits and the letters a to f, the characters from W to the
  backquote, which lie in front of them, and the letter g.\<close>

theorem hex_roundtrip:
  assumes "length bs < 2 ^ 30"
  shows "(\<exists>t. ltohex bs = Some t \<and> length t = 2 * length bs \<and> set t \<subseteq> set hex \<and> lfromhex t = Some (Inr bs)) \<and>
    ((\<exists>b. lfromhex [x, y] = Some (Inr b)) \<longleftrightarrow>
     (\<forall>c \<in> {x, y}. 48 \<le> c \<and> c \<le> 57 \<or> 87 \<le> c \<and> c \<le> 103))"
proof -
  define t where "t = concat (map (\<lambda>b. [hex ! unat (drop_bit 4 b), hex ! unat (b AND 0xf)]) bs)"
  have l: "length t = 2 * length bs" unfolding t_def by (induction bs) auto
  have "set t \<subseteq> set hex"
  proof -
    have "length hex = 16" by (simp add: hex_def bytes_of_def)
    then have "hex ! unat (drop_bit 4 b) \<in> set hex" "hex ! unat (b AND 0xf) \<in> set hex" for b :: u8
      using unat_nibbles_less[of b] by (auto intro!: nth_mem simp: unat_nibbles)
    then show ?thesis by (auto simp: t_def)
  qed
  moreover have "lfromhex t = Some (Inr bs)"
    using l assms fromhex_hex[of bs] by (simp add: lfromhex_def t_def)
  moreover have "ltohex bs = Some t"
    using assms by (simp add: ltohex_def t_def)
  moreover have "(\<exists>b. lfromhex [x, y] = Some (Inr b)) \<longleftrightarrow> HEX x \<le> 16 \<and> HEX y \<le> 16"
    by (auto simp: lfromhex_def Let_def not_less)
  ultimately show ?thesis
    using l by (auto simp: HEX_le_16)
qed

theorem hex_roundtrip_witness: "\<exists>b. lfromhex (bytes_of ''gW'') = Some (Inr b)"
proof -
  have "length ([1] :: u8 list) < 2 ^ 30" by simp
  from hex_roundtrip[OF this, of 103 87] show ?thesis by (auto simp: bytes_of_def)
qed

section \<open>Base64 texts\<close>

lemma b64index_encoding: "n < 64 \<Longrightarrow> b64index (encoding ! n) = int n"
proof -
  have "list_all (\<lambda>n. b64index (encoding ! n) = int n) [0..<64]" by code_simp
  then show "n < 64 \<Longrightarrow> b64index (encoding ! n) = int n" by (simp add: list_all_iff)
qed

lemma b64index_pad: "b64index 61 = -2"
  by code_simp

definition b64_char :: "u8 \<Rightarrow> bool" where
  "b64_char c \<longleftrightarrow> b64index c \<noteq> -1"

text \<open>The digits of a text decide: other characters are skipped, missing equals signs are added.\<close>

function digits_decode :: "int list \<Rightarrow> string + u8 list" where
  "digits_decode [] = Inr []"
| "digits_decode (c # cs) =
     (case b64_group (take 4 (c # cs) @ replicate (4 - length (c # cs)) (-2)) of
        Inl e \<Rightarrow> Inl e
      | Inr bs \<Rightarrow> (case digits_decode (drop 4 (c # cs)) of Inl e \<Rightarrow> Inl e | Inr ds \<Rightarrow> Inr (bs @ ds)))"
  by pat_completeness auto
termination
  by (relation "measure length") auto

lemma b64_read_digits:
  "fst (b64_read n ts) = take n (map b64index (filter b64_char ts)) @ replicate (n - length (filter b64_char ts)) (-2) \<and>
   filter b64_char (snd (b64_read n ts)) = drop n (filter b64_char ts)"
  by (induction n ts rule: b64_read.induct) (auto simp: b64_char_def Let_def split_beta)

lemma b64_read_Nil: "snd (b64_read n []) = []"
  by (cases n) auto

lemma b64_read_last:
  "snd (b64_read n ts) = [] \<or> last (snd (b64_read n ts)) = last ts"
  by (induction n ts rule: b64_read.induct) (auto simp: Let_def split_beta b64_read_Nil)

lemma b64_decode_digits:
  assumes "ts = [] \<or> b64_char (last ts)"
  shows "b64_decode ts = digits_decode (map b64index (filter b64_char ts))"
  using assms
proof (induction ts rule: b64_decode.induct)
  case (2 t ts)
  let ?r = "b64_read 4 (t # ts)"
  obtain cs where cs: "cs = map b64index (filter b64_char (t # ts))" by blast
  have "last (t # ts) \<in> set (filter b64_char (t # ts))" using 2(2) by auto
  then obtain c cs' where c: "cs = c # cs'" unfolding cs by (cases "filter b64_char (t # ts)") auto
  have f: "fst ?r = take 4 cs @ replicate (4 - length cs) (-2)" and s: "map b64index (filter b64_char (snd ?r)) = drop 4 cs"
    using b64_read_digits[of 4 "t # ts"] unfolding cs by (auto simp: drop_map simp del: filter.simps)
  have "b64_decode (snd ?r) = digits_decode (drop 4 cs)" if "b64_group (fst ?r) = Inr x" for x
    using 2(1)[OF that] b64_read_last[of 4 "t # ts"] 2(2) s by auto
  then have "b64_decode (t # ts) = (case b64_group (take 4 cs @ replicate (4 - length cs) (-2)) of
      Inl e \<Rightarrow> Inl e | Inr bs \<Rightarrow> (case digits_decode (drop 4 cs) of Inl e \<Rightarrow> Inl e | Inr ds \<Rightarrow> Inr (bs @ ds)))"
    unfolding b64_decode.simps f by (auto split: sum.split)
  then show ?case
    unfolding cs[symmetric] c by (simp only: digits_decode.simps)
qed simp

lemma ucast_u32: "unat (ucast b :: u32) = unat b" for b :: u8
  using unat_u8[of b] by (simp add: unsigned_ucast_eq take_bit_nat_eq_self)

lemma and_3f: "unat (v AND 0x3f) = unat v mod 64" for v :: u32
  using unat_and_mask[of v 6] by simp

lemma unat_group3: "unat (push_bit 16 (ucast a) OR push_bit 8 (ucast b) OR ucast c :: u32) = unat a * 65536 + unat b * 256 + unat c"
  for a b c :: u8
  using unat_be4[of 0 a b c] by simp

lemma unat_group2: "unat (push_bit 8 (ucast a) OR ucast b :: u32) = unat a * 256 + unat b" for a b :: u8
  using unat_be4[of 0 0 a b] by simp

lemma digits4:
  assumes "s0 < 64" "s1 < 64" "s2 < 64" "s3 < 64"
  shows "unat (push_bit 18 (word_of_int (int s0)) OR push_bit 12 (word_of_int (int s1)) OR
      push_bit 6 (word_of_int (int s2)) OR word_of_int (int s3) :: u32) = s0 * 262144 + s1 * 4096 + s2 * 64 + s3"
proof -
  define d where "d s = (word_of_int (int s) :: u32)" for s
  have d: "unat (d s) = s" if "s < 64" for s
    using that by (simp add: d_def unat_of_nat)
  have 1: "unat (push_bit 6 (d s2) OR d s3) = s2 * 64 + s3"
    using assms by (subst unat_shift_or) (simp_all add: d)
  have 2: "unat (push_bit 12 (d s1) OR push_bit 6 (d s2) OR d s3) = s1 * 4096 + s2 * 64 + s3"
    using assms by (subst unat_shift_or) (simp_all add: d 1)
  have "unat (push_bit 18 (d s0) OR push_bit 12 (d s1) OR push_bit 6 (d s2) OR d s3) = s0 * 262144 + s1 * 4096 + s2 * 64 + s3"
    using assms by (subst unat_shift_or) (simp_all add: d 2)
  then show ?thesis by (simp add: d_def)
qed

lemma byte_split: "c < 256 \<Longrightarrow> (x * 256 + c) div 256 = x" "c < 256 \<Longrightarrow> (x * 256 + c) mod 256 = c" for x c :: nat
  by simp_all

lemma byte_of: "unat v mod 256 = unat b \<Longrightarrow> (ucast v :: u8) = b" for v :: u32
  by (simp add: word_unat_eq_iff unsigned_ucast_eq take_bit_nat_def)

lemma sextets:
  fixes v :: nat
  shows "v div 262144 * 262144 + v div 4096 mod 64 * 4096 + v div 64 mod 64 * 64 + v mod 64 = v"
    "v div 4096 mod 64 * 4096 + v div 64 mod 64 * 64 + v mod 64 = v mod 262144"
proof -
  have d: "v div 64 div 64 = v div 4096" "v div 4096 div 64 = v div 262144"
    by (simp_all add: div_mult2_eq[symmetric])
  show "v div 262144 * 262144 + v div 4096 mod 64 * 4096 + v div 64 mod 64 * 64 + v mod 64 = v"
    using div_mult_mod_eq[of v 64] div_mult_mod_eq[of "v div 64" 64] div_mult_mod_eq[of "v div 4096" 64] d by linarith
  then show "v div 4096 mod 64 * 4096 + v div 64 mod 64 * 64 + v mod 64 = v mod 262144"
    using div_mult_mod_eq[of v 262144] by linarith
qed

lemma and_ff: "unat (v AND 0xff) = unat v mod 256" for v :: u32
  using unat_and_mask[of v 8] by simp

lemma group3_digits:
  fixes a b c :: u8
  defines "v \<equiv> unat a * 65536 + unat b * 256 + unat c"
  shows "v div 262144 < 64" "b64_group [int (v div 262144), int (v div 4096 mod 64), int (v div 64 mod 64), int (v mod 64)] = Inr [a, b, c]"
proof -
  have lt: "unat a < 256" "unat b < 256" "unat c < 256" by (rule unat_u8)+
  then show s0: "v div 262144 < 64" by (simp add: v_def)
  define w where "w = (push_bit 18 (word_of_int (int (v div 262144))) OR push_bit 12 (word_of_int (int (v div 4096 mod 64))) OR
      push_bit 6 (word_of_int (int (v div 64 mod 64))) OR word_of_int (int (v mod 64)) :: u32)"
  have u: "unat w = v"
    unfolding w_def by (subst digits4[OF s0]) (simp_all add: sextets)
  have g: "b64_group [int (v div 262144), int (v div 4096 mod 64), int (v div 64 mod 64), int (v mod 64)] =
      Inr [ucast (drop_bit 16 w), ucast (drop_bit 8 w AND 0xff), ucast (w AND 0xff)]"
    unfolding w_def by (simp add: b64_group_def Let_def numeral_3_eq_3 numeral_2_eq_2)
  have e: "v = (unat a * 256 + unat b) * 256 + unat c" by (simp add: v_def)
  have "v div 256 = unat a * 256 + unat b" "v mod 256 = unat c"
    unfolding e by (rule byte_split[OF lt(3)])+
  moreover from this(1) have "v div 65536 = unat a"
    using lt div_mult2_eq[of v 256 256] by simp
  ultimately have "ucast (drop_bit 16 w) = a" "ucast (drop_bit 8 w AND 0xff) = b" "ucast (w AND 0xff) = c"
    using lt by (intro byte_of; simp add: and_ff unat_drop_div u)+
  with g show "b64_group [int (v div 262144), int (v div 4096 mod 64), int (v div 64 mod 64), int (v mod 64)] = Inr [a, b, c]"
    by simp
qed

lemma and_low: "x AND 3 = x mod 4" "x AND 0xf = x mod 16" for x :: int
  using take_bit_eq_mask[of 2 x] take_bit_eq_mask[of 4 x] by (simp_all add: take_bit_eq_mod mask_eq_exp_minus_1)

lemma group2_digits:
  fixes a b :: u8
  defines "v \<equiv> unat a * 256 + unat b"
  shows "v div 1024 < 64" "b64_group [int (v div 1024), int (v div 16 mod 64), int (v mod 16 * 4), -2] = Inr [a, b]"
proof -
  have lt: "unat a < 256" "unat b < 256" by (rule unat_u8)+
  then show s0: "v div 1024 < 64" by (simp add: v_def)
  define d where "d s = (word_of_int (int s) :: u32)" for s
  have d: "unat (d s) = s" if "s < 64" for s
    using that by (simp add: d_def unat_of_nat)
  define w where "w = push_bit 10 (d (v div 1024)) OR push_bit 4 (d (v div 16 mod 64)) OR drop_bit 2 (d (v mod 16 * 4))"
  have 1: "unat (drop_bit 2 (d (v mod 16 * 4))) = v mod 16"
    by (simp add: unat_drop_div d)
  have 2: "unat (push_bit 4 (d (v div 16 mod 64)) OR drop_bit 2 (d (v mod 16 * 4))) = v div 16 mod 64 * 16 + v mod 16"
    by (subst unat_shift_or) (simp_all add: d 1)
  have "unat w = v div 1024 * 1024 + (v div 16 mod 64 * 16 + v mod 16)"
    unfolding w_def using s0 by (subst unat_shift_or) (simp_all add: d 2)
  also have "\<dots> = v"
  proof -
    have "v div 16 div 64 = v div 1024" by (simp add: div_mult2_eq[symmetric])
    then show ?thesis using div_mult_mod_eq[of v 16] div_mult_mod_eq[of "v div 16" 64] by linarith
  qed
  finally have u: "unat w = v" .
  have "int (v mod 16 * 4) AND 3 = 0"
    by (simp add: and_low)
  then have g: "b64_group [int (v div 1024), int (v div 16 mod 64), int (v mod 16 * 4), -2] =
      Inr [ucast (drop_bit 8 w), ucast (w AND 0xff)]"
    unfolding w_def d_def by (simp add: b64_group_def Let_def numeral_3_eq_3 numeral_2_eq_2)
  have "v div 256 = unat a" "v mod 256 = unat b"
    unfolding v_def by (rule byte_split[OF lt(2)])+
  then have "ucast (drop_bit 8 w) = a" "ucast (w AND 0xff) = b"
    using lt by (intro byte_of; simp add: and_ff unat_drop_div u)+
  with g show "b64_group [int (v div 1024), int (v div 16 mod 64), int (v mod 16 * 4), -2] = Inr [a, b]"
    by simp
qed

lemma group1_digits:
  fixes a :: u8
  shows "unat a div 4 < 64" "b64_group [int (unat a div 4), int (unat a mod 4 * 16), -2, -2] = Inr [a]"
proof -
  have lt: "unat a < 256" by (rule unat_u8)
  then show s0: "unat a div 4 < 64" by simp
  define d where "d s = (word_of_int (int s) :: u32)" for s
  have d: "unat (d s) = s" if "s < 64" for s
    using that by (simp add: d_def unat_of_nat)
  define w where "w = push_bit 2 (d (unat a div 4)) OR drop_bit 4 (d (unat a mod 4 * 16))"
  have 1: "unat (drop_bit 4 (d (unat a mod 4 * 16))) = unat a mod 4"
    by (simp add: unat_drop_div d)
  have "unat w = unat a"
    unfolding w_def using s0 by (subst unat_shift_or) (simp_all add: d 1)
  then have "ucast w = a" using lt by (intro byte_of) simp
  moreover have "int (unat a mod 4 * 16) AND 0xf = 0"
    by (simp add: and_low)
  then have "b64_group [int (unat a div 4), int (unat a mod 4 * 16), -2, -2] = Inr [ucast w]"
    unfolding w_def d_def by (simp add: b64_group_def Let_def numeral_3_eq_3 numeral_2_eq_2)
  ultimately show "b64_group [int (unat a div 4), int (unat a mod 4 * 16), -2, -2] = Inr [a]"
    by simp
qed

lemma digits_decode_4: "digits_decode (c0 # c1 # c2 # c3 # cs) =
    (case b64_group [c0, c1, c2, c3] of Inl e \<Rightarrow> Inl e
     | Inr bs \<Rightarrow> (case digits_decode cs of Inl e \<Rightarrow> Inl e | Inr ds \<Rightarrow> Inr (bs @ ds)))"
  by (simp split: sum.split)

declare digits_decode.simps(2) [simp del]

text \<open>The digits of an encoded text: four for every group of bytes, with equals signs at the end.\<close>

fun enc_digits :: "u8 list \<Rightarrow> int list" where
  "enc_digits (a # b # c # bs) =
     (let v = unat a * 65536 + unat b * 256 + unat c
      in int (v div 262144) # int (v div 4096 mod 64) # int (v div 64 mod 64) # int (v mod 64) # enc_digits bs)"
| "enc_digits [a] = [int (unat a div 4), int (unat a mod 4 * 16), -2, -2]"
| "enc_digits [a, b] = (let v = unat a * 256 + unat b in [int (v div 1024), int (v div 16 mod 64), int (v mod 16 * 4), -2])"
| "enc_digits [] = []"

lemma b64_groups_digits: "map b64index (b64_groups bs) = enc_digits bs"
proof (induction bs rule: b64_groups.induct)
  case (1 a b c bs)
  then show ?case
    using group3_digits(1)[of a b c] by (simp add: Let_def unat_drop_div and_3f unat_group3 b64index_encoding)
next
  case (2 a)
  have "unat (push_bit 4 (ucast a AND 3 :: u32)) = unat a mod 4 * 16"
    using unat_shift_or[of "0 :: u32" 4 "ucast a AND 3"] unat_and_mask[of "ucast a :: u32" 2] by (simp add: ucast_u32)
  then show ?case
    using group1_digits(1)[of a] by (simp add: Let_def unat_drop_div ucast_u32 b64index_encoding b64index_pad)
next
  case (3 a b)
  have "unat (push_bit 2 ((push_bit 8 (ucast a) OR ucast b) AND 0xf :: u32)) = (unat a * 256 + unat b) mod 16 * 4"
    using unat_shift_or[of "0 :: u32" 2 "(push_bit 8 (ucast a) OR ucast b) AND 0xf"]
      unat_and_mask[of "push_bit 8 (ucast a) OR ucast b :: u32" 4] by (simp add: unat_group2)
  then show ?case
    using group2_digits(1)[of a b] by (simp add: Let_def unat_drop_div and_3f unat_group2 b64index_encoding b64index_pad)
qed simp

lemma enc_digits_valid: "c \<in> set (enc_digits bs) \<Longrightarrow> c = -2 \<or> 0 \<le> c"
  by (induction bs rule: enc_digits.induct) (auto simp: Let_def)

lemma length_enc_digits: "length (enc_digits bs) = (length bs + 2) div 3 * 4"
proof (induction bs rule: enc_digits.induct)
  case (1 a b c bs)
  have "(5 + length bs) div 3 = Suc ((2 + length bs) div 3)" by simp
  with 1 show ?case by (simp add: Let_def)
qed (auto simp: Let_def)

lemma digits_decode_enc: "digits_decode (enc_digits bs) = Inr bs"
  by (induction bs rule: enc_digits.induct)
    (simp_all add: Let_def digits_decode_4 group3_digits group2_digits group1_digits del: of_nat_mult)

lemma digits_decode_stripped: "digits_decode (filter (\<lambda>c. c \<noteq> -2) (enc_digits bs)) = Inr bs"
proof (induction bs rule: enc_digits.induct)
  case (2 a)
  show ?case by (simp add: digits_decode.simps(2) group1_digits numeral_2_eq_2 del: of_nat_mult)
next
  case (3 a b)
  show ?case by (simp add: Let_def digits_decode.simps(2) group2_digits del: of_nat_mult)
qed (simp_all add: Let_def digits_decode_4 group3_digits)

lemma b64_groups_chars: "filter b64_char (b64_groups bs) = b64_groups bs"
proof -
  have "b64index c \<in> set (enc_digits bs)" if "c \<in> set (b64_groups bs)" for c
    using that by (metis b64_groups_digits image_eqI image_set)
  then show ?thesis
    using enc_digits_valid[of _ bs] by (fastforce simp: filter_id_conv b64_char_def)
qed

lemma b64index_eq_pad: "b64index c = -2 \<longleftrightarrow> c = 61"
proof
  have "list_all (\<lambda>i. decoding ! i = -2 \<longrightarrow> i = 18) [0..<length decoding]" by code_simp
  then have i: "decoding ! i = -2 \<Longrightarrow> i < length decoding \<Longrightarrow> i = 18" for i
    by (auto simp: list_all_iff)
  assume "b64index c = -2"
  then have "unat (c - 43) = 18"
    using i[of "unat (c - 43)"] by (auto simp: b64index_def split: if_splits)
  then have "c - 43 = 18" by (metis of_nat_numeral of_nat_unat ucast_id)
  then show "c = 61" by (simp add: diff_eq_eq)
qed (simp add: b64index_pad)

text \<open>Complete groups in front of a text.\<close>

lemma b64_read_prefix:
  "length xs = n \<Longrightarrow> (\<And>c. c \<in> set xs \<Longrightarrow> b64_char c) \<Longrightarrow> b64_read n (xs @ ts) = (map b64index xs, ts)"
  by (induction xs arbitrary: n) (auto simp: b64_char_def Let_def)

lemma b64_decode_prefix:
  assumes "b64_group (map b64index [x0, x1, x2, x3]) = Inr ys" "\<And>c. c \<in> {x0, x1, x2, x3} \<Longrightarrow> b64_char c"
  shows "b64_decode (x0 # x1 # x2 # x3 # ts) = (case b64_decode ts of Inl e \<Rightarrow> Inl e | Inr ds \<Rightarrow> Inr (ys @ ds))"
proof -
  have "b64_read 4 (x0 # x1 # x2 # x3 # ts) = (map b64index [x0, x1, x2, x3], ts)"
    using b64_read_prefix[of "[x0, x1, x2, x3]" 4 ts] assms(2) by simp
  then show ?thesis
    unfolding b64_decode.simps using assms(1) by simp
qed

declare b64_decode.simps(2) [simp del]

lemma b64_decode_groups:
  "b64_decode (b64_groups bs @ ts) = (case b64_decode ts of Inl e \<Rightarrow> Inl e | Inr ds \<Rightarrow> Inr (bs @ ds))"
proof (induction bs rule: b64_groups.induct)
  case (1 a b c bs)
  obtain x0 x1 x2 x3 where x: "b64_groups (a # b # c # bs) = x0 # x1 # x2 # x3 # b64_groups bs"
    by (simp add: Let_def)
  have "b64_group (map b64index [x0, x1, x2, x3]) = Inr [a, b, c]"
    using b64_groups_digits[of "a # b # c # bs"] group3_digits(2)[of a b c] unfolding x by (simp add: Let_def)
  moreover have "b64_char y" if "y \<in> {x0, x1, x2, x3}" for y
    using that b64_groups_chars[of "a # b # c # bs"] unfolding x filter_id_conv by auto
  ultimately show ?case
    unfolding x append_Cons by (subst b64_decode_prefix) (auto simp: 1 split: sum.split)
next
  case (2 a)
  obtain x0 x1 x2 x3 where x: "b64_groups [a] = [x0, x1, x2, x3]"
    by (simp add: Let_def)
  have "b64_group (map b64index [x0, x1, x2, x3]) = Inr [a]"
    using b64_groups_digits[of "[a]"] group1_digits(2)[of a] unfolding x by simp
  moreover have "b64_char y" if "y \<in> {x0, x1, x2, x3}" for y
    using that b64_groups_chars[of "[a]"] unfolding x filter_id_conv by auto
  ultimately show ?case
    unfolding x append_Cons by (subst b64_decode_prefix) (auto split: sum.split)
next
  case (3 a b)
  obtain x0 x1 x2 x3 where x: "b64_groups [a, b] = [x0, x1, x2, x3]"
    by (simp add: Let_def)
  have "b64_group (map b64index [x0, x1, x2, x3]) = Inr [a, b]"
    using b64_groups_digits[of "[a, b]"] group2_digits(2)[of a b] unfolding x by (simp add: Let_def)
  moreover have "b64_char y" if "y \<in> {x0, x1, x2, x3}" for y
    using that b64_groups_chars[of "[a, b]"] unfolding x filter_id_conv by auto
  ultimately show ?case
    unfolding x append_Cons by (subst b64_decode_prefix) (auto split: sum.split)
qed (simp split: sum.split)

text \<open>C35. Base64 decoding inverts encoding, and tolerates what the sources promise to tolerate: characters
  that are not base64 in between, and missing equals signs. The encoded text has four characters for
  every three bytes.\<close>

theorem base64_roundtrip:
  assumes "lb64encode bs = Some t" "filter b64_char ts = t \<or> filter b64_char ts = filter (\<lambda>c. c \<noteq> of_char (CHR ''='')) t"
    "ts = [] \<or> b64_char (last ts)" "int (length ts) + 3 \<le> INT_MAX"
  shows "lb64decode ts = Some (Inr bs) \<and> length t = (length bs + 2) div 3 * 4"
proof -
  have t: "t = b64_groups bs" using assms(1) by (simp add: lb64encode_def split: if_splits)
  have "map b64index (filter (\<lambda>c. c \<noteq> 61) t) = filter (\<lambda>c. c \<noteq> -2) (enc_digits bs)"
    unfolding t b64_groups_digits[symmetric] filter_map by (simp add: o_def b64index_eq_pad)
  then have "digits_decode (map b64index (filter b64_char ts)) = Inr bs"
    using assms(2) digits_decode_enc digits_decode_stripped by (auto simp: t b64_groups_digits)
  moreover have "length t = (length bs + 2) div 3 * 4"
    using b64_groups_digits[of bs] length_enc_digits[of bs] unfolding t by (metis length_map)
  ultimately show ?thesis
    using b64_decode_digits[OF assms(3)] assms(4) by (simp add: lb64decode_def)
qed

text \<open>Characters that are not base64 are skipped everywhere but at the end: a correct text followed by
  a line break, or by anything else that is not base64, is refused.\<close>

theorem base64_trailing:
  assumes "lb64encode bs = Some t" "junk \<noteq> []" "\<And>c. c \<in> set junk \<Longrightarrow> \<not> b64_char c" "int (length (t @ junk)) + 3 \<le> INT_MAX"
  shows "lb64decode (t @ junk) = Some (Inl ''Invalid base64 text'')"
proof -
  have f: "filter b64_char junk = []" using assms(3) by (simp add: filter_empty_conv)
  obtain j js where junk: "junk = j # js" using assms(2) by (cases junk) auto
  have "fst (b64_read 4 junk) = [-2, -2, -2, -2]"
    using b64_read_digits[of 4 junk] f by (simp add: numeral_eq_Suc)
  then have "b64_decode junk = Inl ''Invalid base64 text''"
    unfolding junk by (simp add: b64_decode.simps(2) b64_group_def)
  moreover have "t = b64_groups bs" using assms(1) by (simp add: lb64encode_def split: if_splits)
  ultimately show ?thesis
    using assms(4) by (simp add: lb64decode_def b64_decode_groups)
qed

lemma b64_read_consumes: "snd (b64_read n ts) = [] \<or> n + length (snd (b64_read n ts)) \<le> length ts"
  by (induction n ts rule: b64_read.induct) (auto simp: Let_def split_beta)

lemma b64_group_bound: "b64_group cs = Inr bs \<Longrightarrow> length bs \<le> 3"
  by (auto simp: b64_group_def Let_def split: if_splits)

text \<open>The decoder writes at most three bytes for every four characters, rounded up, which is the size of
  its buffer, whatever the text is.\<close>

theorem base64_decode_bound:
  assumes "lb64decode ts = Some (Inr bs)"
  shows "length bs \<le> (length ts + 3) div 4 * 3"
proof -
  have "length bs \<le> (length ts + 3) div 4 * 3" if "b64_decode ts = Inr bs" for bs
    using that
  proof (induction ts arbitrary: bs rule: b64_decode.induct)
    case (2 t ts)
    let ?r = "b64_read 4 (t # ts)"
    obtain g ds where g: "b64_group (fst ?r) = Inr g" "b64_decode (snd ?r) = Inr ds" "bs = g @ ds"
      using 2(2) by (auto simp: b64_decode.simps(2) simp del: b64_read.simps split: sum.splits)
    have "length ds \<le> (length (snd ?r) + 3) div 4 * 3" using 2(1)[OF g(1,2)] .
    have "length g \<le> 3" using b64_group_bound[OF g(1)] .
    consider "snd ?r = []" | "4 + length (snd ?r) \<le> length (t # ts)"
      using b64_read_consumes[of 4 "t # ts"] by blast
    then show ?case
    proof cases
      case 1
      with g(2) have "ds = []" by simp
      moreover have "1 \<le> (length (t # ts) + 3) div 4" by simp
      ultimately show ?thesis using g(3) \<open>length g \<le> 3\<close> by simp
    next
      case 2
      then have "(length (snd ?r) + 3 + 4) div 4 \<le> (length (t # ts) + 3) div 4" by (intro div_le_mono) simp
      then have "(length (snd ?r) + 3) div 4 + 1 \<le> (length (t # ts) + 3) div 4" by (simp only: div_add_self2)
      then show ?thesis
        using \<open>length g \<le> 3\<close> \<open>length ds \<le> (length (snd ?r) + 3) div 4 * 3\<close> unfolding g(3) length_append by linarith
    qed
  qed simp
  then show ?thesis using assms by (simp add: lb64decode_def split: if_splits)
qed

section \<open>Exclusive or\<close>

text \<open>Applying a mask twice gives the string back.\<close>

lemma xor_str_involution:
  assumes "s2 \<noteq> []" "length s1 < 2 ^ 31"
  shows "\<exists>s. lxor_str s1 s2 = Some (Inr s) \<and> lxor_str s s2 = Some (Inr s1)"
  using assms by (auto simp: lxor_str_def xor.assoc intro!: nth_equalityI)

text \<open>A random key is never zero.\<close>

lemma randomkey_nonzero:
  assumes "length rs = 8"
  shows "length (lrandomkey rs) = 8" "\<exists>b \<in> set (lrandomkey rs). b \<noteq> 0"
proof -
  define tmp where "tmp = map (\<lambda>r. ucast (r AND 0xff) :: u8) rs"
  have l: "length tmp = 8" using assms by (simp add: tmp_def)
  have k: "lrandomkey rs = (if foldl (XOR) 0 tmp = 0 then tmp[0 := tmp ! 0 OR 1] else tmp)"
    by (simp add: lrandomkey_def tmp_def Let_def)
  show "length (lrandomkey rs) = 8" using l by (simp add: k)
  have z: "foldl (XOR) 0 ts = 0" if "\<And>b. b \<in> set ts \<Longrightarrow> b = 0" for ts :: "u8 list"
    using that by (induction ts rule: rev_induct) auto
  show "\<exists>b \<in> set (lrandomkey rs). b \<noteq> 0"
  proof (cases "foldl (XOR) 0 tmp = 0")
    case True
    have "tmp ! 0 OR 1 \<noteq> 0"
      by (metis bit_0_eq bit_1_0 bit_or_iff bot_apply bot_bool_def)
    moreover have "tmp ! 0 OR 1 \<in> set (tmp[0 := tmp ! 0 OR 1])"
      using l by (intro set_update_memI) simp
    ultimately show ?thesis unfolding k using True by auto
  next
    case False
    then show ?thesis unfolding k using z by auto
  qed
qed

text \<open>The text \<open>Tt8=\<close> with a line break inside and without its equals sign; the same text with a line break at
  its end.\<close>

theorem base64_roundtrip_witness: "lb64decode [84, 116, 10, 56] = Some (Inr [78, 223])"
proof -
  have e: "lb64encode [78, 223] = Some [84, 116, 56, 61]" by code_simp
  have f: "filter b64_char [84, 116, 10, 56] = filter (\<lambda>c. c \<noteq> of_char (CHR ''='')) [84, 116, 56, 61]"
    by code_simp
  have "b64_char (last [84, 116, 10, 56])" by code_simp
  then show ?thesis
    using base64_roundtrip[OF e disjI2[OF f]] by (simp add: INT_MAX_def)
qed

theorem base64_trailing_witness: "lb64decode [84, 116, 56, 61, 10] = Some (Inl ''Invalid base64 text'')"
proof -
  have e: "lb64encode [78, 223] = Some [84, 116, 56, 61]" by code_simp
  have "\<not> b64_char 10" by code_simp
  then show ?thesis
    using base64_trailing[OF e, of "[10]"] by (simp add: INT_MAX_def)
qed

theorem base64_decode_bound_witness: "length [78, 223 :: u8] \<le> (length [84, 116, 10, 56 :: u8] + 3) div 4 * 3"
proof -
  have "lb64decode [84, 116, 10, 56] = Some (Inr [78, 223])" by code_simp
  then show ?thesis by (rule base64_decode_bound)
qed

end
