(* ===== verification/Des.thy ===== *)
theory Des
  imports Codec Framing
begin

text \<open>
  The DES cipher of \<open>lualib-src/lua-crypt.c\<close>: the tables, the key schedule, the encryption of a block as a
  Feistel network, the two padding modes, and the functions that encode and decode a string.
\<close>

section \<open>Tables\<close>

text \<open>The eight substitution boxes and the tables of the first key permutation.\<close>

definition SB1 :: "u32 list" where
  "SB1 = [
     0x1010400, 0x0, 0x10000, 0x1010404, 0x1010004, 0x10404, 0x4, 0x10000,
     0x400, 0x1010400, 0x1010404, 0x400, 0x1000404, 0x1010004, 0x1000000, 0x4,
     0x404, 0x1000400, 0x1000400, 0x10400, 0x10400, 0x1010000, 0x1010000, 0x1000404,
     0x10004, 0x1000004, 0x1000004, 0x10004, 0x0, 0x404, 0x10404, 0x1000000,
     0x10000, 0x1010404, 0x4, 0x1010000, 0x1010400, 0x1000000, 0x1000000, 0x400,
     0x1010004, 0x10000, 0x10400, 0x1000004, 0x400, 0x4, 0x1000404, 0x10404,
     0x1010404, 0x10004, 0x1010000, 0x1000404, 0x1000004, 0x404, 0x10404, 0x1010400,
     0x404, 0x1000400, 0x1000400, 0x0, 0x10004, 0x10400, 0x0, 0x1010004]"

definition SB2 :: "u32 list" where
  "SB2 = [
     0x80108020, 0x80008000, 0x8000, 0x108020, 0x100000, 0x20, 0x80100020, 0x80008020,
     0x80000020, 0x80108020, 0x80108000, 0x80000000, 0x80008000, 0x100000, 0x20, 0x80100020,
     0x108000, 0x100020, 0x80008020, 0x0, 0x80000000, 0x8000, 0x108020, 0x80100000,
     0x100020, 0x80000020, 0x0, 0x108000, 0x8020, 0x80108000, 0x80100000, 0x8020,
     0x0, 0x108020, 0x80100020, 0x100000, 0x80008020, 0x80100000, 0x80108000, 0x8000,
     0x80100000, 0x80008000, 0x20, 0x80108020, 0x108020, 0x20, 0x8000, 0x80000000,
     0x8020, 0x80108000, 0x100000, 0x80000020, 0x100020, 0x80008020, 0x80000020, 0x100020,
     0x108000, 0x0, 0x80008000, 0x8020, 0x80000000, 0x80100020, 0x80108020, 0x108000]"

definition SB3 :: "u32 list" where
  "SB3 = [
     0x208, 0x8020200, 0x0, 0x8020008, 0x8000200, 0x0, 0x20208, 0x8000200,
     0x20008, 0x8000008, 0x8000008, 0x20000, 0x8020208, 0x20008, 0x8020000, 0x208,
     0x8000000, 0x8, 0x8020200, 0x200, 0x20200, 0x8020000, 0x8020008, 0x20208,
     0x8000208, 0x20200, 0x20000, 0x8000208, 0x8, 0x8020208, 0x200, 0x8000000,
     0x8020200, 0x8000000, 0x20008, 0x208, 0x20000, 0x8020200, 0x8000200, 0x0,
     0x200, 0x20008, 0x8020208, 0x8000200, 0x8000008, 0x200, 0x0, 0x8020008,
     0x8000208, 0x20000, 0x8000000, 0x8020208, 0x8, 0x20208, 0x20200, 0x8000008,
     0x8020000, 0x8000208, 0x208, 0x8020000, 0x20208, 0x8, 0x8020008, 0x20200]"

definition SB4 :: "u32 list" where
  "SB4 = [
     0x802001, 0x2081, 0x2081, 0x80, 0x802080, 0x800081, 0x800001, 0x2001,
     0x0, 0x802000, 0x802000, 0x802081, 0x81, 0x0, 0x800080, 0x800001,
     0x1, 0x2000, 0x800000, 0x802001, 0x80, 0x800000, 0x2001, 0x2080,
     0x800081, 0x1, 0x2080, 0x800080, 0x2000, 0x802080, 0x802081, 0x81,
     0x800080, 0x800001, 0x802000, 0x802081, 0x81, 0x0, 0x0, 0x802000,
     0x2080, 0x800080, 0x800081, 0x1, 0x802001, 0x2081, 0x2081, 0x80,
     0x802081, 0x81, 0x1, 0x2000, 0x800001, 0x2001, 0x802080, 0x800081,
     0x2001, 0x2080, 0x800000, 0x802001, 0x80, 0x800000, 0x2000, 0x802080]"

definition SB5 :: "u32 list" where
  "SB5 = [
     0x100, 0x2080100, 0x2080000, 0x42000100, 0x80000, 0x100, 0x40000000, 0x2080000,
     0x40080100, 0x80000, 0x2000100, 0x40080100, 0x42000100, 0x42080000, 0x80100, 0x40000000,
     0x2000000, 0x40080000, 0x40080000, 0x0, 0x40000100, 0x42080100, 0x42080100, 0x2000100,
     0x42080000, 0x40000100, 0x0, 0x42000000, 0x2080100, 0x2000000, 0x42000000, 0x80100,
     0x80000, 0x42000100, 0x100, 0x2000000, 0x40000000, 0x2080000, 0x42000100, 0x40080100,
     0x2000100, 0x40000000, 0x42080000, 0x2080100, 0x40080100, 0x100, 0x2000000, 0x42080000,
     0x42080100, 0x80100, 0x42000000, 0x42080100, 0x2080000, 0x0, 0x40080000, 0x42000000,
     0x80100, 0x2000100, 0x40000100, 0x80000, 0x0, 0x40080000, 0x2080100, 0x40000100]"

definition SB6 :: "u32 list" where
  "SB6 = [
     0x20000010, 0x20400000, 0x4000, 0x20404010, 0x20400000, 0x10, 0x20404010, 0x400000,
     0x20004000, 0x404010, 0x400000, 0x20000010, 0x400010, 0x20004000, 0x20000000, 0x4010,
     0x0, 0x400010, 0x20004010, 0x4000, 0x404000, 0x20004010, 0x10, 0x20400010,
     0x20400010, 0x0, 0x404010, 0x20404000, 0x4010, 0x404000, 0x20404000, 0x20000000,
     0x20004000, 0x10, 0x20400010, 0x404000, 0x20404010, 0x400000, 0x4010, 0x20000010,
     0x400000, 0x20004000, 0x20000000, 0x4010, 0x20000010, 0x20404010, 0x404000, 0x20400000,
     0x404010, 0x20404000, 0x0, 0x20400010, 0x10, 0x4000, 0x20400000, 0x404010,
     0x4000, 0x400010, 0x20004010, 0x0, 0x20404000, 0x20000000, 0x400010, 0x20004010]"

definition SB7 :: "u32 list" where
  "SB7 = [
     0x200000, 0x4200002, 0x4000802, 0x0, 0x800, 0x4000802, 0x200802, 0x4200800,
     0x4200802, 0x200000, 0x0, 0x4000002, 0x2, 0x4000000, 0x4200002, 0x802,
     0x4000800, 0x200802, 0x200002, 0x4000800, 0x4000002, 0x4200000, 0x4200800, 0x200002,
     0x4200000, 0x800, 0x802, 0x4200802, 0x200800, 0x2, 0x4000000, 0x200800,
     0x4000000, 0x200800, 0x200000, 0x4000802, 0x4000802, 0x4200002, 0x4200002, 0x2,
     0x200002, 0x4000000, 0x4000800, 0x200000, 0x4200800, 0x802, 0x200802, 0x4200800,
     0x802, 0x4000002, 0x4200802, 0x4200000, 0x200800, 0x0, 0x2, 0x4200802,
     0x0, 0x200802, 0x4200000, 0x800, 0x4000002, 0x4000800, 0x800, 0x200002]"

definition SB8 :: "u32 list" where
  "SB8 = [
     0x10001040, 0x1000, 0x40000, 0x10041040, 0x10000000, 0x10001040, 0x40, 0x10000000,
     0x40040, 0x10040000, 0x10041040, 0x41000, 0x10041000, 0x41040, 0x1000, 0x40,
     0x10040000, 0x10000040, 0x10001000, 0x1040, 0x41000, 0x40040, 0x10040040, 0x10041000,
     0x1040, 0x0, 0x0, 0x10040040, 0x10000040, 0x10001000, 0x41040, 0x40000,
     0x41040, 0x40000, 0x10041000, 0x1000, 0x40, 0x10040040, 0x1000, 0x41040,
     0x10001000, 0x40, 0x10000040, 0x10040000, 0x10040040, 0x10000000, 0x40000, 0x10001040,
     0x0, 0x10041040, 0x40040, 0x10000040, 0x10040000, 0x10001000, 0x10001040, 0x0,
     0x10041040, 0x41000, 0x41000, 0x1040, 0x1040, 0x40040, 0x10000000, 0x10041000]"

definition LHs :: "u32 list" where
  "LHs = [
     0x0, 0x1, 0x100, 0x101, 0x10000, 0x10001, 0x10100, 0x10101,
     0x1000000, 0x1000001, 0x1000100, 0x1000101, 0x1010000, 0x1010001, 0x1010100, 0x1010101]"

definition RHs :: "u32 list" where
  "RHs = [
     0x0, 0x1000000, 0x10000, 0x1010000, 0x100, 0x1000100, 0x10100, 0x1010100,
     0x1, 0x1000001, 0x10001, 0x1010001, 0x101, 0x1000101, 0x10101, 0x1010101]"

section \<open>Words and bytes\<close>

definition GET_UINT32 :: "u8 list \<Rightarrow> nat \<Rightarrow> u32" where
  "GET_UINT32 b i = push_bit 24 (ucast (b ! i)) OR push_bit 16 (ucast (b ! (i + 1))) OR
     push_bit 8 (ucast (b ! (i + 2))) OR ucast (b ! (i + 3))"

definition PUT_UINT32 :: "u32 \<Rightarrow> u8 list" where
  "PUT_UINT32 n = [ucast (drop_bit 24 n), ucast (drop_bit 16 n), ucast (drop_bit 8 n), ucast n]"

section \<open>Permutations\<close>

text \<open>One line of the permutation macros: it exchanges the bits of \<open>X\<close> and \<open>Y\<close> that lie \<open>k\<close> apart.\<close>

definition bit_swap :: "nat \<Rightarrow> u32 \<Rightarrow> u32 \<Rightarrow> u32 \<Rightarrow> u32 \<times> u32" where
  "bit_swap k m X Y = (let T = (drop_bit k X XOR Y) AND m in (X XOR push_bit k T, Y XOR T))"

definition DES_IP :: "u32 \<Rightarrow> u32 \<Rightarrow> u32 \<times> u32" where
  "DES_IP X Y =
     (let (X, Y) = bit_swap 4 0x0f0f0f0f X Y;
          (X, Y) = bit_swap 16 0x0000ffff X Y;
          (Y, X) = bit_swap 2 0x33333333 Y X;
          (Y, X) = bit_swap 8 0x00ff00ff Y X;
          Y = (push_bit 1 Y OR drop_bit 31 Y) AND 0xffffffff;
          (X, Y) = bit_swap 0 0xaaaaaaaa X Y;
          X = (push_bit 1 X OR drop_bit 31 X) AND 0xffffffff
      in (X, Y))"

definition DES_FP :: "u32 \<Rightarrow> u32 \<Rightarrow> u32 \<times> u32" where
  "DES_FP X Y =
     (let X = (push_bit 31 X OR drop_bit 1 X) AND 0xffffffff;
          (X, Y) = bit_swap 0 0xaaaaaaaa X Y;
          Y = (push_bit 31 Y OR drop_bit 1 Y) AND 0xffffffff;
          (Y, X) = bit_swap 8 0x00ff00ff Y X;
          (Y, X) = bit_swap 2 0x33333333 Y X;
          (X, Y) = bit_swap 16 0x0000ffff X Y;
          (X, Y) = bit_swap 4 0x0f0f0f0f X Y
      in (X, Y))"

section \<open>Rounds\<close>

definition sbox :: "u32 list \<Rightarrow> u32 \<Rightarrow> u32" where
  "sbox SB T = SB ! unat (T AND 0x3f)"

text \<open>The new value of \<open>Y\<close> in \<open>DES_ROUND(X,Y)\<close>; \<open>k1\<close> and \<open>k2\<close> are the two words of the key.\<close>

definition DES_ROUND :: "u32 \<Rightarrow> u32 \<Rightarrow> u32 \<Rightarrow> u32 \<Rightarrow> u32" where
  "DES_ROUND k1 k2 X Y =
     (let T = k1 XOR X;
          Y = Y XOR (sbox SB8 T XOR sbox SB6 (drop_bit 8 T) XOR sbox SB4 (drop_bit 16 T) XOR sbox SB2 (drop_bit 24 T));
          T = k2 XOR (push_bit 28 X OR drop_bit 4 X)
      in Y XOR (sbox SB7 T XOR sbox SB5 (drop_bit 8 T) XOR sbox SB3 (drop_bit 16 T) XOR sbox SB1 (drop_bit 24 T)))"

text \<open>Two rounds take four words of the key.\<close>

fun des_rounds :: "u32 list \<Rightarrow> u32 \<Rightarrow> u32 \<Rightarrow> u32 \<times> u32" where
  "des_rounds (k1 # k2 # k3 # k4 # SK) X Y =
     (let X = DES_ROUND k1 k2 Y X; Y = DES_ROUND k3 k4 X Y in des_rounds SK X Y)"
| "des_rounds _ X Y = (X, Y)"

definition des_crypt :: "u32 list \<Rightarrow> u8 list \<Rightarrow> u8 list" where
  "des_crypt SK input =
     (let X = GET_UINT32 input 0;
          Y = GET_UINT32 input 4;
          (X, Y) = DES_IP X Y;
          (X, Y) = des_rounds SK X Y;
          (Y, X) = DES_FP Y X
      in PUT_UINT32 Y @ PUT_UINT32 X)"

section \<open>Key schedule\<close>

definition ks_rotate :: "nat \<Rightarrow> u32 \<Rightarrow> u32" where
  "ks_rotate i X =
     (if i < 2 \<or> i = 8 \<or> i = 15 then (push_bit 1 X OR drop_bit 27 X) AND 0x0fffffff
      else (push_bit 2 X OR drop_bit 26 X) AND 0x0fffffff)"

definition ks_words :: "u32 \<Rightarrow> u32 \<Rightarrow> u32 list" where
  "ks_words X Y = [
      (push_bit 4 X AND 0x24000000) OR (push_bit 28 X AND 0x10000000) OR
      (push_bit 14 X AND 0x8000000) OR (push_bit 18 X AND 0x2080000) OR
      (push_bit 6 X AND 0x1000000) OR (push_bit 9 X AND 0x200000) OR
      (drop_bit 1 X AND 0x100000) OR (push_bit 10 X AND 0x40000) OR
      (push_bit 2 X AND 0x20000) OR (drop_bit 10 X AND 0x10000) OR
      (drop_bit 13 Y AND 0x2000) OR (drop_bit 4 Y AND 0x1000) OR
      (push_bit 6 Y AND 0x800) OR (drop_bit 1 Y AND 0x400) OR
      (drop_bit 14 Y AND 0x200) OR (Y AND 0x100) OR
      (drop_bit 5 Y AND 0x20) OR (drop_bit 10 Y AND 0x10) OR
      (drop_bit 3 Y AND 0x8) OR (drop_bit 18 Y AND 0x4) OR
      (drop_bit 26 Y AND 0x2) OR (drop_bit 24 Y AND 0x1),
      (push_bit 15 X AND 0x20000000) OR (push_bit 17 X AND 0x10000000) OR
      (push_bit 10 X AND 0x8000000) OR (push_bit 22 X AND 0x4000000) OR
      (drop_bit 2 X AND 0x2000000) OR (push_bit 1 X AND 0x1000000) OR
      (push_bit 16 X AND 0x200000) OR (push_bit 11 X AND 0x100000) OR
      (push_bit 3 X AND 0x80000) OR (drop_bit 6 X AND 0x40000) OR
      (push_bit 15 X AND 0x20000) OR (drop_bit 4 X AND 0x10000) OR
      (drop_bit 2 Y AND 0x2000) OR (push_bit 8 Y AND 0x1000) OR
      (drop_bit 14 Y AND 0x808) OR (drop_bit 9 Y AND 0x400) OR
      (Y AND 0x200) OR (push_bit 7 Y AND 0x100) OR
      (drop_bit 7 Y AND 0x20) OR (drop_bit 3 Y AND 0x11) OR
      (push_bit 2 Y AND 0x4) OR (drop_bit 21 Y AND 0x2)]"

fun ks_loop :: "nat list \<Rightarrow> u32 \<Rightarrow> u32 \<Rightarrow> u32 list" where
  "ks_loop [] X Y = []"
| "ks_loop (i # is) X Y = (let X = ks_rotate i X; Y = ks_rotate i Y in ks_words X Y @ ks_loop is X Y)"

definition nib :: "u32 list \<Rightarrow> u32 \<Rightarrow> nat \<Rightarrow> nat \<Rightarrow> u32" where
  "nib tab X k s = push_bit s (tab ! unat (drop_bit k X AND 0xf))"

definition des_main_ks :: "u8 list \<Rightarrow> u32 list" where
  "des_main_ks key =
     (let X = GET_UINT32 key 0;
          Y = GET_UINT32 key 4;
          (Y, X) = bit_swap 4 0x0f0f0f0f Y X;
          (Y, X) = bit_swap 0 0x10101010 Y X;
          X = nib LHs X 0 3 OR nib LHs X 8 2 OR nib LHs X 16 1 OR nib LHs X 24 0 OR
              nib LHs X 5 7 OR nib LHs X 13 6 OR nib LHs X 21 5 OR nib LHs X 29 4;
          Y = nib RHs Y 1 3 OR nib RHs Y 9 2 OR nib RHs Y 17 1 OR nib RHs Y 25 0 OR
              nib RHs Y 4 7 OR nib RHs Y 12 6 OR nib RHs Y 20 5 OR nib RHs Y 28 4;
          X = X AND 0x0fffffff;
          Y = Y AND 0x0fffffff
      in ks_loop [0..<16] X Y)"

section \<open>Padding\<close>

definition padding_add_iso7816_4 :: "u8 list \<Rightarrow> u8 list" where
  "padding_add_iso7816_4 src = src @ [0x80] @ replicate (7 - length src) 0"

text \<open>The loop that looks for the mark, from the last byte to the front: \<open>back\<close> are the bytes in this order.\<close>

fun iso_loop :: "nat \<Rightarrow> int \<Rightarrow> u8 list \<Rightarrow> int option" where
  "iso_loop 0 padding back = Some 0"
| "iso_loop (Suc i) padding [] = None"
| "iso_loop (Suc i) padding (b # back) =
     (if b = 0 then iso_loop i (padding + 1) back
      else if b = 0x80 then Some padding
      else Some 0)"

definition padding_remove_iso7816_4 :: "u8 list \<Rightarrow> int option" where
  "padding_remove_iso7816_4 back = iso_loop 8 1 back"

definition padding_add_pkcs7 :: "u8 list \<Rightarrow> u8 list" where
  "padding_add_pkcs7 src = src @ replicate (8 - length src) (of_nat (8 - length src))"

text \<open>\<open>n\<close> bytes are still to be compared; a read in front of the buffer has no meaning.\<close>

fun pkcs7_loop :: "nat \<Rightarrow> u8 \<Rightarrow> u8 list \<Rightarrow> int option" where
  "pkcs7_loop 0 padding back = Some (uint padding)"
| "pkcs7_loop (Suc n) padding [] = None"
| "pkcs7_loop (Suc n) padding (b # back) = (if b \<noteq> padding then Some 0 else pkcs7_loop n padding back)"

definition padding_remove_pkcs7 :: "u8 list \<Rightarrow> int option" where
  "padding_remove_pkcs7 back =
     (case back of [] \<Rightarrow> None | padding # back \<Rightarrow> pkcs7_loop (unat padding - 1) padding back)"

definition PADDING_MODE_ISO7816_4 :: int where "PADDING_MODE_ISO7816_4 = 0"
definition PADDING_MODE_PKCS7 :: int where "PADDING_MODE_PKCS7 = 1"
definition PADDING_MODE_COUNT :: int where "PADDING_MODE_COUNT = 2"

definition check_padding_mode :: "int \<Rightarrow> string option" where
  "check_padding_mode mode =
     (if mode < 0 \<or> mode \<ge> PADDING_MODE_COUNT then Some (''Invalid padding mode '' @ fmt_d mode) else None)"

definition add_padding :: "u8 list \<Rightarrow> int \<Rightarrow> string + u8 list" where
  "add_padding src mode =
     (case check_padding_mode mode of
        Some e \<Rightarrow> Inl e
      | None \<Rightarrow>
          if length src \<ge> 8 then Inl ''Invalid padding''
          else Inr (if mode = PADDING_MODE_ISO7816_4 then padding_add_iso7816_4 src else padding_add_pkcs7 src))"

definition remove_padding :: "u8 list \<Rightarrow> int \<Rightarrow> int lua" where
  "remove_padding back mode =
     (case check_padding_mode mode of
        Some e \<Rightarrow> luaL_error e
      | None \<Rightarrow>
          map_option Inr (if mode = PADDING_MODE_ISO7816_4 then padding_remove_iso7816_4 back else padding_remove_pkcs7 back))"

section \<open>Strings\<close>

definition des_key :: "u8 list \<Rightarrow> string + u32 list" where
  "des_key key =
     (if length key \<noteq> 8 then Inl (''Invalid key size '' @ fmt_d (wrap_int (int (length key))) @ '', need 8 bytes'')
      else Inr (des_main_ks key))"

text \<open>The loop over the blocks of eight bytes; the bytes behind the last whole block are returned too.\<close>

fun des_blocks :: "u32 list \<Rightarrow> u8 list \<Rightarrow> u8 list \<times> u8 list" where
  "des_blocks SK (a # b # c # d # e # f # g # h # text) =
     (let (out, rest) = des_blocks SK text in (des_crypt SK [a, b, c, d, e, f, g, h] @ out, rest))"
| "des_blocks SK text = ([], text)"

definition ldesencode :: "u8 list \<Rightarrow> u8 list \<Rightarrow> int \<Rightarrow> u8 list lua" where
  "ldesencode key text padding_mode =
     (case des_key key of
        Inl e \<Rightarrow> luaL_error e
      | Inr SK \<Rightarrow>
          if int (length text) > INT_MAX then None
          else
            let (buffer, rest) = des_blocks SK text in
            (case add_padding rest padding_mode of
               Inl e \<Rightarrow> luaL_error e
             | Inr tail \<Rightarrow> Some (Inr (buffer @ des_crypt SK tail))))"

text \<open>The key words in reverse order, two by two.\<close>

definition reverse_keys :: "u32 list \<Rightarrow> u32 list" where
  "reverse_keys ESK = concat (map (\<lambda>j. [ESK ! (30 - 2 * j), ESK ! (31 - 2 * j)]) [0..<16])"

definition ldesdecode :: "u8 list \<Rightarrow> u8 list \<Rightarrow> int \<Rightarrow> u8 list lua" where
  "ldesdecode key text padding_mode =
     (case des_key key of
        Inl e \<Rightarrow> luaL_error e
      | Inr ESK \<Rightarrow>
          if length text mod 8 \<noteq> 0 \<or> length text = 0
          then luaL_error (''Invalid des crypt text length '' @ fmt_d (wrap_int (int (length text))))
          else if int (length text) > INT_MAX then None
          else
            let buffer = fst (des_blocks (reverse_keys ESK) text) in
            (case remove_padding (rev buffer) padding_mode of
               None \<Rightarrow> None
             | Some (Inl e) \<Rightarrow> luaL_error e
             | Some (Inr padding) \<Rightarrow>
                 if padding \<le> 0 \<or> padding > 8 then luaL_error ''Invalid des crypt text''
                 else Some (Inr (take (length text - nat padding) buffer))))"

section \<open>The permutations are inverse\<close>

lemma bit_shift:
  fixes X :: u32
  shows "bit (push_bit m X) n \<longleftrightarrow> m \<le> n \<and> n < 32 \<and> bit X (n - m)" "bit (drop_bit m X) n \<longleftrightarrow> bit X (m + n)"
  by (auto simp: bit_push_bit_iff bit_drop_bit_eq)

lemma bit_u32: "bit (X :: u32) n \<Longrightarrow> n < 32"
  using bit_imp_le_length[of X n] by simp

lemma push_drop:
  fixes A m :: u32
  assumes "drop_bit k (push_bit k m) = m"
  shows "drop_bit k (push_bit k (A AND m)) = A AND m"
proof (rule bit_eqI)
  fix n
  have "bit m n \<Longrightarrow> k + n < 32"
    using assms bit_shift[of k m "k + n"] bit_shift(2)[of k "push_bit k m" n] by metis
  then show "bit (drop_bit k (push_bit k (A AND m))) n \<longleftrightarrow> bit (A AND m) n"
    unfolding bit_shift bit_and_iff by auto
qed

lemma bit_swap_involution:
  assumes "drop_bit k (push_bit k m) = m" "bit_swap k m X Y = (X', Y')"
  shows "bit_swap k m X' Y' = (X, Y)"
proof -
  define T where "T = (drop_bit k X XOR Y) AND m"
  have e: "X' = X XOR push_bit k T" "Y' = Y XOR T"
    using assms(2) by (simp_all add: bit_swap_def T_def Let_def)
  have "drop_bit k (push_bit k T) = T" unfolding T_def by (rule push_drop[OF assms(1)])
  then have "drop_bit k X' XOR Y' = drop_bit k X XOR Y"
    unfolding e by (simp add: drop_bit_xor xor.assoc xor.left_commute xor.commute)
  then show ?thesis
    by (simp add: bit_swap_def T_def[symmetric]) (simp add: e xor.assoc)
qed

lemma rot_inverse:
  fixes X :: u32
  shows "push_bit 31 (push_bit 1 X OR drop_bit 31 X) OR drop_bit 1 (push_bit 1 X OR drop_bit 31 X) = X"
    "push_bit 1 (push_bit 31 X OR drop_bit 1 X) OR drop_bit 31 (push_bit 31 X OR drop_bit 1 X) = X"
proof -
  have hi: "\<not> bit X (31 + (1 + n))" "\<not> bit X (1 + (31 + n))" for n
    using bit_u32[of X "31 + (1 + n)"] bit_u32[of X "1 + (31 + n)"] by auto
  show "push_bit 31 (push_bit 1 X OR drop_bit 31 X) OR drop_bit 1 (push_bit 1 X OR drop_bit 31 X) = X"
  proof (rule bit_eqI)
    fix n assume "possible_bit TYPE(32 word) n"
    then have "n < 31 \<or> n = 31" by auto
    then show "bit (push_bit 31 (push_bit 1 X OR drop_bit 31 X) OR drop_bit 1 (push_bit 1 X OR drop_bit 31 X)) n = bit X n"
      unfolding bit_or_iff bit_shift using hi by auto
  qed
  show "push_bit 1 (push_bit 31 X OR drop_bit 1 X) OR drop_bit 31 (push_bit 31 X OR drop_bit 1 X) = X"
  proof (rule bit_eqI)
    fix n assume "possible_bit TYPE(32 word) n"
    then have "n = 0 \<or> 1 \<le> n \<and> n < 32" by auto
    then show "bit (push_bit 1 (push_bit 31 X OR drop_bit 1 X) OR drop_bit 31 (push_bit 31 X OR drop_bit 1 X)) n = bit X n"
      unfolding bit_or_iff bit_shift using hi by auto
  qed
qed

lemma all_ones: "X AND 0xffffffff = X" for X :: u32
proof -
  have "(0xffffffff :: u32) = -1" by simp
  then show ?thesis by (simp only: and.right_neutral)
qed

lemmas swap_back =
  bit_swap_involution[of 4 "0x0f0f0f0f", simplified] bit_swap_involution[of 16 "0x0000ffff", simplified]
  bit_swap_involution[of 2 "0x33333333", simplified] bit_swap_involution[of 8 "0x00ff00ff", simplified]
  bit_swap_involution[of 0 "0xaaaaaaaa", simplified]

lemma DES_FP_IP:
  assumes "DES_IP X Y = (A, B)"
  shows "DES_FP A B = (X, Y)"
proof -
  obtain X1 Y1 where 1: "bit_swap 4 0x0f0f0f0f X Y = (X1, Y1)" by fastforce
  obtain X2 Y2 where 2: "bit_swap 16 0x0000ffff X1 Y1 = (X2, Y2)" by fastforce
  obtain X3 Y3 where 3: "bit_swap 2 0x33333333 Y2 X2 = (Y3, X3)" by fastforce
  obtain X4 Y4 where 4: "bit_swap 8 0x00ff00ff Y3 X3 = (Y4, X4)" by fastforce
  obtain X5 Y5 where 5: "bit_swap 0 0xaaaaaaaa X4 (push_bit 1 Y4 OR drop_bit 31 Y4) = (X5, Y5)" by fastforce
  have "A = push_bit 1 X5 OR drop_bit 31 X5" "B = Y5"
    using assms unfolding DES_IP_def all_ones Let_def 1 2 3 4 5 prod.case by auto
  then show ?thesis
    unfolding DES_FP_def all_ones Let_def
    using swap_back(1)[OF 1] swap_back(2)[OF 2] swap_back(3)[OF 3] swap_back(4)[OF 4] swap_back(5)[OF 5]
    by (simp only: rot_inverse prod.case)
qed

lemma DES_IP_FP:
  assumes "DES_FP X Y = (A, B)"
  shows "DES_IP A B = (X, Y)"
proof -
  obtain X1 Y1 where 1: "bit_swap 0 0xaaaaaaaa (push_bit 31 X OR drop_bit 1 X) Y = (X1, Y1)" by fastforce
  obtain X2 Y2 where 2: "bit_swap 8 0x00ff00ff (push_bit 31 Y1 OR drop_bit 1 Y1) X1 = (Y2, X2)" by fastforce
  obtain X3 Y3 where 3: "bit_swap 2 0x33333333 Y2 X2 = (Y3, X3)" by fastforce
  obtain X4 Y4 where 4: "bit_swap 16 0x0000ffff X3 Y3 = (X4, Y4)" by fastforce
  obtain X5 Y5 where 5: "bit_swap 4 0x0f0f0f0f X4 Y4 = (X5, Y5)" by fastforce
  have "A = X5" "B = Y5"
    using assms unfolding DES_FP_def all_ones Let_def 1 2 3 4 5 prod.case by auto
  then show ?thesis
    unfolding DES_IP_def all_ones Let_def
    using swap_back(5)[OF 1] swap_back(4)[OF 2] swap_back(3)[OF 3] swap_back(2)[OF 4] swap_back(1)[OF 5]
    by (simp only: rot_inverse prod.case)
qed

section \<open>The network is its own inverse\<close>

lemma DES_ROUND_twice: "DES_ROUND k1 k2 X (DES_ROUND k1 k2 X Y) = Y"
  by (simp add: DES_ROUND_def Let_def xor.assoc xor.left_commute xor.commute)

text \<open>The keys as pairs, in the order they are used.\<close>

fun des_pairs :: "u32 list \<Rightarrow> (u32 \<times> u32) list" where
  "des_pairs (a # b # ks) = (a, b) # des_pairs ks"
| "des_pairs _ = []"

fun feistel :: "(u32 \<times> u32) list \<Rightarrow> u32 \<Rightarrow> u32 \<Rightarrow> u32 \<times> u32" where
  "feistel [] X Y = (X, Y)"
| "feistel ((k1, k2) # ks) X Y = feistel ks Y (DES_ROUND k1 k2 Y X)"

lemma feistel_append: "feistel (ks @ ls) X Y = (case feistel ks X Y of (X', Y') \<Rightarrow> feistel ls X' Y')"
  by (induction ks X Y rule: feistel.induct) auto

lemma des_rounds_feistel: "4 dvd length SK \<Longrightarrow> des_rounds SK X Y = feistel (des_pairs SK) X Y"
proof (induction SK X Y rule: des_rounds.induct)
  case (1 k1 k2 k3 k4 SK X Y)
  from 1(2) have "4 dvd length SK" by (simp, presburger)
  with 1 show ?case by (simp add: Let_def)
qed (auto dest: dvd_imp_le)

lemma feistel_rev:
  assumes "feistel ks X Y = (A, B)"
  shows "feistel (rev ks) B A = (Y, X)"
  using assms
proof (induction ks arbitrary: X Y)
  case (Cons k ks)
  obtain k1 k2 where k: "k = (k1, k2)" by fastforce
  from Cons.prems have "feistel ks Y (DES_ROUND k1 k2 Y X) = (A, B)" by (simp add: k)
  from Cons.IH[OF this] show ?case
    by (simp add: feistel_append k DES_ROUND_twice)
qed auto

lemma des_pairs_nth: "2 * j + 1 < length SK \<Longrightarrow> des_pairs SK ! j = (SK ! (2 * j), SK ! (2 * j + 1))"
  by (induction SK arbitrary: j rule: des_pairs.induct) (auto simp: nth_Cons split: nat.split)

lemma length_des_pairs: "length (des_pairs SK) = length SK div 2"
  by (induction SK rule: des_pairs.induct) auto

lemma des_pairs_concat: "des_pairs (concat (map (\<lambda>j. [f j, g j]) js)) = map (\<lambda>j. (f j, g j)) js"
  by (induction js) auto

lemma length_reverse_keys: "length (reverse_keys SK) = 32"
  by (simp add: reverse_keys_def length_concat o_def sum_list_triv)

lemma reverse_keys_pairs:
  assumes "length SK = 32"
  shows "des_pairs (reverse_keys SK) = rev (des_pairs SK)"
  unfolding reverse_keys_def des_pairs_concat
proof (rule nth_equalityI)
  fix j assume "j < length (map (\<lambda>j. (SK ! (30 - 2 * j), SK ! (31 - 2 * j))) [0..<16])"
  then have j: "j < 16" by simp
  have "rev (des_pairs SK) ! j = des_pairs SK ! (15 - j)"
    using assms j by (simp add: rev_nth length_des_pairs)
  moreover have "2 * (15 - j) = 30 - 2 * j" "2 * (15 - j) + 1 = 31 - 2 * j" using j by auto
  ultimately show "map (\<lambda>j. (SK ! (30 - 2 * j), SK ! (31 - 2 * j))) [0..<16] ! j = rev (des_pairs SK) ! j"
    using des_pairs_nth[of "15 - j" SK] assms j by simp
qed (use assms in \<open>simp add: length_des_pairs\<close>)

text \<open>A block of eight bytes is read and written as two words.\<close>

lemma PUT_UINT32_be: "PUT_UINT32 n = be_bytes 4 (unat n)"
proof -
  have "(ucast (drop_bit k n) :: u8) = of_nat (unat n div 2 ^ k)" for k
    by (simp add: word_unat_eq_iff unat_of_nat unsigned_ucast_eq take_bit_nat_def unat_drop_div)
  from this[of 24] this[of 16] this[of 8] this[of 0] show ?thesis
    by (simp add: PUT_UINT32_def be_bytes_def upt_rec)
qed

lemma unat_GET:
  assumes "i + 4 \<le> length b"
  shows "unat (GET_UINT32 b i) = be_value (take 4 (drop i b))"
proof -
  have "take 4 (drop i b) = [b ! i, b ! (i + 1), b ! (i + 2), b ! (i + 3)]"
    using assms by (intro nth_equalityI) (auto simp: nth_Cons less_Suc_eq numeral_eq_Suc split: nat.split)
  then show ?thesis
    unfolding GET_UINT32_def unat_be4 by (simp add: be_value_def)
qed

lemma get_put:
  "GET_UINT32 (PUT_UINT32 A @ PUT_UINT32 B) 0 = A" "GET_UINT32 (PUT_UINT32 A @ PUT_UINT32 B) 4 = B"
proof -
  have "be_value (PUT_UINT32 n) = unat n" for n
    using be_value_be_bytes[of "unat n" 4] unat_32[of n] by (simp add: PUT_UINT32_be)
  moreover have "take 4 (PUT_UINT32 A @ PUT_UINT32 B) = PUT_UINT32 A" "take 4 (drop 4 (PUT_UINT32 A @ PUT_UINT32 B)) = PUT_UINT32 B"
    by (simp_all add: PUT_UINT32_def)
  ultimately show "GET_UINT32 (PUT_UINT32 A @ PUT_UINT32 B) 0 = A" "GET_UINT32 (PUT_UINT32 A @ PUT_UINT32 B) 4 = B"
    using unat_GET[of 0 "PUT_UINT32 A @ PUT_UINT32 B"] unat_GET[of 4 "PUT_UINT32 A @ PUT_UINT32 B"]
    by (simp_all add: word_unat_eq_iff PUT_UINT32_be)
qed

lemma put_get_uint32:
  assumes "length b = 8"
  shows "PUT_UINT32 (GET_UINT32 b 0) @ PUT_UINT32 (GET_UINT32 b 4) = b"
proof -
  have "PUT_UINT32 (GET_UINT32 b i) = take 4 (drop i b)" if "i + 4 \<le> 8" for i
    using be_bytes_be_value[of "take 4 (drop i b)"] unat_GET[of i b] assms that by (simp add: PUT_UINT32_be)
  from this[of 0] this[of 4] show ?thesis
    using append_take_drop_id[of 4 b] assms by simp
qed

theorem des_crypt_inverse:
  assumes "length SK = 32" "length b = 8"
  shows "des_crypt (reverse_keys SK) (des_crypt SK b) = b" "length (des_crypt SK b) = 8"
proof -
  obtain X0 Y0 where ip: "DES_IP (GET_UINT32 b 0) (GET_UINT32 b 4) = (X0, Y0)" by fastforce
  obtain X1 Y1 where rd: "des_rounds SK X0 Y0 = (X1, Y1)" by fastforce
  obtain A B where fp: "DES_FP Y1 X1 = (A, B)" by fastforce
  have c: "des_crypt SK b = PUT_UINT32 A @ PUT_UINT32 B"
    unfolding des_crypt_def Let_def ip rd fp prod.case ..
  then show "length (des_crypt SK b) = 8" by (simp add: PUT_UINT32_def)
  have "des_rounds (reverse_keys SK) Y1 X1 = (Y0, X0)"
    using feistel_rev[of "des_pairs SK" X0 Y0 X1 Y1] rd assms(1)
    by (simp add: des_rounds_feistel reverse_keys_pairs length_reverse_keys)
  moreover have "DES_IP A B = (Y1, X1)" using DES_IP_FP[OF fp] .
  moreover have "DES_FP X0 Y0 = (GET_UINT32 b 0, GET_UINT32 b 4)" using DES_FP_IP[OF ip] .
  ultimately have "des_crypt (reverse_keys SK) (PUT_UINT32 A @ PUT_UINT32 B) = PUT_UINT32 (GET_UINT32 b 0) @ PUT_UINT32 (GET_UINT32 b 4)"
    unfolding des_crypt_def Let_def get_put by simp
  then show "des_crypt (reverse_keys SK) (des_crypt SK b) = b"
    unfolding c put_get_uint32[OF assms(2)] .
qed

section \<open>Strings\<close>

lemma length_des_main_ks: "length (des_main_ks key) = 32"
proof -
  have "length (ks_loop is X Y) = 2 * length is" for "is" X Y
    by (induction "is" X Y rule: ks_loop.induct) (auto simp: Let_def ks_words_def)
  then show ?thesis by (simp add: des_main_ks_def Let_def split_beta)
qed

lemma des_blocks_one: "length b = 8 \<Longrightarrow> des_blocks SK b = (des_crypt SK b, [])"
  by (cases "(SK, b)" rule: des_blocks.cases) auto

lemma des_blocks_front:
  assumes "length b = 8"
  shows "des_blocks SK (b @ cs) = (des_crypt SK b @ fst (des_blocks SK cs), snd (des_blocks SK cs))"
  using assms by (cases "(SK, b)" rule: des_blocks.cases) (auto simp: split_beta)

text \<open>Decrypting the blocks of a text gives the text, whatever follows them.\<close>

lemma des_blocks_inverse:
  assumes "length SK = 32"
  shows "\<exists>pre. ts = pre @ snd (des_blocks SK ts) \<and> length (snd (des_blocks SK ts)) < 8 \<and> 8 dvd length pre \<and>
    length (fst (des_blocks SK ts)) = length pre \<and>
    (\<forall>cs. des_blocks (reverse_keys SK) (fst (des_blocks SK ts) @ cs) =
       (pre @ fst (des_blocks (reverse_keys SK) cs), snd (des_blocks (reverse_keys SK) cs)))"
  using assms
proof (induction SK ts rule: des_blocks.induct)
  case (1 SK a b c d e f g h ts)
  define bl where "bl = [a, b, c, d, e, f, g, h]"
  have lb: "length bl = 8" and e: "a # b # c # d # e # f # g # h # ts = bl @ ts" by (simp_all add: bl_def)
  obtain pre where IH: "ts = pre @ snd (des_blocks SK ts)" "length (snd (des_blocks SK ts)) < 8" "8 dvd length pre"
    "length (fst (des_blocks SK ts)) = length pre"
    "\<And>cs. des_blocks (reverse_keys SK) (fst (des_blocks SK ts) @ cs) =
       (pre @ fst (des_blocks (reverse_keys SK) cs), snd (des_blocks (reverse_keys SK) cs))"
    using "1.IH"[OF "1.prems"] by blast
  have o: "des_blocks SK (bl @ ts) = (des_crypt SK bl @ fst (des_blocks SK ts), snd (des_blocks SK ts))"
    by (rule des_blocks_front[OF lb])
  have l: "length (des_crypt SK bl) = 8" "des_crypt (reverse_keys SK) (des_crypt SK bl) = bl"
    using des_crypt_inverse[OF "1.prems" lb] by simp_all
  have "des_blocks (reverse_keys SK) (fst (des_blocks SK (bl @ ts)) @ cs) =
      ((bl @ pre) @ fst (des_blocks (reverse_keys SK) cs), snd (des_blocks (reverse_keys SK) cs))" for cs
    using IH(5)[of cs] l by (simp only: o fst_conv append_assoc des_blocks_front[OF l(1)] snd_conv)
  moreover have "bl @ ts = (bl @ pre) @ snd (des_blocks SK (bl @ ts))" unfolding o snd_conv using IH(1) by simp
  moreover have "length (fst (des_blocks SK (bl @ ts))) = length (bl @ pre)" "8 dvd length (bl @ pre)"
    "length (snd (des_blocks SK (bl @ ts))) < 8"
    unfolding o fst_conv snd_conv length_append lb using IH(2-4) l(1) by simp_all
  ultimately show ?case
    unfolding e by blast
qed auto

lemma iso_loop_zeros: "iso_loop (n + k) p (replicate n 0 @ xs) = iso_loop k (p + int n) xs"
  by (induction n arbitrary: p) (auto simp: algebra_simps)

lemma pkcs7_loop_same: "pkcs7_loop n x (replicate n x @ xs) = Some (uint x)"
  by (induction n) auto

lemma pkcs7_loop_short: "m < n \<Longrightarrow> pkcs7_loop n x (replicate m x) = None"
  by (induction m arbitrary: n) (auto simp: less_Suc_eq_0_disj gr0_conv_Suc Suc_less_eq2)

text \<open>Adding and removing the padding.\<close>

lemma padding_roundtrip:
  assumes "length src < 8" "0 \<le> mode" "mode < 2"
  shows "\<exists>tail. add_padding src mode = Inr tail \<and> length tail = 8 \<and> take (length src) tail = src \<and>
    remove_padding (rev (pre @ tail)) mode = Some (Inr (8 - int (length src)))"
proof (cases "mode = 0")
  case True
  let ?t = "padding_add_iso7816_4 src"
  have "rev (pre @ ?t) = replicate (7 - length src) 0 @ 0x80 # rev src @ rev pre"
    by (simp add: padding_add_iso7816_4_def)
  moreover have "iso_loop 8 1 (replicate (7 - length src) 0 @ 0x80 # rev src @ rev pre) = Some (8 - int (length src))"
  proof -
    have "8 = (7 - length src) + Suc (length src)" using assms(1) by simp
    then show ?thesis
      using iso_loop_zeros[of "7 - length src" "Suc (length src)" 1] assms(1) by simp
  qed
  ultimately show ?thesis
    using True assms(1) by (auto simp: add_padding_def remove_padding_def check_padding_mode_def PADDING_MODE_COUNT_def
        PADDING_MODE_ISO7816_4_def padding_remove_iso7816_4_def padding_add_iso7816_4_def)
next
  case False
  let ?n = "8 - length src" and ?t = "padding_add_pkcs7 src"
  have n: "unat (of_nat ?n :: u8) = ?n" "uint (of_nat ?n :: u8) = int ?n"
    by (simp_all add: unat_of_nat uint_nat)
  have "rev (pre @ ?t) = of_nat ?n # replicate (?n - 1) (of_nat ?n) @ rev src @ rev pre"
    using assms(1) by (cases ?n) (simp_all add: padding_add_pkcs7_def replicate_append_same)
  then have "padding_remove_pkcs7 (rev (pre @ ?t)) = Some (8 - int (length src))"
    using pkcs7_loop_same[of "?n - 1" "of_nat ?n"] n assms(1) by (simp add: padding_remove_pkcs7_def)
  then show ?thesis
    using False assms by (auto simp: add_padding_def remove_padding_def check_padding_mode_def PADDING_MODE_COUNT_def
        PADDING_MODE_ISO7816_4_def padding_add_pkcs7_def)
qed

text \<open>C8. DES encryption of a string is undone by decryption: for every key of eight bytes, every text and both
  padding modes, \<open>ldesencode\<close> returns whole blocks, at least one byte longer than the text, and \<open>ldesdecode\<close>
  with the same key and mode gives the text back.\<close>

theorem des_roundtrip:
  assumes "length key = 8" "0 \<le> mode" "mode < PADDING_MODE_COUNT" "int (length ts) + 8 \<le> INT_MAX"
  shows "\<exists>c. ldesencode key ts mode = Some (Inr c) \<and> length c = (length ts div 8 + 1) * 8 \<and>
    ldesdecode key c mode = Some (Inr ts)"
proof -
  let ?SK = "des_main_ks key"
  have k: "length ?SK = 32" by (rule length_des_main_ks)
  obtain out rest where b: "des_blocks ?SK ts = (out, rest)" by fastforce
  obtain pre where pre: "ts = pre @ rest" "length rest < 8" "8 dvd length pre" "length out = length pre"
    "\<And>cs. des_blocks (reverse_keys ?SK) (out @ cs) = (pre @ fst (des_blocks (reverse_keys ?SK) cs), snd (des_blocks (reverse_keys ?SK) cs))"
    using des_blocks_inverse[OF k, of ts] unfolding b fst_conv snd_conv by blast
  obtain tail where tail: "add_padding rest mode = Inr tail" "length tail = 8" "take (length rest) tail = rest"
    "remove_padding (rev (pre @ tail)) mode = Some (Inr (8 - int (length rest)))"
    using padding_roundtrip[OF pre(2) assms(2), of pre] assms(3) by (auto simp: PADDING_MODE_COUNT_def)
  define c where "c = out @ des_crypt ?SK tail"
  have enc: "ldesencode key ts mode = Some (Inr c)"
    using assms(1,4) tail(1) by (simp add: ldesencode_def des_key_def b c_def)
  have t: "length (des_crypt ?SK tail) = 8" "des_crypt (reverse_keys ?SK) (des_crypt ?SK tail) = tail"
    using des_crypt_inverse[OF k tail(2)] by simp_all
  have buf: "fst (des_blocks (reverse_keys ?SK) c) = pre @ tail"
    unfolding c_def pre(5) using t by (simp add: des_blocks_one)
  have l: "length c = length pre + 8" using pre(4) t(1) by (simp add: c_def)
  have len: "length c = (length ts div 8 + 1) * 8"
    using l pre(1-3) by auto
  have "ldesdecode key c mode = Some (Inr (take (length c - nat (8 - int (length rest))) (pre @ tail)))"
    using assms(1,4) pre(1-3) l tail(4) by (auto simp: ldesdecode_def des_key_def buf)
  also have "take (length c - nat (8 - int (length rest))) (pre @ tail) = ts"
    using pre(1,2) l tail(3) by (simp add: nat_diff_distrib')
  finally show ?thesis using enc len by blast
qed


theorem des_roundtrip_witness:
  "\<exists>c. ldesencode [1,2,3,4,5,6,7,8] [65,66,67] 1 = Some (Inr c) \<and> length c = 8 \<and>
     ldesdecode [1,2,3,4,5,6,7,8] c 1 = Some (Inr [65,66,67])"
  using des_roundtrip[of "[1,2,3,4,5,6,7,8]" 1 "[65,66,67]"] by (simp add: PADDING_MODE_COUNT_def INT_MAX_def)


end
