(* ===== verification/Digest_Spec.thy ===== *)
theory Digest_Spec
  imports Framing
begin

text \<open>
  Message digests as their standards define them: a message is padded with one bit, zeros and its length,
  cut into blocks of 64 bytes, and the blocks are folded into a state by a compression function. MD5 is
  given after RFC 1321 and SHA-1 after FIPS 180-4, HMAC after FIPS 198-1. The implementations in
  \<open>lua-crypt.c\<close> and \<open>lsha1.c\<close> are proved equal to them; the laws of an implementation that takes
  a message in pieces are a locale.
\<close>

section \<open>Blocks\<close>

function chunks :: "nat \<Rightarrow> 'a list \<Rightarrow> 'a list list" where
  "chunks n xs = (if 0 < n \<and> n \<le> length xs then take n xs # chunks n (drop n xs) else [])"
  by pat_completeness auto
termination
  by (relation "measure (\<lambda>(n, xs). length xs)") auto

declare chunks.simps [simp del]

lemma chunks_short: "length xs < n \<Longrightarrow> chunks n xs = []"
  by (subst chunks.simps) simp

lemma chunks_Cons: "length b = n \<Longrightarrow> 0 < n \<Longrightarrow> chunks n (b @ xs) = b # chunks n xs"
  by (subst chunks.simps) simp

lemma chunks_append:
  assumes "n dvd length xs" "0 < n"
  shows "chunks n (xs @ ys) = chunks n xs @ chunks n ys"
  using assms
proof (induction n xs rule: chunks.induct)
  case (1 n xs)
  show ?case
  proof (cases "n \<le> length xs")
    case True
    then have "chunks n (drop n xs @ ys) = chunks n (drop n xs) @ chunks n ys"
      using 1 by (intro "1.IH") auto
    moreover have "chunks n (xs @ ys) = take n xs # chunks n (drop n xs @ ys)"
      using True 1(3) by (subst chunks.simps) simp
    moreover have "chunks n xs = take n xs # chunks n (drop n xs)"
      using True 1(3) by (subst chunks.simps) simp
    ultimately show ?thesis by simp
  next
    case False
    with 1 have "xs = []" by (auto dest: dvd_imp_le)
    then show ?thesis using 1(3) by (simp add: chunks_short)
  qed
qed

text \<open>Only the whole blocks count.\<close>

lemma chunks_take:
  assumes "0 < n"
  shows "chunks n xs = chunks n (take (n * (length xs div n)) xs)"
proof -
  let ?k = "n * (length xs div n)"
  have "?k \<le> length xs" by simp
  then have "length (take ?k xs) = ?k" by simp
  then have "n dvd length (take ?k xs)" by simp
  then have "chunks n (take ?k xs @ drop ?k xs) = chunks n (take ?k xs) @ chunks n (drop ?k xs)"
    using assms by (rule chunks_append)
  moreover have "length (drop ?k xs) < n" using assms by (simp add: minus_mult_div_eq_mod)
  ultimately show ?thesis by (simp add: chunks_short)
qed

text \<open>The bytes behind the last whole block, and what happens to the blocks when a message grows.\<close>

definition tail_of :: "nat \<Rightarrow> 'a list \<Rightarrow> 'a list" where
  "tail_of n xs = drop (n * (length xs div n)) xs"

lemma length_tail_of [simp]: "length (tail_of n xs) = length xs mod n"
  by (simp add: tail_of_def minus_mult_div_eq_mod)

lemma tail_of_short: "length xs < n \<Longrightarrow> tail_of n xs = xs"
  by (simp add: tail_of_def)

lemma tail_of_append:
  assumes "n dvd length xs" "0 < n"
  shows "tail_of n (xs @ ys) = tail_of n ys"
proof -
  obtain k where "length xs = n * k" using assms(1) by blast
  then show ?thesis using assms(2) by (simp add: tail_of_def algebra_simps)
qed

lemma split_blocks:
  assumes "0 < n"
  obtains ps where "xs = ps @ tail_of n xs" "n dvd length ps" "chunks n ps = chunks n xs"
proof -
  let ?k = "n * (length xs div n)"
  have "length (take ?k xs) = ?k" by simp
  then have "n dvd length (take ?k xs)" by simp
  then show thesis
    using that[of "take ?k xs"] chunks_take[OF assms, of xs] by (simp add: tail_of_def)
qed

lemma blocks_grow:
  assumes "0 < n"
  shows "chunks n (xs @ ys) = chunks n xs @ chunks n (tail_of n xs @ ys)"
    "tail_of n (xs @ ys) = tail_of n (tail_of n xs @ ys)"
proof -
  obtain ps where ps: "xs = ps @ tail_of n xs" "n dvd length ps" "chunks n ps = chunks n xs"
    using split_blocks[OF assms] .
  have e: "xs @ ys = ps @ (tail_of n xs @ ys)" by (subst ps(1)) simp
  show "chunks n (xs @ ys) = chunks n xs @ chunks n (tail_of n xs @ ys)"
    unfolding e chunks_append[OF ps(2) assms] ps(3) ..
  show "tail_of n (xs @ ys) = tail_of n (tail_of n xs @ ys)"
    unfolding e tail_of_append[OF ps(2) assms] ..
qed

section \<open>Padding\<close>

definition rol :: "u32 \<Rightarrow> nat \<Rightarrow> u32" where
  "rol value bits = push_bit bits value OR drop_bit (32 - bits) value"

text \<open>\<open>enc\<close> writes the length in bits as eight bytes.\<close>

definition md_pad :: "(nat \<Rightarrow> u8 list) \<Rightarrow> u8 list \<Rightarrow> u8 list" where
  "md_pad enc msg = msg @ [0x80] @ replicate ((119 - length msg mod 64) mod 64) 0 @ enc (8 * length msg)"

section \<open>Bits of words\<close>

lemma u8_high_bit: "8 \<le> n \<Longrightarrow> \<not> bit (w :: u8) n"
  using bit_imp_le_length[of w n] by auto

lemma list_all_member: "list_all P xs \<Longrightarrow> x \<in> set xs \<Longrightarrow> P x"
  by (simp add: list_all_iff)

text \<open>Words are equal when their 32 bits are; for words put together from bytes the bits are compared by
  evaluation.\<close>

lemma word32_eqI:
  fixes v w :: u32
  assumes "list_all (\<lambda>n. bit v n = bit w n)
    [0, 1, 2, 3, 4, 5, 6, 7, 8, 9, 10, 11, 12, 13, 14, 15,
     16, 17, 18, 19, 20, 21, 22, 23, 24, 25, 26, 27, 28, 29, 30, 31]"
  shows "v = w"
proof (rule bit_eqI)
  fix n
  assume "possible_bit TYPE(u32) n"
  then have "n \<in> set [0..<32]" by simp
  moreover have "[0..<32] = [0, 1, 2, 3, 4, 5, 6, 7, 8, 9, 10, 11, 12, 13, 14, 15,
     16, 17, 18, 19, 20, 21, 22, 23, 24, 25, 26, 27, 28, 29, 30, 31]" by (simp add: upt_rec)
  ultimately show "bit v n = bit w n" using list_all_member[OF assms, of n] by (simp only:)
qed

section \<open>SHA-1\<close>

definition sha1_init :: "u32 list" where
  "sha1_init = [0x67452301, 0xefcdab89, 0x98badcfe, 0x10325476, 0xc3d2e1f0]"

definition be_word :: "u8 list \<Rightarrow> u32" where
  "be_word bs = of_nat (be_value bs)"

lemma be_word_or: "be_word [a, b, c, d] = push_bit 24 (ucast a) OR push_bit 16 (ucast b) OR push_bit 8 (ucast c) OR ucast d"
proof -
  have "unat (be_word [a, b, c, d]) = be_value [a, b, c, d]"
    using be_value_bound[of "[a, b, c, d]"] by (simp add: be_word_def unat_of_nat del: of_nat_add of_nat_mult)
  also have "\<dots> = ((unat a * 256 + unat b) * 256 + unat c) * 256 + unat d" by (simp add: be_value_def)
  finally have "unat (be_word [a, b, c, d]) = ((unat a * 256 + unat b) * 256 + unat c) * 256 + unat d" .
  then show ?thesis by (simp only: word_unat_eq_iff unat_be4)
qed

text \<open>The message schedule of a block.\<close>

fun sha1_W :: "u8 list \<Rightarrow> nat \<Rightarrow> u32" where
  "sha1_W M t =
     (if t < 16 then be_word (take 4 (drop (4 * t) M))
      else rol (sha1_W M (t - 3) XOR sha1_W M (t - 8) XOR sha1_W M (t - 14) XOR sha1_W M (t - 16)) 1)"

declare sha1_W.simps [simp del]

definition sha1_f :: "nat \<Rightarrow> u32 \<Rightarrow> u32 \<Rightarrow> u32 \<Rightarrow> u32" where
  "sha1_f t x y z =
     (if t < 20 then (x AND y) XOR (NOT x AND z)
      else if t < 40 then x XOR y XOR z
      else if t < 60 then (x AND y) XOR (x AND z) XOR (y AND z)
      else x XOR y XOR z)"

definition sha1_K :: "nat \<Rightarrow> u32" where
  "sha1_K t = (if t < 20 then 0x5a827999 else if t < 40 then 0x6ed9eba1 else if t < 60 then 0x8f1bbcdc else 0xca62c1d6)"

type_synonym sha1_regs = "u32 \<times> u32 \<times> u32 \<times> u32 \<times> u32"

definition sha1_round :: "u8 list \<Rightarrow> sha1_regs \<Rightarrow> nat \<Rightarrow> sha1_regs" where
  "sha1_round M = (\<lambda>(a, b, c, d, e) t.
     (rol a 5 + sha1_f t b c d + e + sha1_K t + sha1_W M t, a, rol b 30, c, d))"

fun sha1_compress :: "u32 list \<Rightarrow> u8 list \<Rightarrow> u32 list" where
  "sha1_compress [h0, h1, h2, h3, h4] M =
     (let (a, b, c, d, e) = foldl (sha1_round M) (h0, h1, h2, h3, h4) [0..<80]
      in [h0 + a, h1 + b, h2 + c, h3 + d, h4 + e])"
| "sha1_compress H M = H"

text \<open>The digest of a padded message.\<close>

definition sha1_digest :: "u8 list \<Rightarrow> u8 list" where
  "sha1_digest padded = concat (map (\<lambda>w. be_bytes 4 (unat w)) (foldl sha1_compress sha1_init (chunks 64 padded)))"

definition sha1 :: "u8 list \<Rightarrow> u8 list" where
  "sha1 msg = sha1_digest (md_pad (be_bytes 8) msg)"

section \<open>HMAC\<close>

definition hmac_key :: "(u8 list \<Rightarrow> u8 list) \<Rightarrow> u8 list \<Rightarrow> u8 list" where
  "hmac_key H K = (let K' = (if length K > 64 then H K else K) in K' @ replicate (64 - length K') 0)"

definition hmac_spec :: "(u8 list \<Rightarrow> u8 list) \<Rightarrow> u8 list \<Rightarrow> u8 list \<Rightarrow> u8 list" where
  "hmac_spec H K txt =
     H (map (\<lambda>b. b XOR 0x5c) (hmac_key H K) @ H (map (\<lambda>b. b XOR 0x36) (hmac_key H K) @ txt))"

section \<open>MD5\<close>

definition le_word :: "u8 list \<Rightarrow> u32" where
  "le_word bs = of_nat (be_value (rev bs))"

definition md5_F :: "nat \<Rightarrow> u32 \<Rightarrow> u32 \<Rightarrow> u32 \<Rightarrow> u32" where
  "md5_F i x y z =
     (if i < 16 then (x AND y) OR (NOT x AND z)
      else if i < 32 then (x AND z) OR (y AND NOT z)
      else if i < 48 then x XOR y XOR z
      else y XOR (x OR NOT z))"

text \<open>Which word of the block an operation takes.\<close>

definition md5_X :: "nat \<Rightarrow> nat" where
  "md5_X i = (if i < 16 then i else if i < 32 then (1 + 5 * i) mod 16 else if i < 48 then (5 + 3 * i) mod 16 else 7 * i mod 16)"

text \<open>The constants: the integer parts of \<open>2 ^ 32\<close> times the absolute sines of 1 to 64.\<close>

definition md5_T :: "u32 list" where
  "md5_T = [
      0xd76aa478, 0xe8c7b756, 0x242070db, 0xc1bdceee,
      0xf57c0faf, 0x4787c62a, 0xa8304613, 0xfd469501,
      0x698098d8, 0x8b44f7af, 0xffff5bb1, 0x895cd7be,
      0x6b901122, 0xfd987193, 0xa679438e, 0x49b40821,
      0xf61e2562, 0xc040b340, 0x265e5a51, 0xe9b6c7aa,
      0xd62f105d, 0x02441453, 0xd8a1e681, 0xe7d3fbc8,
      0x21e1cde6, 0xc33707d6, 0xf4d50d87, 0x455a14ed,
      0xa9e3e905, 0xfcefa3f8, 0x676f02d9, 0x8d2a4c8a,
      0xfffa3942, 0x8771f681, 0x6d9d6122, 0xfde5380c,
      0xa4beea44, 0x4bdecfa9, 0xf6bb4b60, 0xbebfbc70,
      0x289b7ec6, 0xeaa127fa, 0xd4ef3085, 0x04881d05,
      0xd9d4d039, 0xe6db99e5, 0x1fa27cf8, 0xc4ac5665,
      0xf4292244, 0x432aff97, 0xab9423a7, 0xfc93a039,
      0x655b59c3, 0x8f0ccc92, 0xffeff47d, 0x85845dd1,
      0x6fa87e4f, 0xfe2ce6e0, 0xa3014314, 0x4e0811a1,
      0xf7537e82, 0xbd3af235, 0x2ad7d2bb, 0xeb86d391]"

definition md5_S :: "nat \<Rightarrow> nat" where
  "md5_S i = [[7, 12, 17, 22], [5, 9, 14, 20], [4, 11, 16, 23], [6, 10, 15, 21]] ! (i div 16) ! (i mod 4)"

type_synonym md5_regs = "u32 \<times> u32 \<times> u32 \<times> u32"

definition md5_op :: "u32 list \<Rightarrow> md5_regs \<Rightarrow> nat \<Rightarrow> md5_regs" where
  "md5_op X = (\<lambda>(a, b, c, d) i. (d, b + rol (a + md5_F i b c d + X ! md5_X i + md5_T ! i) (md5_S i), b, c))"

definition md5_words :: "u8 list \<Rightarrow> u32 list" where
  "md5_words M = map (\<lambda>t. le_word (take 4 (drop (4 * t) M))) [0..<16]"

definition md5_compress :: "md5_regs \<Rightarrow> u8 list \<Rightarrow> md5_regs" where
  "md5_compress = (\<lambda>(A, B, C, D) M.
     (let (a, b, c, d) = foldl (md5_op (md5_words M)) (A, B, C, D) [0..<64] in (A + a, B + b, C + c, D + d)))"

definition md5_init :: md5_regs where
  "md5_init = (0x67452301, 0xefcdab89, 0x98badcfe, 0x10325476)"

definition le_bytes :: "nat \<Rightarrow> nat \<Rightarrow> u8 list" where
  "le_bytes k n = rev (be_bytes k n)"

definition md5 :: "u8 list \<Rightarrow> u8 list" where
  "md5 msg =
     (let (A, B, C, D) = foldl md5_compress md5_init (chunks 64 (md_pad (le_bytes 8) msg))
      in concat (map (\<lambda>w. le_bytes 4 (unat w)) [A, B, C, D]))"

section \<open>Digests in pieces\<close>

text \<open>What a program needs of an implementation of a digest that takes the message in pieces: a context
  represents the bytes it was given, up to a limit for one piece and for all of them.\<close>

locale stream_digest =
  fixes rep :: "'c \<Rightarrow> u8 list \<Rightarrow> bool"
    and piece :: nat
    and total :: nat
    and init :: 'c
    and update :: "'c \<Rightarrow> u8 list \<Rightarrow> 'c option"
    and final :: "'c \<Rightarrow> u8 list option"
    and digest :: "u8 list \<Rightarrow> u8 list"
  assumes init_law: "rep init []"
    and update_law: "rep c m \<Longrightarrow> length d < piece \<Longrightarrow> length m + length d < total \<Longrightarrow>
      \<exists>c'. update c d = Some c' \<and> rep c' (m @ d)"
    and final_law: "rep c m \<Longrightarrow> length m < total \<Longrightarrow> final c = Some (digest m)"
begin

fun update_all :: "'c \<Rightarrow> u8 list list \<Rightarrow> 'c option" where
  "update_all c [] = Some c"
| "update_all c (d # ds) = do { c \<leftarrow> update c d; update_all c ds }"

text \<open>The digest does not depend on how the message was cut.\<close>

theorem pieces:
  assumes "\<And>d. d \<in> set ds \<Longrightarrow> length d < piece" "length (concat ds) < total"
  shows "\<exists>c. update_all init ds = Some c \<and> final c = Some (digest (concat ds))"
proof -
  have "\<exists>c'. update_all c ds = Some c' \<and> rep c' (m @ concat ds)"
    if "rep c m" "length m + length (concat ds) < total" "\<And>d. d \<in> set ds \<Longrightarrow> length d < piece" for c m ds
    using that
  proof (induction ds arbitrary: c m)
    case (Cons d ds)
    then obtain c1 where c1: "update c d = Some c1" "rep c1 (m @ d)"
      using update_law[of c m d] by force
    then have "\<exists>c'. update_all c1 ds = Some c' \<and> rep c' ((m @ d) @ concat ds)"
      using Cons.prems by (intro Cons.IH) auto
    with c1(1) show ?case by simp
  qed simp
  from this[OF init_law, of ds] assms show ?thesis
    using final_law by fastforce
qed

end

end
