(* ===== verification/Sha1.thy ===== *)
theory Sha1
  imports Digest_Spec
begin

text \<open>
  SHA-1 as \<open>lualib-src/lsha1.c\<close> computes it, on a little-endian machine: the unrolled compression with a
  circular message schedule, the context that takes the message in pieces, and the keyed hash.
\<close>

section \<open>State\<close>

record SHA1_CTX =
  sc_state :: "u32 list"
  sc_count0 :: u32
  sc_count1 :: u32
  sc_buffer :: "u8 list"

definition SHA1_DIGEST_SIZE :: nat where "SHA1_DIGEST_SIZE = 20"
definition BLOCKSIZE :: nat where "BLOCKSIZE = 64"

section \<open>Compression\<close>

text \<open>The union of bytes and words: word \<open>i\<close> of a block.\<close>

definition block_l :: "u8 list \<Rightarrow> u32 list" where
  "block_l c = map (\<lambda>i. of_nat (be_value (rev (take 4 (drop (4 * i) c))))) [0..<16]"

definition blk0 :: "nat \<Rightarrow> u32 list \<Rightarrow> u32 \<times> u32 list" where
  "blk0 i l = (let v = (rol (l ! i) 24 AND 0xff00ff00) OR (rol (l ! i) 8 AND 0x00ff00ff) in (v, l[i := v]))"

definition blk :: "nat \<Rightarrow> u32 list \<Rightarrow> u32 \<times> u32 list" where
  "blk i l =
     (let v = rol (l ! ((i + 13) mod 16) XOR l ! ((i + 8) mod 16) XOR l ! ((i + 2) mod 16) XOR l ! (i mod 16)) 1
      in (v, l[i mod 16 := v]))"

text \<open>The five kinds of operations. An operation changes \<open>z\<close> and \<open>w\<close>; the registers are passed on in the
  order in which the next operation names them.\<close>

type_synonym sha_state = "(u32 \<times> u32 \<times> u32 \<times> u32 \<times> u32) \<times> u32 list"

definition sha_op :: "u32 \<Rightarrow> u32 \<Rightarrow> (u32 \<times> u32 list) \<Rightarrow> u32 \<times> u32 \<times> u32 \<times> u32 \<times> u32 \<Rightarrow> sha_state" where
  "sha_op f K b = (\<lambda>(v, w, x, y, z). ((z + (f + fst b + K + rol v 5), v, rol w 30, x, y), snd b))"

definition R0 :: "nat \<Rightarrow> sha_state \<Rightarrow> sha_state" where
  "R0 i = (\<lambda>((v, w, x, y, z), l). sha_op ((w AND (x XOR y)) XOR y) 0x5a827999 (blk0 i l) (v, w, x, y, z))"

definition R1 :: "nat \<Rightarrow> sha_state \<Rightarrow> sha_state" where
  "R1 i = (\<lambda>((v, w, x, y, z), l). sha_op ((w AND (x XOR y)) XOR y) 0x5a827999 (blk i l) (v, w, x, y, z))"

definition R2 :: "nat \<Rightarrow> sha_state \<Rightarrow> sha_state" where
  "R2 i = (\<lambda>((v, w, x, y, z), l). sha_op (w XOR x XOR y) 0x6ed9eba1 (blk i l) (v, w, x, y, z))"

definition R3 :: "nat \<Rightarrow> sha_state \<Rightarrow> sha_state" where
  "R3 i = (\<lambda>((v, w, x, y, z), l). sha_op (((w OR x) AND y) OR (w AND x)) 0x8f1bbcdc (blk i l) (v, w, x, y, z))"

definition R4 :: "nat \<Rightarrow> sha_state \<Rightarrow> sha_state" where
  "R4 i = (\<lambda>((v, w, x, y, z), l). sha_op (w XOR x XOR y) 0xca62c1d6 (blk i l) (v, w, x, y, z))"

definition sha_rounds :: "nat \<Rightarrow> sha_state \<Rightarrow> sha_state" where
  "sha_rounds i = (if i < 16 then R0 i else if i < 20 then R1 i else if i < 40 then R2 i else if i < 60 then R3 i else R4 i)"

definition SHA1_Transform :: "u32 list \<Rightarrow> u8 list \<Rightarrow> u32 list" where
  "SHA1_Transform state buffer =
     (let ((a, b, c, d, e), l) = foldl (\<lambda>s i. sha_rounds i s)
            ((state ! 0, state ! 1, state ! 2, state ! 3, state ! 4), block_l buffer) [0..<80]
      in [state ! 0 + a, state ! 1 + b, state ! 2 + c, state ! 3 + d, state ! 4 + e])"

section \<open>Contexts\<close>

text \<open>The buffer of a new context is not initialised; the model fills it with zeros.\<close>

definition sat_SHA1_Init :: SHA1_CTX where
  "sat_SHA1_Init = \<lparr>sc_state = [0x67452301, 0xefcdab89, 0x98badcfe, 0x10325476, 0xc3d2e1f0],
     sc_count0 = 0, sc_count1 = 0, sc_buffer = replicate 64 0\<rparr>"

text \<open>\<open>memcpy\<close> to index \<open>j\<close> of the buffer.\<close>

definition buf_write :: "nat \<Rightarrow> u8 list \<Rightarrow> u8 list \<Rightarrow> u8 list option" where
  "buf_write j d buf = (if j + length d \<le> length buf then Some (take j buf @ d @ drop (j + length d) buf) else None)"

text \<open>The loop over the whole blocks in \<open>data\<close>; the rest of \<open>data\<close> is returned.\<close>

function update_loop :: "u32 list \<Rightarrow> u8 list \<Rightarrow> u32 list \<times> u8 list" where
  "update_loop state data =
     (if 63 < length data then update_loop (SHA1_Transform state (take 64 data)) (drop 64 data) else (state, data))"
  by pat_completeness auto
termination
  by (relation "measure (\<lambda>(state, data). length data)") auto

declare update_loop.simps [simp del]

text \<open>The length is a \<open>size_t\<close>; the shifted length is compared in 64 bits with the 32-bit counter.\<close>

definition add_count :: "u64 \<Rightarrow> SHA1_CTX \<Rightarrow> SHA1_CTX" where
  "add_count len context =
     (let c0 = sc_count0 context + ucast (push_bit 3 len);
          c1 = (if (ucast c0 :: u64) < push_bit 3 len then sc_count1 context + 1 else sc_count1 context)
      in context\<lparr>sc_count0 := c0, sc_count1 := c1 + ucast (drop_bit 29 len)\<rparr>)"

definition sat_SHA1_Update :: "SHA1_CTX \<Rightarrow> u8 list \<Rightarrow> SHA1_CTX option" where
  "sat_SHA1_Update context data =
     (let j = unat (drop_bit 3 (sc_count0 context) AND 63);
          context = add_count (of_nat (length data)) context
      in if j + length data > 63 then do {
           buffer \<leftarrow> buf_write j (take (64 - j) data) (sc_buffer context);
           let state = SHA1_Transform (sc_state context) buffer;
           let (state, rest) = update_loop state (drop (64 - j) data);
           buffer \<leftarrow> buf_write 0 rest buffer;
           Some (context\<lparr>sc_state := state, sc_buffer := buffer\<rparr>) }
         else do {
           buffer \<leftarrow> buf_write j data (sc_buffer context);
           Some (context\<lparr>sc_buffer := buffer\<rparr>) })"

partial_function (option) pad_loop :: "SHA1_CTX \<Rightarrow> SHA1_CTX option" where
  "pad_loop context =
     (if sc_count0 context AND 504 \<noteq> 448 then do { context \<leftarrow> sat_SHA1_Update context [0]; pad_loop context }
      else Some context)"

declare pad_loop.simps [code]

text \<open>The wiping of the context at the end is left out: no caller uses the context again.\<close>

definition sat_SHA1_Final :: "SHA1_CTX \<Rightarrow> u8 list option" where
  "sat_SHA1_Final context = do {
     let finalcount = map (\<lambda>i. ucast (drop_bit ((3 - i mod 4) * 8) (if i \<ge> 4 then sc_count0 context else sc_count1 context) AND 255)) [0..<8];
     context \<leftarrow> sat_SHA1_Update context [0x80];
     context \<leftarrow> pad_loop context;
     context \<leftarrow> sat_SHA1_Update context finalcount;
     Some (map (\<lambda>i. ucast (drop_bit ((3 - i mod 4) * 8) (sc_state context ! (i div 4)) AND 255)) [0..<SHA1_DIGEST_SIZE]) }"

section \<open>Hashes\<close>

definition lsha1 :: "u8 list \<Rightarrow> u8 list option" where
  "lsha1 buffer = do { ctx \<leftarrow> sat_SHA1_Update sat_SHA1_Init buffer; sat_SHA1_Final ctx }"

text \<open>The key is read and written as words of the machine.\<close>

fun xor_key :: "u8 list \<Rightarrow> u32 \<Rightarrow> u8 list" where
  "xor_key (a # b # c # d # key) x =
     (let k = of_nat (be_value [d, c, b, a]) XOR x in rev (be_bytes 4 (unat (k :: u32))) @ xor_key key x)"
| "xor_key key x = key"

definition lhmac_sha1 :: "u8 list \<Rightarrow> u8 list \<Rightarrow> u8 list option" where
  "lhmac_sha1 key txt = do {
     let zero = replicate BLOCKSIZE 0;
     rkey \<leftarrow> (if length key > BLOCKSIZE then do {
         ctx \<leftarrow> sat_SHA1_Update sat_SHA1_Init key;
         digest \<leftarrow> sat_SHA1_Final ctx;
         buf_write 0 digest zero }
       else buf_write 0 key zero);
     let rkey = xor_key rkey 0x5c5c5c5c;
     ctx1 \<leftarrow> sat_SHA1_Update sat_SHA1_Init rkey;
     let rkey = xor_key rkey (0x5c5c5c5c XOR 0x36363636);
     ctx2 \<leftarrow> sat_SHA1_Update sat_SHA1_Init rkey;
     ctx2 \<leftarrow> sat_SHA1_Update ctx2 txt;
     digest2 \<leftarrow> sat_SHA1_Final ctx2;
     ctx1 \<leftarrow> sat_SHA1_Update ctx1 digest2;
     sat_SHA1_Final ctx1 }"

section \<open>The compression is the standard one\<close>

lemma byte_swap: "(rol (be_word [d, c, b, a]) 24 AND 0xff00ff00) OR (rol (be_word [d, c, b, a]) 8 AND 0x00ff00ff) = be_word [a, b, c, d]"
  unfolding be_word_or rol_def by (rule word32_eqI) (simp add: bit_simps u8_high_bit)

lemma sha_ch: "(w AND (x XOR y)) XOR y = (w AND x) XOR (NOT w AND (y :: u32))"
  by (rule bit_eqI) (auto simp: bit_simps)
lemma sha_maj: "((w OR x) AND y) OR (w AND x) = (w AND x) XOR (w AND y) XOR (x AND (y :: u32))"
  by (rule bit_eqI) (auto simp: bit_simps)

text \<open>The words of the schedule that the sixteen slots hold before step \<open>i\<close>.\<close>

definition sched :: "u8 list \<Rightarrow> nat \<Rightarrow> u32 list \<Rightarrow> bool" where
  "sched M i l \<longleftrightarrow> length l = 16 \<and> (\<forall>t < i. i \<le> t + 16 \<longrightarrow> l ! (t mod 16) = sha1_W M t) \<and>
     (\<forall>j. i \<le> j \<and> j < 16 \<longrightarrow> l ! j = block_l M ! j)"

lemma sched_0: "sched M 0 (block_l M)"
  by (simp add: sched_def block_l_def)

lemma sched_step:
  assumes "sched M i l"
  shows "sched M (Suc i) (l[i mod 16 := sha1_W M i])"
proof -
  have l: "length l = 16" and old: "\<And>t. t < i \<Longrightarrow> i \<le> t + 16 \<Longrightarrow> l ! (t mod 16) = sha1_W M t"
    and raw: "\<And>j. i \<le> j \<Longrightarrow> j < 16 \<Longrightarrow> l ! j = block_l M ! j"
    using assms by (auto simp: sched_def)
  have "l[i mod 16 := sha1_W M i] ! (t mod 16) = sha1_W M t" if "t < Suc i" "Suc i \<le> t + 16" for t
  proof (cases "t = i")
    case False
    have "t mod 16 \<noteq> i mod 16"
      using ring_index_eq_iff[of 0 16 "i - t" t] that False by auto
    then show ?thesis using old[of t] that False by simp
  qed (simp add: l)
  moreover have "l[i mod 16 := sha1_W M i] ! j = block_l M ! j" if "Suc i \<le> j" "j < 16" for j
    using raw[of j] that by simp
  ultimately show ?thesis by (simp add: sched_def l)
qed

lemma length_5: "length xs = 5 \<Longrightarrow> \<exists>a b c d e. xs = [a, b, c, d, e]"
  by (auto simp: numeral_eq_Suc length_Suc_conv)

lemma block_l_nth:
  assumes "length M = 64" "j < 16"
  shows "\<exists>a b c d. take 4 (drop (4 * j) M) = [a, b, c, d] \<and> block_l M ! j = be_word [d, c, b, a]"
proof -
  have "length (take 4 (drop (4 * j) M)) = 4" using assms by simp
  then obtain a b c d where "take 4 (drop (4 * j) M) = [a, b, c, d]"
    using length_4 by blast
  then show ?thesis using assms(2) by (simp add: block_l_def be_word_def)
qed

lemma blk0_sched:
  assumes "sched M i l" "i < 16" "length M = 64"
  shows "blk0 i l = (sha1_W M i, l[i mod 16 := sha1_W M i])"
proof -
  obtain a b c d where e: "take 4 (drop (4 * i) M) = [a, b, c, d]" "l ! i = be_word [d, c, b, a]"
    using block_l_nth[OF assms(3,2)] assms(1,2) by (auto simp: sched_def)
  then have "sha1_W M i = be_word [a, b, c, d]" using assms(2) by (simp add: sha1_W.simps)
  then show ?thesis using assms(2) by (simp add: blk0_def e(2) byte_swap Let_def)
qed

lemma blk_sched:
  assumes "sched M i l" "16 \<le> i"
  shows "blk i l = (sha1_W M i, l[i mod 16 := sha1_W M i])"
proof -
  have "l ! ((i + (16 - k)) mod 16) = sha1_W M (i - k)" if "0 < k" "k \<le> 16" for k
  proof -
    have "i + (16 - k) = i - k + 16" using assms(2) that by simp
    then have e: "(i + (16 - k)) mod 16 = (i - k) mod 16" by (simp only: mod_add_self2)
    have "l ! ((i - k) mod 16) = sha1_W M (i - k)" using assms that by (simp add: sched_def)
    then show ?thesis by (simp only: e)
  qed
  from this[of 3] this[of 8] this[of 14] this[of 16]
  have "rol (l ! ((i + 13) mod 16) XOR l ! ((i + 8) mod 16) XOR l ! ((i + 2) mod 16) XOR l ! (i mod 16)) 1 = sha1_W M i"
    using assms(2) sha1_W.simps[of M i] by simp
  then show ?thesis by (simp add: blk_def Let_def)
qed

lemma sha_rounds_spec:
  assumes "sched M i l" "length M = 64"
  shows "sha_rounds i (regs, l) = (sha1_round M regs i, l[i mod 16 := sha1_W M i])"
proof -
  obtain v w x y z where r: "regs = (v, w, x, y, z)" by (cases regs)
  have b0: "i < 16 \<Longrightarrow> blk0 i l = (sha1_W M i, l[i mod 16 := sha1_W M i])"
    and b: "16 \<le> i \<Longrightarrow> blk i l = (sha1_W M i, l[i mod 16 := sha1_W M i])"
    using assms blk0_sched blk_sched by auto
  show ?thesis
    using b0 b unfolding r
    by (simp add: sha_rounds_def sha1_round_def R0_def R1_def R2_def R3_def R4_def sha_op_def sha1_f_def sha1_K_def
        sha_ch sha_maj add.commute add.left_commute)
qed

theorem SHA1_Transform_spec:
  assumes "length M = 64" "length H = 5"
  shows "SHA1_Transform H M = sha1_compress H M"
proof -
  have "\<exists>l. foldl (\<lambda>s i. sha_rounds i s) (regs, block_l M) [0..<n] = (foldl (sha1_round M) regs [0..<n], l) \<and> sched M n l"
    for regs n
  proof (induction n)
    case (Suc n)
    then obtain l where l: "foldl (\<lambda>s i. sha_rounds i s) (regs, block_l M) [0..<n] = (foldl (sha1_round M) regs [0..<n], l)" "sched M n l"
      by blast
    show ?case
      using sha_rounds_spec[OF l(2) assms(1)] sched_step[OF l(2)] by (intro exI[of _ "l[n mod 16 := sha1_W M n]"]) (simp add: l(1))
  qed (simp add: sched_0)
  from this[of _ 80] have fold: "\<exists>l. foldl (\<lambda>s i. sha_rounds i s) (regs, block_l M) [0..<80] = (foldl (sha1_round M) regs [0..<80], l)"
    for regs by blast
  obtain h0 h1 h2 h3 h4 where H: "H = [h0, h1, h2, h3, h4]"
    using assms(2) length_5 by blast
  obtain l where "foldl (\<lambda>s i. sha_rounds i s) ((h0, h1, h2, h3, h4), block_l M) [0..<80] = (foldl (sha1_round M) (h0, h1, h2, h3, h4) [0..<80], l)"
    using fold by blast
  then show ?thesis by (simp add: SHA1_Transform_def H split: prod.split del: upt_rec_numeral)
qed

lemma length_sha1_compress: "length H = 5 \<Longrightarrow> length (sha1_compress H M) = 5"
  by (drule length_5) (auto split: prod.split simp del: upt_rec_numeral)

section \<open>Pieces\<close>

text \<open>A context that was given the bytes \<open>m\<close>. The counter may be ahead by \<open>e\<close> times \<open>2 ^ 32\<close> bits: a piece of
  \<open>2 ^ 29\<close> bytes or more is counted wrongly, as shown below.\<close>

definition count_ok :: "nat \<Rightarrow> SHA1_CTX \<Rightarrow> nat \<Rightarrow> bool" where
  "count_ok e c n \<longleftrightarrow> 2 ^ 32 * unat (sc_count1 c) + unat (sc_count0 c) = 8 * n + 2 ^ 32 * e"

definition sha_rep_at :: "nat \<Rightarrow> SHA1_CTX \<Rightarrow> u8 list \<Rightarrow> bool" where
  "sha_rep_at e c m \<longleftrightarrow> length (sc_buffer c) = 64 \<and> count_ok e c (length m) \<and>
     sc_state c = foldl sha1_compress sha1_init (chunks 64 m) \<and> take (length m mod 64) (sc_buffer c) = tail_of 64 m"

abbreviation sha_rep :: "SHA1_CTX \<Rightarrow> u8 list \<Rightarrow> bool" where
  "sha_rep \<equiv> sha_rep_at 0"

lemma add_mod_once: "a < M \<Longrightarrow> b < M \<Longrightarrow> (a + b) mod M = (if a + b < M then a + b else a + b - M)" for M :: nat
  by (auto simp: not_less le_mod_geq)

lemma and_push: "w AND push_bit k m = push_bit k (drop_bit k w AND m)" for w :: "'a::len word"
  by (rule bit_eqI) (auto simp: bit_push_bit_iff bit_and_iff bit_drop_bit_eq)

lemma add_count_ok:
  assumes "count_ok e c n" "len < 2 ^ 29" "n + len + 2 ^ 29 * e < 2 ^ 61"
  shows "count_ok e (add_count (of_nat len) c) (n + len)"
    "sc_buffer (add_count (of_nat len) c) = sc_buffer c" "sc_state (add_count (of_nat len) c) = sc_state c"
proof -
  let ?c0 = "unat (sc_count0 c)" and ?c1 = "unat (sc_count1 c)"
  let ?s = "sc_count0 c + ucast (push_bit 3 (of_nat len :: u64))"
  have len: "unat (of_nat len :: u64) = len" using assms(2) by (simp add: unat_of_nat)
  have p: "unat (push_bit 3 (of_nat len :: u64)) = 8 * len"
    using assms(2) len by (simp add: push_bit_eq_mult unat_word_ariths)
  then have pu: "unat (ucast (push_bit 3 (of_nat len :: u64)) :: u32) = 8 * len"
    using assms(2) by (simp add: unsigned_ucast_eq take_bit_nat_eq_self del: push_bit_of_nat)
  have d: "drop_bit 29 (of_nat len :: u64) = 0"
    using assms(2) len by (simp add: word_unat_eq_iff unat_drop_div)
  have c0: "?c0 < 2 ^ 32" by simp
  have s: "unat ?s = (if ?c0 + 8 * len < 2 ^ 32 then ?c0 + 8 * len else ?c0 + 8 * len - 2 ^ 32)"
  proof -
    have "unat ?s = (?c0 + 8 * len) mod 2 ^ 32" by (simp only: unat_word_ariths pu) simp
    also have "\<dots> = (if ?c0 + 8 * len < 2 ^ 32 then ?c0 + 8 * len else ?c0 + 8 * len - 2 ^ 32)"
      using c0 assms(2) by (intro add_mod_once) auto
    finally show ?thesis .
  qed
  have su: "unat (ucast ?s :: u64) = unat ?s"
    by (subst unsigned_ucast_eq) (rule take_bit_nat_eq_self, rule order_less_trans[OF unat_32], simp)
  have lt: "(ucast ?s :: u64) < push_bit 3 (of_nat len) \<longleftrightarrow> 2 ^ 32 \<le> ?c0 + 8 * len"
  proof (cases "?c0 + 8 * len < 2 ^ 32")
    case False
    then have "?c0 + 8 * len - 2 ^ 32 < 8 * len" using c0 by linarith
    then show ?thesis unfolding word_less_nat_alt p su s using False by simp
  qed (simp add: word_less_nat_alt p su s del: push_bit_of_nat)
  have n: "2 ^ 32 * ?c1 + ?c0 = 8 * n + 2 ^ 32 * e" using assms(1) by (simp add: count_ok_def)
  have c1: "unat (sc_count1 c + 1) = ?c1 + 1" if "2 ^ 32 \<le> ?c0 + 8 * len"
  proof -
    have "?c1 + 1 < 2 ^ 32" using n that assms(3) by simp
    then show ?thesis by (simp add: unat_word_ariths)
  qed
  show "count_ok e (add_count (of_nat len) c) (n + len)"
    using n c1 s lt by (auto simp: count_ok_def add_count_def d Let_def simp del: push_bit_of_nat)
  show "sc_buffer (add_count (of_nat len) c) = sc_buffer c" "sc_state (add_count (of_nat len) c) = sc_state c"
    by (simp_all add: add_count_def Let_def)
qed

lemma count_index:
  assumes "count_ok e c n"
  shows "unat (drop_bit 3 (sc_count0 c) AND 63) = n mod 64" "sc_count0 c AND 504 = 448 \<longleftrightarrow> n mod 64 = 56"
proof -
  have n: "2 ^ 32 * unat (sc_count1 c) + unat (sc_count0 c) = 8 * n + 2 ^ 32 * e" using assms by (simp add: count_ok_def)
  have "unat (drop_bit 3 (sc_count0 c) AND 63) = unat (sc_count0 c) div 8 mod 64"
    using unat_and_mask[of "drop_bit 3 (sc_count0 c)" 6] by (simp add: unat_drop_div)
  also have "\<dots> = n mod 64"
  proof -
    have "(8 * n + 2 ^ 32 * e) div 8 = (2 ^ 32 * unat (sc_count1 c) + unat (sc_count0 c)) div 8" by (simp only: n)
    then have "n + 2 ^ 29 * e = 2 ^ 29 * unat (sc_count1 c) + unat (sc_count0 c) div 8" by simp
    then have "64 * (2 ^ 23 * e) + n = 64 * (2 ^ 23 * unat (sc_count1 c)) + unat (sc_count0 c) div 8" by simp
    then have "(64 * (2 ^ 23 * e) + n) mod 64 = (64 * (2 ^ 23 * unat (sc_count1 c)) + unat (sc_count0 c) div 8) mod 64" by (simp only:)
    then show ?thesis by (simp only: mod_mult_self4)
  qed
  finally show i: "unat (drop_bit 3 (sc_count0 c) AND 63) = n mod 64" .
  have "sc_count0 c AND push_bit 3 63 = push_bit 3 (drop_bit 3 (sc_count0 c) AND 63)"
    by (rule and_push)
  then have "unat (sc_count0 c AND 504) = 8 * (n mod 64)"
    using i by (simp add: push_bit_eq_mult unat_word_ariths)
  moreover have "sc_count0 c AND 504 = 448 \<longleftrightarrow> unat (sc_count0 c AND 504) = 448"
    by (simp add: word_unat_eq_iff)
  ultimately show "sc_count0 c AND 504 = 448 \<longleftrightarrow> n mod 64 = 56" by auto
qed

lemma foldl_compress_5: "length H = 5 \<Longrightarrow> length (foldl sha1_compress H bs) = 5"
  by (induction bs arbitrary: H) (simp_all add: length_sha1_compress)

lemma update_loop_spec:
  "length state = 5 \<Longrightarrow> update_loop state d = (foldl sha1_compress state (chunks 64 d), tail_of 64 d)"
proof (induction state d rule: update_loop.induct)
  case (1 state d)
  show ?case
  proof (cases "63 < length d")
    case True
    then have d: "d = take 64 d @ drop 64 d" "length (take 64 d) = 64" by auto
    have "chunks 64 d = take 64 d # chunks 64 (drop 64 d)" "tail_of 64 d = tail_of 64 (drop 64 d)"
      using chunks_Cons[OF d(2), of "drop 64 d"] tail_of_append[of 64 "take 64 d" "drop 64 d"] d by simp_all
    moreover have "update_loop state d = update_loop (SHA1_Transform state (take 64 d)) (drop 64 d)"
      using True by (simp add: update_loop.simps[of state d])
    moreover have "SHA1_Transform state (take 64 d) = sha1_compress state (take 64 d)"
      using SHA1_Transform_spec[OF d(2) 1(2)] .
    ultimately show ?thesis using 1 True length_sha1_compress[OF 1(2)] by simp
  next
    case False
    then show ?thesis by (subst update_loop.simps) (simp add: chunks_short tail_of_short)
  qed
qed

lemma buf_write_ok: "j + length d \<le> length buf \<Longrightarrow> buf_write j d buf = Some (take j buf @ d @ drop (j + length d) buf)"
  by (simp add: buf_write_def)

lemma update_core:
  assumes "sha_rep_at e c m"
  shows "\<exists>buf. sat_SHA1_Update c d = Some ((add_count (of_nat (length d)) c)
      \<lparr>sc_state := foldl sha1_compress sha1_init (chunks 64 (m @ d)), sc_buffer := buf\<rparr>) \<and>
    length buf = 64 \<and> take (length (m @ d) mod 64) buf = tail_of 64 (m @ d)"
proof -
  let ?c = "add_count (of_nat (length d)) c" and ?j = "length m mod 64"
  let ?T = "tail_of 64 m" and ?S = "foldl sha1_compress sha1_init (chunks 64 m)"
  have c: "length (sc_buffer c) = 64" "count_ok e c (length m)" "sc_state c = ?S" "take ?j (sc_buffer c) = ?T"
    using assms by (auto simp: sha_rep_at_def)
  have cnt: "sc_buffer ?c = sc_buffer c" "sc_state ?c = ?S"
    using c(3) by (simp_all add: add_count_def Let_def)
  have S: "length ?S = 5" by (rule foldl_compress_5) (simp add: sha1_init_def)
  have j: "?j < 64" by simp
  have upd: "sat_SHA1_Update c d =
     (if ?j + length d > 63 then do {
           buffer \<leftarrow> buf_write ?j (take (64 - ?j) d) (sc_buffer c);
           let state = SHA1_Transform ?S buffer;
           let (state, rest) = update_loop state (drop (64 - ?j) d);
           buffer \<leftarrow> buf_write 0 rest buffer;
           Some (?c\<lparr>sc_state := state, sc_buffer := buffer\<rparr>) }
         else do {
           buffer \<leftarrow> buf_write ?j d (sc_buffer c);
           Some (?c\<lparr>sc_buffer := buffer\<rparr>) })"
    by (simp only: sat_SHA1_Update_def Let_def count_index(1)[OF c(2)] cnt)
  show ?thesis
  proof (cases "?j + length d > 63")
    case True
    define B where "B = ?T @ take (64 - ?j) d"
    define R where "R = drop (64 - ?j) d"
    define Q where "Q = tail_of 64 R @ drop (length (tail_of 64 R)) B"
    have B: "length B = 64" using True j by (simp add: B_def)
    have w: "buf_write ?j (take (64 - ?j) d) (sc_buffer c) = Some B"
      using True j c by (subst buf_write_ok) (auto simp: B_def)
    have "?T @ d = B @ R" by (simp add: B_def R_def)
    then have ch: "chunks 64 (m @ d) = chunks 64 m @ B # chunks 64 R" "tail_of 64 (m @ d) = tail_of 64 R"
      using blocks_grow[of 64 m d] chunks_Cons[OF B, of R] tail_of_append[of 64 B R] B by simp_all
    have t: "length (tail_of 64 R) < 64" by simp
    then have r: "buf_write 0 (tail_of 64 R) B = Some Q"
      using B unfolding Q_def by (subst buf_write_ok) auto
    have "sat_SHA1_Update c d = Some (?c\<lparr>sc_state := foldl sha1_compress ?S (B # chunks 64 R), sc_buffer := Q\<rparr>)"
      unfolding upd R_def[symmetric]
      using True w r SHA1_Transform_spec[OF B S] update_loop_spec[OF length_sha1_compress[OF S]] by simp
    moreover have "length (m @ d) mod 64 = length (tail_of 64 R)"
      using arg_cong[OF ch(2), of length] by (simp only: length_tail_of)
    then have "length Q = 64" "take (length (m @ d) mod 64) Q = tail_of 64 (m @ d)"
      using t B by (simp_all only: Q_def ch(2) append_eq_conv_conj length_append length_drop) simp_all
    ultimately show ?thesis by (intro exI[of _ Q]) (simp add: ch)
  next
    case False
    then have "chunks 64 (m @ d) = chunks 64 m" "tail_of 64 (m @ d) = ?T @ d"
      using blocks_grow[of 64 m d] by (simp_all add: chunks_short tail_of_short)
    moreover have "buf_write ?j d (sc_buffer c) = Some (?T @ d @ drop (?j + length d) (sc_buffer c))"
      using False c by (subst buf_write_ok) auto
    moreover have "length (m @ d) mod 64 = ?j + length d"
      using False by (simp add: mod_add_left_eq[symmetric, of "length m"])
    ultimately show ?thesis
      unfolding upd using False cnt c by (intro exI[of _ "?T @ d @ drop (?j + length d) (sc_buffer c)"]) simp
  qed
qed

lemma update_spec:
  assumes "sha_rep_at e c m" "length d < 2 ^ 29" "length m + length d + 2 ^ 29 * e < 2 ^ 61"
  shows "\<exists>c'. sat_SHA1_Update c d = Some c' \<and> sha_rep_at e c' (m @ d)"
  using update_core[OF assms(1), of d] add_count_ok(1)[OF _ assms(2,3)] assms(1)
  by (auto simp: sha_rep_at_def count_ok_def)

lemma pad_loop_spec:
  assumes "sha_rep_at e c m" "k < 64" "(length m + k) mod 64 = 56" "length m + k + 2 ^ 29 * e < 2 ^ 61"
  shows "\<exists>c'. pad_loop c = Some c' \<and> sha_rep_at e c' (m @ replicate k 0)"
  using assms
proof (induction k arbitrary: c m)
  case 0
  then have "sc_count0 c AND 504 = 448" using count_index(2)[of e c "length m"] by (simp add: sha_rep_at_def)
  then show ?case using 0 by (subst pad_loop.simps) simp
next
  case (Suc k)
  have "length m mod 64 \<noteq> 56"
    using Suc.prems(2,3) ring_index_eq_iff[of "Suc k" 64 0 "length m"] by auto
  then have g: "sc_count0 c AND 504 \<noteq> 448"
    using count_index(2)[of e c "length m"] Suc.prems(1) by (simp add: sha_rep_at_def)
  obtain c1 where c1: "sat_SHA1_Update c [0] = Some c1" "sha_rep_at e c1 (m @ [0])"
    using update_spec[OF Suc.prems(1), of "[0]"] Suc.prems(4) by auto
  moreover have "\<exists>c'. pad_loop c1 = Some c' \<and> sha_rep_at e c' ((m @ [0]) @ replicate k 0)"
    using Suc.prems by (intro Suc.IH[OF c1(2)]) auto
  ultimately show ?case using g by (subst pad_loop.simps) simp
qed

text \<open>The bytes of words.\<close>

lemma be_bytes_word: "map (\<lambda>i. ucast (drop_bit ((3 - i mod 4) * 8) (f (i div 4)) AND 255)) [4 * j..<4 * j + 4] = be_bytes 4 (unat (f j :: u32))"
proof -
  have "[4 * j..<4 * j + 4] = [4 * j, 4 * j + 1, 4 * j + 2, 4 * j + 3]" by (simp add: upt_rec)
  moreover have "[0..<4] = [0, 1, 2, 3 :: nat]" by (simp add: upt_rec)
  moreover have "(4 * j + r) mod 4 = r" "(4 * j + r) div 4 = j" if "r < 4" for r using that by simp_all
  from this[of 0] this[of 1] this[of 2] this[of 3]
  have "4 * j mod 4 = 0" "(4 * j + 1) mod 4 = 1" "(4 * j + 2) mod 4 = 2" "(4 * j + 3) mod 4 = 3"
    "4 * j div 4 = j" "(4 * j + 1) div 4 = j" "(4 * j + 2) div 4 = j" "(4 * j + 3) div 4 = j" by simp_all
  ultimately show ?thesis by (simp add: be_bytes_def byte_of_word)
qed

lemma be_words:
  "map (\<lambda>i. ucast (drop_bit ((3 - i mod 4) * 8) (f (i div 4)) AND 255)) [0..<4 * n] =
     concat (map (\<lambda>j. be_bytes 4 (unat (f j :: u32))) [0..<n])"
proof (induction n)
  case (Suc n)
  have "[0..<4 * Suc n] = [0..<4 * n] @ [4 * n..<4 * n + 4]"
    by (metis le0 mult_Suc_right add.commute upt_add_eq_append)
  then show ?case using Suc be_bytes_word[of f n] by (simp del: upt_Suc) simp
qed simp

lemma be_bytes_add: "b < 256 ^ l \<Longrightarrow> be_bytes (k + l) (256 ^ l * a + b) = be_bytes k a @ be_bytes l b"
proof (induction l arbitrary: b)
  case (Suc l)
  have "(256 ^ Suc l * a + b) div 256 = 256 ^ l * a + b div 256" by (simp add: div_mult2_eq algebra_simps)
  moreover have "(of_nat (256 ^ Suc l * a + b) :: u8) = of_nat b"
  proof -
    have "(256 :: u8) = 0" by simp
    then show ?thesis by (simp only: of_nat_add of_nat_mult of_nat_numeral of_nat_power power_Suc) simp
  qed
  moreover have "b div 256 < 256 ^ l" using Suc.prems by (simp add: less_mult_imp_div_less mult.commute)
  ultimately show ?case using Suc.IH[of "b div 256"] by (simp add: be_bytes_Suc)
qed (simp add: be_bytes_def)

lemma finalcount_spec:
  assumes "count_ok e c n"
  shows "map (\<lambda>i. ucast (drop_bit ((3 - i mod 4) * 8) (if i \<ge> 4 then sc_count0 c else sc_count1 c) AND 255)) [0..<8] = be_bytes 8 (8 * n + 2 ^ 32 * e)"
proof -
  let ?f = "\<lambda>q. if q \<ge> (1::nat) then sc_count0 c else sc_count1 c"
  have "4 \<le> i \<longleftrightarrow> 1 \<le> i div 4" for i :: nat by auto
  then have "map (\<lambda>i. ucast (drop_bit ((3 - i mod 4) * 8) (if i \<ge> 4 then sc_count0 c else sc_count1 c) AND 255)) [0..<8] =
     concat (map (\<lambda>j. be_bytes 4 (unat (?f j))) [0..<2])"
    using be_words[of ?f 2] by (simp only:) simp
  also have "\<dots> = be_bytes (4 + 4) (256 ^ 4 * unat (sc_count1 c) + unat (sc_count0 c))"
    by (subst be_bytes_add) (simp_all add: upt_rec)
  finally show ?thesis using assms by (simp add: count_ok_def)
qed

lemma mod_add_both: "(a + b + x mod M) mod M = (a mod M + b + x) mod M" for M :: nat
  by (metis add.assoc mod_add_left_eq mod_add_right_eq)

lemma final_spec:
  assumes "sha_rep_at e c m" "length m + 128 + 2 ^ 29 * e < 2 ^ 61"
  shows "sat_SHA1_Final c = Some (sha1_digest (md_pad (\<lambda>n. be_bytes 8 (n + 2 ^ 32 * e)) m))"
proof -
  let ?k = "(119 - length m mod 64) mod 64" and ?n = "be_bytes 8 (8 * length m + 2 ^ 32 * e)"
  obtain c1 where c1: "sat_SHA1_Update c [0x80] = Some c1" "sha_rep_at e c1 (m @ [0x80])"
    using update_spec[OF assms(1), of "[0x80]"] assms(2) by auto
  have "(length m + 1 + ?k) mod 64 = (length m mod 64 + 1 + (119 - length m mod 64)) mod 64"
    by (rule mod_add_both)
  also have "\<dots> = 56"
  proof -
    have "length m mod 64 < 64" by simp
    then have "length m mod 64 + 1 + (119 - length m mod 64) = 120" by linarith
    then show ?thesis by simp
  qed
  finally have k: "(length (m @ [0x80 :: u8]) + ?k) mod 64 = 56" by simp
  have lt: "?k < 64" by simp
  have "length (m @ [0x80 :: u8]) = length m + 1" by simp
  then have "length (m @ [0x80 :: u8]) + ?k + 2 ^ 29 * e < 2 ^ 61" using lt assms(2) by linarith
  then obtain c2 where c2: "pad_loop c1 = Some c2" "sha_rep_at e c2 ((m @ [0x80]) @ replicate ?k 0)"
    using pad_loop_spec[OF c1(2) lt k] by blast
  have "length ((m @ [0x80]) @ replicate ?k (0 :: u8)) = length m + 1 + ?k" "length ?n = 8" by simp_all
  then have "length ((m @ [0x80]) @ replicate ?k 0) + length ?n + 2 ^ 29 * e < 2 ^ 61" "length ?n < 2 ^ 29" using lt assms(2) by (linarith, simp)
  then obtain c3 where c3: "sat_SHA1_Update c2 ?n = Some c3" "sha_rep_at e c3 (((m @ [0x80]) @ replicate ?k 0) @ ?n)"
    using update_spec[OF c2(2), of ?n] by blast
  then have st: "sc_state c3 = foldl sha1_compress sha1_init (chunks 64 (md_pad (\<lambda>n. be_bytes 8 (n + 2 ^ 32 * e)) m))"
    by (simp add: sha_rep_at_def md_pad_def)
  have l: "length (sc_state c3) = 5" unfolding st by (rule foldl_compress_5) (simp add: sha1_init_def)
  have out: "map (\<lambda>i. ucast (drop_bit ((3 - i mod 4) * 8) (sc_state c3 ! (i div 4)) AND 255)) [0..<SHA1_DIGEST_SIZE] =
      sha1_digest (md_pad (\<lambda>n. be_bytes 8 (n + 2 ^ 32 * e)) m)"
  proof -
    have "map (\<lambda>j. be_bytes 4 (unat (sc_state c3 ! j))) [0..<5] = map (\<lambda>w. be_bytes 4 (unat w)) (sc_state c3)"
      using l by (intro nth_equalityI) simp_all
    then show ?thesis
      using be_words[of "\<lambda>j. sc_state c3 ! j" 5] by (simp add: sha1_digest_def SHA1_DIGEST_SIZE_def st)
  qed
  have fc: "count_ok e c (length m)" using assms(1) by (simp add: sha_rep_at_def)
  show ?thesis
    unfolding sat_SHA1_Final_def finalcount_spec[OF fc] Let_def using c1(1) c2(1) c3(1) by (simp add: out)
qed

interpretation sha: stream_digest sha_rep "2 ^ 29" "2 ^ 61 - 128" sat_SHA1_Init sat_SHA1_Update sat_SHA1_Final sha1
proof unfold_locales
  show "sha_rep sat_SHA1_Init []"
    by (simp add: sha_rep_at_def sat_SHA1_Init_def count_ok_def sha1_init_def chunks_short tail_of_def)
  show "\<exists>c'. sat_SHA1_Update c d = Some c' \<and> sha_rep c' (m @ d)"
    if "sha_rep c m" "length d < 2 ^ 29" "length m + length d < 2 ^ 61 - 128" for c m d
    using update_spec[OF that(1,2)] that(3) by simp
  show "sat_SHA1_Final c = Some (sha1 m)" if "sha_rep c m" "length m < 2 ^ 61 - 128" for c m
    using final_spec[OF that(1)] that(2) by (simp add: sha1_def)
qed

lemma length_sha1: "length (sha1 m) = 20"
proof -
  have "length (concat (map (\<lambda>w. be_bytes 4 (unat w)) xs)) = 4 * length xs" for xs :: "u32 list"
    by (induction xs) auto
  then show ?thesis
    using foldl_compress_5[of sha1_init] by (simp add: sha1_def sha1_digest_def sha1_init_def)
qed

lemma xor_bytes_word:
  "xor_key [a, b, c, d] (of_nat (be_value [x, x, x, x])) = [a XOR x, b XOR x, c XOR x, d XOR x]"
proof -
  have e: "(of_nat (be_value [d, c, b, a]) :: u32) XOR of_nat (be_value [x, x, x, x]) =
      be_word [d XOR x, c XOR x, b XOR x, a XOR x]"
    unfolding be_word_def[symmetric] be_word_or
    by (rule word32_eqI) (simp add: bit_simps u8_high_bit)
  have "unat (be_word [d XOR x, c XOR x, b XOR x, a XOR x]) = be_value [d XOR x, c XOR x, b XOR x, a XOR x]"
    by (simp only: be_word_or unat_be4) (simp add: be_value_def)
  then show ?thesis
    using be_bytes_be_value[of "[d XOR x, c XOR x, b XOR x, a XOR x]"] by (simp add: e Let_def numeral_eq_Suc)
qed

section \<open>The hashes are the standard ones\<close>

lemma hash_standard:
  assumes "length msg < 2 ^ 29"
  shows "\<exists>c. sat_SHA1_Update sat_SHA1_Init msg = Some c \<and> sat_SHA1_Final c = Some (sha1 msg)"
  using sha.update_law[OF sha.init_law, of msg] sha.final_law[of _ msg] assms by force

text \<open>C10. \<open>lsha1\<close> computes SHA-1: for every string of less than \<open>2 ^ 29\<close> bytes the loops end and the result is
  the digest of FIPS 180-4, 20 bytes long; the unrolled rounds with the circular schedule, the counters
  and the padding by single bytes agree with the standard.\<close>

theorem sha1_standard:
  assumes "length msg < 2 ^ 29"
  shows "lsha1 msg = Some (sha1 msg) \<and> length (sha1 msg) = SHA1_DIGEST_SIZE"
  using hash_standard[OF assms] by (auto simp: lsha1_def length_sha1 SHA1_DIGEST_SIZE_def)

text \<open>C34. A string of \<open>2 ^ 29\<close> bytes or more is hashed with a wrong length: the comparison that is to detect
  the carry compares the 32-bit counter with the length in 64 bits, and counts \<open>2 ^ 32\<close> bits too many.\<close>

theorem sha1_long_count:
  assumes "2 ^ 29 \<le> length msg" "length msg < 2 ^ 60"
  shows "lsha1 msg = Some (sha1_digest (md_pad (\<lambda>n. be_bytes 8 (n + 2 ^ 32)) msg))"
proof -
  let ?len = "of_nat (length msg) :: u64" and ?n = "8 * length msg"
  let ?c = "add_count ?len sat_SHA1_Init"
  let ?w = "ucast (push_bit 3 ?len) :: u32"
  have len: "unat ?len = length msg" using assms(2) by (simp add: unat_of_nat)
  have p: "unat (push_bit 3 ?len) = ?n"
    using assms(2) len by (simp add: push_bit_eq_mult unat_word_ariths del: push_bit_of_nat)
  have c0: "unat ?w = ?n mod 2 ^ 32"
    unfolding unsigned_ucast_eq p by (simp add: take_bit_eq_mod)
  have d: "unat (ucast (drop_bit 29 ?len) :: u32) = ?n div 2 ^ 32"
  proof -
    have "length msg div 2 ^ 29 < 2 ^ 32" using assms(2) by (simp add: less_mult_imp_div_less)
    then show ?thesis
      unfolding unsigned_ucast_eq unat_drop_div len by (simp add: take_bit_nat_eq_self)
  qed
  have lt: "(ucast ?w :: u64) < push_bit 3 ?len"
  proof -
    have "unat (ucast ?w :: u64) = unat ?w"
      by (subst unsigned_ucast_eq) (rule take_bit_nat_eq_self, rule order_less_trans[OF unat_32], simp)
    moreover have "unat ?w < 2 ^ 32" by simp
    moreover have "2 ^ 32 \<le> ?n" using assms(1) by simp
    ultimately show ?thesis unfolding word_less_nat_alt p by linarith
  qed
  have "?n div 2 ^ 32 < 2 ^ 31" using assms(2) by (simp add: less_mult_imp_div_less)
  then have c1: "unat (1 + ucast (drop_bit 29 ?len) :: u32) = ?n div 2 ^ 32 + 1"
    unfolding unat_word_ariths d by simp
  have "unat (sc_count1 ?c) = ?n div 2 ^ 32 + 1" "unat (sc_count0 ?c) = ?n mod 2 ^ 32"
    using lt c0 c1 by (simp_all add: add_count_def sat_SHA1_Init_def Let_def del: push_bit_of_nat)
  moreover have "2 ^ 32 * (?n div 2 ^ 32 + 1) + ?n mod 2 ^ 32 = ?n + 2 ^ 32"
    using mult_div_mod_eq[of "2 ^ 32" ?n] by (simp only: add_mult_distrib2)
  ultimately have "2 ^ 32 * unat (sc_count1 ?c) + unat (sc_count0 ?c) = ?n + 2 ^ 32" by (simp only:)
  then obtain c where "sat_SHA1_Update sat_SHA1_Init msg = Some c" "sha_rep_at 1 c msg"
    using update_core[OF sha.init_law, of msg] by (auto simp: sha_rep_at_def count_ok_def)
  then show ?thesis
    using final_spec[of 1 c msg] assms(2) by (simp add: lsha1_def)
qed

lemma xor_key_spec: "4 dvd length key \<Longrightarrow> xor_key key (of_nat (be_value [x, x, x, x])) = map (\<lambda>b. b XOR x) key"
proof (induction key "of_nat (be_value [x, x, x, x]) :: u32" rule: xor_key.induct)
  case (1 a b c d key)
  have "length (a # b # c # d # key) = length key + 4" by simp
  then have "4 dvd length key" using 1(2) by (simp only: dvd_add_triv_right_iff)
  then show ?case using 1 xor_bytes_word[of a b c d x] by (simp add: Let_def)
qed (auto dest: dvd_imp_le)

text \<open>C11. \<open>lhmac_sha1\<close> computes HMAC over SHA-1 as FIPS 198-1 defines it, for every key and text of less than
  \<open>2 ^ 29\<close> bytes; keys of more than 64 bytes are hashed first.\<close>

theorem hmac_sha1_standard:
  assumes "length key < 2 ^ 29" "length txt < 2 ^ 29"
  shows "lhmac_sha1 key txt = Some (hmac_spec sha1 key txt)"
proof -
  let ?z = "replicate BLOCKSIZE (0 :: u8)"
  let ?rkey = "if length key > BLOCKSIZE then do {
         ctx \<leftarrow> sat_SHA1_Update sat_SHA1_Init key;
         digest \<leftarrow> sat_SHA1_Final ctx;
         buf_write 0 digest ?z }
       else buf_write 0 key ?z"
  define K where "K = hmac_key sha1 key"
  define opad where "opad = map (\<lambda>b. b XOR 0x5c) K"
  define ipad where "ipad = map (\<lambda>b. b XOR 0x36) K"
  have K: "length K = 64" by (simp add: K_def hmac_key_def Let_def length_sha1)
  have r: "?rkey = Some K"
    using hash_standard[OF assms(1)] length_sha1[of key]
    by (auto simp: K_def hmac_key_def BLOCKSIZE_def buf_write_def)
  have xo: "xor_key K 0x5c5c5c5c = opad"
    using xor_key_spec[of K "0x5c"] K by (simp add: opad_def be_value_def)
  have "(b XOR 0x5c) XOR 0x6a = b XOR 0x36" for b :: u8 by (simp add: xor.assoc)
  then have xi: "xor_key opad (0x5c5c5c5c XOR 0x36363636) = ipad"
    using xor_key_spec[of opad "0x6a"] K by (simp add: opad_def ipad_def be_value_def)
  have oi: "length opad = 64" "length ipad = 64" by (simp_all add: opad_def ipad_def K)
  obtain c1 where c1: "sat_SHA1_Update sat_SHA1_Init opad = Some c1" "sha_rep c1 ([] @ opad)"
    using sha.update_law[OF sha.init_law, of opad] oi by auto
  obtain c2 where c2: "sat_SHA1_Update sat_SHA1_Init ipad = Some c2" "sha_rep c2 ([] @ ipad)"
    using sha.update_law[OF sha.init_law, of ipad] oi by auto
  obtain c3 where c3: "sat_SHA1_Update c2 txt = Some c3" "sat_SHA1_Final c3 = Some (sha1 (ipad @ txt))"
    using sha.update_law[OF c2(2), of "txt"] sha.final_law[of _ "ipad @ txt"] oi assms(2) by force
  obtain c4 where c4: "sat_SHA1_Update c1 (sha1 (ipad @ txt)) = Some c4"
      "sat_SHA1_Final c4 = Some (sha1 (opad @ sha1 (ipad @ txt)))"
    using sha.update_law[OF c1(2), of "sha1 (ipad @ txt)"] sha.final_law[of _ "opad @ sha1 (ipad @ txt)"] oi length_sha1 by force
  show ?thesis
    unfolding lhmac_sha1_def Let_def r bind.bind_lunit xo xi c1(1) c2(1) c3 c4
    by (simp add: hmac_spec_def K_def[symmetric] opad_def ipad_def)
qed
theorem sha1_standard_witness:
  "lsha1 [97, 98, 99] = Some (sha1 [97, 98, 99]) \<and> length (sha1 [97, 98, 99]) = SHA1_DIGEST_SIZE"
  by (rule sha1_standard) simp

theorem sha1_long_count_witness:
  "lsha1 (replicate (2 ^ 29) 0) = Some (sha1_digest (md_pad (\<lambda>n. be_bytes 8 (n + 2 ^ 32)) (replicate (2 ^ 29) 0)))"
  by (rule sha1_long_count) simp_all

theorem hmac_sha1_standard_witness: "lhmac_sha1 (replicate 70 1) [65] = Some (hmac_spec sha1 (replicate 70 1) [65])"
  by (rule hmac_sha1_standard) simp_all

end
