(* ===== verification/KeyExchange.thy ===== *)
theory KeyExchange
  imports Codec Framing
begin

text \<open>
  The key exchange of \<open>lualib-src/lua-crypt.c\<close>: powers modulo the largest prime below \<open>2 ^ 64\<close> in 64-bit
  arithmetic, and the two functions of the Diffie-Hellman protocol on eight-byte keys.
\<close>

section \<open>Keys\<close>

definition le32 :: "u8 \<Rightarrow> u8 \<Rightarrow> u8 \<Rightarrow> u8 \<Rightarrow> u32" where
  "le32 a b c d = ucast a OR push_bit 8 (ucast b) OR push_bit 16 (ucast c) OR push_bit 24 (ucast d)"

fun read_pair :: "u8 list \<Rightarrow> (u32 \<times> u32) option" where
  "read_pair [a, b, c, d, e, f, g, h] = Some (le32 a b c d, le32 e f g h)"
| "read_pair _ = None"

definition read64 :: "u8 list \<Rightarrow> u8 list \<Rightarrow> string + ((u32 \<times> u32) \<times> (u32 \<times> u32))" where
  "read64 x y =
     (case read_pair x of
        None \<Rightarrow> Inl ''Invalid uint64 x''
      | Some xx \<Rightarrow> (case read_pair y of None \<Rightarrow> Inl ''Invalid uint64 y'' | Some yy \<Rightarrow> Inr (xx, yy)))"

definition join64 :: "u32 \<times> u32 \<Rightarrow> u64" where
  "join64 x = ucast (fst x) OR push_bit 32 (ucast (snd x))"

definition push64 :: "u64 \<Rightarrow> u8 list" where
  "push64 r = map (\<lambda>i. ucast (drop_bit (8 * i) r AND 0xff)) [0..<8]"

section \<open>Powers\<close>

definition dh_P :: u64 where "dh_P = 0xffffffffffffffc5"
definition dh_G :: u64 where "dh_G = 5"

function mul_loop :: "u64 \<Rightarrow> u64 \<Rightarrow> u64 \<Rightarrow> u64" where
  "mul_loop m a b =
     (if b = 0 then m
      else
        let m = (if b AND 1 \<noteq> 0 then let t = dh_P - a in if m \<ge> t then m - t else m + a else m);
            a = (if a \<ge> dh_P - a then a * 2 - dh_P else a * 2)
        in mul_loop m a (drop_bit 1 b))"
  by pat_completeness auto
termination
proof (relation "measure (\<lambda>(m, a, b). unat b)")
  fix m a b :: u64 and m' a'
  assume "b \<noteq> 0"
  then have "unat (drop_bit 1 b) < unat b" by (simp add: unat_drop_div unat_gt_0)
  then show "((m', a', drop_bit 1 b), (m, a, b)) \<in> measure (\<lambda>(m, a, b). unat b)" by simp
qed simp

declare mul_loop.simps [simp del]

definition mul_mod_p :: "u64 \<Rightarrow> u64 \<Rightarrow> u64" where
  "mul_mod_p a b = mul_loop 0 a b"

text \<open>The recursion does not end for the exponent 0, which the callers exclude.\<close>

partial_function (option) pow_mod_p :: "u64 \<Rightarrow> u64 \<Rightarrow> u64 option" where
  "pow_mod_p a b =
     (if b = 1 then Some a
      else do {
        t \<leftarrow> pow_mod_p a (drop_bit 1 b);
        let t = mul_mod_p t t;
        Some (if b mod 2 \<noteq> 0 then mul_mod_p t a else t) })"

declare pow_mod_p.simps [code]

definition powmodp :: "u64 \<Rightarrow> u64 \<Rightarrow> u64 option" where
  "powmodp a b = pow_mod_p (if a > dh_P then a mod dh_P else a) b"

section \<open>Protocol\<close>

definition ldhsecret :: "u8 list \<Rightarrow> u8 list \<Rightarrow> u8 list lua" where
  "ldhsecret x y =
     (case read64 x y of
        Inl e \<Rightarrow> luaL_error e
      | Inr (x, y) \<Rightarrow>
          let xx = join64 x; yy = join64 y in
          if xx = 0 \<or> yy = 0 then luaL_error ''Can't be 0''
          else do { r \<leftarrow> powmodp xx yy; Some (Inr (push64 r)) })"

definition ldhexchange :: "u8 list \<Rightarrow> u8 list lua" where
  "ldhexchange x =
     (case read_pair x of
        None \<Rightarrow> luaL_error ''Invalid dh uint64 key''
      | Some x \<Rightarrow>
          if join64 x = 0 then luaL_error ''Can't be 0''
          else do { r \<leftarrow> powmodp dh_G (join64 x); Some (Inr (push64 r)) })"

section \<open>Multiplication modulo the prime\<close>

abbreviation PP :: nat where "PP \<equiv> unat dh_P"

lemma PP_eq: "PP = 18446744073709551557"
  by (simp add: dh_P_def)

lemma unat_u64: "unat (w :: u64) < 18446744073709551616"
  using unsigned_less[of w] by simp

lemma add_step:
  assumes "m < dh_P" "a \<le> dh_P"
  defines "m' \<equiv> (if m \<ge> dh_P - a then m - (dh_P - a) else m + a)"
  shows "m' < dh_P" "unat m' = (unat m + unat a) mod PP"
proof -
  have lt: "unat m < PP" "unat a \<le> PP" using assms(1,2) by (simp_all add: word_less_nat_alt word_le_nat_alt)
  have t: "unat (dh_P - a) = PP - unat a" using assms(2) by (rule unat_sub)
  have "unat m' = (unat m + unat a) mod PP \<and> unat m' < PP"
  proof (cases "m \<ge> dh_P - a")
    case True
    then have le: "PP - unat a \<le> unat m" by (simp add: word_le_nat_alt t)
    have "unat m' = unat m - (PP - unat a)" using True by (simp add: m'_def unat_sub t)
    moreover have "unat m + unat a - PP < PP" using lt by linarith
    moreover have "unat m - (PP - unat a) = unat m + unat a - PP" "PP \<le> unat m + unat a" using le lt by linarith+
    ultimately show ?thesis by (simp add: le_mod_geq)
  next
    case False
    then have "unat m < PP - unat a" by (simp add: word_le_nat_alt t)
    then have s: "unat m + unat a < PP" by linarith
    then have "unat (m + a) = unat m + unat a" using PP_eq by (simp add: unat_word_ariths)
    then show ?thesis using False s by (simp add: m'_def)
  qed
  then show "m' < dh_P" "unat m' = (unat m + unat a) mod PP" by (simp_all add: word_less_nat_alt)
qed

lemma double_step:
  assumes "a \<le> dh_P"
  defines "a' \<equiv> (if a \<ge> dh_P - a then a * 2 - dh_P else a * 2)"
  shows "a' \<le> dh_P" "unat a' mod PP = 2 * unat a mod PP"
proof -
  have lt: "unat a \<le> PP" using assms(1) by (simp add: word_le_nat_alt)
  have t: "unat (dh_P - a) = PP - unat a" using assms(1) by (rule unat_sub)
  have "unat a' mod PP = 2 * unat a mod PP \<and> unat a' \<le> PP"
  proof (cases "a \<ge> dh_P - a")
    case True
    then have le: "PP - unat a \<le> unat a" by (simp add: word_le_nat_alt t)
    have "a * 2 - dh_P = a - (dh_P - a)" by (simp add: algebra_simps)
    then have "a' = a - (dh_P - a)" using True by (simp only: a'_def if_True)
    then have "unat a' = unat a - (PP - unat a)" using unat_sub[OF True] t by simp
    then have "unat a' + PP = 2 * unat a" "unat a' \<le> PP" using le lt by linarith+
    then show ?thesis by (metis mod_add_self2)
  next
    case False
    then have s: "2 * unat a < PP" by (simp add: word_le_nat_alt t)
    then have "unat (a * 2) = 2 * unat a" using PP_eq by (simp add: unat_word_ariths)
    then show ?thesis using False s by (simp add: a'_def)
  qed
  then show "a' \<le> dh_P" "unat a' mod PP = 2 * unat a mod PP" by (simp_all add: word_le_nat_alt)
qed

lemma mul_loop_ok:
  assumes "m < dh_P" "a \<le> dh_P"
  shows "mul_loop m a b < dh_P \<and> unat (mul_loop m a b) = (unat m + unat a * unat b) mod PP"
  using assms
proof (induction m a b rule: mul_loop.induct)
  case (1 m a b)
  show ?case
  proof (cases "b = 0")
    case True
    then show ?thesis using 1(2) by (simp add: mul_loop.simps word_less_nat_alt)
  next
    case False
    define m' where "m' = (if b AND 1 \<noteq> 0 then if m \<ge> dh_P - a then m - (dh_P - a) else m + a else m)"
    define a' where "a' = (if a \<ge> dh_P - a then a * 2 - dh_P else a * 2)"
    have odd: "b AND 1 \<noteq> 0 \<longleftrightarrow> unat b mod 2 = 1"
    proof -
      have "unat (b AND 1) = unat b mod 2" using unat_and_mask[of b 1] by simp
      then show ?thesis by (metis mod_less_divisor not_mod_2_eq_0_eq_1 unat_0 unat_gt_0 less_irrefl zero_less_one)
    qed
    have m': "m' < dh_P" "unat m' = (unat m + unat a * (unat b mod 2)) mod PP"
      using add_step[OF 1(2,3)] 1(2) odd by (auto simp: m'_def word_less_nat_alt)
    have a': "a' \<le> dh_P" "unat a' mod PP = 2 * unat a mod PP"
      using double_step[OF 1(3)] by (auto simp: a'_def)
    have "mul_loop m a b = mul_loop m' a' (drop_bit 1 b)"
      using False by (subst mul_loop.simps) (simp add: m'_def a'_def Let_def)
    moreover have "mul_loop m' a' (drop_bit 1 b) < dh_P \<and>
        unat (mul_loop m' a' (drop_bit 1 b)) = (unat m' + unat a' * unat (drop_bit 1 b)) mod PP"
      using 1(1)[unfolded Let_def, OF False m'_def a'_def m'(1) a'(1)] by simp
    moreover have "(unat m' + unat a' * unat (drop_bit 1 b)) mod PP = (unat m + unat a * unat b) mod PP"
    proof -
      have "(unat m' + unat a' * (unat b div 2)) mod PP = (unat m + unat a * (unat b mod 2) + 2 * unat a * (unat b div 2)) mod PP"
        by (rule mod_add_cong) (simp add: m'(2), rule mod_mult_cong[OF a'(2) refl])
      also have "\<dots> = (unat m + unat a * (unat b mod 2 + 2 * (unat b div 2))) mod PP"
        by (simp only: distrib_left mult.assoc mult.left_commute[of 2] add.assoc)
      finally show ?thesis by (simp add: unat_drop_div)
    qed
    ultimately show ?thesis by simp
  qed
qed

lemma mul_mod_p_ok:
  assumes "a \<le> dh_P"
  shows "mul_mod_p a b < dh_P" "unat (mul_mod_p a b) = unat a * unat b mod PP"
  using mul_loop_ok[OF _ assms, of 0 b] by (simp_all add: mul_mod_p_def dh_P_def)

section \<open>Powers modulo the prime\<close>

text \<open>The exponent loses its lowest bit in every call.\<close>

lemma pow_mod_p_ok:
  assumes "a \<le> dh_P" "b \<noteq> 0"
  shows "\<exists>r. pow_mod_p a b = Some r \<and> r \<le> dh_P \<and> unat r mod PP = unat a ^ unat b mod PP \<and> (b \<noteq> 1 \<longrightarrow> r < dh_P)"
  using assms(2)
proof (induction "unat b" arbitrary: b rule: less_induct)
  case less
  show ?case
  proof (cases "b = 1")
    case True
    then show ?thesis using assms(1) by (simp add: pow_mod_p.simps)
  next
    case False
    define c where "c = drop_bit 1 b"
    have c: "unat c = unat b div 2" by (simp add: c_def unat_drop_div)
    have b2: "1 < unat b" using False less.prems by (metis less_one linorder_neqE_nat unat_0_iff unat_1 word_unat_eq_iff)
    have "c \<noteq> 0" "unat c < unat b" using b2 c by (auto simp: unat_eq_0)
    with less.hyps[of c] obtain t where t: "pow_mod_p a c = Some t" "t \<le> dh_P" "unat t mod PP = unat a ^ unat c mod PP" by blast
    define s where "s = mul_mod_p t t"
    have s: "s < dh_P" "unat s = unat t * unat t mod PP"
      using mul_mod_p_ok[OF t(2)] by (simp_all add: s_def)
    define r where "r = (if b mod 2 \<noteq> 0 then mul_mod_p s a else s)"
    have "pow_mod_p a b = Some r"
      using False t(1) by (subst pow_mod_p.simps) (simp add: c_def r_def s_def)
    moreover have "r < dh_P"
      using s(1) mul_mod_p_ok(1)[of s a] by (simp add: r_def)
    moreover have "unat r mod PP = unat a ^ unat b mod PP"
    proof -
      have sq: "unat s mod PP = unat a ^ (2 * unat c) mod PP"
        using mod_mult_cong[OF t(3) t(3)] by (simp add: s(2) mult_2 power_add)
      have b: "unat b = 2 * unat c + unat b mod 2" unfolding c by simp
      have "unat (b mod 2) = unat b mod 2" by (simp add: unat_mod)
      then have "b mod 2 \<noteq> 0 \<longleftrightarrow> unat b mod 2 = 1" by (metis not_mod_2_eq_0_eq_1 unat_eq_0 zero_neq_one)
      then show ?thesis
        using mod_mult_cong[OF sq refl, of "unat a"] sq s(1) b
        by (cases "unat b mod 2 = 1") (auto simp: r_def mul_mod_p_ok(2) power_add mult.commute)
    qed
    ultimately show ?thesis by auto
  qed
qed

lemma pow_mod_p_zero:
  assumes "pow_mod_p a b = Some r"
  shows "b \<noteq> 0"
  by (rule pow_mod_p.raw_induct[where P = "\<lambda>a b r. b \<noteq> 0", OF _ assms])
    (fastforce split: if_splits bind_splits)

lemma reduced_base:
  fixes a :: u64
  defines "a' \<equiv> (if a > dh_P then a mod dh_P else a)"
  shows "a' \<le> dh_P" "unat a' mod PP = unat a mod PP" "a' = dh_P \<longleftrightarrow> a = dh_P"
proof -
  have m: "unat (a mod dh_P) = unat a mod PP" by (rule unat_mod)
  moreover have "unat a mod PP < PP" using PP_eq by simp
  ultimately have "a mod dh_P < dh_P" by (simp add: word_less_nat_alt)
  with m show "a' \<le> dh_P" "unat a' mod PP = unat a mod PP" "a' = dh_P \<longleftrightarrow> a = dh_P"
    by (auto simp: a'_def not_less split: if_splits)
qed

lemma powmodp_ok:
  assumes "b \<noteq> 0"
  shows "\<exists>r. powmodp a b = Some r \<and> unat r = (if a = dh_P \<and> b = 1 then PP else unat a ^ unat b mod PP)"
proof -
  define a' where "a' = (if a > dh_P then a mod dh_P else a)"
  note a' = reduced_base[of a, folded a'_def]
  obtain r where r: "pow_mod_p a' b = Some r" "r \<le> dh_P" "unat r mod PP = unat a' ^ unat b mod PP" "b \<noteq> 1 \<longrightarrow> r < dh_P"
    using pow_mod_p_ok[OF a'(1) assms] by blast
  have p: "unat r mod PP = unat a ^ unat b mod PP"
    using r(3) a'(2) power_mod[of "unat a'" PP "unat b"] power_mod[of "unat a" PP "unat b"] by simp
  have "r = dh_P \<longleftrightarrow> a = dh_P \<and> b = 1"
  proof (cases "b = 1")
    case True
    then have "r = a'" using r(1) by (simp add: pow_mod_p.simps)
    then show ?thesis using True a'(3) by simp
  qed (use r(4) in auto)
  moreover have "unat r = unat r mod PP" if "r \<noteq> dh_P"
  proof -
    have "r < dh_P" using that r(2) by simp
    then have "unat r < PP" by (simp add: word_less_nat_alt)
    then show ?thesis by simp
  qed
  ultimately have "unat r = (if a = dh_P \<and> b = 1 then PP else unat a ^ unat b mod PP)"
    using p by auto
  with r(1) show ?thesis by (simp add: powmodp_def a'_def)
qed

text \<open>C13. \<open>powmodp\<close> ends for every exponent but 0 and computes the power modulo the prime, in 64-bit words, for
  every base; the exception is the prime itself to the power 1, which comes out unreduced because the
  base is compared with \<open>>\<close>. For the exponent 0 the recursion never ends.\<close>

theorem powmodp_correct:
  "if b = 0 then powmodp a b = None
   else \<exists>r. powmodp a b = Some r \<and> unat r = (if a = dh_P \<and> b = 1 then PP else unat a ^ unat b mod PP)"
  using pow_mod_p_zero[of _ b] powmodp_ok[of b a] by (cases "powmodp a b") (auto simp: powmodp_def)

section \<open>Keys as numbers\<close>

definition key_value :: "u8 list \<Rightarrow> nat" where
  "key_value x = be_value (rev x)"

lemma unat_le32: "unat (le32 a b c d) = ((unat d * 256 + unat c) * 256 + unat b) * 256 + unat a"
proof -
  have "le32 a b c d = push_bit 24 (ucast d) OR push_bit 16 (ucast c) OR push_bit 8 (ucast b) OR ucast a"
    by (simp add: le32_def or.commute or.left_commute)
  then show ?thesis by (simp only: unat_be4)
qed

lemma read_pair_value:
  assumes "length x = 8"
  shows "\<exists>p. read_pair x = Some p \<and> unat (join64 p) = key_value x"
proof -
  from assms obtain a b c d e f g h where x: "x = [a, b, c, d, e, f, g, h]"
    by (auto simp: length_Suc_conv numeral_eq_Suc)
  define l where "l = le32 a b c d"
  define m where "m = le32 e f g h"
  have u: "unat (ucast w :: u64) = unat w" for w :: u32
    using unat_32[of w] by (simp add: unsigned_ucast_eq take_bit_nat_eq_self less_trans[of _ "4294967296"])
  have "unat (push_bit 32 (ucast m) OR ucast l :: u64) = unat m * 2 ^ 32 + unat l"
    using unat_32[of l] unat_32[of m] u
    by (subst unat_shift_or) (simp_all)
  then have "unat (join64 (l, m)) = key_value x"
    by (simp add: join64_def or.commute l_def m_def unat_le32 key_value_def x be_value_def)
  then show ?thesis
    by (simp add: x l_def m_def)
qed

lemma push64_value: "length (push64 r) = 8" "key_value (push64 r) = unat r"
proof -
  show "length (push64 r) = 8" by (simp add: push64_def)
  have b: "(ucast (drop_bit k r AND 0xff) :: u8) = of_nat (unat r div 2 ^ k)" for k
    using unat_and_mask[of "drop_bit k r" 8]
    by (simp add: word_unat_eq_iff unat_of_nat unsigned_ucast_eq take_bit_nat_def unat_drop_div)
  have "push64 r = rev (be_bytes 8 (unat r))"
    unfolding push64_def be_bytes_def b rev_map
    by (intro nth_equalityI) (auto simp: rev_nth power_mult)
  then show "key_value (push64 r) = unat r"
    using be_value_be_bytes[of "unat r" 8] unat_u64[of r] by (simp add: key_value_def)
qed

lemma power5_mod: "5 ^ k mod PP \<noteq> 0" "5 ^ k mod PP < PP"
proof -
  have "coprime 5 PP"
  proof (rule coprimeI)
    fix d assume d: "d dvd 5" "d dvd PP"
    then have "d dvd PP - 5 * 3689348814741910311" by (intro dvd_diff_nat dvd_mult2)
    then have "d dvd 2" by (simp add: PP_eq)
    then have "d dvd 5 - 2 * 2" using d(1) by (intro dvd_diff_nat dvd_mult2)
    then show "is_unit d" by simp
  qed
  then have c: "coprime (5 ^ k) PP" by simp
  have "\<not> PP dvd 5 ^ k"
  proof
    assume "PP dvd 5 ^ k"
    then have "is_unit PP" using c coprime_common_divisor[of "5 ^ k" PP PP] by simp
    then show False by (simp add: PP_eq)
  qed
  then show "5 ^ k mod PP \<noteq> 0" by (simp add: mod_eq_0_iff_dvd)
  show "5 ^ k mod PP < PP" using PP_eq by simp
qed

lemma dh_public:
  assumes "length x = 8" "key_value x \<noteq> 0"
  shows "\<exists>X. ldhexchange x = Some (Inr X) \<and> length X = 8 \<and> key_value X = 5 ^ key_value x mod PP"
proof -
  obtain p where p: "read_pair x = Some p" "unat (join64 p) = key_value x" using read_pair_value[OF assms(1)] by blast
  then have "join64 p \<noteq> 0" using assms(2) by auto
  moreover have "dh_G \<noteq> dh_P" "unat dh_G = 5" by (simp_all add: dh_G_def dh_P_def)
  ultimately obtain r where "powmodp dh_G (join64 p) = Some r" "unat r = 5 ^ key_value x mod PP"
    using powmodp_ok[of "join64 p" dh_G] p(2) by auto
  with p(1) \<open>join64 p \<noteq> 0\<close> show ?thesis
    by (simp add: ldhexchange_def push64_value)
qed

lemma dh_shared:
  assumes "length x = 8" "key_value x \<noteq> 0" "length Y = 8" "key_value Y = 5 ^ k mod PP"
  shows "\<exists>s. ldhsecret Y x = Some (Inr (push64 s)) \<and> unat s = 5 ^ (k * key_value x) mod PP"
proof -
  obtain p where p: "read_pair x = Some p" "unat (join64 p) = key_value x" using read_pair_value[OF assms(1)] by blast
  obtain q where q: "read_pair Y = Some q" "unat (join64 q) = 5 ^ k mod PP"
    using read_pair_value[OF assms(3)] assms(4) by auto
  have "join64 p \<noteq> 0" using p(2) assms(2) by auto
  moreover have "5 ^ k mod PP \<noteq> 0" "5 ^ k mod PP < PP" by (rule power5_mod)+
  then have "join64 q \<noteq> 0" "join64 q \<noteq> dh_P" using q(2) by auto
  ultimately obtain r where "powmodp (join64 q) (join64 p) = Some r" "unat r = (5 ^ k mod PP) ^ key_value x mod PP"
    using powmodp_ok[of "join64 p" "join64 q"] p(2) q(2) by auto
  moreover have "(5 ^ k mod PP) ^ key_value x mod PP = 5 ^ (k * key_value x) mod PP"
    by (simp add: power_mod power_mult)
  ultimately show ?thesis
    using p(1) q(1) \<open>join64 p \<noteq> 0\<close> \<open>join64 q \<noteq> 0\<close> by (auto simp: ldhsecret_def read64_def)
qed

text \<open>C12. The key exchange agrees: for any two non-zero private keys, each side computes from the public key of
  the other the same secret, the generator to the product of the keys modulo the prime; no step fails.\<close>

theorem dh_agreement:
  assumes "length x = 8" "length y = 8" "key_value x \<noteq> 0" "key_value y \<noteq> 0"
  shows "\<exists>X Y s. ldhexchange x = Some (Inr X) \<and> ldhexchange y = Some (Inr Y) \<and>
    ldhsecret Y x = Some (Inr s) \<and> ldhsecret X y = Some (Inr s) \<and>
    key_value s = 5 ^ (key_value x * key_value y) mod PP"
proof -
  obtain X Y where X: "ldhexchange x = Some (Inr X)" "length X = 8" "key_value X = 5 ^ key_value x mod PP"
    and Y: "ldhexchange y = Some (Inr Y)" "length Y = 8" "key_value Y = 5 ^ key_value y mod PP"
    using dh_public[OF assms(1,3)] dh_public[OF assms(2,4)] by blast
  obtain r s where r: "ldhsecret Y x = Some (Inr (push64 r))" "unat r = 5 ^ (key_value y * key_value x) mod PP"
    and s: "ldhsecret X y = Some (Inr (push64 s))" "unat s = 5 ^ (key_value x * key_value y) mod PP"
    using dh_shared[OF assms(1,3) Y(2,3)] dh_shared[OF assms(2,4) X(2,3)] by blast
  have "unat r = unat s" using r(2) s(2) by (simp add: mult.commute)
  then have "r = s" by (simp add: word_unat_eq_iff)
  then show ?thesis
    using X(1) Y(1) r(1) s by (auto simp: push64_value)
qed

theorem dh_agreement_witness:
  "\<exists>X Y s. ldhexchange [1,2,3,4,5,6,7,8] = Some (Inr X) \<and> ldhexchange [8,7,6,5,4,3,2,1] = Some (Inr Y) \<and>
    ldhsecret Y [1,2,3,4,5,6,7,8] = Some (Inr s) \<and> ldhsecret X [8,7,6,5,4,3,2,1] = Some (Inr s)"
proof -
  have "key_value [1,2,3,4,5,6,7,8] \<noteq> 0" "key_value [8,7,6,5,4,3,2,1] \<noteq> 0"
    by (simp_all add: key_value_def be_value_def)
  with dh_agreement[of "[1,2,3,4,5,6,7,8]" "[8,7,6,5,4,3,2,1]"] show ?thesis by auto
qed

end
