(* ===== verification/Hmac64.thy ===== *)
theory Hmac64
  imports KeyExchange Digest_Spec
begin

text \<open>
  The keyed hashes of \<open>lualib-src/lua-crypt.c\<close> over one block of MD5: \<open>lhmac64\<close>, which leaves out the padding
  and the final additions of MD5, \<open>lhmac64_md5\<close>, which is documented by a program over a full MD5, and \<open>lhmac_hash\<close>.
\<close>

section \<open>One block of MD5\<close>

definition md5_k :: "u32 list" where
  "md5_k = [
      0xd76aa478, 0xe8c7b756, 0x242070db, 0xc1bdceee,
      0xf57c0faf, 0x4787c62a, 0xa8304613, 0xfd469501,
      0x698098d8, 0x8b44f7af, 0xffff5bb1, 0x895cd7be,
      0x6b901122, 0xfd987193, 0xa679438e, 0x49b40821,
      0xf61e2562, 0xc040b340, 0x265e5a51, 0xe9b6c7aa,
      0xd62f105d, 0x02441453, 0xd8a1e681, 0xe7d3fbc8,
      0x21e1cde6, 0xc33707d6, 0xf4d50d87, 0x455a14ed,
      0xa9e3e905, 0xfcefa3f8, 0x676f02d9, 0x8d2a4c8a,
      0xfffa3942, 0x8771f681, 0x6d9d6122, 0xfde5380c,
      0xa4beea44, 0x4bdecfa9, 0xf6bb4b60, 0xbebfbc70,
      0x289b7ec6, 0xeaa127fa, 0xd4ef3085, 0x04881d05,
      0xd9d4d039, 0xe6db99e5, 0x1fa27cf8, 0xc4ac5665,
      0xf4292244, 0x432aff97, 0xab9423a7, 0xfc93a039,
      0x655b59c3, 0x8f0ccc92, 0xffeff47d, 0x85845dd1,
      0x6fa87e4f, 0xfe2ce6e0, 0xa3014314, 0x4e0811a1,
      0xf7537e82, 0xbd3af235, 0x2ad7d2bb, 0xeb86d391]"

definition md5_r :: "nat list" where
  "md5_r = [
      7, 12, 17, 22, 7, 12, 17, 22, 7, 12, 17, 22, 7, 12, 17, 22,
      5, 9, 14, 20, 5, 9, 14, 20, 5, 9, 14, 20, 5, 9, 14, 20,
      4, 11, 16, 23, 4, 11, 16, 23, 4, 11, 16, 23, 4, 11, 16, 23,
      6, 10, 15, 21, 6, 10, 15, 21, 6, 10, 15, 21, 6, 10, 15, 21]"

definition LEFTROTATE :: "u32 \<Rightarrow> nat \<Rightarrow> u32" where
  "LEFTROTATE x c = push_bit c x OR drop_bit (32 - c) x"

definition md5_step :: "u32 list \<Rightarrow> u32 \<times> u32 \<times> u32 \<times> u32 \<Rightarrow> nat \<Rightarrow> u32 \<times> u32 \<times> u32 \<times> u32" where
  "md5_step w = (\<lambda>(a, b, c, d) i.
     let (f, g) =
           (if i < 16 then ((b AND c) OR (NOT b AND d), i)
            else if i < 32 then ((d AND b) OR (NOT d AND c), (5 * i + 1) mod 16)
            else if i < 48 then (b XOR c XOR d, (3 * i + 5) mod 16)
            else (c XOR (b OR NOT d), 7 * i mod 16))
     in (d, b + LEFTROTATE (a + f + md5_k ! i + w ! g) (md5_r ! i), b, c))"

definition digest_md5 :: "u32 list \<Rightarrow> u32 \<times> u32 \<times> u32 \<times> u32" where
  "digest_md5 w = foldl (md5_step w) (0x67452301, 0xefcdab89, 0x98badcfe, 0x10325476) [0..<64]"

section \<open>Keyed hashes\<close>

definition hmac :: "u32 \<times> u32 \<Rightarrow> u32 \<times> u32 \<Rightarrow> u32 \<times> u32" where
  "hmac x y =
     (let w = concat (replicate 4 [snd x, fst x, snd y, fst y]);
          (r0, r1, r2, r3) = digest_md5 w
      in (r2 XOR r3, r0 XOR r1))"

definition hmac_md5 :: "u32 \<times> u32 \<Rightarrow> u32 \<times> u32 \<Rightarrow> u32 \<times> u32" where
  "hmac_md5 x y =
     (let w = concat (replicate 3 [fst x, snd x, fst y, snd y]) @ [0x80, 0, 384, 0];
          (r0, r1, r2, r3) = digest_md5 w
      in ((r0 + 0x67452301) XOR (r2 + 0x98badcfe), (r1 + 0xefcdab89) XOR (r3 + 0x10325476)))"

definition pushqword :: "u32 \<times> u32 \<Rightarrow> u8 list" where
  "pushqword result = le_bytes4 (fst result) @ le_bytes4 (snd result)"

definition lhmac64 :: "u8 list \<Rightarrow> u8 list \<Rightarrow> u8 list lua" where
  "lhmac64 x y =
     (case read64 x y of Inl e \<Rightarrow> luaL_error e | Inr (x, y) \<Rightarrow> Some (Inr (pushqword (hmac x y))))"

definition lhmac64_md5 :: "u8 list \<Rightarrow> u8 list \<Rightarrow> u8 list lua" where
  "lhmac64_md5 x y =
     (case read64 x y of Inl e \<Rightarrow> luaL_error e | Inr (x, y) \<Rightarrow> Some (Inr (pushqword (hmac_md5 x y))))"

text \<open>The length of the text is passed to \<open>Hash\<close> as an \<open>int\<close>; the hash has eight bytes.\<close>

definition lhmac_hash :: "u8 list \<Rightarrow> u8 list \<Rightarrow> u8 list lua" where
  "lhmac_hash x ts =
     (case read_pair x of
        None \<Rightarrow> luaL_error ''Invalid uint64 key''
      | Some key \<Rightarrow> do {
          htext \<leftarrow> read_pair (Hash (take (nat (wrap_int (int (length ts)))) ts));
          Some (Inr (pushqword (hmac htext key))) })"

section \<open>The block function\<close>

lemma md5_tables: "i < 64 \<Longrightarrow> md5_r ! i = md5_S i" "md5_k = md5_T"
proof -
  have "map md5_S [0..<64] = md5_r" by code_simp
  then show "i < 64 \<Longrightarrow> md5_r ! i = md5_S i" by (metis add_0 length_upt minus_nat.diff_0 nth_map_upt diff_zero)
  show "md5_k = md5_T" by (simp add: md5_k_def md5_T_def)
qed

lemma md5_step_spec:
  assumes "i < 64"
  shows "md5_step w s i = md5_op w s i"
proof -
  obtain a b c d where s: "s = (a, b, c, d)" by (cases s)
  have "(5 * i + 1) mod 16 = (1 + 5 * i) mod 16" "(3 * i + 5) mod 16 = (5 + 3 * i) mod 16" by (simp_all add: add.commute)
  then show ?thesis
    using md5_tables(1)[OF assms] md5_tables(2)
    by (simp add: s md5_step_def md5_op_def md5_F_def md5_X_def LEFTROTATE_def rol_def and.commute add.assoc add.commute add.left_commute)
qed

lemma digest_md5_spec: "digest_md5 w = foldl (md5_op w) md5_init [0..<64]"
  unfolding digest_md5_def md5_init_def by (rule foldl_cong) (simp_all add: md5_step_spec)

section \<open>The documented meaning\<close>

lemma le_word_le32: "le_word [a, b, c, d] = le32 a b c d"
proof -
  have "le_word [a, b, c, d] = be_word [d, c, b, a]" by (simp only: le_word_def be_word_def) simp
  then show ?thesis by (simp add: be_word_or le32_def or.commute or.left_commute)
qed

lemma le_bytes4_spec: "le_bytes4 w = le_bytes 4 (unat w)"
  using byte_of_word[of 0 w] byte_of_word[of 8 w] byte_of_word[of 16 w] byte_of_word[of 24 w]
  by (simp add: le_bytes4_def le_bytes_def be_bytes_def upt_rec)

lemma length_8: "length xs = 8 \<Longrightarrow> \<exists>a b c d e f g h. xs = [a, b, c, d, e, f, g, h]"
  by (auto simp: numeral_eq_Suc length_Suc_conv)

text \<open>The message of 48 bytes fills one block.\<close>

lemma md_pad_48:
  assumes "length msg = 48"
  shows "md_pad (le_bytes 8) msg = msg @ [0x80, 0, 0, 0, 0, 0, 0, 0, 0x80, 1, 0, 0, 0, 0, 0, 0]"
proof -
  have "replicate 7 (0 :: u8) = [0, 0, 0, 0, 0, 0, 0]" by (simp add: numeral_eq_Suc)
  moreover have "le_bytes 8 384 = [0x80, 1, 0, 0, 0, 0, 0, 0]" by (simp add: le_bytes_def be_bytes_def upt_rec)
  ultimately show ?thesis using assms by (simp add: md_pad_def)
qed

lemma replicate_3: "replicate 3 z = [z, z, z]"
  by (simp add: numeral_eq_Suc)

lemma md5_words_48:
  assumes "x = [x0, x1, x2, x3, x4, x5, x6, x7]" "y = [y0, y1, y2, y3, y4, y5, y6, y7]"
  shows "md5_words (concat (replicate 3 (x @ y)) @ [0x80, 0, 0, 0, 0, 0, 0, 0, 0x80, 1, 0, 0, 0, 0, 0, 0]) =
    concat (replicate 3 [le32 x0 x1 x2 x3, le32 x4 x5 x6 x7, le32 y0 y1 y2 y3, le32 y4 y5 y6 y7]) @ [0x80, 0, 384, 0]"
proof -
  have "[0..<16] = [0, 1, 2, 3, 4, 5, 6, 7, 8, 9, 10, 11, 12, 13, 14, 15 :: nat]" by (simp add: upt_rec)
  moreover have "le32 0x80 0 0 0 = 0x80" "le32 0 0 0 0 = 0" "le32 0x80 1 0 0 = 384" by (simp_all add: le32_def)
  ultimately show ?thesis
    by (simp add: md5_words_def assms le_word_le32 replicate_3)
qed

lemma xor_bytes4: "map2 (XOR) (le_bytes4 v) (le_bytes4 w) = le_bytes4 (v XOR w)"
  by (auto simp: le_bytes4_def intro!: bit_eqI simp: bit_simps)

text \<open>\<open>lhmac64_md5\<close> is what its comment says: for two keys of eight bytes, the exclusive or of the two halves
  of the MD5 digest of both keys, repeated three times.\<close>

theorem hmac64_md5_documented:
  assumes "length x = 8" "length y = 8" "m = md5 (concat (replicate 3 (x @ y)))"
  shows "\<exists>h. lhmac64_md5 x y = Some (Inr h) \<and> lxor_str (take 8 m) (drop 8 m) = Some (Inr h)"
proof -
  obtain x0 x1 x2 x3 x4 x5 x6 x7 where x: "x = [x0, x1, x2, x3, x4, x5, x6, x7]" using length_8[OF assms(1)] by blast
  obtain y0 y1 y2 y3 y4 y5 y6 y7 where y: "y = [y0, y1, y2, y3, y4, y5, y6, y7]" using length_8[OF assms(2)] by blast
  let ?msg = "concat (replicate 3 (x @ y))" and ?p = "[0x80, 0, 0, 0, 0, 0, 0, 0, 0x80, 1, 0, 0, 0, 0, 0, 0] :: u8 list"
  let ?w = "concat (replicate 3 [le32 x0 x1 x2 x3, le32 x4 x5 x6 x7, le32 y0 y1 y2 y3, le32 y4 y5 y6 y7]) @ [0x80, 0, 384, 0]"
  obtain a b c d where d: "digest_md5 ?w = (a, b, c, d)" by (cases "digest_md5 ?w")
  have l: "length ?msg = 48" using assms(1,2) by (simp add: numeral_eq_Suc)
  then have "length (?msg @ ?p) = 64" by simp
  then have ch: "chunks 64 (md_pad (le_bytes 8) ?msg) = [?msg @ ?p]"
    using chunks_Cons[of "?msg @ ?p" 64 "[]"] md_pad_48[OF l] by (simp add: chunks_short)
  have "md5_compress md5_init (?msg @ ?p) = (a + 0x67452301, b + 0xefcdab89, c + 0x98badcfe, d + 0x10325476)"
    using d unfolding digest_md5_spec md5_words_48[OF x y, symmetric]
    by (simp add: md5_compress_def md5_init_def add.commute del: upt_rec_numeral)
  then have m: "m = le_bytes4 (a + 0x67452301) @ le_bytes4 (b + 0xefcdab89) @ le_bytes4 (c + 0x98badcfe) @ le_bytes4 (d + 0x10325476)"
    unfolding assms(3) md5_def ch by (simp add: le_bytes4_spec)
  have "lhmac64_md5 x y = Some (Inr (le_bytes4 ((a + 0x67452301) XOR (c + 0x98badcfe)) @ le_bytes4 ((b + 0xefcdab89) XOR (d + 0x10325476))))"
    using d by (simp add: lhmac64_md5_def read64_def x y hmac_md5_def pushqword_def)
  moreover have "lxor_str (take 8 m) (drop 8 m) = Some (Inr (le_bytes4 ((a + 0x67452301) XOR (c + 0x98badcfe)) @ le_bytes4 ((b + 0xefcdab89) XOR (d + 0x10325476))))"
    unfolding xor_bytes4[symmetric] m by (simp add: lxor_str_def le_bytes4_def upt_rec INT_MAX_def)
  ultimately show ?thesis by blast
qed

theorem hmac64_md5_documented_witness:
  "\<exists>h. lhmac64_md5 [1,2,3,4,5,6,7,8] [9,8,7,6,5,4,3,2] = Some (Inr h) \<and>
     lxor_str (take 8 (md5 (concat (replicate 3 ([1,2,3,4,5,6,7,8] @ [9,8,7,6,5,4,3,2])))))
       (drop 8 (md5 (concat (replicate 3 ([1,2,3,4,5,6,7,8] @ [9,8,7,6,5,4,3,2]))))) = Some (Inr h)"
  by (rule hmac64_md5_documented) (simp, simp, rule refl)

text \<open>The keyed hash of a text is \<open>lhmac64\<close> of the hash that \<open>lhashkey\<close> returns for it.\<close>

theorem hmac_hash_hashkey:
  assumes "length key = 8"
  shows "lhmac_hash key ts = lhmac64 (lhashkey ts) key"
proof -
  have "length (Hash s) = 8" for s by (simp add: Hash_def le_bytes4_def split: prod.split)
  then obtain h where "read_pair (lhashkey ts) = Some h"
    using length_8 unfolding lhashkey_def by (metis read_pair.simps(1))
  moreover obtain k where "read_pair key = Some k" using length_8[OF assms] by (metis read_pair.simps(1))
  ultimately show ?thesis by (simp add: lhmac_hash_def lhmac64_def read64_def lhashkey_def)
qed

end
