(* ===== verification/Seri.thy ===== *)
theory Seri
  imports Codec Framing
begin

text \<open>
  The serialisation of Lua values by \<open>lualib-src/lua-seri.c\<close>, with which Lua services pass messages: the
  chain of blocks that collects the bytes, the writers of the types, the traversal of tables, and the
  reader. A Lua table is the list of its entries in the order of \<open>lua_next\<close>; what \<open>lua_rawlen\<close> returns for
  it (some border) is a parameter of the writer. Numbers are 64-bit words: two's complement for integers,
  the IEEE bits for floats. Allocation and the growth of the Lua stack are assumed to succeed.
\<close>

section \<open>Lua values\<close>

text \<open>\<open>LProxy\<close> is a table with a metamethod \<open>__pairs\<close>: the pairs that the iteration returns and the error that
  ends it, if one does. \<open>LOther\<close> is a value of any other type, with the name of the type.\<close>

datatype lval = LNil | LBool bool | LInt u64 | LReal u64 | LUser u64 | LStr "u8 list"
  | LTable "(lval \<times> lval) list" | LProxy "(lval \<times> lval) list" "string option" | LOther string

type_synonym table = "(lval \<times> lval) list"

definition rawget :: "table \<Rightarrow> lval \<Rightarrow> lval" where
  "rawget t k = (case map_of t k of None \<Rightarrow> LNil | Some v \<Rightarrow> v)"

definition is_table :: "lval \<Rightarrow> bool" where
  "is_table v = (case v of LTable _ \<Rightarrow> True | LProxy _ _ \<Rightarrow> True | _ \<Rightarrow> False)"

text \<open>Storing a value under a key that is not nil. A table used as a key is a new object here, so that it never
  replaces an entry.\<close>

definition store :: "table \<Rightarrow> lval \<Rightarrow> lval \<Rightarrow> table" where
  "store t k v =
     (if is_table k then if v = LNil then t else t @ [(k, v)]
      else if v = LNil then filter (\<lambda>e. fst e \<noteq> k) t
      else if k \<in> fst ` set t then map (\<lambda>e. if fst e = k then (k, v) else e) t
      else t @ [(k, v)])"

text \<open>A float key that is the value of an integer becomes the integer; a key that is not a number is an
  error.\<close>

definition real_is_nan :: "u64 \<Rightarrow> bool" where
  "real_is_nan r \<longleftrightarrow> drop_bit 52 r AND 0x7ff = 0x7ff \<and> r AND 0xfffffffffffff \<noteq> 0"

definition real_to_int :: "u64 \<Rightarrow> int option" where
  "real_to_int r =
     (let e = unat (drop_bit 52 r AND 0x7ff);
          f = uint (r AND 0xfffffffffffff);
          m = (if e = 0 then f else f + 2 ^ 52);
          e' = (if e = 0 then 1 else e);
          s = (if bit r 63 then -1 else 1)
      in if e = 0x7ff then None
         else if e' < 1075 then if m mod 2 ^ (1075 - e') = 0 then Some (s * (m div 2 ^ (1075 - e'))) else None
         else if e' < 1139 then
           let n = s * (m * 2 ^ (e' - 1075)) in if - (2 ^ 63) \<le> n \<and> n < 2 ^ 63 then Some n else None
         else None)"

definition norm_key :: "lval \<Rightarrow> string + lval" where
  "norm_key k =
     (case k of
        LReal r \<Rightarrow>
          if real_is_nan r then Inl ''table index is NaN''
          else (case real_to_int r of Some n \<Rightarrow> Inr (LInt (word_of_int n)) | None \<Rightarrow> Inr k)
      | _ \<Rightarrow> Inr k)"

section \<open>Constants\<close>

definition TYPE_NIL :: u8 where "TYPE_NIL = 0"
definition TYPE_BOOLEAN :: u8 where "TYPE_BOOLEAN = 1"
definition TYPE_NUMBER :: u8 where "TYPE_NUMBER = 2"
definition TYPE_NUMBER_ZERO :: u8 where "TYPE_NUMBER_ZERO = 0"
definition TYPE_NUMBER_BYTE :: u8 where "TYPE_NUMBER_BYTE = 1"
definition TYPE_NUMBER_WORD :: u8 where "TYPE_NUMBER_WORD = 2"
definition TYPE_NUMBER_DWORD :: u8 where "TYPE_NUMBER_DWORD = 4"
definition TYPE_NUMBER_QWORD :: u8 where "TYPE_NUMBER_QWORD = 6"
definition TYPE_NUMBER_REAL :: u8 where "TYPE_NUMBER_REAL = 8"
definition TYPE_USERDATA :: u8 where "TYPE_USERDATA = 3"
definition TYPE_SHORT_STRING :: u8 where "TYPE_SHORT_STRING = 4"
definition TYPE_LONG_STRING :: u8 where "TYPE_LONG_STRING = 5"
definition TYPE_TABLE :: u8 where "TYPE_TABLE = 6"
definition MAX_COOKIE :: nat where "MAX_COOKIE = 32"
definition BLOCK_SIZE :: int where "BLOCK_SIZE = 128"
definition MAX_DEPTH :: nat where "MAX_DEPTH = 32"

definition COMBINE_TYPE :: "u8 \<Rightarrow> u8 \<Rightarrow> u8" where
  "COMBINE_TYPE t v = t OR push_bit 3 v"

lemmas type_defs = TYPE_NIL_def TYPE_BOOLEAN_def TYPE_NUMBER_def TYPE_NUMBER_ZERO_def TYPE_NUMBER_BYTE_def
  TYPE_NUMBER_WORD_def TYPE_NUMBER_DWORD_def TYPE_NUMBER_QWORD_def TYPE_NUMBER_REAL_def TYPE_USERDATA_def
  TYPE_SHORT_STRING_def TYPE_LONG_STRING_def TYPE_TABLE_def COMBINE_TYPE_def MAX_COOKIE_def

text \<open>The bytes of an integer in the memory of a little-endian machine.\<close>

definition mem_bytes :: "nat \<Rightarrow> nat \<Rightarrow> u8 list" where
  "mem_bytes n x = rev (be_bytes n x)"

definition mem_value :: "u8 list \<Rightarrow> nat" where
  "mem_value bs = be_value (rev bs)"

section \<open>Blocks\<close>

text \<open>The chain of blocks from the head on; the current block is the last one.\<close>

record write_block =
  wb_blocks :: "u8 list list"
  wb_len :: int
  wb_ptr :: int

definition blk_alloc :: "u8 list" where
  "blk_alloc = replicate (nat BLOCK_SIZE) 0"

definition wb_extend :: "write_block \<Rightarrow> write_block" where
  "wb_extend b = b\<lparr>wb_blocks := wb_blocks b @ [blk_alloc], wb_ptr := 0\<rparr>"

definition wb_memcpy :: "write_block \<Rightarrow> u8 list \<Rightarrow> write_block option" where
  "wb_memcpy b d =
     (if wb_blocks b \<noteq> [] \<and> 0 \<le> wb_ptr b \<and> wb_ptr b + int (length d) \<le> BLOCK_SIZE
      then let cur = last (wb_blocks b); p = nat (wb_ptr b)
           in Some (b\<lparr>wb_blocks := butlast (wb_blocks b) @ [take p cur @ d @ drop (p + length d) cur]\<rparr>)
      else None)"

function wb_put :: "write_block \<Rightarrow> u8 list \<Rightarrow> write_block option" where
  "wb_put b buffer =
     (if wb_ptr b \<le> BLOCK_SIZE - int (length buffer) then do {
        b \<leftarrow> wb_memcpy b buffer;
        len \<leftarrow> cint (wb_len b + int (length buffer));
        Some (b\<lparr>wb_ptr := wb_ptr b + int (length buffer), wb_len := len\<rparr>) }
      else do {
        let copy = nat (BLOCK_SIZE - wb_ptr b);
        b' \<leftarrow> wb_memcpy b (take copy buffer);
        len \<leftarrow> cint (wb_len b + int copy);
        wb_put (wb_extend (b'\<lparr>wb_len := len\<rparr>)) (drop copy buffer) })"
  by pat_completeness auto
termination
  by (relation "measure (\<lambda>(b, buffer). length buffer + (if wb_ptr b = 0 then 0 else 1))")
    (auto simp: wb_extend_def BLOCK_SIZE_def)

declare wb_put.simps [simp del]

definition wb_push :: "write_block \<Rightarrow> u8 list \<Rightarrow> write_block option" where
  "wb_push b buf = wb_put (if wb_ptr b = BLOCK_SIZE then wb_extend b else b) buf"

text \<open>The first block is a local variable of \<open>luaseri_pack\<close>; its bytes are not initialised.\<close>

definition wb_init :: write_block where
  "wb_init = \<lparr>wb_blocks = [blk_alloc], wb_len = 0, wb_ptr = 0\<rparr>"

text \<open>The bytes of the chain, copied into one block of \<open>len\<close> bytes.\<close>

fun seri_loop :: "u8 list list \<Rightarrow> int \<Rightarrow> u8 list option" where
  "seri_loop bs len =
     (if len > 0 then
        (case bs of
           [] \<Rightarrow> None
         | b # bs \<Rightarrow>
             if len \<ge> BLOCK_SIZE then do { rest \<leftarrow> seri_loop bs (len - BLOCK_SIZE); Some (b @ rest) }
             else Some (take (nat len) b))
      else Some [])"

declare seri_loop.simps [simp del]

definition seri :: "write_block \<Rightarrow> u8 list option" where
  "seri wb = seri_loop (wb_blocks wb) (wb_len wb)"

section \<open>Writers\<close>

definition wb_nil :: "write_block \<Rightarrow> write_block option" where
  "wb_nil wb = wb_push wb [TYPE_NIL]"

definition wb_boolean :: "write_block \<Rightarrow> bool \<Rightarrow> write_block option" where
  "wb_boolean wb b = wb_push wb [COMBINE_TYPE TYPE_BOOLEAN (if b then 1 else 0)]"

definition wb_integer :: "write_block \<Rightarrow> u64 \<Rightarrow> write_block option" where
  "wb_integer wb v =
     (if v = 0 then wb_push wb [COMBINE_TYPE TYPE_NUMBER TYPE_NUMBER_ZERO]
      else if v \<noteq> scast (ucast v :: u32) then do {
        wb \<leftarrow> wb_push wb [COMBINE_TYPE TYPE_NUMBER TYPE_NUMBER_QWORD];
        wb_push wb (mem_bytes 8 (unat v)) }
      else if sint v < 0 then do {
        wb \<leftarrow> wb_push wb [COMBINE_TYPE TYPE_NUMBER TYPE_NUMBER_DWORD];
        wb_push wb (mem_bytes 4 (unat (ucast v :: u32))) }
      else if v < 0x100 then do {
        wb \<leftarrow> wb_push wb [COMBINE_TYPE TYPE_NUMBER TYPE_NUMBER_BYTE];
        wb_push wb [ucast v] }
      else if v < 0x10000 then do {
        wb \<leftarrow> wb_push wb [COMBINE_TYPE TYPE_NUMBER TYPE_NUMBER_WORD];
        wb_push wb (mem_bytes 2 (unat (ucast v :: u16))) }
      else do {
        wb \<leftarrow> wb_push wb [COMBINE_TYPE TYPE_NUMBER TYPE_NUMBER_DWORD];
        wb_push wb (mem_bytes 4 (unat (ucast v :: u32))) })"

definition wb_real :: "write_block \<Rightarrow> u64 \<Rightarrow> write_block option" where
  "wb_real wb v = do {
     wb \<leftarrow> wb_push wb [COMBINE_TYPE TYPE_NUMBER TYPE_NUMBER_REAL];
     wb_push wb (mem_bytes 8 (unat v)) }"

definition wb_pointer :: "write_block \<Rightarrow> u64 \<Rightarrow> write_block option" where
  "wb_pointer wb v = do { wb \<leftarrow> wb_push wb [TYPE_USERDATA]; wb_push wb (mem_bytes 8 (unat v)) }"

text \<open>The length is an \<open>int\<close>; a string of more than \<open>INT_MAX\<close> bytes has no meaning.\<close>

definition wb_string :: "write_block \<Rightarrow> u8 list \<Rightarrow> write_block option" where
  "wb_string wb str =
     (let len = length str in
      if int len > INT_MAX then None
      else if len < MAX_COOKIE then do {
        wb \<leftarrow> wb_push wb [COMBINE_TYPE TYPE_SHORT_STRING (of_nat len)];
        if len > 0 then wb_push wb str else Some wb }
      else do {
        wb \<leftarrow> (if len < 0x10000 then do {
              wb \<leftarrow> wb_push wb [COMBINE_TYPE TYPE_LONG_STRING 2];
              wb_push wb (mem_bytes 2 len) }
            else do {
              wb \<leftarrow> wb_push wb [COMBINE_TYPE TYPE_LONG_STRING 4];
              wb_push wb (mem_bytes 4 len) });
        wb_push wb str })"

section \<open>Packing\<close>

text \<open>Sequencing of operations that may raise a Lua error.\<close>

definition lua_then :: "'a lua \<Rightarrow> ('a \<Rightarrow> 'b lua) \<Rightarrow> 'b lua" where
  "lua_then m f = (case m of None \<Rightarrow> None | Some (Inl e) \<Rightarrow> Some (Inl e) | Some (Inr x) \<Rightarrow> f x)"

abbreviation lift :: "'a option \<Rightarrow> 'a lua" where
  "lift m \<equiv> map_option Inr m"

text \<open>The head of a table: the size of the array part, in the cookie when it is small.\<close>

definition wb_table_head :: "write_block \<Rightarrow> nat \<Rightarrow> write_block option" where
  "wb_table_head wb array_size =
     (if int array_size > INT_MAX then None
      else if array_size \<ge> MAX_COOKIE - 1 then do {
        wb \<leftarrow> wb_push wb [COMBINE_TYPE TYPE_TABLE (of_nat (MAX_COOKIE - 1))];
        wb_integer wb (of_nat array_size) }
      else wb_push wb [COMBINE_TYPE TYPE_TABLE (of_nat array_size)])"

text \<open>The entries that the loop over all entries skips: the array part.\<close>

definition in_array :: "nat \<Rightarrow> lval \<Rightarrow> bool" where
  "in_array array_size k = (case k of LInt x \<Rightarrow> 0 < sint x \<and> sint x \<le> int array_size | _ \<Rightarrow> False)"

text \<open>\<open>rl\<close> is \<open>lua_rawlen\<close>. \<open>pack_list\<close> are the loop over the array part, \<open>pack_pairs\<close> the loops over pairs up to the
  final nil. The depth bounds the recursion.\<close>

function pack_one :: "(table \<Rightarrow> nat) \<Rightarrow> write_block \<Rightarrow> lval \<Rightarrow> nat \<Rightarrow> write_block lua"
  and pack_list :: "(table \<Rightarrow> nat) \<Rightarrow> write_block \<Rightarrow> lval list \<Rightarrow> nat \<Rightarrow> write_block lua"
  and pack_pairs :: "(table \<Rightarrow> nat) \<Rightarrow> write_block \<Rightarrow> (lval \<times> lval) list \<Rightarrow> nat \<Rightarrow> write_block lua" where
  "pack_one rl b v depth =
     (if depth > MAX_DEPTH then luaL_error ''serialize can't pack too depth table''
      else (case v of
        LNil \<Rightarrow> lift (wb_nil b)
      | LInt x \<Rightarrow> lift (wb_integer b x)
      | LReal n \<Rightarrow> lift (wb_real b n)
      | LBool x \<Rightarrow> lift (wb_boolean b x)
      | LStr str \<Rightarrow> lift (wb_string b str)
      | LUser p \<Rightarrow> lift (wb_pointer b p)
      | LTable es \<Rightarrow>
          let array_size = rl es in
          lua_then (lift (wb_table_head b array_size)) (\<lambda>b.
          lua_then (pack_list rl b (map (\<lambda>i. rawget es (LInt (of_nat i))) [1..<array_size + 1]) (depth + 1)) (\<lambda>b.
          lua_then (pack_pairs rl b (filter (\<lambda>e. \<not> in_array array_size (fst e)) es) (depth + 1)) (\<lambda>b.
          lift (wb_nil b))))
      | LProxy es err \<Rightarrow>
          lua_then (lift (wb_push b [COMBINE_TYPE TYPE_TABLE 0])) (\<lambda>b.
          lua_then (pack_pairs rl b es (depth + 1)) (\<lambda>b.
          (case err of Some e \<Rightarrow> luaL_error e | None \<Rightarrow> lift (wb_nil b))))
      | LOther ty \<Rightarrow> luaL_error (''Unsupport type '' @ ty @ '' to serialize'')))"
| "pack_list rl b [] depth = Some (Inr b)"
| "pack_list rl b (v # vs) depth = lua_then (pack_one rl b v depth) (\<lambda>b. pack_list rl b vs depth)"
| "pack_pairs rl b [] depth = Some (Inr b)"
| "pack_pairs rl b ((k, v) # es) depth =
     lua_then (pack_one rl b k depth) (\<lambda>b. lua_then (pack_one rl b v depth) (\<lambda>b. pack_pairs rl b es depth))"
  by pat_completeness auto
termination
  by (relation "measures [\<lambda>x. case x of Inl (_, _, _, d) \<Rightarrow> 34 - d | Inr (Inl (_, _, _, d)) \<Rightarrow> 34 - d | Inr (Inr (_, _, _, d)) \<Rightarrow> 34 - d,
      \<lambda>x. case x of Inl _ \<Rightarrow> 0 | Inr (Inl (_, _, vs, _)) \<Rightarrow> Suc (length vs) | Inr (Inr (_, _, es, _)) \<Rightarrow> Suc (length es)]")
    (auto simp: MAX_DEPTH_def)

declare pack_one.simps [simp del]

text \<open>\<open>luaseri_pack\<close> of a list of values: every argument is packed at depth 0, and the bytes are copied to a block.
  The chain is freed at the end and before an error is raised, which the model does not follow.\<close>

definition luaseri_pack :: "(table \<Rightarrow> nat) \<Rightarrow> lval list \<Rightarrow> u8 list lua" where
  "luaseri_pack rl args = lua_then (pack_list rl wb_init args 0) (\<lambda>wb. lift (seri wb))"

section \<open>Unpacking\<close>

record read_block =
  rb_buffer :: "u8 list"
  rb_len :: int
  rb_ptr :: int

text \<open>The outcome of reading: a result, a Lua error, undefined behaviour of C, or no fuel left.\<close>

datatype 'a outcome = Ret 'a | Raise string | Undef | Out

definition andthen :: "'a outcome \<Rightarrow> ('a \<Rightarrow> 'b outcome) \<Rightarrow> 'b outcome" where
  "andthen m f = (case m of Ret x \<Rightarrow> f x | Raise e \<Rightarrow> Raise e | Undef \<Rightarrow> Undef | Out \<Rightarrow> Out)"

definition invalid_stream :: "nat \<Rightarrow> read_block \<Rightarrow> 'a outcome" where
  "invalid_stream line rb = Raise (''Invalid serialize stream '' @ fmt_d (rb_len rb) @ '' (line:'' @ fmt_d (int line) @ '')'')"

text \<open>\<open>rb_read\<close> returns the index of the bytes; the length is reduced and the index advanced.\<close>

definition rb_read :: "read_block \<Rightarrow> int \<Rightarrow> (int \<times> read_block) option" where
  "rb_read rb sz = (if rb_len rb < sz then None else Some (rb_ptr rb, rb\<lparr>rb_ptr := rb_ptr rb + sz, rb_len := rb_len rb - sz\<rparr>))"

text \<open>The bytes from index \<open>p\<close> on; a read outside of the buffer is undefined.\<close>

definition bytes_at :: "read_block \<Rightarrow> int \<Rightarrow> nat \<Rightarrow> u8 list outcome" where
  "bytes_at rb p n =
     (if 0 \<le> p \<and> p + int n \<le> int (length (rb_buffer rb)) then Ret (take n (drop (nat p) (rb_buffer rb))) else Undef)"

text \<open>A read of \<open>n\<close> bytes that raises an error, at the given line of the source, when there are less.\<close>

definition read_n :: "nat \<Rightarrow> nat \<Rightarrow> read_block \<Rightarrow> (u8 list \<times> read_block) outcome" where
  "read_n line n rb =
     (case rb_read rb (int n) of
        None \<Rightarrow> invalid_stream line rb
      | Some (p, rb) \<Rightarrow> andthen (bytes_at rb p n) (\<lambda>bs. Ret (bs, rb)))"

definition get_integer :: "read_block \<Rightarrow> u8 \<Rightarrow> (u64 \<times> read_block) outcome" where
  "get_integer rb cookie =
     (if cookie = TYPE_NUMBER_ZERO then Ret (0, rb)
      else if cookie = TYPE_NUMBER_BYTE then
        andthen (read_n 378 1 rb) (\<lambda>(pn, rb). Ret (of_nat (mem_value pn), rb))
      else if cookie = TYPE_NUMBER_WORD then
        andthen (read_n 386 2 rb) (\<lambda>(pn, rb). Ret (of_nat (mem_value pn), rb))
      else if cookie = TYPE_NUMBER_DWORD then
        andthen (read_n 394 4 rb) (\<lambda>(pn, rb). Ret (scast (of_nat (mem_value pn) :: u32), rb))
      else if cookie = TYPE_NUMBER_QWORD then
        andthen (read_n 402 8 rb) (\<lambda>(pn, rb). Ret (of_nat (mem_value pn), rb))
      else invalid_stream 407 rb)"

definition get_real :: "read_block \<Rightarrow> (u64 \<times> read_block) outcome" where
  "get_real rb = andthen (read_n 417 8 rb) (\<lambda>(pn, rb). Ret (of_nat (mem_value pn), rb))"

definition get_pointer :: "read_block \<Rightarrow> (u64 \<times> read_block) outcome" where
  "get_pointer rb = andthen (read_n 427 8 rb) (\<lambda>(pn, rb). Ret (of_nat (mem_value pn), rb))"

text \<open>The length is an \<open>int\<close>. A negative one passes \<open>rb_read\<close>; \<open>lua_pushlstring\<close> takes it for a size beyond every
  limit and raises an error.\<close>

definition get_buffer :: "read_block \<Rightarrow> int \<Rightarrow> (lval \<times> read_block) outcome" where
  "get_buffer rb len =
     (case rb_read rb len of
        None \<Rightarrow> invalid_stream 437 rb
      | Some (p, rb) \<Rightarrow>
          if len < 0 then Raise ''memory allocation error: block too big''
          else andthen (bytes_at rb p (nat len)) (\<lambda>bs. Ret (LStr bs, rb)))"

text \<open>The array size of a table: the cookie, or the integer that follows, converted to an \<open>int\<close>.\<close>

definition table_size :: "read_block \<Rightarrow> u8 \<Rightarrow> (int \<times> read_block) outcome" where
  "table_size rb array_size =
     (if unat array_size = MAX_COOKIE - 1 then
        andthen (read_n 450 1 rb) (\<lambda>(t, rb).
        let ty = hd t; cookie = drop_bit 3 ty in
        if ty AND 7 \<noteq> TYPE_NUMBER \<or> cookie = TYPE_NUMBER_REAL then invalid_stream 455 rb
        else andthen (get_integer rb cookie) (\<lambda>(n, rb). Ret (wrap_int (sint n), rb)))
      else Ret (int (unat array_size), rb))"

function unpack_one :: "nat \<Rightarrow> read_block \<Rightarrow> (lval \<times> read_block) outcome"
  and push_value :: "nat \<Rightarrow> read_block \<Rightarrow> u8 \<Rightarrow> u8 \<Rightarrow> (lval \<times> read_block) outcome"
  and unpack_table :: "nat \<Rightarrow> read_block \<Rightarrow> u8 \<Rightarrow> (lval \<times> read_block) outcome"
  and unpack_array :: "nat \<Rightarrow> read_block \<Rightarrow> int \<Rightarrow> int \<Rightarrow> table \<Rightarrow> (table \<times> read_block) outcome"
  and unpack_hash :: "nat \<Rightarrow> read_block \<Rightarrow> table \<Rightarrow> (table \<times> read_block) outcome" where
  "unpack_one n rb = (case n of 0 \<Rightarrow> Out | Suc f \<Rightarrow> andthen (read_n 538 1 rb) (\<lambda>(t, rb). push_value f rb (hd t AND 7) (drop_bit 3 (hd t))))"
| "push_value n rb ty cookie = (case n of 0 \<Rightarrow> Out | Suc f \<Rightarrow>
     (if ty = TYPE_NIL then Ret (LNil, rb)
      else if ty = TYPE_BOOLEAN then Ret (LBool (cookie \<noteq> 0), rb)
      else if ty = TYPE_NUMBER then
        if cookie = TYPE_NUMBER_REAL then andthen (get_real rb) (\<lambda>(n, rb). Ret (LReal n, rb))
        else andthen (get_integer rb cookie) (\<lambda>(n, rb). Ret (LInt n, rb))
      else if ty = TYPE_USERDATA then andthen (get_pointer rb) (\<lambda>(p, rb). Ret (LUser p, rb))
      else if ty = TYPE_SHORT_STRING then get_buffer rb (int (unat cookie))
      else if ty = TYPE_LONG_STRING then
        if cookie = 2 then andthen (read_n 503 2 rb) (\<lambda>(n, rb). get_buffer rb (int (mem_value n)))
        else if cookie \<noteq> 4 then invalid_stream 510 rb
        else andthen (read_n 514 4 rb) (\<lambda>(n, rb). get_buffer rb (wrap_int (int (mem_value n))))
      else if ty = TYPE_TABLE then unpack_table f rb cookie
      else invalid_stream 527 rb))"
| "unpack_table n rb cookie = (case n of 0 \<Rightarrow> Out | Suc f \<Rightarrow>
     andthen (table_size rb cookie) (\<lambda>(array_size, rb).
     andthen (unpack_array f rb 1 array_size []) (\<lambda>(t, rb).
     Ret (LTable t, rb))))"
| "unpack_array n rb i array_size t = (case n of 0 \<Rightarrow> Out | Suc f \<Rightarrow>
     (if i \<le> array_size then
        andthen (unpack_one f rb) (\<lambda>(v, rb). unpack_array f rb (i + 1) array_size (store t (LInt (word_of_int i)) v))
      else unpack_hash f rb t))"
| "unpack_hash n rb t = (case n of 0 \<Rightarrow> Out | Suc f \<Rightarrow>
     andthen (unpack_one f rb) (\<lambda>(k, rb).
     if k = LNil then Ret (t, rb)
     else andthen (unpack_one f rb) (\<lambda>(v, rb).
       (case norm_key k of Inl e \<Rightarrow> Raise e | Inr k \<Rightarrow> unpack_hash f rb (store t k v)))))"
  by pat_completeness auto
termination
  by (relation "measure (\<lambda>x. case x of Inl (Inl (f, _)) \<Rightarrow> f | Inl (Inr (f, _)) \<Rightarrow> f | Inr (Inl (f, _)) \<Rightarrow> f
      | Inr (Inr (Inl (f, _))) \<Rightarrow> f | Inr (Inr (Inr (f, _))) \<Rightarrow> f)") auto

text \<open>The loop over the values of a message. \<open>fuel_for\<close> is proved to be enough for any stream.\<close>

definition fuel_for :: "read_block \<Rightarrow> nat" where
  "fuel_for rb = 5 * nat (rb_len rb) + 5"

fun unpack_loop :: "nat \<Rightarrow> read_block \<Rightarrow> lval list outcome" where
  "unpack_loop 0 rb = Out"
| "unpack_loop (Suc f) rb =
     (case rb_read rb 1 of
        None \<Rightarrow> Ret []
      | Some (p, rb) \<Rightarrow>
          andthen (bytes_at rb p 1) (\<lambda>t.
          andthen (push_value (fuel_for rb) rb (hd t AND 7) (drop_bit 3 (hd t))) (\<lambda>(v, rb).
          andthen (unpack_loop f rb) (\<lambda>vs. Ret (v # vs)))))"

text \<open>The arguments of \<open>luaseri_unpack\<close>: nothing, a string, or a pointer to a block of memory (\<open>None\<close> for a null
  pointer) and a length.\<close>

datatype seri_arg = ArgNone | ArgStr "u8 list" | ArgPtr "u8 list option" int

definition rball_init :: "u8 list \<Rightarrow> int \<Rightarrow> read_block" where
  "rball_init buffer len = \<lparr>rb_buffer = buffer, rb_len = len, rb_ptr = 0\<rparr>"

definition unpack_buffer :: "u8 list option \<Rightarrow> int \<Rightarrow> lval list outcome" where
  "unpack_buffer buffer len =
     (if len = 0 then Ret []
      else (case buffer of
        None \<Rightarrow> Raise ''deserialize null pointer''
      | Some buffer \<Rightarrow> unpack_loop (Suc (nat len)) (rball_init buffer len)))"

definition luaseri_unpack :: "seri_arg \<Rightarrow> lval list outcome" where
  "luaseri_unpack arg =
     (case arg of
        ArgNone \<Rightarrow> Ret []
      | ArgStr s \<Rightarrow> unpack_buffer (Some s) (wrap_int (int (length s)))
      | ArgPtr p len \<Rightarrow> unpack_buffer p (wrap_int len))"

section \<open>The chain of blocks\<close>

text \<open>What a writer needs of the place it writes to: pushed bytes are appended as long as all of them fit under
  a limit.\<close>

locale byte_sink =
  fixes ok :: "'b \<Rightarrow> bool"
    and bytes :: "'b \<Rightarrow> u8 list"
    and push :: "'b \<Rightarrow> u8 list \<Rightarrow> 'b option"
    and limit :: nat
  assumes push_law: "ok b \<Longrightarrow> length (bytes b) + length d \<le> limit \<Longrightarrow>
    \<exists>b'. push b d = Some b' \<and> ok b' \<and> bytes b' = bytes b @ d"
begin

text \<open>The operation appends \<open>d\<close>, if it fits.\<close>

definition appends :: "'b \<Rightarrow> u8 list \<Rightarrow> 'b option \<Rightarrow> bool" where
  "appends b d m \<longleftrightarrow> (length (bytes b) + length d \<le> limit \<longrightarrow> (\<exists>b'. m = Some b' \<and> ok b' \<and> bytes b' = bytes b @ d))"

lemma appends_push: "ok b \<Longrightarrow> appends b d (push b d)"
  using push_law by (simp add: appends_def)

lemma appends_return: "ok b \<Longrightarrow> appends b [] (Some b)"
  by (simp add: appends_def)

lemma appends_bind:
  assumes "appends b d m" "\<And>b'. ok b' \<Longrightarrow> appends b' e (f b')"
  shows "appends b (d @ e) (m \<bind> f)"
  using assms(1) assms(2) unfolding appends_def by fastforce

lemma appends_push_bind: "ok b \<Longrightarrow> (\<And>b'. ok b' \<Longrightarrow> appends b' e (f b')) \<Longrightarrow> appends b (d @ e) (push b d \<bind> f)"
  by (rule appends_bind[OF appends_push])

end

definition wb_ok :: "write_block \<Rightarrow> bool" where
  "wb_ok b \<longleftrightarrow> wb_blocks b \<noteq> [] \<and> (\<forall>k \<in> set (wb_blocks b). length k = 128) \<and> 0 \<le> wb_ptr b \<and> wb_ptr b \<le> 128 \<and>
     wb_len b = 128 * (int (length (wb_blocks b)) - 1) + wb_ptr b"

definition wb_bytes :: "write_block \<Rightarrow> u8 list" where
  "wb_bytes b = concat (butlast (wb_blocks b)) @ take (nat (wb_ptr b)) (last (wb_blocks b))"

lemma length_concat_128: "(\<forall>k \<in> set bs. length k = 128) \<Longrightarrow> length (concat bs) = 128 * length bs"
  by (induction bs) auto

lemma wb_ok_last: "wb_ok b \<Longrightarrow> length (last (wb_blocks b)) = 128 \<and> (\<forall>k \<in> set (butlast (wb_blocks b)). length k = 128)"
  unfolding wb_ok_def by (auto dest: in_set_butlastD)

lemma wb_bytes_length:
  assumes "wb_ok b"
  shows "int (length (wb_bytes b)) = wb_len b"
proof -
  have "int (length (butlast (wb_blocks b))) = int (length (wb_blocks b)) - 1"
    using assms by (cases "wb_blocks b") (auto simp: wb_ok_def)
  then show ?thesis
    using assms wb_ok_last[OF assms] by (auto simp: wb_bytes_def length_concat_128 wb_ok_def min_def)
qed

lemma wb_memcpy_ok:
  assumes "wb_ok b" "wb_ptr b + int (length d) \<le> 128"
  shows "\<exists>b'. wb_memcpy b d = Some b' \<and> wb_ptr b' = wb_ptr b \<and> wb_len b' = wb_len b \<and>
    wb_ok (b'\<lparr>wb_ptr := wb_ptr b + int (length d), wb_len := wb_len b + int (length d)\<rparr>) \<and>
    wb_bytes (b'\<lparr>wb_ptr := wb_ptr b + int (length d), wb_len := len\<rparr>) = wb_bytes b @ d"
proof -
  let ?cur = "last (wb_blocks b)" and ?p = "nat (wb_ptr b)"
  let ?new = "take ?p ?cur @ d @ drop (?p + length d) ?cur"
  have p: "0 \<le> wb_ptr b" "wb_blocks b \<noteq> []" using assms(1) by (auto simp: wb_ok_def)
  have cur: "length ?cur = 128" "\<forall>k \<in> set (butlast (wb_blocks b)). length k = 128" using wb_ok_last[OF assms(1)] by auto
  have l: "length ?new = 128" "?p \<le> 128" "?p + length d \<le> 128" using cur p assms by auto
  have m: "wb_memcpy b d = Some (b\<lparr>wb_blocks := butlast (wb_blocks b) @ [?new]\<rparr>)"
    using p assms(2) by (simp add: wb_memcpy_def Let_def BLOCK_SIZE_def)
  have n: "nat (wb_ptr b + int (length d)) = ?p + length d" using p by simp
  have "take (?p + length d) ?new = take ?p ?cur @ d" using cur l by simp
  moreover have "int (length (butlast (wb_blocks b))) = int (length (wb_blocks b)) - 1"
    using p by (cases "wb_blocks b") auto
  ultimately show ?thesis
    unfolding m using l p assms cur(2) n by (auto simp: wb_ok_def wb_bytes_def)
qed

lemma wb_extend_ok:
  assumes "wb_ok b" "wb_ptr b = 128"
  shows "wb_ok (wb_extend b)" "wb_bytes (wb_extend b) = wb_bytes b" "wb_ptr (wb_extend b) = 0"
proof -
  have "concat (wb_blocks b) = concat (butlast (wb_blocks b)) @ last (wb_blocks b)"
    using assms(1) by (metis append_butlast_last_id concat_append concat.simps append_Nil2 wb_ok_def)
  then show "wb_bytes (wb_extend b) = wb_bytes b"
    using assms wb_ok_last[OF assms(1)] by (simp add: wb_bytes_def wb_extend_def)
  show "wb_ok (wb_extend b)" "wb_ptr (wb_extend b) = 0"
    using assms by (auto simp: wb_ok_def wb_extend_def blk_alloc_def BLOCK_SIZE_def)
qed

lemma wb_put_ok:
  "wb_ok b \<Longrightarrow> wb_len b + int (length d) \<le> INT_MAX \<Longrightarrow> \<exists>b'. wb_put b d = Some b' \<and> wb_ok b' \<and> wb_bytes b' = wb_bytes b @ d"
proof (induction b d rule: wb_put.induct)
  case (1 b d)
  have pos: "0 \<le> wb_len b" "0 \<le> wb_ptr b" "wb_ptr b \<le> 128" using 1(2) by (auto simp: wb_ok_def Suc_le_eq)
  show ?case
  proof (cases "wb_ptr b \<le> BLOCK_SIZE - int (length d)")
    case True
    then obtain b' where b': "wb_memcpy b d = Some b'" "wb_ptr b' = wb_ptr b" "wb_len b' = wb_len b"
      "wb_ok (b'\<lparr>wb_ptr := wb_ptr b + int (length d), wb_len := wb_len b + int (length d)\<rparr>)"
      "wb_bytes (b'\<lparr>wb_ptr := wb_ptr b + int (length d), wb_len := wb_len b + int (length d)\<rparr>) = wb_bytes b @ d"
      using wb_memcpy_ok[OF 1(2), of d "wb_len b + int (length d)"] by (auto simp: BLOCK_SIZE_def)
    have "cint (wb_len b + int (length d)) = Some (wb_len b + int (length d))"
      using 1(3) pos by (intro cint_in_range) auto
    then show ?thesis
      using b' True by (subst wb_put.simps) simp
  next
    case False
    define copy where "copy = nat (BLOCK_SIZE - wb_ptr b)"
    have c: "int copy = 128 - wb_ptr b" "copy \<le> length d" using False pos by (auto simp: copy_def BLOCK_SIZE_def)
    then have t: "length (take copy d) = copy" by simp
    obtain b' where b': "wb_memcpy b (take copy d) = Some b'" "wb_len b' = wb_len b"
      "wb_ok (b'\<lparr>wb_ptr := 128, wb_len := wb_len b + int copy\<rparr>)"
      "wb_bytes (b'\<lparr>wb_ptr := 128, wb_len := wb_len b + int copy\<rparr>) = wb_bytes b @ take copy d"
      using wb_memcpy_ok[OF 1(2), of "take copy d" "wb_len b + int copy"] c t by auto
    have len: "cint (wb_len b + int copy) = Some (wb_len b + int copy)"
      using 1(3) pos c by (intro cint_in_range) auto
    let ?x = "wb_extend (b'\<lparr>wb_len := wb_len b + int copy\<rparr>)"
    have xe: "?x = wb_extend (b'\<lparr>wb_ptr := 128, wb_len := wb_len b + int copy\<rparr>)" by (simp add: wb_extend_def)
    have x: "wb_ok ?x" "wb_bytes ?x = wb_bytes b @ take copy d" "wb_len ?x = wb_len b + int copy"
      unfolding xe using wb_extend_ok[OF b'(3)] b'(4) by (simp_all add: wb_extend_def)
    have "\<exists>b''. wb_put ?x (drop copy d) = Some b'' \<and> wb_ok b'' \<and> wb_bytes b'' = wb_bytes ?x @ drop copy d"
      using False 1(3) b'(1) len x c by (intro 1(1)) (auto simp: copy_def)
    moreover have "wb_put b d = wb_put ?x (drop copy d)"
      using False b'(1) len by (subst wb_put.simps) (simp add: copy_def[symmetric] Let_def)
    ultimately show ?thesis by (simp add: x(2))
  qed
qed

interpretation wb: byte_sink wb_ok wb_bytes wb_push "nat INT_MAX"
proof unfold_locales
  fix b and d :: "u8 list"
  assume b: "wb_ok b" "length (wb_bytes b) + length d \<le> nat INT_MAX"
  then have l: "wb_len b + int (length d) \<le> INT_MAX"
    using wb_bytes_length[OF b(1)] by (simp add: INT_MAX_def)
  show "\<exists>b'. wb_push b d = Some b' \<and> wb_ok b' \<and> wb_bytes b' = wb_bytes b @ d"
  proof (cases "wb_ptr b = BLOCK_SIZE")
    case True
    then have "wb_ok (wb_extend b)" "wb_bytes (wb_extend b) = wb_bytes b"
      using wb_extend_ok[OF b(1)] by (simp_all add: BLOCK_SIZE_def)
    then show ?thesis
      using wb_put_ok[of "wb_extend b" d] l True by (simp add: wb_push_def wb_extend_def)
  qed (use wb_put_ok[OF b(1) l] in \<open>simp add: wb_push_def\<close>)
qed

lemma wb_init_ok: "wb_ok wb_init" "wb_bytes wb_init = []"
  by (simp_all add: wb_ok_def wb_init_def wb_bytes_def blk_alloc_def BLOCK_SIZE_def)

lemma seri_loop_ok:
  "(\<forall>k \<in> set bs. length k = 128) \<Longrightarrow> 0 \<le> p \<Longrightarrow> p \<le> 128 \<Longrightarrow> length c = 128 \<Longrightarrow>
     seri_loop (bs @ [c]) (128 * int (length bs) + p) = Some (concat bs @ take (nat p) c)"
proof (induction bs)
  case Nil
  then show ?case by (subst seri_loop.simps) (auto simp: BLOCK_SIZE_def seri_loop.simps)
next
  case (Cons b bs)
  then show ?case by (subst seri_loop.simps) (auto simp: BLOCK_SIZE_def algebra_simps)
qed

lemma seri_ok:
  assumes "wb_ok b"
  shows "seri b = Some (wb_bytes b)"
proof -
  have b: "wb_blocks b = butlast (wb_blocks b) @ [last (wb_blocks b)]" using assms by (simp add: wb_ok_def)
  have "int (length (butlast (wb_blocks b))) = int (length (wb_blocks b)) - 1"
    using assms by (cases "wb_blocks b") (auto simp: wb_ok_def)
  then show ?thesis
    using seri_loop_ok[of "butlast (wb_blocks b)" "wb_ptr b" "last (wb_blocks b)"] assms wb_ok_last[OF assms] b
    by (simp add: seri_def wb_bytes_def wb_ok_def)
qed

section \<open>The wire format\<close>

definition enc_integer :: "u64 \<Rightarrow> u8 list" where
  "enc_integer v =
     (let i = sint v in
      if i = 0 then [0x02]
      else if i < - (2 ^ 31) \<or> 2 ^ 31 \<le> i then 0x32 # mem_bytes 8 (unat v)
      else if i < 0 \<or> 0x10000 \<le> i then 0x22 # mem_bytes 4 (unat (ucast v :: u32))
      else if i < 0x100 then [0x0a, ucast v]
      else 0x12 # mem_bytes 2 (unat (ucast v :: u16)))"

definition enc_string :: "u8 list \<Rightarrow> u8 list" where
  "enc_string s =
     (if length s < 32 then (4 OR push_bit 3 (of_nat (length s))) # s
      else if length s < 0x10000 then 0x15 # mem_bytes 2 (length s) @ s
      else 0x25 # mem_bytes 4 (length s) @ s)"

definition enc_head :: "nat \<Rightarrow> u8 list" where
  "enc_head n = (if n \<ge> 31 then 0xfe # enc_integer (of_nat n) else [6 OR push_bit 3 (of_nat n)])"

text \<open>The fields of a table, given the encodings of its keys and values: the array part, then the other pairs.\<close>

definition enc_fields :: "nat \<Rightarrow> lval list \<Rightarrow> (u8 list \<times> u8 list) list \<Rightarrow> u8 list" where
  "enc_fields n ks ws =
     concat (map (\<lambda>i. case map_of (zip ks (map snd ws)) (LInt (of_nat i)) of None \<Rightarrow> [0] | Some w \<Rightarrow> w) [1..<n + 1]) @
     concat (map (\<lambda>(k, w). fst w @ snd w) (filter (\<lambda>e. \<not> in_array n (fst e)) (zip ks ws)))"

primrec wire :: "(table \<Rightarrow> nat) \<Rightarrow> lval \<Rightarrow> u8 list" where
  "wire rl LNil = [0]"
| "wire rl (LBool b) = [if b then 9 else 1]"
| "wire rl (LInt v) = enc_integer v"
| "wire rl (LReal v) = 0x42 # mem_bytes 8 (unat v)"
| "wire rl (LUser v) = 3 # mem_bytes 8 (unat v)"
| "wire rl (LStr s) = enc_string s"
| "wire rl (LTable es) = enc_head (rl es) @ enc_fields (rl es) (map fst es) (map (map_prod (wire rl) (wire rl)) es) @ [0]"
| "wire rl (LProxy es err) = 6 # concat (map (\<lambda>(k, v). k @ v) (map (map_prod (wire rl) (wire rl)) es)) @ [0]"
| "wire rl (LOther ty) = []"

lemma map_of_zip_map: "map_of (zip (map fst es) (map (\<lambda>e. f (snd e)) es)) k = map_option f (map_of es k)"
  by (induction es) auto

lemma wire_LTable:
  "wire rl (LTable es) = enc_head (rl es) @
     concat (map (wire rl) (map (\<lambda>i. rawget es (LInt (of_nat i))) [1..<rl es + 1])) @
     concat (map (\<lambda>(k, v). wire rl k @ wire rl v) (filter (\<lambda>e. \<not> in_array (rl es) (fst e)) es)) @ [0]"
proof -
  have a: "(case map_of (zip (map fst es) (map (\<lambda>e. wire rl (snd e)) es)) k of None \<Rightarrow> [0] | Some w \<Rightarrow> w) =
      wire rl (rawget es k)" for k
    by (simp add: map_of_zip_map rawget_def split: option.split)
  have "zip (map fst es) (map (map_prod (wire rl) (wire rl)) es) = map (\<lambda>e. (fst e, map_prod (wire rl) (wire rl) e)) es"
    by (induction es) auto
  then have b: "concat (map (\<lambda>(k, w). fst w @ snd w)
      (filter (\<lambda>e. \<not> in_array n (fst e)) (zip (map fst es) (map (map_prod (wire rl) (wire rl)) es)))) =
      concat (map (\<lambda>(k, v). wire rl k @ wire rl v) (filter (\<lambda>e. \<not> in_array n (fst e)) es))" for n
    by (simp add: filter_map o_def case_prod_unfold)
  show ?thesis
    using a by (simp add: enc_fields_def b o_def)
qed

declare wire.simps(7) [simp del]

text \<open>Which values can be packed at a depth: no level is too deep, every type is supported and no iteration fails.\<close>

primrec packable :: "(table \<Rightarrow> nat) \<Rightarrow> lval \<Rightarrow> nat \<Rightarrow> bool" where
  "packable rl LNil = (\<lambda>d. d \<le> MAX_DEPTH)"
| "packable rl (LBool b) = (\<lambda>d. d \<le> MAX_DEPTH)"
| "packable rl (LInt v) = (\<lambda>d. d \<le> MAX_DEPTH)"
| "packable rl (LReal v) = (\<lambda>d. d \<le> MAX_DEPTH)"
| "packable rl (LUser v) = (\<lambda>d. d \<le> MAX_DEPTH)"
| "packable rl (LStr s) = (\<lambda>d. d \<le> MAX_DEPTH)"
| "packable rl (LTable es) = (\<lambda>d. d \<le> MAX_DEPTH \<and> (0 < rl es \<longrightarrow> d < MAX_DEPTH) \<and>
     list_all (\<lambda>(k, v). k (d + 1) \<and> v (d + 1)) (map (map_prod (packable rl) (packable rl)) es))"
| "packable rl (LProxy es err) = (\<lambda>d. d \<le> MAX_DEPTH \<and> err = None \<and>
     list_all (\<lambda>(k, v). k (d + 1) \<and> v (d + 1)) (map (map_prod (packable rl) (packable rl)) es))"
| "packable rl (LOther ty) = (\<lambda>d. False)"

section \<open>Packing writes the wire format\<close>

lemma sint_low32: "sint (scast (ucast v :: u32) :: u64) = signed_take_bit 31 (sint (v :: u64))"
proof -
  have "uint v = take_bit 64 (sint v)" by (simp add: uint_sint)
  then have "sint (ucast v :: u32) = signed_take_bit 31 (take_bit 64 (sint v))"
    by (simp add: signed_ucast_eq)
  also have "\<dots> = signed_take_bit 31 (sint v)"
    by (simp add: signed_take_bit_take_bit)
  finally show ?thesis
    by (simp add: signed_scast_eq)
qed

lemma fits_int32:
  fixes v :: u64
  shows "v = scast (ucast v :: u32) \<longleftrightarrow> - (2 ^ 31) \<le> sint v \<and> sint v < 2 ^ 31"
proof -
  have "v = scast (ucast v :: u32) \<longleftrightarrow> sint (scast (ucast v :: u32) :: u64) = sint v"
    by (metis signed_word_eqI)
  then show ?thesis
    unfolding sint_low32 by (simp add: signed_take_bit_int_eq_self_iff)
qed

lemma small_uint:
  fixes v :: u64
  assumes "0 \<le> sint v"
  shows "sint v = uint v" "v < n \<longleftrightarrow> sint v < uint n"
proof -
  show "sint v = uint v"
    using assms sint_lt[of v] by (simp add: uint_sint take_bit_int_eq_self)
  then show "v < n \<longleftrightarrow> sint v < uint n" by (simp add: word_less_def)
qed

text \<open>The writers of the types.\<close>

lemma push_two: "wb_ok b \<Longrightarrow> wb.appends b (c # d) (wb_push b [c] \<bind> (\<lambda>b. wb_push b d))"
  using wb.appends_push_bind[of b d "\<lambda>b. wb_push b d" "[c]"] wb.appends_push by simp

lemma wb_integer_appends:
  assumes "wb_ok b"
  shows "wb.appends b (enc_integer v) (wb_integer b v)"
proof -
  have z: "v = 0 \<longleftrightarrow> sint v = 0" using signed_word_eqI[of v 0] by auto
  have u: "v < 0x100 \<longleftrightarrow> sint v < 0x100" "v < 0x10000 \<longleftrightarrow> sint v < 0x10000" if "0 \<le> sint v"
    using small_uint(2)[OF that, of "0x100"] small_uint(2)[OF that, of "0x10000"] by simp_all
  have n: "(v \<noteq> scast (ucast v :: u32)) = (sint v < - (2 ^ 31) \<or> 2 ^ 31 \<le> sint v)"
    using fits_int32[of v] by auto
  show ?thesis
    unfolding wb_integer_def enc_integer_def Let_def n z
    using u push_two[OF assms] wb.appends_push[OF assms] by (simp add: type_defs not_less)
qed

lemma wb_string_appends:
  assumes "wb_ok b"
  shows "wb.appends b (enc_string s) (wb_string b s)"
proof (cases "int (length s) > INT_MAX")
  case True
  moreover have "length s \<le> length (enc_string s)" by (simp add: enc_string_def)
  ultimately have "\<not> length (wb_bytes b) + length (enc_string s) \<le> nat INT_MAX" by (simp add: INT_MAX_def)
  then show ?thesis by (simp add: wb.appends_def)
next
  case False
  have p: "wb.appends b ((c # d) @ e) ((wb_push b [c] \<bind> (\<lambda>b. wb_push b d)) \<bind> (\<lambda>b. wb_push b e))" for c d e
    using push_two[OF assms] wb.appends_push by (rule wb.appends_bind)
  have q: "wb.appends b ([c] @ s) (wb_push b [c] \<bind> (\<lambda>wb. if length s > 0 then wb_push wb s else Some wb))" for c
    using assms by (rule wb.appends_push_bind) (auto intro: wb.appends_push wb.appends_return)
  show ?thesis
    using False q[of "4 OR push_bit 3 (of_nat (length s))"] p[of "0x15" "mem_bytes 2 (length s)" s] p[of "0x25" "mem_bytes 4 (length s)" s]
    by (auto simp: wb_string_def enc_string_def type_defs Let_def)
qed

lemma wb_head_appends:
  assumes "wb_ok b" "int n \<le> INT_MAX"
  shows "wb.appends b (enc_head n) (wb_table_head b n)"
  using assms wb.appends_push[OF assms(1)] wb.appends_push_bind[OF assms(1) wb_integer_appends, of "[0xfe]" "of_nat n"]
  by (auto simp: wb_table_head_def enc_head_def type_defs)

text \<open>The same for operations that may raise errors.\<close>

definition packs :: "write_block \<Rightarrow> u8 list \<Rightarrow> write_block lua \<Rightarrow> bool" where
  "packs b e m \<longleftrightarrow> (length (wb_bytes b) + length e \<le> nat INT_MAX \<longrightarrow>
     (\<exists>b'. m = Some (Inr b') \<and> wb_ok b' \<and> wb_bytes b' = wb_bytes b @ e))"

lemma packs_lift: "wb.appends b e m \<Longrightarrow> packs b e (lift m)"
  by (auto simp: wb.appends_def packs_def)

lemma packs_return: "wb_ok b \<Longrightarrow> packs b [] (Some (Inr b))"
  by (simp add: packs_def)

lemma packs_then:
  assumes "packs b d m" "\<And>b'. wb_ok b' \<Longrightarrow> packs b' e (f b')"
  shows "packs b (d @ e) (lua_then m f)"
  using assms(1) assms(2) unfolding packs_def lua_then_def by fastforce

lemma wire_nonempty: "packable rl v d \<Longrightarrow> wire rl v \<noteq> []"
  by (cases v) (auto simp: enc_integer_def enc_string_def wire_LTable Let_def)

lemma wire_list_length: "(\<And>v. v \<in> set vs \<Longrightarrow> packable rl v d) \<Longrightarrow> length vs \<le> length (concat (map (wire rl) vs))"
proof (induction vs)
  case (Cons v vs)
  then obtain x xs where "wire rl v = x # xs" using wire_nonempty by (metis list.exhaust list.set_intros(1))
  moreover have "length vs \<le> length (concat (map (wire rl) vs))" using Cons by simp
  ultimately show ?case by simp
qed simp

lemma packable_depth: "packable rl v d \<Longrightarrow> d \<le> MAX_DEPTH"
  by (cases v) auto

lemma packable_LTable:
  "packable rl (LTable es) d \<longleftrightarrow> d \<le> MAX_DEPTH \<and> (0 < rl es \<longrightarrow> d < MAX_DEPTH) \<and>
     (\<forall>(k, v) \<in> set es. packable rl k (d + 1) \<and> packable rl v (d + 1))"
  by (auto simp: list_all_iff)

lemma packable_LProxy:
  "packable rl (LProxy es err) d \<longleftrightarrow> d \<le> MAX_DEPTH \<and> err = None \<and>
     (\<forall>(k, v) \<in> set es. packable rl k (d + 1) \<and> packable rl v (d + 1))"
  by (auto simp: list_all_iff)

declare packable.simps(7,8) [simp del]

lemma rawget_packable:
  assumes "packable rl (LTable es) d" "0 < rl es"
  shows "packable rl (rawget es k) (d + 1)"
  using assms by (auto simp: packable_LTable rawget_def split: option.split dest!: map_of_SomeD)

lemma pack_ok:
  "packable rl v d \<Longrightarrow> wb_ok b \<Longrightarrow> packs b (wire rl v) (pack_one rl b v d)"
  "(\<And>v. v \<in> set vs \<Longrightarrow> packable rl v d) \<Longrightarrow> wb_ok b \<Longrightarrow> packs b (concat (map (wire rl) vs)) (pack_list rl b vs d)"
  "(\<And>k v. (k, v) \<in> set es \<Longrightarrow> packable rl k d \<and> packable rl v d) \<Longrightarrow> wb_ok b \<Longrightarrow>
     packs b (concat (map (\<lambda>(k, v). wire rl k @ wire rl v) es)) (pack_pairs rl b es d)"
proof (induction rl b v d and rl b vs d and rl b es d rule: pack_one_pack_list_pack_pairs.induct)
  case (1 rl b v d)
  show ?case
  proof (cases v)
    case (LTable es)
    let ?n = "rl es" and ?a = "map (\<lambda>i. rawget es (LInt (of_nat i))) [1..<rl es + 1]"
    let ?h = "filter (\<lambda>e. \<not> in_array (rl es) (fst e)) es"
    have pk: "packable rl (LTable es) d" using 1 LTable by simp
    have nd: "\<not> MAX_DEPTH < d" using packable_depth[OF pk] by simp
    have h: "packable rl k (d + 1) \<and> packable rl v (d + 1)" if "(k, v) \<in> set ?h" for k v
      using that pk by (auto simp: packable_LTable)
    have a: "packable rl v (d + 1)" if "v \<in> set ?a" for v
      using that rawget_packable[OF pk] by auto
    have "length ?a \<le> length (concat (map (wire rl) ?a))"
      using a by (rule wire_list_length)
    then have "?n \<le> length (concat (map (wire rl) ?a))"
      by (simp only: length_map length_upt add_diff_cancel_right')
    then have la: "?n \<le> length (wire rl v)"
      unfolding LTable wire_LTable length_append by linarith
    show ?thesis
    proof (cases "int ?n > INT_MAX")
      case True
      then have "\<not> length (wb_bytes b) + length (wire rl v) \<le> nat INT_MAX"
        using la by (simp add: INT_MAX_def)
      then show ?thesis by (simp add: packs_def)
    next
      case False
      have "packs b (wire rl v) (lua_then (lift (wb_table_head b ?n)) (\<lambda>b.
          lua_then (pack_list rl b ?a (d + 1)) (\<lambda>b.
          lua_then (pack_pairs rl b ?h (d + 1)) (\<lambda>b. lift (wb_nil b)))))"
        unfolding LTable wire_LTable
      proof (intro packs_then)
        show "packs b (enc_head ?n) (lift (wb_table_head b ?n))"
          using wb_head_appends[OF 1(5), of ?n] False by (intro packs_lift) simp
        show "packs b' (concat (map (wire rl) ?a)) (pack_list rl b' ?a (d + 1))" if "wb_ok b'" for b'
          using nd LTable refl a that by (rule 1(1))
        show "packs b' (concat (map (\<lambda>(k, v). wire rl k @ wire rl v) ?h)) (pack_pairs rl b' ?h (d + 1))" if "wb_ok b'" for b'
          using nd LTable refl h that by (rule 1(2))
        show "packs b' [0] (lift (wb_nil b'))" if "wb_ok b'" for b'
          unfolding wb_nil_def TYPE_NIL_def using that by (intro packs_lift wb.appends_push)
      qed
      then show ?thesis
        using packable_depth[OF pk] by (subst pack_one.simps) (simp add: LTable Let_def)
    qed
  next
    case (LProxy es err)
    then have pk: "packable rl (LProxy es err) d" "err = None" using 1(4) by (simp_all add: packable_LProxy)
    have nd: "\<not> MAX_DEPTH < d" using packable_depth[OF pk(1)] by simp
    have h: "packable rl k (d + 1) \<and> packable rl v (d + 1)" if "(k, v) \<in> set es" for k v
      using that pk(1) by (auto simp: packable_LProxy)
    have "packs b ([6] @ concat (map (\<lambda>(k, v). wire rl k @ wire rl v) es) @ [0])
        (lua_then (lift (wb_push b [COMBINE_TYPE TYPE_TABLE 0])) (\<lambda>b.
          lua_then (pack_pairs rl b es (d + 1)) (\<lambda>b. lift (wb_nil b))))"
    proof (intro packs_then)
      show "packs b [6] (lift (wb_push b [COMBINE_TYPE TYPE_TABLE 0]))"
        using packs_lift[OF wb.appends_push[OF 1(5), of "[6]"]] by (simp add: type_defs)
      show "packs b' (concat (map (\<lambda>(k, v). wire rl k @ wire rl v) es)) (pack_pairs rl b' es (d + 1))" if "wb_ok b'" for b'
        using nd LProxy h that by (rule 1(3))
      show "packs b' [0] (lift (wb_nil b'))" if "wb_ok b'" for b'
        unfolding wb_nil_def TYPE_NIL_def using that by (intro packs_lift wb.appends_push)
    qed
    then show ?thesis
      using nd pk(2) by (subst pack_one.simps) (simp add: LProxy case_prod_unfold o_def)
  qed (use 1(4,5) packs_lift[OF wb.appends_push[OF 1(5)]] packs_lift[OF push_two[OF 1(5)]]
      packs_lift[OF wb_integer_appends[OF 1(5)]] packs_lift[OF wb_string_appends[OF 1(5)]]
      in \<open>auto simp: pack_one.simps wb_nil_def wb_boolean_def wb_real_def wb_pointer_def type_defs not_less[symmetric]\<close>)
next
  case (2 rl b depth)
  then show ?case by (simp add: packs_return)
next
  case (3 rl b v vs depth)
  then show ?case by (auto intro!: packs_then)
next
  case (4 rl b depth)
  then show ?case by (simp add: packs_return)
next
  case (5 rl b k v es depth)
  then show ?case by (auto intro!: packs_then)
qed

end
