(* ===== verification/SeriStream.thy ===== *)
theory SeriStream
  imports Seri
begin

text \<open>
  Reading serialised values (\<open>lualib-src/lua-seri.c\<close>, \<open>luaseri_unpack\<close>): every stream is read safely and gives
  well-formed values or an error, and the stream of packed values gives copies of them.
\<close>

section \<open>Reading\<close>

definition rb_ok :: "read_block \<Rightarrow> bool" where
  "rb_ok rb \<longleftrightarrow> 0 \<le> rb_len rb \<and> rb_len rb \<le> INT_MAX \<and> 0 \<le> rb_ptr rb \<and> rb_ptr rb + rb_len rb \<le> int (length (rb_buffer rb))"

definition rb_rest :: "read_block \<Rightarrow> u8 list" where
  "rb_rest rb = take (nat (rb_len rb)) (drop (nat (rb_ptr rb)) (rb_buffer rb))"

lemma length_rb_rest: "rb_ok rb \<Longrightarrow> int (length (rb_rest rb)) = rb_len rb"
  by (auto simp: rb_ok_def rb_rest_def)

lemma rb_read_ok:
  assumes "rb_ok rb" "n \<le> length (rb_rest rb)"
  shows "\<exists>rb'. rb_read rb (int n) = Some (rb_ptr rb, rb') \<and> bytes_at rb' (rb_ptr rb) n = Ret (take n (rb_rest rb)) \<and>
    rb_ok rb' \<and> rb_rest rb' = drop n (rb_rest rb)"
proof -
  let ?rb = "rb\<lparr>rb_ptr := rb_ptr rb + int n, rb_len := rb_len rb - int n\<rparr>"
  have l: "int n \<le> rb_len rb" using assms length_rb_rest[OF assms(1)] by simp
  have "rb_rest ?rb = drop n (rb_rest rb)"
  proof -
    have "nat (rb_ptr rb + int n) = n + nat (rb_ptr rb)" "nat (rb_len rb - int n) = nat (rb_len rb) - n"
      using assms(1) l by (auto simp: rb_ok_def)
    then show ?thesis by (simp add: rb_rest_def drop_take add.commute)
  qed
  moreover have "bytes_at ?rb (rb_ptr rb) n = Ret (take n (rb_rest rb))"
    using assms(1) l by (auto simp: bytes_at_def rb_rest_def rb_ok_def min_def)
  moreover have "rb_ok ?rb" using assms(1) l by (auto simp: rb_ok_def)
  ultimately show ?thesis using l by (simp add: rb_read_def)
qed

lemma rb_read_short: "rb_ok rb \<Longrightarrow> length (rb_rest rb) < n \<Longrightarrow> rb_read rb (int n) = None"
  using length_rb_rest[of rb] by (simp add: rb_read_def)

text \<open>A read takes the first bytes, or raises an error when there are less.\<close>

lemma read_n_ok:
  assumes "rb_ok rb" "n \<le> length (rb_rest rb)"
  obtains rb' where "read_n line n rb = Ret (take n (rb_rest rb), rb')" "rb_ok rb'" "rb_rest rb' = drop n (rb_rest rb)"
  using rb_read_ok[OF assms] by (auto simp: read_n_def andthen_def)

lemma read_n_short:
  assumes "rb_ok rb" "length (rb_rest rb) < n"
  shows "\<exists>e. read_n line n rb = Raise e"
  using rb_read_short[OF assms] by (simp add: read_n_def invalid_stream_def)

lemma andthen_simps [simp]:
  "andthen (Ret x) f = f x" "andthen (Raise e) f = Raise e" "andthen Undef f = Undef" "andthen Out f = Out"
  by (simp_all add: andthen_def)

lemmas unpack_unfold = unpack_one.simps push_value.simps unpack_table.simps unpack_array.simps unpack_hash.simps

declare unpack_unfold [simp del]

lemma unpack_Suc:
  "unpack_one (Suc f) rb = andthen (read_n 538 1 rb) (\<lambda>(t, rb). push_value f rb (hd t AND 7) (drop_bit 3 (hd t)))"
  "unpack_table (Suc f) rb cookie =
     andthen (table_size rb cookie) (\<lambda>(array_size, rb).
     andthen (unpack_array f rb 1 array_size []) (\<lambda>(t, rb). Ret (LTable t, rb)))"
  "unpack_array (Suc f) rb i array_size t =
     (if i \<le> array_size then
        andthen (unpack_one f rb) (\<lambda>(v, rb). unpack_array f rb (i + 1) array_size (store t (LInt (word_of_int i)) v))
      else unpack_hash f rb t)"
  "unpack_hash (Suc f) rb t =
     andthen (unpack_one f rb) (\<lambda>(k, rb).
     if k = LNil then Ret (t, rb)
     else andthen (unpack_one f rb) (\<lambda>(v, rb).
       (case norm_key k of Inl e \<Rightarrow> Raise e | Inr k \<Rightarrow> unpack_hash f rb (store t k v))))"
  by (simp_all add: unpack_unfold)

text \<open>What a reader does on a valid block: it returns a value that satisfies \<open>P\<close> and has consumed at least \<open>n\<close> bytes,
  or it raises an error.\<close>

definition reads :: "nat \<Rightarrow> read_block \<Rightarrow> ('a \<Rightarrow> bool) \<Rightarrow> ('a \<times> read_block) outcome \<Rightarrow> bool" where
  "reads n rb P m \<longleftrightarrow> (case m of
       Ret (x, rb') \<Rightarrow> P x \<and> rb_ok rb' \<and> length (rb_rest rb') + n \<le> length (rb_rest rb)
     | Raise e \<Rightarrow> True | Undef \<Rightarrow> False | Out \<Rightarrow> False)"

lemma reads_Ret: "P x \<Longrightarrow> rb_ok rb \<Longrightarrow> reads 0 rb P (Ret (x, rb))"
  by (simp add: reads_def)

lemma reads_Raise: "reads n rb P (Raise e)"
  by (simp add: reads_def)

lemma reads_then:
  assumes "reads n rb P m" "\<And>x rb'. P x \<Longrightarrow> rb_ok rb' \<Longrightarrow> length (rb_rest rb') + n \<le> length (rb_rest rb) \<Longrightarrow> reads k rb' Q (f (x, rb'))"
  shows "reads (n + k) rb Q (andthen m f)"
proof (cases m)
  case (Ret y)
  then obtain x rb' where "m = Ret (x, rb')" by (cases y) auto
  moreover from this have "P x" "rb_ok rb'" "length (rb_rest rb') + n \<le> length (rb_rest rb)"
    using assms(1) by (simp_all add: reads_def)
  moreover from this have "reads k rb' Q (f (x, rb'))" using assms(2) by simp
  ultimately show ?thesis by (auto simp: reads_def split: outcome.splits)
qed (use assms(1) in \<open>auto simp: reads_def\<close>)

lemma reads_weaken: "reads n rb P m \<Longrightarrow> k \<le> n \<Longrightarrow> (\<And>x. P x \<Longrightarrow> Q x) \<Longrightarrow> reads k rb Q m"
  by (auto simp: reads_def split: outcome.splits)

lemma reads_read_n:
  assumes "rb_ok rb"
  shows "reads n rb (\<lambda>bs. length bs = n) (read_n line n rb)"
proof (cases "n \<le> length (rb_rest rb)")
  case True
  then obtain rb' where "read_n line n rb = Ret (take n (rb_rest rb), rb')" "rb_ok rb'" "rb_rest rb' = drop n (rb_rest rb)"
    using read_n_ok[OF assms] by blast
  with True show ?thesis by (simp add: reads_def)
next
  case False
  then obtain e where "read_n line n rb = Raise e" using read_n_short[OF assms] by force
  then show ?thesis by (simp add: reads_Raise)
qed

lemma reads_read_value: "rb_ok rb \<Longrightarrow> reads n rb (\<lambda>_. True) (andthen (read_n line n rb) (\<lambda>(bs, rb). Ret (f bs, rb)))"
  using reads_then[OF reads_read_n, of rb n 0 "\<lambda>_. True" "\<lambda>(bs, rb). Ret (f bs, rb)" line] by (simp add: reads_Ret)

lemma reads_0: "reads n rb P m \<Longrightarrow> reads 0 rb P m"
  by (rule reads_weaken) auto

lemma reads_get_integer: "rb_ok rb \<Longrightarrow> reads 0 rb (\<lambda>_. True) (get_integer rb cookie)"
  unfolding get_integer_def invalid_stream_def
  by (auto intro: reads_read_value[THEN reads_0] reads_Ret reads_Raise)

lemma reads_get_buffer:
  assumes "rb_ok rb" "len \<le> INT_MAX"
  shows "reads 0 rb (\<lambda>v. \<exists>s. v = LStr s) (get_buffer rb len)"
proof (cases "0 \<le> len \<and> len \<le> int (length (rb_rest rb))")
  case True
  then obtain n where n: "len = int n" "n \<le> length (rb_rest rb)" using nonneg_eq_int by auto
  then show ?thesis
    using rb_read_ok[OF assms(1) n(2)] by (auto simp: get_buffer_def reads_def)
next
  case False
  then show ?thesis
    using length_rb_rest[OF assms(1)] by (auto simp: get_buffer_def rb_read_def invalid_stream_def reads_Raise)
qed

lemma reads_table_size: "rb_ok rb \<Longrightarrow> reads 0 rb (\<lambda>_. True) (table_size rb cookie)"
proof -
  assume rb: "rb_ok rb"
  have "reads (1 + 0) rb (\<lambda>_. True) (andthen (read_n 450 1 rb) (\<lambda>(t, rb).
        let ty = hd t; cookie = drop_bit 3 ty in
        if ty AND 7 \<noteq> TYPE_NUMBER \<or> cookie = TYPE_NUMBER_REAL then invalid_stream 455 rb
        else andthen (get_integer rb cookie) (\<lambda>(n, rb). Ret (wrap_int (sint n), rb))))"
  proof (rule reads_then[OF reads_read_n[OF rb]])
    fix t rb'
    assume "rb_ok rb'"
    then have "reads (0 + 0) rb' (\<lambda>_. True) (andthen (get_integer rb' c) (\<lambda>(n, rb). Ret (wrap_int (sint n), rb)))" for c
      by (intro reads_then[OF reads_get_integer]) (auto intro: reads_Ret)
    then show "reads 0 rb' (\<lambda>_. True) (case (t, rb') of (t, rb) \<Rightarrow>
        let ty = hd t; cookie = drop_bit 3 ty in
        if ty AND 7 \<noteq> TYPE_NUMBER \<or> cookie = TYPE_NUMBER_REAL then invalid_stream 455 rb
        else andthen (get_integer rb cookie) (\<lambda>(n, rb). Ret (wrap_int (sint n), rb)))"
      by (simp add: Let_def invalid_stream_def reads_Raise)
  qed
  then show ?thesis
    using rb unfolding table_size_def by (auto intro: reads_0 reads_Ret)
qed

section \<open>Well-formed values\<close>

text \<open>The entries of a table of Lua: no nil, normal keys, and one entry for a key, where tables used as keys are
  different objects.\<close>

definition proper_table :: "table \<Rightarrow> bool" where
  "proper_table t \<longleftrightarrow> (\<forall>(k, v) \<in> set t. k \<noteq> LNil \<and> v \<noteq> LNil \<and> norm_key k = Inr k) \<and>
     distinct (map fst (filter (\<lambda>e. \<not> is_table (fst e)) t))"

primrec proper :: "lval \<Rightarrow> bool" where
  "proper LNil = True"
| "proper (LBool b) = True"
| "proper (LInt v) = True"
| "proper (LReal v) = True"
| "proper (LUser v) = True"
| "proper (LStr s) = True"
| "proper (LTable es) = (proper_table es \<and> list_all (\<lambda>(k, v). k \<and> v) (map (map_prod proper proper) es))"
| "proper (LProxy es err) = False"
| "proper (LOther ty) = False"

lemma proper_LTable: "proper (LTable es) \<longleftrightarrow> proper_table es \<and> (\<forall>(k, v) \<in> set es. proper k \<and> proper v)"
  by (auto simp: list_all_iff)

declare proper.simps(7) [simp del]

lemma norm_key_norm: "norm_key k = Inr k' \<Longrightarrow> norm_key k' = Inr k' \<and> (k \<noteq> LNil \<longrightarrow> k' \<noteq> LNil) \<and> (proper k \<longrightarrow> proper k')"
  by (auto simp: norm_key_def split: lval.splits option.splits if_splits)

lemma set_store: "set (store t k v) \<subseteq> insert (k, v) (set t)"
  by (auto simp: store_def)

lemma store_nil: "(a, b) \<in> set (store t k v) \<Longrightarrow> b \<noteq> LNil \<or> (a, b) \<in> set t"
  by (auto simp: store_def split: if_splits)

lemma proper_store:
  assumes "proper (LTable t)" "k \<noteq> LNil" "norm_key k = Inr k" "proper k" "proper v"
  shows "proper (LTable (store t k v))"
proof -
  have "distinct (map fst (filter (\<lambda>e. \<not> is_table (fst e)) (store t k v)))"
  proof -
    have d: "distinct (map fst (filter (\<lambda>e. \<not> is_table (fst e)) t))"
      using assms(1) by (simp add: proper_LTable proper_table_def)
    have "map fst (filter (\<lambda>e. \<not> is_table (fst e)) (map (\<lambda>e. if fst e = k then (k, v) else e) t)) =
        map fst (filter (\<lambda>e. \<not> is_table (fst e)) t)"
      by (induction t) auto
    moreover have "distinct (map fst (filter (\<lambda>e. \<not> is_table (fst e)) (filter (\<lambda>e. fst e \<noteq> k) t)))"
      using distinct_map_filter[OF d, of "\<lambda>e. fst e \<noteq> k"] by (simp add: conj_commute)
    ultimately show ?thesis
      using d unfolding store_def by (simp del: filter_filter) auto
  qed
  moreover have "\<forall>(a, b) \<in> set (store t k v). a \<noteq> LNil \<and> b \<noteq> LNil \<and> norm_key a = Inr a \<and> proper a \<and> proper b"
    using assms set_store[of t k v] store_nil[of _ _ t k v]
    by (fastforce simp: proper_LTable proper_table_def)
  ultimately show ?thesis
    by (auto simp: proper_LTable proper_table_def)
qed

lemma unpack_Suc2:
  "push_value (Suc f) rb ty cookie =
     (if ty = TYPE_NIL then Ret (LNil, rb)
      else if ty = TYPE_BOOLEAN then Ret (LBool (cookie \<noteq> 0), rb)
      else if ty = TYPE_NUMBER then
        if cookie = TYPE_NUMBER_REAL then andthen (get_real rb) (\<lambda>(n, rb). Ret (LReal n, rb))
        else andthen (get_integer rb cookie) (\<lambda>(n, rb). Ret (LInt n, rb))
      else if ty = TYPE_USERDATA then andthen (get_pointer rb) (\<lambda>(p, rb). Ret (LUser p, rb))
      else if ty = TYPE_SHORT_STRING then get_buffer rb (int (unat cookie))
      else if ty = TYPE_LONG_STRING then
        if cookie = 2 then andthen (read_n 503 2 rb) (\<lambda>(n, rb). get_buffer rb (int (mem_value n)))
        else if cookie \<noteq> 4 then invalid_stream 510 rb
        else andthen (read_n 514 4 rb) (\<lambda>(n, rb). get_buffer rb (wrap_int (int (mem_value n))))
      else if ty = TYPE_TABLE then unpack_table f rb cookie
      else invalid_stream 527 rb)"
  by (simp only: push_value.simps[of "Suc f"] nat.case)

section \<open>Reading any stream\<close>

abbreviation remaining :: "read_block \<Rightarrow> nat" where
  "remaining rb \<equiv> length (rb_rest rb)"

abbreviation proper_tab :: "table \<Rightarrow> bool" where
  "proper_tab t \<equiv> proper (LTable t)"

lemma reads_bind:
  assumes "reads n rb P m" "\<And>x rb'. P x \<Longrightarrow> rb_ok rb' \<Longrightarrow> remaining rb' + n \<le> remaining rb \<Longrightarrow> reads 0 rb' Q (f x rb')"
  shows "reads n rb Q (andthen m (\<lambda>(x, rb). f x rb))"
  using reads_then[OF assms(1), of 0 Q "\<lambda>(x, rb). f x rb"] assms(2) by simp

lemma reads_if: "(b \<Longrightarrow> reads n rb P m) \<Longrightarrow> (\<not> b \<Longrightarrow> reads n rb P m') \<Longrightarrow> reads n rb P (if b then m else m')"
  by simp

lemma reads_map: "reads n rb P m \<Longrightarrow> (\<And>x. P x \<Longrightarrow> Q (g x)) \<Longrightarrow> reads n rb Q (andthen m (\<lambda>(x, rb). Ret (g x, rb)))"
  by (erule reads_bind) (simp add: reads_Ret)

text \<open>With enough fuel, the readers return well-formed values or raise errors; they read nothing outside of the
  buffer.\<close>

lemma unpack_reads:
  "(\<forall>rb. rb_ok rb \<longrightarrow> 5 * remaining rb + 1 \<le> f \<longrightarrow> reads 1 rb proper (unpack_one f rb)) \<and>
   (\<forall>rb ty c. rb_ok rb \<longrightarrow> 5 * remaining rb + 5 \<le> f \<longrightarrow> reads 0 rb proper (push_value f rb ty c)) \<and>
   (\<forall>rb c. rb_ok rb \<longrightarrow> 5 * remaining rb + 4 \<le> f \<longrightarrow> reads 0 rb proper (unpack_table f rb c)) \<and>
   (\<forall>rb i n t. rb_ok rb \<longrightarrow> 5 * remaining rb + 3 \<le> f \<longrightarrow> proper_tab t \<longrightarrow> reads 0 rb proper_tab (unpack_array f rb i n t)) \<and>
   (\<forall>rb t. rb_ok rb \<longrightarrow> 5 * remaining rb + 2 \<le> f \<longrightarrow> proper_tab t \<longrightarrow> reads 0 rb proper_tab (unpack_hash f rb t))"
proof (induction f)
  case (Suc f)
  note one = Suc[THEN conjunct1, rule_format]
    and val = Suc[THEN conjunct2, THEN conjunct1, rule_format]
    and tab = Suc[THEN conjunct2, THEN conjunct2, THEN conjunct1, rule_format]
    and arr = Suc[THEN conjunct2, THEN conjunct2, THEN conjunct2, THEN conjunct1, rule_format]
    and hash = Suc[THEN conjunct2, THEN conjunct2, THEN conjunct2, THEN conjunct2, rule_format]
  have int: "norm_key (LInt x) = Inr (LInt x)" for x by (simp add: norm_key_def)
  have 1: "reads 1 rb proper (unpack_one (Suc f) rb)" if "rb_ok rb" "5 * remaining rb + 1 \<le> Suc f" for rb
    unfolding unpack_Suc by (rule reads_bind[OF reads_read_n[OF that(1)]]) (use that val in auto)
  have 3: "reads 0 rb proper (unpack_table (Suc f) rb c)" if "rb_ok rb" "5 * remaining rb + 4 \<le> Suc f" for rb c
  proof -
    have "proper_tab []" by (simp add: proper_LTable proper_table_def)
    then show ?thesis
      unfolding unpack_Suc using that
      by (intro reads_bind[OF reads_table_size[OF that(1)]] reads_map[of _ _ proper_tab] arr) auto
  qed
  have 4: "reads 0 rb proper_tab (unpack_array (Suc f) rb i n t)" if "rb_ok rb" "5 * remaining rb + 3 \<le> Suc f" "proper_tab t" for rb i n t
  proof (cases "i \<le> n")
    case True
    have "reads 1 rb proper (unpack_one f rb)" using that by (intro one) auto
    then have "reads 1 rb proper_tab (andthen (unpack_one f rb) (\<lambda>(v, rb). unpack_array f rb (i + 1) n (store t (LInt (word_of_int i)) v)))"
      by (rule reads_bind) (use that proper_store[OF that(3) _ int] in \<open>auto intro!: arr\<close>)
    then show ?thesis using True by (simp add: unpack_Suc(3) reads_0)
  qed (use hash that in \<open>simp add: unpack_Suc(3)\<close>)
  have 5: "reads 0 rb proper_tab (unpack_hash (Suc f) rb t)" if "rb_ok rb" "5 * remaining rb + 2 \<le> Suc f" "proper_tab t" for rb t
    unfolding unpack_Suc
  proof (rule reads_0, rule reads_bind)
    show "reads 1 rb proper (unpack_one f rb)" using that by (intro one) auto
    fix k rb1
    assume k: "proper k" "rb_ok rb1" "remaining rb1 + 1 \<le> remaining rb"
    have "reads 1 rb1 proper (unpack_one f rb1)" using k that by (intro one) auto
    then have "reads 1 rb1 proper_tab (andthen (unpack_one f rb1) (\<lambda>(v, rb).
        (case norm_key k of Inl e \<Rightarrow> Raise e | Inr k \<Rightarrow> unpack_hash f rb (store t k v))))" if "k \<noteq> LNil"
    proof (rule reads_bind)
      fix v rb2
      assume v: "proper v" "rb_ok rb2" "remaining rb2 + 1 \<le> remaining rb1"
      have "reads 0 rb2 proper_tab (unpack_hash f rb2 (store t k' v))" if "norm_key k = Inr k'" for k'
        using proper_store[OF \<open>proper_tab t\<close>, of k' v] norm_key_norm[OF that] \<open>k \<noteq> LNil\<close> k v \<open>5 * remaining rb + 2 \<le> Suc f\<close>
        by (intro hash) auto
      then show "reads 0 rb2 proper_tab (case norm_key k of Inl e \<Rightarrow> Raise e | Inr k \<Rightarrow> unpack_hash f rb2 (store t k v))"
        by (simp add: reads_Raise split: sum.split)
    qed
    then show "reads 0 rb1 proper_tab (if k = LNil then Ret (t, rb1)
        else andthen (unpack_one f rb1) (\<lambda>(v, rb). (case norm_key k of Inl e \<Rightarrow> Raise e | Inr k \<Rightarrow> unpack_hash f rb (store t k v))))"
      using k that reads_Ret[of proper_tab t rb1] by (auto intro: reads_0)
  qed
  have 2: "reads 0 rb proper (push_value (Suc f) rb ty c)" if rb: "rb_ok rb" "5 * remaining rb + 5 \<le> Suc f" for rb ty c
  proof -
    have buf: "reads 0 rb' proper (get_buffer rb' len)" if "rb_ok rb'" "len \<le> INT_MAX" for rb' len
      by (rule reads_weaken[OF reads_get_buffer[OF that]]) auto
    have long: "reads 0 rb proper (andthen (read_n line n rb) (\<lambda>(n, rb). get_buffer rb (g (mem_value n))))"
      if "\<And>bs. length bs = n \<Longrightarrow> g (mem_value bs) \<le> INT_MAX" for line n g
      by (rule reads_0, rule reads_bind[OF reads_read_n[OF \<open>rb_ok rb\<close>]]) (use buf that in auto)
    have len2: "int (mem_value bs) \<le> INT_MAX" if "length bs = 2" for bs
      using be_value_bound[of "rev bs"] that by (simp add: mem_value_def INT_MAX_def)
    have "unat c < 256" using unsigned_less[of c] by simp
    then have short: "int (unat c) \<le> INT_MAX" unfolding INT_MAX_def by linarith
    have val8: "reads 0 rb proper (andthen (andthen (read_n line 8 rb) (\<lambda>(pn, rb). Ret (h pn, rb))) (\<lambda>(n, rb). Ret (g n, rb)))"
      if "\<And>n. proper (g n)" for line h and g :: "u64 \<Rightarrow> lval"
      by (rule reads_map[OF reads_read_value[THEN reads_0, OF rb(1)]]) (simp add: that)
    have num: "reads 0 rb proper (andthen (get_integer rb c) (\<lambda>(n, rb). Ret (LInt n, rb)))"
      by (rule reads_map[OF reads_get_integer[OF rb(1)]]) simp
    have "reads 0 rb proper (unpack_table f rb c)" using rb by (intro tab) auto
    then show ?thesis
      unfolding unpack_Suc2 get_real_def get_pointer_def invalid_stream_def
      by (intro reads_if reads_Ret reads_Raise num val8 buf long len2 short rb(1) conjunct2[OF wrap_int_range]) simp_all
  qed
  show ?case using 1 2 3 4 5 by blast
qed simp

lemma push_value_reads:
  "rb_ok rb \<Longrightarrow> reads 0 rb proper (push_value (fuel_for rb) rb ty c)"
  using unpack_reads[of "fuel_for rb"] length_rb_rest[of rb] by (auto simp: fuel_for_def)

lemma unpack_loop_reads:
  "rb_ok rb \<Longrightarrow> remaining rb < f \<Longrightarrow>
     (\<exists>vs. unpack_loop f rb = Ret vs \<and> (\<forall>v \<in> set vs. proper v)) \<or> (\<exists>e. unpack_loop f rb = Raise e)"
proof (induction f arbitrary: rb)
  case (Suc f)
  show ?case
  proof (cases "remaining rb")
    case 0
    then show ?thesis using rb_read_short[OF Suc.prems(1), of 1] by simp
  next
    case (Suc n)
    then obtain rb1 where rb1: "rb_read rb 1 = Some (rb_ptr rb, rb1)" "bytes_at rb1 (rb_ptr rb) 1 = Ret (take 1 (rb_rest rb))"
      "rb_ok rb1" "remaining rb1 = n"
      using rb_read_ok[OF Suc.prems(1), of 1] by auto
    show ?thesis
    proof (cases "push_value (fuel_for rb1) rb1 (hd (take 1 (rb_rest rb)) AND 7) (drop_bit 3 (hd (take 1 (rb_rest rb))))")
      case (Ret r)
      then have "reads 0 rb1 proper (Ret r)" using push_value_reads[OF rb1(3)] by metis
      then obtain v rb2 where r: "r = (v, rb2)" "proper v" "rb_ok rb2" "remaining rb2 \<le> n"
        using rb1(4) by (cases r) (simp add: reads_def)
      then show ?thesis
        using Suc.IH[OF r(3)] Suc.prems rb1(1,2) Ret \<open>remaining rb = Suc n\<close> by auto
    qed (use push_value_reads[OF rb1(3), of "hd (take 1 (rb_rest rb)) AND 7" "drop_bit 3 (hd (take 1 (rb_rest rb)))"] rb1(1,2)
        in \<open>simp_all add: reads_def\<close>)
  qed
qed simp




section \<open>What arrives\<close>

text \<open>The table that the reader builds from the fields in the order of the stream.\<close>

definition build :: "nat \<Rightarrow> table \<Rightarrow> table" where
  "build n es = foldl (\<lambda>t (k, v). store t k v) []
     (map (\<lambda>i. (LInt (of_nat i), rawget es (LInt (of_nat i)))) [1..<n + 1] @ filter (\<lambda>e. \<not> in_array n (fst e)) es)"

text \<open>A copy of a value, with the tables built anew.\<close>

primrec copy :: "(table \<Rightarrow> nat) \<Rightarrow> lval \<Rightarrow> lval" where
  "copy rl LNil = LNil"
| "copy rl (LBool b) = LBool b"
| "copy rl (LInt v) = LInt v"
| "copy rl (LReal v) = LReal v"
| "copy rl (LUser v) = LUser v"
| "copy rl (LStr s) = LStr s"
| "copy rl (LTable es) = LTable (build (rl es) (map (map_prod (copy rl) (copy rl)) es))"
| "copy rl (LProxy es err) = LTable (foldl (\<lambda>t (k, v). store t k v) [] (map (map_prod (copy rl) (copy rl)) es))"
| "copy rl (LOther ty) = LOther ty"

text \<open>The keys that a table of Lua can have.\<close>

primrec keys_ok :: "lval \<Rightarrow> bool" where
  "keys_ok LNil = True"
| "keys_ok (LBool b) = True"
| "keys_ok (LInt v) = True"
| "keys_ok (LReal v) = True"
| "keys_ok (LUser v) = True"
| "keys_ok (LStr s) = True"
| "keys_ok (LTable es) = (list_all (\<lambda>e. fst e \<noteq> LNil \<and> norm_key (fst e) = Inr (fst e)) es \<and>
     list_all (\<lambda>(k, v). k \<and> v) (map (map_prod keys_ok keys_ok) es))"
| "keys_ok (LProxy es err) = (list_all (\<lambda>e. fst e \<noteq> LNil \<and> norm_key (fst e) = Inr (fst e)) es \<and>
     list_all (\<lambda>(k, v). k \<and> v) (map (map_prod keys_ok keys_ok) es))"
| "keys_ok (LOther ty) = True"

lemma copy_LInt: "copy rl k = LInt x \<longleftrightarrow> k = LInt x" "LInt x = copy rl k \<longleftrightarrow> k = LInt x" by (cases k; auto)+
lemma copy_LNil: "copy rl k = LNil \<longleftrightarrow> k = LNil" by (cases k) auto
lemma copy_norm: "norm_key k = Inr k \<Longrightarrow> norm_key (copy rl k) = Inr (copy rl k)"
  by (cases k) (auto simp: norm_key_def)
lemma copy_in_array: "in_array n (copy rl k) = in_array n k"
  by (cases k) (auto simp: in_array_def)

lemma rawget_copy: "rawget (map (map_prod (copy rl) (copy rl)) es) (LInt x) = copy rl (rawget es (LInt x))"
  by (induction es) (auto simp: rawget_def copy_LInt)

lemma filter_copy_array:
  "filter (\<lambda>e. \<not> in_array n (fst e)) (map (map_prod (copy rl) (copy rl)) es) =
     map (map_prod (copy rl) (copy rl)) (filter (\<lambda>e. \<not> in_array n (fst e)) es)"
  by (induction es) (auto simp: copy_in_array)

text \<open>Numbers are read as they were written.\<close>

lemma mem_value_bytes: "x < 256 ^ n \<Longrightarrow> mem_value (mem_bytes n x) = x"
  by (simp add: mem_value_def mem_bytes_def be_value_be_bytes)

lemma length_mem_bytes [simp]: "length (mem_bytes n x) = n"
  by (simp add: mem_bytes_def)

text \<open>A reader that, on a stream that starts with \<open>e\<close>, returns \<open>x\<close> and leaves the rest.\<close>

definition delivers :: "read_block \<Rightarrow> u8 list \<Rightarrow> u8 list \<Rightarrow> 'a \<Rightarrow> ('a \<times> read_block) outcome \<Rightarrow> bool" where
  "delivers rb e rest x m \<longleftrightarrow> (rb_ok rb \<and> rb_rest rb = e @ rest \<longrightarrow> (\<exists>rb'. m = Ret (x, rb') \<and> rb_ok rb' \<and> rb_rest rb' = rest))"

lemma delivers_read_n:
  assumes "length e = n"
  shows "delivers rb e rest e (read_n line n rb)"
  unfolding delivers_def
proof safe
  assume e: "rb_ok rb" "rb_rest rb = e @ rest"
  then have "n \<le> remaining rb" using assms by simp
  then obtain rb' where "read_n line n rb = Ret (take n (rb_rest rb), rb')" "rb_ok rb'" "rb_rest rb' = drop n (rb_rest rb)"
    using read_n_ok[OF e(1)] by blast
  then show "\<exists>rb'. read_n line n rb = Ret (e, rb') \<and> rb_ok rb' \<and> rb_rest rb' = rest" using e assms by simp
qed

lemma delivers_then:
  assumes "delivers rb e (e' @ rest) x m" "\<And>rb'. delivers rb' e' rest y (f x rb')"
  shows "delivers rb (e @ e') rest y (andthen m (\<lambda>(x, rb). f x rb))"
  using assms by (fastforce simp: delivers_def)

lemma delivers_Ret: "delivers rb [] rest x (Ret (x, rb))"
  by (simp add: delivers_def)

lemma delivers_map: "delivers rb e rest x m \<Longrightarrow> delivers rb e rest (g x) (andthen m (\<lambda>(x, rb). Ret (g x, rb)))"
  using delivers_then[of rb e "[]" rest x m "g x" "\<lambda>x rb. Ret (g x, rb)"] by (simp add: delivers_Ret)

lemma delivers_buffer:
  assumes "int (length s) \<le> INT_MAX"
  shows "delivers rb s rest (LStr s) (get_buffer rb (int (length s)))"
  unfolding delivers_def
proof safe
  assume e: "rb_ok rb" "rb_rest rb = s @ rest"
  then show "\<exists>rb'. get_buffer rb (int (length s)) = Ret (LStr s, rb') \<and> rb_ok rb' \<and> rb_rest rb' = rest"
    using rb_read_ok[OF e(1), of "length s"] by (auto simp: get_buffer_def)
qed

lemma delivers_number: "length e = n \<Longrightarrow> g e = v \<Longrightarrow> delivers rb e rest v (andthen (read_n line n rb) (\<lambda>(pn, rb). Ret (g pn, rb)))"
  using delivers_map[OF delivers_read_n, of e n rb rest g line] by simp

lemma low_bits:
  fixes v :: u64
  assumes "0 \<le> sint v" "sint v < 2 ^ LENGTH('b)" "LENGTH('b::len) \<le> 64"
  shows "of_nat (unat (ucast v :: 'b word)) = v"
proof -
  have "uint v < 2 ^ LENGTH('b)" using small_uint(1)[OF assms(1)] assms(2) by simp
  moreover have "int (unat v) = uint v" by simp
  ultimately have "int (unat v) < int (2 ^ LENGTH('b))" by simp
  then have "unat v < 2 ^ LENGTH('b)" by (simp only: of_nat_less_iff)
  then have "unat (ucast v :: 'b word) = unat v"
    by (simp add: unsigned_ucast_eq take_bit_nat_eq_self)
  then show ?thesis by simp
qed

lemma unat_mem_value: "LENGTH('a::len) = 8 * n \<Longrightarrow> mem_value (mem_bytes n (unat (w :: 'a word))) = unat w"
  using unsigned_less[of w] by (intro mem_value_bytes) (simp add: power_mult)

lemma delivers_integer:
  assumes "enc_integer v = c # e"
  shows "delivers rb e rest v (get_integer rb (drop_bit 3 c)) \<and> c AND 7 = 2 \<and> drop_bit 3 c \<noteq> 8"
proof -
  consider "sint v = 0" | "sint v < - (2 ^ 31) \<or> 2 ^ 31 \<le> sint v" | "sint v \<noteq> 0" "- (2 ^ 31) \<le> sint v" "sint v < 2 ^ 31" "sint v < 0 \<or> 0x10000 \<le> sint v"
    | "0 < sint v" "sint v < 0x100" | "0x100 \<le> sint v" "sint v < 0x10000" by linarith
  then show ?thesis
  proof cases
    case 1
    then have "v = 0" using signed_word_eqI[of v 0] by simp
    then show ?thesis using assms by (auto simp: enc_integer_def get_integer_def type_defs delivers_Ret)
  next
    case 2
    then have e: "c = 0x32" "e = mem_bytes 8 (unat v)" using assms by (auto simp: enc_integer_def Let_def split: if_splits)
    then show ?thesis
      using unat_mem_value[of 8 v] by (simp add: get_integer_def type_defs delivers_number)
  next
    case 3
    then have e: "c = 0x22" "e = mem_bytes 4 (unat (ucast v :: u32))" using assms by (auto simp: enc_integer_def Let_def split: if_splits)
    moreover have "scast (ucast v :: u32) = v" using fits_int32[of v] 3 by simp
    ultimately show ?thesis
      using unat_mem_value[of 4 "ucast v :: u32"] by (simp add: get_integer_def type_defs delivers_number)
  next
    case 4
    then have e: "c = 0x0a" "e = [ucast v]" using assms by (auto simp: enc_integer_def Let_def split: if_splits)
    moreover have "of_nat (mem_value [ucast v]) = v"
      using low_bits[of v, where 'b = 8] 4 by (simp add: mem_value_def be_value_def)
    ultimately show ?thesis
      by (simp add: get_integer_def type_defs delivers_number)
  next
    case 5
    then have e: "c = 0x12" "e = mem_bytes 2 (unat (ucast v :: u16))" using assms by (auto simp: enc_integer_def Let_def split: if_splits)
    moreover have "of_nat (mem_value e) = v"
      using low_bits[of v, where 'b = 16] 5 unat_mem_value[of 2 "ucast v :: u16"] by (simp add: e(2))
    ultimately show ?thesis
      by (simp add: get_integer_def type_defs delivers_number)
  qed
qed


lemma delivers_if: "(int (length (e @ rest)) \<le> INT_MAX \<Longrightarrow> delivers rb e rest x m) \<Longrightarrow> delivers rb e rest x m"
proof -
  assume *: "int (length (e @ rest)) \<le> INT_MAX \<Longrightarrow> delivers rb e rest x m"
  have "int (length (e @ rest)) \<le> INT_MAX" if "rb_ok rb" "rb_rest rb = e @ rest"
    using that length_rb_rest[of rb] by (simp add: rb_ok_def)
  with * show ?thesis by (auto simp: delivers_def)
qed

lemma cookie_bits:
  assumes "n < 32"
  shows "(4 OR push_bit 3 (of_nat n :: u8)) AND 7 = 4" "unat (drop_bit 3 (4 OR push_bit 3 (of_nat n :: u8))) = n"
    "(6 OR push_bit 3 (of_nat n :: u8)) AND 7 = 6" "unat (drop_bit 3 (6 OR push_bit 3 (of_nat n :: u8))) = n"
proof -
  have "list_all (\<lambda>n. (4 OR push_bit 3 (of_nat n :: u8)) AND 7 = 4 \<and> unat (drop_bit 3 (4 OR push_bit 3 (of_nat n :: u8))) = n \<and>
    (6 OR push_bit 3 (of_nat n :: u8)) AND 7 = 6 \<and> unat (drop_bit 3 (6 OR push_bit 3 (of_nat n :: u8))) = n) [0..<32]"
    by code_simp
  with assms show "(4 OR push_bit 3 (of_nat n :: u8)) AND 7 = 4" "unat (drop_bit 3 (4 OR push_bit 3 (of_nat n :: u8))) = n"
    "(6 OR push_bit 3 (of_nat n :: u8)) AND 7 = 6" "unat (drop_bit 3 (6 OR push_bit 3 (of_nat n :: u8))) = n"
    by (auto simp: list_all_iff)
qed

lemma delivers_head:
  assumes "\<And>rb. delivers rb e rest x (push_value f rb (c AND 7) (drop_bit 3 c))"
  shows "delivers rb (c # e) rest x (unpack_one (Suc f) rb)"
  using delivers_then[OF delivers_read_n, of "[c]" 1 e rest x "\<lambda>t rb. push_value f rb (hd t AND 7) (drop_bit 3 (hd t))" rb 538] assms
  by (simp add: unpack_Suc)

lemma delivers_string:
  "enc_string s = c # e \<Longrightarrow> delivers rb e rest (LStr s) (push_value (Suc f) rb (c AND 7) (drop_bit 3 c))"
proof (rule delivers_if)
  assume e: "enc_string s = c # e" and l: "int (length (e @ rest)) \<le> INT_MAX"
  have len: "int (length s) \<le> INT_MAX" using e l by (auto simp: enc_string_def split: if_splits)
  consider "length s < 32" | "32 \<le> length s" "length s < 0x10000" | "0x10000 \<le> length s" by linarith
  then show ?thesis
  proof cases
    case 1
    then have "c = 4 OR push_bit 3 (of_nat (length s))" "e = s" using e by (auto simp: enc_string_def)
    then show ?thesis
      using cookie_bits[OF 1] delivers_buffer[OF len] by (simp add: unpack_Suc2 type_defs)
  next
    case 2
    then have c: "c = 0x15" "e = mem_bytes 2 (length s) @ s" using e by (auto simp: enc_string_def)
    have "mem_value (mem_bytes 2 (length s)) = length s" using 2 by (intro mem_value_bytes) simp
    then have "delivers rb e rest (LStr s) (andthen (read_n 503 2 rb) (\<lambda>(n, rb). get_buffer rb (int (mem_value n))))"
      unfolding c(2) using delivers_buffer[OF len] by (intro delivers_then[OF delivers_read_n]) auto
    then show ?thesis unfolding c(1) by (simp add: unpack_Suc2 type_defs)
  next
    case 3
    then have c: "c = 0x25" "e = mem_bytes 4 (length s) @ s" using e by (auto simp: enc_string_def)
    have "mem_value (mem_bytes 4 (length s)) = length s" using len by (intro mem_value_bytes) (simp add: INT_MAX_def)
    moreover have "wrap_int (int (length s)) = int (length s)" using len by (intro wrap_int_id) (auto simp: INT_MIN_def)
    ultimately have "delivers rb e rest (LStr s) (andthen (read_n 514 4 rb) (\<lambda>(n, rb). get_buffer rb (wrap_int (int (mem_value n)))))"
      unfolding c(2) using delivers_buffer[OF len] by (intro delivers_then[OF delivers_read_n]) auto
    then show ?thesis unfolding c(1) by (simp add: unpack_Suc2 type_defs)
  qed
qed

lemma enc_string_Cons: "\<exists>c e. enc_string s = c # e"
  by (simp add: enc_string_def)

lemma enc_integer_Cons: "\<exists>c e. enc_integer v = c # e"
  by (simp add: enc_integer_def Let_def)

lemma delivers_size:
  assumes "enc_head n = c # e" "int n \<le> INT_MAX"
  shows "delivers rb e rest (int n) (table_size rb (drop_bit 3 c))" "c AND 7 = 6"
proof -
  show "delivers rb e rest (int n) (table_size rb (drop_bit 3 c))"
  proof (cases "n < 31")
    case True
    then have "c = 6 OR push_bit 3 (of_nat n)" "e = []" using assms by (auto simp: enc_head_def)
    then show ?thesis
      using True cookie_bits[of n] delivers_Ret[of rb rest "int n"] by (simp add: table_size_def type_defs)
  next
    case False
    then have c: "c = 0xfe" "e = enc_integer (of_nat n)" using assms by (auto simp: enc_head_def)
    obtain c' e' where i: "enc_integer (of_nat n) = c' # e'" using enc_integer_Cons by blast
    have "sint (of_nat n :: u64) = int n"
      using assms(2) by (simp add: INT_MAX_def signed_of_nat signed_take_bit_int_eq_self)
    then have w: "wrap_int (sint (of_nat n :: u64)) = int n" using assms(2) by (simp add: wrap_int_id INT_MIN_def)
    have "delivers rb ([c'] @ e') rest (int n) (andthen (read_n 450 1 rb) (\<lambda>(t, rb).
        let ty = hd t; cookie = drop_bit 3 ty in
        if ty AND 7 \<noteq> TYPE_NUMBER \<or> cookie = TYPE_NUMBER_REAL then invalid_stream 455 rb
        else andthen (get_integer rb cookie) (\<lambda>(n, rb). Ret (wrap_int (sint n), rb))))"
    proof (rule delivers_then[OF delivers_read_n])
      fix rb'
      show "delivers rb' e' rest (int n) (let ty = hd [c']; cookie = drop_bit 3 ty in
        if ty AND 7 \<noteq> TYPE_NUMBER \<or> cookie = TYPE_NUMBER_REAL then invalid_stream 455 rb'
        else andthen (get_integer rb' cookie) (\<lambda>(n, rb). Ret (wrap_int (sint n), rb)))"
        using delivers_map[of rb' e' rest "of_nat n" "get_integer rb' (drop_bit 3 c')" "\<lambda>n. wrap_int (sint n)"] delivers_integer[OF i, of rb' rest] w
        by (simp add: type_defs)
    qed simp
    then show ?thesis unfolding c i by (simp add: table_size_def type_defs)
  qed
  show "c AND 7 = 6" using assms cookie_bits[of n] by (auto simp: enc_head_def split: if_splits)
qed

text \<open>A value is decoded when there is fuel for it and the rest of the stream.\<close>

definition decoded :: "(table \<Rightarrow> nat) \<Rightarrow> lval \<Rightarrow> bool" where
  "decoded rl v \<longleftrightarrow> wire rl v \<noteq> [] \<and> (\<forall>f rb rest. 5 * (length (wire rl v) + length rest) + 1 \<le> f \<longrightarrow>
     delivers rb (wire rl v) rest (copy rl v) (unpack_one f rb))"

lemma decoded_one: "decoded rl v \<Longrightarrow> 5 * (length (wire rl v) + length rest) + 1 \<le> f \<Longrightarrow>
    delivers rb (wire rl v) rest (copy rl v) (unpack_one f rb)"
  by (simp add: decoded_def)

lemma decoded_length: "decoded rl v \<Longrightarrow> 1 \<le> length (wire rl v)"
  by (cases "wire rl v") (auto simp: decoded_def)

lemma decodedI:
  assumes "wire rl v = c # e" "\<And>f rb rest. 5 * (length e + length rest) + 5 \<le> f \<Longrightarrow>
    delivers rb e rest (copy rl v) (push_value f rb (c AND 7) (drop_bit 3 c))"
  shows "decoded rl v"
  unfolding decoded_def
proof (intro conjI allI impI)
  fix f rb and rest :: "u8 list"
  assume f: "5 * (length (wire rl v) + length rest) + 1 \<le> f"
  then obtain f' where f': "f = Suc f'" by (cases f) auto
  have "5 * (length e + length rest) + 5 \<le> f'" using f by (simp add: f' assms(1))
  then show "delivers rb (wire rl v) rest (copy rl v) (unpack_one f rb)"
    unfolding f' assms(1) by (intro delivers_head assms(2))
qed (simp add: assms(1))

lemma decoded_scalar:
  assumes "wire rl v = c # e" "\<And>f rb rest. delivers rb e rest (copy rl v) (push_value (Suc f) rb (c AND 7) (drop_bit 3 c))"
  shows "decoded rl v"
proof (rule decodedI[OF assms(1)])
  fix f rb and rest :: "u8 list"
  assume "5 * (length e + length rest) + 5 \<le> f"
  then obtain f' where "f = Suc f'" by (cases f) auto
  then show "delivers rb e rest (copy rl v) (push_value f rb (c AND 7) (drop_bit 3 c))" using assms(2) by simp
qed

lemma delivers_hash:
  assumes "\<And>k v. (k, v) \<in> set es \<Longrightarrow> decoded rl k \<and> decoded rl v \<and> k \<noteq> LNil \<and> norm_key k = Inr k"
    "5 * (length (concat (map (\<lambda>(k, v). wire rl k @ wire rl v) es) @ [0 :: u8]) + length rest) + 2 \<le> f"
  shows "delivers rb (concat (map (\<lambda>(k, v). wire rl k @ wire rl v) es) @ [0]) rest
    (foldl (\<lambda>t (k, v). store t k v) t (map (map_prod (copy rl) (copy rl)) es)) (unpack_hash f rb t)"
  using assms
proof (induction es arbitrary: f rb t)
  case Nil
  obtain f' where f': "f = Suc f'" "6 \<le> f'" using Nil(2) by (cases f) auto
  have "decoded rl LNil"
    by (rule decoded_scalar[of _ _ 0 "[]"]) (simp_all add: unpack_Suc2 type_defs delivers_Ret)
  then have "delivers rb [0] rest LNil (unpack_one f' rb)"
    using decoded_one[of rl LNil rest f' rb] Nil(2) by (simp add: f')
  then show ?case
    using delivers_then[of rb "[0]" "[]" rest LNil "unpack_one f' rb" t] by (simp add: unpack_Suc f' delivers_Ret)
next
  case (Cons e es)
  obtain k v where e: "e = (k, v)" by (cases e)
  let ?r = "concat (map (\<lambda>(k, v). wire rl k @ wire rl v) es) @ [0]"
  obtain f' where f': "f = Suc f'" using Cons.prems(2) by (cases f) auto
  have kv: "decoded rl k" "decoded rl v" "k \<noteq> LNil" "norm_key k = Inr k" using Cons.prems(1)[of k v] by (auto simp: e)
  have fu: "5 * (length (wire rl k) + length (wire rl v) + length ?r + length rest) + 1 \<le> f'"
    using Cons.prems(2) by (simp add: e f')
  have t: "delivers rb2 ?r rest (foldl (\<lambda>t (k, v). store t k v) (store t (copy rl k) (copy rl v)) (map (map_prod (copy rl) (copy rl)) es))
      (unpack_hash f' rb2 (store t (copy rl k) (copy rl v)))" for rb2
    using Cons.prems(1) fu decoded_length[OF kv(1)] by (intro Cons.IH) auto
  have "delivers rb (wire rl k @ wire rl v @ ?r) rest
     (foldl (\<lambda>t (k, v). store t k v) (store t (copy rl k) (copy rl v)) (map (map_prod (copy rl) (copy rl)) es)) (unpack_hash f rb t)"
    unfolding f' unpack_Suc
  proof (rule delivers_then[OF decoded_one[OF kv(1)]])
    fix rb1
    have "delivers rb1 (wire rl v @ ?r) rest
       (foldl (\<lambda>t (k, v). store t k v) (store t (copy rl k) (copy rl v)) (map (map_prod (copy rl) (copy rl)) es))
       (andthen (unpack_one f' rb1) (\<lambda>(v, rb). case norm_key (copy rl k) of Inl e \<Rightarrow> Raise e | Inr k \<Rightarrow> unpack_hash f' rb (store t k v)))"
      using t fu by (intro delivers_then[OF decoded_one[OF kv(2)]]) (auto simp: copy_norm[OF kv(4)])
    then show "delivers rb1 (wire rl v @ ?r) rest
       (foldl (\<lambda>t (k, v). store t k v) (store t (copy rl k) (copy rl v)) (map (map_prod (copy rl) (copy rl)) es))
       (if copy rl k = LNil then Ret (t, rb1) else
        andthen (unpack_one f' rb1) (\<lambda>(v, rb). case norm_key (copy rl k) of Inl e \<Rightarrow> Raise e | Inr k \<Rightarrow> unpack_hash f' rb (store t k v)))"
      using kv(3) by (simp add: copy_LNil)
  qed (use fu in auto)
  then show ?case by (simp add: e)
qed

fun store_seq :: "int \<Rightarrow> table \<Rightarrow> lval list \<Rightarrow> table" where
  "store_seq i t [] = t"
| "store_seq i t (v # vs) = store_seq (i + 1) (store t (LInt (word_of_int i)) v) vs"

lemma store_seq_foldl:
  "store_seq (int m) t (map g [m..<n]) = foldl (\<lambda>t (k, v). store t k v) t (map (\<lambda>i. (LInt (of_nat i), g i)) [m..<n])"
proof (induction "n - m" arbitrary: m t)
  case (Suc k)
  then have "[m..<n] = m # [Suc m..<n]" by (simp add: upt_conv_Cons)
  then show ?case using Suc(1)[of "Suc m" "store t (LInt (of_nat m)) (g m)"] Suc(2) by (simp add: add.commute)
qed simp

lemma delivers_array:
  assumes "\<And>v. v \<in> set vs \<Longrightarrow> decoded rl v"
    "5 * (length (concat (map (wire rl) vs)) + length h + length rest) + 3 \<le> f"
    "\<And>f rb. 5 * (length h + length rest) + 2 \<le> f \<Longrightarrow> delivers rb h rest T (unpack_hash f rb (store_seq i t (map (copy rl) vs)))"
  shows "delivers rb (concat (map (wire rl) vs) @ h) rest T (unpack_array f rb i (i + int (length vs) - 1) t)"
  using assms
proof (induction vs arbitrary: f rb i t)
  case Nil
  obtain f' where "f = Suc f'" "5 * (length h + length rest) + 2 \<le> f'" using Nil(2) by (cases f) auto
  then show ?case using Nil(3) by (simp add: unpack_Suc(3))
next
  case (Cons v vs)
  obtain f' where f': "f = Suc f'" using Cons.prems(2) by (cases f) auto
  have v: "decoded rl v" using Cons.prems(1) by simp
  have fu: "5 * (length (wire rl v) + length (concat (map (wire rl) vs)) + length h + length rest) + 2 \<le> f'"
    using Cons.prems(2) by (simp add: f')
  have "delivers rb (wire rl v @ (concat (map (wire rl) vs) @ h)) rest T
      (andthen (unpack_one f' rb) (\<lambda>(v, rb). unpack_array f' rb (i + 1) (i + int (length (v # vs)) - 1) (store t (LInt (word_of_int i)) v)))"
  proof (rule delivers_then[OF decoded_one[OF v]])
    fix rb'
    have "delivers rb' (concat (map (wire rl) vs) @ h) rest T
      (unpack_array f' rb' (i + 1) (i + 1 + int (length vs) - 1) (store t (LInt (word_of_int i)) (copy rl v)))"
      using Cons.prems(1,3) fu decoded_length[OF v] by (intro Cons.IH) auto
    then show "delivers rb' (concat (map (wire rl) vs) @ h) rest T
      (unpack_array f' rb' (i + 1) (i + int (length (copy rl v # vs)) - 1) (store t (LInt (word_of_int i)) (copy rl v)))"
      by (simp add: algebra_simps)
  qed (use fu in auto)
  then show ?case by (simp add: f' unpack_Suc(3))
qed

lemma delivers_fields:
  assumes "enc_head n = c # e" "length vs = n" "\<And>v. v \<in> set vs \<Longrightarrow> decoded rl v"
    "\<And>k v. (k, v) \<in> set hs \<Longrightarrow> decoded rl k \<and> decoded rl v \<and> k \<noteq> LNil \<and> norm_key k = Inr k"
    "E = e @ concat (map (wire rl) vs) @ concat (map (\<lambda>(k, v). wire rl k @ wire rl v) hs) @ [0]"
    "5 * (length E + length rest) + 5 \<le> f"
  shows "delivers rb E rest
    (LTable (foldl (\<lambda>t (k, v). store t k v) (store_seq 1 [] (map (copy rl) vs)) (map (map_prod (copy rl) (copy rl)) hs)))
    (push_value f rb (c AND 7) (drop_bit 3 c))"
proof (rule delivers_if)
  let ?h = "concat (map (\<lambda>(k, v). wire rl k @ wire rl v) hs) @ [0]"
  let ?T = "foldl (\<lambda>t (k, v). store t k v) (store_seq 1 [] (map (copy rl) vs)) (map (map_prod (copy rl) (copy rl)) hs)"
  assume l: "int (length (E @ rest)) \<le> INT_MAX"
  have "length vs \<le> length (concat (map (wire rl) vs))"
    using assms(3) by (induction vs) (fastforce dest: decoded_length)+
  then have n: "int n \<le> INT_MAX" using l assms(2,5) by simp
  obtain f' where f': "f = Suc (Suc f')" "5 * (length (concat (map (wire rl) vs)) + length ?h + length rest) + 3 \<le> f'"
    using assms(5,6) by (cases f; cases "f - 1") auto
  have "delivers rb (e @ (concat (map (wire rl) vs) @ ?h)) rest (LTable ?T) (unpack_table (Suc f') rb (drop_bit 3 c))"
    unfolding unpack_Suc
  proof (rule delivers_then[OF delivers_size(1)[OF assms(1) n]])
    fix rb'
    have "delivers rb' (concat (map (wire rl) vs) @ ?h) rest ?T (unpack_array f' rb' 1 (1 + int (length vs) - 1) [])"
      by (rule delivers_array[OF assms(3) f'(2) delivers_hash[OF assms(4)]])
    then show "delivers rb' (concat (map (wire rl) vs) @ ?h) rest (LTable ?T)
        (andthen (unpack_array f' rb' 1 (int n) []) (\<lambda>(t, rb). Ret (LTable t, rb)))"
      using assms(2) by (intro delivers_map) simp
  qed
  then show "delivers rb E rest (LTable ?T) (push_value f rb (c AND 7) (drop_bit 3 c))"
    unfolding f'(1) delivers_size(2)[OF assms(1) n] by (simp add: unpack_Suc2 type_defs assms(5))
qed

lemma enc_head_Cons: "\<exists>c e. enc_head n = c # e"
  by (simp add: enc_head_def)

lemma decoded_LTable:
  assumes "\<And>k v. (k, v) \<in> set es \<Longrightarrow> decoded rl k \<and> decoded rl v \<and> k \<noteq> LNil \<and> norm_key k = Inr k" "decoded rl LNil"
  shows "decoded rl (LTable es)"
proof -
  let ?n = "rl es" and ?vs = "map (\<lambda>i. rawget es (LInt (of_nat i))) [1..<rl es + 1]"
  let ?hs = "filter (\<lambda>e. \<not> in_array (rl es) (fst e)) es"
  obtain c e where h: "enc_head ?n = c # e" using enc_head_Cons by blast
  have vs: "decoded rl v" if "v \<in> set ?vs" for v
    using that assms by (auto simp: rawget_def split: option.splits dest!: map_of_SomeD)
  have hs: "decoded rl k \<and> decoded rl v \<and> k \<noteq> LNil \<and> norm_key k = Inr k" if "(k, v) \<in> set ?hs" for k v
    using that assms by auto
  have seq: "store_seq 1 [] (map (copy rl) ?vs) =
      foldl (\<lambda>t (k, v). store t k v) [] (map (\<lambda>i. (LInt (of_nat i), copy rl (rawget es (LInt (of_nat i))))) [1..<?n + 1])"
    using store_seq_foldl[of 1 "[]" "\<lambda>i. copy rl (rawget es (LInt (of_nat i)))" "?n + 1"] by (simp add: o_def del: upt_Suc)
  have "copy rl (LTable es) = LTable (foldl (\<lambda>t (k, v). store t k v) (store_seq 1 [] (map (copy rl) ?vs)) (map (map_prod (copy rl) (copy rl)) ?hs))"
    unfolding seq by (simp add: build_def rawget_copy filter_copy_array del: upt_Suc)
  moreover have "length ?vs = ?n" by simp
  moreover have "wire rl (LTable es) = c # e @ concat (map (wire rl) ?vs) @ concat (map (\<lambda>(k, v). wire rl k @ wire rl v) ?hs) @ [0]"
    unfolding wire_LTable h by (rule append_Cons)
  ultimately show ?thesis
    using decodedI[of rl "LTable es"] delivers_fields[OF h _ vs hs refl] by (simp only:)
qed

lemma decoded_LProxy:
  assumes "\<And>k v. (k, v) \<in> set es \<Longrightarrow> decoded rl k \<and> decoded rl v \<and> k \<noteq> LNil \<and> norm_key k = Inr k"
  shows "decoded rl (LProxy es err)"
proof -
  have h: "enc_head 0 = [6]" by (simp add: enc_head_def)
  have "concat (map (\<lambda>(k, v). wire rl k @ wire rl v) es) = concat (map (\<lambda>(k, v). k @ v) (map (map_prod (wire rl) (wire rl)) es))"
    by (simp add: o_def case_prod_unfold)
  then show ?thesis
    using delivers_fields[OF h, of "[]" rl es, OF _ _ assms refl]
    by (intro decodedI[of rl "LProxy es err" 6 "concat (map (\<lambda>(k, v). wire rl k @ wire rl v) es) @ [0]"]) simp_all
qed

lemma decoded_LNil: "decoded rl LNil"
  by (rule decoded_scalar[of _ _ 0 "[]"]) (simp_all add: unpack_Suc2 type_defs delivers_Ret)

theorem decoded_value: "keys_ok v \<Longrightarrow> packable rl v d \<Longrightarrow> decoded rl v"
proof (induction v arbitrary: d)
  case (LTable es)
  have "decoded rl k \<and> decoded rl v \<and> k \<noteq> LNil \<and> norm_key k = Inr k" if "(k, v) \<in> set es" for k v
  proof -
    have "keys_ok k" "keys_ok v" "k \<noteq> LNil" "norm_key k = Inr k" using LTable.prems(1) that by (auto simp: list_all_iff)
    moreover have "packable rl k (d + 1)" "packable rl v (d + 1)" using LTable.prems(2) that by (auto simp: packable_LTable)
    ultimately show ?thesis using LTable.IH(1)[OF that, of k] LTable.IH(2)[OF that, of v] by simp
  qed
  then show ?case by (rule decoded_LTable[OF _ decoded_LNil])
next
  case (LProxy es err)
  have "decoded rl k \<and> decoded rl v \<and> k \<noteq> LNil \<and> norm_key k = Inr k" if "(k, v) \<in> set es" for k v
  proof -
    have "keys_ok k" "keys_ok v" "k \<noteq> LNil" "norm_key k = Inr k" using LProxy.prems(1) that by (auto simp: list_all_iff)
    moreover have "packable rl k (d + 1)" "packable rl v (d + 1)" using LProxy.prems(2) that by (auto simp: packable_LProxy)
    ultimately show ?thesis using LProxy.IH(1)[OF that, of k] LProxy.IH(2)[OF that, of v] by simp
  qed
  then show ?case by (rule decoded_LProxy)
next
  case LNil
  show ?case by (rule decoded_LNil)
next
  case (LBool b)
  show ?case by (rule decoded_scalar[of _ _ "if b then 9 else 1" "[]"]) (auto simp: unpack_Suc2 type_defs delivers_Ret)
next
  case (LInt v)
  obtain c e where i: "enc_integer v = c # e" using enc_integer_Cons by blast
  show ?case
    using delivers_integer[OF i] by (intro decoded_scalar[of _ _ c e]) (auto simp: i unpack_Suc2 type_defs intro: delivers_map)
next
  case (LReal v)
  show ?case
    by (rule decoded_scalar[of _ _ "0x42" "mem_bytes 8 (unat v)"])
      (auto simp: unpack_Suc2 type_defs get_real_def unat_mem_value intro!: delivers_map delivers_number)
next
  case (LUser v)
  show ?case
    by (rule decoded_scalar[of _ _ 3 "mem_bytes 8 (unat v)"])
      (auto simp: unpack_Suc2 type_defs get_pointer_def unat_mem_value intro!: delivers_map delivers_number)
next
  case (LStr s)
  obtain c e where i: "enc_string s = c # e" using enc_string_Cons by blast
  show ?case
    using delivers_string[OF i] by (intro decoded_scalar[of _ _ c e]) (simp_all add: i)
qed simp

section \<open>Round trip\<close>

lemma unpack_loop_values:
  assumes "\<And>v. v \<in> set vs \<Longrightarrow> decoded rl v" "rb_ok rb" "rb_rest rb = concat (map (wire rl) vs)" "remaining rb < f"
  shows "unpack_loop f rb = Ret (map (copy rl) vs)"
  using assms
proof (induction vs arbitrary: f rb)
  case Nil
  obtain f' where "f = Suc f'" using Nil by (cases f) auto
  then show ?case using rb_read_short[OF Nil(2), of 1] Nil(3) by simp
next
  case (Cons v vs)
  obtain f' where f': "f = Suc f'" using Cons.prems by (cases f) auto
  let ?rest = "concat (map (wire rl) vs)"
  obtain c e where w: "wire rl v = c # e" using decoded_length[of rl v] Cons.prems(1) by (cases "wire rl v") auto
  obtain rb1 where rb1: "rb_read rb 1 = Some (rb_ptr rb, rb1)" "bytes_at rb1 (rb_ptr rb) 1 = Ret [c]" "rb_ok rb1" "rb_rest rb1 = e @ ?rest"
    using rb_read_ok[OF Cons.prems(2), of 1] Cons.prems(3) by (auto simp: w)
  have "delivers rb (c # e) ?rest (copy rl v) (unpack_one (Suc (fuel_for rb1)) rb)"
    using decoded_one[of rl v ?rest "Suc (fuel_for rb1)" rb] Cons.prems(1) length_rb_rest[OF rb1(3)]
    by (simp add: w fuel_for_def rb1(4))
  then obtain rb2 where "unpack_one (Suc (fuel_for rb1)) rb = Ret (copy rl v, rb2)" "rb_ok rb2" "rb_rest rb2 = ?rest"
    using Cons.prems(2,3) by (auto simp: delivers_def w)
  moreover have "unpack_one (Suc (fuel_for rb1)) rb = push_value (fuel_for rb1) rb1 (c AND 7) (drop_bit 3 c)"
    using rb1(1,2) by (simp add: unpack_Suc read_n_def)
  moreover have "unpack_loop f' rb2 = Ret (map (copy rl) vs)" if "rb_ok rb2" "rb_rest rb2 = ?rest" for rb2
    using Cons.prems that by (intro Cons.IH) (auto simp: f' w)
  ultimately show ?case using rb1(1,2) by (simp add: f')
qed



text \<open>The copy of a table has the same entries, whatever border \<open>lua_rawlen\<close> returned: nothing is lost, added or
  overwritten.\<close>

abbreviation scalar_keys :: "table \<Rightarrow> lval list" where
  "scalar_keys t \<equiv> map fst (filter (\<lambda>e. \<not> is_table (fst e)) t)"

lemma set_store_new:
  assumes "\<not> is_table k \<longrightarrow> k \<notin> fst ` set t"
  shows "set (store t k v) = (if v = LNil then set t else insert (k, v) (set t))"
  using assms by (force simp: store_def)

lemma set_foldl_store:
  "distinct (scalar_keys L) \<Longrightarrow> (\<forall>e \<in> set L. \<not> is_table (fst e) \<longrightarrow> fst e \<notin> fst ` set t) \<Longrightarrow>
     set (foldl (\<lambda>t (k, v). store t k v) t L) = set t \<union> {e \<in> set L. snd e \<noteq> LNil}"
proof (induction L arbitrary: t)
  case (Cons e L)
  obtain k v where e: "e = (k, v)" by (cases e)
  have s: "set (store t k v) = (if v = LNil then set t else insert (k, v) (set t))"
    using Cons.prems(2) by (intro set_store_new) (auto simp: e)
  have "set (foldl (\<lambda>t (k, v). store t k v) (store t k v) L) = set (store t k v) \<union> {e \<in> set L. snd e \<noteq> LNil}"
  proof (rule Cons.IH)
    show "distinct (scalar_keys L)" using Cons.prems(1) by (auto split: if_splits)
    show "\<forall>e \<in> set L. \<not> is_table (fst e) \<longrightarrow> fst e \<notin> fst ` set (store t k v)"
    proof (intro ballI impI)
      fix e'
      assume e': "e' \<in> set L" "\<not> is_table (fst e')"
      then have "fst e' \<in> set (scalar_keys L)" by auto
      then have "fst e' \<noteq> k" using Cons.prems(1) e'(2) by (force simp: e)
      moreover have "fst e' \<notin> fst ` set t" using Cons.prems(2) e' by simp
      ultimately show "fst e' \<notin> fst ` set (store t k v)" using s by (simp split: if_splits)
    qed
  qed
  then show ?case by (auto simp: e s)
qed simp

lemma map_of_scalar:
  "distinct (scalar_keys es) \<Longrightarrow> \<not> is_table k \<Longrightarrow> map_of es k = Some v \<longleftrightarrow> (k, v) \<in> set es"
proof (induction es)
  case (Cons e es)
  then show ?case by (cases e) (force split: if_splits)
qed simp

lemma sint_of_nat: "i < 2 ^ 63 \<Longrightarrow> sint (of_nat i :: u64) = int i"
  by (simp add: signed_of_nat signed_take_bit_int_eq_self)

text \<open>An entry of the array part is found by its index.\<close>

lemma array_entry:
  assumes "distinct (scalar_keys es)" "e \<in> set es" "in_array n (fst e)"
  shows "\<exists>i \<in> set [1..<n + 1]. e = (LInt (of_nat i), rawget es (LInt (of_nat i)))"
proof -
  obtain x where x: "fst e = LInt x" "0 < sint x" "sint x \<le> int n"
    using assms(3) by (cases "fst e") (auto simp: in_array_def)
  have "(LInt x, snd e) \<in> set es" using assms(2) x(1)[symmetric] by simp
  then have "map_of es (LInt x) = Some (snd e)"
    by (subst map_of_scalar[OF assms(1)]) (auto simp: is_table_def)
  moreover have "LInt x = LInt (of_nat (nat (sint x)))" using x(2) by simp
  ultimately have "e = (LInt (of_nat (nat (sint x))), rawget es (LInt (of_nat (nat (sint x)))))"
    using x(1) by (metis option.simps(5) prod.collapse rawget_def)
  moreover have "nat (sint x) \<in> set [1..<n + 1]" using x by auto
  ultimately show ?thesis by blast
qed

lemma build_entries:
  assumes "proper_table es" "n < 2 ^ 63"
  shows "set (build n es) = set es"
proof -
  let ?A = "map (\<lambda>i. (LInt (of_nat i), rawget es (LInt (of_nat i)))) [1..<n + 1]"
  let ?H = "filter (\<lambda>e. \<not> in_array n (fst e)) es"
  have d: "distinct (scalar_keys es)" and nn: "\<And>k v. (k, v) \<in> set es \<Longrightarrow> v \<noteq> LNil"
    using assms(1) by (auto simp: proper_table_def)
  have s: "sint (of_nat i :: u64) = int i" if "i \<in> set [1..<n + 1]" for i
    using that assms(2) by (intro sint_of_nat) auto
  have keys: "scalar_keys (?A @ ?H) = map (\<lambda>i. LInt (of_nat i)) [1..<n + 1] @ filter (\<lambda>k. \<not> in_array n k) (scalar_keys es)"
    by (simp add: filter_map o_def is_table_def conj_commute del: upt_Suc)
  have "inj_on (\<lambda>i. LInt (of_nat i :: u64)) (set [1..<n + 1])"
    using s by (intro inj_onI) (metis lval.inject(2) of_nat_eq_iff)
  then have "distinct (scalar_keys (?A @ ?H))"
    unfolding keys using d s by (auto simp: distinct_map in_array_def simp del: upt_Suc)
  then have "set (build n es) = {e \<in> set ?A. snd e \<noteq> LNil} \<union> {e \<in> set ?H. snd e \<noteq> LNil}"
    unfolding build_def by (subst set_foldl_store) (auto simp del: upt_Suc)
  also have "{e \<in> set ?H. snd e \<noteq> LNil} = {e \<in> set es. \<not> in_array n (fst e)}" using nn by auto
  also have "{e \<in> set ?A. snd e \<noteq> LNil} = {e \<in> set es. in_array n (fst e)}"
  proof (rule set_eqI, rule iffI)
    fix e
    assume "e \<in> {e \<in> set ?A. snd e \<noteq> LNil}"
    then obtain i where i: "i \<in> set [1..<n + 1]" "e = (LInt (of_nat i), rawget es (LInt (of_nat i)))" "snd e \<noteq> LNil"
      by (auto simp del: upt_Suc)
    then have "map_of es (LInt (of_nat i)) = Some (snd e)" by (auto simp: rawget_def split: option.splits)
    then have "e \<in> set es" using i(2) by (auto dest: map_of_SomeD)
    then show "e \<in> {e \<in> set es. in_array n (fst e)}" using i s[OF i(1)] by (auto simp: in_array_def)
  next
    fix e
    assume e: "e \<in> {e \<in> set es. in_array n (fst e)}"
    then have "e \<in> set ?A" using array_entry[OF d, of e n] by (auto simp del: upt_Suc)
    then show "e \<in> {e \<in> set ?A. snd e \<noteq> LNil}" using nn[of "fst e" "snd e"] e by simp
  qed
  finally show ?thesis by blast
qed

lemma copy_scalar: "is_table (copy rl k) \<longleftrightarrow> is_table k" "\<not> is_table k \<Longrightarrow> copy rl k = k"
  by (cases k; simp add: is_table_def)+

theorem copy_entries:
  assumes "proper_table es" "rl es < 2 ^ 63"
  shows "\<exists>es'. copy rl (LTable es) = LTable es' \<and> set es' = map_prod (copy rl) (copy rl) ` set es"
proof -
  let ?es = "map (map_prod (copy rl) (copy rl)) es"
  have "scalar_keys ?es = scalar_keys es" by (induction es) (auto simp: copy_scalar)
  then have "proper_table ?es"
    using assms(1) by (fastforce simp: proper_table_def copy_LNil intro: copy_norm)
  then have "set (build (rl es) ?es) = set ?es" using assms(2) by (rule build_entries)
  then show ?thesis by simp
qed

definition demo_rawlen :: "table \<Rightarrow> nat" where
  "demo_rawlen es = (if es = [] then 0 else 1)"

definition demo_value :: lval where
  "demo_value = LTable [(LInt 1, LStr [65, 66]), (LStr [107], LTable []), (LInt 1000, LBool True)]"


section \<open>Refusals\<close>

lemma lua_then_Inr: "lua_then m f = Some (Inr y) \<longleftrightarrow> (\<exists>x. m = Some (Inr x) \<and> f x = Some (Inr y))"
  by (auto simp: lua_then_def split: option.splits sum.splits)

text \<open>Every table in the value has one entry for a key that is not a table.\<close>

primrec one_per_key :: "lval \<Rightarrow> bool" where
  "one_per_key LNil = True"
| "one_per_key (LBool b) = True"
| "one_per_key (LInt v) = True"
| "one_per_key (LReal v) = True"
| "one_per_key (LUser v) = True"
| "one_per_key (LStr s) = True"
| "one_per_key (LTable es) = (distinct (scalar_keys es) \<and> list_all (\<lambda>(k, v). k \<and> v) (map (map_prod one_per_key one_per_key) es))"
| "one_per_key (LProxy es err) = list_all (\<lambda>(k, v). k \<and> v) (map (map_prod one_per_key one_per_key) es)"
| "one_per_key (LOther ty) = True"

lemma pack_packable:
  "pack_one rl b v d = Some (Inr b') \<Longrightarrow> one_per_key v \<Longrightarrow> packable rl v d"
  "pack_list rl b vs d = Some (Inr b') \<Longrightarrow> (\<And>v. v \<in> set vs \<Longrightarrow> one_per_key v) \<Longrightarrow> u \<in> set vs \<Longrightarrow> packable rl u d"
  "pack_pairs rl b es d = Some (Inr b') \<Longrightarrow> (\<And>k v. (k, v) \<in> set es \<Longrightarrow> one_per_key k \<and> one_per_key v) \<Longrightarrow>
     (x, y) \<in> set es \<Longrightarrow> packable rl x d \<and> packable rl y d"
proof (induction rl b v d and rl b vs d and rl b es d arbitrary: b' and b' u and b' x y rule: pack_one_pack_list_pack_pairs.induct)
  case (1 rl b v d)
  have nd: "\<not> MAX_DEPTH < d" using 1(4) by (subst (asm) pack_one.simps) (auto simp: luaL_error_def split: if_splits)
  show ?case
  proof (cases v)
    case (LTable es)
    let ?a = "map (\<lambda>i. rawget es (LInt (of_nat i))) [1..<rl es + 1]" and ?h = "filter (\<lambda>e. \<not> in_array (rl es) (fst e)) es"
    have one: "distinct (scalar_keys es)" "\<And>k v. (k, v) \<in> set es \<Longrightarrow> one_per_key k \<and> one_per_key v"
      using 1(5) by (auto simp: LTable list_all_iff)
    obtain b1 b2 b3 where p: "pack_list rl b1 ?a (d + 1) = Some (Inr b2)" "pack_pairs rl b2 ?h (d + 1) = Some (Inr b3)"
      using 1(4) nd unfolding LTable by (subst (asm) pack_one.simps) (auto simp: lua_then_Inr Let_def simp del: upt_Suc)
    have ra: "one_per_key u" if "u \<in> set ?a" for u
      using that one(2) by (auto simp: rawget_def split: option.splits dest!: map_of_SomeD simp del: upt_Suc)
    have a: "packable rl u (d + 1)" if "u \<in> set ?a" for u
      using nd LTable refl p(1) ra that by (rule 1(1))
    have h: "packable rl x (d + 1) \<and> packable rl y (d + 1)" if "(x, y) \<in> set ?h" for x y
      using nd LTable refl p(2) _ that by (rule 1(2)) (use one(2) in auto)
    have "packable rl x (d + 1) \<and> packable rl y (d + 1)" if e: "(x, y) \<in> set es" for x y
    proof (cases "in_array (rl es) x")
      case True
      then obtain i where "i \<in> set [1..<rl es + 1]" "(x, y) = (LInt (of_nat i), rawget es (LInt (of_nat i)))"
        using array_entry[OF one(1) e] by auto
      then have "y \<in> set ?a" "x = LInt (of_nat i)" by (auto simp del: upt_Suc)
      then show ?thesis using a[of y] packable_depth[of rl y "d + 1"] by auto
    qed (use h e in auto)
    moreover have "d < MAX_DEPTH" if "0 < rl es"
      using a[of "rawget es (LInt (of_nat (rl es)))"] that packable_depth by force
    ultimately show ?thesis using nd by (auto simp: LTable packable_LTable)
  next
    case (LProxy es err)
    have one: "\<And>k v. (k, v) \<in> set es \<Longrightarrow> one_per_key k \<and> one_per_key v"
      using 1(5) by (auto simp: LProxy list_all_iff)
    obtain b1 b2 where p: "pack_pairs rl b1 es (d + 1) = Some (Inr b2)" "err = None"
      using 1(4) nd unfolding LProxy by (subst (asm) pack_one.simps) (auto simp: lua_then_Inr luaL_error_def split: option.splits)
    have "packable rl x (d + 1) \<and> packable rl y (d + 1)" if "(x, y) \<in> set es" for x y
      using nd LProxy p(1) one that by (rule 1(3))
    then show ?thesis using nd p(2) by (auto simp: LProxy packable_LProxy)
  next
    case (LOther ty)
    then show ?thesis using 1(4) nd by (subst (asm) pack_one.simps) (simp add: luaL_error_def)
  qed (use nd in auto)
next
  case (3 rl b v vs depth)
  then show ?case by (auto simp: lua_then_Inr)
next
  case (5 rl b k v es depth)
  obtain b1 b2 where p: "pack_one rl b k depth = Some (Inr b1)" "pack_one rl b1 v depth = Some (Inr b2)"
    "pack_pairs rl b2 es depth = Some (Inr b')"
    using 5(4) by (auto simp: lua_then_Inr)
  have one: "one_per_key k" "one_per_key v" using 5(5)[of k v] by simp_all
  have "packable rl x depth \<and> packable rl y depth" if "(x, y) \<in> set es"
    using p(3) _ that by (rule 5(3)) (rule 5(5), simp)
  then show ?case using 5(1)[OF p(1) one(1)] 5(2)[OF p(2) one(2)] 5(6) by auto
qed simp_all

text \<open>C37. What cannot be transferred is refused: when a table is nested too deep, a value has a type that is not
  supported, or an iteration fails, \<open>luaseri_pack\<close> of any list of arguments with the value never returns bytes, wherever
  in the value the fault is.\<close>

theorem seri_refuses:
  assumes "v \<in> set vs" "\<not> packable rl v 0" "\<And>v. v \<in> set vs \<Longrightarrow> one_per_key v"
  shows "luaseri_pack rl vs \<noteq> Some (Inr bs)"
  using assms pack_packable(2)[of rl wb_init vs 0 _ v] by (auto simp: luaseri_pack_def lua_then_Inr)

theorem seri_refuses_witness:
  "\<nexists>bs. luaseri_pack demo_rawlen [LInt 1, LTable [(LInt 1, LOther ''function'')]] = Some (Inr bs)"
proof -
  let ?v = "LTable [(LInt 1, LOther ''function'')]"
  have "luaseri_pack demo_rawlen [LInt 1, ?v] \<noteq> Some (Inr bs)" for bs
    by (rule seri_refuses[of ?v]) (auto simp: packable_LTable)
  then show ?thesis by blast
qed

end
