(* ===== verification/Harbor.thy ===== *)
theory Harbor
  imports Socket Framing Fifo_Spec
begin

text \<open>
  The harbor service, \<open>service-src/service_harbor.c\<close>: the link of a node to the other nodes of its network. It
  keeps one connection per node (slave), sends the messages for services of other nodes as packets over it,
  and gives the packets that come in to the services of its own node. Messages for a node that is not connected,
  or for a global name that is not known yet, wait in queues. The operations take and return the \<open>struct harbor\<close>
  and the node. The memory of queues, hash nodes and the service itself is not part of the message heap.
\<close>

section \<open>State\<close>

definition HASH_SIZE :: nat where "HASH_SIZE = 4096"
definition HARBOR_QUEUE_SIZE :: int where "HARBOR_QUEUE_SIZE = 1024"
definition HEADER_COOKIE_LENGTH :: int where "HEADER_COOKIE_LENGTH = 12"
definition REMOTE_MAX :: nat where "REMOTE_MAX = 256"

definition STATUS_WAIT :: int where "STATUS_WAIT = 0"
definition STATUS_HANDSHAKE :: int where "STATUS_HANDSHAKE = 1"
definition STATUS_HEADER :: int where "STATUS_HEADER = 2"
definition STATUS_CONTENT :: int where "STATUS_CONTENT = 3"
definition STATUS_DOWN :: int where "STATUS_DOWN = 4"

record remote_message_header =
  rh_source :: u32
  rh_destination :: u32
  rh_session :: u32

record harbor_msg =
  hm_header :: remote_message_header
  hm_buffer :: "addr option"
  hm_size :: u64

text \<open>Entries of the array that were not written have some value.\<close>

record harbor_msg_queue =
  hq_size :: int
  hq_head :: int
  hq_tail :: int
  hq_data :: "harbor_msg list"

record keyvalue =
  kv_key :: string
  kv_hash :: u32
  kv_value :: u32
  kv_queue :: "harbor_msg_queue option"

text \<open>The chains of the hash table; a pointer to a node is a chain and a position in it.\<close>

type_synonym hashmap = "keyvalue list list"

record slave =
  sl_fd :: int
  sl_queue :: "harbor_msg_queue option"
  sl_status :: int
  sl_length :: int
  sl_read :: int
  sl_size :: "u8 list"
  sl_recv_buffer :: "addr option"

record harbor =
  h_ctx :: "addr option"
  h_id :: int
  h_slave :: u32
  h_map :: hashmap
  h_s :: "slave list"

definition harbor_msg_zero :: harbor_msg where
  "harbor_msg_zero = \<lparr>hm_header = \<lparr>rh_source = 0, rh_destination = 0, rh_session = 0\<rparr>, hm_buffer = None, hm_size = 0\<rparr>"

definition slave_zero :: slave where
  "slave_zero = \<lparr>sl_fd = 0, sl_queue = None, sl_status = STATUS_WAIT, sl_length = 0, sl_read = 0, sl_size = [0, 0, 0, 0],
     sl_recv_buffer = None\<rparr>"

abbreviation slave_at :: "harbor \<Rightarrow> int \<Rightarrow> slave option" where
  "slave_at h i \<equiv> arr_get (h_s h) i"

abbreviation slave_set :: "int \<Rightarrow> slave \<Rightarrow> harbor \<Rightarrow> harbor" where
  "slave_set i s h \<equiv> h\<lparr>h_s := (h_s h)[nat i := s]\<rparr>"

section \<open>Queues\<close>

definition push_queue_msg :: "harbor_msg_queue \<Rightarrow> harbor_msg \<Rightarrow> harbor_msg_queue option" where
  "push_queue_msg queue m = do {
     queue \<leftarrow> (if (hq_tail queue + 1) mod hq_size queue = hq_head queue then do {
         size \<leftarrow> cint (hq_size queue * 2);
         copy \<leftarrow> those (map (\<lambda>i. arr_get (hq_data queue) ((int i + hq_head queue) mod hq_size queue)) [0..<nat (hq_size queue - 1)]);
         Some \<lparr>hq_size = size, hq_head = 0, hq_tail = hq_size queue - 1,
           hq_data = copy @ replicate (nat size - length copy) harbor_msg_zero\<rparr> }
       else Some queue);
     data \<leftarrow> arr_set (hq_data queue) (hq_tail queue) m;
     Some (queue\<lparr>hq_data := data, hq_tail := (hq_tail queue + 1) mod hq_size queue\<rparr>) }"

definition push_queue :: "harbor_msg_queue \<Rightarrow> addr option \<Rightarrow> u64 \<Rightarrow> remote_message_header \<Rightarrow> harbor_msg_queue option" where
  "push_queue queue buffer sz header = push_queue_msg queue \<lparr>hm_header = header, hm_buffer = buffer, hm_size = sz\<rparr>"

definition pop_queue :: "harbor_msg_queue \<Rightarrow> (harbor_msg option \<times> harbor_msg_queue) option" where
  "pop_queue queue =
     (if hq_head queue = hq_tail queue then Some (None, queue)
      else do {
        slot \<leftarrow> arr_get (hq_data queue) (hq_head queue);
        Some (Some slot, queue\<lparr>hq_head := (hq_head queue + 1) mod hq_size queue\<rparr>) })"

definition new_harbor_queue :: harbor_msg_queue where
  "new_harbor_queue = \<lparr>hq_size = HARBOR_QUEUE_SIZE, hq_head = 0, hq_tail = 0, hq_data = replicate (nat HARBOR_QUEUE_SIZE) harbor_msg_zero\<rparr>"

text \<open>The loops \<open>while ((m = pop_queue(queue)) != NULL)\<close>, with the body \<open>f\<close>.\<close>

partial_function (option) pop_each ::
  "(harbor_msg \<Rightarrow> 's \<Rightarrow> 's option) \<Rightarrow> harbor_msg_queue \<Rightarrow> 's \<Rightarrow> (harbor_msg_queue \<times> 's) option" where
  "pop_each f queue s =
     (case pop_queue queue of
        None \<Rightarrow> None
      | Some (None, queue) \<Rightarrow> Some (queue, s)
      | Some (Some m, queue) \<Rightarrow> (case f m s of None \<Rightarrow> None | Some s \<Rightarrow> pop_each f queue s))"

declare pop_each.simps [code]

definition release_queue :: "harbor_msg_queue option \<Rightarrow> world \<Rightarrow> world option" where
  "release_queue queue w =
     (case queue of
        None \<Rightarrow> Some w
      | Some queue \<Rightarrow> map_option snd (pop_each (\<lambda>m. skynet_free (hm_buffer m)) queue w))"

section \<open>Names\<close>

definition name_hash :: "string \<Rightarrow> u32" where
  "name_hash name =
     (let ptr = (\<lambda>i. of_nat (be_value (rev (map of_char (take 4 (drop (4 * i) name))))))
      in ptr 0 XOR ptr 1 XOR ptr 2 XOR ptr (3 :: nat))"

definition strncmp_eq :: "string \<Rightarrow> string \<Rightarrow> nat \<Rightarrow> bool" where
  "strncmp_eq a b n \<longleftrightarrow> takeWhile (\<lambda>c. c \<noteq> CHR 0x00) (take n a) = takeWhile (\<lambda>c. c \<noteq> CHR 0x00) (take n b)"

definition name_bucket :: "u32 \<Rightarrow> nat" where
  "name_bucket h = unat h mod HASH_SIZE"

definition hash_search :: "hashmap \<Rightarrow> string \<Rightarrow> (nat \<times> nat) option" where
  "hash_search hash name =
     (let h = name_hash name; b = name_bucket h; nodes = hash ! b
      in map_option (Pair b)
           (find (\<lambda>j. kv_hash (nodes ! j) = h \<and> strncmp_eq (kv_key (nodes ! j)) name GLOBALNAME_LENGTH) [0..<length nodes]))"

definition hash_insert :: "hashmap \<Rightarrow> string \<Rightarrow> (nat \<times> nat) \<times> hashmap" where
  "hash_insert hash name =
     (let h = name_hash name; b = name_bucket h
      in ((b, 0), hash[b := \<lparr>kv_key = name, kv_hash = h, kv_value = 0, kv_queue = None\<rparr> # hash ! b]))"

definition hash_new :: hashmap where
  "hash_new = replicate HASH_SIZE []"

fun release_nodes :: "keyvalue list \<Rightarrow> world \<Rightarrow> world option" where
  "release_nodes [] w = Some w"
| "release_nodes (node # nodes) w = do { w \<leftarrow> release_queue (kv_queue node) w; release_nodes nodes w }"

definition hash_delete :: "hashmap \<Rightarrow> world \<Rightarrow> world option" where
  "hash_delete hash w = release_nodes (concat hash) w"

definition node_at :: "hashmap \<Rightarrow> nat \<times> nat \<Rightarrow> keyvalue" where
  "node_at hash p = hash ! fst p ! snd p"

definition node_set :: "nat \<times> nat \<Rightarrow> keyvalue \<Rightarrow> hashmap \<Rightarrow> hashmap" where
  "node_set p node hash = hash[fst p := (hash ! fst p)[snd p := node]]"

text \<open>The node of a name, which is made when there is none.\<close>

definition node_of :: "hashmap \<Rightarrow> string \<Rightarrow> (nat \<times> nat) \<times> hashmap" where
  "node_of hash name = (case hash_search hash name of Some p \<Rightarrow> (p, hash) | None \<Rightarrow> hash_insert hash name)"

section \<open>Connections\<close>

definition close_harbor :: "ext \<Rightarrow> harbor \<Rightarrow> int \<Rightarrow> world \<Rightarrow> (harbor \<times> world) option" where
  "close_harbor x h i w = do {
     s \<leftarrow> slave_at h i;
     let s = s\<lparr>sl_status := STATUS_DOWN\<rparr>;
     (s, w) \<leftarrow> (if sl_fd s \<noteq> 0 then do {
         ctx \<leftarrow> h_ctx h;
         w \<leftarrow> skynet_socket_close x ctx (sl_fd s) w;
         Some (s\<lparr>sl_fd := 0\<rparr>, w) }
       else Some (s, w));
     w \<leftarrow> release_queue (sl_queue s) w;
     Some (slave_set i (s\<lparr>sl_queue := None\<rparr>) h, w) }"

definition report_harbor_down :: "ext \<Rightarrow> harbor \<Rightarrow> int \<Rightarrow> world \<Rightarrow> world option" where
  "report_harbor_down x h i w = do {
     let down = ''D '' @ fmt_d i;
     (_, w) \<leftarrow> skynet_send x (h_ctx h) 0 (h_slave h) PTYPE_TEXT 0 (Buf (cstr down)) (of_nat (length down)) w;
     Some w }"

definition harbor_create :: harbor where
  "harbor_create = \<lparr>h_ctx = None, h_id = 0, h_slave = 0, h_map = hash_new, h_s = replicate REMOTE_MAX slave_zero\<rparr>"

fun close_remotes :: "ext \<Rightarrow> int list \<Rightarrow> harbor \<Rightarrow> world \<Rightarrow> (harbor \<times> world) option" where
  "close_remotes x [] h w = Some (h, w)"
| "close_remotes x (i # is) h w = do { (h, w) \<leftarrow> close_harbor x h i w; close_remotes x is h w }"

definition close_all_remotes :: "ext \<Rightarrow> harbor \<Rightarrow> world \<Rightarrow> (harbor \<times> world) option" where
  "close_all_remotes x h w = close_remotes x [1..int REMOTE_MAX - 1] h w"

definition harbor_release :: "ext \<Rightarrow> harbor \<Rightarrow> world \<Rightarrow> world option" where
  "harbor_release x h w = do {
     (h, w) \<leftarrow> close_all_remotes x h w;
     hash_delete (h_map h) w }"

section \<open>Packets\<close>

definition to_bigendian :: "u32 \<Rightarrow> u8 list" where
  "to_bigendian n = map (\<lambda>k. ucast (drop_bit k n AND 0xff)) [24, 16, 8, 0]"

definition header_to_message :: "remote_message_header \<Rightarrow> u8 list" where
  "header_to_message header =
     to_bigendian (rh_source header) @ to_bigendian (rh_destination header) @ to_bigendian (rh_session header)"

text \<open>\<open>from_bigendian\<close> of the four bytes in memory; the shifts of the code keep the bit pattern.\<close>

definition from_bigendian :: "u8 list \<Rightarrow> u32" where
  "from_bigendian u =
     push_bit 24 (ucast (u ! 0)) OR push_bit 16 (ucast (u ! 1)) OR push_bit 8 (ucast (u ! 2)) OR ucast (u ! 3)"

definition message_to_header :: "u8 list \<Rightarrow> remote_message_header" where
  "message_to_header message =
     \<lparr>rh_source = from_bigendian (take 4 message), rh_destination = from_bigendian (take 4 (drop 4 message)),
      rh_session = from_bigendian (take 4 (drop 8 message))\<rparr>"

text \<open>A \<open>void *\<close> to a message block, or null.\<close>

definition cdata_of :: "addr option \<Rightarrow> cdata" where
  "cdata_of p = (case p of None \<Rightarrow> NoData | Some a \<Rightarrow> Blk a)"

text \<open>The header is behind the payload, in the last 12 of the \<open>sz\<close> bytes; fewer would be read in front of the block.\<close>

definition forward_local_message :: "ext \<Rightarrow> harbor \<Rightarrow> addr option \<Rightarrow> int \<Rightarrow> world \<Rightarrow> world option" where
  "forward_local_message x h msg sz w =
     (if sz < HEADER_COOKIE_LENGTH then None
      else do {
        bs \<leftarrow> read_data x msg (nat sz) w;
        let header = message_to_header (drop (nat (sz - HEADER_COOKIE_LENGTH)) bs);
        let type = uint (drop_bit HANDLE_REMOTE_SHIFT (rh_destination header));
        let destination = (rh_destination header AND HANDLE_MASK) OR push_bit HANDLE_REMOTE_SHIFT (word_of_int (h_id h));
        (r, w) \<leftarrow> skynet_send x (h_ctx h) (rh_source header) destination (type OR PTYPE_TAG_DONTCOPY)
          (to_cint (rh_session header)) (cdata_of msg) (word_of_int (sz - HEADER_COOKIE_LENGTH)) w;
        if r < 0 then do {
          w \<leftarrow> (if type \<noteq> PTYPE_ERROR then do {
              (_, w) \<leftarrow> skynet_send x (h_ctx h) destination (rh_source header) PTYPE_ERROR (to_cint (rh_session header)) NoData 0 w;
              Some w }
            else Some w);
          skynet_error x (h_ctx h) (''Unknown destination :'' @ fmt_x (unat destination) @ '' from :'' @
            fmt_x (unat (rh_source header)) @ '' type('' @ fmt_d type @ '')'') w }
        else Some w })"

text \<open>The packet is built on the stack, which is assumed to be large enough.\<close>

definition sendbuffer_raw :: "ext \<Rightarrow> int \<Rightarrow> u8 list \<Rightarrow> world \<Rightarrow> world" where
  "sendbuffer_raw x fd bs w = snd (socket_call x (Ss_send_raw fd bs) w)"

definition send_remote ::
  "ext \<Rightarrow> addr option \<Rightarrow> int \<Rightarrow> addr option \<Rightarrow> u64 \<Rightarrow> remote_message_header \<Rightarrow> world \<Rightarrow> world option" where
  "send_remote x ctx fd buffer sz cookie w =
     (let sz_header = sz + 12 in
      if sz_header > 0xffffffff then
        skynet_error x ctx (''remote message from :'' @ fmt_0x 8 (unat (rh_source cookie)) @ '' to :'' @
          fmt_0x 8 (unat (rh_destination cookie)) @ '' is too large.'') w
      else do {
        bs \<leftarrow> read_data x buffer (unat sz) w;
        Some (sendbuffer_raw x fd (to_bigendian (ucast sz_header) @ bs @ header_to_message cookie) w) })"

section \<open>Waiting messages\<close>

text \<open>The body of the loops that send the messages of a queue over a connection.\<close>

definition send_and_free :: "ext \<Rightarrow> addr option \<Rightarrow> int \<Rightarrow> harbor_msg \<Rightarrow> world \<Rightarrow> world option" where
  "send_and_free x ctx fd m w = do {
     w \<leftarrow> send_remote x ctx fd (hm_buffer m) (hm_size m) (hm_header m) w;
     skynet_free (hm_buffer m) w }"

definition local_send :: "ext \<Rightarrow> addr option \<Rightarrow> u32 \<Rightarrow> harbor_msg \<Rightarrow> world \<Rightarrow> world option" where
  "local_send x ctx handle m w = do {
     let type = uint (drop_bit HANDLE_REMOTE_SHIFT (rh_destination (hm_header m)));
     (_, w) \<leftarrow> skynet_send x ctx (rh_source (hm_header m)) handle (type OR PTYPE_TAG_DONTCOPY)
       (to_cint (rh_session (hm_header m))) (cdata_of (hm_buffer m)) (hm_size m) w;
     Some w }"

text \<open>The messages that waited for a name which is bound now. The result has the node, which may have lost its
  queue.\<close>

definition dispatch_name_queue :: "ext \<Rightarrow> harbor \<Rightarrow> keyvalue \<Rightarrow> world \<Rightarrow> (keyvalue \<times> harbor \<times> world) option" where
  "dispatch_name_queue x h node w = do {
     queue \<leftarrow> kv_queue node;
     let handle = kv_value node;
     let harbor_id = uint (drop_bit HANDLE_REMOTE_SHIFT handle);
     s \<leftarrow> slave_at h harbor_id;
     if sl_fd s = 0 then
       if sl_status s = STATUS_DOWN then do {
         w \<leftarrow> skynet_error x (h_ctx h) (''Drop message to '' @ takeWhile (\<lambda>c. c \<noteq> CHR 0x00) (take GLOBALNAME_LENGTH (kv_key node)) @
           '' (in harbor '' @ fmt_d harbor_id @ '')'') w;
         Some (node, h, w) }
       else do {
         (node, sq) \<leftarrow> (case sl_queue s of
             None \<Rightarrow> Some (node\<lparr>kv_queue := None\<rparr>, queue)
           | Some sq \<Rightarrow> do {
               (queue, sq) \<leftarrow> pop_each (\<lambda>m sq. push_queue_msg sq m) queue sq;
               Some (node\<lparr>kv_queue := Some queue\<rparr>, sq) });
         if harbor_id = uint (drop_bit HANDLE_REMOTE_SHIFT (h_slave h)) then do {
           (sq, w) \<leftarrow> pop_each (local_send x (h_ctx h) handle) sq w;
           w \<leftarrow> release_queue (Some sq) w;
           Some (node, slave_set harbor_id (s\<lparr>sl_queue := None\<rparr>) h, w) }
         else Some (node, slave_set harbor_id (s\<lparr>sl_queue := Some sq\<rparr>) h, w) }
     else do {
       (queue, w) \<leftarrow> pop_each (\<lambda>m. send_and_free x (h_ctx h) (sl_fd s)
         (m\<lparr>hm_header := (hm_header m)\<lparr>rh_destination := rh_destination (hm_header m) OR (handle AND HANDLE_MASK)\<rparr>\<rparr>)) queue w;
       Some (node\<lparr>kv_queue := Some queue\<rparr>, h, w) } }"

definition dispatch_queue :: "ext \<Rightarrow> harbor \<Rightarrow> int \<Rightarrow> world \<Rightarrow> (harbor \<times> world) option" where
  "dispatch_queue x h i w = do {
     s \<leftarrow> slave_at h i;
     if sl_fd s = 0 then None
     else (case sl_queue s of
        None \<Rightarrow> Some (h, w)
      | Some queue \<Rightarrow> do {
          (queue, w) \<leftarrow> pop_each (send_and_free x (h_ctx h) (sl_fd s)) queue w;
          w \<leftarrow> release_queue (Some queue) w;
          Some (slave_set i (s\<lparr>sl_queue := None\<rparr>) h, w) }) }"

section \<open>Receiving\<close>

text \<open>\<open>memcpy\<close> into a block of plain bytes.\<close>

definition block_write :: "addr option \<Rightarrow> int \<Rightarrow> u8 list \<Rightarrow> world \<Rightarrow> world option" where
  "block_write p off bs w = do {
     a \<leftarrow> p;
     case w_heap w a of
       Some (Bytes old) \<Rightarrow>
         if 0 \<le> off \<and> off + int (length bs) \<le> int (length old)
         then Some (w\<lparr>w_heap := (w_heap w)(a \<mapsto> Bytes (take (nat off) old @ bs @ drop (nat off + length bs) old))\<rparr>)
         else None
     | _ \<Rightarrow> None }"

text \<open>The cases of the \<open>switch\<close> in \<open>push_socket_data\<close>: each returns from the function, or goes on with the bytes left.\<close>

datatype flow = Return harbor world | Go harbor world "u8 list"

definition case_content :: "ext \<Rightarrow> int \<Rightarrow> harbor \<Rightarrow> u8 list \<Rightarrow> world \<Rightarrow> flow option" where
  "case_content x i h buffer w = do {
     s \<leftarrow> slave_at h i;
     let need = sl_length s - sl_read s;
     if int (length buffer) < need then do {
       w \<leftarrow> block_write (sl_recv_buffer s) (sl_read s) buffer w;
       Some (Return (slave_set i (s\<lparr>sl_read := sl_read s + int (length buffer)\<rparr>) h) w) }
     else if need < 0 then None
     else do {
       w \<leftarrow> block_write (sl_recv_buffer s) (sl_read s) (take (nat need) buffer) w;
       w \<leftarrow> forward_local_message x h (sl_recv_buffer s) (sl_length s) w;
       let h = slave_set i (s\<lparr>sl_length := 0, sl_read := 0, sl_recv_buffer := None, sl_status := STATUS_HEADER\<rparr>) h;
       let buffer = drop (nat need) buffer;
       if buffer = [] then Some (Return h w) else Some (Go h w buffer) } }"

definition case_header :: "ext \<Rightarrow> int \<Rightarrow> harbor \<Rightarrow> u8 list \<Rightarrow> world \<Rightarrow> flow option" where
  "case_header x i h buffer w = do {
     s \<leftarrow> slave_at h i;
     let need = 4 - sl_read s;
     if sl_read s < 0 \<or> need < 0 then None
     else if int (length buffer) < need then
       Some (Return (slave_set i (s\<lparr>sl_size := take (nat (sl_read s)) (sl_size s) @ buffer @ drop (nat (sl_read s) + length buffer) (sl_size s),
         sl_read := sl_read s + int (length buffer)\<rparr>) h) w)
     else do {
       let size = take (nat (sl_read s)) (sl_size s) @ take (nat need) buffer;
       let buffer = drop (nat need) buffer;
       let s = s\<lparr>sl_size := size\<rparr>;
       if size ! 0 \<noteq> 0 then do {
         w \<leftarrow> skynet_error x (h_ctx h) (''Message is too long from harbor '' @ fmt_d i) w;
         (h, w) \<leftarrow> close_harbor x (slave_set i s h) i w;
         Some (Return h w) }
       else do {
         let len = uint (push_bit 16 (ucast (size ! 1)) OR push_bit 8 (ucast (size ! 2)) OR ucast (size ! 3) :: u32);
         let (a, w) = skynet_malloc (Bytes (replicate (nat len) 0)) w;
         let h = slave_set i (s\<lparr>sl_length := len, sl_read := 0, sl_recv_buffer := Some a, sl_status := STATUS_CONTENT\<rparr>) h;
         if buffer = [] then Some (Return h w)
         else case_content x i h buffer w } } }"

definition case_handshake :: "ext \<Rightarrow> int \<Rightarrow> int \<Rightarrow> harbor \<Rightarrow> u8 list \<Rightarrow> world \<Rightarrow> flow option" where
  "case_handshake x i fd h buffer w = do {
     s \<leftarrow> slave_at h i;
     remote_id \<leftarrow> arr_get buffer 0;
     if uint remote_id \<noteq> i then do {
       w \<leftarrow> skynet_error x (h_ctx h) (''Invalid shakehand id ('' @ fmt_d i @ '') from fd = '' @ fmt_d fd @ '' , harbor = '' @
         fmt_d (uint remote_id)) w;
       (h, w) \<leftarrow> close_harbor x h i w;
       Some (Return h w) }
     else do {
       (h, w) \<leftarrow> dispatch_queue x (slave_set i (s\<lparr>sl_status := STATUS_HEADER\<rparr>) h) i w;
       if tl buffer = [] then Some (Go h w [])
       else case_header x i h (tl buffer) w } }"

definition data_case :: "ext \<Rightarrow> int \<Rightarrow> int \<Rightarrow> harbor \<Rightarrow> u8 list \<Rightarrow> world \<Rightarrow> flow option" where
  "data_case x i fd h buffer w = do {
     s \<leftarrow> slave_at h i;
     if sl_status s = STATUS_HANDSHAKE then case_handshake x i fd h buffer w
     else if sl_status s = STATUS_HEADER then case_header x i h buffer w
     else if sl_status s = STATUS_CONTENT then case_content x i h buffer w
     else Some (Return h w) }"

partial_function (option) data_loop :: "ext \<Rightarrow> int \<Rightarrow> int \<Rightarrow> harbor \<Rightarrow> u8 list \<Rightarrow> world \<Rightarrow> (harbor \<times> world) option" where
  "data_loop x i fd h buffer w =
     (case data_case x i fd h buffer w of
        None \<Rightarrow> None
      | Some (Return h w) \<Rightarrow> Some (h, w)
      | Some (Go h w buffer) \<Rightarrow> data_loop x i fd h buffer w)"

declare data_loop.simps [code]

text \<open>\<open>harbor_id\<close> is 0 when no connection has the socket.\<close>

definition harbor_id :: "harbor \<Rightarrow> int \<Rightarrow> int" where
  "harbor_id h fd =
     (case find (\<lambda>i. sl_fd (h_s h ! i) = fd) [1..<REMOTE_MAX] of Some i \<Rightarrow> int i | None \<Rightarrow> 0)"

definition push_socket_data :: "ext \<Rightarrow> harbor \<Rightarrow> skynet_socket_message \<Rightarrow> world \<Rightarrow> (harbor \<times> world) option" where
  "push_socket_data x h message w =
     (if sm_type message \<noteq> SKYNET_SOCKET_TYPE_DATA then None
      else do {
        let fd = sm_id message;
        let i = harbor_id h fd;
        if i = 0 then do {
          w \<leftarrow> skynet_error x (h_ctx h) (''Invalid socket fd ('' @ fmt_d fd @ '') data'') w;
          Some (h, w) }
        else if sm_ud message < 0 then None
        else do {
          buffer \<leftarrow> read_data x (sm_buffer message) (nat (sm_ud message)) w;
          data_loop x i fd h buffer w } })"

section \<open>Sending\<close>

definition update_name :: "ext \<Rightarrow> harbor \<Rightarrow> string \<Rightarrow> u32 \<Rightarrow> world \<Rightarrow> (harbor \<times> world) option" where
  "update_name x h name handle w = do {
     let (p, hash) = node_of (h_map h) name;
     let node = (node_at hash p)\<lparr>kv_value := handle\<rparr>;
     let h = h\<lparr>h_map := node_set p node hash\<rparr>;
     if kv_queue node \<noteq> None then do {
       (node, h, w) \<leftarrow> dispatch_name_queue x h node w;
       w \<leftarrow> release_queue (kv_queue node) w;
       Some (h\<lparr>h_map := node_set p (node\<lparr>kv_queue := None\<rparr>) (h_map h)\<rparr>, w) }
     else Some (h, w) }"

text \<open>The result is 1 when the message block is passed on, 0 when the caller has to free it. A shift of the type keeps the
  bit pattern.\<close>

definition remote_send_handle ::
  "ext \<Rightarrow> harbor \<Rightarrow> u32 \<Rightarrow> u32 \<Rightarrow> int \<Rightarrow> int \<Rightarrow> addr option \<Rightarrow> u64 \<Rightarrow> world \<Rightarrow> (int \<times> harbor \<times> world) option" where
  "remote_send_handle x h source destination type session msg sz w = do {
     let harbor_id = uint (drop_bit HANDLE_REMOTE_SHIFT destination);
     let header = \<lparr>rh_source = source,
       rh_destination = (destination AND HANDLE_MASK) OR push_bit HANDLE_REMOTE_SHIFT (word_of_int type),
       rh_session = word_of_int session\<rparr>;
     if harbor_id = h_id h then do {
       (_, w) \<leftarrow> skynet_send x (h_ctx h) source destination (type OR PTYPE_TAG_DONTCOPY) session (cdata_of msg) sz w;
       Some (1, h, w) }
     else do {
       s \<leftarrow> slave_at h harbor_id;
       if sl_fd s = 0 \<or> sl_status s = STATUS_HANDSHAKE then
         if sl_status s = STATUS_DOWN then do {
           (_, w) \<leftarrow> skynet_send x (h_ctx h) destination source PTYPE_ERROR session NoData 0 w;
           w \<leftarrow> skynet_error x (h_ctx h) (''Drop message to harbor '' @ fmt_d harbor_id @ '' from '' @ fmt_x (unat source) @ '' to '' @
             fmt_x (unat destination) @ '' (session = '' @ fmt_d session @ '', msgsz = '' @ fmt_d (to_cint (to_u32 sz)) @ '')'') w;
           Some (0, h, w) }
         else do {
           let queue = (case sl_queue s of None \<Rightarrow> new_harbor_queue | Some queue \<Rightarrow> queue);
           queue \<leftarrow> push_queue queue msg sz header;
           Some (1, slave_set harbor_id (s\<lparr>sl_queue := Some queue\<rparr>) h, w) }
       else do {
         w \<leftarrow> send_remote x (h_ctx h) (sl_fd s) msg sz header w;
         Some (0, h, w) } } }"

text \<open>The question to the master: \<open>Q\<close> and the name up to its first zero.\<close>

definition remote_send_name ::
  "ext \<Rightarrow> harbor \<Rightarrow> u32 \<Rightarrow> string \<Rightarrow> int \<Rightarrow> int \<Rightarrow> addr option \<Rightarrow> u64 \<Rightarrow> world \<Rightarrow> (int \<times> harbor \<times> world) option" where
  "remote_send_name x h source name type session msg sz w = do {
     let (p, hash) = node_of (h_map h) name;
     let node = node_at hash p;
     let h = h\<lparr>h_map := hash\<rparr>;
     if kv_value node = 0 then do {
       let queue = (case kv_queue node of None \<Rightarrow> new_harbor_queue | Some queue \<Rightarrow> queue);
       queue \<leftarrow> push_queue queue msg sz \<lparr>rh_source = source,
         rh_destination = push_bit HANDLE_REMOTE_SHIFT (word_of_int type), rh_session = word_of_int session\<rparr>;
       let h = h\<lparr>h_map := node_set p (node\<lparr>kv_queue := Some queue\<rparr>) hash\<rparr>;
       let query = ''Q '' @ takeWhile (\<lambda>c. c \<noteq> CHR 0x00) (take GLOBALNAME_LENGTH name);
       (_, w) \<leftarrow> skynet_send x (h_ctx h) 0 (h_slave h) PTYPE_TEXT 0 (Buf (cstr query)) (of_nat (length query)) w;
       Some (1, h, w) }
     else remote_send_handle x h source (kv_value node) type session msg sz w }"

definition handshake :: "ext \<Rightarrow> harbor \<Rightarrow> int \<Rightarrow> world \<Rightarrow> world option" where
  "handshake x h i w = do { s \<leftarrow> slave_at h i; Some (sendbuffer_raw x (sl_fd s) [word_of_int (h_id h)] w) }"

section \<open>Commands and messages\<close>

text \<open>The C string at an offset of a message block.\<close>

definition msg_str :: "ext \<Rightarrow> addr option \<Rightarrow> nat \<Rightarrow> world \<Rightarrow> string option" where
  "msg_str x msg off w = do {
     a \<leftarrow> msg;
     b \<leftarrow> w_heap w a;
     let bs = drop off (case b of Bytes bs \<Rightarrow> bs | _ \<Rightarrow> x_raw x b);
     if 0 \<in> set bs then Some (map (\<lambda>b. char_of (unat b)) (takeWhile (\<lambda>b. b \<noteq> 0) bs)) else None }"

definition scan_dd :: "string \<Rightarrow> int \<times> int" where
  "scan_dd s =
     (case scan_d s of
        None \<Rightarrow> (0, 0)
      | Some (a, s) \<Rightarrow> (a, case scan_d s of None \<Rightarrow> 0 | Some (b, _) \<Rightarrow> b))"

definition harbor_connect :: "ext \<Rightarrow> harbor \<Rightarrow> char \<Rightarrow> string \<Rightarrow> world \<Rightarrow> (harbor \<times> world) option" where
  "harbor_connect x h command buffer w = do {
     ctx \<leftarrow> h_ctx h;
     let (fd, i) = scan_dd buffer;
     if fd = 0 \<or> i \<le> 0 \<or> i \<ge> int REMOTE_MAX then do {
       w \<leftarrow> skynet_error x (Some ctx) (''Invalid command '' @ [command] @ '' '' @ buffer) w;
       Some (h, w) }
     else do {
       slave \<leftarrow> slave_at h i;
       if sl_fd slave \<noteq> 0 then do {
         w \<leftarrow> skynet_error x (Some ctx) (''Harbor '' @ fmt_d i @ '' alreay exist'') w;
         Some (h, w) }
       else do {
         let slave = slave\<lparr>sl_fd := fd\<rparr>;
         w \<leftarrow> skynet_socket_start x ctx fd w;
         w \<leftarrow> handshake x (slave_set i slave h) i w;
         if command = CHR ''S'' then Some (slave_set i (slave\<lparr>sl_status := STATUS_HANDSHAKE\<rparr>) h, w)
         else dispatch_queue x (slave_set i (slave\<lparr>sl_status := STATUS_HEADER\<rparr>) h) i w } } }"

definition harbor_command :: "ext \<Rightarrow> harbor \<Rightarrow> addr option \<Rightarrow> u64 \<Rightarrow> u32 \<Rightarrow> world \<Rightarrow> (harbor \<times> world) option" where
  "harbor_command x h msg sz source w = do {
     let s = wrap_int (uint sz) - 2;
     command \<leftarrow> read_data x msg 1 w;
     if hd command = of_char (CHR ''N'') then
       if s \<le> 0 \<or> s \<ge> int GLOBALNAME_LENGTH then do {
         name \<leftarrow> msg_str x msg 2 w;
         w \<leftarrow> skynet_error x (h_ctx h) (''Invalid global name '' @ name) w;
         Some (h, w) }
       else do {
         bs \<leftarrow> read_data x msg (2 + nat s) w;
         update_name x h (map (\<lambda>b. char_of (unat b)) (drop 2 bs) @ replicate (GLOBALNAME_LENGTH - nat s) (CHR 0x00)) source w }
     else if hd command = of_char (CHR ''S'') \<or> hd command = of_char (CHR ''A'') then
       if s < 0 then None
       else do {
         bs \<leftarrow> read_data x msg (2 + nat s) w;
         harbor_connect x h (char_of (unat (hd command)))
           (takeWhile (\<lambda>c. c \<noteq> CHR 0x00) (map (\<lambda>b. char_of (unat b)) (drop 2 bs))) w }
     else do {
       text \<leftarrow> msg_str x msg 0 w;
       w \<leftarrow> skynet_error x (h_ctx h) (''Unknown command '' @ text) w;
       Some (h, w) } }"

definition harbor_socket :: "ext \<Rightarrow> harbor \<Rightarrow> addr \<Rightarrow> int \<Rightarrow> skynet_socket_message \<Rightarrow> world \<Rightarrow> (harbor \<times> world) option" where
  "harbor_socket x h ctx type message w =
     (if sm_type message = SKYNET_SOCKET_TYPE_DATA then do {
        (h, w) \<leftarrow> push_socket_data x h message w;
        w \<leftarrow> skynet_free (sm_buffer message) w;
        Some (h, w) }
      else if sm_type message = SKYNET_SOCKET_TYPE_ERROR \<or> sm_type message = SKYNET_SOCKET_TYPE_CLOSE then do {
        let i = harbor_id h (sm_id message);
        w \<leftarrow> (if i \<noteq> 0 then report_harbor_down x h i w
               else skynet_error x (Some ctx) (''Unknown fd ('' @ fmt_d (sm_id message) @ '') closed'') w);
        Some (h, w) }
      else if sm_type message = SKYNET_SOCKET_TYPE_CONNECT then Some (h, w)
      else if sm_type message = SKYNET_SOCKET_TYPE_WARNING then do {
        let i = harbor_id h (sm_id message);
        w \<leftarrow> (if i \<noteq> 0 then skynet_error x (Some ctx)
                 (''message havn't send to Harbor ('' @ fmt_d i @ '') reach '' @ fmt_d (sm_ud message) @ '' K'') w
               else Some w);
        Some (h, w) }
      else do {
        w \<leftarrow> skynet_error x (Some ctx) (''recv invalid socket message type '' @ fmt_d type) w;
        Some (h, w) })"

definition harbor_remote :: "ext \<Rightarrow> harbor \<Rightarrow> int \<Rightarrow> u32 \<Rightarrow> remote_message \<Rightarrow> world \<Rightarrow> (harbor \<times> world) option" where
  "harbor_remote x h session source rmsg w = do {
     (r, h, w) \<leftarrow> (if rn_handle (rm_destination rmsg) = 0
       then remote_send_name x h source (rn_name (rm_destination rmsg)) (rm_type rmsg) session (rm_message rmsg) (rm_sz rmsg) w
       else remote_send_handle x h source (rn_handle (rm_destination rmsg)) (rm_type rmsg) session (rm_message rmsg) (rm_sz rmsg) w);
     if r \<noteq> 0 then Some (h, w)
     else do { w \<leftarrow> skynet_free (rm_message rmsg) w; Some (h, w) } }"

text \<open>The callback returns 0 always.\<close>

definition mainloop ::
  "ext \<Rightarrow> harbor \<Rightarrow> addr \<Rightarrow> int \<Rightarrow> int \<Rightarrow> u32 \<Rightarrow> addr option \<Rightarrow> u64 \<Rightarrow> world \<Rightarrow> (int \<times> harbor \<times> world) option" where
  "mainloop x h ctx type session source msg sz w = do {
     (h, w) \<leftarrow>
       (if type = PTYPE_SOCKET then do {
          a \<leftarrow> msg;
          (case w_heap w a of Some (Sock message _) \<Rightarrow> harbor_socket x h ctx type message w | _ \<Rightarrow> None) }
        else if type = PTYPE_HARBOR then harbor_command x h msg sz source w
        else if type = PTYPE_SYSTEM then do {
          a \<leftarrow> msg;
          (case w_heap w a of Some (Remote rmsg) \<Rightarrow> harbor_remote x h session source rmsg w | _ \<Rightarrow> None) }
        else do {
          w \<leftarrow> skynet_error x (Some ctx) (''recv invalid message from '' @ fmt_x (unat source) @ '',  type = '' @ fmt_d type) w;
          w \<leftarrow> (if session \<noteq> 0 \<and> type \<noteq> PTYPE_ERROR then do {
              (_, w) \<leftarrow> skynet_send x (Some ctx) 0 source PTYPE_ERROR session NoData 0 w;
              Some w }
            else Some w);
          Some (h, w) });
     Some (0, h, w) }"

text \<open>One \<open>%u\<close> of \<open>sscanf\<close> behind a \<open>%d\<close>. \<open>ud\<close> and \<open>cb\<close> are the addresses of the service and of \<open>mainloop\<close>.\<close>

definition scan_du :: "string \<Rightarrow> int \<times> u32" where
  "scan_du s =
     (case scan_d s of
        None \<Rightarrow> (0, 0)
      | Some (a, s) \<Rightarrow> (a, if scan_d s = None then 0 else to_u32 (strtoul 10 s)))"

definition harbor_init ::
  "ext \<Rightarrow> harbor \<Rightarrow> addr \<Rightarrow> addr \<Rightarrow> nat \<Rightarrow> string option \<Rightarrow> world \<Rightarrow> (int \<times> harbor \<times> world) option" where
  "harbor_init x h ctx ud cb args w = do {
     let h = h\<lparr>h_ctx := Some ctx\<rparr>;
     args \<leftarrow> args;
     let (harbor_id, slave) = scan_du args;
     if slave = 0 then Some (1, h, w)
     else do {
       let h = h\<lparr>h_id := harbor_id, h_slave := slave\<rparr>;
       (h, w) \<leftarrow> (if harbor_id = 0 then close_all_remotes x h w else Some (h, w));
       w \<leftarrow> skynet_callback ctx ud (Some cb) w;
       w \<leftarrow> skynet_harbor_start ctx w;
       Some (0, h, w) } }"

section \<open>The queues of messages\<close>

definition hq_ok :: "harbor_msg_queue \<Rightarrow> bool" where
  "hq_ok q \<longleftrightarrow> 2 \<le> hq_size q \<and> ring_idx (hq_head q) (hq_tail q) (hq_size q) \<and> length (hq_data q) = nat (hq_size q)"

definition hq_list :: "harbor_msg_queue \<Rightarrow> harbor_msg list" where
  "hq_list q = ring_view (hq_data q) (nat (hq_head q)) (ring_count (hq_head q) (hq_tail q) (hq_size q))"

lemma ring_step_mod: "0 \<le> i \<Longrightarrow> i < c \<Longrightarrow> (i + 1) mod c = ring_step i c"
  by (cases "i + 1 = c") auto

lemma new_harbor_queue_ok: "hq_ok new_harbor_queue" "hq_list new_harbor_queue = []"
  by (simp_all add: hq_ok_def hq_list_def new_harbor_queue_def HARBOR_QUEUE_SIZE_def ring_idx_def)

text \<open>A push to a ring with a free slot besides the reserved one.\<close>

lemma push_queue_free:
  assumes "hq_ok q" "(hq_tail q + 1) mod hq_size q \<noteq> hq_head q"
  shows "\<exists>q'. push_queue_msg q m = Some q' \<and> hq_ok q' \<and> hq_list q' = hq_list q @ [m]"
proof -
  have idx: "ring_idx (hq_head q) (hq_tail q) (hq_size q)" and l: "length (hq_data q) = nat (hq_size q)"
    using assms(1) by (simp_all add: hq_ok_def)
  have t: "(hq_tail q + 1) mod hq_size q = ring_step (hq_tail q) (hq_size q)"
    using idx by (intro ring_step_mod) (auto simp: ring_idx_def)
  let ?q = "q\<lparr>hq_data := (hq_data q)[nat (hq_tail q) := m], hq_tail := ring_step (hq_tail q) (hq_size q)\<rparr>"
  have "arr_set (hq_data q) (hq_tail q) m = Some ((hq_data q)[nat (hq_tail q) := m])"
    using idx l by (simp add: arr_set_eq_Some ring_idx_def)
  then have "push_queue_msg q m = Some ?q"
    unfolding push_queue_msg_def using assms(2) by (simp add: t)
  moreover have "hq_ok ?q"
    using assms(1) ring_write(1)[OF idx] by (simp add: hq_ok_def)
  moreover have "hq_list ?q = hq_list q @ [m]"
    using ring_write(3,4)[OF idx] l assms(2) unfolding hq_list_def by (simp add: t)
  ultimately show ?thesis by blast
qed

text \<open>A full ring is copied to one of twice the size.\<close>

lemma push_queue_grow:
  assumes "hq_ok q" "(hq_tail q + 1) mod hq_size q = hq_head q" "length (hq_list q) < 2 ^ 30 - 1"
  shows "\<exists>q1. push_queue_msg q m = push_queue_msg q1 m \<and> hq_ok q1 \<and> hq_list q1 = hq_list q \<and>
    (hq_tail q1 + 1) mod hq_size q1 \<noteq> hq_head q1"
proof -
  let ?n = "nat (hq_size q - 1)"
  have idx: "ring_idx (hq_head q) (hq_tail q) (hq_size q)" and l: "length (hq_data q) = nat (hq_size q)" and s: "2 \<le> hq_size q"
    using assms(1) by (simp_all add: hq_ok_def)
  have "hq_head q = ring_step (hq_tail q) (hq_size q)"
    using idx assms(2) ring_step_mod[of "hq_tail q" "hq_size q"] by (auto simp: ring_idx_def)
  then have "Suc (ring_count (hq_head q) (hq_tail q) (hq_size q)) = nat (hq_size q)"
    using ring_write(2)[OF idx] by simp
  then have n: "ring_count (hq_head q) (hq_tail q) (hq_size q) = ?n" by linarith
  then have list: "hq_list q = ring_view (hq_data q) (nat (hq_head q)) ?n" by (simp only: hq_list_def)
  have b: "hq_size q * 2 \<le> INT_MAX"
    using assms(3) s by (simp add: list INT_MAX_def)
  have "those (map (\<lambda>i. arr_get (hq_data q) ((int i + hq_head q) mod hq_size q)) [0..<?n]) = Some (hq_list q)"
    unfolding list ring_view_def using idx l s
    by (intro those_map_Some) (simp add: arr_get_eq_Some ring_idx_def nat_mod_distrib nat_add_distrib add.commute)
  moreover define q1 where "q1 = \<lparr>hq_size = hq_size q * 2, hq_head = 0, hq_tail = hq_size q - 1,
    hq_data = hq_list q @ replicate (nat (hq_size q * 2) - length (hq_list q)) harbor_msg_zero\<rparr>"
  ultimately have "push_queue_msg q m = do {
      data \<leftarrow> arr_set (hq_data q1) (hq_tail q1) m;
      Some (q1\<lparr>hq_data := data, hq_tail := (hq_tail q1 + 1) mod hq_size q1\<rparr>) }"
    using assms(2) b s by (simp add: push_queue_msg_def cint_in_range)
  moreover have t: "(hq_tail q1 + 1) mod hq_size q1 \<noteq> hq_head q1"
    using s by (simp add: q1_def)
  ultimately have "push_queue_msg q m = push_queue_msg q1 m"
    by (simp add: push_queue_msg_def)
  moreover have "hq_ok q1"
    using s by (simp add: q1_def hq_ok_def ring_idx_def list)
  moreover have "hq_list q1 = hq_list q"
  proof -
    have c: "ring_count (hq_head q1) (hq_tail q1) (hq_size q1) = ?n" using s by (simp add: q1_def)
    have "ring_view (hq_data q1) 0 ?n = ring_view (hq_data q) (nat (hq_head q)) ?n"
      using s by (intro ring_view_prefix[where zs = "replicate (nat (hq_size q * 2) - length (hq_list q)) harbor_msg_zero"])
        (simp_all add: q1_def list)
    then show ?thesis unfolding hq_list_def[of q1] c list by (simp add: q1_def)
  qed
  ultimately show ?thesis using t by blast
qed

lemma push_queue_ok:
  assumes "hq_ok q" "length (hq_list q) < 2 ^ 30 - 1"
  shows "\<exists>q'. push_queue_msg q m = Some q' \<and> hq_ok q' \<and> hq_list q' = hq_list q @ [m]"
proof (cases "(hq_tail q + 1) mod hq_size q = hq_head q")
  case True
  then obtain q1 where "push_queue_msg q m = push_queue_msg q1 m" "hq_ok q1" "hq_list q1 = hq_list q"
    "(hq_tail q1 + 1) mod hq_size q1 \<noteq> hq_head q1"
    using push_queue_grow[OF assms(1) _ assms(2)] by blast
  then show ?thesis using push_queue_free[of q1 m] by simp
qed (use push_queue_free[OF assms(1)] in blast)

lemma pop_queue_empty: "hq_ok q \<Longrightarrow> hq_list q = [] \<Longrightarrow> pop_queue q = Some (None, q)"
  using ring_count_zero by (auto simp: hq_ok_def hq_list_def pop_queue_def dest: arg_cong[of _ _ length])

lemma pop_queue_cons:
  assumes "hq_ok q" "hq_list q = m # ms"
  shows "\<exists>q'. pop_queue q = Some (Some m, q') \<and> hq_ok q' \<and> hq_list q' = ms"
proof -
  have idx: "ring_idx (hq_head q) (hq_tail q) (hq_size q)" and l: "length (hq_data q) = nat (hq_size q)"
    using assms(1) by (simp_all add: hq_ok_def)
  have ne: "hq_head q \<noteq> hq_tail q" using assms(2) by (auto simp: hq_list_def)
  have h: "(hq_head q + 1) mod hq_size q = ring_step (hq_head q) (hq_size q)"
    using idx by (intro ring_step_mod) (auto simp: ring_idx_def)
  let ?q = "q\<lparr>hq_head := ring_step (hq_head q) (hq_size q)\<rparr>"
  have "hq_data q ! nat (hq_head q) = m" "hq_list ?q = ms"
    using assms(2) ring_take(4)[OF idx ne l] by (auto simp: hq_list_def)
  moreover have "arr_get (hq_data q) (hq_head q) = Some (hq_data q ! nat (hq_head q))"
    using idx l by (simp add: arr_get_eq_Some ring_idx_def)
  ultimately have "pop_queue q = Some (Some m, ?q)" using ne h by (simp add: pop_queue_def)
  moreover have "hq_ok ?q" using assms(1) ring_take(1)[OF idx ne] by (simp add: hq_ok_def)
  ultimately show ?thesis using \<open>hq_list ?q = ms\<close> by blast
qed

interpretation hq: bounded_fifo hq_list hq_ok "2 ^ 30 - 1" "\<lambda>m q. push_queue_msg q m" pop_queue
  by unfold_locales (use push_queue_ok pop_queue_empty pop_queue_cons in blast)+

text \<open>The loop over a queue runs its body on the messages in order.\<close>

fun each :: "('a \<Rightarrow> 's \<Rightarrow> 's option) \<Rightarrow> 'a list \<Rightarrow> 's \<Rightarrow> 's option" where
  "each f [] s = Some s"
| "each f (m # ms) s = do { s \<leftarrow> f m s; each f ms s }"

lemma each_append: "each f (ms @ ns) s = do { s \<leftarrow> each f ms s; each f ns s }"
  by (induction ms arbitrary: s) (auto split: bind_splits)

lemma pop_each_ok:
  assumes "hq_ok q"
  shows "\<exists>q'. pop_each f q s = map_option (Pair q') (each f (hq_list q) s) \<and> hq_ok q' \<and> hq_list q' = []"
  using assms
proof (induction "hq_list q" arbitrary: q s)
  case Nil
  then show ?case using pop_queue_empty[of q] by (subst pop_each.simps) auto
next
  case (Cons m ms)
  obtain q1 where q1: "pop_queue q = Some (Some m, q1)" "hq_ok q1" "hq_list q1 = ms"
    using pop_queue_cons[OF Cons.prems Cons.hyps(2)[symmetric]] by blast
  show ?case
  proof (cases "f m s")
    case None
    then show ?thesis
      using q1(1) Cons.hyps(2)[symmetric] new_harbor_queue_ok by (subst pop_each.simps) auto
  next
    case (Some s1)
    then show ?thesis
      using Cons.hyps(1)[OF q1(3)[symmetric] q1(2), of s1] q1(1,3) Cons.hyps(2)[symmetric] by (subst pop_each.simps) auto
  qed
qed

lemma release_queue_ok:
  assumes "hq_ok q"
  shows "release_queue (Some q) w = each (\<lambda>m. skynet_free (hm_buffer m)) (hq_list q) w"
  using pop_each_ok[OF assms, of "\<lambda>m. skynet_free (hm_buffer m)" w]
  by (auto simp: release_queue_def option.map_comp comp_def option.map_ident)

lemma release_queue_empty: "hq_ok q \<Longrightarrow> hq_list q = [] \<Longrightarrow> release_queue (Some q) w = Some w"
  by (simp add: release_queue_ok)

section \<open>The bytes of a packet\<close>

lemma to_bigendian_bytes: "to_bigendian n = be_bytes 4 (unat n)"
  using byte_of_word[of 24 n] byte_of_word[of 16 n] byte_of_word[of 8 n] byte_of_word[of 0 n]
  by (simp add: to_bigendian_def be_bytes_def upt_rec)

lemma length_to_bigendian [simp]: "length (to_bigendian n) = 4"
  by (simp add: to_bigendian_def)

lemma from_bigendian_value: "length bs = 4 \<Longrightarrow> unat (from_bigendian bs) = be_value bs"
  unfolding from_bigendian_def unat_be4 by (auto simp: be_value_def dest!: length_4)

lemma from_to_bigendian: "from_bigendian (to_bigendian n) = n"
  using from_bigendian_value[of "to_bigendian n"] be_value_be_bytes[of "unat n" 4] unat_32[of n]
  by (simp add: word_unat_eq_iff to_bigendian_bytes)

lemma length_header [simp]: "length (header_to_message header) = 12"
  by (simp add: header_to_message_def)

lemma header_roundtrip: "message_to_header (header_to_message header) = header"
  by (simp add: message_to_header_def header_to_message_def from_to_bigendian)

text \<open>A packet: the length, the payload and the header.\<close>

definition remote_frame :: "remote_message_header \<Rightarrow> u8 list \<Rightarrow> u8 list" where
  "remote_frame header bs = frame 4 (bs @ header_to_message header)"

lemma send_remote_ok:
  assumes "read_data x buffer (unat sz) w = Some bs" "unat sz + 12 < 2 ^ 32"
  shows "send_remote x ctx fd buffer sz cookie w = Some (w\<lparr>w_requests := w_requests w @ [Ss_send_raw fd (remote_frame cookie bs)]\<rparr>)"
proof -
  have l: "length bs = unat sz"
    using assms(1) by (auto simp: read_data_def copy_data_def split: if_splits option.splits bind_splits)
  have u: "unat (sz + 12) = unat sz + 12" using assms(2) by (subst unat_word_ariths) simp
  then have "\<not> sz + 12 > 0xffffffff" using assms(2) by (simp add: word_less_nat_alt)
  moreover have "unat (ucast (sz + 12) :: u32) = unat sz + 12"
    using assms(2) u by (simp add: unsigned_ucast_eq take_bit_nat_eq_self)
  ultimately show ?thesis
    using assms(1) l by (simp add: send_remote_def sendbuffer_raw_def socket_call_def remote_frame_def frame_def to_bigendian_bytes)
qed

end
