(* ===== verification/HarborLink.thy ===== *)
theory HarborLink
  imports Harbor
begin

text \<open>
  The link between two nodes, on the model of \<open>service_harbor.c\<close> in \<open>Harbor\<close>. The receiving side: what a slot of the
  service has read of the byte stream of its connection is a list of bytes (\<open>slave_rep\<close>), every data event
  appends to it, and each complete packet leaves it and becomes a message of a mailbox (\<open>data_loop_ok\<close>,
  \<open>harbor_events_ok\<close>). The sending side: each message is one packet on the socket of a connection, or waits in
  the queue of the slot. Both together give the transfer of messages from node to node.
\<close>

section \<open>Arriving packets\<close>

text \<open>What the content of a packet says: the header is in its last 12 bytes.\<close>

definition cookie_of :: "u8 list \<Rightarrow> remote_message_header" where
  "cookie_of p = message_to_header (drop (length p - 12) p)"

definition target :: "int \<Rightarrow> u8 list \<Rightarrow> u32" where
  "target me p = (rh_destination (cookie_of p) AND HANDLE_MASK) OR push_bit HANDLE_REMOTE_SHIFT (word_of_int me)"

definition arrival :: "u8 list \<Rightarrow> addr \<Rightarrow> skynet_message" where
  "arrival p a = message_of (rh_source (cookie_of p)) (to_cint (rh_session (cookie_of p)))
     (uint (drop_bit HANDLE_REMOTE_SHIFT (rh_destination (cookie_of p)))) (Some a) (of_nat (length p - 12))"

text \<open>A packet that a service of the node can get.\<close>

definition packet_ok :: "int \<Rightarrow> world \<Rightarrow> u8 list \<Rightarrow> bool" where
  "packet_ok me w p \<longleftrightarrow> 12 \<le> length p \<and> length p < 2 ^ 24 \<and> rh_source (cookie_of p) \<noteq> 0 \<and>
     0 \<le> to_cint (rh_session (cookie_of p)) \<and> local_dest (target me p) w \<and> mailbox w (target me p) \<noteq> None"

text \<open>The mailboxes after messages arrived in the given blocks.\<close>

fun post :: "int \<Rightarrow> u8 list list \<Rightarrow> addr list \<Rightarrow> (u32 \<rightharpoonup> skynet_message list) \<Rightarrow> u32 \<rightharpoonup> skynet_message list" where
  "post me (p # ps) (a # as) mb =
     post me ps as (mb(target me p := map_option (\<lambda>ms. ms @ [arrival p a]) (mb (target me p))))"
| "post me _ _ mb = mb"

lemma post_append: "length ps = length as \<Longrightarrow> post me (ps @ qs) (as @ bs) mb = post me qs bs (post me ps as mb)"
  by (induction ps as arbitrary: mb rule: list_induct2) auto

lemma post_None: "post me ps as mb d = None \<longleftrightarrow> mb d = None"
proof (induction me ps as mb rule: post.induct)
  case (1 me p ps a as mb)
  then show ?case by (simp only: post.simps) simp
qed simp_all

lemma drop_handle_type: "uint (drop_bit HANDLE_REMOTE_SHIFT (v :: u32)) < 256"
proof -
  have "unat (drop_bit HANDLE_REMOTE_SHIFT v) < 256"
    unfolding unat_drop_div HANDLE_REMOTE_SHIFT_def using unat_32[of v] by (intro less_mult_imp_div_less) simp
  then show ?thesis unfolding uint_nat by linarith
qed

lemma forward_local_ok:
  assumes "node_ok w qs" "w_heap w a = Some (Bytes p)" "packet_ok (h_id h) w p" "room_for 1 w"
  shows "\<exists>w' qs'. forward_local_message x h (Some a) (int (length p)) w = Some w' \<and> node_ok w' qs' \<and>
    mq_state.more w' = mq_state.more w \<and> mailbox w' = post (h_id h) [p] [a] (mailbox w)"
proof -
  let ?d = "target (h_id h) p"
  obtain ms where ms: "mailbox w ?d = Some ms" "length ms < 2 ^ 29 - 1"
    using assms(3,4) by (fastforce simp: packet_ok_def room_for_def)
  have p: "12 \<le> length p" "length p < 2 ^ 24" using assms(3) by (simp_all add: packet_ok_def)
  have ntl: "\<not> too_large (of_nat (length p - 12))"
    using p(2) by (simp add: too_large_iff take_bit_of_nat take_bit_nat_eq_self)
  let ?t = "uint (drop_bit HANDLE_REMOTE_SHIFT (rh_destination (cookie_of p)))"
  obtain w' qs' where s: "skynet_send x (h_ctx h) (rh_source (cookie_of p)) ?d (?t OR PTYPE_TAG_DONTCOPY)
      (to_cint (rh_session (cookie_of p))) (Blk a) (of_nat (length p - 12)) w = Some (to_cint (rh_session (cookie_of p)), w')"
    "node_ok w' qs'" "mq_state.more w' = mq_state.more w" "mailbox w' = (mailbox w)(?d \<mapsto> ms @ [arrival p a])"
    using send_block[OF assms(1) ntl _ _ _ drop_handle_type ms] assms(3) unfolding packet_ok_def arrival_def by fastforce
  have sz: "(word_of_int (int (length p) - 12) :: u64) = of_nat (length p - 12)"
    using p(1) by (simp add: of_nat_diff)
  have "read_data x (Some a) (length p) w = Some p"
    using p(1) assms(2) by (auto simp: read_data_def copy_data_def)
  then have "forward_local_message x h (Some a) (int (length p)) w = Some w'"
    using s(1) p(1) assms(3) sz
    by (simp add: forward_local_message_def HEADER_COOKIE_LENGTH_def cdata_of_def packet_ok_def Let_def target_def cookie_of_def
        nat_diff_distrib')
  then show ?thesis using s(2-4) ms(1) by auto
qed

section \<open>The state of a connection\<close>

text \<open>The connection in slot \<open>i\<close> has received the bytes \<open>L\<close> of an unfinished packet: a part of its length, or the
  length and a part of the content, which is in a block.\<close>

definition body_rep :: "slave \<Rightarrow> world \<Rightarrow> addr \<Rightarrow> u8 list \<Rightarrow> bool" where
  "body_rep s w a bs \<longleftrightarrow> sl_status s = STATUS_CONTENT \<and> length (sl_size s) = 4 \<and> sl_size s ! 0 = 0 \<and>
     sl_recv_buffer s = Some a \<and> w_heap w a = Some (Bytes bs) \<and> sl_length s = int (length bs) \<and>
     length bs = be_value (sl_size s) \<and> 0 \<le> sl_read s \<and> sl_read s < sl_length s"

definition slave_rep :: "harbor \<Rightarrow> nat \<Rightarrow> world \<Rightarrow> u8 list \<Rightarrow> bool" where
  "slave_rep h i w L \<longleftrightarrow> i < length (h_s h) \<and>
     (let s = h_s h ! i in
       (sl_status s = STATUS_HEADER \<and> length (sl_size s) = 4 \<and> sl_recv_buffer s = None \<and> 0 \<le> sl_read s \<and> sl_read s < 4 \<and>
          L = take (nat (sl_read s)) (sl_size s)) \<or>
       (\<exists>a bs. body_rep s w a bs \<and> L = sl_size s @ take (nat (sl_read s)) bs))"

definition recv_block :: "harbor \<Rightarrow> nat \<Rightarrow> addr set" where
  "recv_block h i = set_option (sl_recv_buffer (h_s h ! i))"

text \<open>Only the slot changes, and it keeps its socket.\<close>

definition link_frame :: "harbor \<Rightarrow> nat \<Rightarrow> harbor \<Rightarrow> bool" where
  "link_frame h i h' \<longleftrightarrow> (\<exists>s. h' = slave_set (int i) s h \<and> sl_fd s = sl_fd (h_s h ! i))"

lemma link_frameD:
  assumes "link_frame h i h'"
  shows "h_id h' = h_id h" "h_ctx h' = h_ctx h" "harbor_id h' = harbor_id h" "length (h_s h') = length (h_s h)"
proof -
  obtain s where s: "h' = slave_set (int i) s h" "sl_fd s = sl_fd (h_s h ! i)" using assms by (auto simp: link_frame_def)
  then show "h_id h' = h_id h" "h_ctx h' = h_ctx h" "length (h_s h') = length (h_s h)" by simp_all
  have "sl_fd (h_s h' ! j) = sl_fd (h_s h ! j)" for j
    using s by (cases "j = i") (cases "i < length (h_s h)", auto simp: list_update_beyond)
  then show "harbor_id h' = harbor_id h" by (simp add: harbor_id_def fun_eq_iff)
qed

lemma link_frame_trans:
  assumes "link_frame h i h1" "link_frame h1 i h2" "i < length (h_s h)"
  shows "link_frame h i h2"
  using assms by (auto simp: link_frame_def)

text \<open>A part of a run: the contents \<open>ps\<close> of packets arrived, each in a block of its own, and \<open>rest\<close> is left unfinished.
  No block changes but the one that receives a packet.\<close>

definition receives ::
  "harbor \<Rightarrow> nat \<Rightarrow> world \<Rightarrow> u8 list list \<Rightarrow> u8 list \<Rightarrow> harbor \<Rightarrow> world \<Rightarrow> addr list \<Rightarrow> bool" where
  "receives h i w ps rest h' w' as \<longleftrightarrow> slave_rep h' i w' rest \<and> (\<exists>qs. node_ok w' qs) \<and> link_frame h i h' \<and> heap_ok w' \<and>
     w_harbor w' = w_harbor w \<and> (\<forall>b. w_heap w b \<noteq> None \<longrightarrow> b \<notin> recv_block h i \<longrightarrow> w_heap w' b = w_heap w b) \<and>
     mailbox w' = post (h_id h) ps as (mailbox w) \<and>
     list_all2 (\<lambda>a p. w_heap w' a = Some (Bytes p) \<and> a \<notin> recv_block h' i) as ps \<and>
     recv_block h' i \<union> set as \<subseteq> recv_block h i \<union> {b. w_heap w b = None}"

lemma receivesD:
  assumes "receives h i w ps rest h' w' as"
  shows "slave_rep h' i w' rest" "\<exists>qs. node_ok w' qs" "link_frame h i h'" "heap_ok w'" "w_harbor w' = w_harbor w"
    "\<And>b. w_heap w b \<noteq> None \<Longrightarrow> b \<notin> recv_block h i \<Longrightarrow> w_heap w' b = w_heap w b"
    "mailbox w' = post (h_id h) ps as (mailbox w)"
    "list_all2 (\<lambda>a p. w_heap w' a = Some (Bytes p) \<and> a \<notin> recv_block h' i) as ps"
    "recv_block h' i \<subseteq> recv_block h i \<union> {b. w_heap w b = None}" "set as \<subseteq> recv_block h i \<union> {b. w_heap w b = None}"
  using assms by (auto simp: receives_def)

lemma receives_trans:
  assumes 1: "receives h i w ps L1 h1 w1 as" and 2: "receives h1 i w1 ps' L2 h2 w2 as'" and i: "i < length (h_s h)"
  shows "receives h i w (ps @ ps') L2 h2 w2 (as @ as')"
proof -
  note d1 = receivesD[OF 1] and d2 = receivesD[OF 2]
  have "list_all2 (\<lambda>a p. w_heap w2 a = Some (Bytes p) \<and> a \<notin> recv_block h2 i) as ps"
    by (rule list_all2_mono[OF d1(8)]) (use d2(6,9) in fastforce)
  moreover have "w_heap w2 b = w_heap w b" if "w_heap w b \<noteq> None" "b \<notin> recv_block h i" for b
    using that d1(6,9) d2(6)[of b] by fastforce
  moreover have "recv_block h2 i \<union> set (as @ as') \<subseteq> recv_block h i \<union> {b. w_heap w b = None}"
  proof -
    have "w_heap w b = None" if "b \<notin> recv_block h i" "w_heap w1 b = None" for b
      using that d1(6)[of b] by metis
    then show ?thesis using d1(9,10) d2(9,10) by auto
  qed
  moreover have "length ps = length as" using list_all2_lengthD[OF d1(8)] by simp
  ultimately show ?thesis
    using d1 d2 link_frame_trans[OF d1(3) d2(3) i] link_frameD(1)[OF d1(3)]
    by (simp add: receives_def post_append list_all2_appendI)
qed

text \<open>Writing to the block of the packet.\<close>

lemma block_write_ok:
  assumes "w_heap w a = Some (Bytes bs)" "r + length xs \<le> length bs"
  shows "block_write (Some a) (int r) xs w = Some (w\<lparr>w_heap := (w_heap w)(a \<mapsto> Bytes (take r bs @ xs @ drop (r + length xs) bs))\<rparr>)"
  using assms by (simp add: block_write_def)

lemma content_part:
  assumes s: "i < length (h_s h)" "body_rep (h_s h ! i) w a bs" and n: "node_ok w qs" "heap_ok w"
    and b: "int (length buf) < sl_length (h_s h ! i) - sl_read (h_s h ! i)"
    and S: "S = sl_size (h_s h ! i) @ take (nat (sl_read (h_s h ! i))) bs @ buf"
  shows "\<exists>h' w'. case_content x (int i) h buf w = Some (Return h' w') \<and> receives h i w [] S h' w' []"
proof -
  define s where "s = h_s h ! i"
  define r where "r = nat (sl_read s)"
  note B = s(2)[folded s_def, unfolded body_rep_def]
  have r: "sl_read s = int r" "r + length buf < length bs" using B b by (auto simp: r_def s_def)
  let ?new = "take r bs @ buf @ drop (r + length buf) bs"
  let ?w = "w\<lparr>w_heap := (w_heap w)(a \<mapsto> Bytes ?new)\<rparr>"
  let ?s = "s\<lparr>sl_read := int (r + length buf)\<rparr>"
  have st: "slave_at h (int i) = Some s" using s(1) by (simp add: s_def)
  have "case_content x (int i) h buf w = Some (Return (slave_set (int i) ?s h) ?w)"
    using st r B b block_write_ok[of w a bs r buf] by (simp add: case_content_def s_def[symmetric])
  moreover have "body_rep ?s ?w a ?new" using B r by (simp add: body_rep_def)
  then have "slave_rep (slave_set (int i) ?s h) i ?w S"
    using s(1) r by (auto simp: slave_rep_def S s_def[symmetric] r_def[symmetric] intro!: exI[of _ a] exI[of _ ?new])
  moreover have "heap_ok ?w" using n(2) B by (auto simp: heap_ok_def)
  moreover have "recv_block (slave_set (int i) ?s h) i = {a}" "recv_block h i = {a}"
    using s(1) B by (auto simp: recv_block_def s_def[symmetric])
  ultimately show ?thesis
    using n(1) s(1) by (intro exI[of _ "slave_set (int i) ?s h"] exI[of _ ?w])
      (auto simp: receives_def link_frame_def s_def[symmetric])
qed

lemma packet_ok_heap [simp]: "packet_ok me (w\<lparr>w_heap := hp\<rparr>) p = packet_ok me w p" "packet_ok me (w\<lparr>w_heap_brk := k\<rparr>) p = packet_ok me w p"
  by (simp_all add: packet_ok_def skynet_harbor_message_isremote_def)

lemma room_for_heap [simp]: "room_for k (w\<lparr>w_heap := hp\<rparr>) = room_for k w" "room_for k (w\<lparr>w_heap_brk := b\<rparr>) = room_for k w"
  by (simp_all add: room_for_def)

lemma content_full:
  assumes s: "i < length (h_s h)" "body_rep (h_s h ! i) w a bs" and n: "node_ok w qs" "heap_ok w" "room_for 1 w"
    and k: "k = nat (sl_length (h_s h ! i) - sl_read (h_s h ! i))" "k \<le> length buf"
    and p: "p = take (nat (sl_read (h_s h ! i))) bs @ take k buf" "packet_ok (h_id h) w p"
  shows "\<exists>h' w'. case_content x (int i) h buf w = Some (if drop k buf = [] then Return h' w' else Go h' w' (drop k buf)) \<and>
    receives h i w [p] [] h' w' [a]"
proof -
  define s where "s = h_s h ! i"
  define r where "r = nat (sl_read s)"
  note B = s(2)[folded s_def, unfolded body_rep_def]
  have r: "sl_read s = int r" "r + k = length bs" "sl_length s = int (length bs)" using B k by (auto simp: r_def s_def)
  let ?w = "w\<lparr>w_heap := (w_heap w)(a \<mapsto> Bytes p)\<rparr>"
  have pl: "length p = length bs" using p(1) r k(2) by (simp add: s_def[symmetric] r_def[symmetric])
  have wr: "block_write (Some a) (int r) (take k buf) w = Some ?w"
    using block_write_ok[of w a bs r "take k buf"] B r k(2) p(1) by (simp add: s_def[symmetric] r_def[symmetric])
  obtain w' qs' where f: "forward_local_message x h (Some a) (int (length p)) ?w = Some w'" "node_ok w' qs'"
    "mq_state.more w' = mq_state.more ?w" "mailbox w' = post (h_id h) [p] [a] (mailbox w)"
    using forward_local_ok[of ?w qs a p h x] n p(2) by auto
  note eqs = world_more_eqD[OF f(3)]
  let ?s = "s\<lparr>sl_length := 0, sl_read := 0, sl_recv_buffer := None, sl_status := STATUS_HEADER\<rparr>"
  let ?h = "slave_set (int i) ?s h"
  have st: "slave_at h (int i) = Some s" using s(1) by (simp add: s_def)
  have "sl_length s - sl_read s = int k" "sl_recv_buffer s = Some a" using r B by simp_all
  then have "case_content x (int i) h buf w = Some (if drop k buf = [] then Return ?h w' else Go ?h w' (drop k buf))"
    using st r(1,3) k(2) wr f(1) pl by (simp add: case_content_def Let_def)
  moreover have "slave_rep ?h i w' []"
    using s(1) B by (simp add: slave_rep_def)
  moreover have "heap_ok w'" using n(2) B eqs(3,12) by (auto simp: heap_ok_def)
  moreover have "recv_block ?h i = {}" "recv_block h i = {a}"
    using s(1) B by (auto simp: recv_block_def s_def[symmetric])
  moreover have "link_frame h i ?h" using s(1) by (auto simp: link_frame_def s_def)
  ultimately show ?thesis
    using f(2,4) eqs(3,5) by (intro exI[of _ ?h] exI[of _ w']) (auto simp: receives_def)
qed

text \<open>The length of a packet in its first four bytes.\<close>

lemma be_value_4:
  assumes "length z = 4"
  shows "be_value z = ((unat (z ! 0) * 256 + unat (z ! 1)) * 256 + unat (z ! 2)) * 256 + unat (z ! 3)"
proof -
  obtain a b c d where "z = [a, b, c, d]" using length_4[OF assms] by blast
  then show ?thesis by (simp add: be_value_def)
qed

lemma header_length:
  assumes "length z = 4" "z ! 0 = 0"
  shows "uint (push_bit 16 (ucast (z ! 1)) OR push_bit 8 (ucast (z ! 2)) OR ucast (z ! 3) :: u32) = int (be_value z)"
proof -
  have "unat (push_bit 16 (ucast (z ! 1)) OR push_bit 8 (ucast (z ! 2)) OR ucast (z ! 3) :: u32) = be_value z"
    using unat_be4[of 0 "z ! 1" "z ! 2" "z ! 3"] unfolding be_value_4[OF assms(1)] assms(2) by (simp only: ucast_0 push_bit_of_0 or.left_neutral)
  then show ?thesis unfolding uint_nat by (simp only:)
qed

lemma header_first:
  assumes "length z = 4" "be_value z < 2 ^ 24"
  shows "z ! 0 = 0"
proof (rule ccontr)
  assume "z ! 0 \<noteq> 0"
  then have "1 \<le> unat (z ! 0)" by (simp add: Suc_le_eq unat_gt_0)
  moreover have "be_value z < 16777216" using assms(2) by simp
  moreover have False if "1 \<le> a" "((a * 256 + b) * 256 + c) * 256 + d < 16777216" for a b c d :: nat
    using that by (simp add: algebra_simps)
  ultimately show False unfolding be_value_4[OF assms(1)] by blast
qed

lemma header_part:
  assumes s: "i < length (h_s h)" "sl_status (h_s h ! i) = STATUS_HEADER" "slave_rep h i w L" and n: "node_ok w qs" "heap_ok w"
    and b: "length (L @ buf) < 4"
  shows "\<exists>h' w'. case_header x (int i) h buf w = Some (Return h' w') \<and> receives h i w [] (L @ buf) h' w' []"
proof -
  define s where "s = h_s h ! i"
  define r where "r = nat (sl_read s)"
  have B: "length (sl_size s) = 4" "sl_recv_buffer s = None" "sl_read s = int r" "r < 4" "L = take r (sl_size s)" "sl_status s = STATUS_HEADER"
    using s by (auto simp: slave_rep_def s_def[symmetric] r_def Let_def body_rep_def STATUS_HEADER_def STATUS_CONTENT_def)
  have rb: "r + length buf < 4" using b B by simp
  let ?s = "s\<lparr>sl_size := take r (sl_size s) @ buf @ drop (r + length buf) (sl_size s), sl_read := int (r + length buf)\<rparr>"
  let ?h = "slave_set (int i) ?s h"
  have st: "slave_at h (int i) = Some s" using s(1) by (simp add: s_def)
  have "case_header x (int i) h buf w = Some (Return ?h w)"
    using st B rb by (simp add: case_header_def)
  moreover have "slave_rep ?h i w (L @ buf)" using s(1) B rb by (simp add: slave_rep_def)
  moreover have "recv_block ?h i = {}" "recv_block h i = {}" using s(1) B by (auto simp: recv_block_def s_def[symmetric])
  moreover have "link_frame h i ?h" using s(1) by (auto simp: link_frame_def s_def)
  ultimately show ?thesis
    using n by (intro exI[of _ ?h] exI[of _ w]) (auto simp: receives_def)
qed

text \<open>A complete length: a block for the content is allocated.\<close>

lemma header_full:
  assumes s: "i < length (h_s h)" "sl_status (h_s h ! i) = STATUS_HEADER" "slave_rep h i w L" and n: "node_ok w qs" "heap_ok w"
    and b: "4 \<le> length (L @ buf)" "z = take 4 (L @ buf)" "z ! 0 = 0" "0 < be_value z"
  shows "\<exists>h' w' a. case_header x (int i) h buf w =
      (if drop 4 (L @ buf) = [] then Some (Return h' w') else case_content x (int i) h' (drop 4 (L @ buf)) w') \<and>
    receives h i w [] z h' w' [] \<and> body_rep (h_s h' ! i) w' a (replicate (be_value z) 0) \<and>
    sl_size (h_s h' ! i) = z \<and> sl_read (h_s h' ! i) = 0 \<and> mailbox w' = mailbox w \<and>
    w' = w\<lparr>w_heap := w_heap w', w_heap_brk := w_heap_brk w'\<rparr>"
proof -
  define s where "s = h_s h ! i"
  define r where "r = nat (sl_read s)"
  have B: "length (sl_size s) = 4" "sl_recv_buffer s = None" "sl_read s = int r" "r < 4" "L = take r (sl_size s)" "sl_status s = STATUS_HEADER"
    using s by (auto simp: slave_rep_def s_def[symmetric] r_def Let_def body_rep_def STATUS_HEADER_def STATUS_CONTENT_def)
  have rL: "length L = r" "4 \<le> r + length buf" using B b by auto
  then have z: "z = take r (sl_size s) @ take (4 - r) buf" "length z = 4" "drop 4 (L @ buf) = drop (4 - r) buf" using b B by auto
  let ?a = "w_heap_brk w"
  let ?w = "w\<lparr>w_heap := (w_heap w)(?a \<mapsto> Bytes (replicate (be_value z) 0)), w_heap_brk := Suc ?a\<rparr>"
  let ?s = "s\<lparr>sl_size := z, sl_length := int (be_value z), sl_read := 0, sl_recv_buffer := Some ?a, sl_status := STATUS_CONTENT\<rparr>"
  let ?h = "slave_set (int i) ?s h"
  have st: "slave_at h (int i) = Some s" using s(1) by (simp add: s_def)
  have nn: "nat (4 - int r) = 4 - r" by simp
  have "case_header x (int i) h buf w =
      (if drop 4 (L @ buf) = [] then Some (Return ?h ?w) else case_content x (int i) ?h (drop 4 (L @ buf)) ?w)"
    unfolding z(3) using st B(3,4) rL(2) b(3) header_length[OF z(2) b(3)]
    by (simp add: case_header_def nn z(1)[symmetric] skynet_malloc_def Let_def)
  moreover have body: "body_rep ?s ?w ?a (replicate (be_value z) 0)" using z(2) b(3,4) by (simp add: body_rep_def)
  moreover have "slave_rep ?h i ?w z"
    using s(1) body by (auto simp: slave_rep_def intro!: exI[of _ ?a] exI[of _ "replicate (be_value z) 0"])
  moreover have "heap_ok ?w" using n(2) by (auto simp: heap_ok_def)
  moreover have "recv_block ?h i = {?a}" "recv_block h i = {}" using s(1) B by (auto simp: recv_block_def s_def[symmetric])
  moreover have fresh: "w_heap w ?a = None" using n(2) by (simp add: heap_ok_def)
  moreover have "link_frame h i ?h" using s(1) by (auto simp: link_frame_def s_def)
  moreover have "receives h i w [] z ?h ?w []" unfolding receives_def
    using calculation n(1) by auto
  ultimately show ?thesis
    using s(1) by (intro exI[of _ ?h] exI[of _ ?w] exI[of _ ?a]) simp
qed

lemma post_length: "post me ps as mb d = Some ms \<Longrightarrow> \<exists>ms0. mb d = Some ms0 \<and> length ms \<le> length ms0 + length ps"
proof (induction me ps as mb rule: post.induct)
  case (1 me p ps a as mb)
  obtain ms0 where "(mb(target me p := map_option (\<lambda>ms. ms @ [arrival p a]) (mb (target me p)))) d = Some ms0"
    "length ms \<le> length ms0 + length ps"
    using 1 by (auto simp del: fun_upd_apply)
  then show ?case by (auto split: if_splits)
qed simp_all

lemma room_post:
  assumes "room_for (length ps + k) w" "mailbox w' = post me ps as (mailbox w)"
  shows "room_for k w'"
  using assms post_length[of me ps as "mailbox w"] by (fastforce simp: room_for_def)

lemma packet_ok_post:
  assumes "mailbox w' = post me ps as (mailbox w)" "w_harbor w' = w_harbor w"
  shows "packet_ok me w' p = packet_ok me w p"
  using assms isremote_cong[of w' w] by (simp add: packet_ok_def post_None)

lemma slave_rep_cases:
  assumes "slave_rep h i w L"
  obtains (header) "i < length (h_s h)" "sl_status (h_s h ! i) = STATUS_HEADER" "length L < 4"
  | (content) a bs where "i < length (h_s h)" "body_rep (h_s h ! i) w a bs"
      "L = sl_size (h_s h ! i) @ take (nat (sl_read (h_s h ! i))) bs" "length L = 4 + nat (sl_read (h_s h ! i))"
      "take 4 L = sl_size (h_s h ! i)" "be_value (take 4 L) = length bs"
proof -
  have i: "i < length (h_s h)" using assms by (simp add: slave_rep_def)
  show thesis
  proof (cases "\<exists>a bs. body_rep (h_s h ! i) w a bs \<and> L = sl_size (h_s h ! i) @ take (nat (sl_read (h_s h ! i))) bs")
    case True
    then obtain a bs where "body_rep (h_s h ! i) w a bs" "L = sl_size (h_s h ! i) @ take (nat (sl_read (h_s h ! i))) bs" by blast
    with content[OF i, of a bs] show ?thesis by (auto simp: body_rep_def)
  next
    case False
    then show ?thesis using header assms by (auto simp: slave_rep_def Let_def)
  qed
qed

lemma data_case_status:
  assumes "i < length (h_s h)"
  shows "sl_status (h_s h ! i) = STATUS_HEADER \<Longrightarrow> data_case x (int i) fd h buf w = case_header x (int i) h buf w"
    "body_rep (h_s h ! i) w a bs \<Longrightarrow> data_case x (int i) fd h buf w = case_content x (int i) h buf w"
  using assms by (simp_all add: data_case_def body_rep_def STATUS_HANDSHAKE_def STATUS_HEADER_def STATUS_CONTENT_def)

text \<open>The bytes of an unfinished packet are kept.\<close>

lemma data_case_part:
  assumes rep: "slave_rep h i w L" and n: "node_ok w qs" "heap_ok w"
    and S: "\<not> complete 4 (L @ buf)" "4 \<le> length (L @ buf) \<longrightarrow> (L @ buf) ! 0 = 0"
  shows "\<exists>h' w'. data_case x (int i) fd h buf w = Some (Return h' w') \<and> receives h i w [] (L @ buf) h' w' []"
  using rep
proof (cases rule: slave_rep_cases)
  case header
  show ?thesis
  proof (cases "length (L @ buf) < 4")
    case True
    then show ?thesis using header_part[OF header(1,2) rep n, of buf x] header by (simp add: data_case_status)
  next
    case False
    define z where "z = take 4 (L @ buf)"
    have l: "4 \<le> length (L @ buf)" "length (L @ buf) < 4 + be_value z" using False S(1) by (auto simp: complete_def z_def)
    have z: "4 \<le> length (L @ buf)" "z ! 0 = 0" "0 < be_value z" "z @ drop 4 (L @ buf) = L @ buf" "length (drop 4 (L @ buf)) < be_value z"
      using l S(2) append_take_drop_id[of 4 "L @ buf"] by (simp_all add: z_def del: length_append take_append drop_append)
    obtain h1 w1 a where h1: "case_header x (int i) h buf w =
        (if drop 4 (L @ buf) = [] then Some (Return h1 w1) else case_content x (int i) h1 (drop 4 (L @ buf)) w1)"
      "receives h i w [] z h1 w1 []" "body_rep (h_s h1 ! i) w1 a (replicate (be_value z) 0)" "sl_size (h_s h1 ! i) = z" "sl_read (h_s h1 ! i) = 0"
      using header_full[OF header(1,2) rep n z(1) z_def z(2,3), of x] by blast
    show ?thesis
    proof (cases "drop 4 (L @ buf) = []")
      case True
      then show ?thesis using h1(1,2) z(4) header by (auto simp: data_case_status)
    next
      case False
      note d = receivesD[OF h1(2)]
      have i1: "i < length (h_s h1)" using d(1) by (simp add: slave_rep_def)
      have l: "sl_length (h_s h1 ! i) = int (be_value z)" using h1(3) by (simp add: body_rep_def)
      obtain qs1 where n1: "node_ok w1 qs1" using d(2) by blast
      have c: "int (length (drop 4 (L @ buf))) < sl_length (h_s h1 ! i) - sl_read (h_s h1 ! i)"
        "L @ buf = sl_size (h_s h1 ! i) @ take (nat (sl_read (h_s h1 ! i))) (replicate (be_value z) 0) @ drop 4 (L @ buf)"
        unfolding l h1(4,5) using z(4,5) by (simp_all del: length_append drop_append)
      obtain h2 w2 where "case_content x (int i) h1 (drop 4 (L @ buf)) w1 = Some (Return h2 w2)"
        "receives h1 i w1 [] (L @ buf) h2 w2 []"
        using content_part[OF i1 h1(3) n1 d(4) c, of x] by blast
      then show ?thesis using False h1(1) receives_trans[OF h1(2) _ header(1)] header by (fastforce simp: data_case_status)
    qed
  qed
next
  case (content a bs)
  have "int (length buf) < sl_length (h_s h ! i) - sl_read (h_s h ! i)"
  proof -
    have "take 4 (L @ buf) = take 4 L" using content(4) by simp
    then have "length L + length buf < 4 + length bs" using S(1) content(4,6) by (simp add: complete_def)
    then show ?thesis using content(2,4) by (simp add: body_rep_def)
  qed
  then show ?thesis
    using content_part[OF content(1,2) n, of buf "L @ buf" x] content(3) data_case_status(2)[OF content(1,2)] by simp
qed

text \<open>A complete packet is delivered.\<close>

lemma data_case_full:
  assumes rep: "slave_rep h i w L" and n: "node_ok w qs" "heap_ok w" "room_for 1 w"
    and S: "complete 4 (L @ buf)" "m = be_value (take 4 (L @ buf))" "p = take m (drop 4 (L @ buf))" "packet_ok (h_id h) w p"
  shows "\<exists>h' w' a. data_case x (int i) fd h buf w = Some (let rest = drop (4 + m) (L @ buf) in if rest = [] then Return h' w' else Go h' w' rest) \<and>
    receives h i w [p] [] h' w' [a]"
proof -
  have l: "4 + m \<le> length (L @ buf)" unfolding S(2) using S(1) by (simp only: complete_def)
  then have pl: "length p = m" unfolding S(3) by simp
  moreover have "12 \<le> length p" "length p < 2 ^ 24" using S(4) by (simp_all only: packet_ok_def)
  ultimately have m: "4 + m \<le> length (L @ buf)" "length p = m" "12 \<le> m" "m < 2 ^ 24" using l by (simp_all only:)
  show ?thesis
    using rep
  proof (cases rule: slave_rep_cases)
    case header
    define z where "z = take 4 (L @ buf)"
    have z: "4 \<le> length (L @ buf)" "length z = 4" "be_value z = m" using m by (auto simp: z_def S(2))
    have z0: "z ! 0 = 0" "0 < be_value z" using header_first[OF z(2)] z(3) m(3,4) by simp_all
    obtain h1 w1 a where h1: "case_header x (int i) h buf w =
        (if drop 4 (L @ buf) = [] then Some (Return h1 w1) else case_content x (int i) h1 (drop 4 (L @ buf)) w1)"
      "receives h i w [] z h1 w1 []" "body_rep (h_s h1 ! i) w1 a (replicate (be_value z) 0)" "sl_size (h_s h1 ! i) = z" "sl_read (h_s h1 ! i) = 0"
      "mailbox w1 = mailbox w"
      using header_full[OF header(1,2) rep n(1,2) z(1) z_def z0, of x] by blast
    note d = receivesD[OF h1(2)]
    have i1: "i < length (h_s h1)" using d(1) by (simp add: slave_rep_def)
    obtain qs1 where n1: "node_ok w1 qs1" using d(2) by blast
    have l: "sl_length (h_s h1 ! i) = int m" using h1(3) z(3) by (simp add: body_rep_def)
    have r1: "room_for 1 w1" using n(3) h1(6) by (simp add: room_for_def)
    have pk: "packet_ok (h_id h1) w1 p"
      using S(4) h1(6) d(5) isremote_cong[of w1 w] link_frameD(1)[OF d(3)] by (simp add: packet_ok_def)
    have k: "m = nat (sl_length (h_s h1 ! i) - sl_read (h_s h1 ! i))" "m \<le> length (drop 4 (L @ buf))"
      "p = take (nat (sl_read (h_s h1 ! i))) (replicate (be_value z) 0) @ take m (drop 4 (L @ buf))"
      using l h1(5) m S(3) by simp_all
    obtain h2 w2 where c: "case_content x (int i) h1 (drop 4 (L @ buf)) w1 =
        Some (if drop m (drop 4 (L @ buf)) = [] then Return h2 w2 else Go h2 w2 (drop m (drop 4 (L @ buf))))"
      "receives h1 i w1 [p] [] h2 w2 [a]"
      using content_full[OF i1 h1(3) n1 d(4) r1 k pk, of x] by blast
    have "drop 4 (L @ buf) \<noteq> []" using k(2) m(3) by (metis le_zero_eq list.size(3) not_numeral_le_zero)
    moreover have "drop m (drop 4 (L @ buf)) = drop (4 + m) (L @ buf)" by (simp only: drop_drop add.commute)
    ultimately have "data_case x (int i) fd h buf w =
        Some (if drop (4 + m) (L @ buf) = [] then Return h2 w2 else Go h2 w2 (drop (4 + m) (L @ buf)))"
      using c(1) h1(1) header by (simp only: data_case_status if_False)
    then show ?thesis
      using receives_trans[OF h1(2) c(2) header(1)] by (auto simp: Let_def)
  next
    case (content a bs)
    define r where "r = nat (sl_read (h_s h ! i))"
    have t: "take 4 (L @ buf) = take 4 L" using content(4) by simp
    have mb: "m = length bs" unfolding S(2) t by (rule content(6))
    have k: "m - r = nat (sl_length (h_s h ! i) - sl_read (h_s h ! i))" "m - r \<le> length buf" "r < m"
      using content(2,4) m(1) mb by (auto simp: body_rep_def r_def)
    have p': "p = take (nat (sl_read (h_s h ! i))) bs @ take (m - r) buf"
      using S(3) content(3,4) k(3) mb content(2) by (simp add: r_def[symmetric] body_rep_def)
    have dr: "drop (4 + m) (L @ buf) = drop (m - r) buf" using content(4) k(3) by (simp add: r_def[symmetric])
    show ?thesis
      using content_full[OF content(1,2) n k(1,2) p' S(4), of x] data_case_status(2)[OF content(1,2)] unfolding dr Let_def by metis
  qed
qed

text \<open>The loop over the bytes of a chunk.\<close>

lemma data_loop_ok:
  assumes "slave_rep h i w L" "node_ok w qs" "heap_ok w" "frames 4 (L @ buf) = (ps, rest)"
    "\<forall>p \<in> set ps. packet_ok (h_id h) w p" "4 \<le> length rest \<longrightarrow> rest ! 0 = 0" "room_for (length ps) w"
  shows "\<exists>h' w' as. data_loop x (int i) fd h buf w = Some (h', w') \<and> receives h i w ps rest h' w' as"
  using assms
proof (induction ps arbitrary: h w L buf qs)
  case Nil
  have nc: "\<not> complete 4 (L @ buf)" using Nil.prems(4) frames_complete[of 4 "L @ buf"] by auto
  then have r: "rest = L @ buf" using Nil.prems(4) frames_incomplete[of 4 "L @ buf"] by simp
  obtain h' w' where "data_case x (int i) fd h buf w = Some (Return h' w')" "receives h i w [] (L @ buf) h' w' []"
    using data_case_part[OF Nil.prems(1-3) nc] Nil.prems(6) r by blast
  then show ?case by (subst data_loop.simps) (auto simp: r)
next
  case (Cons p ps)
  have c: "complete 4 (L @ buf)" using Cons.prems(4) frames_incomplete[of 4 "L @ buf"] by fastforce
  define m where "m = be_value (take 4 (L @ buf))"
  have f: "p = take m (drop 4 (L @ buf))" "frames 4 (drop (4 + m) (L @ buf)) = (ps, rest)"
    using Cons.prems(4) frames_complete[OF _ c] by (auto simp: m_def prod_eq_iff)
  have r1: "room_for 1 w" using Cons.prems(7) by (fastforce simp: room_for_def)
  obtain h1 w1 a where h1: "data_case x (int i) fd h buf w =
      Some (let rest = drop (4 + m) (L @ buf) in if rest = [] then Return h1 w1 else Go h1 w1 rest)"
    "receives h i w [p] [] h1 w1 [a]"
    using data_case_full[OF Cons.prems(1-3) r1 c m_def f(1), of x fd] Cons.prems(5) by auto
  note d = receivesD[OF h1(2)]
  have i: "i < length (h_s h)" using Cons.prems(1) by (simp add: slave_rep_def)
  show ?case
  proof (cases "drop (4 + m) (L @ buf) = []")
    case True
    then have "ps = []" "rest = []" using f(2) frames_incomplete[of 4 "[]"] by (simp_all add: complete_def)
    then show ?thesis using h1 True by (subst data_loop.simps) auto
  next
    case False
    obtain qs1 where n1: "node_ok w1 qs1" using d(2) by blast
    have "\<forall>q \<in> set ps. packet_ok (h_id h1) w1 q"
      using Cons.prems(5) packet_ok_post[OF d(7,5)] link_frameD(1)[OF d(3)] by simp
    moreover have "room_for (length ps) w1"
      using room_post[OF _ d(7), of "length ps"] Cons.prems(7) by simp
    ultimately obtain h' w' as where "data_loop x (int i) fd h1 (drop (4 + m) (L @ buf)) w1 = Some (h', w')"
      "receives h1 i w1 ps rest h' w' as"
      using Cons.IH[OF d(1) n1 d(4), of "drop (4 + m) (L @ buf)"] f(2) Cons.prems(6) by auto
    then show ?thesis
      using h1 False receives_trans[OF h1(2) _ i, of ps rest h' w' as] by (subst data_loop.simps) (auto simp: Let_def)
  qed
qed

section \<open>Streams\<close>

text \<open>Data events of the socket \<open>fd\<close>: the socket message, and the block with the bytes of a chunk.\<close>

definition data_event :: "world \<Rightarrow> int \<Rightarrow> addr \<times> addr \<Rightarrow> u8 list \<Rightarrow> bool" where
  "data_event w fd e c \<longleftrightarrow>
     (\<exists>t bs. w_heap w (fst e) = Some (Sock \<lparr>sm_type = SKYNET_SOCKET_TYPE_DATA, sm_id = fd, sm_ud = int (length c), sm_buffer = Some (snd e)\<rparr> t) \<and>
        w_heap w (snd e) = Some (Bytes bs) \<and> length c \<le> length bs \<and> take (length c) bs = c)"

fun harbor_events :: "ext \<Rightarrow> addr \<Rightarrow> addr list \<Rightarrow> harbor \<times> world \<Rightarrow> (harbor \<times> world) option" where
  "harbor_events x ctx [] s = Some s"
| "harbor_events x ctx (m # ms) (h, w) = do {
     (_, h, w) \<leftarrow> mainloop x h ctx PTYPE_SOCKET 0 0 (Some m) SIZEOF_SOCKET_MESSAGE w;
     harbor_events x ctx ms (h, w) }"

lemma slave_rep_unfinished:
  assumes "slave_rep h i w L"
  shows "frames 4 L = ([], L)"
proof -
  have "\<not> complete 4 L"
    using assms
  proof (cases rule: slave_rep_cases)
    case (content a bs)
    have "nat (sl_read (h_s h ! i)) < length bs" using content(2) by (auto simp: body_rep_def)
    then show ?thesis using content(4,6) by (simp add: complete_def)
  qed (simp add: complete_def)
  then show ?thesis by (simp add: frames_incomplete)
qed

lemma slave_rep_free:
  assumes "slave_rep h i w L" "b \<notin> recv_block h i"
  shows "slave_rep h i (w\<lparr>w_heap := (w_heap w)(b := None)\<rparr>) L"
  using assms by (auto simp: slave_rep_def body_rep_def recv_block_def Let_def)

lemma recv_block_bytes: "slave_rep h i w L \<Longrightarrow> b \<in> recv_block h i \<Longrightarrow> \<exists>bs. w_heap w b = Some (Bytes bs)"
  by (auto simp: slave_rep_def body_rep_def recv_block_def Let_def)

lemma room_less: "room_for (m + n) w \<Longrightarrow> room_for m w"
  unfolding room_for_def by (meson add_le_mono le_add1 le_refl order.strict_trans1)

text \<open>One event.\<close>

lemma data_event_ok:
  assumes rep: "slave_rep h i w L" and n: "node_ok w qs" "heap_ok w" and i: "harbor_id h fd = int i" "0 < i"
    and e: "data_event w fd e c" "snd e \<notin> recv_block h i"
    and f: "frames 4 (L @ c) = (ps, rest)" "\<forall>p \<in> set ps. packet_ok (h_id h) w p" "4 \<le> length rest \<longrightarrow> rest ! 0 = 0" "room_for (length ps) w"
  shows "\<exists>h' w' as. mainloop x h ctx PTYPE_SOCKET 0 0 (Some (fst e)) SIZEOF_SOCKET_MESSAGE w =
      Some (0, h', w'\<lparr>w_heap := (w_heap w')(snd e := None)\<rparr>) \<and> receives h i w ps rest h' w' as \<and>
    snd e \<notin> recv_block h' i \<and> snd e \<notin> set as"
proof -
  obtain t bs where b: "w_heap w (fst e) = Some (Sock \<lparr>sm_type = SKYNET_SOCKET_TYPE_DATA, sm_id = fd, sm_ud = int (length c), sm_buffer = Some (snd e)\<rparr> t)"
    "w_heap w (snd e) = Some (Bytes bs)" "length c \<le> length bs" "take (length c) bs = c"
    using e(1) by (auto simp: data_event_def)
  obtain h' w' as where r: "data_loop x (int i) fd h c w = Some (h', w')" "receives h i w ps rest h' w' as"
    using data_loop_ok[OF rep n f] by blast
  note d = receivesD[OF r(2)]
  have "read_data x (Some (snd e)) (length c) w = Some c"
    using b(2-4) by (auto simp: read_data_def copy_data_def)
  moreover have "w_heap w' (snd e) = Some (Bytes bs)" using d(6)[of "snd e"] b(2) e(2) by simp
  ultimately have "mainloop x h ctx PTYPE_SOCKET 0 0 (Some (fst e)) SIZEOF_SOCKET_MESSAGE w =
      Some (0, h', w'\<lparr>w_heap := (w_heap w')(snd e := None)\<rparr>)"
    using b(1) i r(1) by (simp add: mainloop_def harbor_socket_def push_socket_data_def skynet_free_def)
  moreover have "snd e \<notin> recv_block h' i" "snd e \<notin> set as" using d(9,10) e(2) b(2) by auto
  ultimately show ?thesis using r(2) by blast
qed

lemma harbor_events_ok:
  assumes "slave_rep h i w L" "node_ok w qs" "heap_ok w" "harbor_id h fd = int i" "0 < i"
    "list_all2 (data_event w fd) es cs" "distinct (map snd es)" "\<forall>e \<in> set es. snd e \<notin> recv_block h i"
    "frames 4 (L @ concat cs) = (ps, rest)" "\<forall>p \<in> set ps. packet_ok (h_id h) w p" "4 \<le> length rest \<longrightarrow> rest ! 0 = 0"
    "room_for (length ps) w"
  shows "\<exists>h' w' as. harbor_events x ctx (map fst es) (h, w) = Some (h', w') \<and> slave_rep h' i w' rest \<and> (\<exists>qs. node_ok w' qs) \<and>
    mailbox w' = post (h_id h) ps as (mailbox w) \<and> list_all2 (\<lambda>a p. w_heap w' a = Some (Bytes p)) as ps \<and>
    (\<forall>b. w_heap w b \<noteq> None \<longrightarrow> b \<notin> recv_block h i \<union> snd ` set es \<longrightarrow> w_heap w' b = w_heap w b)"
  using assms
proof (induction es arbitrary: h w L qs cs ps)
  case Nil
  have "ps = []" "rest = L" using Nil.prems(6,9) slave_rep_unfinished[OF Nil.prems(1)] by auto
  then show ?case using Nil.prems(1,2) by auto
next
  case (Cons e es)
  obtain c cs' where c: "cs = c # cs'" "data_event w fd e c" "list_all2 (data_event w fd) es cs'"
    using Cons.prems(6) by (auto simp: list_all2_Cons1)
  define ps1 r1 where "ps1 = fst (frames 4 (L @ c))" and "r1 = snd (frames 4 (L @ c))"
  define ps2 where "ps2 = fst (frames 4 (r1 @ concat cs'))"
  have f1: "frames 4 (L @ c) = (ps1, r1)" by (simp add: ps1_def r1_def)
  have f2: "ps = ps1 @ ps2" "frames 4 (r1 @ concat cs') = (ps2, rest)"
    using frames_append[of 4 "L @ c" "concat cs'"] Cons.prems(9) by (auto simp: c(1) ps1_def r1_def ps2_def)
  have h1: "r1 ! 0 = 0" if "4 \<le> length r1"
  proof (cases "ps2")
    case Nil
    then have "rest = r1 @ concat cs'" using f2(2) frames_complete[of 4 "r1 @ concat cs'"] frames_incomplete[of 4 "r1 @ concat cs'"] by fastforce
    moreover have "r1 \<noteq> []" using that by auto
    ultimately show ?thesis using Cons.prems(11) that by (simp add: nth_append)
  next
    case (Cons p ps3)
    have cc: "complete 4 (r1 @ concat cs')" using f2(2) Cons frames_incomplete[of 4 "r1 @ concat cs'"] by fastforce
    have p: "p = take (be_value (take 4 r1)) (drop 4 (r1 @ concat cs'))"
      using f2(2) Cons frames_complete[OF _ cc] that by (simp add: prod_eq_iff)
    have "length p = be_value (take 4 r1)" using cc that by (simp add: p complete_def)
    moreover have "length p < 2 ^ 24" using Cons.prems(10) Cons f2(1) by (simp add: packet_ok_def)
    ultimately show ?thesis using header_first[of "take 4 r1"] that by simp
  qed
  have pk: "\<forall>p \<in> set ps1. packet_ok (h_id h) w p" and rm: "room_for (length ps1) w" and ne: "snd e \<notin> recv_block h i"
    using Cons.prems(8,10,12) f2(1) room_less[of "length ps1" "length ps2" w] by auto
  obtain h1 w1 as1 where s: "mainloop x h ctx PTYPE_SOCKET 0 0 (Some (fst e)) SIZEOF_SOCKET_MESSAGE w =
      Some (0, h1, w1\<lparr>w_heap := (w_heap w1)(snd e := None)\<rparr>)" "receives h i w ps1 r1 h1 w1 as1"
    "snd e \<notin> recv_block h1 i" "snd e \<notin> set as1"
    using data_event_ok[OF Cons.prems(1-5) c(2) ne f1 pk _ rm, of x ctx] h1 by blast
  define w2 where "w2 = w1\<lparr>w_heap := (w_heap w1)(snd e := None)\<rparr>"
  note d = receivesD[OF s(2)]
  obtain qs1 where n1: "node_ok w2 qs1" using d(2) by (auto simp: w2_def)
  have heap2: "w_heap w2 b = w_heap w b" if "w_heap w b \<noteq> None" "b \<notin> recv_block h i" "b \<noteq> snd e" for b
    using that d(6) by (simp add: w2_def)
  have ev: "w_heap w (fst e') \<noteq> None \<and> w_heap w (snd e') \<noteq> None \<and> fst e' \<noteq> snd e \<and> fst e' \<notin> recv_block h i \<and> snd e' \<noteq> snd e \<and> snd e' \<notin> recv_block h i"
    if mem: "e' \<in> set es" for e'
  proof -
    obtain c' where "data_event w fd e' c'" using c(3) mem by (auto simp: list_all2_conv_all_nth in_set_conv_nth)
    moreover have "snd e' \<noteq> snd e" using Cons.prems(7) mem by (metis distinct.simps(2) image_eqI list.set_map list.simps(9))
    ultimately show ?thesis
      using c(2) recv_block_bytes[OF Cons.prems(1)] Cons.prems(8) mem by (fastforce simp: data_event_def)
  qed
  have ev2: "list_all2 (data_event w2 fd) es cs'"
  proof (rule list.rel_mono_strong[OF c(3)])
    fix e' c' assume "e' \<in> set es" "data_event w fd e' c'"
    moreover from this have "w_heap w2 (fst e') = w_heap w (fst e')" "w_heap w2 (snd e') = w_heap w (snd e')" using ev heap2 by blast+
    ultimately show "data_event w2 fd e' c'" by (simp add: data_event_def)
  qed
  have out: "\<forall>e' \<in> set es. snd e' \<notin> recv_block h1 i" using ev d(9) by blast
  have mb2: "mailbox w2 = post (h_id h) ps1 as1 (mailbox w)" "w_harbor w2 = w_harbor w" using d(5,7) by (simp_all add: w2_def)
  have pk2: "\<forall>p \<in> set ps2. packet_ok (h_id h1) w2 p"
    using Cons.prems(10) f2(1) packet_ok_post[OF mb2] link_frameD(1)[OF d(3)] by simp
  have rm2: "room_for (length ps2) w2" using room_post[OF _ mb2(1), of "length ps2"] Cons.prems(12) f2(1) by simp
  have rep2: "slave_rep h1 i w2 r1" unfolding w2_def by (rule slave_rep_free[OF d(1) s(3)])
  have heap_ok2: "heap_ok w2" using d(4) by (simp add: heap_ok_def w2_def)
  obtain h' w' as2 where IH: "harbor_events x ctx (map fst es) (h1, w2) = Some (h', w')" "slave_rep h' i w' rest" "\<exists>qs. node_ok w' qs"
    "mailbox w' = post (h_id h1) ps2 as2 (mailbox w2)" "list_all2 (\<lambda>a p. w_heap w' a = Some (Bytes p)) as2 ps2"
    "\<forall>b. w_heap w2 b \<noteq> None \<longrightarrow> b \<notin> recv_block h1 i \<union> snd ` set es \<longrightarrow> w_heap w' b = w_heap w2 b"
    using Cons.IH[OF rep2 n1 heap_ok2 _ Cons.prems(5) ev2 _ out f2(2) pk2 Cons.prems(11) rm2]
      link_frameD(3)[OF d(3)] Cons.prems(4,7) by auto
  have "harbor_events x ctx (map fst (e # es)) (h, w) = Some (h', w')" using s(1) IH(1) by (simp add: w2_def)
  moreover have "length ps1 = length as1" using list_all2_lengthD[OF d(8)] by simp
  then have "mailbox w' = post (h_id h) ps (as1 @ as2) (mailbox w)"
    using IH(4) mb2(1) link_frameD(1)[OF d(3)] by (simp add: f2(1) post_append)
  moreover have "list_all2 (\<lambda>a p. w_heap w' a = Some (Bytes p)) (as1 @ as2) ps"
  proof -
    have "w_heap w' a = Some (Bytes p)" if "a \<in> set as1" "w_heap w1 a = Some (Bytes p)" "a \<notin> recv_block h1 i" for a p
    proof -
      have "a \<noteq> snd e" using s(4) that(1) by auto
      moreover have "a \<notin> snd ` set es" using d(10) that(1) ev by blast
      ultimately show ?thesis using IH(6) that(2,3) by (simp add: w2_def)
    qed
    then have "list_all2 (\<lambda>a p. w_heap w' a = Some (Bytes p)) as1 ps1"
      using d(8) by (auto simp: list_all2_conv_all_nth)
    then show ?thesis using IH(5) by (simp add: f2(1) list_all2_appendI)
  qed
  moreover have "w_heap w' b = w_heap w b" if "w_heap w b \<noteq> None" "b \<notin> recv_block h i \<union> snd ` set (e # es)" for b
  proof -
    have b: "w_heap w2 b = w_heap w b" using that heap2[of b] by auto
    have "b \<notin> recv_block h1 i" using that subsetD[OF d(9), of b] by auto
    then have "w_heap w' b = w_heap w2 b" using IH(6) b that by auto
    then show ?thesis using b by simp
  qed
  ultimately show ?case using IH(2,3) by blast
qed

section \<open>Sending\<close>

text \<open>A message for a service of another node, and the packet it becomes.\<close>

record outgoing =
  out_source :: u32
  out_dest :: u32
  out_type :: int
  out_session :: int
  out_data :: "u8 list"

definition out_header :: "outgoing \<Rightarrow> remote_message_header" where
  "out_header g = \<lparr>rh_source = out_source g,
     rh_destination = (out_dest g AND HANDLE_MASK) OR push_bit HANDLE_REMOTE_SHIFT (word_of_int (out_type g)),
     rh_session = word_of_int (out_session g)\<rparr>"

definition out_packet :: "outgoing \<Rightarrow> u8 list" where
  "out_packet g = out_data g @ header_to_message (out_header g)"

text \<open>The node \<open>j\<close> of the destination, and the limits of the fields.\<close>

definition sendable :: "nat \<Rightarrow> outgoing \<Rightarrow> bool" where
  "sendable j g \<longleftrightarrow> uint (drop_bit HANDLE_REMOTE_SHIFT (out_dest g)) = int j \<and> out_dest g \<noteq> 0 \<and> out_source g \<noteq> 0 \<and> 0 \<le> out_type g \<and> out_type g < 256 \<and>
     0 \<le> out_session g \<and> out_session g \<le> INT_MAX \<and> length (out_data g) + 12 < 2 ^ 24"

text \<open>The blocks of the message: the \<open>struct remote_message\<close> and the data.\<close>

definition out_event :: "world \<Rightarrow> addr \<times> addr \<Rightarrow> outgoing \<Rightarrow> bool" where
  "out_event w e g \<longleftrightarrow>
     (\<exists>n bs. w_heap w (fst e) = Some (Remote \<lparr>rm_destination = \<lparr>rn_name = n, rn_handle = out_dest g\<rparr>, rm_message = Some (snd e),
          rm_sz = of_nat (length (out_data g)), rm_type = out_type g\<rparr>) \<and>
        w_heap w (snd e) = Some (Bytes bs) \<and> length (out_data g) \<le> length bs \<and> take (length (out_data g)) bs = out_data g)"

definition harbor_sends :: "ext \<Rightarrow> addr \<Rightarrow> (addr \<times> outgoing) list \<Rightarrow> harbor \<times> world \<Rightarrow> (harbor \<times> world) option" where
  "harbor_sends x ctx = each (\<lambda>(m, g) (h, w).
     map_option snd (mainloop x h ctx PTYPE_SYSTEM (out_session g) (out_source g) (Some m) SIZEOF_REMOTE_MESSAGE w))"

lemma uint_drop_24:
  assumes "uint (drop_bit HANDLE_REMOTE_SHIFT (d :: u32)) = int j"
  shows "push_bit 24 (word_of_int (int j)) = push_bit 24 (drop_bit 24 d)"
  using assms by (metis HANDLE_REMOTE_SHIFT_def word_of_int_uint)

lemma packet_fields:
  assumes "sendable j g"
  shows "cookie_of (out_packet g) = out_header g" "target (int j) (out_packet g) = out_dest g"
    "arrival (out_packet g) a = message_of (out_source g) (out_session g) (out_type g) (Some a) (of_nat (length (out_data g)))"
proof -
  show c: "cookie_of (out_packet g) = out_header g"
    by (simp add: cookie_of_def out_packet_def header_roundtrip)
  let ?t = "word_of_int (out_type g) :: u32"
  have "take_bit 8 (out_type g) = out_type g" using assms by (simp add: sendable_def take_bit_int_eq_self)
  then have t: "bit (out_type g) n \<Longrightarrow> n < 8" for n by (metis bit_take_bit_iff)
  have "((out_dest g AND mask 24) OR push_bit 24 ?t) AND mask 24 = out_dest g AND mask 24"
    by (rule bit_eqI) (auto simp: bit_simps)
  moreover have "(out_dest g AND mask 24) OR push_bit 24 (drop_bit 24 (out_dest g)) = out_dest g"
    by (rule bit_eqI) (auto simp: bit_simps, metis le_add_diff_inverse not_le)
  ultimately show "target (int j) (out_packet g) = out_dest g"
    unfolding target_def c using uint_drop_24[of "out_dest g" j] assms by (simp add: out_header_def HANDLE_MASK_mask HANDLE_REMOTE_SHIFT_def sendable_def)
  have "drop_bit 24 ((out_dest g AND mask 24) OR push_bit 24 ?t) = ?t"
    by (rule bit_eqI) (auto simp: bit_simps dest: t)
  moreover have "uint ?t = out_type g" using assms by (simp add: sendable_def unsigned_of_int take_bit_int_eq_self)
  ultimately have "uint (drop_bit HANDLE_REMOTE_SHIFT (rh_destination (out_header g))) = out_type g"
    by (simp add: out_header_def HANDLE_MASK_mask HANDLE_REMOTE_SHIFT_def)
  moreover have "to_cint (word_of_int (out_session g)) = out_session g"
    using assms wrap_int_id[of "out_session g"] by (simp add: wrap_int_def sendable_def INT_MIN_def)
  ultimately show "arrival (out_packet g) a = message_of (out_source g) (out_session g) (out_type g) (Some a) (of_nat (length (out_data g)))"
    unfolding arrival_def c by (simp add: out_header_def out_packet_def)
qed

text \<open>The mailboxes after the messages arrived.\<close>

fun arrive :: "outgoing list \<Rightarrow> addr list \<Rightarrow> (u32 \<rightharpoonup> skynet_message list) \<Rightarrow> u32 \<rightharpoonup> skynet_message list" where
  "arrive (g # gs) (a # as) mb = arrive gs as (mb(out_dest g := map_option (\<lambda>ms. ms @
     [message_of (out_source g) (out_session g) (out_type g) (Some a) (of_nat (length (out_data g)))]) (mb (out_dest g))))"
| "arrive _ _ mb = mb"

lemma post_arrive:
  assumes "\<forall>g \<in> set gs. sendable j g"
  shows "post (int j) (map out_packet gs) as mb = arrive gs as mb"
  using assms
proof (induction gs as mb rule: arrive.induct)
  case (1 g gs a as mb)
  then have g: "sendable j g" by simp
  show ?case using 1 by (simp only: list.map post.simps arrive.simps packet_fields(2,3)[OF g]) (simp add: fun_upd_def)
qed simp_all

lemma sendable_packet:
  assumes "sendable j g" "local_dest (out_dest g) w" "mailbox w (out_dest g) \<noteq> None"
  shows "packet_ok (int j) w (out_packet g)"
proof -
  have "0 \<le> to_cint (word_of_int (out_session g))"
    using assms(1) wrap_int_id[of "out_session g"] by (simp add: wrap_int_def sendable_def INT_MIN_def)
  then show ?thesis
    using assms unfolding packet_ok_def packet_fields(1,2)[OF assms(1)] by (simp add: out_packet_def out_header_def sendable_def)
qed

lemma frames_sent:
  assumes "\<forall>g \<in> set gs. sendable j g"
  shows "frames 4 (concat (map (\<lambda>g. frame 4 (out_packet g)) gs)) = (map out_packet gs, [])"
proof -
  have "length (out_packet g) < 256 ^ 4" if "g \<in> set gs" for g
    using assms that by (auto simp: sendable_def out_packet_def)
  then have "frames 4 (concat (map (frame 4) (map out_packet gs)) @ []) = (map out_packet gs, [])"
    by (intro frames_frame) (auto simp: complete_def)
  then show ?thesis by (simp add: comp_def)
qed

text \<open>A message that is sent, and its data block freed; a step that does so for one message sends a list in order.\<close>

definition sent :: "int \<Rightarrow> addr \<times> addr \<Rightarrow> outgoing \<Rightarrow> world \<Rightarrow> world" where
  "sent fd e g w = w\<lparr>w_requests := w_requests w @ [Ss_send_raw fd (frame 4 (out_packet g))], w_heap := (w_heap w)(snd e := None)\<rparr>"

lemma each_map: "each f (map g xs) s = each (\<lambda>x. f (g x)) xs s"
  by (induction xs arbitrary: s) (auto split: bind_split)

lemma each_sent:
  assumes "\<And>e g w. out_event w e g \<Longrightarrow> sendable j g \<Longrightarrow> f (e, g) (wrap w) = Some (wrap (sent fd e g w))"
    "\<forall>g \<in> set gs. sendable j g" "list_all2 (out_event w) es gs" "distinct (map snd es)"
  shows "\<exists>w'. each f (zip es gs) (wrap w) = Some (wrap w') \<and>
    w_requests w' = w_requests w @ map (\<lambda>g. Ss_send_raw fd (frame 4 (out_packet g))) gs \<and>
    w_heap w' = w_heap w |` (- snd ` set es)"
  using assms(2-4)
proof (induction es arbitrary: gs w)
  case (Cons e es)
  obtain g gs' where g: "gs = g # gs'" "out_event w e g" "list_all2 (out_event w) es gs'"
    using Cons.prems(2) by (auto simp: list_all2_Cons1)
  have step: "f (e, g) (wrap w) = Some (wrap (sent fd e g w))" using assms(1) g(2) Cons.prems(1) g(1) by simp
  have "list_all2 (out_event (sent fd e g w)) es gs'"
  proof (rule list.rel_mono_strong[OF g(3)])
    fix e' g' assume e': "e' \<in> set es" "out_event w e' g'"
    have "snd e' \<noteq> snd e" using Cons.prems(3) e'(1) by (metis distinct.simps(2) image_eqI list.set_map list.simps(9))
    moreover have "fst e' \<noteq> snd e" using e'(2) g(2) by (auto simp: out_event_def)
    ultimately show "out_event (sent fd e g w) e' g'" using e'(2) by (simp add: out_event_def sent_def)
  qed
  then obtain w' where w': "each f (zip es gs') (wrap (sent fd e g w)) = Some (wrap w')"
    "w_requests w' = w_requests (sent fd e g w) @ map (\<lambda>g. Ss_send_raw fd (frame 4 (out_packet g))) gs'"
    "w_heap w' = w_heap (sent fd e g w) |` (- snd ` set es)"
    using Cons.IH[of gs' "sent fd e g w"] Cons.prems(1,3) g(1) by (auto simp del: fun_upd_apply)
  have "w_heap w' = w_heap w |` (- snd ` set (e # es))"
    unfolding w'(3) by (auto simp: restrict_map_def fun_eq_iff sent_def)
  then show ?case using step w'(1,2) by (auto simp: g(1) sent_def)
qed (auto simp: restrict_map_def)

lemma send_event:
  assumes "sendable j g" "out_event w e g"
  shows "send_remote x ctx fd (Some (snd e)) (of_nat (length (out_data g))) (out_header g) w =
      Some (w\<lparr>w_requests := w_requests w @ [Ss_send_raw fd (frame 4 (out_packet g))]\<rparr>)"
proof -
  obtain bs where e: "w_heap w (snd e) = Some (Bytes bs)" "length (out_data g) \<le> length bs" "take (length (out_data g)) bs = out_data g"
    using assms(2) by (auto simp: out_event_def)
  have u: "unat (of_nat (length (out_data g)) :: u64) = length (out_data g)"
    using assms(1) by (simp add: sendable_def unat_of_nat take_bit_nat_eq_self)
  have "read_data x (Some (snd e)) (unat (of_nat (length (out_data g)) :: u64)) w = Some (out_data g)"
    unfolding u using e by (auto simp: read_data_def copy_data_def)
  from send_remote_ok[OF this, of ctx fd "out_header g"] show ?thesis
    using assms(1) unfolding u by (simp add: remote_frame_def out_packet_def sendable_def)
qed

text \<open>The event is the call of \<open>remote_send_handle\<close>, after which the data block is freed if it was not passed on.\<close>

lemma mainloop_remote:
  assumes "sendable j g" "out_event w e g"
  shows "mainloop x h ctx PTYPE_SYSTEM (out_session g) (out_source g) (Some (fst e)) SIZEOF_REMOTE_MESSAGE w = do {
    (r, h, w) \<leftarrow> remote_send_handle x h (out_source g) (out_dest g) (out_type g) (out_session g) (Some (snd e)) (of_nat (length (out_data g))) w;
    w \<leftarrow> (if r \<noteq> 0 then Some w else skynet_free (Some (snd e)) w);
    Some (0, h, w) }"
proof -
  obtain n where "w_heap w (fst e) = Some (Remote \<lparr>rm_destination = \<lparr>rn_name = n, rn_handle = out_dest g\<rparr>, rm_message = Some (snd e),
      rm_sz = of_nat (length (out_data g)), rm_type = out_type g\<rparr>)"
    using assms(2) by (auto simp: out_event_def)
  then show ?thesis
    using assms(1)
    by (cases "remote_send_handle x h (out_source g) (out_dest g) (out_type g) (out_session g) (Some (snd e)) (of_nat (length (out_data g))) w")
       (auto simp: sendable_def mainloop_def harbor_remote_def PTYPE_SYSTEM_def PTYPE_SOCKET_def PTYPE_HARBOR_def)
qed

lemma send_connected:
  assumes s: "slave_at h (int j) = Some s" "sl_fd s \<noteq> 0" "sl_status s \<noteq> STATUS_HANDSHAKE" "h_id h \<noteq> int j"
    and g: "sendable j g" "out_event w e g"
  shows "mainloop x h ctx PTYPE_SYSTEM (out_session g) (out_source g) (Some (fst e)) SIZEOF_REMOTE_MESSAGE w =
    Some (0, h, sent (sl_fd s) e g w)"
proof -
  have "remote_send_handle x h (out_source g) (out_dest g) (out_type g) (out_session g) (Some (snd e)) (of_nat (length (out_data g))) w =
      Some (0, h, w\<lparr>w_requests := w_requests w @ [Ss_send_raw (sl_fd s) (frame 4 (out_packet g))]\<rparr>)"
    using send_event[OF g, of x "h_ctx h" "sl_fd s"] s g(1) by (simp add: remote_send_handle_def sendable_def out_header_def)
  then show ?thesis
    using g(2) by (auto simp: mainloop_remote[OF g] out_event_def skynet_free_def sent_def)
qed

lemma sends_connected:
  assumes "slave_at h (int j) = Some s" "sl_fd s \<noteq> 0" "sl_status s \<noteq> STATUS_HANDSHAKE" "h_id h \<noteq> int j"
    "\<forall>g \<in> set gs. sendable j g" "list_all2 (out_event w) es gs" "distinct (map snd es)"
  shows "\<exists>w'. harbor_sends x ctx (zip (map fst es) gs) (h, w) = Some (h, w') \<and>
    w_requests w' = w_requests w @ map (\<lambda>g. Ss_send_raw (sl_fd s) (frame 4 (out_packet g))) gs \<and>
    w_heap w' = w_heap w |` (- snd ` set es)"
  unfolding harbor_sends_def zip_map1 each_map
  using each_sent[where wrap = "Pair h" and fd = "sl_fd s", OF _ assms(5-7)] send_connected[OF assms(1-4)] by (simp add: split_beta)

section \<open>Waiting messages\<close>

definition waiting :: "slave \<Rightarrow> harbor_msg list \<Rightarrow> bool" where
  "waiting s ms \<longleftrightarrow> (case sl_queue s of None \<Rightarrow> ms = [] | Some q \<Rightarrow> hq_ok q \<and> hq_list q = ms)"

definition out_msg :: "addr \<times> addr \<Rightarrow> outgoing \<Rightarrow> harbor_msg" where
  "out_msg e g = \<lparr>hm_header = out_header g, hm_buffer = Some (snd e), hm_size = of_nat (length (out_data g))\<rparr>"

lemma send_waiting:
  assumes s: "slave_at h (int j) = Some s" "sl_fd s = 0" "sl_status s \<noteq> STATUS_DOWN" "h_id h \<noteq> int j"
    and g: "sendable j g" "out_event w e g" and m: "waiting s ms" "length ms < 2 ^ 30 - 1"
  shows "\<exists>q. mainloop x h ctx PTYPE_SYSTEM (out_session g) (out_source g) (Some (fst e)) SIZEOF_REMOTE_MESSAGE w =
    Some (0, slave_set (int j) (s\<lparr>sl_queue := Some q\<rparr>) h, w) \<and> waiting (s\<lparr>sl_queue := Some q\<rparr>) (ms @ [out_msg e g])"
proof -
  let ?q = "case sl_queue s of None \<Rightarrow> new_harbor_queue | Some q \<Rightarrow> q"
  have "hq_ok ?q" "hq_list ?q = ms"
    using m(1) new_harbor_queue_ok by (auto simp: waiting_def split: option.splits)
  then obtain q where q: "push_queue_msg ?q (out_msg e g) = Some q" "hq_ok q" "hq_list q = ms @ [out_msg e g]"
    using push_queue_ok[of ?q] m(2) by auto
  then have "remote_send_handle x h (out_source g) (out_dest g) (out_type g) (out_session g) (Some (snd e)) (of_nat (length (out_data g))) w =
      Some (1, slave_set (int j) (s\<lparr>sl_queue := Some q\<rparr>) h, w)"
    using s g(1) by (simp add: remote_send_handle_def sendable_def push_queue_def out_msg_def out_header_def)
  then show ?thesis using q(2,3) by (auto simp: mainloop_remote[OF g] waiting_def)
qed

lemma sends_waiting:
  assumes "slave_at h (int j) = Some s" "sl_fd s = 0" "sl_status s \<noteq> STATUS_DOWN" "h_id h \<noteq> int j"
    "\<forall>g \<in> set gs. sendable j g" "list_all2 (out_event w) es gs" "waiting s ms" "length ms + length gs < 2 ^ 30"
  shows "\<exists>s'. harbor_sends x ctx (zip (map fst es) gs) (h, w) = Some (slave_set (int j) s' h, w) \<and>
    s' = s\<lparr>sl_queue := sl_queue s'\<rparr> \<and> waiting s' (ms @ map2 out_msg es gs)"
  unfolding harbor_sends_def
  using assms
proof (induction es arbitrary: gs h s ms)
  case Nil
  then have "slave_set (int j) s h = h" by (auto simp: arr_get_eq_Some)
  then show ?case using Nil by (auto simp: intro!: exI[of _ s])
next
  case (Cons e es)
  obtain g gs' where g: "gs = g # gs'" "out_event w e g" "list_all2 (out_event w) es gs'"
    using Cons.prems(6) by (auto simp: list_all2_Cons1)
  obtain q where q: "mainloop x h ctx PTYPE_SYSTEM (out_session g) (out_source g) (Some (fst e)) SIZEOF_REMOTE_MESSAGE w =
      Some (0, slave_set (int j) (s\<lparr>sl_queue := Some q\<rparr>) h, w)" "waiting (s\<lparr>sl_queue := Some q\<rparr>) (ms @ [out_msg e g])"
    using send_waiting[OF Cons.prems(1-4) _ g(2) Cons.prems(7)] Cons.prems(5,8) g(1) by fastforce
  let ?h = "slave_set (int j) (s\<lparr>sl_queue := Some q\<rparr>) h"
  have "slave_at ?h (int j) = Some (s\<lparr>sl_queue := Some q\<rparr>)" using Cons.prems(1) by (auto simp: arr_get_eq_Some)
  then obtain s' where "each (\<lambda>(m, g) (h, w). map_option snd
      (mainloop x h ctx PTYPE_SYSTEM (out_session g) (out_source g) (Some m) SIZEOF_REMOTE_MESSAGE w)) (zip (map fst es) gs') (?h, w) =
      Some (slave_set (int j) s' ?h, w)" "s' = s\<lparr>sl_queue := sl_queue s'\<rparr>" "waiting s' ((ms @ [out_msg e g]) @ map2 out_msg es gs')"
    using Cons.IH[of ?h "s\<lparr>sl_queue := Some q\<rparr>" gs' "ms @ [out_msg e g]"] Cons.prems(2-5,8) q(2) g(1,3) by auto
  then show ?case using q(1) by (auto simp: g(1) intro!: exI[of _ s'])
qed

text \<open>When the connection is there, they are sent.\<close>

lemma dispatch_queue_ok:
  assumes s: "slave_at h (int j) = Some s" "sl_fd s \<noteq> 0" "waiting s (map2 out_msg es gs)"
    and g: "\<forall>g \<in> set gs. sendable j g" "list_all2 (out_event w) es gs" "distinct (map snd es)"
  shows "\<exists>w'. dispatch_queue x h (int j) w = Some (slave_set (int j) (s\<lparr>sl_queue := None\<rparr>) h, w') \<and>
    w_requests w' = w_requests w @ map (\<lambda>g. Ss_send_raw (sl_fd s) (frame 4 (out_packet g))) gs \<and>
    w_heap w' = w_heap w |` (- snd ` set es)"
proof (cases "sl_queue s")
  case None
  then have "es = []" "gs = []" using s(3) list_all2_lengthD[OF g(2)] by (auto simp: waiting_def)
  moreover have "s\<lparr>sl_queue := None\<rparr> = s" using None by (cases s) simp
  then have "slave_set (int j) (s\<lparr>sl_queue := None\<rparr>) h = h" using s(1) by (auto simp: arr_get_eq_Some)
  ultimately show ?thesis using None s(1,2) by (auto simp: dispatch_queue_def restrict_map_def)
next
  case (Some q)
  have q: "hq_ok q" "hq_list q = map2 out_msg es gs" using s(3) Some by (simp_all add: waiting_def)
  have "send_and_free x (h_ctx h) (sl_fd s) (out_msg e g) w = Some (sent (sl_fd s) e g w)" if "out_event w e g" "sendable j g" for e g w
    using send_event[OF that(2,1), of x "h_ctx h" "sl_fd s"] that(1)
    by (auto simp: send_and_free_def out_msg_def out_event_def skynet_free_def sent_def)
  then obtain w' where w': "each (send_and_free x (h_ctx h) (sl_fd s)) (hq_list q) w = Some w'"
    "w_requests w' = w_requests w @ map (\<lambda>g. Ss_send_raw (sl_fd s) (frame 4 (out_packet g))) gs" "w_heap w' = w_heap w |` (- snd ` set es)"
    unfolding q(2) each_map
    using each_sent[where f = "\<lambda>p. send_and_free x (h_ctx h) (sl_fd s) (case p of (e, g) \<Rightarrow> out_msg e g)" and wrap = id and fd = "sl_fd s", OF _ g]
    by auto
  obtain q' where "pop_each (send_and_free x (h_ctx h) (sl_fd s)) q w = Some (q', w')" "hq_ok q'" "hq_list q' = []"
    using pop_each_ok[OF q(1), of "send_and_free x (h_ctx h) (sl_fd s)" w] w'(1) by auto
  then show ?thesis using Some s(1,2) w'(2,3) by (simp add: dispatch_queue_def release_queue_empty)
qed

lemma recv_block_header: "slave_rep h i w [] \<Longrightarrow> recv_block h i = {}"
  by (auto simp: slave_rep_def recv_block_def body_rep_def Let_def)

lemma content_short:
  assumes "i < length (h_s h)" "body_rep (h_s h ! i) w a bs" "length bs < 12" "length bs \<le> nat (sl_read (h_s h ! i)) + length buf"
  shows "case_content x (int i) h buf w = None"
proof -
  have B: "sl_recv_buffer (h_s h ! i) = Some a" "w_heap w a = Some (Bytes bs)" "sl_length (h_s h ! i) = int (length bs)"
    "0 \<le> sl_read (h_s h ! i)" "sl_read (h_s h ! i) < int (length bs)"
    using assms(2) by (simp_all add: body_rep_def)
  define r where "r = nat (sl_read (h_s h ! i))"
  have r: "sl_read (h_s h ! i) = int r" "r < length bs" "length bs - r \<le> length buf" using B(4,5) assms(4) by (simp_all add: r_def nat_less_iff)
  have need: "nat (int (length bs) - int r) = length bs - r" "\<not> int (length buf) < int (length bs) - int r" using r(3) by simp_all
  have "forward_local_message x h (Some a) (int (length bs)) v = None" for v
    using assms(3) by (simp add: forward_local_message_def HEADER_COOKIE_LENGTH_def)
  then show ?thesis
    using assms(1) r(3) block_write_ok[OF B(2), of r "take (length bs - r) buf"] r(1,2)
    by (simp add: case_content_def Let_def need B(1,3))
qed

section \<open>Properties\<close>

text \<open>C5. Messages between nodes arrive: the messages that services of one node send to services of another over an
  established connection are written to the socket as packets, in order, their blocks are freed, and when the
  other node receives these bytes, cut into chunks in any way, each message is appended to the mailbox of its
  destination with its source, session, type and data, in order; nothing else is delivered.\<close>

theorem harbor_transfer:
  assumes "slave_at hA (int j) = Some s" "sl_fd s \<noteq> 0" "sl_status s \<noteq> STATUS_HANDSHAKE" "h_id hA \<noteq> int j"
    "\<forall>g \<in> set gs. sendable j g" "list_all2 (out_event wA) ms gs" "distinct (map snd ms)"
    "slave_rep hB i wB []" "node_ok wB qs" "heap_ok wB" "h_id hB = int j" "harbor_id hB fd = int i" "0 < i"
    "\<forall>g \<in> set gs. local_dest (out_dest g) wB \<and> mailbox wB (out_dest g) \<noteq> None" "room_for (length gs) wB"
    "list_all2 (data_event wB fd) es cs" "distinct (map snd es)" "concat cs = concat (map (\<lambda>g. frame 4 (out_packet g)) gs)"
  shows "\<exists>wA' hB' wB' as. harbor_sends x ctx (zip (map fst ms) gs) (hA, wA) = Some (hA, wA') \<and>
    w_requests wA' = w_requests wA @ map (\<lambda>g. Ss_send_raw (sl_fd s) (frame 4 (out_packet g))) gs \<and>
    w_heap wA' = w_heap wA |` (- snd ` set ms) \<and>
    harbor_events y ctx' (map fst es) (hB, wB) = Some (hB', wB') \<and> slave_rep hB' i wB' [] \<and> (\<exists>qs'. node_ok wB' qs') \<and>
    mailbox wB' = arrive gs as (mailbox wB) \<and> list_all2 (\<lambda>a g. w_heap wB' a = Some (Bytes (out_packet g))) as gs"
proof -
  have f: "frames 4 ([] @ concat cs) = (map out_packet gs, [])" using frames_sent[OF assms(5)] assms(18) by simp
  have p: "\<forall>p \<in> set (map out_packet gs). packet_ok (h_id hB) wB p"
    using assms(5,11,14) sendable_packet[of j _ wB] by auto
  have r: "\<forall>e \<in> set es. snd e \<notin> recv_block hB i" using recv_block_header[OF assms(8)] by simp
  have rm: "room_for (length (map out_packet gs)) wB" using assms(15) by simp
  obtain hB' wB' as where B: "harbor_events y ctx' (map fst es) (hB, wB) = Some (hB', wB')" "slave_rep hB' i wB' []" "\<exists>qs'. node_ok wB' qs'"
    "mailbox wB' = post (h_id hB) (map out_packet gs) as (mailbox wB)" "list_all2 (\<lambda>a p. w_heap wB' a = Some (Bytes p)) as (map out_packet gs)"
    using harbor_events_ok[OF assms(8-10,12,13,16,17) r f p _ rm, of y ctx'] by fastforce
  have "mailbox wB' = arrive gs as (mailbox wB)" using B(4) post_arrive[OF assms(5)] assms(11) by simp
  then show ?thesis
    using sends_connected[OF assms(1-7), of x ctx] B(1-3,5) by (auto simp: list_all2_map2)
qed

text \<open>C27. Messages for a node that is not connected wait and are sent, in order, once a connection is accepted
  (command \<open>A\<close>): behind the own id, the socket gets their packets and nothing else; the data blocks are kept until
  then and freed.\<close>

theorem harbor_waiting_sent:
  assumes "slave_at h (int j) = Some s" "sl_fd s = 0" "sl_status s \<noteq> STATUS_DOWN" "sl_queue s = None" "h_id h \<noteq> int j"
    "\<forall>g \<in> set gs. sendable j g" "list_all2 (out_event w) ms gs" "distinct (map snd ms)" "length gs < 2 ^ 30"
    "h_ctx h = Some ctx" "w_ctxs w ctx = Some cx" "scan_dd buf = (fd, int j)" "fd \<noteq> 0" "0 < j" "j < REMOTE_MAX"
  shows "\<exists>h1 h2 w2. harbor_sends x ctx (zip (map fst ms) gs) (h, w) = Some (h1, w) \<and>
    harbor_connect x h1 (CHR ''A'') buf w = Some (h2, w2) \<and>
    w_requests w2 = w_requests w @ [Ss_start (cx_handle cx) fd, Ss_send_raw fd [word_of_int (h_id h)]] @
      map (\<lambda>g. Ss_send_raw fd (frame 4 (out_packet g))) gs \<and>
    w_heap w2 = w_heap w |` (- snd ` set ms) \<and>
    slave_at h2 (int j) = Some (s\<lparr>sl_fd := fd, sl_status := STATUS_HEADER\<rparr>)"
proof -
  have "waiting s []" using assms(4) by (simp add: waiting_def)
  then obtain s1 where s1: "harbor_sends x ctx (zip (map fst ms) gs) (h, w) = Some (slave_set (int j) s1 h, w)"
    "s1 = s\<lparr>sl_queue := sl_queue s1\<rparr>" "waiting s1 (map2 out_msg ms gs)"
    using sends_waiting[OF assms(1-3,5-7), of "[]" x ctx] assms(9) by auto
  let ?h1 = "slave_set (int j) s1 h"
  define s2 where "s2 = s1\<lparr>sl_fd := fd, sl_status := STATUS_HEADER\<rparr>"
  define w1 where "w1 = w\<lparr>w_requests := w_requests w @ [Ss_start (cx_handle cx) fd, Ss_send_raw fd [word_of_int (h_id h)]]\<rparr>"
  have at: "slave_at (slave_set (int j) t h) (int j) = Some t" for t using assms(1) by (auto simp: arr_get_eq_Some)
  have "out_event w1 = out_event w" by (simp add: out_event_def w1_def fun_eq_iff)
  then have "list_all2 (out_event w1) ms gs" using assms(7) by simp
  then obtain w2 where w2: "dispatch_queue x (slave_set (int j) s2 h) (int j) w1 = Some (slave_set (int j) (s2\<lparr>sl_queue := None\<rparr>) (slave_set (int j) s2 h), w2)"
    "w_requests w2 = w_requests w1 @ map (\<lambda>g. Ss_send_raw fd (frame 4 (out_packet g))) gs" "w_heap w2 = w_heap w1 |` (- snd ` set ms)"
    using dispatch_queue_ok[OF at[of s2], of ms gs w1 x] assms(6,8,13) s1(3) by (auto simp: s2_def waiting_def)
  have "sl_fd s1 = 0" using s1(2) assms(2) by (cases s; cases s1; simp)
  then have "harbor_connect x ?h1 (CHR ''A'') buf w = Some (slave_set (int j) (s2\<lparr>sl_queue := None\<rparr>) (slave_set (int j) s2 h), w2)"
    using w2(1) at assms(10-15)
    by (simp add: harbor_connect_def socket_start_eq handshake_def sendbuffer_raw_def socket_call_def s2_def w1_def)
  moreover have "s2\<lparr>sl_queue := None\<rparr> = s\<lparr>sl_fd := fd, sl_status := STATUS_HEADER\<rparr>"
    using s1(2) assms(4) by (cases s; cases s1; simp add: s2_def)
  then have "slave_at (slave_set (int j) (s2\<lparr>sl_queue := None\<rparr>) (slave_set (int j) s2 h)) (int j) = Some (s\<lparr>sl_fd := fd, sl_status := STATUS_HEADER\<rparr>)"
    using at by simp
  ultimately show ?thesis using s1(1) w2(2,3) by (auto simp: w1_def)
qed

text \<open>C38. Messages for a global name lose their destination when the name is announced before the node it belongs to is connected:
  they are moved to the queue of the node with the header they had, which has no handle yet, and are
  addressed to number 0 of that node, which no service has.\<close>

theorem harbor_name_lost:
  assumes "hash_search (h_map h) name = Some p" "kv_queue (node_at (h_map h) p) = Some q"
    "\<forall>m \<in> set (hq_list q). rh_destination (hm_header m) AND HANDLE_MASK = 0"
    "fst p < length (h_map h)" "snd p < length (h_map h ! fst p)"
    "slave_at h (int j) = Some s" "sl_fd s = 0" "sl_status s \<noteq> STATUS_DOWN" "sl_queue s = None"
    "uint (drop_bit HANDLE_REMOTE_SHIFT handle) = int j" "uint (drop_bit HANDLE_REMOTE_SHIFT (h_slave h)) \<noteq> int j"
  shows "\<exists>h'. update_name x h name handle w = Some (h', w) \<and> slave_at h' (int j) = Some (s\<lparr>sl_queue := Some q\<rparr>) \<and>
    (\<forall>m \<in> set (hq_list q). \<forall>bs. target (int j) (bs @ header_to_message (hm_header m)) = push_bit HANDLE_REMOTE_SHIFT (word_of_int (int j)))"
proof -
  let ?node = "(node_at (h_map h) p)\<lparr>kv_value := handle\<rparr>"
  let ?h = "h\<lparr>h_map := node_set p ?node (h_map h)\<rparr>"
  have "dispatch_name_queue x ?h ?node w = Some (?node\<lparr>kv_queue := None\<rparr>, slave_set (int j) (s\<lparr>sl_queue := Some q\<rparr>) ?h, w)"
    using assms(2,6-11) by (simp add: dispatch_name_queue_def)
  then have "\<exists>h'. update_name x h name handle w = Some (h', w) \<and> slave_at h' (int j) = Some (s\<lparr>sl_queue := Some q\<rparr>)"
    using assms(1,2,6) by (auto simp: update_name_def node_of_def release_queue_def arr_get_eq_Some Let_def)
  moreover have "target (int j) (bs @ header_to_message (hm_header m)) = push_bit HANDLE_REMOTE_SHIFT (word_of_int (int j))"
    if "m \<in> set (hq_list q)" for m bs
    using assms(3) that by (simp add: target_def cookie_of_def header_roundtrip)
  ultimately show ?thesis by blast
qed


section \<open>Examples\<close>

text \<open>Two nodes for the examples: node 1, whose harbor is connected to node 2 by socket 9, and node 2, which has a service
  with number 1 and is connected to node 1 by socket 4.\<close>

definition demo_out :: outgoing where
  "demo_out = \<lparr>out_source = 0x1000007, out_dest = 0x2000001, out_type = 3, out_session = 5, out_data = [104, 105]\<rparr>"

definition demo_harbor1 :: harbor where
  "demo_harbor1 = harbor_create\<lparr>h_ctx := Some 0, h_id := 1, h_slave := 0x1000001,
     h_s := (replicate REMOTE_MAX slave_zero)[2 := slave_zero\<lparr>sl_fd := 9, sl_status := STATUS_HEADER\<rparr>]\<rparr>"

definition demo_node1 :: world where
  "demo_node1 = demo_node\<lparr>w_heap := [5 \<mapsto> Remote \<lparr>rm_destination = \<lparr>rn_name = [], rn_handle = 0x2000001\<rparr>, rm_message = Some 6,
     rm_sz = 2, rm_type = 3\<rparr>, 6 \<mapsto> Bytes [104, 105, 0]], w_heap_brk := 7\<rparr>"

definition demo_harbor2 :: harbor where
  "demo_harbor2 = harbor_create\<lparr>h_ctx := Some 0, h_id := 2, h_slave := 0x2000001,
     h_s := (replicate REMOTE_MAX slave_zero)[1 := slave_zero\<lparr>sl_fd := 4, sl_status := STATUS_HEADER\<rparr>]\<rparr>"

definition demo_event :: "addr \<Rightarrow> u8 list \<Rightarrow> blk" where
  "demo_event b c = Sock \<lparr>sm_type = SKYNET_SOCKET_TYPE_DATA, sm_id = 4, sm_ud = int (length c), sm_buffer = Some b\<rparr> []"

definition demo_node2 :: "u8 list \<Rightarrow> u8 list \<Rightarrow> world" where
  "demo_node2 c d = demo_node\<lparr>w_heap := [0 \<mapsto> demo_event 1 c, 1 \<mapsto> Bytes c, 2 \<mapsto> demo_event 3 d, 3 \<mapsto> Bytes d], w_heap_brk := 4,
     w_ctxs := [0 \<mapsto> demo_ctx\<lparr>cx_handle := 0x2000001\<rparr>], w_harbor := 0x2000000,
     w_handles := (w_handles demo_node)\<lparr>hs_harbor := 0x2000000\<rparr>\<rparr>"

lemma demo2_slots: "slots_ok (handle_of (demo_node2 c d)) (w_handles (demo_node2 c d))"
proof -
  have "\<forall>i<2 ^ 2. \<forall>c'. hs_slot (w_handles (demo_node2 c d)) ! i = Some c' \<longrightarrow> unat (handle_of (demo_node2 c d) c') mod 2 ^ 2 = i"
    by (simp add: all_less_four demo_node2_def demo_node_def handle_of_def demo_ctx_def)
  then show ?thesis
    unfolding slots_ok_def slot_live_def
    by (intro conjI exI[of _ 2])
       (simp_all add: demo_node2_def demo_node_def handle_of_def demo_ctx_def skynet_handle_init_def HANDLE_MASK_def
          HANDLE_REMOTE_SHIFT_def DEFAULT_SLOT_SIZE_def)
qed

lemma demo2_node_ok: "node_ok (demo_node2 c d) []"
proof -
  have "names_ok (w_handles (demo_node2 c d))"
    by (simp add: demo_node2_def demo_node_def names_ok_def hs_names_def skynet_handle_init_def MAX_SLOT_SIZE_def)
  moreover have "gq_rep (demo_node2 c d) []"
    by (simp add: gq_rep_def demo_node2_def demo_fields new_message_queue_def)
  moreover have "mq_release (new_message_queue 1) = 0" by (simp add: new_message_queue_def)
  moreover have "slot_live (w_handles (demo_node2 c d)) = {0}" by (auto simp: demo_node2_def demo_node_def slot_live_def)
  moreover have "w_ctxs (demo_node2 c d) = [0 \<mapsto> demo_ctx\<lparr>cx_handle := 0x2000001\<rparr>]"
    "mq_store (demo_node2 c d) = [0 \<mapsto> (new_message_queue 1)\<lparr>mq_in_global := 0\<rparr>]"
    by (simp_all add: demo_node2_def demo_fields)
  ultimately show ?thesis
    using demo2_slots mq_ok_new[of 1] by (auto simp: node_ok_def handle_ok_def demo_ctx_def split: if_splits)
qed

lemma demo2_mailbox: "mailbox (demo_node2 c d) h = (if h = 0x2000001 then Some [] else None)"
proof -
  have "handle_map (handle_of (demo_node2 c d)) (w_handles (demo_node2 c d)) h = (if h = 0x2000001 then Some 0 else None)"
    using handle_map_Some[OF demo2_slots, of c d h 0] handle_map_None[OF demo2_slots, of c d h]
    by (auto simp: slot_live_def demo_node2_def demo_node_def handle_of_def demo_ctx_def)
  then show ?thesis by (simp add: mailbox_def) (simp add: demo_node2_def demo_fields demo_ctx_def mq_list_new)
qed

lemma demo2_state:
  "heap_ok (demo_node2 c d)" "local_dest 0x2000001 (demo_node2 c d)" "room_for 1 (demo_node2 c d)"
  "slave_rep demo_harbor2 1 w []" "harbor_id demo_harbor2 4 = 1" "h_id demo_harbor2 = 2"
  "list_all2 (data_event (demo_node2 c d) 4) [(0, 1), (2, 3)] [c, d]"
proof -
  show "heap_ok (demo_node2 c d)" "local_dest 0x2000001 (demo_node2 c d)"
    by (simp_all add: heap_ok_def demo_node2_def skynet_harbor_message_isremote_def HANDLE_MASK_def)
  show "room_for 1 (demo_node2 c d)" by (simp add: room_for_def demo2_mailbox)
  show "slave_rep demo_harbor2 1 w []" "h_id demo_harbor2 = 2"
    by (simp_all add: slave_rep_def demo_harbor2_def slave_zero_def REMOTE_MAX_def)
  have "[1..<REMOTE_MAX] = 1 # [2..<REMOTE_MAX]" by (simp add: REMOTE_MAX_def upt_conv_Cons)
  then show "harbor_id demo_harbor2 4 = 1"
    by (simp add: harbor_id_def demo_harbor2_def REMOTE_MAX_def)
  show "list_all2 (data_event (demo_node2 c d) 4) [(0, 1), (2, 3)] [c, d]"
    by (simp add: data_event_def demo_node2_def demo_event_def)
qed

lemma demo_out_ok: "sendable 2 demo_out" "list_all2 (out_event demo_node1) [(5, 6)] [demo_out]"
  by (simp_all add: sendable_def demo_out_def HANDLE_REMOTE_SHIFT_def INT_MAX_def out_event_def demo_node1_def drop_bit_eq_div)

theorem harbor_transfer_witness:
  "\<exists>wA' hB' wB' a. harbor_sends demo_ext 0 [(5, demo_out)] (demo_harbor1, demo_node1) = Some (demo_harbor1, wA') \<and>
     w_requests wA' = [Ss_send_raw 9 (frame 4 (out_packet demo_out))] \<and>
     harbor_events demo_ext 0 [0, 2] (demo_harbor2,
       demo_node2 (take 3 (frame 4 (out_packet demo_out))) (drop 3 (frame 4 (out_packet demo_out)))) = Some (hB', wB') \<and>
     mailbox wB' 0x2000001 = Some [message_of 0x1000007 5 3 (Some a) 2] \<and> w_heap wB' a = Some (Bytes (out_packet demo_out))"
proof -
  let ?s = "slave_zero\<lparr>sl_fd := 9, sl_status := STATUS_HEADER\<rparr>"
  let ?c = "take 3 (frame 4 (out_packet demo_out))" and ?d = "drop 3 (frame 4 (out_packet demo_out))"
  have A: "slave_at demo_harbor1 (int 2) = Some ?s" "sl_fd ?s \<noteq> 0" "sl_status ?s \<noteq> STATUS_HANDSHAKE" "h_id demo_harbor1 \<noteq> int 2"
    by (simp_all add: demo_harbor1_def arr_get_eq_Some REMOTE_MAX_def STATUS_HEADER_def STATUS_HANDSHAKE_def)
  have d: "out_dest demo_out = 0x2000001" by (simp add: demo_out_def)
  obtain wA' hB' wB' as where r: "harbor_sends demo_ext 0 (zip (map fst [(5, 6)]) [demo_out]) (demo_harbor1, demo_node1) = Some (demo_harbor1, wA')"
    "w_requests wA' = w_requests demo_node1 @ map (\<lambda>g. Ss_send_raw (sl_fd ?s) (frame 4 (out_packet g))) [demo_out]"
    "harbor_events demo_ext 0 (map fst [(0, 1), (2, 3)]) (demo_harbor2, demo_node2 ?c ?d) = Some (hB', wB')"
    "mailbox wB' = arrive [demo_out] as (mailbox (demo_node2 ?c ?d))"
    "list_all2 (\<lambda>a g. w_heap wB' a = Some (Bytes (out_packet g))) as [demo_out]"
    using harbor_transfer[OF A, of "[demo_out]" demo_node1 "[(5, 6)]" demo_harbor2 1 "demo_node2 ?c ?d" "[]" 4 "[(0, 1), (2, 3)]" "[?c, ?d]"
        demo_ext 0 demo_ext 0] demo_out_ok demo2_state demo2_node_ok demo2_mailbox d by fastforce
  then obtain a where "as = [a]" "w_heap wB' a = Some (Bytes (out_packet demo_out))" by (auto simp: list_all2_Cons2)
  with r show ?thesis by (auto simp: demo_node1_def demo_node_def demo2_mailbox demo_out_def)
qed

theorem harbor_waiting_sent_witness:
  "\<exists>h1 h2 w2. harbor_sends demo_ext 0 [(5, demo_out)] (harbor_create\<lparr>h_ctx := Some 0, h_id := 1\<rparr>, demo_node1) = Some (h1, demo_node1) \<and>
     harbor_connect demo_ext h1 (CHR ''A'') ''9 2'' demo_node1 = Some (h2, w2) \<and>
     w_requests w2 = [Ss_start 1 9, Ss_send_raw 9 [1], Ss_send_raw 9 (frame 4 (out_packet demo_out))] \<and> w_heap w2 6 = None"
proof -
  let ?h = "harbor_create\<lparr>h_ctx := Some 0, h_id := 1\<rparr>"
  have h: "slave_at ?h (int 2) = Some slave_zero" "sl_fd slave_zero = 0" "sl_status slave_zero \<noteq> STATUS_DOWN" "sl_queue slave_zero = None"
    by (simp_all add: harbor_create_def arr_get_eq_Some REMOTE_MAX_def slave_zero_def STATUS_WAIT_def STATUS_DOWN_def)
  have "scan_dd ''9 2'' = (9, int 2)" by code_simp
  moreover have "w_ctxs demo_node1 0 = Some demo_ctx" "w_requests demo_node1 = []" "cx_handle demo_ctx = 1"
    by (simp_all add: demo_node1_def demo_node_def demo_ctx_def)
  ultimately show ?thesis
    using harbor_waiting_sent[OF h, of "[demo_out]" demo_node1 "[(5, 6)]" 0 demo_ctx "''9 2''" 9 demo_ext] demo_out_ok
    by (auto simp: REMOTE_MAX_def)
qed

text \<open>A name that is not bound, with one message waiting for it.\<close>

definition demo_named :: "harbor_msg_queue \<Rightarrow> harbor" where
  "demo_named q = (let name = copy_name ''lobby'' in
     harbor_create\<lparr>h_ctx := Some 0, h_id := 1, h_slave := 0x1000001,
       h_map := hash_new[name_bucket (name_hash name) := [\<lparr>kv_key = name, kv_hash = name_hash name, kv_value = 0, kv_queue = Some q\<rparr>]]\<rparr>)"

lemma bucket_less: "name_bucket h < HASH_SIZE"
  by (simp add: name_bucket_def HASH_SIZE_def)

theorem harbor_name_lost_witness:
  "\<exists>q h'. hq_list q = [out_msg (5, 6) (demo_out\<lparr>out_dest := 0\<rparr>)] \<and>
     update_name demo_ext (demo_named q) (copy_name ''lobby'') 0x2000001 demo_node1 = Some (h', demo_node1) \<and>
     slave_at h' 2 = Some (slave_zero\<lparr>sl_queue := Some q\<rparr>) \<and> target 2 (out_packet (demo_out\<lparr>out_dest := 0\<rparr>)) = 0x2000000"
proof -
  let ?m = "out_msg (5, 6) (demo_out\<lparr>out_dest := 0\<rparr>)"
  obtain q where q: "hq_ok q" "hq_list q = [?m]"
    using push_queue_ok[OF new_harbor_queue_ok(1), of ?m] new_harbor_queue_ok(2) by auto
  define p where "p = (name_bucket (name_hash (copy_name ''lobby'')), 0 :: nat)"
  have l: "fst p < length hash_new" using bucket_less by (simp add: p_def hash_new_def)
  have s: "hash_search (h_map (demo_named q)) (copy_name ''lobby'') = Some p"
    using l by (simp add: hash_search_def demo_named_def Let_def p_def strncmp_eq_def)
  have n: "kv_queue (node_at (h_map (demo_named q)) p) = Some q" "fst p < length (h_map (demo_named q))"
    "snd p < length (h_map (demo_named q) ! fst p)"
    using l by (simp_all add: node_at_def demo_named_def Let_def p_def)
  have sl: "slave_at (demo_named q) (int 2) = Some slave_zero" "sl_fd slave_zero = 0" "sl_status slave_zero \<noteq> STATUS_DOWN" "sl_queue slave_zero = None"
    by (simp_all add: demo_named_def Let_def harbor_create_def arr_get_eq_Some REMOTE_MAX_def slave_zero_def STATUS_WAIT_def STATUS_DOWN_def)
  have hd: "uint (drop_bit HANDLE_REMOTE_SHIFT (0x2000001 :: u32)) = int 2" "uint (drop_bit HANDLE_REMOTE_SHIFT (h_slave (demo_named q))) \<noteq> int 2"
    by (simp_all add: HANDLE_REMOTE_SHIFT_def demo_named_def Let_def drop_bit_eq_div)
  have "rh_destination (hm_header ?m) AND HANDLE_MASK = 0"
    by (simp add: out_msg_def out_header_def demo_out_def HANDLE_MASK_def HANDLE_REMOTE_SHIFT_def)
  then have "\<forall>m \<in> set (hq_list q). rh_destination (hm_header m) AND HANDLE_MASK = 0" using q(2) by simp
  then obtain h' where h': "update_name demo_ext (demo_named q) (copy_name ''lobby'') 0x2000001 demo_node1 = Some (h', demo_node1)"
    "slave_at h' (int 2) = Some (slave_zero\<lparr>sl_queue := Some q\<rparr>)"
    "\<forall>m \<in> set (hq_list q). \<forall>bs. target (int 2) (bs @ header_to_message (hm_header m)) = push_bit HANDLE_REMOTE_SHIFT (word_of_int (int 2))"
    using harbor_name_lost[OF s n(1) _ n(2,3) sl hd, of demo_ext demo_node1] by blast
  have "out_packet (demo_out\<lparr>out_dest := 0\<rparr>) = [104, 105] @ header_to_message (hm_header ?m)"
    by (simp add: out_packet_def out_msg_def demo_out_def)
  moreover have "target (int 2) ([104, 105] @ header_to_message (hm_header ?m)) = push_bit HANDLE_REMOTE_SHIFT (word_of_int (int 2))"
    using h'(3) q(2) by (metis list.set_intros(1))
  ultimately have "target 2 (out_packet (demo_out\<lparr>out_dest := 0\<rparr>)) = 0x2000000" by (simp add: HANDLE_REMOTE_SHIFT_def)
  then show ?thesis using q(2) h'(1,2) by auto
qed


end
