(* ===== verification/Cluster.thy ===== *)
theory Cluster
  imports Netpack Server
begin

text \<open>
  The packets of clusters, \<open>lualib-src/lua-cluster.c\<close>: requests to services of other nodes, and their responses, as
  strings in front of which their length stands. A message of 32 kB or more is sent in parts, which the receiver collects in a
  table. The Lua stack is replaced by arguments and results; the arguments have the types the library checks for. A
  pointer is a block of the message heap of the node. None is an undefined behaviour, \<open>Inl\<close> a Lua error.
\<close>

section \<open>Values\<close>

text \<open>What a function leaves on the Lua stack, and the address argument of a request.\<close>

datatype lret = RNil | RBool bool | RInt int | RStr "u8 list" | RPtr addr

datatype clu_addr = ANum int | AStr "u8 list" | AOther string

text \<open>A string comes with its terminating zero; a pointer with the size given in the next argument.\<close>

datatype lmsg = MStr "u8 list" | MPtr "addr option" int

type_synonym 'a lua = "((string + 'a) \<times> world) option"

definition mem_slice :: "u8 list \<Rightarrow> int \<Rightarrow> int \<Rightarrow> u8 list option" where
  "mem_slice buf off n =
     (if 0 \<le> off \<and> 0 \<le> n \<and> off + n \<le> int (length buf) then Some (take (nat n) (drop (nat off) buf)) else None)"

definition block_bytes :: "ext \<Rightarrow> addr option \<Rightarrow> world \<Rightarrow> u8 list option" where
  "block_bytes x p w = do { a \<leftarrow> p; b \<leftarrow> w_heap w a; Some (case b of Bytes bs \<Rightarrow> bs | _ \<Rightarrow> x_raw x b) }"

section \<open>Requests\<close>

text \<open>\<open>MULTI_PART\<close> is compared with sizes of 32 and of 64 bits.\<close>

definition TEMP_LENGTH :: nat where "TEMP_LENGTH = 0x8200"
definition MULTI_PART :: u32 where "MULTI_PART = 0x8000"
definition MULTI_SIZE :: u64 where "MULTI_SIZE = 0x8000"

definition fill_uint32 :: "u32 \<Rightarrow> u8 list" where
  "fill_uint32 n = map (\<lambda>k. ucast (drop_bit k n AND 0xff)) [0, 8, 16, 24]"

definition fill_header :: "int \<Rightarrow> u8 list option" where
  "fill_header sz = (if sz < 0x10000 then Some [word_of_int (drop_bit 8 sz AND 0xff), word_of_int (sz AND 0xff)] else None)"

text \<open>A string that is built in \<open>buf\<close> must fit there.\<close>

definition temp_string :: "u8 list \<Rightarrow> u8 list option" where
  "temp_string bs = (if length bs \<le> TEMP_LENGTH then Some bs else None)"

definition packreq_number ::
  "ext \<Rightarrow> int \<Rightarrow> int \<Rightarrow> addr option \<Rightarrow> u32 \<Rightarrow> bool \<Rightarrow> world \<Rightarrow> (int \<times> u8 list) option" where
  "packreq_number x adr session msg sz is_push w = do {
     let a = word_of_int adr;
     if sz < MULTI_PART then do {
       h \<leftarrow> fill_header (uint sz + 9);
       bs \<leftarrow> read_data x msg (unat sz) w;
       buf \<leftarrow> temp_string (h @ [0] @ fill_uint32 a @ fill_uint32 (if is_push then 0 else word_of_int session) @ bs);
       Some (0, buf) }
     else do {
       let part = (uint sz - 1) div uint MULTI_PART + 1;
       h \<leftarrow> fill_header 13;
       Some (part, h @ [if is_push then 0x41 else 1] @ fill_uint32 a @ fill_uint32 (word_of_int session) @ fill_uint32 sz) } }"

definition packreq_string ::
  "ext \<Rightarrow> clu_addr \<Rightarrow> int \<Rightarrow> addr option \<Rightarrow> u32 \<Rightarrow> bool \<Rightarrow> world \<Rightarrow> (int \<times> u8 list) lua" where
  "packreq_string x adr session msg sz is_push w =
     (case adr of
        AStr name \<Rightarrow>
          if length name < 1 \<or> length name > 255 then do {
            w \<leftarrow> skynet_free msg w;
            Some (Inl (''name is too long '' @ takeWhile (\<lambda>c. c \<noteq> CHR 0x00) (map (\<lambda>b. char_of (unat b)) name)), w) }
          else if sz < MULTI_PART then do {
            h \<leftarrow> fill_header (uint sz + 6 + int (length name));
            bs \<leftarrow> read_data x msg (unat sz) w;
            buf \<leftarrow> temp_string (h @ [0x80, of_nat (length name)] @ name @
              fill_uint32 (if is_push then 0 else word_of_int session) @ bs);
            Some (Inr (0, buf), w) }
          else do {
            let part = (uint sz - 1) div uint MULTI_PART + 1;
            h \<leftarrow> fill_header (10 + int (length name));
            Some (Inr (part, h @ [if is_push then 0xc1 else 0x81, of_nat (length name)] @ name @
              fill_uint32 (word_of_int session) @ fill_uint32 sz), w) }
      | ANum _ \<Rightarrow> None
      | AOther t \<Rightarrow> do {
          w \<leftarrow> skynet_free msg w;
          Some (Inl (''name is not a string, it's a '' @ t), w) })"

text \<open>The loop of \<open>packreq_multi\<close>: the strings of the parts, from the bytes at \<open>ptr\<close>.\<close>

fun multi_loop :: "nat \<Rightarrow> u32 \<Rightarrow> u32 \<Rightarrow> u8 list \<Rightarrow> u8 list list option" where
  "multi_loop 0 session sz ptr = Some []"
| "multi_loop (Suc n) session sz ptr = do {
     let s = (if sz > MULTI_PART then MULTI_PART else sz);
     let type = (if sz > MULTI_PART then 2 else 3);
     h \<leftarrow> fill_header (uint s + 5);
     bs \<leftarrow> mem_slice ptr 0 (uint s);
     buf \<leftarrow> temp_string (h @ [type] @ fill_uint32 session @ bs);
     bufs \<leftarrow> multi_loop n session (sz - s) (drop (unat s) ptr);
     Some (buf # bufs) }"

definition packreq_multi :: "ext \<Rightarrow> int \<Rightarrow> addr option \<Rightarrow> u32 \<Rightarrow> world \<Rightarrow> u8 list list option" where
  "packreq_multi x session msg sz w = do {
     let part = (uint (sz - 1)) div uint MULTI_PART + 1;
     bs \<leftarrow> block_bytes x msg w;
     multi_loop (nat part) (word_of_int session) sz bs }"

text \<open>The results are the request, the next session, and the parts of a large message.\<close>

definition packrequest ::
  "ext \<Rightarrow> clu_addr \<Rightarrow> int \<Rightarrow> addr option \<Rightarrow> int \<Rightarrow> bool \<Rightarrow> world \<Rightarrow> (u8 list \<times> int \<times> u8 list list option) lua" where
  "packrequest x adr session msg sz is_push w =
     (if msg = None then Some (Inl ''Invalid request message'', w)
      else do {
        let sz = word_of_int sz;
        let session = wrap_int session;
        if session \<le> 0 then do {
          w \<leftarrow> skynet_free msg w;
          Some (Inl (''Invalid request session '' @ fmt_d session), w) }
        else do {
          (r, w) \<leftarrow> (case adr of
              ANum n \<Rightarrow> do { r \<leftarrow> packreq_number x n session msg sz is_push w; Some (Inr r, w) }
            | _ \<Rightarrow> packreq_string x adr session msg sz is_push w);
          (case r of
             Inl e \<Rightarrow> Some (Inl e, w)
           | Inr (multipak, request) \<Rightarrow> do {
               let new_session = (let n = (word_of_int session :: u32) + 1 in if n > 0x7fffffff then 1 else n);
               if multipak \<noteq> 0 then do {
                 parts \<leftarrow> packreq_multi x session msg sz w;
                 w \<leftarrow> skynet_free msg w;
                 Some (Inr (request, uint new_session, Some parts), w) }
               else do {
                 w \<leftarrow> skynet_free msg w;
                 Some (Inr (request, uint new_session, None), w) } }) } })"

definition lpackrequest ::
  "ext \<Rightarrow> clu_addr \<Rightarrow> int \<Rightarrow> addr option \<Rightarrow> int \<Rightarrow> world \<Rightarrow> (u8 list \<times> int \<times> u8 list list option) lua" where
  "lpackrequest x adr session msg sz w = packrequest x adr session msg sz False w"

definition lpackpush ::
  "ext \<Rightarrow> clu_addr \<Rightarrow> int \<Rightarrow> addr option \<Rightarrow> int \<Rightarrow> world \<Rightarrow> (u8 list \<times> int \<times> u8 list list option) lua" where
  "lpackpush x adr session msg sz w = packrequest x adr session msg sz True w"

definition lpacktrace :: "u8 list \<Rightarrow> (string + u8 list) option" where
  "lpacktrace tag =
     (if length tag > 0x8000 then Some (Inl (''trace tag is too long : '' @ fmt_d (wrap_int (int (length tag)))))
      else do {
        h \<leftarrow> fill_header (int (length tag) + 1);
        buf \<leftarrow> temp_string (h @ [4] @ tag);
        Some (Inr buf) })"

definition unpack_uint32 :: "u8 list \<Rightarrow> u32" where
  "unpack_uint32 buf =
     ucast (buf ! 0) OR push_bit 8 (ucast (buf ! 1)) OR push_bit 16 (ucast (buf ! 2)) OR push_bit 24 (ucast (buf ! 3))"

definition uint32_at :: "u8 list \<Rightarrow> int \<Rightarrow> u32 option" where
  "uint32_at buf off = map_option unpack_uint32 (mem_slice buf off 4)"

definition return_buffer :: "u8 list \<Rightarrow> int \<Rightarrow> int \<Rightarrow> world \<Rightarrow> (lret list \<times> world) option" where
  "return_buffer buf off sz w = do {
     bs \<leftarrow> mem_slice buf off sz;
     let (ptr, w) = skynet_malloc (Bytes bs) w;
     Some ([RPtr ptr, RInt sz], w) }"

definition unpackreq_number :: "u8 list \<Rightarrow> int \<Rightarrow> world \<Rightarrow> lret list lua" where
  "unpackreq_number buf sz w =
     (if sz < 9 then Some (Inl (''Invalid cluster message (size='' @ fmt_d sz @ '')''), w)
      else do {
        address \<leftarrow> uint32_at buf 1;
        session \<leftarrow> uint32_at buf 5;
        (r, w) \<leftarrow> return_buffer buf 9 (sz - 9) w;
        Some (Inr ([RInt (uint address), RInt (uint session)] @ r @ (if session = 0 then [RNil, RBool True] else [])), w) })"

definition unpackmreq_number :: "u8 list \<Rightarrow> int \<Rightarrow> bool \<Rightarrow> world \<Rightarrow> lret list lua" where
  "unpackmreq_number buf sz is_push w =
     (if sz \<noteq> 13 then Some (Inl (''Invalid cluster message size '' @ fmt_d sz @ '' (multi req must be 13)''), w)
      else do {
        address \<leftarrow> uint32_at buf 1;
        session \<leftarrow> uint32_at buf 5;
        size \<leftarrow> uint32_at buf 9;
        Some (Inr [RInt (uint address), RInt (uint session), RNil, RInt (uint size), RBool True, RBool is_push], w) })"

definition unpackmreq_part :: "u8 list \<Rightarrow> int \<Rightarrow> world \<Rightarrow> lret list lua" where
  "unpackmreq_part buf sz w =
     (if sz < 5 then Some (Inl ''Invalid cluster multi part message'', w)
      else do {
        b \<leftarrow> arr_get buf 0;
        session \<leftarrow> uint32_at buf 1;
        (r, w) \<leftarrow> return_buffer buf 5 (sz - 5) w;
        Some (Inr ([RBool False, RInt (uint session)] @ r @ [RBool (b = 2)]), w) })"

definition unpacktrace :: "u8 list \<Rightarrow> int \<Rightarrow> lret list option" where
  "unpacktrace buf sz = do { tag \<leftarrow> mem_slice buf 1 (sz - 1); Some [RStr tag] }"

definition unpackreq_string :: "u8 list \<Rightarrow> int \<Rightarrow> world \<Rightarrow> lret list lua" where
  "unpackreq_string buf sz w =
     (if sz < 2 then Some (Inl (''Invalid cluster message (size='' @ fmt_d sz @ '')''), w)
      else do {
        namesz \<leftarrow> map_option uint (arr_get buf 1);
        if sz < namesz + 6 then Some (Inl (''Invalid cluster message (size='' @ fmt_d sz @ '')''), w)
        else do {
          name \<leftarrow> mem_slice buf 2 namesz;
          session \<leftarrow> uint32_at buf (namesz + 2);
          (r, w) \<leftarrow> return_buffer buf (2 + namesz + 4) (sz - namesz - 6) w;
          Some (Inr ([RStr name, RInt (uint session)] @ r @ (if session = 0 then [RNil, RBool True] else [])), w) } })"

definition unpackmreq_string :: "u8 list \<Rightarrow> int \<Rightarrow> bool \<Rightarrow> world \<Rightarrow> lret list lua" where
  "unpackmreq_string buf sz is_push w =
     (if sz < 2 then Some (Inl (''Invalid cluster message (size='' @ fmt_d sz @ '')''), w)
      else do {
        namesz \<leftarrow> map_option uint (arr_get buf 1);
        if sz < namesz + 10 then Some (Inl (''Invalid cluster message (size='' @ fmt_d sz @ '')''), w)
        else do {
          name \<leftarrow> mem_slice buf 2 namesz;
          session \<leftarrow> uint32_at buf (namesz + 2);
          size \<leftarrow> uint32_at buf (namesz + 6);
          Some (Inr [RStr name, RInt (uint session), RNil, RInt (uint size), RBool True, RBool is_push], w) } })"

definition lunpackrequest :: "ext \<Rightarrow> lmsg \<Rightarrow> world \<Rightarrow> lret list lua" where
  "lunpackrequest x msg w = do {
     let sz = (case msg of MPtr p sz \<Rightarrow> wrap_int sz | MStr bs \<Rightarrow> wrap_int (int (length bs)));
     if sz = 0 then Some (Inl ''Invalid req package. size == 0'', w)
     else do {
       buf \<leftarrow> (case msg of MPtr p sz \<Rightarrow> block_bytes x p w | MStr bs \<Rightarrow> Some (bs @ [0]));
       t \<leftarrow> arr_get buf 0;
       if t = 0 then unpackreq_number buf sz w
       else if t = 1 then unpackmreq_number buf sz False w
       else if t = 0x41 then unpackmreq_number buf sz True w
       else if t = 2 \<or> t = 3 then unpackmreq_part buf sz w
       else if t = 4 then do { r \<leftarrow> unpacktrace buf sz; Some (Inr r, w) }
       else if t = 0x80 then unpackreq_string buf sz w
       else if t = 0x81 then unpackmreq_string buf sz False w
       else if t = 0xc1 then unpackmreq_string buf sz True w
       else Some (Inl (''Invalid req package type '' @ fmt_d (sint t)), w) } }"

section \<open>Responses\<close>

datatype packed = Single "u8 list" | Multi "u8 list list"

text \<open>The loop that cuts a large response, with the size in \<open>size_t\<close>.\<close>

fun response_loop :: "nat \<Rightarrow> u32 \<Rightarrow> u64 \<Rightarrow> u8 list \<Rightarrow> u8 list list option" where
  "response_loop 0 session sz ptr = Some []"
| "response_loop (Suc n) session sz ptr = do {
     let s = (if sz > MULTI_SIZE then MULTI_SIZE else sz);
     let type = (if sz > MULTI_SIZE then 3 else 4);
     h \<leftarrow> fill_header (uint s + 5);
     bs \<leftarrow> mem_slice ptr 0 (uint s);
     buf \<leftarrow> temp_string (h @ fill_uint32 session @ [type] @ bs);
     bufs \<leftarrow> response_loop n session (sz - s) (drop (unat s) ptr);
     Some (buf # bufs) }"

definition lpackresponse :: "ext \<Rightarrow> int \<Rightarrow> bool \<Rightarrow> lmsg \<Rightarrow> world \<Rightarrow> packed option" where
  "lpackresponse x session ok msg w = do {
     let session = word_of_int session;
     let (mem, sz) = (case msg of
         MStr bs \<Rightarrow> (Some (bs @ [0]), of_nat (length bs))
       | MPtr p sz \<Rightarrow> (block_bytes x p w, word_of_int sz :: u64));
     if ok \<and> sz > MULTI_SIZE then do {
       let part = wrap_int (uint (sz - 1) div uint MULTI_PART + 1);
       h \<leftarrow> fill_header 9;
       ptr \<leftarrow> mem;
       parts \<leftarrow> response_loop (nat part) session sz ptr;
       Some (Multi ((h @ fill_uint32 session @ [2] @ fill_uint32 (ucast sz)) # parts)) }
     else do {
       let sz = (if \<not> ok \<and> sz > MULTI_SIZE then MULTI_SIZE else sz);
       h \<leftarrow> fill_header (uint sz + 5);
       bs \<leftarrow> (if sz = 0 then Some [] else do { ptr \<leftarrow> mem; mem_slice ptr 0 (uint sz) });
       buf \<leftarrow> temp_string (h @ fill_uint32 session @ [if ok then 1 else 0] @ bs);
       Some (Single buf) } }"

definition lunpackresponse :: "u8 list \<Rightarrow> lret list" where
  "lunpackresponse buf =
     (if length buf < 5 then []
      else
        let session = unpack_uint32 (take 4 buf); t = buf ! 4
        in if t = 0 then [RInt (uint session), RBool False, RStr (drop 5 buf)]
           else if t = 1 \<or> t = 4 then [RInt (uint session), RBool True, RStr (drop 5 buf)]
           else if t = 2 then
             if length buf \<noteq> 9 then []
             else [RInt (uint session), RBool True, RInt (uint (unpack_uint32 (drop 5 buf))), RBool True]
           else if t = 3 then [RInt (uint session), RBool True, RStr (drop 5 buf), RBool True]
           else [])"

section \<open>Large messages\<close>

text \<open>The second and third argument of \<open>append\<close>: \<open>nil\<close> and a size, a pointer and a size, or something that is not a pointer. The
  table is the list of its values from 1 on.\<close>

datatype piece = Size int | Chunk addr int | NoPtr

definition lappend :: "ext \<Rightarrow> lret list \<Rightarrow> piece \<Rightarrow> world \<Rightarrow> lret list lua" where
  "lappend x t p w =
     (case p of
        Size n \<Rightarrow> Some (Inr (t @ [RInt n]), w)
      | NoPtr \<Rightarrow> Some (Inl ''Need lightuserdata'', w)
      | Chunk a sz \<Rightarrow> do {
          let sz = wrap_int sz;
          mem \<leftarrow> block_bytes x (Some a) w;
          bs \<leftarrow> mem_slice mem 0 sz;
          w \<leftarrow> skynet_free (Some a) w;
          Some (Inr (t @ [RStr bs]), w) })"

text \<open>The loop of \<open>concat\<close>: the strings up to the first value that is not one. The result is None when they do not fit.\<close>

fun concat_loop :: "lret list \<Rightarrow> int \<Rightarrow> u8 list \<Rightarrow> u8 list option" where
  "concat_loop (RStr s # t) sz buff = (if int (length s) + int (length buff) > sz then None else concat_loop t sz (buff @ s))"
| "concat_loop t sz buff = Some buff"

text \<open>\<open>skynet_malloc\<close> of a negative size is a request for almost all of the address space, which ends the process. The block is
  freed again when the strings do not fill it.\<close>

definition lconcat :: "lret list option \<Rightarrow> world \<Rightarrow> (lret list \<times> world) option" where
  "lconcat t w =
     (case t of
        Some (RInt n # t) \<Rightarrow>
          let sz = wrap_int n
          in if sz < 0 then None
             else do {
               let (a, w) = skynet_malloc (Bytes (replicate (nat sz) 0)) w;
               (case concat_loop t sz [] of
                  Some buff \<Rightarrow>
                    if int (length buff) \<noteq> sz then do { w \<leftarrow> skynet_free (Some a) w; Some ([], w) }
                    else Some ([RPtr a, RInt sz], w\<lparr>w_heap := (w_heap w)(a \<mapsto> Bytes buff)\<rparr>)
                | None \<Rightarrow> do { w \<leftarrow> skynet_free (Some a) w; Some ([], w) }) }
      | _ \<Rightarrow> Some ([], w))"

section \<open>Names\<close>

definition lisname :: "string option \<Rightarrow> bool" where
  "lisname name = (case name of Some (c # _) \<Rightarrow> c = CHR ''@'' | _ \<Rightarrow> False)"

text \<open>\<open>gethostname\<close> gives a name, or nothing when it fails; characters from 128 on are negative.\<close>

definition lnodename :: "string option \<Rightarrow> int \<Rightarrow> string" where
  "lnodename hostname pid =
     (case hostname of
        Some name \<Rightarrow> map (\<lambda>c. if sint (of_char c :: u8) \<le> 32 then CHR ''_'' else c) name @ fmt_d pid
      | None \<Rightarrow> ''noname'' @ fmt_d pid)"

end
