(* ===== verification/ClusterLink.thy ===== *)
theory ClusterLink
  imports Cluster
begin

text \<open>
  Requests and responses between nodes, on the model of \<open>lua-cluster.c\<close> in \<open>Cluster\<close>. A request is specified by its
  packets (\<open>cluster_packets\<close>); \<open>packrequest\<close> makes them (\<open>packrequest_ok\<close>), and the receiver, which collects parts
  under the session of their request, is shown to keep for each session what has come (\<open>progress\<close>) and to deliver
  each request once, for any interleaving of the packets of different requests.
\<close>

section \<open>The receiver of requests\<close>

text \<open>What \<open>service/clusteragent.lua\<close> does with the results of \<open>unpackrequest\<close> before it calls a service: it collects
  the parts of a large request under its session. A value that a function does not return is \<open>nil\<close>.\<close>

record large_request =
  lr_addr :: lret
  lr_push :: bool
  lr_parts :: "lret list"

datatype outcome = Trace lret | Waiting | Request lret lret addr int bool | Invalid lret | Failed string

type_synonym agent = "(lret \<rightharpoonup> large_request) \<times> world"

definition ret_arg :: "lret list \<Rightarrow> nat \<Rightarrow> lret" where
  "ret_arg r i = (if i < length r then r ! i else RNil)"

definition truthy :: "lret \<Rightarrow> bool" where
  "truthy v \<longleftrightarrow> v \<noteq> RNil \<and> v \<noteq> RBool False"

definition piece_of :: "lret \<Rightarrow> lret \<Rightarrow> piece" where
  "piece_of msg sz =
     (case (msg, sz) of (RNil, RInt n) \<Rightarrow> Size n | (RPtr a, RInt n) \<Rightarrow> Chunk a n | _ \<Rightarrow> NoPtr)"

definition received :: "lret \<Rightarrow> lret \<Rightarrow> lret list \<Rightarrow> bool \<Rightarrow> outcome" where
  "received address session r push =
     (case r of [RPtr a, RInt sz] \<Rightarrow> Request address session a sz push | _ \<Rightarrow> Invalid session)"

definition gather :: "ext \<Rightarrow> lret list \<Rightarrow> agent \<Rightarrow> (outcome \<times> agent) option" where
  "gather x r st = do {
     let (large, w) = st;
     let address = ret_arg r 0;
     let session = ret_arg r 1;
     let msg = ret_arg r 2;
     let sz = ret_arg r 3;
     let padding = truthy (ret_arg r 4);
     let is_push = truthy (ret_arg r 5);
     if session = RNil then Some (Trace address, large, w)
     else if padding then do {
       let req = (case large session of Some req \<Rightarrow> req | None \<Rightarrow> \<lparr>lr_addr = address, lr_push = is_push, lr_parts = []\<rparr>);
       (t, w) \<leftarrow> lappend x (lr_parts req) (piece_of msg sz) w;
       (case t of
          Inl e \<Rightarrow> Some (Failed e, large(session \<mapsto> req), w)
        | Inr t \<Rightarrow> Some (Waiting, large(session \<mapsto> req\<lparr>lr_parts := t\<rparr>), w)) }
     else
       (case large session of
          None \<Rightarrow> Some (received address session [msg, sz] is_push, large, w)
        | Some req \<Rightarrow> do {
            (t, w) \<leftarrow> lappend x (lr_parts req) (piece_of msg sz) w;
            (case t of
               Inl e \<Rightarrow> Some (Failed e, large(session := None), w)
             | Inr t \<Rightarrow> do {
                 (r, w) \<leftarrow> lconcat (Some t) w;
                 Some (received (lr_addr req) session r (lr_push req), large(session := None), w) }) }) }"

text \<open>One packet, as the gate delivers it.\<close>

definition agent_step :: "ext \<Rightarrow> u8 list \<Rightarrow> agent \<Rightarrow> (outcome \<times> agent) option" where
  "agent_step x p st = do {
     (r, w) \<leftarrow> lunpackrequest x (MStr p) (snd st);
     (case r of Inl e \<Rightarrow> Some (Failed e, fst st, w) | Inr r \<Rightarrow> gather x r (fst st, w)) }"

fun agent_run :: "ext \<Rightarrow> u8 list list \<Rightarrow> agent \<Rightarrow> (outcome list \<times> agent) option" where
  "agent_run x [] st = Some ([], st)"
| "agent_run x (p # ps) st = do { (r, st) \<leftarrow> agent_step x p st; (rs, st) \<leftarrow> agent_run x ps st; Some (r # rs, st) }"

section \<open>The packets of a request\<close>

lemma low_byte: "(word_of_int (int n AND 255) :: u8) = of_nat n"
proof -
  have "int n AND 255 = take_bit 8 (int n)" by (simp add: take_bit_eq_mask mask_eq_exp_minus_1)
  then show ?thesis by (simp add: bit_eq_iff bit_simps)
qed

lemma fill_header_eq: "n < 65536 \<Longrightarrow> fill_header (int n) = Some (be_bytes 2 n)"
proof -
  have "(drop_bit 8 (int n)) = int (n div 256)" by (simp add: drop_bit_eq_div zdiv_int)
  then show "n < 65536 \<Longrightarrow> fill_header (int n) = Some (be_bytes 2 n)"
    by (simp add: fill_header_def low_byte be_bytes_2_eq del: of_nat_numeral)
qed

lemma length_fill [simp]: "length (fill_uint32 n) = 4"
  by (simp add: fill_uint32_def)

lemma unpack_fill [simp]: "unpack_uint32 (fill_uint32 n) = n"
proof -
  have m: "(0xff :: u32) = mask 8" by (simp add: mask_eq_exp_minus_1)
  show ?thesis
  proof (rule bit_word_eqI)
    fix k :: nat
    assume "k < LENGTH(32)"
    then consider "k < 8" | "8 \<le> k" "k < 16" | "16 \<le> k" "k < 24" | "24 \<le> k" "k < 32" by fastforce
    then show "bit (unpack_uint32 (fill_uint32 n)) k = bit n k"
      by cases (auto simp: unpack_uint32_def fill_uint32_def bit_simps m)
  qed
qed

text \<open>A request as the sender gives it, and the contents of its packets, as the comment in front of \<open>packreq_number\<close>
  lists them.\<close>

record cluster_request =
  cq_addr :: clu_addr
  cq_session :: int
  cq_push :: bool
  cq_data :: "u8 list"

definition cq_ok :: "cluster_request \<Rightarrow> bool" where
  "cq_ok q \<longleftrightarrow> 0 < cq_session q \<and> cq_session q < 2 ^ 31 \<and> length (cq_data q) < 2 ^ 31 \<and>
     (case cq_addr q of
        ANum n \<Rightarrow> 0 \<le> n \<and> n < 2 ^ 32
      | AStr s \<Rightarrow> 1 \<le> length s \<and> length s \<le> 255
      | AOther _ \<Rightarrow> False)"

definition cq_large :: "cluster_request \<Rightarrow> bool" where
  "cq_large q \<longleftrightarrow> 0x8000 \<le> length (cq_data q)"

text \<open>A small push has session 0 on the wire.\<close>

definition wire_session :: "cluster_request \<Rightarrow> int" where
  "wire_session q = (if cq_push q \<and> \<not> cq_large q then 0 else cq_session q)"

definition addr_packet :: "clu_addr \<Rightarrow> u8 list" where
  "addr_packet a = (case a of ANum n \<Rightarrow> fill_uint32 (word_of_int n) | AStr s \<Rightarrow> of_nat (length s) # s | AOther _ \<Rightarrow> [])"

definition head_type :: "cluster_request \<Rightarrow> u8" where
  "head_type q = (case cq_addr q of AStr _ \<Rightarrow> 0x80 | _ \<Rightarrow> 0) + (if \<not> cq_large q then 0 else if cq_push q then 0x41 else 1)"

definition head_packet :: "cluster_request \<Rightarrow> u8 list" where
  "head_packet q = [head_type q] @ addr_packet (cq_addr q) @ fill_uint32 (word_of_int (wire_session q)) @
     (if cq_large q then fill_uint32 (of_nat (length (cq_data q))) else cq_data q)"

function part_packets :: "int \<Rightarrow> u8 list \<Rightarrow> u8 list list" where
  "part_packets session bs =
     (if length bs \<le> 0x8000 then [[3] @ fill_uint32 (word_of_int session) @ bs]
      else ([2] @ fill_uint32 (word_of_int session) @ take 0x8000 bs) # part_packets session (drop 0x8000 bs))"
  by pat_completeness auto
termination
  by (relation "measure (\<lambda>(s, bs). length bs)") auto

declare part_packets.simps [simp del]

definition cluster_packets :: "cluster_request \<Rightarrow> u8 list list" where
  "cluster_packets q = head_packet q # (if cq_large q then part_packets (cq_session q) (cq_data q) else [])"

lemma length_part: "p \<in> set (part_packets s bs) \<Longrightarrow> length p \<le> 32773"
proof (induction s bs rule: part_packets.induct)
  case (1 s bs)
  then show ?case by (subst (asm) (2) part_packets.simps) (auto split: if_splits)
qed

lemma length_head: "cq_ok q \<Longrightarrow> length (head_packet q) < 33100"
  by (auto simp: head_packet_def cq_ok_def cq_large_def addr_packet_def split: clu_addr.splits)

lemma packets_length: "cq_ok q \<Longrightarrow> p \<in> set (cluster_packets q) \<Longrightarrow> length p < 65536"
  using length_head[of q] length_part[of p "cq_session q" "cq_data q"] by (auto simp: cluster_packets_def split: if_splits)

lemma mem_slice_take: "n \<le> length buf \<Longrightarrow> mem_slice buf 0 (int n) = Some (take n buf)"
  by (simp add: mem_slice_def)

lemma temp_ok: "length bs \<le> 33280 \<Longrightarrow> temp_string bs = Some bs"
  by (simp add: temp_string_def TEMP_LENGTH_def)

lemma multi_loop_ok:
  assumes "length bs < 2 ^ 32" "0 < length bs" "n = (length bs - 1) div 32768 + 1"
  shows "multi_loop n (word_of_int s) (of_nat (length bs)) (bs @ ex) = Some (map (frame 2) (part_packets s bs))"
  using assms
proof (induction s bs arbitrary: n rule: part_packets.induct)
  case (1 s bs)
  have u: "unat (of_nat (length bs) :: u32) = length bs" "uint (of_nat (length bs) :: u32) = int (length bs)"
    using "1.prems"(1) by (simp_all add: unat_of_nat uint_nat)
  have gt: "(of_nat (length bs) > MULTI_PART) = (32768 < length bs)"
    using u by (simp add: MULTI_PART_def word_less_nat_alt)
  show ?case
  proof (cases "length bs \<le> 32768")
    case True
    then have n: "n = Suc 0" using "1.prems" by (auto simp: div_eq_0_iff)
    have "fill_header (int (length bs) + 5) = Some (be_bytes 2 (length bs + 5))"
      using fill_header_eq[of "length bs + 5"] True by simp
    then show ?thesis
      using True gt u mem_slice_take[of "length bs" "bs @ ex"] unfolding n
      by (subst part_packets.simps) (simp add: temp_ok frame_def add.commute)
  next
    case False
    define m where "m = (length (drop 32768 bs) - 1) div 32768 + 1"
    have "(length bs - 1) div 32768 = Suc ((length bs - 32768 - 1) div 32768)"
      using False by (subst le_div_geq) auto
    then have n: "n = Suc m" using "1.prems"(3) by (simp add: m_def)
    have d: "(of_nat (length bs) - MULTI_PART :: u32) = of_nat (length (drop 32768 bs))"
      using False by (simp add: MULTI_PART_def of_nat_diff)
    have IH: "multi_loop m (word_of_int s) (of_nat (length (drop 32768 bs))) (drop 32768 bs @ ex) =
        Some (map (frame 2) (part_packets s (drop 32768 bs)))"
      using "1.IH"[OF False, of m] False "1.prems"(1) by (simp add: m_def)
    have "fill_header 32773 = Some (be_bytes 2 32773)"
      using fill_header_eq[of 32773] by simp
    moreover have "mem_slice (bs @ ex) 0 32768 = Some (take 32768 bs)"
      using mem_slice_take[of 32768 "bs @ ex"] False by simp
    moreover have "uint MULTI_PART = 32768" "unat MULTI_PART = 32768" by (simp_all add: MULTI_PART_def)
    ultimately show ?thesis
      using False gt IH d unfolding n
      by (subst part_packets.simps) (simp add: temp_ok frame_def add.commute)
  qed
qed


text \<open>What \<open>packrequest\<close> makes of a request whose message is at \<open>a\<close>.\<close>

definition next_session :: "int \<Rightarrow> int" where
  "next_session s = (if s = 2 ^ 31 - 1 then 1 else s + 1)"

definition at_block :: "u8 list \<Rightarrow> addr \<Rightarrow> world \<Rightarrow> bool" where
  "at_block bs a w \<longleftrightarrow> (\<exists>ex. w_heap w a = Some (Bytes (bs @ ex)))"

lemma new_session:
  assumes "0 < s" "s < 2 ^ 31"
  shows "uint (let n = (word_of_int s :: u32) + 1 in if n > 0x7fffffff then 1 else n) = next_session s"
proof -
  define k where "k = nat s"
  have k: "s = int k" "0 < k" "k < 2 ^ 31" using assms by (simp_all add: k_def)
  define v :: u32 where "v = of_nat (Suc k)"
  have u: "unat v = Suc k" unfolding v_def using k(3) by (simp only: unat_of_nat) simp
  have w: "(word_of_int s :: u32) + 1 = v" by (simp add: k(1) v_def)
  have "(0x7fffffff < v) = (2 ^ 31 - 1 < Suc k)" unfolding word_less_nat_alt u by simp
  then show ?thesis
    unfolding w Let_def using u k by (cases "k = 2 ^ 31 - 1") (simp_all add: next_session_def uint_nat)
qed

lemma read_block: "at_block bs a w \<Longrightarrow> read_data x (Some a) (length bs) w = Some bs"
  by (auto simp: at_block_def read_data_def copy_data_def)

lemma part_count:
  assumes "length bs < 2 ^ 31" "0 < length bs"
  shows "nat ((uint (of_nat (length bs) - 1 :: u32)) div uint MULTI_PART + 1) = (length bs - 1) div 32768 + 1"
proof -
  have "(of_nat (length bs) - 1 :: u32) = of_nat (length bs - 1)" using assms(2) of_nat_diff[of 1 "length bs", where ?'a = u32]
    by (metis One_nat_def Suc_leI of_nat_1)
  moreover have "unat (of_nat (length bs - 1) :: u32) = length bs - 1" using assms(1) by (simp only: unat_of_nat) simp
  ultimately show ?thesis
    by (simp only: uint_nat) (simp add: MULTI_PART_def nat_add_distrib nat_div_distrib)
qed

text \<open>The strings of a request are its packets behind their lengths.\<close>

lemma packrequest_ok:
  assumes "cq_ok q" "at_block (cq_data q) a w"
  shows "packrequest x (cq_addr q) (cq_session q) (Some a) (int (length (cq_data q))) (cq_push q) w =
    Some (Inr (frame 2 (head_packet q), next_session (cq_session q),
      if cq_large q then Some (map (frame 2) (part_packets (cq_session q) (cq_data q))) else None),
      w\<lparr>w_heap := (w_heap w)(a := None)\<rparr>)"
proof -
  let ?bs = "cq_data q" and ?s = "cq_session q" and ?sz = "of_nat (length (cq_data q)) :: u32"
  have s: "0 < ?s" "?s < 2 ^ 31" "length ?bs < 2 ^ 31" using assms(1) by (auto simp: cq_ok_def)
  have w: "wrap_int ?s = ?s" using s by (intro wrap_int_id) (simp_all add: INT_MIN_def INT_MAX_def)
  have u: "unat ?sz = length ?bs" "uint ?sz = int (length ?bs)" using s(3) by (simp_all add: unat_of_nat uint_nat)
  have lt: "(?sz < MULTI_PART) = (\<not> cq_large q)" using u by (auto simp: MULTI_PART_def word_less_nat_alt cq_large_def)
  have fr: "skynet_free (Some a) w = Some (w\<lparr>w_heap := (w_heap w)(a := None)\<rparr>)"
    using assms(2) by (auto simp: skynet_free_def at_block_def)
  have h: "fill_header (int n + k) = Some (be_bytes 2 (n + nat k))" if "0 \<le> k" "n + nat k < 65536" for n k
    using fill_header_eq[of "n + nat k"] that by simp
  have m: "cq_large q \<Longrightarrow> packreq_multi x ?s (Some a) ?sz w = Some (map (frame 2) (part_packets ?s ?bs))"
  proof -
    assume l: "cq_large q"
    obtain ex where ex: "block_bytes x (Some a) w = Some (?bs @ ex)" using assms(2) by (auto simp: at_block_def block_bytes_def)
    have "0 < length ?bs" using l by (auto simp: cq_large_def)
    then show "packreq_multi x ?s (Some a) ?sz w = Some (map (frame 2) (part_packets ?s ?bs))"
      using multi_loop_ok[of ?bs _ ?s ex, OF _ _ refl] s(3) part_count[of ?bs] ex by (simp add: packreq_multi_def)
  qed
  have pos: "(uint ?sz - 1) div uint MULTI_PART + 1 \<noteq> 0" if "cq_large q"
    using that by (simp add: u MULTI_PART_def cq_large_def)
  show ?thesis
  proof (cases "cq_addr q")
    case (ANum n)
    have "packreq_number x n ?s (Some a) ?sz (cq_push q) w =
        Some (if cq_large q then (uint ?sz - 1) div uint MULTI_PART + 1 else 0, frame 2 (head_packet q))"
      using h[of 9 "length ?bs"] h[of 13 0] read_block[OF assms(2), of x]
      by (auto simp: packreq_number_def lt u temp_ok cq_large_def ANum head_packet_def head_type_def addr_packet_def wire_session_def
          frame_def add.commute)
    then show ?thesis
      using m fr new_session[OF s(1,2)] pos s(1) by (simp add: packrequest_def w ANum Let_def)
  next
    case (AStr nm)
    have nm: "1 \<le> length nm" "length nm \<le> 255" using assms(1) AStr by (simp_all add: cq_ok_def)
    have h2: "\<not> cq_large q \<Longrightarrow> fill_header (int (length nm) + (int (length ?bs) + 6)) = Some (be_bytes 2 (6 + (length nm + length ?bs)))"
      using fill_header_eq[of "6 + (length nm + length ?bs)"] nm(2) by (simp add: cq_large_def add.commute add.left_commute)
    have "packreq_string x (AStr nm) ?s (Some a) ?sz (cq_push q) w =
        Some (Inr (if cq_large q then (uint ?sz - 1) div uint MULTI_PART + 1 else 0, frame 2 (head_packet q)), w)"
      using h2 h[of 10 "length nm"] read_block[OF assms(2), of x] nm
      by (auto simp: packreq_string_def lt u temp_ok cq_large_def AStr head_packet_def head_type_def addr_packet_def wire_session_def
          frame_def add.commute)
    then show ?thesis
      using m fr new_session[OF s(1,2)] pos s(1) by (simp add: packrequest_def w AStr Let_def)
  qed (use assms(1) in \<open>simp add: cq_ok_def\<close>)
qed

section \<open>Arriving packets\<close>

definition addr_value :: "clu_addr \<Rightarrow> lret" where
  "addr_value a = (case a of ANum n \<Rightarrow> RInt n | AStr s \<Rightarrow> RStr s | AOther _ \<Rightarrow> RNil)"

abbreviation with_block :: "blk \<Rightarrow> world \<Rightarrow> world" where
  "with_block b w \<equiv> snd (skynet_malloc b w)"

lemma uint_session: "0 \<le> s \<Longrightarrow> s < 2 ^ 32 \<Longrightarrow> uint (word_of_int s :: u32) = s"
  by (simp add: uint_word_of_int)

lemma session_zero: "0 \<le> s \<Longrightarrow> s < 2 ^ 32 \<Longrightarrow> (word_of_int s = (0 :: u32)) = (s = 0)"
  using uint_session[of s] by (metis unsigned_0 of_int_0)

lemma slice_mid: "off = int (length a) \<Longrightarrow> n = int (length b) \<Longrightarrow> mem_slice (a @ b @ c) off n = Some b"
  by (simp add: mem_slice_def)

lemma unpack_dispatch:
  assumes "length (t # bs) < 2 ^ 31"
  shows "lunpackrequest x (MStr (t # bs)) w =
    (let buf = t # bs @ [0]; sz = int (length bs) + 1 in
     if t = 0 then unpackreq_number buf sz w
     else if t = 1 then unpackmreq_number buf sz False w
     else if t = 0x41 then unpackmreq_number buf sz True w
     else if t = 2 \<or> t = 3 then unpackmreq_part buf sz w
     else if t = 4 then Some (Inr [RStr bs], w)
     else if t = 0x80 then unpackreq_string buf sz w
     else if t = 0x81 then unpackmreq_string buf sz False w
     else if t = 0xc1 then unpackmreq_string buf sz True w
     else Some (Inl (''Invalid req package type '' @ fmt_d (sint t)), w))"
proof -
  have w: "wrap_int (int (length (t # bs))) = int (length bs) + 1"
    using assms by (subst wrap_int_id) (simp_all add: INT_MIN_def INT_MAX_def)
  have tr: "unpacktrace (t # bs @ [0]) (int (length bs) + 1) = Some [RStr bs]"
    using slice_mid[of 1 "[t]" "int (length bs)" bs "[0]"] by (simp add: unpacktrace_def)
  have "arr_get (t # bs @ [0]) 0 = Some t" "int (length bs) + 1 \<noteq> 0" by (simp_all add: arr_get_def)
  then show ?thesis
    unfolding lunpackrequest_def Let_def lmsg.case w by (simp add: tr cong: if_cong)
qed

lemma unpack_part:
  assumes "0 < s" "s < 2 ^ 31" "length bs < 2 ^ 30" "t = 2 \<or> t = 3"
  shows "lunpackrequest x (MStr ([t] @ fill_uint32 (word_of_int s) @ bs)) w =
    Some (Inr [RBool False, RInt s, RPtr (w_heap_brk w), RInt (int (length bs)), RBool (t = 2)], with_block (Bytes bs) w)"
proof -
  let ?buf = "t # fill_uint32 (word_of_int s) @ bs @ [0]"
  have "mem_slice ?buf 5 (int (length bs)) = Some bs" "mem_slice ?buf 1 4 = Some (fill_uint32 (word_of_int s))"
    using slice_mid[of 5 "[t] @ fill_uint32 (word_of_int s)" "int (length bs)" bs "[0]"]
      slice_mid[of 1 "[t]" 4 "fill_uint32 (word_of_int s)" "bs @ [0]"] by simp_all
  moreover have "lunpackrequest x (MStr ([t] @ fill_uint32 (word_of_int s) @ bs)) w = unpackmreq_part ?buf (int (length bs) + 5) w"
    using assms(4) unpack_dispatch[of t "fill_uint32 (word_of_int s) @ bs" x w] assms(3)
    by (elim disjE) (simp_all add: add.commute[of 5])
  ultimately show ?thesis
    using assms uint_session[of s]
    by (simp add: unpackmreq_part_def uint32_at_def return_buffer_def skynet_malloc_def arr_get_def)
qed

lemma wire_session_range: "cq_ok q \<Longrightarrow> 0 \<le> wire_session q \<and> wire_session q < 2 ^ 31"
  by (auto simp: wire_session_def cq_ok_def)

lemma unpack_small:
  assumes "cq_ok q" "\<not> cq_large q"
  shows "lunpackrequest x (MStr (head_packet q)) w =
    Some (Inr ([addr_value (cq_addr q), RInt (wire_session q), RPtr (w_heap_brk w), RInt (int (length (cq_data q)))] @
      (if wire_session q = 0 then [RNil, RBool True] else [])), with_block (Bytes (cq_data q)) w)"
proof -
  let ?S = "fill_uint32 (word_of_int (wire_session q))" and ?d = "cq_data q"
  have s: "uint (word_of_int (wire_session q) :: u32) = wire_session q" "(word_of_int (wire_session q) = (0 :: u32)) = (wire_session q = 0)"
    using wire_session_range[OF assms(1)] uint_session[of "wire_session q"] session_zero[of "wire_session q"] by simp_all
  show ?thesis
  proof (cases "cq_addr q")
    case (ANum n)
    let ?A = "fill_uint32 (word_of_int n)"
    have n: "uint (word_of_int n :: u32) = n" using assms(1) ANum by (intro uint_session) (simp_all add: cq_ok_def)
    have hd: "head_packet q = [0] @ ?A @ ?S @ ?d" using ANum assms(2) by (simp add: head_packet_def head_type_def addr_packet_def)
    have "lunpackrequest x (MStr (head_packet q)) w = unpackreq_number ([0] @ ?A @ ?S @ ?d @ [0]) (int (length ?d) + 9) w"
      using unpack_dispatch[of 0 "?A @ ?S @ ?d" x w] assms(2) unfolding hd by (simp add: cq_large_def add.commute[of 9])
    moreover have "mem_slice ([0] @ ?A @ ?S @ ?d @ [0]) 1 4 = Some ?A" "mem_slice ([0] @ ?A @ ?S @ ?d @ [0]) 5 4 = Some ?S"
      "mem_slice ([0] @ ?A @ ?S @ ?d @ [0]) 9 (int (length ?d)) = Some ?d"
      using slice_mid[of 1 "[0]" 4 ?A] slice_mid[of 5 "[0] @ ?A" 4 ?S] slice_mid[of 9 "[0] @ ?A @ ?S" "int (length ?d)" ?d] by simp_all
    ultimately show ?thesis
      using s n by (simp add: unpackreq_number_def uint32_at_def return_buffer_def skynet_malloc_def addr_value_def ANum)
  next
    case (AStr nm)
    let ?l = "of_nat (length nm) :: u8"
    let ?buf = "[0x80, ?l] @ nm @ ?S @ ?d @ [0]"
    have nm: "1 \<le> length nm" "length nm \<le> 255" using assms(1) AStr by (simp_all add: cq_ok_def)
    have l: "uint ?l = int (length nm)" using nm(2) by (simp add: uint_nat unat_of_nat)
    have hd: "head_packet q = [0x80, ?l] @ nm @ ?S @ ?d" using AStr assms(2) by (simp add: head_packet_def head_type_def addr_packet_def)
    have sz: "int (length (?l # nm @ ?S @ ?d)) + 1 = int (length nm) + int (length ?d) + 6" by simp
    have "lunpackrequest x (MStr (head_packet q)) w = unpackreq_string ?buf (int (length nm) + int (length ?d) + 6) w"
      using unpack_dispatch[of "0x80" "?l # nm @ ?S @ ?d" x w, unfolded sz] assms(2) nm(2) unfolding hd by (simp add: cq_large_def)
    moreover have "mem_slice ?buf 2 (int (length nm)) = Some nm" "mem_slice ?buf (int (length nm) + 2) 4 = Some ?S"
      "mem_slice ?buf (2 + int (length nm) + 4) (int (length ?d)) = Some ?d"
      using slice_mid[of 2 "[0x80, ?l]" "int (length nm)" nm] slice_mid[of "int (length nm) + 2" "[0x80, ?l] @ nm" 4 ?S]
        slice_mid[of "2 + int (length nm) + 4" "[0x80, ?l] @ nm @ ?S" "int (length ?d)" ?d] by simp_all
    moreover have "arr_get ?buf 1 = Some ?l" by (simp add: arr_get_def)
    ultimately show ?thesis
      using s l by (simp add: unpackreq_string_def uint32_at_def return_buffer_def skynet_malloc_def addr_value_def AStr)
  qed (use assms(1) in \<open>simp add: cq_ok_def\<close>)
qed

lemma unpack_large:
  assumes "cq_ok q" "cq_large q"
  shows "lunpackrequest x (MStr (head_packet q)) w =
    Some (Inr [addr_value (cq_addr q), RInt (cq_session q), RNil, RInt (int (length (cq_data q))), RBool True, RBool (cq_push q)], w)"
proof -
  let ?S = "fill_uint32 (word_of_int (cq_session q))" and ?L = "fill_uint32 (of_nat (length (cq_data q)))"
  have r: "0 < cq_session q" "cq_session q < 2 ^ 31" "length (cq_data q) < 2 ^ 31" using assms(1) by (auto simp: cq_ok_def)
  have s: "uint (word_of_int (cq_session q) :: u32) = cq_session q" "uint (of_nat (length (cq_data q)) :: u32) = int (length (cq_data q))"
    using r uint_session[of "cq_session q"] uint_session[of "int (length (cq_data q))"] by simp_all
  have ws: "wire_session q = cq_session q" using assms(2) by (simp add: wire_session_def)
  show ?thesis
  proof (cases "cq_addr q")
    case (ANum n)
    let ?A = "fill_uint32 (word_of_int n)" and ?t = "if cq_push q then 0x41 else 1 :: u8"
    let ?buf = "[?t] @ ?A @ ?S @ ?L @ [0]"
    have n: "uint (word_of_int n :: u32) = n" using assms(1) ANum by (intro uint_session) (simp_all add: cq_ok_def)
    have hd: "head_packet q = [?t] @ ?A @ ?S @ ?L" using ANum assms(2) ws by (simp add: head_packet_def head_type_def addr_packet_def)
    have "lunpackrequest x (MStr (head_packet q)) w = unpackmreq_number ?buf 13 (cq_push q) w"
      using unpack_dispatch[of "1" "?A @ ?S @ ?L" x w] unpack_dispatch[of "0x41" "?A @ ?S @ ?L" x w] unfolding hd by simp
    moreover have "mem_slice ?buf 1 4 = Some ?A" "mem_slice ?buf 5 4 = Some ?S" "mem_slice ?buf 9 4 = Some ?L"
      using slice_mid[of 1 "[?t]" 4 ?A] slice_mid[of 5 "[?t] @ ?A" 4 ?S] slice_mid[of 9 "[?t] @ ?A @ ?S" 4 ?L] by simp_all
    ultimately show ?thesis using s n by (simp add: unpackmreq_number_def uint32_at_def addr_value_def ANum)
  next
    case (AStr nm)
    let ?l = "of_nat (length nm) :: u8" and ?t = "if cq_push q then 0xc1 else 0x81 :: u8"
    let ?buf = "[?t, ?l] @ nm @ ?S @ ?L @ [0]"
    have nm: "1 \<le> length nm" "length nm \<le> 255" using assms(1) AStr by (simp_all add: cq_ok_def)
    have l: "uint ?l = int (length nm)" using nm(2) by (simp add: uint_nat unat_of_nat)
    have hd: "head_packet q = [?t, ?l] @ nm @ ?S @ ?L" using AStr assms(2) ws by (simp add: head_packet_def head_type_def addr_packet_def)
    have sz: "int (length (?l # nm @ ?S @ ?L)) + 1 = int (length nm) + 10" by simp
    have "lunpackrequest x (MStr (head_packet q)) w = unpackmreq_string ?buf (int (length nm) + 10) (cq_push q) w"
      using unpack_dispatch[of "0x81" "?l # nm @ ?S @ ?L" x w, unfolded sz] unpack_dispatch[of "0xc1" "?l # nm @ ?S @ ?L" x w, unfolded sz] nm(2)
      unfolding hd by simp
    moreover have "mem_slice ?buf 2 (int (length nm)) = Some nm" "mem_slice ?buf (int (length nm) + 2) 4 = Some ?S"
      "mem_slice ?buf (int (length nm) + 6) 4 = Some ?L"
      using slice_mid[of 2 "[?t, ?l]" "int (length nm)" nm] slice_mid[of "int (length nm) + 2" "[?t, ?l] @ nm" 4 ?S]
        slice_mid[of "int (length nm) + 6" "[?t, ?l] @ nm @ ?S" 4 ?L] by simp_all
    moreover have "arr_get ?buf 1 = Some ?l" by (simp add: arr_get_def)
    ultimately show ?thesis
      using s l by (simp add: unpackmreq_string_def uint32_at_def addr_value_def AStr)
  qed (use assms(1) in \<open>simp add: cq_ok_def\<close>)
qed

section \<open>Collecting\<close>

text \<open>The table of a large request of which the bytes \<open>sent\<close> have come.\<close>

definition collecting :: "cluster_request \<Rightarrow> u8 list \<Rightarrow> large_request \<Rightarrow> bool" where
  "collecting q sent req \<longleftrightarrow> lr_addr req = addr_value (cq_addr q) \<and> lr_push req = cq_push q \<and>
     (\<exists>ss. lr_parts req = RInt (int (length (cq_data q))) # map RStr ss \<and> concat ss = sent)"

lemma concat_loop_ok:
  "int (length buff) + int (length (concat ss)) \<le> sz \<Longrightarrow> concat_loop (map RStr ss) sz buff = Some (buff @ concat ss)"
  by (induction ss arbitrary: buff) auto

lemma wrap_length: "n < 2 ^ 31 \<Longrightarrow> wrap_int (int n) = int n"
  by (intro wrap_int_id) (simp_all add: INT_MIN_def INT_MAX_def)

text \<open>The block of a part is taken over as a string and freed.\<close>

lemma append_part:
  assumes "heap_ok w" "length bs < 2 ^ 31"
  shows "lappend x t (Chunk (w_heap_brk w) (int (length bs))) (with_block (Bytes bs) w) =
    Some (Inr (t @ [RStr bs]), w\<lparr>w_heap_brk := Suc (w_heap_brk w)\<rparr>)"
proof -
  have "w_heap w (w_heap_brk w) = None" using assms(1) by (auto simp: heap_ok_def)
  then have "(w_heap w)(w_heap_brk w := None) = w_heap w" by (simp add: fun_upd_idem)
  then show ?thesis
    using wrap_length[OF assms(2)]
    by (simp add: lappend_def skynet_malloc_def block_bytes_def mem_slice_def skynet_free_def)
qed

definition taken_block :: "u8 list \<Rightarrow> world \<Rightarrow> world" where
  "taken_block bs w = w\<lparr>w_heap := (w_heap w)(w_heap_brk w \<mapsto> Bytes bs), w_heap_brk := Suc (w_heap_brk w)\<rparr>"

lemma with_block_eq: "with_block (Bytes bs) w = taken_block bs w"
  by (simp add: skynet_malloc_def taken_block_def)

lemma concat_parts:
  assumes "length data < 2 ^ 31" "concat ss = data"
  shows "lconcat (Some (RInt (int (length data)) # map RStr ss)) w =
    Some ([RPtr (w_heap_brk w), RInt (int (length data))], taken_block data w)"
  using concat_loop_ok[of "[]" ss "int (length data)"] assms wrap_length[OF assms(1)]
  by (simp add: lconcat_def skynet_malloc_def taken_block_def)

text \<open>How far a request has come: what is left of its packets, and what the receiver keeps for its session.\<close>

definition progress :: "cluster_request \<Rightarrow> u8 list list \<Rightarrow> large_request option \<Rightarrow> bool" where
  "progress q ps lr \<longleftrightarrow>
     lr = None \<and> (ps = cluster_packets q \<or> ps = []) \<or>
     (\<exists>req sent d. lr = Some req \<and> cq_large q \<and> collecting q sent req \<and> sent @ d = cq_data q \<and> ps = part_packets (cq_session q) d)"

definition delivered :: "cluster_request \<Rightarrow> outcome \<Rightarrow> world \<Rightarrow> bool" where
  "delivered q r w \<longleftrightarrow> (\<exists>a. r = Request (addr_value (cq_addr q)) (RInt (wire_session q)) a (int (length (cq_data q))) (cq_push q) \<and>
     w_heap w a = Some (Bytes (cq_data q)))"

fun request_blocks :: "outcome list \<Rightarrow> addr list" where
  "request_blocks (Request _ _ a _ _ # rs) = a # request_blocks rs"
| "request_blocks (_ # rs) = request_blocks rs"
| "request_blocks [] = []"

definition step_ok :: "cluster_request \<Rightarrow> u8 list list \<Rightarrow> agent \<Rightarrow> outcome \<Rightarrow> agent \<Rightarrow> bool" where
  "step_ok q ps st r st' \<longleftrightarrow> heap_ok (snd st') \<and>
     (\<exists>lr. fst st' = (fst st)(RInt (wire_session q) := lr) \<and> progress q ps lr \<and> (ps = [] \<longrightarrow> lr = None)) \<and>
     (if ps = [] then \<exists>a. w_heap (snd st) a = None \<and> w_heap (snd st') = (w_heap (snd st))(a \<mapsto> Bytes (cq_data q)) \<and>
          r = Request (addr_value (cq_addr q)) (RInt (wire_session q)) a (int (length (cq_data q))) (cq_push q)
      else r = Waiting \<and> w_heap (snd st') = w_heap (snd st))"

lemma heap_ok_taken: "heap_ok w \<Longrightarrow> heap_ok (taken_block bs w)" "heap_ok w \<Longrightarrow> w_heap w (w_heap_brk w) = None"
  "heap_ok w \<Longrightarrow> heap_ok (w\<lparr>w_heap_brk := Suc (w_heap_brk w)\<rparr>)"
  by (auto simp: heap_ok_def taken_block_def less_Suc_eq split: if_splits)

lemma step_small:
  assumes "cq_ok q" "\<not> cq_large q" "large (RInt (wire_session q)) = None" "heap_ok w"
  shows "\<exists>r st'. agent_step x (head_packet q) (large, w) = Some (r, st') \<and> step_ok q [] (large, w) r st'"
proof -
  let ?s = "RInt (wire_session q)" and ?d = "cq_data q"
  let ?r = "Request (addr_value (cq_addr q)) ?s (w_heap_brk w) (int (length ?d)) (cq_push q)"
  have p: "cq_push q = (wire_session q = 0)" using assms(1,2) by (auto simp: wire_session_def cq_ok_def)
  have "agent_step x (head_packet q) (large, w) = Some (?r, large, taken_block ?d w)"
    using unpack_small[OF assms(1,2), of x w] assms(3)
    by (auto simp: agent_step_def gather_def ret_arg_def truthy_def received_def with_block_eq p Let_def)
  moreover have "step_ok q [] (large, w) ?r (large, taken_block ?d w)"
    using heap_ok_taken[OF assms(4)] assms(3)
    by (auto simp: step_ok_def progress_def taken_block_def fun_upd_idem)
  ultimately show ?thesis by blast
qed

lemma step_head:
  assumes "cq_ok q" "cq_large q" "large (RInt (cq_session q)) = None" "heap_ok w"
  shows "\<exists>r st'. agent_step x (head_packet q) (large, w) = Some (r, st') \<and>
    step_ok q (part_packets (cq_session q) (cq_data q)) (large, w) r st'"
proof -
  let ?req = "\<lparr>lr_addr = addr_value (cq_addr q), lr_push = cq_push q, lr_parts = [RInt (int (length (cq_data q)))]\<rparr>"
  let ?large = "large(RInt (cq_session q) \<mapsto> ?req)"
  have ws: "wire_session q = cq_session q" using assms(2) by (simp add: wire_session_def)
  have ne: "part_packets (cq_session q) (cq_data q) \<noteq> []" by (subst part_packets.simps) simp
  have "agent_step x (head_packet q) (large, w) = Some (Waiting, ?large, w)"
    using unpack_large[OF assms(1,2), of x w] assms(3)
    by (simp add: agent_step_def gather_def ret_arg_def truthy_def piece_of_def lappend_def Let_def)
  moreover have "collecting q [] ?req" by (simp add: collecting_def)
  then have "progress q (part_packets (cq_session q) (cq_data q)) (Some ?req)"
    using assms(2) by (auto simp: progress_def)
  then have "step_ok q (part_packets (cq_session q) (cq_data q)) (large, w) Waiting (?large, w)"
    using assms(4) ne by (auto simp: step_ok_def ws)
  ultimately show ?thesis by blast
qed

lemma collecting_part:
  assumes "collecting q sent req"
  shows "collecting q (sent @ bs) (req\<lparr>lr_parts := lr_parts req @ [RStr bs]\<rparr>)"
proof -
  obtain ss where "lr_parts req = RInt (int (length (cq_data q))) # map RStr ss" "concat ss = sent"
    using assms by (auto simp: collecting_def)
  then have "lr_parts req @ [RStr bs] = RInt (int (length (cq_data q))) # map RStr (ss @ [bs])" "concat (ss @ [bs]) = sent @ bs" by simp_all
  then show ?thesis using assms unfolding collecting_def by (intro conjI exI[of _ "ss @ [bs]"]) simp_all
qed

lemma step_part:
  assumes "cq_ok q" "cq_large q" "large (RInt (cq_session q)) = Some req" "collecting q sent req" "sent @ d = cq_data q"
    "part_packets (cq_session q) d = p # ps" "heap_ok w"
  shows "\<exists>r st'. agent_step x p (large, w) = Some (r, st') \<and> step_ok q ps (large, w) r st'"
proof -
  let ?s = "cq_session q" and ?w = "w\<lparr>w_heap_brk := Suc (w_heap_brk w)\<rparr>"
  have ws: "wire_session q = ?s" using assms(2) by (simp add: wire_session_def)
  have r: "0 < ?s" "?s < 2 ^ 31" "length (cq_data q) < 2 ^ 31" using assms(1) by (auto simp: cq_ok_def)
  have un: "lunpackrequest x (MStr ([t] @ fill_uint32 (word_of_int ?s) @ bs)) w =
    Some (Inr [RBool False, RInt ?s, RPtr (w_heap_brk w), RInt (int (length bs)), RBool (t = 2)], with_block (Bytes bs) w)"
    "lappend x (lr_parts req) (Chunk (w_heap_brk w) (int (length bs))) (with_block (Bytes bs) w) = Some (Inr (lr_parts req @ [RStr bs]), ?w)"
    if "t = 2 \<or> t = 3" "length bs \<le> 32768" for t bs
    using unpack_part[OF r(1,2) _ that(1), of bs x w] append_part[OF assms(7), of bs x] that(2) by simp_all
  show ?thesis
  proof (cases "length d \<le> 32768")
    case True
    have p: "p = [3] @ fill_uint32 (word_of_int ?s) @ d" "ps = []" using assms(6) True by (simp_all add: part_packets.simps[of _ d])
    let ?r = "Request (addr_value (cq_addr q)) (RInt ?s) (Suc (w_heap_brk w)) (int (length (cq_data q))) (cq_push q)"
    obtain ss where ss: "lr_parts req = RInt (int (length (cq_data q))) # map RStr ss" "concat ss = sent"
      using assms(4) by (auto simp: collecting_def)
    have "lconcat (Some (lr_parts req @ [RStr d])) ?w = Some ([RPtr (Suc (w_heap_brk w)), RInt (int (length (cq_data q)))], taken_block (cq_data q) ?w)"
      using concat_parts[OF r(3), of "ss @ [d]" ?w] ss assms(5) by simp
    then have "agent_step x p (large, w) = Some (?r, large(RInt ?s := None), taken_block (cq_data q) ?w)"
      using un[OF _ True, of 3] assms(3,4) unfolding p
      by (simp add: agent_step_def gather_def ret_arg_def truthy_def piece_of_def received_def collecting_def Let_def)
    moreover have "step_ok q ps (large, w) ?r (large(RInt ?s := None), taken_block (cq_data q) ?w)"
      using heap_ok_taken(1,2)[OF heap_ok_taken(3)[OF assms(7)]] p(2)
      by (auto simp: step_ok_def ws progress_def taken_block_def)
    ultimately show ?thesis by blast
  next
    case False
    let ?b = "take 32768 d" and ?req = "req\<lparr>lr_parts := lr_parts req @ [RStr (take 32768 d)]\<rparr>"
    have p: "p = [2] @ fill_uint32 (word_of_int ?s) @ ?b" "ps = part_packets ?s (drop 32768 d)"
      using assms(6) False by (simp_all add: part_packets.simps[of _ d])
    have "ps \<noteq> []" unfolding p by (subst part_packets.simps) simp
    have "agent_step x p (large, w) = Some (Waiting, large(RInt ?s \<mapsto> ?req), ?w)"
      using un[of 2 ?b] assms(3) unfolding p
      by (simp add: agent_step_def gather_def ret_arg_def truthy_def piece_of_def Let_def)
    moreover have "progress q ps (Some ?req)"
      unfolding progress_def p(2)
      using collecting_part[OF assms(4), of ?b] assms(2,5) by (intro disjI2 exI[of _ ?req] exI[of _ "sent @ ?b"] exI[of _ "drop 32768 d"]) simp
    then have "step_ok q ps (large, w) Waiting (large(RInt ?s \<mapsto> ?req), ?w)"
      using heap_ok_taken(3)[OF assms(7)] \<open>ps \<noteq> []\<close> by (auto simp: step_ok_def ws)
    ultimately show ?thesis by blast
  qed
qed

lemma agent_step_ok:
  assumes "cq_ok q" "progress q (p # ps) (large (RInt (wire_session q)))" "heap_ok w"
  shows "\<exists>r st'. agent_step x p (large, w) = Some (r, st') \<and> step_ok q ps (large, w) r st'"
  using assms(2) unfolding progress_def
proof (elim disjE conjE exE)
  assume n: "large (RInt (wire_session q)) = None" "p # ps = cluster_packets q"
  show ?thesis
  proof (cases "cq_large q")
    case True
    then show ?thesis
      using step_head[OF assms(1) True _ assms(3), of large x] n by (simp add: cluster_packets_def wire_session_def)
  next
    case False
    then show ?thesis using step_small[OF assms(1) False _ assms(3), of large x] n by (simp add: cluster_packets_def)
  qed
next
  fix req sent d
  assume "large (RInt (wire_session q)) = Some req" "cq_large q" "collecting q sent req" "sent @ d = cq_data q"
    "p # ps = part_packets (cq_session q) d"
  then show ?thesis
    using step_part[OF assms(1) _ _ _ _ _ assms(3), of large req sent d p ps] by (simp add: wire_session_def)
qed simp

section \<open>Interleaved requests\<close>

text \<open>Packets are tagged with the number of their request. The outcome of the last packet of a request is the request, that of
  the others is to wait.\<close>

fun arrived :: "cluster_request list \<Rightarrow> nat list \<Rightarrow> outcome list \<Rightarrow> world \<Rightarrow> bool" where
  "arrived qs [] [] w \<longleftrightarrow> True"
| "arrived qs (k # ks) (r # rs) w \<longleftrightarrow> (if k \<in> set ks then r = Waiting else delivered (qs ! k) r w) \<and> arrived qs ks rs w"
| "arrived qs _ _ w \<longleftrightarrow> False"

abbreviation packets_of :: "nat \<Rightarrow> (nat \<times> 'a) list \<Rightarrow> 'a list" where
  "packets_of k tp \<equiv> map snd (filter (\<lambda>e. fst e = k) tp)"

lemma packets_of_Nil: "packets_of k tp = [] \<longleftrightarrow> k \<notin> fst ` set tp"
  by (auto simp: filter_empty_conv)

lemma sessions_differ:
  assumes "\<forall>q \<in> set qs. cq_ok q" "distinct (map cq_session qs)" "k < length qs" "j < length qs" "j \<noteq> k" "cq_large (qs ! k)"
  shows "wire_session (qs ! j) \<noteq> wire_session (qs ! k)"
proof -
  have "cq_session (qs ! j) \<noteq> cq_session (qs ! k)"
    using assms(2-5) nth_eq_iff_index_eq[of "map cq_session qs" j k] by simp
  moreover have "0 < cq_session (qs ! k)" using assms(1,3) by (simp add: cq_ok_def)
  ultimately show ?thesis using assms(6) by (auto simp: wire_session_def)
qed

lemma agent_run_ok:
  assumes "\<forall>q \<in> set qs. cq_ok q" "distinct (map cq_session qs)"
  shows "fst ` set tp \<subseteq> {..<length qs} \<Longrightarrow> heap_ok w \<Longrightarrow>
    \<forall>k < length qs. progress (qs ! k) (packets_of k tp) (large (RInt (wire_session (qs ! k)))) \<and>
      (packets_of k tp = [] \<longrightarrow> large (RInt (wire_session (qs ! k))) = None) \<Longrightarrow>
    \<exists>rs large' w'. agent_run x (map snd tp) (large, w) = Some (rs, large', w') \<and> arrived qs (map fst tp) rs w' \<and>
      heap_ok w' \<and> w_heap w \<subseteq>\<^sub>m w_heap w' \<and> dom (w_heap w') = dom (w_heap w) \<union> set (request_blocks rs) \<and>
      distinct (request_blocks rs) \<and> set (request_blocks rs) \<inter> dom (w_heap w) = {} \<and>
      (\<forall>k < length qs. large' (RInt (wire_session (qs ! k))) = None)"
proof (induction tp arbitrary: large w)
  case Nil
  then show ?case by simp
next
  case (Cons e tp)
  obtain k p where e: "e = (k, p)" by force
  have k: "k < length qs" and q: "cq_ok (qs ! k)" using Cons.prems(1) assms(1) e by auto
  have "progress (qs ! k) (p # packets_of k tp) (large (RInt (wire_session (qs ! k))))"
    using spec[OF Cons.prems(3), of k] k e by simp
  then obtain r st' where st: "agent_step x p (large, w) = Some (r, st')" "step_ok (qs ! k) (packets_of k tp) (large, w) r st'"
    using agent_step_ok[OF q _ Cons.prems(2), of p "packets_of k tp" large x] by blast
  obtain lr where lr: "fst st' = large(RInt (wire_session (qs ! k)) := lr)" "progress (qs ! k) (packets_of k tp) lr"
    "packets_of k tp = [] \<Longrightarrow> lr = None"
    using st(2) by (auto simp: step_ok_def)
  have P: "\<forall>j < length qs. progress (qs ! j) (packets_of j tp) (fst st' (RInt (wire_session (qs ! j)))) \<and>
      (packets_of j tp = [] \<longrightarrow> fst st' (RInt (wire_session (qs ! j))) = None)"
  proof (intro allI impI)
    fix j
    assume j: "j < length qs"
    show "progress (qs ! j) (packets_of j tp) (fst st' (RInt (wire_session (qs ! j)))) \<and>
      (packets_of j tp = [] \<longrightarrow> fst st' (RInt (wire_session (qs ! j))) = None)"
    proof (cases "j = k")
      case True
      then show ?thesis using lr by simp
    next
      case False
      have old: "progress (qs ! j) (packets_of j tp) (large (RInt (wire_session (qs ! j)))) \<and>
          (packets_of j tp = [] \<longrightarrow> large (RInt (wire_session (qs ! j))) = None)"
        using Cons.prems(3) j False e by auto
      have "fst st' (RInt (wire_session (qs ! j))) = large (RInt (wire_session (qs ! j)))"
      proof (cases "cq_large (qs ! k)")
        case True
        then show ?thesis using sessions_differ[OF assms k j False] lr(1) by simp
      next
        case small: False
        then have "lr = None" "large (RInt (wire_session (qs ! k))) = None"
          using lr(2) Cons.prems(3) k by (auto simp: progress_def)
        then show ?thesis using lr(1) by simp
      qed
      then show ?thesis using old by simp
    qed
  qed
  have h: "heap_ok (snd st')" "fst ` set tp \<subseteq> {..<length qs}" using st(2) Cons.prems(1) by (auto simp: step_ok_def)
  obtain rs large' w' where R: "agent_run x (map snd tp) st' = Some (rs, large', w')" "arrived qs (map fst tp) rs w'"
    "heap_ok w'" "w_heap (snd st') \<subseteq>\<^sub>m w_heap w'" "dom (w_heap w') = dom (w_heap (snd st')) \<union> set (request_blocks rs)"
    "distinct (request_blocks rs)" "set (request_blocks rs) \<inter> dom (w_heap (snd st')) = {}"
    "\<forall>k < length qs. large' (RInt (wire_session (qs ! k))) = None"
    using Cons.IH[OF h(2,1) P] by auto
  have run: "agent_run x (map snd (e # tp)) (large, w) = Some (r # rs, large', w')" using st(1) R(1) e by simp
  show ?case
  proof (cases "packets_of k tp = []")
    case True
    then obtain a where a: "w_heap w a = None" "w_heap (snd st') = (w_heap w)(a \<mapsto> Bytes (cq_data (qs ! k)))"
      "r = Request (addr_value (cq_addr (qs ! k))) (RInt (wire_session (qs ! k))) a (int (length (cq_data (qs ! k)))) (cq_push (qs ! k))"
      using st(2) by (auto simp: step_ok_def)
    have wa: "w_heap w' a = Some (Bytes (cq_data (qs ! k)))" using R(4) a(2) by (auto simp: map_le_def)
    then have "delivered (qs ! k) r w'" using a(3) by (simp add: delivered_def)
    moreover have "k \<notin> set (map fst tp)" using True packets_of_Nil[of k tp] by simp
    moreover have "w_heap w \<subseteq>\<^sub>m w_heap w'" using a(1,2) by (intro map_le_trans[OF _ R(4)]) (auto simp: map_le_def)
    ultimately show ?thesis
      using R(2,3,5-8) run a by (auto simp: e)
  next
    case False
    then have "r = Waiting" "w_heap (snd st') = w_heap w" "k \<in> set (map fst tp)"
      using st(2) packets_of_Nil[of k tp] by (auto simp: step_ok_def)
    then show ?thesis using R(2-8) run by (auto simp: e)
  qed
qed


lemma packets_of_map: "packets_of k (map (\<lambda>(j, p). (j, f p)) tp) = map f (packets_of k tp)"
  by (induction tp) auto

text \<open>The strings that \<open>packrequest\<close> makes for a request.\<close>

definition packs_to :: "ext \<Rightarrow> cluster_request \<Rightarrow> u8 list list \<Rightarrow> bool" where
  "packs_to x q ss \<longleftrightarrow> (\<exists>a w r n ps w'. at_block (cq_data q) a w \<and>
     packrequest x (cq_addr q) (cq_session q) (Some a) (int (length (cq_data q))) (cq_push q) w = Some (Inr (r, n, ps), w') \<and>
     ss = r # (case ps of None \<Rightarrow> [] | Some l \<Rightarrow> l))"

lemma packs_to_packets: "cq_ok q \<Longrightarrow> packs_to x q ss \<Longrightarrow> ss = map (frame 2) (cluster_packets q)"
  using packrequest_ok[of q] by (auto simp: packs_to_def cluster_packets_def split: if_splits)

section \<open>Responses\<close>

function response_parts :: "int \<Rightarrow> u8 list \<Rightarrow> u8 list list" where
  "response_parts session bs =
     (if length bs \<le> 0x8000 then [fill_uint32 (word_of_int session) @ [4] @ bs]
      else (fill_uint32 (word_of_int session) @ [3] @ take 0x8000 bs) # response_parts session (drop 0x8000 bs))"
  by pat_completeness auto
termination
  by (relation "measure (\<lambda>(s, bs). length bs)") auto

declare response_parts.simps [simp del]

lemma multi_part64:
  "uint MULTI_SIZE = 32768" "unat MULTI_SIZE = 32768" "uint MULTI_PART = 32768" "MULTI_SIZE = of_nat 32768" "MULTI_SIZE \<noteq> 0"
  by (simp_all add: MULTI_PART_def MULTI_SIZE_def)

lemma response_loop_ok:
  assumes "length bs < 2 ^ 31" "0 < length bs" "n = (length bs - 1) div 32768 + 1"
  shows "response_loop n (word_of_int s) (of_nat (length bs)) (bs @ ex) = Some (map (frame 2) (response_parts s bs))"
  using assms
proof (induction s bs arbitrary: n rule: response_parts.induct)
  case (1 s bs)
  have u: "unat (of_nat (length bs) :: u64) = length bs" "uint (of_nat (length bs) :: u64) = int (length bs)"
    using "1.prems"(1) by (simp_all add: unat_of_nat uint_nat)
  have gt: "((of_nat (length bs) :: u64) > MULTI_SIZE) = (32768 < length bs)"
    using u by (simp add: word_less_nat_alt multi_part64(2))
  show ?case
  proof (cases "length bs \<le> 32768")
    case True
    then have n: "n = Suc 0" using "1.prems" by (auto simp: div_eq_0_iff)
    have "fill_header (int (length bs) + 5) = Some (be_bytes 2 (length bs + 5))"
      using fill_header_eq[of "length bs + 5"] True by simp
    then show ?thesis
      using True gt u mem_slice_take[of "length bs" "bs @ ex"] unfolding n
      by (subst response_parts.simps) (simp add: temp_ok frame_def add.commute)
  next
    case False
    define m where "m = (length (drop 32768 bs) - 1) div 32768 + 1"
    have "(length bs - 1) div 32768 = Suc ((length bs - 32768 - 1) div 32768)"
      using False by (subst le_div_geq) auto
    then have n: "n = Suc m" using "1.prems"(3) by (simp add: m_def)
    have d: "(of_nat (length bs) - MULTI_SIZE :: u64) = of_nat (length (drop 32768 bs))"
      using False of_nat_diff[of 32768 "length bs", where ?'a = u64] by (simp only: multi_part64 length_drop)
    have IH: "response_loop m (word_of_int s) (of_nat (length (drop 32768 bs))) (drop 32768 bs @ ex) =
        Some (map (frame 2) (response_parts s (drop 32768 bs)))"
      using "1.IH"[OF False, of m] False "1.prems"(1) by (simp add: m_def)
    have "fill_header 32773 = Some (be_bytes 2 32773)"
      using fill_header_eq[of 32773] by simp
    moreover have "mem_slice (bs @ ex) 0 32768 = Some (take 32768 bs)"
      using mem_slice_take[of 32768 "bs @ ex"] False by simp
    ultimately show ?thesis
      using False gt IH d unfolding n
      by (subst response_parts.simps) (simp add: multi_part64(1-3) temp_ok frame_def)
  qed
qed

lemma unpack_response:
  assumes "0 \<le> s" "s < 2 ^ 32"
  shows "lunpackresponse (fill_uint32 (word_of_int s) @ [0] @ bs) = [RInt s, RBool False, RStr bs]"
    "lunpackresponse (fill_uint32 (word_of_int s) @ [1] @ bs) = [RInt s, RBool True, RStr bs]"
    "lunpackresponse (fill_uint32 (word_of_int s) @ [2] @ fill_uint32 n) = [RInt s, RBool True, RInt (uint n), RBool True]"
    "lunpackresponse (fill_uint32 (word_of_int s) @ [3] @ bs) = [RInt s, RBool True, RStr bs, RBool True]"
    "lunpackresponse (fill_uint32 (word_of_int s) @ [4] @ bs) = [RInt s, RBool True, RStr bs]"
  using uint_session[OF assms] by (simp_all add: lunpackresponse_def nth_append Let_def)

text \<open>What the parts of a large response are taken for: strings, all but the last marked as to be continued.\<close>

definition part_results :: "int \<Rightarrow> u8 list list \<Rightarrow> lret list list" where
  "part_results s ss = map (\<lambda>b. [RInt s, RBool True, RStr b, RBool True]) (butlast ss) @ [[RInt s, RBool True, RStr (last ss)]]"

lemma response_parts_ok:
  assumes "0 \<le> s" "s < 2 ^ 32"
  shows "\<exists>ss. ss \<noteq> [] \<and> concat ss = bs \<and> map lunpackresponse (response_parts s bs) = part_results s ss"
  using assms
proof (induction s bs rule: response_parts.induct)
  case (1 s bs)
  show ?case
  proof (cases "length bs \<le> 32768")
    case True
    then show ?thesis using unpack_response(5)[OF "1.prems", of bs]
      by (intro exI[of _ "[bs]"]) (simp add: response_parts.simps[of s bs] part_results_def)
  next
    case False
    then obtain ss where "ss \<noteq> []" "concat ss = drop 32768 bs"
      "map lunpackresponse (response_parts s (drop 32768 bs)) = part_results s ss"
      using 1 by auto
    then show ?thesis using unpack_response(4)[OF "1.prems", of "take 32768 bs"] False
      by (intro exI[of _ "take 32768 bs # ss"]) (simp add: response_parts.simps[of s bs] part_results_def)
  qed
qed

text \<open>The message argument of a response: a string, or a block.\<close>

definition msg_holds :: "lmsg \<Rightarrow> u8 list \<Rightarrow> world \<Rightarrow> bool" where
  "msg_holds m bs w \<longleftrightarrow> m = MStr bs \<or> (\<exists>a. m = MPtr (Some a) (int (length bs)) \<and> at_block bs a w)"

lemma response_count:
  assumes "length bs < 2 ^ 31" "0 < length bs"
  shows "nat (wrap_int (uint (of_nat (length bs) - 1 :: u64) div uint MULTI_PART + 1)) = (length bs - 1) div 32768 + 1"
proof -
  have "(of_nat (length bs) - 1 :: u64) = of_nat (length bs - 1)"
    using assms(2) of_nat_diff[of 1 "length bs", where ?'a = u64] by (metis One_nat_def Suc_leI of_nat_1)
  moreover have "unat (of_nat (length bs - 1) :: u64) = length bs - 1" using assms(1) by (simp only: unat_of_nat) simp
  ultimately have "uint (of_nat (length bs) - 1 :: u64) div uint MULTI_PART + 1 = int ((length bs - 1) div 32768 + 1)"
    by (simp only: uint_nat) (simp add: MULTI_PART_def zdiv_int)
  moreover have "(length bs - 1) div 32768 + 1 < 2 ^ 31" using assms(1) by simp
  ultimately show ?thesis using wrap_length by (metis nat_int)
qed

lemma packresponse_ok:
  assumes "msg_holds m bs w" "length bs < 2 ^ 31"
  shows "lpackresponse x s ok m w = Some
    (if ok \<and> 0x8000 < length bs
     then Multi (map (frame 2) ((fill_uint32 (word_of_int s) @ [2] @ fill_uint32 (of_nat (length bs))) # response_parts s bs))
     else Single (frame 2 (fill_uint32 (word_of_int s) @ [if ok then 1 else 0] @ take 0x8000 bs)))"
proof -
  have u: "unat (of_nat (length bs) :: u64) = length bs" "uint (of_nat (length bs) :: u64) = int (length bs)"
    using assms(2) by (simp_all add: unat_of_nat uint_nat)
  have gt: "((of_nat (length bs) :: u64) > MULTI_SIZE) = (32768 < length bs)" using u by (simp add: word_less_nat_alt multi_part64(2))
  have z: "((of_nat (length bs) :: u64) = 0) = (bs = [])" using u(1) by (simp add: unat_eq_zero[symmetric])
  obtain ex where m: "(case m of MStr bs \<Rightarrow> (Some (bs @ [0]), of_nat (length bs)) | MPtr p sz \<Rightarrow> (block_bytes x p w, word_of_int sz :: u64)) =
      (Some (bs @ ex), of_nat (length bs))"
    using assms(1) by (auto simp: msg_holds_def at_block_def block_bytes_def)
  have h9: "fill_header 9 = Some (be_bytes 2 9)" using fill_header_eq[of 9] by simp
  show ?thesis
  proof (cases "ok \<and> 32768 < length bs")
    case True
    have "nat (wrap_int (uint (of_nat (length bs) - 1 :: u64) div uint MULTI_PART + 1)) = (length bs - 1) div 32768 + 1"
      using True by (intro response_count[OF assms(2)]) (metis gr_implies_not_zero neq0_conv)
    moreover define n where "n = (length bs - 1) div 32768 + 1"
    ultimately have c: "nat (wrap_int (uint (of_nat (length bs) - 1 :: u64) div uint MULTI_PART + 1)) = n" by simp
    have "0 < length bs" using True by (metis gr_implies_not_zero neq0_conv)
    then have l: "response_loop n (word_of_int s) (of_nat (length bs)) (bs @ ex) = Some (map (frame 2) (response_parts s bs))"
      using assms(2) by (intro response_loop_ok) (simp_all add: n_def)
    have v: "(ucast (of_nat (length bs) :: u64) :: u32) = of_nat (length bs)"
      using assms(2) by (simp add: word_unat_eq_iff unsigned_ucast_eq u(1) unat_of_nat take_bit_nat_eq_self)
    show ?thesis
      unfolding lpackresponse_def m Let_def split c v using True gt h9 by (simp add: frame_def l)
  next
    case False
    have f: "fill_header (int k + 5) = Some (be_bytes 2 (5 + k))" if "k \<le> 32768" for k
      using fill_header_eq[of "5 + k"] that by (simp add: add.commute)
    show ?thesis
    proof (cases "32768 < length bs")
      case True
      then show ?thesis
        using False gt f[of 32768] mem_slice_take[of 32768 "bs @ ex"]
        unfolding lpackresponse_def m Let_def split by (simp add: frame_def temp_ok multi_part64(1,2,5))
    next
      case short: False
      then show ?thesis
        using False gt z u f[of "length bs"] mem_slice_take[of "length bs" "bs @ ex"]
        unfolding lpackresponse_def m Let_def split by (cases ok) (simp_all add: frame_def temp_ok)
    qed
  qed
qed

section \<open>Any packet\<close>

text \<open>What a packet \<open>p\<close> may lead to: values or an error without effect, or values with the end of the packet in a block.\<close>

definition unpack_safe :: "u8 list \<Rightarrow> world \<Rightarrow> ((string + lret list) \<times> world) option \<Rightarrow> bool" where
  "unpack_safe p w res \<longleftrightarrow> (\<exists>r w'. res = Some (r, w') \<and>
     (w' = w \<or> (\<exists>n vs. n \<le> length p \<and> w' = taken_block (drop n p) w \<and> r = Inr vs \<and>
        ret_arg vs 2 = RPtr (w_heap_brk w) \<and> ret_arg vs 3 = RInt (int (length p - n)))))"

lemma unpack_safe_same: "unpack_safe p w (Some (r, w))"
  by (simp add: unpack_safe_def)

lemma return_tail:
  "n \<le> length p \<Longrightarrow> return_buffer (p @ [0]) (int n) (int (length p) - int n) w =
    Some ([RPtr (w_heap_brk w), RInt (int (length p - n))], taken_block (drop n p) w)"
  by (simp add: return_buffer_def mem_slice_def skynet_malloc_def taken_block_def of_nat_diff nat_diff_distrib')

lemma word_at:
  "n + 4 \<le> length p \<Longrightarrow> \<exists>v. uint32_at (p @ [0]) (int n) = Some v"
  by (simp add: uint32_at_def mem_slice_def)

lemma unpack_safe_tail:
  "n \<le> length p \<Longrightarrow> unpack_safe p w (Some (Inr ([u, v] @ [RPtr (w_heap_brk w), RInt (int (length p - n))] @ vs), taken_block (drop n p) w))"
  by (auto simp: unpack_safe_def ret_arg_def intro!: exI[of _ n])

lemma number_safe: "unpack_safe p w (unpackreq_number (p @ [0]) (int (length p)) w)"
  "unpack_safe p w (unpackmreq_number (p @ [0]) (int (length p)) push w)"
  "p \<noteq> [] \<Longrightarrow> unpack_safe p w (unpackmreq_part (p @ [0]) (int (length p)) w)"
proof -
  show "unpack_safe p w (unpackreq_number (p @ [0]) (int (length p)) w)"
  proof (cases "length p < 9")
    case False
    then show ?thesis
      using word_at[of 1 p] word_at[of 5 p] return_tail[of 9 p w] unpack_safe_tail[of 9 p w]
      by (auto simp: unpackreq_number_def)
  qed (simp add: unpackreq_number_def unpack_safe_same)
  show "unpack_safe p w (unpackmreq_number (p @ [0]) (int (length p)) push w)"
    using word_at[of 1 p] word_at[of 5 p] word_at[of 9 p] by (auto simp: unpackmreq_number_def unpack_safe_same)
  show "unpack_safe p w (unpackmreq_part (p @ [0]) (int (length p)) w)" if "p \<noteq> []"
  proof (cases "length p < 5")
    case False
    then show ?thesis
      using word_at[of 1 p] return_tail[of 5 p w] unpack_safe_tail[of 5 p w] that
      by (auto simp: unpackmreq_part_def arr_get_def)
  qed (simp add: unpackmreq_part_def unpack_safe_same)
qed

lemma string_safe: "unpack_safe p w (unpackreq_string (p @ [0]) (int (length p)) w)"
  "unpack_safe p w (unpackmreq_string (p @ [0]) (int (length p)) push w)"
proof -
  define k where "k = unat (p ! 1)"
  have "arr_get (p @ [0]) 1 = Some (p ! 1)" if "2 \<le> length p" using that by (auto simp: arr_get_def nth_append)
  moreover have "uint (p ! 1) = int k" by (simp only: k_def uint_nat)
  ultimately have nm: "map_option uint (arr_get (p @ [0]) 1) = Some (int k)" if "2 \<le> length p"
    using that by (simp only: option.map)
  have sl: "k + 2 \<le> length p \<Longrightarrow> mem_slice (p @ [0]) 2 (int k) = Some (take k (drop 2 p))" by (simp add: mem_slice_def)
  show "unpack_safe p w (unpackreq_string (p @ [0]) (int (length p)) w)"
  proof (cases "2 \<le> length p \<and> k + 6 \<le> length p")
    case True
    obtain v where v: "uint32_at (p @ [0]) (int k + 2) = Some v" using word_at[of "k + 2" p] True by (auto simp: add.commute)
    have e: "2 + int k + 4 = int (k + 6)" "int (length p) - int k - 6 = int (length p) - int (k + 6)" by simp_all
    have rb: "return_buffer (p @ [0]) (2 + int k + 4) (int (length p) - int k - 6) w =
        Some ([RPtr (w_heap_brk w), RInt (int (length p - (k + 6)))], taken_block (drop (k + 6) p) w)"
      unfolding e using return_tail[of "k + 6" p w] True by blast
    then show ?thesis
      using True v sl unpack_safe_tail[of "k + 6" p w] by (simp add: unpackreq_string_def nm)
  qed (auto simp: unpackreq_string_def unpack_safe_same nm)
  show "unpack_safe p w (unpackmreq_string (p @ [0]) (int (length p)) push w)"
  proof (cases "2 \<le> length p \<and> k + 10 \<le> length p")
    case True
    obtain u v where "uint32_at (p @ [0]) (int k + 2) = Some u" "uint32_at (p @ [0]) (int k + 6) = Some v"
      using word_at[of "k + 2" p] word_at[of "k + 6" p] True by (auto simp: add.commute)
    then show ?thesis using True sl by (simp add: unpackmreq_string_def unpack_safe_same nm)
  qed (auto simp: unpackmreq_string_def unpack_safe_same nm)
qed

section \<open>Properties\<close>

text \<open>C6. Requests between nodes of a cluster arrive: when the strings that \<open>packrequest\<close> makes for requests and pushes with
  different sessions are written to one stream, those of each request in order and different requests interleaved in any
  way, then for the packets of the stream the receiver gets each request exactly once, at its last packet, with its
  address, session and message, in a block of its own; nothing else stays allocated or collected.\<close>

theorem cluster_requests_arrive:
  assumes "\<forall>q \<in> set qs. cq_ok q" "distinct (map cq_session qs)"
    "fst ` set tp \<subseteq> {..<length qs}" "\<forall>k < length qs. packs_to y (qs ! k) (packets_of k tp)"
    "heap_ok w" "\<forall>k < length qs. large (RInt (wire_session (qs ! k))) = None"
  shows "\<exists>ps rs large' w'. frames 2 (concat (map snd tp)) = (ps, []) \<and> agent_run x ps (large, w) = Some (rs, large', w') \<and>
    arrived qs (map fst tp) rs w' \<and> distinct (request_blocks rs) \<and> w_heap w \<subseteq>\<^sub>m w_heap w' \<and>
    dom (w_heap w') = dom (w_heap w) \<union> set (request_blocks rs) \<and> set (request_blocks rs) \<inter> dom (w_heap w) = {} \<and>
    (\<forall>k < length qs. large' (RInt (wire_session (qs ! k))) = None)"
proof -
  define un :: "u8 list \<Rightarrow> u8 list" where "un s = drop 2 s" for s
  have un: "un (frame 2 p) = p" for p by (simp add: un_def frame_def)
  define tq where "tq = map (\<lambda>(j, s). (j, un s)) tp"
  have pk: "packets_of k tq = cluster_packets (qs ! k)" if "k < length qs" for k
    using packs_to_packets[of "qs ! k" y "packets_of k tp"] assms(1,4) that
    by (simp add: tq_def packets_of_map un comp_def)
  have in_k: "p \<in> set (packets_of k tp)" if "(k, p) \<in> set tp" for k p using that by force
  have fr: "\<exists>c. s = frame 2 c \<and> length c < 65536" if "(k, s) \<in> set tp" for k s
  proof -
    have "k < length qs" using assms(3) that by force
    then have "packets_of k tp = map (frame 2) (cluster_packets (qs ! k))" "cq_ok (qs ! k)"
      using packs_to_packets[of "qs ! k" y "packets_of k tp"] assms(1,4) by simp_all
    then show ?thesis using in_k[OF that] packets_length[of "qs ! k"] by (metis (no_types, lifting) imageE list.set_map)
  qed
  have m: "map snd tp = map (frame 2) (map snd tq)" "\<And>p. p \<in> set (map snd tq) \<Longrightarrow> length p < 256 ^ 2"
    using fr by (force simp: tq_def un)+
  have f: "frames 2 (concat (map snd tp)) = (map snd tq, [])"
    using frames_frame[of 2 "map snd tq" "[]"] m by (simp add: complete_def)
  have t: "map fst tq = map fst tp" "fst ` set tq = fst ` set tp" by (force simp: tq_def)+
  have "\<forall>k < length qs. progress (qs ! k) (packets_of k tq) (large (RInt (wire_session (qs ! k)))) \<and>
      (packets_of k tq = [] \<longrightarrow> large (RInt (wire_session (qs ! k))) = None)"
    using pk assms(6) by (simp add: progress_def)
  from agent_run_ok[OF assms(1,2) _ assms(5) this, of x] f show ?thesis unfolding t using assms(3) by fastforce
qed

text \<open>C28. Responses come back: what \<open>packresponse\<close> makes of a message is a packet, or several, behind their lengths, from which
  \<open>unpackresponse\<close> gets the session and the result; an error text is cut after 32768 bytes; the parts of
  a larger message follow its size, and \<open>concat\<close> makes the message of them again.\<close>

theorem cluster_response_roundtrip:
  assumes "0 \<le> session" "session < 2 ^ 32" "length bs < 2 ^ 31" "msg_holds m bs w"
  shows "case lpackresponse x session ok m w of
      Some (Single s) \<Rightarrow> (\<exists>p. s = frame 2 p \<and> lunpackresponse p = [RInt session, RBool ok, RStr (take 0x8000 bs)]) \<and>
        (ok \<longrightarrow> length bs \<le> 0x8000)
    | Some (Multi l) \<Rightarrow> ok \<and> (\<exists>ps ss. l = map (frame 2) ps \<and> ss \<noteq> [] \<and> concat ss = bs \<and>
        map lunpackresponse ps = [RInt session, RBool True, RInt (int (length bs)), RBool True] # part_results session ss \<and>
        lconcat (Some (RInt (int (length bs)) # map RStr ss)) w' =
          Some ([RPtr (w_heap_brk w'), RInt (int (length bs))], taken_block bs w'))
    | None \<Rightarrow> False"
proof (cases "ok \<and> 0x8000 < length bs")
  case True
  let ?h = "fill_uint32 (word_of_int session) @ [2] @ fill_uint32 (of_nat (length bs))"
  obtain ss where ss: "ss \<noteq> []" "concat ss = bs" "map lunpackresponse (response_parts session bs) = part_results session ss"
    using response_parts_ok[OF assms(1,2)] by blast
  have "uint (of_nat (length bs) :: u32) = int (length bs)" using uint_session[of "int (length bs)"] assms(3) by simp
  then have "map lunpackresponse (?h # response_parts session bs) =
      [RInt session, RBool True, RInt (int (length bs)), RBool True] # part_results session ss"
    using unpack_response(3)[OF assms(1,2)] ss(3) by simp
  moreover have "lpackresponse x session ok m w = Some (Multi (map (frame 2) (?h # response_parts session bs)))"
    using packresponse_ok[OF assms(4,3), of x session ok] True by simp
  ultimately show ?thesis
    using True ss(1,2) concat_parts[OF assms(3) ss(2), of w']
    by (simp only: option.case packed.case simp_thms) (intro exI[of _ "?h # response_parts session bs"] exI[of _ ss] conjI; simp)
next
  case False
  then show ?thesis
    using packresponse_ok[OF assms(4,3), of x session ok] unpack_response(1,2)[OF assms(1,2), of "take 32768 bs"] by auto
qed


section \<open>Examples\<close>

definition demo_small :: cluster_request where
  "demo_small = \<lparr>cq_addr = ANum 7, cq_session = 1, cq_push = False, cq_data = [1, 2]\<rparr>"

definition demo_large :: cluster_request where
  "demo_large = \<lparr>cq_addr = AStr [64, 97], cq_session = 2, cq_push = True, cq_data = replicate 40000 9\<rparr>"

lemma demo_requests:
  "cq_ok demo_small" "cq_ok demo_large" "\<not> cq_large demo_small" "cq_large demo_large" "wire_session demo_small = 1" "wire_session demo_large = 2"
  "cq_session demo_small = 1" "cq_session demo_large = 2"
  by (simp_all add: cq_ok_def cq_large_def demo_small_def demo_large_def wire_session_def)

lemma demo_packs:
  assumes "cq_ok q"
  shows "packs_to demo_ext q (map (frame 2) (cluster_packets q))"
proof -
  let ?w = "demo_node\<lparr>w_heap := [5 \<mapsto> Bytes (cq_data q)]\<rparr>"
  have "at_block (cq_data q) 5 ?w" by (simp add: at_block_def)
  then show ?thesis
    unfolding packs_to_def using packrequest_ok[OF assms, of 5 ?w demo_ext]
    by (intro exI[of _ "5 :: addr"] exI[of _ ?w]) (simp add: cluster_packets_def)
qed

lemma demo_parts: "part_packets s (replicate 40000 b) =
  [[2] @ fill_uint32 (word_of_int s) @ replicate 32768 b, [3] @ fill_uint32 (word_of_int s) @ replicate 7232 b]"
  by (simp add: part_packets.simps[of s "replicate 40000 b"] part_packets.simps[of s "replicate 7232 b"])

theorem cluster_requests_arrive_witness:
  "\<exists>ps rs large' w' a b. frames 2 (concat [frame 2 (head_packet demo_large), frame 2 (part_packets 2 (cq_data demo_large) ! 0),
       frame 2 (head_packet demo_small), frame 2 (part_packets 2 (cq_data demo_large) ! 1)]) = (ps, []) \<and>
     agent_run demo_ext ps (Map.empty, demo_node\<lparr>w_heap := Map.empty\<rparr>) = Some (rs, large', w') \<and>
     rs = [Waiting, Waiting, Request (RInt 7) (RInt 1) a 2 False, Request (RStr [64, 97]) (RInt 2) b 40000 True] \<and>
     w_heap w' = [a \<mapsto> Bytes [1, 2], b \<mapsto> Bytes (replicate 40000 9)] \<and> a \<noteq> b"
proof -
  let ?pp = "part_packets 2 (cq_data demo_large)"
  let ?tp = "[(1, frame 2 (head_packet demo_large)), (1, frame 2 (?pp ! 0)), (0, frame 2 (head_packet demo_small)), (1 :: nat, frame 2 (?pp ! 1))]"
  let ?qs = "[demo_small, demo_large]" and ?w = "demo_node\<lparr>w_heap := Map.empty\<rparr>"
  have pp: "?pp = [?pp ! 0, ?pp ! 1]" by (simp add: demo_large_def demo_parts)
  have c: "cluster_packets demo_large = [head_packet demo_large, ?pp ! 0, ?pp ! 1]" "cluster_packets demo_small = [head_packet demo_small]"
    using pp by (simp_all add: cluster_packets_def demo_requests)
  have k: "(\<forall>k < length ?qs. P k) \<longleftrightarrow> P 0 \<and> P 1" for P by (auto simp: less_Suc_eq)
  have p: "\<forall>k < length ?qs. packs_to demo_ext (?qs ! k) (packets_of k ?tp)"
    using demo_packs[OF demo_requests(1)] demo_packs[OF demo_requests(2)] unfolding k c by simp
  have h: "heap_ok ?w" by (simp add: heap_ok_def)
  obtain ps rs large' w' where r: "frames 2 (concat (map snd ?tp)) = (ps, [])" "agent_run demo_ext ps (Map.empty, ?w) = Some (rs, large', w')"
    "arrived ?qs (map fst ?tp) rs w'" "distinct (request_blocks rs)" "dom (w_heap w') = dom (w_heap ?w) \<union> set (request_blocks rs)"
    using cluster_requests_arrive[of ?qs ?tp demo_ext ?w Map.empty demo_ext, OF _ _ _ p h] by (auto simp: demo_requests)
  obtain r1 r2 r3 r4 where rs: "rs = [r1, r2, r3, r4]" using r(3) by (auto elim!: arrived.elims)
  have a: "r1 = Waiting" "r2 = Waiting" "delivered demo_small r3 w'" "delivered demo_large r4 w'" using r(3) by (simp_all add: rs)
  obtain a b where ab: "r3 = Request (RInt 7) (RInt 1) a 2 False" "r4 = Request (RStr [64, 97]) (RInt 2) b 40000 True"
    "w_heap w' a = Some (Bytes [1, 2])" "w_heap w' b = Some (Bytes (replicate 40000 9))"
    using a(3,4) by (auto simp: delivered_def demo_requests) (auto simp: demo_small_def demo_large_def addr_value_def)
  have "w_heap w' c = None" if "c \<noteq> a" "c \<noteq> b" for c using r(5) that by (auto simp: rs a ab)
  then have "w_heap w' = [a \<mapsto> Bytes [1, 2], b \<mapsto> Bytes (replicate 40000 9)]" "a \<noteq> b" using ab r(4) by (auto simp: rs a fun_eq_iff)
  then show ?thesis using r(1,2) rs a(1,2) ab(1,2) by auto
qed

theorem cluster_response_roundtrip_witness:
  "\<exists>ps ss. lpackresponse demo_ext 3 True (MStr (replicate 40000 9)) demo_node = Some (Multi (map (frame 2) ps)) \<and> concat ss = replicate 40000 9 \<and>
     map lunpackresponse ps = [RInt 3, RBool True, RInt 40000, RBool True] # part_results 3 ss"
proof -
  let ?bs = "replicate 40000 9 :: u8 list"
  have m: "msg_holds (MStr ?bs) ?bs demo_node" by (simp add: msg_holds_def)
  have p: "(0 :: int) \<le> 3" "(3 :: int) < 2 ^ 32" "length ?bs < 2 ^ 31" by simp_all
  obtain l where l: "lpackresponse demo_ext 3 True (MStr ?bs) demo_node = Some (Multi l)"
    using packresponse_ok[OF m p(3), of demo_ext 3 True] by simp
  have "length ?bs = 40000" by simp
  then show ?thesis
    using cluster_response_roundtrip[OF p m, where ok = True and x = demo_ext and w' = demo_node] unfolding l option.case packed.case
    by (metis of_nat_numeral)
qed


end
