(* ===== verification/SprotoPack.thy ===== *)
theory SprotoPack
  imports Clib
begin

text \<open>
  The packing of sproto messages, the last part of \<open>lualib-src/sproto/sproto.c\<close>, and the functions \<open>pack\<close> and \<open>unpack\<close>
  of \<open>lsproto.c\<close>: zeros are left out of segments of 8 bytes, and runs of segments with few zeros are kept as they are. The
  packer first writes segments and later runs over them; it is shown to write the format given by \<open>enc_segs\<close>, and the unpacker to
  read the format given by \<open>unpack_spec\<close>, for any sizes of their buffers. None is an access outside a buffer.
\<close>

section \<open>Packing\<close>

text \<open>Writing bytes at a position of a buffer.\<close>

definition buf_put :: "u8 list \<Rightarrow> int \<Rightarrow> u8 list \<Rightarrow> u8 list option" where
  "buf_put buf p bs =
     (if 0 \<le> p \<and> p + int (length bs) \<le> int (length buf)
      then Some (take (nat p) buf @ bs @ drop (nat p + length bs) buf) else None)"

text \<open>The loop of \<open>pack_seg\<close> over the bytes of a segment: the header bits, the number of bytes that are not zero, and the
  buffer, of which \<open>sz\<close> bytes are left at \<open>p\<close>.\<close>

fun seg_loop :: "u8 list \<Rightarrow> nat \<Rightarrow> u8 \<Rightarrow> int \<Rightarrow> u8 list \<Rightarrow> int \<Rightarrow> int \<Rightarrow> (u8 \<times> int \<times> u8 list) option" where
  "seg_loop [] i header notzero buf p sz = Some (header, notzero, buf)"
| "seg_loop (b # src) i header notzero buf p sz =
     (if b \<noteq> 0 then
        if sz > 0 then do {
          buf \<leftarrow> arr_set buf p b;
          seg_loop src (Suc i) (header OR push_bit i 1) (notzero + 1) buf (p + 1) (sz - 1) }
        else seg_loop src (Suc i) (header OR push_bit i 1) (notzero + 1) buf p sz
      else seg_loop src (Suc i) header notzero buf p sz)"

definition pack_seg :: "u8 list \<Rightarrow> u8 list \<Rightarrow> int \<Rightarrow> int \<Rightarrow> int \<Rightarrow> (int \<times> u8 list) option" where
  "pack_seg src buf p sz n = do {
     let sz = sz - 1;
     (header, notzero, buf) \<leftarrow> seg_loop src 0 0 0 buf (p + 1) sz;
     let notzero = (if (notzero = 7 \<or> notzero = 6) \<and> n > 0 then 8 else notzero);
     if notzero = 8 then Some (if n > 0 then 8 else 10, buf)
     else do {
       buf \<leftarrow> (if sz < 0 then Some buf else arr_set buf p header);
       Some (notzero + 1, buf) } }"

text \<open>A run of segments that starts at \<open>src\<close> in the input; a run that starts in the padded copy of the last segment would not be in the
  input.\<close>

definition write_ff :: "u8 list \<Rightarrow> nat option \<Rightarrow> u8 list \<Rightarrow> int \<Rightarrow> int \<Rightarrow> u8 list option" where
  "write_ff input src buf des n = do {
     s \<leftarrow> src;
     buf \<leftarrow> buf_put buf des [0xff];
     buf \<leftarrow> buf_put buf (des + 1) [word_of_int (n - 1)];
     if s + nat n * 8 \<le> length input then buf_put buf (des + 2) (take (nat n * 8) (drop s input))
     else do {
       let sz = length input - s;
       buf \<leftarrow> buf_put buf (des + 2) (drop s input);
       buf_put buf (des + 2 + int sz) (replicate (nat n * 8 - sz) 0) } }"

record pack_state =
  pk_ff_src :: "nat option"
  pk_ff_des :: int
  pk_ff_n :: int
  pk_size :: int
  pk_buf :: "u8 list"
  pk_bufsz :: int

definition write_run :: "u8 list \<Rightarrow> pack_state \<Rightarrow> int \<Rightarrow> pack_state option" where
  "write_run input st n =
     (if pk_bufsz st \<ge> 0 then do {
        buf \<leftarrow> write_ff input (pk_ff_src st) (pk_buf st) (pk_ff_des st) n;
        Some (st\<lparr>pk_buf := buf\<rparr>) }
      else Some st)"

text \<open>One round of the loop. The position in the buffer is \<open>pk_size\<close>.\<close>

definition pack_round :: "u8 list \<Rightarrow> nat \<Rightarrow> pack_state \<Rightarrow> pack_state option" where
  "pack_round input i st = do {
     let padding = i + 8 - length input;
     let seg = take 8 (drop i input) @ replicate padding 0;
     let src = (if padding > 0 then None else Some i);
     let buffer = pk_size st;
     (n, buf) \<leftarrow> pack_seg seg (pk_buf st) buffer (pk_bufsz st) (pk_ff_n st);
     let st = st\<lparr>pk_buf := buf, pk_bufsz := pk_bufsz st - n\<rparr>;
     st \<leftarrow>
       (if n = 10 then Some (st\<lparr>pk_ff_src := src, pk_ff_des := buffer, pk_ff_n := 1\<rparr>)
        else if n = 8 \<and> pk_ff_n st > 0 then do {
          let st = st\<lparr>pk_ff_n := pk_ff_n st + 1\<rparr>;
          if pk_ff_n st = 256 then do { st \<leftarrow> write_run input st 256; Some (st\<lparr>pk_ff_n := 0\<rparr>) }
          else Some st }
        else if pk_ff_n st > 0 then do { st \<leftarrow> write_run input st (pk_ff_n st); Some (st\<lparr>pk_ff_n := 0\<rparr>) }
        else Some st);
     Some (st\<lparr>pk_size := pk_size st + n\<rparr>) }"

function pack_loop :: "u8 list \<Rightarrow> nat \<Rightarrow> pack_state \<Rightarrow> pack_state option" where
  "pack_loop input i st =
     (if i < length input then do { st \<leftarrow> pack_round input i st; pack_loop input (i + 8) st } else Some st)"
  by pat_completeness auto
termination
  by (relation "measure (\<lambda>(input, i, st). length input - i)") auto

declare pack_loop.simps [simp del]

text \<open>The input has \<open>srcsz\<close> bytes; the result is the size and the buffer. Sizes are assumed to be far from the limit of \<open>int\<close>.\<close>

definition sproto_pack :: "u8 list \<Rightarrow> u8 list \<Rightarrow> int \<Rightarrow> (int \<times> u8 list) option" where
  "sproto_pack input buf bufsz = do {
     st \<leftarrow> pack_loop input 0 \<lparr>pk_ff_src = None, pk_ff_des = 0, pk_ff_n = 0, pk_size = 0, pk_buf = buf, pk_bufsz = bufsz\<rparr>;
     st \<leftarrow> (if pk_bufsz st \<ge> 0 \<and> pk_ff_n st > 0 then write_run input st (pk_ff_n st) else Some st);
     Some (pk_size st, pk_buf st) }"

section \<open>Unpacking\<close>

record unpack_state =
  up_src :: "u8 list"
  up_buf :: "u8 list"
  up_pos :: int
  up_bufsz :: int
  up_size :: int

definition unpack_byte :: "u8 \<Rightarrow> unpack_state \<Rightarrow> unpack_state option" where
  "unpack_byte b st =
     (if up_bufsz st > 0 then do {
        buf \<leftarrow> arr_set (up_buf st) (up_pos st) b;
        Some (st\<lparr>up_buf := buf, up_pos := up_pos st + 1, up_bufsz := up_bufsz st - 1\<rparr>) }
      else Some st)"

text \<open>The loop over the bits of a header, from bit \<open>i\<close> on. \<open>Inl ()\<close> is the return of -1.\<close>

fun bits_loop :: "nat \<Rightarrow> nat \<Rightarrow> u8 \<Rightarrow> unpack_state \<Rightarrow> (unit + unpack_state) option" where
  "bits_loop 0 i header st = Some (Inr st)"
| "bits_loop (Suc k) i header st =
     (if drop_bit i header AND 1 = 1 then
        (case up_src st of
           [] \<Rightarrow> Some (Inl ())
         | b # src \<Rightarrow> do {
             st \<leftarrow> unpack_byte b st;
             bits_loop k (Suc i) header (st\<lparr>up_src := src, up_size := up_size st + 1\<rparr>) })
      else do {
        st \<leftarrow> unpack_byte 0 st;
        bits_loop k (Suc i) header (st\<lparr>up_size := up_size st + 1\<rparr>) })"

definition unpack_ff :: "unpack_state \<Rightarrow> (unit + unpack_state) option" where
  "unpack_ff st =
     (case up_src st of
        [] \<Rightarrow> Some (Inl ())
      | b # src \<Rightarrow> do {
          let n = (unat b + 1) * 8;
          if length src < n then Some (Inl ())
          else do {
            buf \<leftarrow> (if up_bufsz st \<ge> int n then buf_put (up_buf st) (up_pos st) (take n src) else Some (up_buf st));
            Some (Inr (st\<lparr>up_src := drop n src, up_buf := buf, up_pos := up_pos st + int n, up_bufsz := up_bufsz st - int n,
              up_size := up_size st + int n\<rparr>)) } })"

text \<open>The loop returns, as \<open>sp_unpack_loop_ok\<close> shows.\<close>

partial_function (option) sp_unpack_loop :: "unpack_state \<Rightarrow> (unit + unpack_state) option" where
  "sp_unpack_loop st =
     (case up_src st of
        [] \<Rightarrow> Some (Inr st)
      | header # src \<Rightarrow>
          (case (if header = 0xff then unpack_ff (st\<lparr>up_src := src\<rparr>) else bits_loop 8 0 header (st\<lparr>up_src := src\<rparr>)) of
             None \<Rightarrow> None
           | Some (Inl u) \<Rightarrow> Some (Inl u)
           | Some (Inr st) \<Rightarrow> sp_unpack_loop st))"

declare sp_unpack_loop.simps [code]

definition sproto_unpack :: "u8 list \<Rightarrow> u8 list \<Rightarrow> int \<Rightarrow> (unit + int \<times> u8 list) option" where
  "sproto_unpack src buf bufsz = do {
     r \<leftarrow> sp_unpack_loop \<lparr>up_src = src, up_buf = buf, up_pos = 0, up_bufsz = bufsz, up_size = 0\<rparr>;
     Some (case r of Inl u \<Rightarrow> Inl u | Inr st \<Rightarrow> Inr (up_size st, up_buf st)) }"

section \<open>The Lua functions\<close>

text \<open>The output buffer, with its size, is an upvalue of \<open>pack\<close> and of \<open>unpack\<close>; its content is only used within a call. The loop of
  \<open>expand_buffer\<close> does not end for a buffer without bytes, which is never made.\<close>

definition ENCODE_BUFFERSIZE :: nat where "ENCODE_BUFFERSIZE = 2050"
definition ENCODE_MAXSIZE :: int where "ENCODE_MAXSIZE = 0x1000000"

function grow_size :: "int \<Rightarrow> int \<Rightarrow> int option" where
  "grow_size osz nsz =
     (if osz \<le> 0 then None
      else do {
        osz \<leftarrow> cint (osz * 2);
        if osz < nsz then grow_size osz nsz else Some osz })"
  by pat_completeness auto
termination
  by (relation "measure (\<lambda>(osz, nsz). nat (nsz - osz))") (auto simp: cint_eq_Some)

declare grow_size.simps [simp del]

definition expand_buffer :: "int \<Rightarrow> int \<Rightarrow> (string + u8 list) option" where
  "expand_buffer osz nsz = do {
     osz \<leftarrow> grow_size osz nsz;
     if osz > ENCODE_MAXSIZE then Some (Inl (''object is too large (>'' @ fmt_d ENCODE_MAXSIZE @ '')''))
     else Some (Inr (replicate (nat osz) 0)) }"

text \<open>The input is a string, or the bytes of a userdata.\<close>

definition sproto_lpack :: "u8 list \<Rightarrow> u8 list \<Rightarrow> ((string + u8 list) \<times> u8 list) option" where
  "sproto_lpack buffer output = do {
     let sz = length buffer;
     let maxsz = (sz + 2047) div 2048 * 2 + sz + 2;
     out \<leftarrow> (if length output < maxsz then expand_buffer (int (length output)) (wrap_int (int maxsz)) else Some (Inr output));
     (case out of
        Inl e \<Rightarrow> Some (Inl e, output)
      | Inr output \<Rightarrow> do {
          (bytes, output) \<leftarrow> sproto_pack (take (nat (wrap_int (int sz))) buffer) output (wrap_int (int maxsz));
          if bytes > int maxsz then Some (Inl (''packing error, return size = '' @ fmt_d bytes), output)
          else Some (Inr (take (nat bytes) output), output) }) }"

definition sproto_lunpack :: "u8 list \<Rightarrow> u8 list \<Rightarrow> ((string + u8 list) \<times> u8 list) option" where
  "sproto_lunpack buffer output = do {
     let sz = take (nat (wrap_int (int (length buffer)))) buffer;
     r \<leftarrow> sproto_unpack sz output (int (length output));
     (case r of
        Inl _ \<Rightarrow> Some (Inl ''Invalid unpack stream'', output)
      | Inr (r, output) \<Rightarrow>
          if r > int (length output) then do {
            out \<leftarrow> expand_buffer (int (length output)) r;
            (case out of
               Inl e \<Rightarrow> Some (Inl e, output)
             | Inr output \<Rightarrow> do {
                 r \<leftarrow> sproto_unpack sz output r;
                 (case r of
                    Inl _ \<Rightarrow> Some (Inl ''Invalid unpack stream'', output)
                  | Inr (r, output) \<Rightarrow> Some (Inr (take (nat r) output), output)) }) }
          else Some (Inr (take (nat r) output), output)) }"

section \<open>The format\<close>

text \<open>Segments of 8 bytes, the last one filled with zeros. A segment is a header, whose bits tell which bytes are not zero, and these
  bytes. A run starts with a segment without zeros, goes on while at most two bytes are zero, for at most 256 segments,
  and is kept as it is behind two bytes.\<close>

fun segs :: "u8 list \<Rightarrow> u8 list list" where
  "segs [] = []"
| "segs (b # bs) = (take 8 (b # bs) @ replicate (8 - length (b # bs)) 0) # segs (drop 7 bs)"

definition nonzeros :: "u8 list \<Rightarrow> u8 list" where
  "nonzeros s = filter (\<lambda>b. b \<noteq> 0) s"

fun seg_header :: "nat \<Rightarrow> u8 list \<Rightarrow> u8" where
  "seg_header i [] = 0"
| "seg_header i (b # bs) = (if b \<noteq> 0 then push_bit i 1 else 0) OR seg_header (Suc i) bs"

definition run_bytes :: "u8 list \<Rightarrow> u8 list" where
  "run_bytes acc = (if acc = [] then [] else 0xff # of_nat (length acc div 8 - 1) # acc)"

text \<open>The encoding of segments behind the open run \<open>acc\<close>.\<close>

fun enc_segs :: "u8 list \<Rightarrow> u8 list list \<Rightarrow> u8 list" where
  "enc_segs acc [] = run_bytes acc"
| "enc_segs acc (s # ss) =
     (if acc = [] then
        if length (nonzeros s) = 8 then enc_segs s ss
        else seg_header 0 s # nonzeros s @ enc_segs [] ss
      else if length (nonzeros s) \<ge> 6 then
        if length (acc @ s) = 2048 then run_bytes (acc @ s) @ enc_segs [] ss
        else enc_segs (acc @ s) ss
      else run_bytes acc @ seg_header 0 s # nonzeros s @ enc_segs [] ss)"

lemma segs_step:
  assumes "bs \<noteq> []"
  shows "segs bs = (take 8 bs @ replicate (8 - length bs) 0) # segs (drop 8 bs)"
  using assms by (cases bs) auto

lemma segs_length: "s \<in> set (segs bs) \<Longrightarrow> length s = 8"
  by (induction bs rule: segs.induct) auto

text \<open>The zeros that fill the last segment.\<close>

definition pad_zeros :: "u8 list \<Rightarrow> u8 list" where
  "pad_zeros bs = replicate (7 - (length bs + 7) mod 8) 0"

lemma concat_segs: "concat (segs bs) = bs @ pad_zeros bs"
proof (induction bs rule: segs.induct)
  case (2 b bs)
  show ?case
  proof (cases "length (b # bs) \<le> 8")
    case True
    then have "(length (b # bs) + 7) mod 8 = length bs" using mod_add_self1[of 8 "length bs"] by simp
    then show ?thesis using True by (simp add: pad_zeros_def)
  next
    case False
    then have "length (b # bs) + 7 = 8 + (length (drop 7 bs) + 7)" by simp
    then have "(length (b # bs) + 7) mod 8 = (length (drop 7 bs) + 7) mod 8" by (simp only: mod_add_self1)
    then show ?thesis using 2 False by (simp add: pad_zeros_def)
  qed
qed (simp add: pad_zeros_def)

section \<open>Bounds\<close>

definition run_cost :: "nat \<Rightarrow> nat" where
  "run_cost k = (k + 255) div 256 * 2"

lemma run_cost: "run_cost 0 = 0" "0 < k \<Longrightarrow> 2 \<le> run_cost k" "run_cost (256 + k) = 2 + run_cost k" "j \<le> k \<Longrightarrow> run_cost j \<le> run_cost k"
proof -
  have "256 + k + 255 = 256 + (k + 255)" by simp
  then show "run_cost (256 + k) = 2 + run_cost k" unfolding run_cost_def by (simp only: div_add_self1) simp
qed (auto simp: run_cost_def div_le_mono)

lemma length_nonzeros: "length (nonzeros s) \<le> length s" "length (nonzeros (s @ replicate k 0)) = length (nonzeros s)"
  by (auto simp: nonzeros_def)

lemma enc_length:
  "length acc = 8 * n \<Longrightarrow> n < 256 \<Longrightarrow> length (enc_segs acc (segs bs)) \<le> 8 * n + length bs + 2 + run_cost (n + length (segs bs))"
proof (induction bs arbitrary: acc n rule: length_induct)
  case (1 bs)
  show ?case
  proof (cases "bs = []")
    case True
    then show ?thesis using 1(2) run_cost(2)[of n] by (auto simp: run_bytes_def)
  next
    case False
    define s where "s = take 8 bs @ replicate (8 - length bs) (0 :: u8)"
    define z where "z = length (nonzeros s)"
    have st: "segs bs = s # segs (drop 8 bs)" using segs_step[OF False] by (simp add: s_def)
    have ls: "length s = 8" by (simp add: s_def)
    have z: "z \<le> 8" "z \<le> length bs" "8 \<le> length bs \<or> drop 8 bs = []"
      using length_nonzeros(1)[of s] ls length_nonzeros(1)[of "take 8 bs"] by (auto simp: z_def s_def length_nonzeros)
    have IH: "length (enc_segs acc' (segs (drop 8 bs))) \<le> 8 * m + length (drop 8 bs) + 2 + run_cost (m + length (segs (drop 8 bs)))"
      if "length acc' = 8 * m" "m < 256" for acc' m
      using 1(1)[rule_format, of "drop 8 bs" acc' m] False that by (cases bs) simp_all
    have rb: "length (run_bytes acc') = 2 + length acc'" if "acc' \<noteq> []" for acc' :: "u8 list" using that by (simp add: run_bytes_def)
    have ne: "s \<noteq> []" using ls by auto
    show ?thesis
    proof (cases "drop 8 bs = []")
      case True
      then show ?thesis
        using z(1,2) 1(2,3) ls ne rb[of acc] rb[of s] rb[of "acc @ s"] run_cost(2)[of "n + 1"] unfolding st enc_segs.simps z_def[symmetric]
        by (auto simp flip: z_def simp: run_bytes_def)
    next
      case more: False
      define L where "L = length (drop 8 bs)"
      have l: "length bs = 8 + L" using more by (simp add: L_def)
      let ?k = "length (segs (drop 8 bs))"
      note IH = IH[folded L_def]
      have n: "acc = [] \<Longrightarrow> n = 0" "(length (acc @ s) = 2048) = (n = 255)" using 1(2) ls by auto
      consider "acc = []" "z = 8" | "acc = []" "z < 8" | "acc \<noteq> []" "6 \<le> z" "n = 255" | "acc \<noteq> []" "6 \<le> z" "n \<noteq> 255" | "acc \<noteq> []" "z < 6"
        using z(1) by linarith
      then show ?thesis
      proof cases
        case 1
        then have "enc_segs acc (segs bs) = enc_segs s (segs (drop 8 bs))" by (simp add: st z_def)
        then show ?thesis using IH[of s 1] n(1)[OF 1(1)] ls l st by simp
      next
        case 2
        then have "length (enc_segs acc (segs bs)) = 1 + z + length (enc_segs [] (segs (drop 8 bs)))" by (simp add: st z_def)
        then show ?thesis using IH[of "[]" 0] n(1)[OF 2(1)] l run_cost(4)[of ?k "Suc ?k"] st 2(2) by simp
      next
        case 3
        then have "length (enc_segs acc (segs bs)) = 2050 + length (enc_segs [] (segs (drop 8 bs)))"
          using rb[of "acc @ s"] n(2) by (simp add: st z_def)
        then show ?thesis using IH[of "[]" 0] l run_cost(3)[of ?k] st 3(3) by simp
      next
        case 4
        then have "enc_segs acc (segs bs) = enc_segs (acc @ s) (segs (drop 8 bs))" using n(2) by (simp add: st z_def)
        then show ?thesis using IH[of "acc @ s" "n + 1"] l "1.prems" ls st 4(3) by simp
      next
        case 5
        then have "length (enc_segs acc (segs bs)) = 3 + 8 * n + z + length (enc_segs [] (segs (drop 8 bs)))"
          using rb[of acc] "1.prems"(1) by (simp add: st z_def)
        then show ?thesis using IH[of "[]" 0] l run_cost(4)[of ?k "n + Suc ?k"] st 5(2) by simp
      qed
    qed
  qed
qed

section \<open>The packer\<close>

lemma take_list_update: "k \<le> p \<Longrightarrow> take k (xs[p := v]) = take k xs"
  by simp

lemma seg_loop_ok:
  assumes "0 \<le> p" "p + sz \<le> int (length buf)"
  shows "\<exists>buf'. seg_loop s i h z buf p sz = Some (h OR seg_header i s, z + int (length (nonzeros s)), buf') \<and>
    length buf' = length buf \<and> take (nat p) buf' = take (nat p) buf \<and>
    (int (length (nonzeros s)) \<le> sz \<longrightarrow> take (nat p + length (nonzeros s)) buf' = take (nat p) buf @ nonzeros s)"
  using assms
proof (induction s arbitrary: i h z buf p sz)
  case Nil
  then show ?case by (simp add: nonzeros_def)
next
  case (Cons b s)
  consider "b = 0" | "b \<noteq> 0" "0 < sz" | "b \<noteq> 0" "sz \<le> 0" by linarith
  then show ?case
  proof cases
    case 1
    then show ?thesis using Cons.IH[OF Cons.prems, of "Suc i" h z] by (simp add: nonzeros_def)
  next
    case 2
    let ?buf = "buf[nat p := b]"
    have p: "nat p < length buf" "nat (p + 1) = Suc (nat p)" using Cons.prems 2 by auto
    have t: "take (Suc (nat p)) ?buf = take (nat p) buf @ [b]" using p(1) by (simp add: take_Suc_conv_app_nth take_list_update)
    obtain buf' where b: "seg_loop s (Suc i) (h OR push_bit i 1) (z + 1) ?buf (p + 1) (sz - 1) =
        Some ((h OR push_bit i 1) OR seg_header (Suc i) s, z + 1 + int (length (nonzeros s)), buf')"
      "length buf' = length buf" "take (Suc (nat p)) buf' = take (nat p) buf @ [b]"
      "int (length (nonzeros s)) \<le> sz - 1 \<longrightarrow> take (Suc (nat p) + length (nonzeros s)) buf' = take (nat p) buf @ b # nonzeros s"
      using Cons.IH[of "p + 1" "sz - 1" ?buf "Suc i" "h OR push_bit i 1" "z + 1"] Cons.prems 2 by (auto simp: p(2) t)
    have "take (nat p) buf' = take (nat p) buf"
      using arg_cong[OF b(3), of "take (nat p)"] p(1) by simp
    moreover have "arr_set buf p b = Some ?buf" using Cons.prems p(1) by (simp add: arr_set_eq_Some)
    ultimately show ?thesis using 2 b by (auto simp: nonzeros_def or.assoc)
  next
    case 3
    then show ?thesis
      using Cons.IH[OF Cons.prems, of "Suc i" "h OR push_bit i 1" "z + 1"] by (auto simp: nonzeros_def or.assoc)
  qed
qed

text \<open>What \<open>pack_seg\<close> returns: the number of bytes of the segment, and the buffer.\<close>

lemma pack_seg_ok:
  assumes "0 \<le> p" "p + sz \<le> int (length buf)" "length s = 8"
  shows "\<exists>buf'. pack_seg s buf p sz n =
      Some (if length (nonzeros s) = 8 \<or> 6 \<le> length (nonzeros s) \<and> 0 < n then if 0 < n then 8 else 10 else int (length (nonzeros s)) + 1, buf') \<and>
    length buf' = length buf \<and> take (nat p) buf' = take (nat p) buf \<and>
    (length (nonzeros s) < 8 \<and> \<not> (6 \<le> length (nonzeros s) \<and> 0 < n) \<and> int (length (nonzeros s)) < sz \<longrightarrow>
      take (Suc (nat p + length (nonzeros s))) buf' = take (nat p) buf @ seg_header 0 s # nonzeros s)"
proof -
  let ?z = "length (nonzeros s)"
  have z: "?z \<le> 8" using length_nonzeros(1)[of s] assms(3) by simp
  obtain buf' where b: "seg_loop s 0 0 0 buf (p + 1) (sz - 1) = Some (seg_header 0 s, int ?z, buf')" "length buf' = length buf"
    "take (nat (p + 1)) buf' = take (nat (p + 1)) buf"
    "int ?z \<le> sz - 1 \<longrightarrow> take (nat (p + 1) + ?z) buf' = take (nat (p + 1)) buf @ nonzeros s"
    using seg_loop_ok[of "p + 1" "sz - 1" buf s 0 0 0] assms(1,2) by auto
  have p1: "nat (p + 1) = Suc (nat p)" using assms(1) by simp
  have t: "take (nat p) buf' = take (nat p) buf" using arg_cong[OF b(3), of "take (nat p)"] by (simp add: p1)
  show ?thesis
  proof (cases "?z = 8 \<or> 6 \<le> ?z \<and> 0 < n")
    case True
    then show ?thesis using b t z by (auto simp: pack_seg_def)
  next
    case False
    show ?thesis
    proof (cases "sz < 1")
      case True
      then show ?thesis using b t z False by (auto simp: pack_seg_def)
    next
      case room: False
      let ?buf = "buf'[nat p := seg_header 0 s]"
      have p: "nat p < length buf'" using room assms(1,2) b(2) by linarith
      have a: "arr_set buf' p (seg_header 0 s) = Some ?buf" using p assms(1) by (simp add: arr_set_eq_Some)
      have "take (Suc (nat p + ?z)) ?buf = take (nat p) buf @ seg_header 0 s # nonzeros s" if "int ?z < sz"
      proof -
        have l: "nat p + ?z < length buf" using that assms(1,2) by linarith
        have "take (Suc (nat p + ?z)) buf' = take (nat p) buf @ [buf ! nat p] @ nonzeros s"
          using b(4) that l by (simp add: p1 take_Suc_conv_app_nth)
        then have "(take (Suc (nat p + ?z)) buf')[nat p := seg_header 0 s] = take (nat p) buf @ seg_header 0 s # nonzeros s"
          using l by (simp add: list_update_append)
        then show ?thesis by (simp add: take_update_swap)
      qed
      then show ?thesis using b a t z False room by (auto simp: pack_seg_def take_list_update)
    qed
  qed
qed

lemma buf_put_ok: "p + length bs \<le> length buf \<Longrightarrow> buf_put buf (int p) bs = Some (take p buf @ bs @ drop (p + length bs) buf)"
  by (simp add: buf_put_def)

text \<open>A run is written over the place that was left for it.\<close>

lemma write_ff_ok:
  assumes "d + 2 + n * 8 \<le> length buf" "0 < n" "n \<le> 256" "run = take (n * 8) (drop s input @ zs)" "length run = n * 8"
    "length input < s + n * 8 \<longrightarrow> zs = replicate k 0"
  shows "write_ff input (Some s) buf (int d) (int n) = Some (take d buf @ 0xff # of_nat (n - 1) # run @ drop (d + 2 + n * 8) buf)"
proof -
  have 1: "buf_put buf (int d) [0xff] = Some (take d buf @ [0xff] @ drop (d + 1) buf)" using buf_put_ok[of d "[0xff]" buf] assms(1) by simp
  let ?b1 = "take d buf @ [0xff] @ drop (d + 1) buf"
  have w: "(word_of_int (int n - 1) :: u8) = of_nat (n - 1)" using assms(2) by (simp add: of_nat_diff)
  let ?b2 = "take d buf @ [0xff, of_nat (n - 1)] @ drop (d + 2) buf"
  have 2: "buf_put ?b1 (int d + 1) [of_nat (n - 1)] = Some ?b2"
    using buf_put_ok[of "d + 1" "[of_nat (n - 1)]" ?b1] assms(1) by (simp add: add.commute)
  have l: "length ?b2 = length buf" using assms(1) by simp
  have put: "buf_put ?b2 (int d + 2) bs = Some (take d buf @ [0xff, of_nat (n - 1)] @ bs @ drop (d + 2 + length bs) buf)"
    if "length bs \<le> n * 8" for bs
    using buf_put_ok[of "d + 2" bs ?b2] assms(1) that by (simp add: add.commute drop_Cons')
  show ?thesis
  proof (cases "s + n * 8 \<le> length input")
    case True
    then have "run = take (n * 8) (drop s input)" using assms(4) by simp
    then show ?thesis
      unfolding write_ff_def w using 1 2 put[of run] assms(5) True by simp
  next
    case False
    define r where "r = length input - s"
    have z: "zs = replicate k 0" using assms(6) False by simp
    have lt: "length (drop s input) < n * 8" using False assms(2) by auto
    have "run = drop s input @ take (n * 8 - length (drop s input)) (replicate k 0)"
      using assms(4) lt z by simp
    then have run: "run = drop s input @ replicate (n * 8 - r) 0"
      using assms(5) lt by (simp add: r_def min_def split: if_splits)
    let ?b3 = "take d buf @ [0xff, of_nat (n - 1)] @ drop s input @ drop (d + 2 + r) buf"
    have lr: "length (drop s input) = r" by (simp add: r_def)
    have 3: "buf_put ?b2 (int d + 2) (drop s input) = Some ?b3"
      using put[of "drop s input"] lt lr by simp
    have "buf_put ?b3 (int d + 2 + int r) (replicate (n * 8 - r) 0) = Some (take d buf @ 0xff # of_nat (n - 1) # run @ drop (d + 2 + n * 8) buf)"
    proof -
      have l3: "length ?b3 = length buf" using assms(1) lt lr by simp
      have "take (d + 2 + r) ?b3 = take d buf @ [0xff, of_nat (n - 1)] @ drop s input"
        "drop (d + 2 + r + (n * 8 - r)) ?b3 = drop (d + 2 + n * 8) buf"
        using assms(1) lt lr by (simp_all add: drop_Cons' add.commute)
      moreover have "int (d + 2 + r) = int d + 2 + int r" by simp
      ultimately show ?thesis
        using buf_put_ok[of "d + 2 + r" "replicate (n * 8 - r) 0" ?b3] assms(1) lt lr l3 run by (simp only: length_replicate) simp
    qed
    then show ?thesis unfolding write_ff_def w using 1 2 3 False by (simp add: r_def Let_def)
  qed
qed


text \<open>The state of the packer: \<open>done\<close> is what has been written for good, \<open>acc\<close> the open run, which ends at position \<open>i\<close> of the
  input or, behind the last segment, in its zeros.\<close>

definition pack_rep :: "u8 list \<Rightarrow> nat \<Rightarrow> nat \<Rightarrow> int \<Rightarrow> u8 list \<Rightarrow> u8 list \<Rightarrow> pack_state \<Rightarrow> bool" where
  "pack_rep input i N bufsz done acc st \<longleftrightarrow>
     length (pk_buf st) = N \<and> bufsz \<le> int N \<and> pk_bufsz st = bufsz - pk_size st \<and>
     pk_size st = int (length done) + int (length (run_bytes acc)) \<and>
     (pk_size st \<le> bufsz \<longrightarrow> take (length done) (pk_buf st) = done) \<and>
     pk_ff_n st = int (length acc div 8) \<and> length acc mod 8 = 0 \<and> length acc < 2048 \<and>
     (acc \<noteq> [] \<longrightarrow> pk_ff_des st = int (length done) \<and>
        (\<exists>s. pk_ff_src st = Some s \<and> acc = take (length acc) (drop s input @ replicate 8 0) \<and> s + length acc = i \<and> s \<le> length input))"

lemma run_length: "length (run_bytes acc) = (if acc = [] then 0 else 2 + length acc)"
  by (simp add: run_bytes_def)

lemma write_run_ok:
  assumes "acc \<noteq> []" "length acc = 8 * n" "n \<le> 256" "pk_ff_src st = Some s" "acc = take (length acc) (drop s input @ replicate 8 0)"
    "pk_ff_des st = int (length done)" "0 \<le> pk_bufsz st \<longrightarrow> length done + 2 + length acc \<le> length (pk_buf st) \<and> take (length done) (pk_buf st) = done"
  shows "\<exists>buf. write_run input st (int n) = Some (st\<lparr>pk_buf := buf\<rparr>) \<and> length buf = length (pk_buf st) \<and>
    (0 \<le> pk_bufsz st \<longrightarrow> take (length done + 2 + length acc) buf = done @ run_bytes acc \<and>
      drop (length done + 2 + length acc) buf = drop (length done + 2 + length acc) (pk_buf st))"
proof (cases "0 \<le> pk_bufsz st")
  case True
  have n: "0 < n" "length acc div 8 = n" using assms(1,2) by (cases n, simp_all)
  let ?buf = "take (length done) (pk_buf st) @ 0xff # of_nat (n - 1) # acc @ drop (length done + 2 + n * 8) (pk_buf st)"
  have lacc: "length acc = n * 8" and room: "length done + 2 + n * 8 \<le> length (pk_buf st)" using assms(2,7) True by simp_all
  have acc: "acc = take (n * 8) (drop s input @ replicate 8 0)" using assms(2,5) by (simp add: mult.commute)
  have "write_ff input (Some s) (pk_buf st) (int (length done)) (int n) = Some ?buf"
    by (rule write_ff_ok[OF room n(1) assms(3) acc lacc, where k = 8]) simp
  moreover have "take (length done) (pk_buf st) = done" "length done \<le> length (pk_buf st)" using True assms(7) by auto
  ultimately show ?thesis
    using True assms(1,2,4,6,7) n by (auto simp: write_run_def run_bytes_def mult.commute)
next
  case False
  then show ?thesis by (intro exI[of _ "pk_buf st"]) (simp add: write_run_def)
qed

lemma run_extend:
  assumes "acc = take (length acc) (drop s input @ replicate 8 0)" "s + length acc = i" "i < length input"
  shows "acc @ (take 8 (drop i input) @ replicate (i + 8 - length input) 0) = take (length acc + 8) (drop s input @ replicate 8 0)"
proof -
  have "take (length acc + 8) (drop s input @ replicate 8 0) = take (length acc) (drop s input @ replicate 8 0) @ take 8 (drop (length acc) (drop s input @ replicate 8 0))"
    by (rule take_add)
  also have "\<dots> = acc @ take 8 (drop i input @ replicate 8 0)" using assms by (simp add: add.commute)
  also have "take 8 (drop i input @ replicate 8 0) = take 8 (drop i input) @ replicate (i + 8 - length input) 0" using assms(3) by simp
  finally show ?thesis by simp
qed

lemma full_segment:
  assumes "length (nonzeros (take 8 bs @ replicate k 0)) = 8"
  shows "8 \<le> length bs"
  using assms length_nonzeros(1)[of "take 8 bs"] length_nonzeros(2)[of "take 8 bs" k] by simp

lemma div8: "length acc mod 8 = 0 \<Longrightarrow> length acc = 8 * (length acc div 8)"
  by auto

text \<open>One round of the loop takes one segment.\<close>

lemma pack_round_ok:
  assumes R: "pack_rep input i N bufsz done acc st" and i: "i < length input"
    and seg: "s = take 8 (drop i input) @ replicate (i + 8 - length input) 0"
  shows "\<exists>st' done' acc'. pack_round input i st = Some st' \<and> pack_rep input (i + 8) N bufsz done' acc' st' \<and>
    (\<forall>ss. done' @ enc_segs acc' ss = done @ enc_segs acc (s # ss))"
proof -
  let ?z = "length (nonzeros s)" and ?n = "length acc div 8"
  have ls: "length s = 8" using i by (simp add: seg)
  have ne: "s \<noteq> []" using ls by auto
  have z8: "?z \<le> 8" using length_nonzeros(1)[of s] ls by simp
  have st: "length (pk_buf st) = N \<and> bufsz \<le> int N" "pk_bufsz st = bufsz - pk_size st" "pk_size st = int (length done) + int (length (run_bytes acc))"
    "pk_size st \<le> bufsz \<longrightarrow> take (length done) (pk_buf st) = done" "pk_ff_n st = int ?n" "length acc = 8 * ?n" "length acc < 2048"
    using R by (auto simp: pack_rep_def)
  define pos where "pos = length done + length (run_bytes acc)"
  have pos: "pk_size st = int pos" using st(3) by (simp add: pos_def)
  have n0: "(0 < int ?n) = (acc \<noteq> [])" using st(6) by (cases "?n = 0") (simp, auto)
  obtain buf where b: "pack_seg s (pk_buf st) (pk_size st) (pk_bufsz st) (pk_ff_n st) =
      Some (if ?z = 8 \<or> 6 \<le> ?z \<and> acc \<noteq> [] then if acc \<noteq> [] then 8 else 10 else int ?z + 1, buf)"
    "length buf = length (pk_buf st)" "take pos buf = take pos (pk_buf st)"
    "?z < 8 \<and> \<not> (6 \<le> ?z \<and> acc \<noteq> []) \<and> int ?z < pk_bufsz st \<longrightarrow> take (Suc (pos + ?z)) buf = take pos (pk_buf st) @ seg_header 0 s # nonzeros s"
    using pack_seg_ok[of "pk_size st" "pk_bufsz st" "pk_buf st" s "pk_ff_n st"] st(1,2) ls unfolding st(5) n0 by (auto simp: pos)
  have keep: "take (length done) buf = take (length done) (pk_buf st)"
    using arg_cong[OF b(3), of "take (length done)"] by (simp add: pos_def min_def)
  have lext: "length (acc @ s) = length acc + 8" using ls by simp
  note round = pack_round_def Let_def seg[symmetric]
  consider "acc = []" "?z = 8" | "acc = []" "?z < 8" | "acc \<noteq> []" "6 \<le> ?z" "?n = 255" | "acc \<noteq> []" "6 \<le> ?z" "?n \<noteq> 255" | "acc \<noteq> []" "?z < 6"
    using z8 by linarith
  then show ?thesis
  proof cases
    case 1
    have pad: "i + 8 \<le> length input" using full_segment[of "drop i input" "i + 8 - length input"] 1(2) i by (simp flip: seg)
    let ?st = "st\<lparr>pk_buf := buf, pk_bufsz := pk_bufsz st - 10, pk_ff_src := Some i, pk_ff_des := pk_size st, pk_ff_n := 1, pk_size := pk_size st + 10\<rparr>"
    have "pack_round input i st = Some ?st" unfolding round using b(1) 1 pad by simp
    moreover have "pack_rep input (i + 8) N bufsz done s ?st"
      using st b(2,3) 1(1) ls ne pos pad i by (auto simp: pack_rep_def run_bytes_def pos_def seg)
    ultimately show ?thesis using 1 by (intro exI[of _ ?st] exI[of _ "done"] exI[of _ s]) simp
  next
    case 2
    let ?d = "done @ seg_header 0 s # nonzeros s"
    let ?st = "st\<lparr>pk_buf := buf, pk_bufsz := pk_bufsz st - (int ?z + 1), pk_size := pk_size st + (int ?z + 1)\<rparr>"
    have "pack_round input i st = Some ?st" unfolding round using b(1) 2 st(5) by simp
    moreover have "pack_rep input (i + 8) N bufsz ?d [] ?st"
      using st b(2,4) 2 pos by (auto simp: pack_rep_def run_bytes_def pos_def)
    ultimately show ?thesis using 2 by (intro exI[of _ ?st] exI[of _ ?d] exI[of _ "[]"]) (simp add: run_bytes_def)
  next
    case 3
    obtain f where f: "pk_ff_src st = Some f" "acc = take (length acc) (drop f input @ replicate 8 0)" "f + length acc = i"
      "pk_ff_des st = int (length done)" using R 3(1) by (auto simp: pack_rep_def)
    have ext: "acc @ s = take (length (acc @ s)) (drop f input @ replicate 8 0)" unfolding lext by (rule run_extend[OF f(2,3) i, folded seg])
    have la: "length (acc @ s) = 8 * 256" "length acc = 2040" using st(6) 3(3) ls by simp_all
    let ?st = "st\<lparr>pk_buf := buf, pk_bufsz := pk_bufsz st - 8, pk_ff_n := 256\<rparr>"
    have pos3: "pos = length done + 2042" using 3(1) la(2) by (simp add: pos_def run_length)
    have room: "0 \<le> pk_bufsz ?st \<longrightarrow> length done + 2 + length (acc @ s) \<le> length (pk_buf ?st) \<and> take (length done) (pk_buf ?st) = done"
      using st(1,2,4) b(2) la pos pos3 keep by auto
    obtain buf' where w: "write_run input ?st 256 = Some (?st\<lparr>pk_buf := buf'\<rparr>)" "length buf' = length buf"
      "0 \<le> pk_bufsz ?st \<longrightarrow> take (length done + 2 + length (acc @ s)) buf' = done @ run_bytes (acc @ s)"
      using write_run_ok[of "acc @ s" 256 ?st f input "done", OF _ la(1) _ _ ext _ room] f(1,4) ne by auto
    let ?st' = "?st\<lparr>pk_buf := buf', pk_ff_n := 0, pk_size := pk_size st + 8\<rparr>" and ?d = "done @ run_bytes (acc @ s)"
    have "pack_round input i st = Some ?st'" unfolding round using b(1) w(1) 3 st(5) by simp
    moreover have "pack_rep input (i + 8) N bufsz ?d [] ?st'"
      using st(1,2) b(2) w(2,3) pos pos3 la by (auto simp: pack_rep_def run_length add.commute[of "2050 :: nat"])
    ultimately show ?thesis
      using 3 la by (intro exI[of _ ?st'] exI[of _ ?d] exI[of _ "[]"]) simp
  next
    case 4
    obtain f where f: "pk_ff_src st = Some f" "acc = take (length acc) (drop f input @ replicate 8 0)" "f + length acc = i"
      "pk_ff_des st = int (length done)" "f \<le> length input" using R 4(1) by (auto simp: pack_rep_def)
    have ext: "acc @ s = take (length (acc @ s)) (drop f input @ replicate 8 0)" unfolding lext by (rule run_extend[OF f(2,3) i, folded seg])
    have la: "length (acc @ s) = 8 * (?n + 1)" "?n + 1 < 256" using st(6,7) 4(3) ls by auto
    let ?st = "st\<lparr>pk_buf := buf, pk_bufsz := pk_bufsz st - 8, pk_ff_n := pk_ff_n st + 1, pk_size := pk_size st + 8\<rparr>"
    have rd: "pack_round input i st = Some ?st" unfolding round using b(1) 4 st(5) n0 la(2) by simp
    have "pk_size st + 8 \<le> bufsz \<longrightarrow> take (length done) buf = done"
      using st(4) keep by auto
    moreover define a where "a = acc @ s"
    note a = ext[folded a_def] la(1)[folded a_def] lext[folded a_def]
    have "a \<noteq> []" using ne by (simp add: a_def)
    moreover have "\<exists>f. pk_ff_src ?st = Some f \<and> a = take (length a) (drop f input @ replicate 8 0) \<and> f + length a = i + 8 \<and> f \<le> length input"
    proof (intro exI[of _ f] conjI)
      show "a = take (length a) (drop f input @ replicate 8 0)" by (rule a(1))
      show "f + length a = i + 8" unfolding a(3) using f(3) by simp
    qed (use f(1,5) in simp_all)
    moreover have "int (length a) = int (length acc) + 8" "length a div 8 = ?n + 1" "length a < 2048"
      unfolding a(2) using st(6) la(2) by simp_all
    moreover have "length a mod 8 = 0" unfolding a(2) by (rule mod_mult_self1_is_0)
    ultimately have "pack_rep input (i + 8) N bufsz done a ?st"
      unfolding pack_rep_def using st(1-3,5) b(2) f(4) 4(1) run_length[of acc] run_length[of a] by (simp del: take_append)
    then have "pack_rep input (i + 8) N bufsz done (acc @ s) ?st" by (simp only: a_def)
    moreover have "length (acc @ s) \<noteq> 2048" using la by simp
    ultimately show ?thesis using rd 4 by (intro exI[of _ ?st] exI[of _ "done"] exI[of _ "acc @ s"]) simp
  next
    case 5
    obtain f where f: "pk_ff_src st = Some f" "acc = take (length acc) (drop f input @ replicate 8 0)"
      "pk_ff_des st = int (length done)" using R 5(1) by (auto simp: pack_rep_def)
    let ?k = "int ?z + 1"
    let ?st = "st\<lparr>pk_buf := buf, pk_bufsz := pk_bufsz st - ?k\<rparr>"
    have n256: "?n \<le> 256" using st(7) by simp
    have pos5: "pos = length done + 2 + length acc" using 5(1) by (simp add: pos_def run_length)
    have room: "0 \<le> pk_bufsz ?st \<longrightarrow> length done + 2 + length acc \<le> length (pk_buf ?st) \<and> take (length done) (pk_buf ?st) = done"
      using st(1,2,4) b(2) pos pos5 keep by auto
    obtain buf' where w: "write_run input ?st (int ?n) = Some (?st\<lparr>pk_buf := buf'\<rparr>)" "length buf' = length buf"
      "0 \<le> pk_bufsz ?st \<longrightarrow> take pos buf' = done @ run_bytes acc \<and> drop pos buf' = drop pos buf"
      using write_run_ok[of acc ?n ?st f input "done", OF 5(1) st(6) n256 _ f(2) _ room] f(1,3) unfolding pos5 by auto
    let ?st' = "?st\<lparr>pk_buf := buf', pk_ff_n := 0, pk_size := pk_size st + ?k\<rparr>"
    let ?d = "done @ run_bytes acc @ seg_header 0 s # nonzeros s"
    have "pack_round input i st = Some ?st'" unfolding round using b(1) w(1) 5 st(5) n0 by simp
    moreover have "take (length ?d) buf' = ?d" if "pk_size st + ?k \<le> bufsz"
    proof -
      have ld: "length ?d = pos + Suc ?z" by (simp add: pos_def)
      have r: "0 \<le> pk_bufsz ?st" using that st(2) by simp
      have "take (pos + Suc ?z) buf = take pos buf @ seg_header 0 s # nonzeros s" using b(3,4) 5 that st(2) by simp
      then have "take (Suc ?z) (drop pos buf) = seg_header 0 s # nonzeros s" by (simp only: take_add append_same_eq same_append_eq)
      then show ?thesis using w(3) r unfolding ld take_add by simp
    qed
    then have "pack_rep input (i + 8) N bufsz ?d [] ?st'"
      using st(1-3) b(2) w(2) by (auto simp: pack_rep_def run_length)
    ultimately show ?thesis using 5 by (intro exI[of _ ?st'] exI[of _ ?d] exI[of _ "[]"]) simp
  qed
qed


lemma pack_loop_ok:
  "pack_rep input i N bufsz done acc st \<Longrightarrow> \<exists>st' i' done' acc'. pack_loop input i st = Some st' \<and> pack_rep input i' N bufsz done' acc' st' \<and>
    done' @ run_bytes acc' = done @ enc_segs acc (segs (drop i input))"
proof (induction input i st arbitrary: "done" acc rule: pack_loop.induct)
  case (1 input i st)
  show ?case
  proof (cases "i < length input")
    case True
    let ?s = "take 8 (drop i input) @ replicate (i + 8 - length input) 0"
    have s: "segs (drop i input) = ?s # segs (drop (i + 8) input)"
      using segs_step[of "drop i input"] True by (simp add: add.commute)
    obtain st1 d1 a1 where r: "pack_round input i st = Some st1" "pack_rep input (i + 8) N bufsz d1 a1 st1"
      "\<forall>ss. d1 @ enc_segs a1 ss = done @ enc_segs acc (?s # ss)"
      using pack_round_ok[OF "1.prems" True refl] by blast
    show ?thesis
      using "1.IH"[OF True r(1,2)] r(1) r(3)[rule_format, of "segs (drop (i + 8) input)"] True s
      by (subst pack_loop.simps) simp
  next
    case False
    then show ?thesis using "1.prems" by (subst pack_loop.simps) (auto intro!: exI[of _ st])
  qed
qed

text \<open>The packer writes the encoding when it fits, and returns its size in any case; it never writes behind the buffer.\<close>

lemma sproto_pack_ok:
  assumes "0 \<le> bufsz" "bufsz \<le> int (length buf)"
  shows "\<exists>buf'. sproto_pack input buf bufsz = Some (int (length (enc_segs [] (segs input))), buf') \<and> length buf' = length buf \<and>
    (int (length (enc_segs [] (segs input))) \<le> bufsz \<longrightarrow> take (length (enc_segs [] (segs input))) buf' = enc_segs [] (segs input))"
proof -
  let ?st = "\<lparr>pk_ff_src = None, pk_ff_des = 0, pk_ff_n = 0, pk_size = 0, pk_buf = buf, pk_bufsz = bufsz\<rparr>"
  have "pack_rep input 0 (length buf) bufsz [] [] ?st" using assms(2) by (simp add: pack_rep_def run_bytes_def)
  then obtain st i d acc where l: "pack_loop input 0 ?st = Some st" "pack_rep input i (length buf) bufsz d acc st"
    "d @ run_bytes acc = enc_segs [] (segs input)"
    using pack_loop_ok by fastforce
  let ?e = "enc_segs [] (segs input)" and ?n = "length acc div 8"
  have R: "length (pk_buf st) = length buf" "pk_bufsz st = bufsz - pk_size st" "pk_size st = int (length ?e)"
    "pk_size st \<le> bufsz \<longrightarrow> take (length d) (pk_buf st) = d" "pk_ff_n st = int ?n" "length acc = 8 * ?n" "length acc < 2048"
    using l(2) by (auto simp: pack_rep_def simp flip: l(3))
  show ?thesis
  proof (cases "0 \<le> pk_bufsz st \<and> acc \<noteq> []")
    case True
    obtain f where f: "pk_ff_src st = Some f" "acc = take (length acc) (drop f input @ replicate 8 0)" "pk_ff_des st = int (length d)"
      using l(2) True by (auto simp: pack_rep_def)
    have n256: "?n \<le> 256" using R(7) by simp
    have le: "length ?e = length d + 2 + length acc" using True by (simp flip: l(3) add: run_length)
    have room: "0 \<le> pk_bufsz st \<longrightarrow> length d + 2 + length acc \<le> length (pk_buf st) \<and> take (length d) (pk_buf st) = d"
      using R(1-4) le assms(2) by auto
    obtain buf' where w: "write_run input st (int ?n) = Some (st\<lparr>pk_buf := buf'\<rparr>)" "length buf' = length (pk_buf st)" "take (length ?e) buf' = ?e"
      using write_run_ok[OF _ R(6) n256 f(1,2,3) room] True l(3) le by auto
    have "0 < ?n" using True R(6) by (cases "?n = 0") (simp, auto)
    then show ?thesis using l(1) w R(1,3,5) True by (simp add: sproto_pack_def)
  next
    case False
    then have "sproto_pack input buf bufsz = Some (int (length ?e), pk_buf st)"
      using l(1) R(3,5) by (auto simp: sproto_pack_def)
    moreover have "acc = []" if "int (length ?e) \<le> bufsz" using False that R(2,3) by auto
    then have "take (length ?e) (pk_buf st) = ?e" if "int (length ?e) \<le> bufsz"
      using that R(3,4) l(3) by (simp add: run_bytes_def)
    ultimately show ?thesis using R(1) by auto
  qed
qed

section \<open>The unpacker\<close>

text \<open>The bytes that a header and the bytes behind it stand for, from bit \<open>i\<close> on, and the rest of the input.\<close>

fun expand_bits :: "nat \<Rightarrow> nat \<Rightarrow> u8 \<Rightarrow> u8 list \<Rightarrow> (u8 list \<times> u8 list) option" where
  "expand_bits 0 i header src = Some ([], src)"
| "expand_bits (Suc k) i header src =
     (if bit header i then
        (case src of [] \<Rightarrow> None | b # src \<Rightarrow> map_option (apfst ((#) b)) (expand_bits k (Suc i) header src))
      else map_option (apfst ((#) 0)) (expand_bits k (Suc i) header src))"

lemma expand_bits_rest: "expand_bits k i h src = Some (out, rest) \<Longrightarrow> length rest \<le> length src \<and> length out = k"
  by (induction k arbitrary: i src out) (fastforce split: if_splits list.splits)+

function unpack_spec :: "u8 list \<Rightarrow> u8 list option" where
  "unpack_spec [] = Some []"
| "unpack_spec (h # src) =
     (if h = 0xff then
        (case src of
           [] \<Rightarrow> None
         | b # src \<Rightarrow> if length src < (unat b + 1) * 8 then None
             else map_option (append (take ((unat b + 1) * 8) src)) (unpack_spec (drop ((unat b + 1) * 8) src)))
      else (case expand_bits 8 0 h src of
         None \<Rightarrow> None
       | Some (out, rest) \<Rightarrow> map_option (append out) (unpack_spec rest)))"
  by pat_completeness auto
termination
  by (relation "measure length") (auto dest: expand_bits_rest)

declare unpack_spec.simps [simp del]
lemmas unpack_spec_Nil = unpack_spec.simps(1)

text \<open>The state of the unpacker after the bytes \<open>out\<close>.\<close>

definition unpack_rep :: "nat \<Rightarrow> int \<Rightarrow> u8 list \<Rightarrow> unpack_state \<Rightarrow> bool" where
  "unpack_rep N bufsz out st \<longleftrightarrow> length (up_buf st) = N \<and> bufsz \<le> int N \<and> up_size st = int (length out) \<and>
     (int (length out) \<le> bufsz \<longrightarrow> up_pos st = int (length out) \<and> up_bufsz st = bufsz - int (length out) \<and> take (length out) (up_buf st) = out) \<and>
     (bufsz < int (length out) \<longrightarrow> up_bufsz st \<le> 0)"

lemma bit_test: "(drop_bit i h AND 1 = 1) = bit h i" for h :: u8
  by (simp add: bit_iff_odd_drop_bit and_one_eq odd_iff_mod_2_eq_one)

lemma unpack_byte_ok:
  assumes "unpack_rep N bufsz out st"
  shows "\<exists>st'. unpack_byte b st = Some st' \<and> up_src st' = up_src st \<and> up_size st' = up_size st \<and>
    unpack_rep N bufsz (out @ [b]) (st'\<lparr>up_src := src, up_size := up_size st' + 1\<rparr>)"
proof (cases "int (length out) < bufsz")
  case True
  then have u: "up_pos st = int (length out)" "0 < up_bufsz st" "length out < length (up_buf st)" "take (length out) (up_buf st) = out"
    using assms by (auto simp: unpack_rep_def)
  let ?st = "st\<lparr>up_buf := (up_buf st)[length out := b], up_pos := up_pos st + 1, up_bufsz := up_bufsz st - 1\<rparr>"
  have "unpack_byte b st = Some ?st" using u by (simp add: unpack_byte_def arr_set_def)
  moreover have "take (Suc (length out)) ((up_buf st)[length out := b]) = out @ [b]"
    using u(3,4) by (simp add: take_Suc_conv_app_nth)
  ultimately show ?thesis using assms True u by (auto simp: unpack_rep_def)
next
  case False
  then have "up_bufsz st \<le> 0" using assms by (auto simp: unpack_rep_def)
  then have "unpack_byte b st = Some st" by (simp add: unpack_byte_def)
  then show ?thesis using assms False by (auto simp: unpack_rep_def)
qed

lemma bits_loop_ok:
  assumes "unpack_rep N bufsz out st"
  shows "case expand_bits k i h (up_src st) of
      None \<Rightarrow> bits_loop k i h st = Some (Inl ())
    | Some (bs, rest) \<Rightarrow> \<exists>st'. bits_loop k i h st = Some (Inr st') \<and> up_src st' = rest \<and> unpack_rep N bufsz (out @ bs) st'"
  using assms
proof (induction k arbitrary: i out st)
  case 0
  then show ?case by simp
next
  case (Suc k)
  show ?case
  proof (cases "bit h i")
    case True
    show ?thesis
    proof (cases "up_src st")
      case Nil
      then show ?thesis using True by (simp add: bit_test)
    next
      case (Cons b src)
      obtain st' where st': "unpack_byte b st = Some st'" "up_src st' = up_src st" "up_size st' = up_size st"
        "unpack_rep N bufsz (out @ [b]) (st'\<lparr>up_src := src, up_size := up_size st' + 1\<rparr>)"
        using unpack_byte_ok[OF Suc.prems] by blast
      show ?thesis
        using Suc.IH[OF st'(4), of "Suc i"] True Cons st'(1) by (auto simp: bit_test split: option.splits)
    qed
  next
    case False
    obtain st' where st': "unpack_byte 0 st = Some st'" "up_src st' = up_src st" "up_size st' = up_size st"
      "unpack_rep N bufsz (out @ [0]) (st'\<lparr>up_src := up_src st, up_size := up_size st' + 1\<rparr>)"
      using unpack_byte_ok[OF Suc.prems] by blast
    have "st'\<lparr>up_src := up_src st, up_size := up_size st' + 1\<rparr> = st'\<lparr>up_size := up_size st' + 1\<rparr>" using st'(2) by (cases st') simp
    then have r: "unpack_rep N bufsz (out @ [0]) (st'\<lparr>up_size := up_size st' + 1\<rparr>)" using st'(4) by (simp only:)
    show ?thesis
      using Suc.IH[OF r, of "Suc i"] False st'(1,2) by (auto simp: bit_test split: option.splits)
  qed
qed

lemma unpack_ff_ok:
  assumes "unpack_rep N bufsz out st" "up_src st = b # src" "(unat b + 1) * 8 \<le> length src"
  shows "\<exists>st'. unpack_ff st = Some (Inr st') \<and> up_src st' = drop ((unat b + 1) * 8) src \<and>
    unpack_rep N bufsz (out @ take ((unat b + 1) * 8) src) st'"
proof -
  define n where "n = (unat b + 1) * 8"
  have n: "n \<le> length src" "\<not> length src < n" using assms(3) by (simp_all add: n_def)
  have u: "unpack_ff st = do {
      buf \<leftarrow> (if up_bufsz st \<ge> int n then buf_put (up_buf st) (up_pos st) (take n src) else Some (up_buf st));
      Some (Inr (st\<lparr>up_src := drop n src, up_buf := buf, up_pos := up_pos st + int n, up_bufsz := up_bufsz st - int n,
        up_size := up_size st + int n\<rparr>)) }"
    unfolding unpack_ff_def assms(2) list.case Let_def n_def[symmetric] using n(2) by (simp only: if_False)
  have R: "length (up_buf st) = N" "bufsz \<le> int N" "up_size st = int (length out)"
    "int (length out) \<le> bufsz \<longrightarrow> up_pos st = int (length out) \<and> up_bufsz st = bufsz - int (length out) \<and> take (length out) (up_buf st) = out"
    "bufsz < int (length out) \<longrightarrow> up_bufsz st \<le> 0"
    using assms(1) by (auto simp: unpack_rep_def)
  have n0: "0 < n" by (simp add: n_def)
  show ?thesis
  proof (cases "int (length out) + int n \<le> bufsz")
    case True
    then have f: "up_pos st = int (length out)" "int n \<le> up_bufsz st" "up_bufsz st = bufsz - int (length out)" "take (length out) (up_buf st) = out"
      "length out + length (take n src) \<le> length (up_buf st)"
      using R n by auto
    let ?buf = "out @ take n src @ drop (length out + n) (up_buf st)"
    have "buf_put (up_buf st) (up_pos st) (take n src) = Some ?buf" using buf_put_ok[OF f(5)] f(1,4) n(1) by simp
    then show ?thesis using u R(1-3) f n True unfolding n_def[symmetric] by (auto simp: unpack_rep_def)
  next
    case False
    then have "up_bufsz st < int n" using R(4,5) n0 by (cases "int (length out) \<le> bufsz") auto
    then show ?thesis using u R(1-3) n False unfolding n_def[symmetric] by (auto simp: unpack_rep_def)
  qed
qed

lemma sp_unpack_loop_ok:
  "unpack_rep N bufsz out st \<Longrightarrow> case unpack_spec (up_src st) of
      None \<Rightarrow> sp_unpack_loop st = Some (Inl ())
    | Some bs \<Rightarrow> \<exists>st'. sp_unpack_loop st = Some (Inr st') \<and> unpack_rep N bufsz (out @ bs) st'"
proof (induction "length (up_src st)" arbitrary: st out rule: less_induct)
  case less
  show ?case
  proof (cases "up_src st")
    case Nil
    then show ?thesis using less.prems by (subst sp_unpack_loop.simps) (simp add: unpack_spec.simps)
  next
    case (Cons h src)
    let ?st = "st\<lparr>up_src := src\<rparr>"
    have R: "unpack_rep N bufsz out ?st" using less.prems by (simp add: unpack_rep_def)
    show ?thesis
    proof (cases "h = 0xff")
      case ff: True
      show ?thesis
      proof (cases src)
        case Nil
        then show ?thesis using ff Cons by (subst sp_unpack_loop.simps) (simp add: unpack_spec.simps unpack_ff_def)
      next
        case src: (Cons b src')
        define n where "n = (unat b + 1) * 8"
        show ?thesis
        proof (cases "length src' < n")
          case True
          then show ?thesis
            using ff Cons src by (subst sp_unpack_loop.simps) (simp add: unpack_spec.simps unpack_ff_def Let_def n_def)
        next
          case False
          obtain st' where st': "unpack_ff ?st = Some (Inr st')" "up_src st' = drop n src'" "unpack_rep N bufsz (out @ take n src') st'"
            using unpack_ff_ok[OF R, of b src'] src False by (auto simp: n_def)
          have "length (up_src st') < length (up_src st)" using Cons src st'(2) by simp
          moreover have "sp_unpack_loop st = sp_unpack_loop st'"
            by (subst sp_unpack_loop.simps) (use st'(1) ff Cons src in simp)
          ultimately show ?thesis
            using less.hyps[OF _ st'(3)] st'(2) ff Cons src False by (auto simp: unpack_spec.simps(2) n_def split: option.splits)
        qed
      qed
    next
      case False
      show ?thesis
      proof (cases "expand_bits 8 0 h src")
        case None
        then show ?thesis using bits_loop_ok[OF R, of 8 0 h] False Cons by (subst sp_unpack_loop.simps) (simp add: unpack_spec.simps)
      next
        case (Some r)
        obtain bs rest where r: "r = (bs, rest)" by (cases r)
        obtain st' where st': "bits_loop 8 0 h ?st = Some (Inr st')" "up_src st' = rest" "unpack_rep N bufsz (out @ bs) st'"
          using bits_loop_ok[OF R, of 8 0 h] Some r by auto
        have "length (up_src st') < length (up_src st)" using expand_bits_rest[of 8 0 h src bs rest] Some r Cons st'(2) by simp
        moreover have "sp_unpack_loop st = sp_unpack_loop st'"
          by (subst sp_unpack_loop.simps) (use st'(1) False Cons in simp)
        ultimately show ?thesis
          using less.hyps[OF _ st'(3)] st'(2) False Cons Some r by (auto simp: unpack_spec.simps(2) split: option.splits)
      qed
    qed
  qed
qed

lemma sproto_unpack_ok:
  assumes "0 \<le> bufsz" "bufsz \<le> int (length buf)"
  shows "case unpack_spec src of
      None \<Rightarrow> sproto_unpack src buf bufsz = Some (Inl ())
    | Some bs \<Rightarrow> \<exists>buf'. sproto_unpack src buf bufsz = Some (Inr (int (length bs), buf')) \<and> length buf' = length buf \<and>
        (int (length bs) \<le> bufsz \<longrightarrow> take (length bs) buf' = bs)"
proof -
  let ?st = "\<lparr>up_src = src, up_buf = buf, up_pos = 0, up_bufsz = bufsz, up_size = 0\<rparr>"
  have "unpack_rep (length buf) bufsz [] ?st" using assms by (simp add: unpack_rep_def)
  from sp_unpack_loop_ok[OF this] show ?thesis
    by (auto simp: sproto_unpack_def unpack_rep_def split: option.splits)
qed

section \<open>Round trip\<close>

lemma bit_seg_header: "bit (seg_header i s) j = (j < 8 \<and> i \<le> j \<and> j < i + length s \<and> s ! (j - i) \<noteq> 0)"
proof (induction s arbitrary: i)
  case (Cons b s)
  show ?case
  proof (cases "j = i")
    case True
    then show ?thesis using Cons.IH[of "Suc i"] by (auto simp: bit_simps)
  next
    case False
    then have "\<not> bit (if b \<noteq> 0 then push_bit i 1 else 0 :: u8) j" by (auto simp: bit_simps)
    moreover have "i < j \<Longrightarrow> (b # s) ! (j - i) = s ! (j - Suc i)" by (metis Suc_diff_Suc nth_Cons_Suc)
    ultimately show ?thesis using Cons.IH[of "Suc i"] False by (auto simp: bit_or_iff)
  qed
qed simp

lemma expand_header:
  "(\<And>j. j < length s \<Longrightarrow> bit h (i + j) = (s ! j \<noteq> 0)) \<Longrightarrow> expand_bits (length s) i h (nonzeros s @ r) = Some (s, r)"
proof (induction s arbitrary: i)
  case (Cons b s)
  have "bit h i = (b \<noteq> 0)" using Cons.prems[of 0] by simp
  moreover have "expand_bits (length s) (Suc i) h (nonzeros s @ r) = Some (s, r)"
    using Cons.prems[of "Suc _"] by (intro Cons.IH) simp
  ultimately show ?case by (auto simp: nonzeros_def)
qed (simp add: nonzeros_def)

lemma all_nonzero:
  assumes "length (nonzeros s) < length s"
  shows "\<exists>j < length s. s ! j = 0"
proof (rule ccontr)
  assume "\<not> ?thesis"
  then have "filter (\<lambda>b. b \<noteq> 0) s = s" by (auto simp: filter_id_conv in_set_conv_nth)
  then show False using assms by (simp add: nonzeros_def)
qed

lemma unpack_seg:
  assumes "length s = 8" "length (nonzeros s) \<noteq> 8"
  shows "unpack_spec (seg_header 0 s # nonzeros s @ r) = map_option (append s) (unpack_spec r)"
proof -
  have b: "bit (seg_header 0 s) j = (s ! j \<noteq> 0)" if "j < 8" for j using that assms(1) bit_seg_header[of 0 s j] by simp
  obtain j where j: "j < 8" "s ! j = 0" using all_nonzero[of s] length_nonzeros(1)[of s] assms by auto
  have m: "(0xff :: u8) = mask 8" by (simp add: mask_eq_exp_minus_1)
  have "bit (0xff :: u8) j" unfolding m using j(1) by (simp only: bit_mask_iff) simp
  then have "seg_header 0 s \<noteq> 0xff" using b[OF j(1)] j(2) by auto
  then show ?thesis using expand_header[of s "seg_header 0 s" 0 r] b assms(1) by (simp add: unpack_spec.simps(2))
qed

lemma unpack_run:
  assumes "length acc = 8 * n" "0 < n" "n \<le> 256"
  shows "unpack_spec (run_bytes acc @ r) = map_option (append acc) (unpack_spec r)"
proof -
  define k :: u8 where "k = of_nat (n - 1)"
  have "unat k = n - 1" unfolding k_def using assms(2,3) by (simp only: unat_of_nat) simp
  then have k: "(unat k + 1) * 8 = length acc" using assms(1,2) by simp
  have "acc \<noteq> []" "length acc div 8 = n" using assms(1,2) by (cases n, auto)
  then have "run_bytes acc = [0xff, k] @ acc" by (simp add: run_bytes_def k_def)
  then show ?thesis using k by (simp add: unpack_spec.simps(2) del: add_mult_distrib mult_Suc)
qed

lemma unpack_enc:
  "length acc = 8 * n \<Longrightarrow> n < 256 \<Longrightarrow> \<forall>s \<in> set ss. length s = 8 \<Longrightarrow> unpack_spec (enc_segs acc ss) = Some (acc @ concat ss)"
proof (induction acc ss arbitrary: n rule: enc_segs.induct)
  case (1 acc)
  then show ?case using unpack_run[of acc n "[]"] by (cases "n = 0") (simp_all add: run_bytes_def unpack_spec_Nil)
next
  case (2 acc s ss)
  have ls: "length s = 8" "\<forall>s \<in> set ss. length s = 8" using "2.prems"(3) by simp_all
  have z: "length (nonzeros s) \<le> 8" using length_nonzeros(1)[of s] ls by simp
  show ?case
  proof (cases "acc = []")
    case True
    then show ?thesis
      using "2.IH"(1)[of 1] "2.IH"(2)[of 0] ls unpack_seg[of s] by auto
  next
    case acc: False
    then have n: "0 < n" using "2.prems"(1) by (cases n) auto
    show ?thesis
    proof (cases "6 \<le> length (nonzeros s)")
      case True
      show ?thesis
      proof (cases "length (acc @ s) = 2048")
        case full: True
        then show ?thesis
          using "2.IH"(3)[OF acc True full, of 0] unpack_run[of "acc @ s" 256] True acc ls by simp
      next
        case False
        then have "n + 1 < 256" using "2.prems"(1,2) ls(1) by simp
        then show ?thesis using "2.IH"(4)[OF acc True False, of "n + 1"] "2.prems"(1) ls True acc False by simp
      qed
    next
      case False
      then show ?thesis
        using "2.IH"(5)[OF acc False, of 0] unpack_run[of acc n] unpack_seg[of s] "2.prems" n ls acc by simp
    qed
  qed
qed

section \<open>The Lua functions\<close>

lemma grow_size_ok: "0 < osz \<Longrightarrow> osz < nsz \<Longrightarrow> nsz \<le> 2 ^ 30 \<Longrightarrow> \<exists>k. grow_size osz nsz = Some k \<and> nsz \<le> k \<and> k < 2 * nsz"
proof (induction osz nsz rule: grow_size.induct)
  case (1 osz nsz)
  have c: "cint (osz * 2) = Some (osz * 2)" using "1.prems" by (intro cint_in_range) (simp_all add: INT_MIN_def INT_MAX_def)
  show ?case
  proof (cases "osz * 2 < nsz")
    case True
    then show ?thesis using "1.IH"[OF _ c] "1.prems" c by (subst grow_size.simps) simp
  next
    case False
    then show ?thesis using "1.prems" c by (subst grow_size.simps) simp
  qed
qed

text \<open>A larger buffer, or the error.\<close>

definition too_large_text :: string where
  "too_large_text = ''object is too large (>'' @ fmt_d ENCODE_MAXSIZE @ '')''"

lemma expand_buffer_ok:
  assumes "0 < osz" "osz < nsz" "nsz \<le> 2 ^ 30"
  shows "(\<exists>n. expand_buffer osz nsz = Some (Inr (replicate n 0)) \<and> nsz \<le> int n) \<or>
    0x800000 < nsz \<and> expand_buffer osz nsz = Some (Inl too_large_text)"
proof -
  obtain k where k: "grow_size osz nsz = Some k" "nsz \<le> k" "k < 2 * nsz" using grow_size_ok[OF assms] by auto
  show ?thesis using k assms(1,2) by (cases "k > ENCODE_MAXSIZE") (auto simp: expand_buffer_def too_large_text_def, auto simp: ENCODE_MAXSIZE_def)
qed

lemma segs_count: "length (segs bs) = (length bs + 7) div 8"
proof (induction bs rule: segs.induct)
  case (2 b bs)
  show ?case
  proof (cases "7 \<le> length bs")
    case True
    then have "length (b # bs) + 7 = 8 + (length (drop 7 bs) + 7)" by simp
    then show ?thesis using 2 by (simp only: segs.simps list.size div_add_self1)
  next
    case False
    then show ?thesis by simp
  qed
qed simp

lemma pack_bound: "length (enc_segs [] (segs bs)) \<le> (length bs + 2047) div 2048 * 2 + length bs + 2"
proof -
  have "(length bs + 7) div 8 + 255 = (length bs + 2047) div 8"
    using div_mult_self2[of 8 "length bs + 7" 255] by simp
  then have "run_cost (length (segs bs)) = (length bs + 2047) div 8 div 256 * 2" by (simp add: run_cost_def segs_count)
  also have "\<dots> = (length bs + 2047) div 2048 * 2" by (simp flip: div_mult2_eq)
  finally show ?thesis using enc_length[of "[]" 0 bs] by simp
qed

lemma wrap_small: "n < 2 ^ 31 \<Longrightarrow> wrap_int (int n) = int n"
  by (intro wrap_int_id) (simp_all add: INT_MIN_def INT_MAX_def)

lemma lpack_ok:
  assumes "length s \<le> 0x7f0000" "out \<noteq> []"
  shows "\<exists>out'. sproto_lpack s out = Some (Inr (enc_segs [] (segs s)), out') \<and> out' \<noteq> []"
proof -
  define M where "M = (length s + 2047) div 2048 * 2 + length s + 2"
  let ?e = "enc_segs [] (segs s)"
  have M: "length ?e \<le> M" "0 < M" using pack_bound[of s] by (simp_all add: M_def)
  have "(length s + 2047) div 2048 \<le> 0x8000" using assms(1) by simp
  then have Mb: "M \<le> 0x800000" using assms(1) by (simp add: M_def)
  have w: "wrap_int (int M) = int M" "wrap_int (int (length s)) = int (length s)" using Mb assms(1) by (simp_all add: wrap_small)
  have p: "\<exists>o2. sproto_pack s o1 (int M) = Some (int (length ?e), o2) \<and> length o2 = length o1 \<and> take (length ?e) o2 = ?e"
    if "M \<le> length o1" for o1
    using sproto_pack_ok[of "int M" o1 s] that M(1) by auto
  obtain o1 where o1: "(if length out < M then expand_buffer (int (length out)) (int M) else Some (Inr out)) = Some (Inr o1)" "M \<le> length o1"
    using expand_buffer_ok[of "int (length out)" "int M"] assms(2) Mb by (cases "length out < M") auto
  obtain o2 where o2: "sproto_pack s o1 (int M) = Some (int (length ?e), o2)" "length o2 = length o1" "take (length ?e) o2 = ?e"
    using p[OF o1(2)] by auto
  have "sproto_lpack s out = Some (Inr ?e, o2)"
    unfolding sproto_lpack_def Let_def M_def[symmetric] w using o1 o2 M by simp
  moreover have "o2 \<noteq> []" using o2(2) o1(2) M(2) by auto
  ultimately show ?thesis by blast
qed

lemma lunpack_ok:
  assumes "length p < 2 ^ 31" "out \<noteq> []" "length bs \<le> 2 ^ 30" "unpack_spec p = Some bs"
  shows "\<exists>r out'. sproto_lunpack p out = Some (r, out') \<and> out' \<noteq> [] \<and>
    (r = Inr bs \<or> 0x800000 < length bs \<and> r = Inl too_large_text)"
proof -
  have w: "take (nat (wrap_int (int (length p)))) p = p" using assms(1) by (simp add: wrap_small)
  obtain o1 where o1: "sproto_unpack p out (int (length out)) = Some (Inr (int (length bs), o1))" "length o1 = length out"
    "length bs \<le> length out \<longrightarrow> take (length bs) o1 = bs"
    using sproto_unpack_ok[of "int (length out)" out p] assms(4) by auto
  show ?thesis
  proof (cases "length bs \<le> length out")
    case True
    then show ?thesis using o1 w assms(2) by (auto simp: sproto_lunpack_def)
  next
    case False
    have e: "(\<exists>n. expand_buffer (int (length out)) (int (length bs)) = Some (Inr (replicate n 0)) \<and> length bs \<le> n) \<or>
        0x800000 < length bs \<and> expand_buffer (int (length out)) (int (length bs)) = Some (Inl too_large_text)"
      using expand_buffer_ok[of "int (length out)" "int (length bs)"] False assms(2,3) by auto
    have u: "\<exists>o2. sproto_unpack p (replicate n 0) (int (length bs)) = Some (Inr (int (length bs), o2)) \<and> length o2 = n \<and> take (length bs) o2 = bs"
      if "length bs \<le> n" for n
      using sproto_unpack_ok[of "int (length bs)" "replicate n 0" p] assms(4) that by auto
    have o1': "o1 \<noteq> []" using o1(2) assms(2) by auto
    from e show ?thesis
    proof
      assume "\<exists>n. expand_buffer (int (length out)) (int (length bs)) = Some (Inr (replicate n 0)) \<and> length bs \<le> n"
      then obtain n o2 where "expand_buffer (int (length out)) (int (length bs)) = Some (Inr (replicate n 0))" "length bs \<le> n"
        "sproto_unpack p (replicate n 0) (int (length bs)) = Some (Inr (int (length bs), o2))" "length o2 = n" "take (length bs) o2 = bs"
        using u by blast
      then show ?thesis using o1 w False by (auto simp: sproto_lunpack_def)
    next
      assume "0x800000 < length bs \<and> expand_buffer (int (length out)) (int (length bs)) = Some (Inl too_large_text)"
      then show ?thesis using o1 w False o1' by (auto simp: sproto_lunpack_def)
    qed
  qed
qed

lemma expand_ratio: "unpack_spec p = Some bs \<Longrightarrow> length bs \<le> 8 * length p"
proof (induction p arbitrary: bs rule: unpack_spec.induct)
  case (2 h src)
  then show ?case
    by (auto simp: unpack_spec.simps(2) split: if_splits list.splits option.splits dest!: expand_bits_rest) fastforce+
qed (simp add: unpack_spec_Nil)

section \<open>Properties\<close>

text \<open>C14. What \<open>pack\<close> makes of a string, \<open>unpack\<close> turns into the string again, filled with zeros up to a multiple of 8 bytes. The buffer
  that \<open>pack\<close> provides, with 2 bytes for every 2 kB and 2 more, is always large enough, as its comment says.\<close>

theorem sproto_pack_roundtrip:
  assumes "length s \<le> 0x7f0000" "out \<noteq> []" "out' \<noteq> []"
  shows "\<exists>p o1 o2. sproto_lpack s out = Some (Inr p, o1) \<and> sproto_lunpack p out' = Some (Inr (s @ pad_zeros s), o2) \<and>
    length p \<le> (length s + 2047) div 2048 * 2 + length s + 2 \<and> o1 \<noteq> [] \<and> o2 \<noteq> []"
proof -
  let ?p = "enc_segs [] (segs s)"
  have u: "unpack_spec ?p = Some (s @ pad_zeros s)"
    using unpack_enc[of "[]" 0 "segs s"] segs_length[of _ s] by (simp add: concat_segs)
  have "length (pad_zeros s) \<le> 7" by (simp add: pad_zeros_def)
  then have l: "length (s @ pad_zeros s) \<le> 0x800000" using assms(1) by simp
  have "length ?p < 2 ^ 31" using pack_bound[of s] assms(1) by simp
  then show ?thesis
    using lpack_ok[OF assms(1,2)] lunpack_ok[OF _ assms(3) _ u] l pack_bound[of s] by fastforce
qed


theorem sproto_pack_roundtrip_witness:
  "\<exists>p o1 o2. sproto_lpack [8, 0, 0, 0, 3] (replicate ENCODE_BUFFERSIZE 0) = Some (Inr p, o1) \<and>
     sproto_lunpack p (replicate ENCODE_BUFFERSIZE 0) = Some (Inr [8, 0, 0, 0, 3, 0, 0, 0], o2)"
proof -
  have "pad_zeros [8, 0, 0, 0, 3] = [0, 0, 0]" by code_simp
  then show ?thesis
    using sproto_pack_roundtrip[of "[8, 0, 0, 0, 3]" "replicate ENCODE_BUFFERSIZE 0" "replicate ENCODE_BUFFERSIZE 0"]
    by (auto simp: ENCODE_BUFFERSIZE_def)
qed


end
