(* ===== verification/Locks.thy ===== *)
theory Locks
  imports Prelude
begin

text \<open>
  The two locks of the node, \<open>rwlock.h\<close> and \<open>spinlock.h\<close>, at the granularity of their atomic operations: a thread is at a place in
  front of its next atomic operation, and any thread may make its next step. The variants with C11 atomics are modelled; their operations
  are taken as sequentially consistent (the acquire and release orders of the spin lock order only accesses of other memory, and
  its relaxed loads only delay an attempt). \<open>write\<close> and the spin lock have the values 0 and 1; \<open>read\<close> counts threads,
  of which there are less than \<open>2 ^ 31\<close>. A weak compare-and-exchange may fail for no reason. The variants with \<open>USE_PTHREAD_LOCK\<close> call the
  locks of the system and are not modelled.
\<close>

section \<open>The lock of readers and writers\<close>

record rwlock =
  rw_write :: int
  rw_read :: int

definition rwlock_init :: rwlock where
  "rwlock_init = \<lparr>rw_write = 0, rw_read = 0\<rparr>"

text \<open>Where a thread is: outside; in \<open>rwlock_rlock\<close> in front of the loop that waits, the increment, the second test and the decrement; with
  the lock as a reader; in \<open>rwlock_wlock\<close> in its two loops; with the lock as a writer.\<close>

datatype rw_pc = Rw_out | Rl_wait | Rl_inc | Rl_test | Rl_dec | Rw_reading | Wl_cas | Wl_wait | Rw_writing

text \<open>The next atomic operation of each function; the argument \<open>fails\<close> is true when the weak \<open>ATOM_CAS\<close> fails although the
  values are equal.\<close>

fun rwlock_rlock :: "rw_pc \<Rightarrow> rwlock \<Rightarrow> rw_pc \<times> rwlock" where
  "rwlock_rlock Rw_out l = (Rl_wait, l)"
| "rwlock_rlock Rl_wait l = (if rw_write l \<noteq> 0 then Rl_wait else Rl_inc, l)"
| "rwlock_rlock Rl_inc l = (Rl_test, l\<lparr>rw_read := rw_read l + 1\<rparr>)"
| "rwlock_rlock Rl_test l = (if rw_write l \<noteq> 0 then Rl_dec else Rw_reading, l)"
| "rwlock_rlock Rl_dec l = (Rl_wait, l\<lparr>rw_read := rw_read l - 1\<rparr>)"
| "rwlock_rlock pc l = (pc, l)"

fun rwlock_wlock :: "bool \<Rightarrow> rw_pc \<Rightarrow> rwlock \<Rightarrow> rw_pc \<times> rwlock" where
  "rwlock_wlock fails Rw_out l = (Wl_cas, l)"
| "rwlock_wlock fails Wl_cas l = (if rw_write l = 0 \<and> \<not> fails then (Wl_wait, l\<lparr>rw_write := 1\<rparr>) else (Wl_cas, l))"
| "rwlock_wlock fails Wl_wait l = (if rw_read l \<noteq> 0 then Wl_wait else Rw_writing, l)"
| "rwlock_wlock fails pc l = (pc, l)"

definition rwlock_wunlock :: "rwlock \<Rightarrow> rw_pc \<times> rwlock" where
  "rwlock_wunlock l = (Rw_out, l\<lparr>rw_write := 0\<rparr>)"

definition rwlock_runlock :: "rwlock \<Rightarrow> rw_pc \<times> rwlock" where
  "rwlock_runlock l = (Rw_out, l\<lparr>rw_read := rw_read l - 1\<rparr>)"

text \<open>Any thread makes its next step; a thread outside calls one of the two functions, one with the lock gives it back.\<close>

type_synonym rw_state = "(nat \<Rightarrow> rw_pc) \<times> rwlock"

definition rw_waiting :: "rw_pc \<Rightarrow> bool" where
  "rw_waiting pc \<longleftrightarrow> pc \<in> {Rl_wait, Rl_inc, Rl_test, Rl_dec}"

inductive rw_step :: "rw_state \<Rightarrow> rw_state \<Rightarrow> bool" where
  rlock: "pc t = Rw_out \<or> rw_waiting (pc t) \<Longrightarrow> rwlock_rlock (pc t) l = (p, l') \<Longrightarrow> rw_step (pc, l) (pc(t := p), l')"
| wlock: "pc t \<in> {Rw_out, Wl_cas, Wl_wait} \<Longrightarrow> rwlock_wlock fails (pc t) l = (p, l') \<Longrightarrow> rw_step (pc, l) (pc(t := p), l')"
| runlock: "pc t = Rw_reading \<Longrightarrow> rwlock_runlock l = (p, l') \<Longrightarrow> rw_step (pc, l) (pc(t := p), l')"
| wunlock: "pc t = Rw_writing \<Longrightarrow> rwlock_wunlock l = (p, l') \<Longrightarrow> rw_step (pc, l) (pc(t := p), l')"

inductive rw_reachable :: "rw_state \<Rightarrow> bool" where
  init: "rw_reachable (\<lambda>_. Rw_out, rwlock_init)"
| step: "rw_reachable s \<Longrightarrow> rw_step s s' \<Longrightarrow> rw_reachable s'"

section \<open>The spin lock\<close>

datatype spin_pc = Sp_out | Sp_set | Sp_load | Sp_try | Sp_holds

definition spinlock_init :: int where "spinlock_init = 0"

text \<open>The exchange returns the old value; behind it the loop reads until the lock looks free.\<close>

fun spinlock_lock :: "spin_pc \<Rightarrow> int \<Rightarrow> spin_pc \<times> int" where
  "spinlock_lock Sp_out l = (Sp_set, l)"
| "spinlock_lock Sp_set l = (if l = 0 then Sp_holds else Sp_load, 1)"
| "spinlock_lock Sp_load l = (if l \<noteq> 0 then Sp_load else Sp_set, l)"
| "spinlock_lock pc l = (pc, l)"

fun spinlock_trylock :: "spin_pc \<Rightarrow> int \<Rightarrow> spin_pc \<times> int" where
  "spinlock_trylock Sp_out l = (if l \<noteq> 0 then Sp_out else Sp_try, l)"
| "spinlock_trylock Sp_try l = (if l = 0 then Sp_holds else Sp_out, 1)"
| "spinlock_trylock pc l = (pc, l)"

definition spinlock_unlock :: "int \<Rightarrow> spin_pc \<times> int" where
  "spinlock_unlock l = (Sp_out, 0)"

type_synonym spin_state = "(nat \<Rightarrow> spin_pc) \<times> int"

inductive spin_step :: "spin_state \<Rightarrow> spin_state \<Rightarrow> bool" where
  lock: "pc t \<in> {Sp_out, Sp_set, Sp_load} \<Longrightarrow> spinlock_lock (pc t) l = (p, l') \<Longrightarrow> spin_step (pc, l) (pc(t := p), l')"
| trylock: "pc t \<in> {Sp_out, Sp_try} \<Longrightarrow> spinlock_trylock (pc t) l = (p, l') \<Longrightarrow> spin_step (pc, l) (pc(t := p), l')"
| unlock: "pc t = Sp_holds \<Longrightarrow> spinlock_unlock l = (p, l') \<Longrightarrow> spin_step (pc, l) (pc(t := p), l')"

inductive spin_reachable :: "spin_state \<Rightarrow> bool" where
  spin_init: "spin_reachable (\<lambda>_. Sp_out, spinlock_init)"
| spin_step: "spin_reachable s \<Longrightarrow> spin_step s s' \<Longrightarrow> spin_reachable s'"

section \<open>Invariants\<close>

definition counted :: "(nat \<Rightarrow> rw_pc) \<Rightarrow> nat set" where
  "counted pc = {t. pc t \<in> {Rl_test, Rl_dec, Rw_reading}}"

definition claims :: "(nat \<Rightarrow> rw_pc) \<Rightarrow> nat set" where
  "claims pc = {t. pc t \<in> {Wl_wait, Rw_writing}}"

definition rw_inv :: "rw_state \<Rightarrow> bool" where
  "rw_inv s \<longleftrightarrow> (case s of (pc, l) \<Rightarrow> finite (counted pc) \<and> rw_read l = int (card (counted pc)) \<and>
     (if rw_write l = 0 then claims pc = {} else \<exists>t. claims pc = {t}) \<and>
     (\<forall>t u. pc t = Rw_writing \<longrightarrow> pc u \<noteq> Rw_reading))"

lemma counted_upd: "counted (pc(t := p)) = (if p \<in> {Rl_test, Rl_dec, Rw_reading} then insert t (counted pc) else counted pc - {t})"
  by (auto simp: counted_def)

lemma claims_upd: "claims (pc(t := p)) = (if p \<in> {Wl_wait, Rw_writing} then insert t (claims pc) else claims pc - {t})"
  by (auto simp: claims_def)

lemma card_counted: "finite (counted pc) \<Longrightarrow> t \<in> counted pc \<Longrightarrow> int (card (counted pc - {t})) = int (card (counted pc)) - 1"
  using card_Suc_Diff1[of "counted pc" t] by linarith

lemma rw_invD:
  assumes "rw_inv (pc, l)"
  shows "finite (counted pc)" "rw_read l = int (card (counted pc))" "if rw_write l = 0 then claims pc = {} else \<exists>t. claims pc = {t}"
    "pc t = Rw_writing \<Longrightarrow> pc u \<noteq> Rw_reading"
  using assms by (auto simp: rw_inv_def)

lemma claims_iff: "t \<in> claims pc \<longleftrightarrow> pc t \<in> {Wl_wait, Rw_writing}" and counted_iff: "t \<in> counted pc \<longleftrightarrow> pc t \<in> {Rl_test, Rl_dec, Rw_reading}"
  by (simp_all add: claims_def counted_def)

lemma rw_keep:
  assumes "rw_inv (pc, l)" "pc t \<notin> {Rl_test, Rl_dec, Rw_reading, Wl_wait, Rw_writing}" "p \<notin> {Rl_test, Rl_dec, Rw_reading, Wl_wait, Rw_writing}"
  shows "rw_inv (pc(t := p), l)"
  using assms claims_iff[of t pc] counted_iff[of t pc] by (auto simp: rw_inv_def counted_upd claims_upd)

lemma rw_inv_rlock:
  assumes "rw_inv (pc, l)" "pc t = Rw_out \<or> rw_waiting (pc t)" "rwlock_rlock (pc t) l = (p, l')"
  shows "rw_inv (pc(t := p), l')"
proof -
  note I = rw_invD[OF assms(1)]
  consider "pc t = Rw_out" | "pc t = Rl_wait" | "pc t = Rl_inc" | "pc t = Rl_test" | "pc t = Rl_dec" using assms(2) by (auto simp: rw_waiting_def)
  then show ?thesis
  proof cases
    case 3
    then show ?thesis using assms(3) I claims_iff[of t pc] counted_iff[of t pc] by (auto simp: rw_inv_def counted_upd claims_upd)
  next
    case 4
    have "pc u \<noteq> Rw_writing" if "rw_write l = 0" for u using that I(3) claims_iff[of u pc] by auto
    then show ?thesis
      using 4 assms(3) I claims_iff[of t pc] counted_iff[of t pc] by (auto simp: rw_inv_def counted_upd claims_upd insert_absorb split: if_splits)
  next
    case 5
    then show ?thesis
      using assms(3) I claims_iff[of t pc] counted_iff[of t pc] card_counted[of pc t] by (auto simp: rw_inv_def counted_upd claims_upd)
  qed (use assms(3) rw_keep[OF assms(1), of t] in \<open>auto split: if_splits\<close>)
qed

lemma rw_inv_wlock:
  assumes "rw_inv (pc, l)" "pc t \<in> {Rw_out, Wl_cas, Wl_wait}" "rwlock_wlock fails (pc t) l = (p, l')"
  shows "rw_inv (pc(t := p), l')"
proof -
  note I = rw_invD[OF assms(1)]
  consider "pc t = Rw_out" | "pc t = Wl_cas" | "pc t = Wl_wait" using assms(2) by auto
  then show ?thesis
  proof cases
    case 2
    then show ?thesis
      using assms(3) I claims_iff[of t pc] counted_iff[of t pc] rw_keep[OF assms(1), of t Wl_cas]
      by (auto simp: rw_inv_def counted_upd claims_upd split: if_splits)
  next
    case 3
    have "pc u \<noteq> Rw_reading" if "rw_read l = 0" for u using that I(1,2) counted_iff[of u pc] by auto
    then show ?thesis
      using 3 assms(3) I claims_iff[of t pc] counted_iff[of t pc] by (auto simp: rw_inv_def counted_upd claims_upd insert_absorb split: if_splits)
  qed (use assms(3) rw_keep[OF assms(1), of t] in auto)
qed

lemma rw_inv_step: "rw_step s s' \<Longrightarrow> rw_inv s \<Longrightarrow> rw_inv s'"
proof (induction rule: rw_step.induct)
  case (rlock pc t l p l')
  then show ?case using rw_inv_rlock by blast
next
  case (wlock pc t fails l p l')
  then show ?case using rw_inv_wlock by blast
next
  case (runlock pc t l p l')
  then show ?case
    using rw_invD[OF runlock.prems] claims_iff[of t pc] counted_iff[of t pc] card_counted[of pc t]
    by (auto simp: rwlock_runlock_def rw_inv_def counted_upd claims_upd)
next
  case (wunlock pc t l p l')
  then have "claims pc = {t}" using rw_invD(3)[OF wunlock.prems] claims_iff[of t pc] by (auto split: if_splits)
  then show ?case
    using wunlock rw_invD[OF wunlock.prems] counted_iff[of t pc] by (auto simp: rwlock_wunlock_def rw_inv_def counted_upd claims_upd)
qed

lemma rw_inv_init: "rw_inv (\<lambda>_. Rw_out, rwlock_init)"
  by (simp add: rw_inv_def counted_def claims_def rwlock_init_def)

lemma rw_reachable_inv: "rw_reachable s \<Longrightarrow> rw_inv s"
  by (induction rule: rw_reachable.induct) (auto intro: rw_inv_init rw_inv_step)

definition holders :: "(nat \<Rightarrow> spin_pc) \<Rightarrow> nat set" where
  "holders pc = {t. pc t = Sp_holds}"

definition spin_inv :: "spin_state \<Rightarrow> bool" where
  "spin_inv s \<longleftrightarrow> (case s of (pc, l) \<Rightarrow> if l = 0 then holders pc = {} else \<exists>t. holders pc = {t})"

lemma holders_upd: "holders (pc(t := p)) = (if p = Sp_holds then insert t (holders pc) else holders pc - {t})"
  by (auto simp: holders_def)

lemma holders_not: "pc t \<noteq> Sp_holds \<Longrightarrow> holders pc - {t} = holders pc"
  by (auto simp: holders_def)

lemma spin_inv_step: "spin_step s s' \<Longrightarrow> spin_inv s \<Longrightarrow> spin_inv s'"
proof (induction rule: spin_step.induct)
  case (lock pc t l p l')
  then show ?case by (cases "pc t") (auto simp: spin_inv_def holders_upd holders_not split: if_splits)
next
  case (trylock pc t l p l')
  then show ?case by (cases "pc t") (auto simp: spin_inv_def holders_upd holders_not split: if_splits)
next
  case (unlock pc t l p l')
  then have "t \<in> holders pc" by (simp add: holders_def)
  then show ?case using unlock by (auto simp: spin_inv_def spinlock_unlock_def holders_upd split: if_splits)
qed

lemma spin_reachable_inv: "spin_reachable s \<Longrightarrow> spin_inv s"
proof (induction rule: spin_reachable.induct)
  case spin_init
  then show ?case by (simp add: spin_inv_def spinlock_init_def holders_def)
qed (rule spin_inv_step)

lemma new_reader:
  "rw_step s s' \<Longrightarrow> fst s' u = Rw_reading \<Longrightarrow> fst s u \<noteq> Rw_reading \<Longrightarrow> rw_write (snd s) = 0"
proof (induction rule: rw_step.induct)
  case (rlock pc t l p l')
  then show ?case by (cases "pc t") (auto split: if_splits)
next
  case (wlock pc t fails l p l')
  then show ?case by (cases "pc t") (auto split: if_splits)
qed (auto simp: rwlock_runlock_def rwlock_wunlock_def split: if_splits)

section \<open>Progress\<close>

lemma rw_steps_inv: "rw_step\<^sup>*\<^sup>* s s' \<Longrightarrow> rw_inv s \<Longrightarrow> rw_inv s'"
  by (induction rule: rtranclp_induct) (auto intro: rw_inv_step)

text \<open>While a writer waits, a thread that is counted as a reader can leave.\<close>

lemma counted_leaves:
  assumes "rw_inv (pc, l)" "pc t = Wl_wait" "u \<in> counted pc"
  shows "\<exists>pc' l'. rw_step\<^sup>*\<^sup>* (pc, l) (pc', l') \<and> pc' t = Wl_wait \<and> counted pc' = counted pc - {u}"
proof -
  have tu: "t \<noteq> u" using assms(2,3) by (auto simp: counted_def)
  have w: "rw_write l \<noteq> 0" using rw_invD(3)[OF assms(1)] assms(2) claims_iff[of t pc] by (auto split: if_splits)
  have dec: "rw_step (pc', l) (pc'(u := Rl_wait), l\<lparr>rw_read := rw_read l - 1\<rparr>)" if "pc' u = Rl_dec" for pc'
    using that by (intro rw_step.rlock) (auto simp: rw_waiting_def)
  consider "pc u = Rw_reading" | "pc u = Rl_dec" | "pc u = Rl_test" using assms(3) by (auto simp: counted_def)
  then show ?thesis
  proof cases
    case 1
    then have "rw_step (pc, l) (pc(u := Rw_out), l\<lparr>rw_read := rw_read l - 1\<rparr>)"
      by (intro rw_step.runlock) (auto simp: rwlock_runlock_def)
    then show ?thesis using assms(2) tu
      by (intro exI[of _ "pc(u := Rw_out)"] exI[of _ "l\<lparr>rw_read := rw_read l - 1\<rparr>"]) (auto simp: counted_upd)
  next
    case 2
    then show ?thesis using dec[of pc] assms(2) tu
      by (intro exI[of _ "pc(u := Rl_wait)"] exI[of _ "l\<lparr>rw_read := rw_read l - 1\<rparr>"]) (auto simp: counted_upd)
  next
    case 3
    then have "rw_step (pc, l) (pc(u := Rl_dec), l)" using w by (intro rw_step.rlock) (auto simp: rw_waiting_def)
    then have "rw_step\<^sup>*\<^sup>* (pc, l) (pc(u := Rl_wait), l\<lparr>rw_read := rw_read l - 1\<rparr>)"
      using dec[of "pc(u := Rl_dec)"] by (simp add: converse_rtranclp_into_rtranclp)
    then show ?thesis using assms(2) tu
      by (intro exI[of _ "pc(u := Rl_wait)"] exI[of _ "l\<lparr>rw_read := rw_read l - 1\<rparr>"]) (auto simp: counted_upd)
  qed
qed

lemma writer_enters:
  "rw_inv (pc, l) \<Longrightarrow> pc t = Wl_wait \<Longrightarrow> \<exists>pc' l'. rw_step\<^sup>*\<^sup>* (pc, l) (pc', l') \<and> pc' t = Rw_writing"
proof (induction "card (counted pc)" arbitrary: pc l)
  case 0
  then have "rw_read l = 0" using rw_invD(2)[OF 0(2)] by simp
  then have "rw_step (pc, l) (pc(t := Rw_writing), l)" using 0 by (intro rw_step.wlock[where fails = False]) auto
  then have "rw_step\<^sup>*\<^sup>* (pc, l) (pc(t := Rw_writing), l)" by (rule r_into_rtranclp)
  then show ?case by (metis fun_upd_same)
next
  case (Suc n)
  then obtain u where u: "u \<in> counted pc" by fastforce
  obtain pc' l' where s: "rw_step\<^sup>*\<^sup>* (pc, l) (pc', l')" "pc' t = Wl_wait" "counted pc' = counted pc - {u}"
    using counted_leaves[OF Suc.prems u] by blast
  have "card (counted pc') = n" using s(3) u Suc.hyps(2) rw_invD(1)[OF Suc.prems(1)] by simp
  then obtain pc'' l'' where "rw_step\<^sup>*\<^sup>* (pc', l') (pc'', l'')" "pc'' t = Rw_writing"
    using Suc.hyps(1)[OF _ rw_steps_inv[OF s(1) Suc.prems(1)] s(2)] by metis
  then show ?case using rtranclp_trans[OF s(1)] by blast
qed

section \<open>Properties\<close>

text \<open>C16. The lock of readers and writers: in every state that any number of threads can reach, step by step of their atomic operations, a
  writer is alone, and while a writer waits no reader gets in: a step after which there is a new reader is a step from
  a state in which nobody has claimed the lock for writing.\<close>

theorem rwlock_exclusion:
  assumes "rw_reachable (pc, l)"
  shows "(pc t = Rw_writing \<longrightarrow> (\<forall>u. pc u \<noteq> Rw_reading) \<and> (\<forall>u. pc u = Rw_writing \<longrightarrow> u = t)) \<and>
    (\<forall>pc' l' u. rw_step (pc, l) (pc', l') \<and> pc' u = Rw_reading \<and> pc u \<noteq> Rw_reading \<longrightarrow> (\<forall>v. pc v \<notin> {Wl_wait, Rw_writing}))"
proof -
  note I = rw_reachable_inv[OF assms]
  have one: "u = v" if "u \<in> claims pc" "v \<in> claims pc" for u v using that rw_invD(3)[OF I] by (auto split: if_splits)
  have free: "v \<notin> claims pc" if "rw_step (pc, l) (pc', l')" "pc' u = Rw_reading" "pc u \<noteq> Rw_reading" for pc' l' u v
    using new_reader[OF that(1), of u] that(2,3) rw_invD(3)[OF I] by simp
  show ?thesis
  proof (intro conjI impI allI)
    show "pc u \<noteq> Rw_reading" if "pc t = Rw_writing" for u using rw_invD(4)[OF I that] .
    show "u = t" if "pc t = Rw_writing" "pc u = Rw_writing" for u using one[of u t] that claims_iff[of _ pc] by simp
  qed (use free claims_iff[of _ pc] in blast)
qed


text \<open>The spin lock: in every reachable state at most one thread has the lock, taken by \<open>spinlock_lock\<close> or \<open>spinlock_trylock\<close>, and
  when none has it the lock is free.\<close>

theorem spinlock_exclusion:
  assumes "spin_reachable (pc, l)"
  shows "(pc t = Sp_holds \<longrightarrow> pc u = Sp_holds \<longrightarrow> t = u) \<and> ((\<forall>v. pc v \<noteq> Sp_holds) \<longleftrightarrow> l = 0)"
proof (cases "l = 0")
  case False
  then obtain a where a: "holders pc = {a}" using spin_reachable_inv[OF assms] by (auto simp: spin_inv_def)
  have "pc v = Sp_holds \<longleftrightarrow> v = a" for v using a by (auto simp: holders_def)
  then show ?thesis using False by simp
qed (use spin_reachable_inv[OF assms] in \<open>auto simp: spin_inv_def holders_def\<close>)

section \<open>Examples\<close>

text \<open>Thread 1 reads when thread 0 claims the lock.\<close>

lemma demo_claimed: "\<exists>pc l. rw_reachable (pc, l) \<and> pc 0 = Wl_wait \<and> pc 1 = Rw_reading"
proof -
  let ?a = "(\<lambda>_. Rw_out)(1 := Rl_wait)" and ?r = "rwlock_init\<lparr>rw_read := 1\<rparr>"
  have s: "rw_step (\<lambda>_. Rw_out, rwlock_init) (?a, rwlock_init)" "rw_step (?a, rwlock_init) (?a(1 := Rl_inc), rwlock_init)"
    "rw_step (?a(1 := Rl_inc), rwlock_init) (?a(1 := Rl_inc, 1 := Rl_test), ?r)"
    "rw_step (?a(1 := Rl_inc, 1 := Rl_test), ?r) (?a(1 := Rl_inc, 1 := Rl_test, 1 := Rw_reading), ?r)"
    by (intro rw_step.rlock; simp add: rw_waiting_def rwlock_init_def)+
  let ?b = "?a(1 := Rl_inc, 1 := Rl_test, 1 := Rw_reading)"
  have "rw_step (?b, ?r) (?b(0 := Wl_cas), ?r)" "rw_step (?b(0 := Wl_cas), ?r) (?b(0 := Wl_cas, 0 := Wl_wait), ?r\<lparr>rw_write := 1\<rparr>)"
    by (intro rw_step.wlock[where fails = False]; simp add: rwlock_init_def)+
  then have "rw_reachable (?b(0 := Wl_cas, 0 := Wl_wait), ?r\<lparr>rw_write := 1\<rparr>)"
    using s rw_reachable.init rw_reachable.step by blast
  then show ?thesis by fastforce
qed

theorem rwlock_exclusion_witness:
  "\<exists>pc l. rw_reachable (pc, l) \<and> pc 1 = Rw_reading \<and> pc 0 \<noteq> Rw_writing \<and>
     (\<forall>pc' l' u. rw_step (pc, l) (pc', l') \<and> pc' u = Rw_reading \<longrightarrow> pc u = Rw_reading)"
proof -
  obtain pc l where r: "rw_reachable (pc, l)" "pc 0 = Wl_wait" "pc 1 = Rw_reading" using demo_claimed by blast
  then show ?thesis using conjunct2[OF rwlock_exclusion[OF r(1), of 0]] by (intro exI[of _ pc] exI[of _ l] conjI) (simp_all, metis r(2))
qed


end
