(* ===== verification/Spec2Isabelle.thy ===== *)
theory Spec2Isabelle
  imports Commands Scheduler Gate Netpack Des Sha1 Hmac64 SeriStream HarborLink ClusterLink SprotoPack Locks
begin

text \<open>
  Verification of the C core of qiuqiu, a game server built on a skynet node (\<open>src/skynet/\<close>).

  \<^bold>\<open>The program.\<close> A node runs services, each with a mailbox. \<open>skynet-src/\<close> has the node itself: message queues
  and the global list of queues that hold messages, from which worker threads take their work; tables from handles and
  names to services; a timer; the launching, addressing, dispatching and retiring of services with reference counts; the
  text commands of services; the link to the socket server. \<open>service-src/\<close> has the services written in C, of which the
  gate cuts the byte streams of clients into frames and forwards them to agents, and the harbor sends messages
  to services of other nodes. \<open>lualib-src/\<close> has the C libraries of the services written in Lua: the packet
  splitter, serialisation, cryptography, the packets of clusters, the packing of sproto messages.

  \<^bold>\<open>The theories.\<close>
  \<^item> \<open>Prelude\<close>, \<open>Clib\<close>: C integers, arrays and strings, the used parts of the C library.
  \<^item> Contracts, each a locale with what its clients may conclude: \<open>Fifo_Spec\<close> (queues), \<open>Directory_Spec\<close> (registries, name
    tables, slot tables), \<open>Alarm_Spec\<close> (timers), \<open>Framing\<close> (the wire format of frames; byte buffers),
    \<open>Digest_Spec\<close> (SHA-1, MD5 and HMAC of the standards; digests computed piece by piece).
  \<^item> \<open>SkynetMQ\<close> (\<open>skynet_mq.c\<close>): \<open>struct message_queue\<close> is the record \<open>message_queue\<close>, the queues are a store of addresses
    linked by \<open>mq_next\<close>. The ring is proved a FIFO queue through growth and wrap-around.
  \<^item> \<open>Scheduler\<close>: the interleavings of all queue operations by any number of threads, as the step relation \<open>sched_step\<close>;
    the invariant \<open>sched_inv\<close> gives in-order delivery, no lost wake-up, exclusive dispatch, no use after free, and
    with the relations \<open>run\<close> and \<open>work\<close> that queues are served in turn and each message can be delivered.
  \<^item> \<open>Handle\<close> (\<open>skynet_handle.c\<close>): open addressing with growth and the sorted array of names, as registry and naming.
  \<^item> \<open>Timer\<close> (\<open>skynet_timer.c\<close>): the wheel of five levels over a wrapping 32-bit clock; a timer fires exactly on time.
  \<^item> \<open>Node\<close>, \<open>Server\<close>, \<open>Commands\<close> (\<open>skynet_server.c\<close>, \<open>skynet_module.c\<close>, \<open>skynet_env.c\<close>, \<open>skynet_error.c\<close>, \<open>skynet_harbor.c\<close>,
    \<open>skynet_monitor.c\<close>, \<open>skynet_log.c\<close>, \<open>skynet_log_svccpu.c\<close>): the record \<open>world\<close> is the state of a node; contexts, message
    blocks and queues live in stores, so that references, leaks and double frees show. Sending, dispatch, launch, retirement and all
    commands, with what they do to the mailboxes (\<open>mailbox\<close>) under the invariant \<open>node_ok\<close>.
  \<^item> \<open>Socket\<close> (\<open>skynet_socket.c\<close>): socket events to messages, requests to the socket server.
  \<^item> \<open>HashId\<close> (\<open>hashid.h\<close>), \<open>DataBuffer\<close> (\<open>databuffer.h\<close>), \<open>Gate\<close> (\<open>service_gate.c\<close>): the connection table as a slot table, the chain
    of received blocks as a byte buffer, and the gate, which is proved to forward exactly the frames of each stream.
  \<^item> \<open>Netpack\<close> (\<open>lua-netpack.c\<close>): the packet splitter for interleaved chunks of many sockets, and \<open>lpack\<close>.
  \<^item> \<open>Codec\<close>, \<open>KeyExchange\<close>, \<open>Des\<close>, \<open>Hmac64\<close> (\<open>lua-crypt.c\<close>) and \<open>Sha1\<close> (\<open>lsha1.c\<close>): the codecs and DES are undone by their
    inverses; modular powers are the mathematical ones; the digests are those of the standards.
  \<^item> \<open>Seri\<close>, \<open>SeriStream\<close> (\<open>lua-seri.c\<close>): the chain of blocks as a byte sink, the wire format of values, its reader: a round
    trip, safe reading of any bytes, and what is refused.
  \<^item> \<open>Harbor\<close>, \<open>HarborLink\<close> (\<open>service_harbor.c\<close>): the queues of waiting messages as FIFO queues, global names, connections
    and packets; from node to node messages arrive unchanged and in order, and two ways in which they do not.
  \<^item> \<open>Cluster\<close>, \<open>ClusterLink\<close> (\<open>lua-cluster.c\<close>, and how \<open>clusteragent.lua\<close> collects parts): requests whose packets are
    interleaved in one stream arrive once and complete, responses come back, and no packet is read outside its end.
  \<^item> \<open>SprotoPack\<close> (\<open>sproto_pack\<close> and \<open>sproto_unpack\<close> of \<open>sproto.c\<close>, with \<open>lsproto.c\<close>): the packer, which works in place, writes the
    specified format within the bound its comment gives, and the unpacker inverts it and accepts any input.
  \<^item> \<open>Locks\<close> (\<open>rwlock.h\<close>, \<open>spinlock.h\<close>): the step relations \<open>rw_step\<close> and \<open>spin_step\<close> of the atomic operations; writers exclude all others
    and a waiting writer can get in, and a spin lock has one holder.

  \<^bold>\<open>Conventions.\<close> The result \<open>None\<close> is undefined behaviour, an assertion that fails, or memory used after it was freed; a
  theorem that says \<open>= Some ...\<close> excludes them. Signed arithmetic that may overflow goes through \<open>cint\<close>, unsigned types are words.
  Lua errors are \<open>Inl\<close> values, or \<open>Raise\<close> in the reader of \<open>Seri\<close>. Code outside of the sources is a field of the
  record \<open>ext\<close> (callbacks of services, the dynamic linker, the log files, the results \<open>x_socket\<close> of calls to the
  socket server, which are recorded as requests) or an argument (clock readings, \<open>lua_rawlen\<close>, random numbers).
  Operations that hold a lock are one step, which the exclusion shown in \<open>Locks\<close> justifies; except for \<open>Scheduler\<close>, \<open>Locks\<close> and the registration race of \<open>Handle\<close> the theories are
  about their sequential composition.

  \<^bold>\<open>Bounds.\<close> A queue holds up to \<open>2 ^ 29 - 1\<close> messages and a node up to \<open>2 ^ 24 - 1\<close> handles, the numbers at which an \<open>int\<close>
  overflows or the handles run out. Delays are up to \<open>INT_MAX\<close> ticks, frames of the gate below 16M, its
  connections up to \<open>2 ^ 30\<close>, packets in a splitter up to \<open>2 ^ 31 - 1025\<close>, pieces hashed at once below \<open>2 ^ 29\<close> bytes,
  serialised values up to \<open>INT_MAX\<close> bytes and 32 levels of tables, \<open>2 ^ 30 - 1\<close> messages that wait in a harbor and
  packets of harbors below \<open>2 ^ 24\<close> bytes, messages of clusters below \<open>2 ^ 31\<close> bytes, sproto messages up to \<open>0x7f0000\<close> bytes. Loops without a structural bound have a termination proof or are \<open>partial_function (option)\<close> with the
  proof that they return. The reader of \<open>Seri\<close> has fuel, five times the bytes left and five more, which is proved enough for every stream.

  \<^bold>\<open>Not modelled.\<close> \<open>socket_server.c\<close> (system calls of the network), \<open>skynet_start.c\<close> and \<open>skynet_daemon.c\<close> (threads and processes), \<open>malloc_hook.c\<close>, the services
  \<open>service_snlua.c\<close> and \<open>service_logger.c\<close> (the Lua interpreter, files), the rest of \<open>sproto.c\<close>, the remaining
  libraries in \<open>lualib-src/\<close>, and third-party code (\<open>3rd/\<close>, \<open>luaclib_src/\<close>). Failing allocation is not followed.
\<close>

section \<open>Properties across components\<close>



end
